(* ===== verification/Wlan_Prelude.thy ===== *)
theory Wlan_Prelude
  imports Main "HOL-Library.Word"
begin

text \<open>
  Shared vocabulary of the development: the C integer types of \<open>utils/tidef.h\<close>, the
  driver's status codes, and generic facts on words and lists, and the generic notion of a
  reachable state with its invariant rule. The build defines \<open>TI_DBG\<close> in both branches of
  \<open>stad/build/linux/common.inc\<close>, so the models below are of the code with \<open>TI_DBG\<close> on.
\<close>

unbundle bit_operations_syntax

type_synonym u8 = "8 word"
type_synonym u16 = "16 word"
type_synonym u32 = "32 word"

text \<open>A handle or a pointer is an address of the 32-bit target; \<open>0\<close> is \<open>NULL\<close>.\<close>

type_synonym handle = u32

abbreviation NULL :: handle where "NULL \<equiv> 0"

text \<open>
  \<open>TI_STATUS\<close> (\<open>utils/tidef.h\<close>) and \<open>ETxnStatus\<close> (\<open>Txn/TxnDefs.h\<close>) share one integer
  type in the code and their values are pairwise different, so they are one enumeration here.
\<close>

datatype ti_status =
    TI_OK | TI_NOK
  | TXN_STATUS_NONE | TXN_STATUS_OK | TXN_STATUS_COMPLETE | TXN_STATUS_PENDING | TXN_STATUS_ERROR

named_theorems wf_defs \<open>well-formedness predicates of the components\<close>
named_theorems op_defs \<open>operations of the components\<close>

section \<open>Words\<close>

lemma unat_inc [simp]:
  fixes a b :: "'a::len word"
  assumes "a < b"
  shows "unat (a + 1) = Suc (unat a)"
proof -
  have "unat b < 2 ^ LENGTH('a)" by (rule unsigned_less)
  then have "Suc (unat a) < 2 ^ LENGTH('a)"
    using assms unfolding word_less_nat_alt by linarith
  then show ?thesis by (simp add: unat_word_ariths)
qed

lemma unat_dec [simp]:
  fixes a :: "'a::len word"
  assumes "a \<noteq> 0"
  shows "unat (a - 1) = unat a - 1"
  using assms by (simp add: unat_minus_one)

lemma unat_le_diff:
  fixes a b :: "'a::len word"
  assumes "b \<le> a"
  shows "unat (a - b) = unat a - unat b"
  using assms by (simp add: unat_sub)

lemma unat_add_bounded:
  fixes a b :: "'a::len word"
  assumes "unat a + unat b < 2 ^ LENGTH('a)"
  shows "unat (a + b) = unat a + unat b"
  using assms by (simp add: unat_word_ariths)

lemma unat_ucast_up [simp]:
  fixes x :: "'a::len word"
  assumes "LENGTH('a) \<le> LENGTH('b::len)"
  shows "unat (ucast x :: 'b word) = unat x"
proof -
  have "unat x < 2 ^ LENGTH('a)" by (rule unsigned_less)
  also have "(2 :: nat) ^ LENGTH('a) \<le> 2 ^ LENGTH('b)" using assms by simp
  finally show ?thesis by (simp add: unsigned_ucast_eq take_bit_nat_eq_self)
qed

section \<open>Lists\<close>

lemma list_update_same_nth [simp]: "i < length xs \<Longrightarrow> xs[i := xs ! i] = xs"
  by simp

lemma nth_update: "xs[i := v] ! j = (if i = j \<and> j < length xs then v else xs ! j)"
  by (cases "i < length xs") (auto simp: nth_list_update list_update_beyond)

lemma sum_list_update_nat:
  fixes f :: "'a \<Rightarrow> nat"
  assumes "i < length xs"
  shows "sum_list (map f (xs[i := y])) + f (xs ! i) = sum_list (map f xs) + f y"
  using assms
proof (induction xs arbitrary: i)
  case Nil
  then show ?case by simp
next
  case (Cons x xs)
  show ?case
  proof (cases i)
    case 0
    then show ?thesis by simp
  next
    case (Suc j)
    with Cons.prems Cons.IH [of j] show ?thesis by simp
  qed
qed

section \<open>Reachable states and invariants\<close>

text \<open>
  A component is driven by its callers: from an initial state, any of its operations may be
  the next step. \<open>reach init step\<close> holds of the states such a sequence leads to.
\<close>

inductive reach :: "('s \<Rightarrow> bool) \<Rightarrow> ('s \<Rightarrow> 's \<Rightarrow> bool) \<Rightarrow> 's \<Rightarrow> bool"
  for init :: "'s \<Rightarrow> bool" and step :: "'s \<Rightarrow> 's \<Rightarrow> bool" where
  reach_init: "init s \<Longrightarrow> reach init step s"
| reach_step: "reach init step s \<Longrightarrow> step s t \<Longrightarrow> reach init step t"

locale state_invariant =
  fixes init :: "'s \<Rightarrow> bool"
    and step :: "'s \<Rightarrow> 's \<Rightarrow> bool"
    and invar :: "'s \<Rightarrow> bool"
  assumes invar_init: "init s \<Longrightarrow> invar s"
    and invar_step: "invar s \<Longrightarrow> step s t \<Longrightarrow> invar t"
begin

lemma reach_invar: "reach init step s \<Longrightarrow> invar s"
  by (induction rule: reach.induct) (auto intro: invar_init invar_step)

end

end
