(* ===== verification/Wlan_Fifo.thy ===== *)
theory Wlan_Fifo
  imports Wlan_Prelude
begin

text \<open>
  The contract of a bounded first-in-first-out buffer, as the driver's modules rely on it: the
  linked queue of \<open>utils/queue.c\<close> and the command ring of \<open>TWD/Ctrl/CmdQueue.c\<close> both
  provide it. \<open>enq\<close> reports whether the item was accepted, \<open>deq\<close> returns nothing on an
  empty buffer, and \<open>cont\<close> is the list of buffered items, oldest first.
\<close>

primrec enq_all :: "('s \<Rightarrow> 'a \<Rightarrow> bool \<times> 's) \<Rightarrow> 'a list \<Rightarrow> 's \<Rightarrow> 's" where
  "enq_all enq [] s = s"
| "enq_all enq (x # xs) s = enq_all enq xs (snd (enq s x))"

primrec deq_n :: "('s \<Rightarrow> 'a option \<times> 's) \<Rightarrow> nat \<Rightarrow> 's \<Rightarrow> 'a list \<times> 's" where
  "deq_n deq 0 s = ([], s)"
| "deq_n deq (Suc n) s =
     (case deq s of (None, s') \<Rightarrow> ([], s')
      | (Some x, s') \<Rightarrow> (let (xs, s'') = deq_n deq n s' in (x # xs, s'')))"

locale bounded_fifo =
  fixes enq :: "'s \<Rightarrow> 'a \<Rightarrow> bool \<times> 's"
    and deq :: "'s \<Rightarrow> 'a option \<times> 's"
    and cont :: "'s \<Rightarrow> 'a list"
    and invar :: "'s \<Rightarrow> bool"
    and full :: "'s \<Rightarrow> bool"
    and fresh :: "'s \<Rightarrow> 'a \<Rightarrow> bool"
  assumes enq_accept: "invar s \<Longrightarrow> \<not> full s \<Longrightarrow> fresh s x \<Longrightarrow> enq s x = (b, s') \<Longrightarrow>
      b \<and> invar s' \<and> cont s' = cont s @ [x]"
    and enq_full: "invar s \<Longrightarrow> full s \<Longrightarrow> enq s x = (b, s') \<Longrightarrow>
      \<not> b \<and> invar s' \<and> cont s' = cont s"
    and deq_Nil: "invar s \<Longrightarrow> cont s = [] \<Longrightarrow> deq s = (None, s)"
    and deq_Cons: "invar s \<Longrightarrow> cont s = x # xs \<Longrightarrow>
      \<exists>s'. deq s = (Some x, s') \<and> invar s' \<and> cont s' = xs"
begin

lemma deq_n_prefix:
  assumes "invar s"
  shows "fst (deq_n deq n s) = take n (cont s) \<and> invar (snd (deq_n deq n s)) \<and>
    cont (snd (deq_n deq n s)) = drop n (cont s)"
  using assms
proof (induction n arbitrary: s)
  case 0
  then show ?case by simp
next
  case (Suc n)
  show ?case
  proof (cases "cont s")
    case Nil
    with Suc.prems show ?thesis by (simp add: deq_Nil)
  next
    case (Cons x xs)
    with deq_Cons [OF Suc.prems] obtain s' where s': "deq s = (Some x, s')" "invar s'" "cont s' = xs"
      by blast
    with Suc.IH [OF s'(2)] Cons show ?thesis by (simp add: case_prod_beta)
  qed
qed

lemma deq_all:
  assumes "invar s"
  shows "fst (deq_n deq (length (cont s)) s) = cont s \<and> cont (snd (deq_n deq (length (cont s)) s)) = []"
  using deq_n_prefix [OF assms, of "length (cont s)"] by simp

lemma deq_after_enq:
  assumes "invar s" "\<not> full s" "fresh s x" "enq s x = (b, s')"
  shows "fst (deq s') = Some (hd (cont s @ [x]))"
proof -
  from enq_accept [OF assms] have s': "invar s'" "cont s' = cont s @ [x]" by auto
  then obtain y ys where ys: "cont s' = y # ys" by (cases "cont s @ [x]") auto
  with deq_Cons [OF s'(1) this] s'(2) show ?thesis by (metis fst_conv list.sel(1))
qed

end

end
