(* ===== verification/Wlan_Queue.thy ===== *)
theory Wlan_Queue
  imports Wlan_Fifo
begin

text \<open>
  \<open>utils/queue.c\<close>: the driver's generic queue, a circular doubly linked list threaded through
  a \<open>TQueNodeHdr\<close> embedded in every queued item. The pointers live in an explicit memory
  (\<open>que_mem\<close>); a queue object holds the address of its own header and its counters. The
  abstraction \<open>que_items\<close> walks the list from the oldest node and gives the queued items; the
  refinement lemmas show each operation as the list operation it implements.
\<close>

section \<open>Data\<close>

record que_mem =
  pNext :: "u32 \<Rightarrow> u32"
  pPrev :: "u32 \<Rightarrow> u32"

text \<open>\<open>tHead\<close> is the address of the queue's embedded header node.\<close>

record TQueue =
  tHead :: u32
  uCount :: u32
  uLimit :: u32
  uMaxCount :: u32
  uOverflow :: u32
  uNodeHeaderOffset :: u32

definition QUE_UNLIMITED_SIZE :: u32 where "QUE_UNLIMITED_SIZE = 0xFFFFFFFF"

section \<open>Operations\<close>

definition InsertNode :: "u32 \<Rightarrow> u32 \<Rightarrow> u32 \<Rightarrow> que_mem \<Rightarrow> que_mem" where
  "InsertNode pNode prv nxt m =
     (let m = m\<lparr>pPrev := (pPrev m)(nxt := pNode)\<rparr>;
          m = m\<lparr>pNext := (pNext m)(pNode := nxt)\<rparr>;
          m = m\<lparr>pPrev := (pPrev m)(pNode := prv)\<rparr>;
          m = m\<lparr>pNext := (pNext m)(prv := pNode)\<rparr>
      in m)"

definition RemoveNode :: "u32 \<Rightarrow> u32 \<Rightarrow> que_mem \<Rightarrow> que_mem" where
  "RemoveNode prv nxt m =
     (let m = m\<lparr>pPrev := (pPrev m)(nxt := prv)\<rparr>;
          m = m\<lparr>pNext := (pNext m)(prv := nxt)\<rparr>
      in m)"

definition AddToHead :: "u32 \<Rightarrow> u32 \<Rightarrow> que_mem \<Rightarrow> que_mem" where
  "AddToHead pNode pListHead m = InsertNode pNode pListHead (pNext m pListHead) m"

definition AddToTail :: "u32 \<Rightarrow> u32 \<Rightarrow> que_mem \<Rightarrow> que_mem" where
  "AddToTail pNode pListHead m = InsertNode pNode (pPrev m pListHead) pListHead m"

definition DelFromTail :: "u32 \<Rightarrow> que_mem \<Rightarrow> que_mem" where
  "DelFromTail pNode m = RemoveNode (pPrev m pNode) (pNext m pNode) m"

text \<open>
  \<open>que_Create\<close>: \<open>pQue\<close> is what \<open>os_memoryAlloc\<close> returned. The header is the first field,
  so its address is the object's. \<open>None\<close> is the returned \<open>NULL\<close>.
\<close>

definition que_Create :: "handle \<Rightarrow> u32 \<Rightarrow> u32 \<Rightarrow> que_mem \<Rightarrow> TQueue option \<times> que_mem" where
  "que_Create pQue limit offset m =
     (if pQue = NULL then (None, m)
      else (Some \<lparr>tHead = pQue, uCount = 0, uLimit = limit, uMaxCount = 0, uOverflow = 0,
                  uNodeHeaderOffset = offset\<rparr>,
            m\<lparr>pPrev := (pPrev m)(pQue := pQue), pNext := (pNext m)(pQue := pQue)\<rparr>))"

text \<open>\<open>que_Destroy\<close> frees a non-NULL queue object (whatever it still holds) and returns \<open>TI_OK\<close>.\<close>

fun que_Destroy :: "TQueue option \<Rightarrow> ti_status \<times> handle option" where
  "que_Destroy None = (TI_OK, None)"
| "que_Destroy (Some q) = (TI_OK, Some (tHead q))"

definition que_count_inc :: "TQueue \<Rightarrow> TQueue" where
  "que_count_inc q =
     (let q = q\<lparr>uCount := uCount q + 1\<rparr>
      in if uCount q > uMaxCount q then q\<lparr>uMaxCount := uCount q\<rparr> else q)"

fun que_Enqueue :: "que_mem \<Rightarrow> TQueue option \<Rightarrow> handle \<Rightarrow> ti_status \<times> que_mem \<times> TQueue option" where
  "que_Enqueue m None hItem = (TI_NOK, m, None)"
| "que_Enqueue m (Some q) hItem =
     (if uCount q < uLimit q then
        let hdr = hItem + uNodeHeaderOffset q in
        if pNext m hdr \<noteq> NULL then (TI_NOK, m, Some q)
        else (TI_OK, AddToHead hdr (tHead q) m, Some (que_count_inc q))
      else (TI_NOK, m, Some (q\<lparr>uOverflow := uOverflow q + 1\<rparr>)))"

fun que_Dequeue :: "que_mem \<Rightarrow> TQueue option \<Rightarrow> handle \<times> que_mem \<times> TQueue option" where
  "que_Dequeue m None = (NULL, m, None)"
| "que_Dequeue m (Some q) =
     (if uCount q \<noteq> 0 then
        let node = pPrev m (tHead q);
            hItem = node - uNodeHeaderOffset q;
            m = DelFromTail node m;
            q = q\<lparr>uCount := uCount q - 1\<rparr>;
            hdr = hItem + uNodeHeaderOffset q
        in (hItem, m\<lparr>pNext := (pNext m)(hdr := NULL)\<rparr>, Some q)
      else (NULL, m, Some q))"

text \<open>\<open>que_Requeue\<close> does not test the handle for \<open>NULL\<close>, so it takes a queue object.\<close>

definition que_Requeue :: "que_mem \<Rightarrow> TQueue \<Rightarrow> handle \<Rightarrow> ti_status \<times> que_mem \<times> TQueue" where
  "que_Requeue m q hItem =
     (if uCount q < uLimit q then
        let hdr = hItem + uNodeHeaderOffset q in
        if pNext m hdr \<noteq> NULL then (TI_NOK, m, q)
        else (TI_OK, AddToTail hdr (tHead q) m, que_count_inc q)
      else (TI_NOK, m, q\<lparr>uOverflow := uOverflow q + 1\<rparr>))"

definition que_Size :: "TQueue \<Rightarrow> u32" where
  "que_Size q = uCount q"

lemmas que_op_defs = InsertNode_def RemoveNode_def AddToHead_def AddToTail_def DelFromTail_def

section \<open>Abstraction and well-formedness\<close>

text \<open>Following \<open>pPrev\<close> from the header meets the nodes oldest first.\<close>

primrec walk :: "que_mem \<Rightarrow> u32 \<Rightarrow> nat \<Rightarrow> u32 list" where
  "walk m a 0 = []"
| "walk m a (Suc n) = pPrev m a # walk m (pPrev m a) n"

definition que_items :: "que_mem \<Rightarrow> TQueue \<Rightarrow> handle list" where
  "que_items m q = map (\<lambda>a. a - uNodeHeaderOffset q) (walk m (tHead q) (unat (uCount q)))"

text \<open>\<open>linked m a xs b\<close>: from \<open>a\<close>, the \<open>pPrev\<close> chain is \<open>xs\<close> and then \<open>b\<close>, with \<open>pNext\<close> its inverse.\<close>

primrec linked :: "que_mem \<Rightarrow> u32 \<Rightarrow> u32 list \<Rightarrow> u32 \<Rightarrow> bool" where
  "linked m a [] b \<longleftrightarrow> pPrev m a = b \<and> pNext m b = a"
| "linked m a (x # xs) b \<longleftrightarrow> pPrev m a = x \<and> pNext m x = a \<and> linked m x xs b"

definition que_nodes :: "que_mem \<Rightarrow> TQueue \<Rightarrow> u32 list" where
  "que_nodes m q = walk m (tHead q) (unat (uCount q))"

definition que_wf :: "que_mem \<Rightarrow> TQueue \<Rightarrow> bool" where [wf_defs]:
  "que_wf m q \<longleftrightarrow>
     linked m (tHead q) (que_nodes m q) (tHead q) \<and>
     distinct (tHead q # que_nodes m q) \<and>
     0 \<notin> set (tHead q # que_nodes m q) \<and>
     uNodeHeaderOffset q \<notin> set (que_nodes m q) \<and>
     uCount q \<le> uLimit q"

text \<open>An item that may be queued: a real object whose header is not already in a queue.\<close>

definition que_fresh :: "que_mem \<Rightarrow> TQueue \<Rightarrow> handle \<Rightarrow> bool" where
  "que_fresh m q hItem \<longleftrightarrow>
     hItem \<noteq> NULL \<and> hItem + uNodeHeaderOffset q \<noteq> NULL \<and> pNext m (hItem + uNodeHeaderOffset q) = NULL"

section \<open>The linked list\<close>

lemma length_walk [simp]: "length (walk m a n) = n"
  by (induction n arbitrary: a) auto

lemma linked_walk: "linked m a xs b \<Longrightarrow> walk m a (length xs) = xs"
  by (induction xs arbitrary: a) auto

lemma linked_append: "linked m a (xs @ y # ys) b \<longleftrightarrow> linked m a xs y \<and> linked m y ys b"
  by (induction xs arbitrary: a) auto

lemma linked_frame:
  assumes "\<And>z. z \<in> insert a (set xs) \<Longrightarrow> pPrev m' z = pPrev m z"
    and "\<And>z. z \<in> insert b (set xs) \<Longrightarrow> pNext m' z = pNext m z"
  shows "linked m' a xs b = linked m a xs b"
  using assms by (induction xs arbitrary: a) auto

lemma linked_next_mem: "linked m a xs b \<Longrightarrow> z \<in> insert b (set xs) \<Longrightarrow> pNext m z \<in> insert a (set xs)"
  by (induction xs arbitrary: a) auto

lemma linked_AddToHead:
  assumes "linked m h xs h" "distinct (h # xs)" "n \<notin> set (h # xs)"
  shows "linked (AddToHead n h m) h (xs @ [n]) h"
proof (cases xs rule: rev_cases)
  case Nil
  with assms show ?thesis by (simp add: que_op_defs)
next
  case (snoc ys y)
  let ?m = "AddToHead n h m"
  from assms snoc have l: "linked m h ys y" "pNext m h = y" by (simp_all add: linked_append)
  have "linked ?m h ys y = linked m h ys y"
    using assms snoc l(2) by (intro linked_frame) (auto simp: que_op_defs)
  with assms snoc l show ?thesis
    by (simp add: linked_append) (auto simp: que_op_defs)
qed

lemma linked_AddToTail:
  assumes "linked m h xs h" "distinct (h # xs)" "n \<notin> set (h # xs)"
  shows "linked (AddToTail n h m) h (n # xs) h"
proof (cases xs)
  case Nil
  with assms show ?thesis by (simp add: que_op_defs)
next
  case (Cons y ys)
  let ?m = "AddToTail n h m"
  from assms Cons have l: "linked m y ys h" "pPrev m h = y" by simp_all
  have "linked ?m y ys h = linked m y ys h"
    using assms Cons l(2) by (intro linked_frame) (auto simp: que_op_defs)
  with assms Cons l show ?thesis by simp (auto simp: que_op_defs)
qed

lemma linked_DelFromTail:
  assumes "linked m h (x # xs) h" "distinct (h # x # xs)"
  shows "linked (DelFromTail x m) h xs h"
proof (cases xs)
  case Nil
  with assms show ?thesis by (simp add: que_op_defs)
next
  case (Cons y ys)
  let ?m = "DelFromTail x m"
  from assms Cons have l: "linked m y ys h" "pPrev m x = y" "pNext m x = h" by simp_all
  have "linked ?m y ys h = linked m y ys h"
    using assms Cons l by (intro linked_frame) (auto simp: que_op_defs)
  with assms Cons l show ?thesis by simp (auto simp: que_op_defs)
qed

section \<open>Refinement of the list operations\<close>

lemma length_que_nodes [simp]: "length (que_nodes m q) = unat (uCount q)"
  by (simp add: que_nodes_def)

lemma que_items_nodes: "que_items m q = map (\<lambda>a. a - uNodeHeaderOffset q) (que_nodes m q)"
  by (simp add: que_items_def que_nodes_def)

lemma length_que_items [simp]: "length (que_items m q) = unat (uCount q)"
  by (simp add: que_items_nodes)

lemma que_wfI:
  assumes "linked m (tHead q) xs (tHead q)" "length xs = unat (uCount q)"
    "distinct (tHead q # xs)" "0 \<notin> set (tHead q # xs)" "uNodeHeaderOffset q \<notin> set xs"
    "uCount q \<le> uLimit q"
  shows "que_wf m q \<and> que_nodes m q = xs"
proof -
  have "que_nodes m q = xs"
    using linked_walk [OF assms(1)] assms(2) by (simp add: que_nodes_def)
  with assms show ?thesis by (simp add: que_wf_def)
qed

lemma que_wf_not_linked:
  assumes "que_wf m q" "pNext m a = NULL"
  shows "a \<notin> set (tHead q # que_nodes m q)"
proof
  assume a: "a \<in> set (tHead q # que_nodes m q)"
  with assms(1) have "pNext m a \<in> insert (tHead q) (set (que_nodes m q))"
    by (intro linked_next_mem [of _ _ _ "tHead q"]) (auto simp: que_wf_def)
  with assms show False by (auto simp: que_wf_def)
qed

lemma que_count_inc_simps [simp]:
  "uCount (que_count_inc q) = uCount q + 1" "uLimit (que_count_inc q) = uLimit q"
  "tHead (que_count_inc q) = tHead q" "uNodeHeaderOffset (que_count_inc q) = uNodeHeaderOffset q"
  by (simp_all add: que_count_inc_def Let_def)

lemma que_items_overflow [simp]:
  "que_items m (q\<lparr>uOverflow := v\<rparr>) = que_items m q" "que_wf m (q\<lparr>uOverflow := v\<rparr>) = que_wf m q"
  by (simp_all add: que_items_def que_wf_def que_nodes_def)

text \<open>Accepting an item at either end.\<close>

lemma que_insert_wf:
  assumes "que_wf m q" "uCount q < uLimit q" "que_fresh m q x"
    and "(m', ys) = (AddToHead (x + uNodeHeaderOffset q) (tHead q) m, que_nodes m q @ [x + uNodeHeaderOffset q]) \<or>
         (m', ys) = (AddToTail (x + uNodeHeaderOffset q) (tHead q) m, (x + uNodeHeaderOffset q) # que_nodes m q)"
  shows "que_wf m' (que_count_inc q) \<and> que_nodes m' (que_count_inc q) = ys"
proof (rule que_wfI)
  let ?n = "x + uNodeHeaderOffset q"
  from assms(1,3) have n: "?n \<notin> set (tHead q # que_nodes m q)"
    by (intro que_wf_not_linked) (simp_all add: que_fresh_def)
  from assms(1,4) n show "linked m' (tHead (que_count_inc q)) ys (tHead (que_count_inc q))"
    by (auto simp: que_wf_def simp del: linked.simps intro!: linked_AddToHead linked_AddToTail)
  from assms(1,4) n show "distinct (tHead (que_count_inc q) # ys)" by (auto simp: que_wf_def)
  from assms(1,3,4) show "0 \<notin> set (tHead (que_count_inc q) # ys)"
    by (auto simp: que_wf_def que_fresh_def)
  from assms(1,3,4) show "uNodeHeaderOffset (que_count_inc q) \<notin> set ys"
    by (auto simp: que_wf_def que_fresh_def)
  from assms(2,4) show "length ys = unat (uCount (que_count_inc q))" by auto
  from assms(2) show "uCount (que_count_inc q) \<le> uLimit (que_count_inc q)"
    by (simp add: inc_le)
qed

lemma que_Enqueue_accept:
  assumes "que_wf m q" "uCount q < uLimit q" "que_fresh m q x"
    and "que_Enqueue m (Some q) x = (st, m', q')"
  shows "st = TI_OK \<and> q' = Some (que_count_inc q) \<and> que_wf m' (que_count_inc q) \<and>
    que_items m' (que_count_inc q) = que_items m q @ [x]"
proof -
  from assms have eq: "st = TI_OK" "m' = AddToHead (x + uNodeHeaderOffset q) (tHead q) m" "q' = Some (que_count_inc q)"
    by (auto simp: que_fresh_def Let_def split: if_splits)
  with que_insert_wf [OF assms(1-3), of m' "que_nodes m q @ [x + uNodeHeaderOffset q]"] show ?thesis
    by (simp add: que_items_nodes)
qed

lemma que_Requeue_accept:
  assumes "que_wf m q" "uCount q < uLimit q" "que_fresh m q x"
    and "que_Requeue m q x = (st, m', q')"
  shows "st = TI_OK \<and> q' = que_count_inc q \<and> que_wf m' q' \<and> que_items m' q' = x # que_items m q"
proof -
  from assms have eq: "st = TI_OK" "m' = AddToTail (x + uNodeHeaderOffset q) (tHead q) m" "q' = que_count_inc q"
    by (auto simp: que_Requeue_def que_fresh_def Let_def split: if_splits)
  with que_insert_wf [OF assms(1-3), of m' "(x + uNodeHeaderOffset q) # que_nodes m q"] show ?thesis
    by (simp add: que_items_nodes)
qed

lemma que_Dequeue_step:
  assumes "que_wf m q" "que_items m q = x # xs"
  shows "\<exists>m' q'. que_Dequeue m (Some q) = (x, m', Some q') \<and> q' = q\<lparr>uCount := uCount q - 1\<rparr> \<and> x \<noteq> NULL \<and>
    que_wf m' q' \<and> que_items m' q' = xs \<and> pNext m' (x + uNodeHeaderOffset q) = NULL"
proof -
  let ?o = "uNodeHeaderOffset q" and ?h = "tHead q"
  from assms(2) obtain n ns where ns: "que_nodes m q = n # ns" and x: "x = n - ?o" and xs: "xs = map (\<lambda>a. a - ?o) ns"
    by (auto simp: que_items_nodes)
  have c: "uCount q \<noteq> 0"
    using ns length_que_nodes [of m q] by (metis Zero_not_Suc length_Cons unat_0)
  from assms(1) ns have wf: "linked m ?h (n # ns) ?h" "distinct (?h # n # ns)" "0 \<notin> set (?h # n # ns)"
    "?o \<notin> set (n # ns)" "uCount q \<le> uLimit q"
    by (auto simp: que_wf_def)
  define m1 where "m1 = DelFromTail n m"
  define m2 where "m2 = m1\<lparr>pNext := (pNext m1)(n := NULL)\<rparr>"
  define q' where "q' = q\<lparr>uCount := uCount q - 1\<rparr>"
  have "linked m1 ?h ns ?h" unfolding m1_def using wf(1,2) by (rule linked_DelFromTail)
  moreover have "linked m2 ?h ns ?h = linked m1 ?h ns ?h"
    unfolding m2_def using wf(2) by (intro linked_frame) auto
  moreover have "length ns = unat (uCount q')"
    using ns c length_que_nodes [of m q] by (simp add: q'_def)
  moreover have "uCount q' \<le> uLimit q'"
    using wf(5) c by (simp add: q'_def word_le_nat_alt)
  ultimately have w: "que_wf m2 q' \<and> que_nodes m2 q' = ns"
    using wf by (intro que_wfI) (auto simp: q'_def)
  have "que_Dequeue m (Some q) = (x, m2, Some q')"
    using c wf(1) x by (simp add: Let_def m1_def m2_def q'_def)
  with w x xs wf(4) show ?thesis by (auto simp: que_items_nodes q'_def m2_def)
qed

lemma que_Dequeue_refines_step:
  assumes "que_wf m q" "que_items m q = x # xs"
  shows "\<exists>m' q'. que_Dequeue m (Some q) = (x, m', Some q') \<and> uCount q' = uCount q - 1 \<and> que_wf m' q' \<and>
    que_items m' q' = xs \<and> que_fresh m' q' x \<and> uCount q' < uLimit q'"
proof -
  from que_Dequeue_step [OF assms] obtain m' q' where
    d: "que_Dequeue m (Some q) = (x, m', Some q')" "q' = q\<lparr>uCount := uCount q - 1\<rparr>" "x \<noteq> NULL"
      "que_wf m' q'" "que_items m' q' = xs" "pNext m' (x + uNodeHeaderOffset q) = NULL"
    by blast
  have "x + uNodeHeaderOffset q \<in> set (que_nodes m q)"
    using assms(2) by (auto simp: que_items_nodes Cons_eq_map_conv)
  with assms have "x + uNodeHeaderOffset q \<noteq> NULL" by (auto simp: que_wf_def)
  moreover have c: "0 < unat (uCount q)"
    using assms(2) length_que_items [of m q] by simp
  then have "unat (uCount q - 1) < unat (uCount q)" by (simp add: unat_gt_0)
  then have "uCount q - 1 < uLimit q"
    using assms(1) by (simp add: que_wf_def word_le_nat_alt word_less_nat_alt del: unat_dec)
  ultimately show ?thesis using d by (auto simp: que_fresh_def simp del: que_Dequeue.simps)
qed

section \<open>The queue as a bounded FIFO\<close>

text \<open>The interface the other modules use, on the pair of memory and queue object.\<close>

definition que_enq :: "que_mem \<times> TQueue \<Rightarrow> handle \<Rightarrow> bool \<times> que_mem \<times> TQueue" where
  "que_enq s x = (case que_Enqueue (fst s) (Some (snd s)) x of (st, m, q) \<Rightarrow> (st = TI_OK, m, the q))"

definition que_deq :: "que_mem \<times> TQueue \<Rightarrow> handle option \<times> que_mem \<times> TQueue" where
  "que_deq s = (case que_Dequeue (fst s) (Some (snd s)) of
     (x, m, q) \<Rightarrow> (if x = NULL then None else Some x, m, the q))"

lemma que_enq_accept:
  assumes "que_wf m q" "uCount q < uLimit q" "que_fresh m q x" "que_enq (m, q) x = (b, m', q')"
  shows "b \<and> que_wf m' q' \<and> que_items m' q' = que_items m q @ [x]"
proof -
  obtain st m1 q1 where e: "que_Enqueue m (Some q) x = (st, m1, q1)" by (cases "que_Enqueue m (Some q) x")
  from que_Enqueue_accept [OF assms(1-3) e] assms(4) e show ?thesis
    by (simp add: que_enq_def del: que_Enqueue.simps)
qed

interpretation lq: bounded_fifo que_enq que_deq "\<lambda>(m, q). que_items m q" "\<lambda>(m, q). que_wf m q"
  "\<lambda>(m, q). \<not> uCount q < uLimit q" "\<lambda>(m, q). que_fresh m q"
proof (unfold_locales, goal_cases)
  case (1 s x b s')
  then show ?case by (cases s; cases s') (auto dest: que_enq_accept)
next
  case (2 s x b s')
  then show ?case by (cases s; cases s') (auto simp: que_enq_def)
next
  case (3 s)
  obtain m q where s: "s = (m, q)" by (cases s)
  with 3 have "uCount q = 0"
    using length_que_items [of m q] by (simp add: unat_eq_zero)
  with s show ?case by (simp add: que_deq_def)
next
  case (4 s x xs)
  obtain m q where s: "s = (m, q)" by (cases s)
  with 4 que_Dequeue_step [of m q x xs] show ?case
    by (auto simp: que_deq_def simp del: que_Dequeue.simps)
qed

section \<open>Two queues in one memory\<close>

definition que_cells :: "que_mem \<Rightarrow> TQueue \<Rightarrow> u32 set" where
  "que_cells m q = set (tHead q # que_nodes m q)"

definition que_disjoint :: "que_mem \<Rightarrow> TQueue \<Rightarrow> TQueue \<Rightarrow> bool" where
  "que_disjoint m q r \<longleftrightarrow> que_cells m q \<inter> que_cells m r = {}"

definition same_cells :: "u32 set \<Rightarrow> que_mem \<Rightarrow> que_mem \<Rightarrow> bool" where
  "same_cells A m m' \<longleftrightarrow> (\<forall>z\<in>A. pNext m' z = pNext m z \<and> pPrev m' z = pPrev m z)"

lemma linked_prev_mem: "linked m a xs b \<Longrightarrow> z \<in> insert a (set xs) \<Longrightarrow> pPrev m z \<in> insert b (set xs)"
  by (induction xs arbitrary: a) auto

lemma que_frame:
  assumes "que_wf m r" "same_cells (que_cells m r) m m'"
  shows "que_wf m' r \<and> que_nodes m' r = que_nodes m r \<and> que_items m' r = que_items m r"
proof -
  have "linked m' (tHead r) (que_nodes m r) (tHead r)"
    using assms by (subst linked_frame [of _ _ _ m]) (auto simp: que_wf_def same_cells_def que_cells_def)
  with assms(1) have "que_wf m' r \<and> que_nodes m' r = que_nodes m r"
    by (intro que_wfI) (auto simp: que_wf_def)
  then show ?thesis by (simp add: que_items_nodes)
qed

lemma que_cells_closed:
  assumes "que_wf m q" "z \<in> que_cells m q"
  shows "pNext m z \<in> que_cells m q \<and> pPrev m z \<in> que_cells m q"
  using assms linked_next_mem [of m "tHead q" "que_nodes m q" "tHead q" z]
    linked_prev_mem [of m "tHead q" "que_nodes m q" "tHead q" z]
  by (auto simp: que_wf_def que_cells_def)

lemma AddToHead_frame:
  assumes "que_wf m q" "A \<inter> insert n (que_cells m q) = {}"
  shows "same_cells A m (AddToHead n (tHead q) m)"
  using assms que_cells_closed [OF assms(1), of "tHead q"]
  by (auto simp: same_cells_def que_op_defs que_cells_def)

lemma que_Enqueue_frame:
  assumes "que_wf m q" "que_wf m r" "que_disjoint m q r" "que_fresh m q x" "uCount q < uLimit q"
    and "que_Enqueue m (Some q) x = (st, m', Some q')"
  shows "que_wf m' r \<and> que_items m' r = que_items m r \<and> que_disjoint m' q' r"
proof -
  let ?n = "x + uNodeHeaderOffset q"
  from assms(4,5,6) have eq: "m' = AddToHead ?n (tHead q) m" "q' = que_count_inc q"
    by (auto simp: que_fresh_def Let_def split: if_splits)
  have n: "?n \<notin> que_cells m r"
    using que_wf_not_linked [OF assms(2), of ?n] assms(4) by (simp add: que_fresh_def que_cells_def)
  have s: "same_cells (que_cells m r) m m'"
    unfolding eq(1) using assms(1,3) n by (intro AddToHead_frame) (auto simp: que_disjoint_def)
  have "que_nodes m' q' = que_nodes m q @ [?n]"
    using que_insert_wf [OF assms(1,5,4), of m' "que_nodes m q @ [?n]"] eq by simp
  with que_frame [OF assms(2) s] eq(2) assms(3) n show ?thesis
    by (auto simp: que_disjoint_def que_cells_def)
qed

lemma que_Dequeue_frame:
  assumes "que_wf m q" "que_wf m r" "que_disjoint m q r" "que_Dequeue m (Some q) = (x, m', Some q')"
  shows "que_wf m' r \<and> que_items m' r = que_items m r \<and> que_disjoint m' q' r"
proof (cases "uCount q = 0")
  case True
  with assms show ?thesis by simp
next
  case False
  let ?n = "pPrev m (tHead q)"
  have c: "?n \<in> que_cells m q" "pNext m ?n \<in> que_cells m q" "pPrev m ?n \<in> que_cells m q"
    using que_cells_closed [OF assms(1)] by (auto simp: que_cells_def)
  from False assms(4) have m': "m' = (DelFromTail ?n m)\<lparr>pNext := (pNext (DelFromTail ?n m))(?n := NULL)\<rparr>"
    by (auto simp: Let_def)
  have "same_cells (que_cells m r) m m'"
    unfolding m' using c assms(3) by (auto simp: same_cells_def que_op_defs que_disjoint_def)
  note r = que_frame [OF assms(2) this]
  obtain y ys where ys: "que_items m q = y # ys"
    using False length_que_items [of m q] by (cases "que_items m q") (auto simp: unat_eq_zero)
  from que_Dequeue_step [OF assms(1) ys] assms(4)
  have q': "q' = q\<lparr>uCount := uCount q - 1\<rparr>" "que_items m' q' = ys" by auto
  have "set (que_nodes m' q') \<subseteq> set (que_nodes m q)"
  proof -
    have "(\<lambda>a. a - uNodeHeaderOffset q) ` set (que_nodes m' q') = set ys"
      using q' by (auto simp: que_items_nodes)
    also have "set ys \<subseteq> (\<lambda>a. a - uNodeHeaderOffset q) ` set (que_nodes m q)"
      using ys by (auto simp: que_items_nodes Cons_eq_map_conv)
    finally show ?thesis by (simp add: inj_image_subset_iff inj_def)
  qed
  with r assms(3) q'(1) show ?thesis by (auto simp: que_disjoint_def que_cells_def)
qed

section \<open>Properties of the queue\<close>

text \<open>A memory with two queue headers and one queued item, for the witnesses.\<close>

definition que_ex_mem :: que_mem where
  "que_ex_mem =
     \<lparr>pNext = (\<lambda>_. 0)(0x1000 := 0x2008, 0x2008 := 0x1000, 0x5000 := 0x5000),
      pPrev = (\<lambda>_. 0)(0x1000 := 0x2008, 0x2008 := 0x1000, 0x5000 := 0x5000)\<rparr>"

definition que_ex :: TQueue where
  "que_ex = \<lparr>tHead = 0x1000, uCount = 1, uLimit = 2, uMaxCount = 1, uOverflow = 0, uNodeHeaderOffset = 8\<rparr>"

definition que_ex2 :: TQueue where
  "que_ex2 = \<lparr>tHead = 0x5000, uCount = 0, uLimit = 2, uMaxCount = 0, uOverflow = 0, uNodeHeaderOffset = 8\<rparr>"

lemma que_ex_wf: "que_wf que_ex_mem que_ex" "que_wf que_ex_mem que_ex2"
  "que_items que_ex_mem que_ex = [0x2000]" "que_items que_ex_mem que_ex2 = []"
  "que_disjoint que_ex_mem que_ex que_ex2" "que_fresh que_ex_mem que_ex 0x3000"
  by (simp_all add: que_wf_def que_nodes_def que_items_def que_ex_mem_def que_ex_def que_ex2_def
      que_disjoint_def que_cells_def que_fresh_def)

text \<open>
  On a well-formed queue, \<open>que_Enqueue\<close> returns \<open>TI_OK\<close> exactly when the limit is not
  reached and the item's header is not already linked; then the item is the newest element of the
  list the pointers represent. In every other case the memory and the represented list are
  unchanged. The queue stays well formed.
\<close>

lemma que_Enqueue_refines_append:
  assumes "que_wf m q" "hItem \<noteq> NULL" "hItem + uNodeHeaderOffset q \<noteq> NULL"
    and "que_Enqueue m (Some q) hItem = (st, m', q')"
  shows "\<exists>r. q' = Some r \<and> que_wf m' r \<and>
    (st = TI_OK \<longleftrightarrow> uCount q < uLimit q \<and> pNext m (hItem + uNodeHeaderOffset q) = NULL) \<and>
    (if st = TI_OK then que_items m' r = que_items m q @ [hItem]
     else m' = m \<and> que_items m' r = que_items m q)"
proof (cases "uCount q < uLimit q \<and> pNext m (hItem + uNodeHeaderOffset q) = NULL")
  case True
  with que_Enqueue_accept [OF assms(1) _ _ assms(4)] assms(2,3) show ?thesis
    by (simp add: que_fresh_def)
next
  case False
  with assms(1,4) show ?thesis by (auto simp: Let_def split: if_splits)
qed

text \<open>
  C38: On a well-formed queue, \<open>que_Dequeue\<close> returns \<open>NULL\<close> and changes nothing when the queue
  is empty; otherwise it returns the oldest item, leaves the rest in order, keeps the queue well
  formed and clears the item's \<open>pNext\<close>, so that the item may be queued again.
\<close>

theorem que_Dequeue_refines_tl:
  assumes "que_wf m q"
  shows "case que_items m q of
      [] \<Rightarrow> que_Dequeue m (Some q) = (NULL, m, Some q)
    | x # xs \<Rightarrow> \<exists>m' q'. que_Dequeue m (Some q) = (x, m', Some q') \<and> x \<noteq> NULL \<and> que_wf m' q' \<and>
        que_items m' q' = xs \<and> que_fresh m' q' x"
proof (cases "que_items m q")
  case Nil
  then have "uCount q = 0" using length_que_items [of m q] by (simp add: unat_eq_zero)
  with Nil show ?thesis by simp
next
  case (Cons x xs)
  from que_Dequeue_refines_step [OF assms Cons] Cons show ?thesis
    by (auto simp: que_fresh_def simp del: que_Dequeue.simps)
qed

theorem que_Dequeue_refines_tl_witness:
  "\<exists>m' q'. que_Dequeue que_ex_mem (Some que_ex) = (0x2000, m', Some q') \<and> que_items m' q' = []"
  using que_Dequeue_refines_tl [OF que_ex_wf(1)] que_ex_wf(3) by auto

text \<open>
  A packet that was just dequeued can always be put back: \<open>que_Requeue\<close> succeeds and the
  queue again represents the list it had before the \<open>que_Dequeue\<close> (the case the comment in
  \<open>que_Requeue\<close> relies on).
\<close>

lemma que_Requeue_after_Dequeue:
  assumes "que_wf m q" "que_items m q \<noteq> []"
    and "que_Dequeue m (Some q) = (x, m', Some q')"
    and "que_Requeue m' q' x = (st, m'', q'')"
  shows "st = TI_OK \<and> que_wf m'' q'' \<and> que_items m'' q'' = que_items m q \<and> uCount q'' = uCount q"
proof -
  from assms(2) obtain y ys where ys: "que_items m q = y # ys" by (cases "que_items m q") auto
  from que_Dequeue_refines_step [OF assms(1) ys] assms(3)
  have d: "x = y" "que_wf m' q'" "que_items m' q' = ys" "que_fresh m' q' x" "uCount q' < uLimit q'"
    "uCount q' = uCount q - 1"
    by (auto simp del: que_Dequeue.simps)
  from que_Requeue_accept [OF d(2,5,4) assms(4)] d(1,3,6) ys show ?thesis by auto
qed

text \<open>
  The queue is first-in-first-out: \<open>n\<close> calls of \<open>que_Dequeue\<close> on a well-formed queue
  return its \<open>n\<close> oldest items in the order they were queued, and leave the others.
\<close>

lemma que_fifo_order:
  assumes "que_wf m q" "deq_n que_deq n (m, q) = (xs, m', q')"
  shows "xs = take n (que_items m q) \<and> que_items m' q' = drop n (que_items m q) \<and> que_wf m' q'"
  using lq.deq_n_prefix [of "(m, q)" n] assms by simp

end
