(* ===== verification/Wlan_Pool.thy ===== *)
theory Wlan_Pool
  imports Wlan_Prelude
begin

text \<open>
  The contract of a fixed-size pool of entries, as the Tx path relies on it: an allocation returns an
  entry that is not in use or reports that none is left, and a release returns an entry in use to the
  pool. The operations return nothing (\<open>None\<close>) where the code would follow a \<open>NULL\<close> pointer; the laws
  promise that this does not happen.
\<close>

primrec alloc_n :: "('s \<Rightarrow> ('a option \<times> 's) option) \<Rightarrow> nat \<Rightarrow> 's \<Rightarrow> ('a list \<times> 's) option" where
  "alloc_n alloc 0 s = Some ([], s)"
| "alloc_n alloc (Suc n) s =
     (case alloc s of None \<Rightarrow> None | Some (None, s') \<Rightarrow> Some ([], s')
      | Some (Some x, s') \<Rightarrow>
          (case alloc_n alloc n s' of None \<Rightarrow> None | Some (xs, s'') \<Rightarrow> Some (x # xs, s'')))"

locale pool =
  fixes alloc :: "'s \<Rightarrow> ('a option \<times> 's) option"
    and release :: "'s \<Rightarrow> 'a \<Rightarrow> 's"
    and out :: "'s \<Rightarrow> 'a set"
    and invar :: "'s \<Rightarrow> bool"
    and cap :: nat
  assumes out_finite: "invar s \<Longrightarrow> finite (out s) \<and> card (out s) \<le> cap"
    and alloc_ok: "invar s \<Longrightarrow> card (out s) < cap \<Longrightarrow>
      \<exists>x s'. alloc s = Some (Some x, s') \<and> x \<notin> out s \<and> invar s' \<and> out s' = insert x (out s)"
    and alloc_empty: "invar s \<Longrightarrow> card (out s) = cap \<Longrightarrow> alloc s = Some (None, s)"
    and release_ok: "invar s \<Longrightarrow> x \<in> out s \<Longrightarrow> invar (release s x) \<and> out (release s x) = out s - {x}"
begin

text \<open>\<open>n\<close> allocations return pairwise different entries that were not in use, as many as are left.\<close>

lemma alloc_n_ok:
  assumes "invar s"
  shows "\<exists>xs s'. alloc_n alloc n s = Some (xs, s') \<and> distinct xs \<and> set xs \<inter> out s = {} \<and>
    length xs = min n (cap - card (out s)) \<and> invar s' \<and> out s' = out s \<union> set xs"
  using assms
proof (induction n arbitrary: s)
  case 0
  then show ?case by simp
next
  case (Suc n)
  show ?case
  proof (cases "card (out s) < cap")
    case False
    with out_finite [OF Suc.prems] have "card (out s) = cap" by simp
    with alloc_empty [OF Suc.prems] Suc.prems show ?thesis by simp
  next
    case True
    from alloc_ok [OF Suc.prems True] obtain x s1 where
      a: "alloc s = Some (Some x, s1)" "x \<notin> out s" "invar s1" "out s1 = insert x (out s)" by blast
    have c: "card (out s1) = Suc (card (out s))" using a out_finite [OF Suc.prems] by simp
    from Suc.IH [OF a(3)] obtain xs s2 where
      b: "alloc_n alloc n s1 = Some (xs, s2)" "distinct xs" "set xs \<inter> out s1 = {}"
      "length xs = min n (cap - card (out s1))" "invar s2" "out s2 = out s1 \<union> set xs" by blast
    have "alloc_n alloc (Suc n) s = Some (x # xs, s2)" using a b by simp
    then show ?thesis using a b c True by (intro exI [of _ "x # xs"] exI [of _ s2]) auto
  qed
qed

lemma alloc_release:
  assumes "invar s" "alloc s = Some (Some x, s')"
  shows "x \<notin> out s \<and> invar (release s' x) \<and> out (release s' x) = out s"
proof -
  have "card (out s) < cap"
    using out_finite [OF assms(1)] alloc_empty [OF assms(1)] assms(2) by fastforce
  from alloc_ok [OF assms(1) this] assms(2)
  have s': "x \<notin> out s" "invar s'" "out s' = insert x (out s)" by auto
  with release_ok [of s' x] show ?thesis by auto
qed

end

end
