(* ===== verification/Wlan_Bus.thy ===== *)
theory Wlan_Bus
  imports Wlan_Prelude
begin

text \<open>
  The transaction parameters of \<open>Txn/BusDrv.h\<close>: one 32-bit word (\<open>uTxnParams\<close>) that packs the
  priority, the bus function, the direction and the flags of a transaction, with the macros that
  read and write its fields.
\<close>

section \<open>The macros\<close>

definition TXN_LOW_PRIORITY :: u32 where "TXN_LOW_PRIORITY = 1"
definition TXN_HIGH_PRIORITY :: u32 where "TXN_HIGH_PRIORITY = 0"
definition TXN_FUNC_ID_WLAN :: u32 where "TXN_FUNC_ID_WLAN = 2"
definition TXN_DIRECTION_WRITE :: u32 where "TXN_DIRECTION_WRITE = 0"
definition TXN_DIRECTION_READ :: u32 where "TXN_DIRECTION_READ = 1"
definition TXN_AGGREGATE_ON :: u32 where "TXN_AGGREGATE_ON = 1"
definition TXN_AGGREGATE_OFF :: u32 where "TXN_AGGREGATE_OFF = 0"
definition TXN_FIXED_ADDR :: u32 where "TXN_FIXED_ADDR = 1"
definition TXN_INC_ADDR :: u32 where "TXN_INC_ADDR = 0"
definition TXN_PARAM_STATUS_OK :: u32 where "TXN_PARAM_STATUS_OK = 0"
definition TXN_PARAM_STATUS_ERROR :: u32 where "TXN_PARAM_STATUS_ERROR = 1"
definition TXN_NUM_PRIORITYS :: u32 where "TXN_NUM_PRIORITYS = 2"

definition TXN_PARAM_GET_PRIORITY :: "u32 \<Rightarrow> u32" where
  "TXN_PARAM_GET_PRIORITY p = drop_bit 0 (p AND 0x00000003)"
definition TXN_PARAM_GET_FUNC_ID :: "u32 \<Rightarrow> u32" where
  "TXN_PARAM_GET_FUNC_ID p = drop_bit 2 (p AND 0x0000000C)"
definition TXN_PARAM_GET_DIRECTION :: "u32 \<Rightarrow> u32" where
  "TXN_PARAM_GET_DIRECTION p = drop_bit 4 (p AND 0x00000010)"
definition TXN_PARAM_GET_FIXED_ADDR :: "u32 \<Rightarrow> u32" where
  "TXN_PARAM_GET_FIXED_ADDR p = drop_bit 5 (p AND 0x00000020)"
definition TXN_PARAM_GET_MORE :: "u32 \<Rightarrow> u32" where
  "TXN_PARAM_GET_MORE p = drop_bit 6 (p AND 0x00000040)"
definition TXN_PARAM_GET_SINGLE_STEP :: "u32 \<Rightarrow> u32" where
  "TXN_PARAM_GET_SINGLE_STEP p = drop_bit 7 (p AND 0x00000080)"
definition TXN_PARAM_GET_STATUS :: "u32 \<Rightarrow> u32" where
  "TXN_PARAM_GET_STATUS p = drop_bit 8 (p AND 0x00000F00)"
definition TXN_PARAM_GET_AGGREGATE :: "u32 \<Rightarrow> u32" where
  "TXN_PARAM_GET_AGGREGATE p = drop_bit 12 (p AND 0x00001000)"
definition TXN_PARAM_GET_END_OF_BURST :: "u32 \<Rightarrow> u32" where
  "TXN_PARAM_GET_END_OF_BURST p = drop_bit 13 (p AND 0x00002000)"

definition TXN_PARAM_SET_PRIORITY :: "u32 \<Rightarrow> u32 \<Rightarrow> u32" where
  "TXN_PARAM_SET_PRIORITY p v = (p AND NOT 0x00000003) OR push_bit 0 v"
definition TXN_PARAM_SET_FUNC_ID :: "u32 \<Rightarrow> u32 \<Rightarrow> u32" where
  "TXN_PARAM_SET_FUNC_ID p v = (p AND NOT 0x0000000C) OR push_bit 2 v"
definition TXN_PARAM_SET_DIRECTION :: "u32 \<Rightarrow> u32 \<Rightarrow> u32" where
  "TXN_PARAM_SET_DIRECTION p v = (p AND NOT 0x00000010) OR push_bit 4 v"
definition TXN_PARAM_SET_FIXED_ADDR :: "u32 \<Rightarrow> u32 \<Rightarrow> u32" where
  "TXN_PARAM_SET_FIXED_ADDR p v = (p AND NOT 0x00000020) OR push_bit 5 v"
definition TXN_PARAM_SET_MORE :: "u32 \<Rightarrow> u32 \<Rightarrow> u32" where
  "TXN_PARAM_SET_MORE p v = (p AND NOT 0x00000040) OR push_bit 6 v"
definition TXN_PARAM_SET_SINGLE_STEP :: "u32 \<Rightarrow> u32 \<Rightarrow> u32" where
  "TXN_PARAM_SET_SINGLE_STEP p v = (p AND NOT 0x00000080) OR push_bit 7 v"
definition TXN_PARAM_SET_STATUS :: "u32 \<Rightarrow> u32 \<Rightarrow> u32" where
  "TXN_PARAM_SET_STATUS p v = (p AND NOT 0x00000F00) OR push_bit 8 v"
definition TXN_PARAM_SET_AGGREGATE :: "u32 \<Rightarrow> u32 \<Rightarrow> u32" where
  "TXN_PARAM_SET_AGGREGATE p v = (p AND NOT 0x00001000) OR push_bit 12 v"
definition TXN_PARAM_SET_END_OF_BURST :: "u32 \<Rightarrow> u32 \<Rightarrow> u32" where
  "TXN_PARAM_SET_END_OF_BURST p v = (p AND NOT 0x00002000) OR push_bit 13 v"

definition TXN_PARAM_SET :: "u32 \<Rightarrow> u32 \<Rightarrow> u32 \<Rightarrow> u32 \<Rightarrow> u32 \<Rightarrow> u32" where
  "TXN_PARAM_SET p uPriority uId uDirection uAddrMode =
     (let p = TXN_PARAM_SET_PRIORITY p uPriority;
          p = TXN_PARAM_SET_FUNC_ID p uId;
          p = TXN_PARAM_SET_DIRECTION p uDirection
      in TXN_PARAM_SET_FIXED_ADDR p uAddrMode)"

section \<open>Fields of a word\<close>

definition fld_get :: "nat \<Rightarrow> nat \<Rightarrow> u32 \<Rightarrow> u32" where
  "fld_get sh w p = drop_bit sh (p AND push_bit sh (mask w))"

definition fld_set :: "nat \<Rightarrow> nat \<Rightarrow> u32 \<Rightarrow> u32 \<Rightarrow> u32" where
  "fld_set sh w p v = (p AND NOT (push_bit sh (mask w))) OR push_bit sh v"

lemma bit_below:
  fixes v :: u32
  assumes "v < 2 ^ w" "w \<le> n"
  shows "\<not> bit v n"
proof -
  from assms(1) have "v AND mask w = v" by (rule less_mask_eq)
  then have "bit v n = bit (v AND mask w) n" by simp
  with assms(2) show ?thesis by (simp add: bit_simps)
qed

lemma fld_get_set:
  assumes "v < 2 ^ w" "sh + w \<le> 32"
  shows "fld_get sh w (fld_set sh w p v) = v"
proof -
  have "n < w" if "bit v n" for n
    using that bit_below [OF assms(1)] by (metis not_le)
  with assms(2) show ?thesis
    by (fastforce simp: fld_get_def fld_set_def bit_eq_iff bit_simps)
qed

lemma fld_get_set_other:
  assumes "v < 2 ^ w'" "sh + w \<le> sh' \<or> sh' + w' \<le> sh"
  shows "fld_get sh w (fld_set sh' w' p v) = fld_get sh w p"
  using assms bit_below [OF assms(1)]
  by (auto simp: fld_get_def fld_set_def bit_eq_iff bit_simps)

lemmas txn_param_fields =
  TXN_PARAM_GET_PRIORITY_def TXN_PARAM_GET_FUNC_ID_def TXN_PARAM_GET_DIRECTION_def
  TXN_PARAM_GET_FIXED_ADDR_def TXN_PARAM_GET_MORE_def TXN_PARAM_GET_SINGLE_STEP_def
  TXN_PARAM_GET_STATUS_def TXN_PARAM_GET_AGGREGATE_def TXN_PARAM_GET_END_OF_BURST_def
  TXN_PARAM_SET_PRIORITY_def TXN_PARAM_SET_FUNC_ID_def TXN_PARAM_SET_DIRECTION_def
  TXN_PARAM_SET_FIXED_ADDR_def TXN_PARAM_SET_MORE_def TXN_PARAM_SET_SINGLE_STEP_def
  TXN_PARAM_SET_STATUS_def TXN_PARAM_SET_AGGREGATE_def TXN_PARAM_SET_END_OF_BURST_def

lemma txn_get_fld:
  "TXN_PARAM_GET_PRIORITY = fld_get 0 2" "TXN_PARAM_GET_FUNC_ID = fld_get 2 2"
  "TXN_PARAM_GET_DIRECTION = fld_get 4 1" "TXN_PARAM_GET_FIXED_ADDR = fld_get 5 1"
  "TXN_PARAM_GET_MORE = fld_get 6 1" "TXN_PARAM_GET_SINGLE_STEP = fld_get 7 1"
  "TXN_PARAM_GET_STATUS = fld_get 8 4" "TXN_PARAM_GET_AGGREGATE = fld_get 12 1"
  "TXN_PARAM_GET_END_OF_BURST = fld_get 13 1"
  by (simp_all add: fun_eq_iff txn_param_fields fld_get_def mask_eq_exp_minus_1 push_bit_eq_mult)

lemma txn_set_fld:
  "TXN_PARAM_SET_PRIORITY = fld_set 0 2" "TXN_PARAM_SET_FUNC_ID = fld_set 2 2"
  "TXN_PARAM_SET_DIRECTION = fld_set 4 1" "TXN_PARAM_SET_FIXED_ADDR = fld_set 5 1"
  "TXN_PARAM_SET_MORE = fld_set 6 1" "TXN_PARAM_SET_SINGLE_STEP = fld_set 7 1"
  "TXN_PARAM_SET_STATUS = fld_set 8 4" "TXN_PARAM_SET_AGGREGATE = fld_set 12 1"
  "TXN_PARAM_SET_END_OF_BURST = fld_set 13 1"
  by (simp_all add: fun_eq_iff txn_param_fields fld_set_def mask_eq_exp_minus_1 push_bit_eq_mult)

lemma txn_get_less:
  "TXN_PARAM_GET_PRIORITY p < 4" "TXN_PARAM_GET_FUNC_ID p < 4"
proof -
  have "fld_get sh 2 p = fld_get sh 2 p AND mask 2" for sh
    by (auto simp: fld_get_def bit_eq_iff bit_simps)
  then have "fld_get sh 2 p < 4" for sh
    using and_mask_less' [of 2 "fld_get sh 2 p"] by simp
  then show "TXN_PARAM_GET_PRIORITY p < 4" "TXN_PARAM_GET_FUNC_ID p < 4"
    by (simp_all add: txn_get_fld)
qed

section \<open>Properties of the transaction parameters\<close>

text \<open>
  C40: \<open>TXN_PARAM_SET\<close> writes exactly its four fields: each is read back as written when its
  value fits its width, and the MORE, single-step, status, aggregation and end-of-burst fields keep
  their value.
\<close>

theorem TXN_PARAM_SET_fields:
  assumes "uPriority < 4" "uId < 4" "uDirection < 2" "uAddrMode < 2"
    and "q = TXN_PARAM_SET p uPriority uId uDirection uAddrMode"
  shows "TXN_PARAM_GET_PRIORITY q = uPriority \<and> TXN_PARAM_GET_FUNC_ID q = uId \<and>
    TXN_PARAM_GET_DIRECTION q = uDirection \<and> TXN_PARAM_GET_FIXED_ADDR q = uAddrMode \<and>
    TXN_PARAM_GET_MORE q = TXN_PARAM_GET_MORE p \<and>
    TXN_PARAM_GET_SINGLE_STEP q = TXN_PARAM_GET_SINGLE_STEP p \<and>
    TXN_PARAM_GET_STATUS q = TXN_PARAM_GET_STATUS p \<and>
    TXN_PARAM_GET_AGGREGATE q = TXN_PARAM_GET_AGGREGATE p \<and>
    TXN_PARAM_GET_END_OF_BURST q = TXN_PARAM_GET_END_OF_BURST p"
  using assms
  by (simp add: TXN_PARAM_SET_def Let_def txn_get_fld txn_set_fld fld_get_set fld_get_set_other)

theorem TXN_PARAM_SET_fields_witness:
  "TXN_PARAM_GET_FUNC_ID (TXN_PARAM_SET 0xFFFFFFFF TXN_LOW_PRIORITY TXN_FUNC_ID_WLAN
     TXN_DIRECTION_WRITE TXN_FIXED_ADDR) = 2"
  using TXN_PARAM_SET_fields [where uPriority = TXN_LOW_PRIORITY and uId = TXN_FUNC_ID_WLAN
      and uDirection = TXN_DIRECTION_WRITE and uAddrMode = TXN_FIXED_ADDR and p = "0xFFFFFFFF"]
  by (simp add: TXN_LOW_PRIORITY_def TXN_FUNC_ID_WLAN_def TXN_DIRECTION_WRITE_def TXN_FIXED_ADDR_def)

end
