(* ===== verification/Wlan_TxCtrlBlk.thy ===== *)
theory Wlan_TxCtrlBlk
  imports Wlan_Pool Wlan_Bus
begin

text \<open>
  \<open>TWD/Data_Service/txCtrlBlk.c\<close>: the table of Tx control blocks. Every packet on its way to the
  firmware holds one entry; the entry's index is the packet's descriptor id. Free entries are
  chained through \<open>pNextFreeEntry\<close>, with entry 0 as the head of the chain. A pointer to an entry is the
  entry's index, \<open>None\<close> is \<open>NULL\<close>. The fields kept are those that the Tx modules of this
  development read or write. The critical sections have no effect on the
  data; each operation is one step, although the code updates part of the counters and pointers outside its critical section (all
  calls come from the driver task).
\<close>

section \<open>Data\<close>

record TxIfDescriptor =
  desc_length :: u16
  extraMemBlks :: u8
  totalMemBlks :: u8
  descID :: u8
  desc_tid :: u8
  aid :: u8
  desc_reserved :: u8

record TTxPktParams =
  uHeadroomSize :: u8
  uFlags :: u16

record TTxCtrlBlk =
  uTxnParams :: u32
  tTxDescriptor :: TxIfDescriptor
  tTxPktParams :: TTxPktParams
  pNextFreeEntry :: "nat option"

record TTxCtrlBlkObj =
  hReport :: handle
  hContext :: handle
  aTxCtrlBlkTbl :: "TTxCtrlBlk list"
  uNumUsedEntries :: u32

definition CTRL_BLK_ENTRIES_NUM :: nat where "CTRL_BLK_ENTRIES_NUM = 160"

section \<open>Operations\<close>

definition zero_blk :: TTxCtrlBlk where
  "zero_blk = \<lparr>uTxnParams = 0,
     tTxDescriptor = \<lparr>desc_length = 0, extraMemBlks = 0, totalMemBlks = 0, descID = 0, desc_tid = 0,
       aid = 0, desc_reserved = 0\<rparr>,
     tTxPktParams = \<lparr>uHeadroomSize = 0, uFlags = 0\<rparr>, pNextFreeEntry = None\<rparr>"

text \<open>\<open>mem\<close> is the result of \<open>os_memoryAlloc\<close>; the object is zeroed.\<close>

definition txCtrlBlk_Create :: "handle \<Rightarrow> TTxCtrlBlkObj option" where
  "txCtrlBlk_Create mem =
     (if mem = NULL then None
      else Some \<lparr>hReport = NULL, hContext = NULL,
                 aTxCtrlBlkTbl = replicate CTRL_BLK_ENTRIES_NUM zero_blk, uNumUsedEntries = 0\<rparr>)"

definition init_entry :: "nat \<Rightarrow> TTxCtrlBlk \<Rightarrow> TTxCtrlBlk" where
  "init_entry entry b = b\<lparr>
     tTxDescriptor := (tTxDescriptor b)\<lparr>descID := of_nat entry, aid := 1, desc_reserved := 0\<rparr>,
     pNextFreeEntry := Some (entry + 1),
     uTxnParams := TXN_PARAM_SET (uTxnParams b) TXN_LOW_PRIORITY TXN_FUNC_ID_WLAN
                     TXN_DIRECTION_WRITE TXN_FIXED_ADDR\<rparr>"

definition txCtrlBlk_Init :: "TTxCtrlBlkObj \<Rightarrow> handle \<Rightarrow> handle \<Rightarrow> TTxCtrlBlkObj" where
  "txCtrlBlk_Init o0 report context =
     (let o1 = o0\<lparr>hReport := report, hContext := context\<rparr>;
          tbl = map (\<lambda>entry. init_entry entry (aTxCtrlBlkTbl o1 ! entry)) [0..<CTRL_BLK_ENTRIES_NUM];
          final = CTRL_BLK_ENTRIES_NUM - 1;
          tbl = tbl[final := (tbl ! final)\<lparr>pNextFreeEntry := None\<rparr>]
      in o1\<lparr>aTxCtrlBlkTbl := tbl, uNumUsedEntries := 0\<rparr>)"

text \<open>
  The result of \<open>txCtrlBlk_Alloc\<close> is \<open>None\<close> where \<open>pCurrentEntry->pNextFreeEntry\<close> would be read
  through a \<open>NULL\<close> \<open>pCurrentEntry\<close>.
\<close>

definition txCtrlBlk_Alloc :: "TTxCtrlBlkObj \<Rightarrow> (nat option \<times> TTxCtrlBlkObj) option" where
  "txCtrlBlk_Alloc ob =
     (let tbl = aTxCtrlBlkTbl ob in
      case pNextFreeEntry (tbl ! 0) of
        None \<Rightarrow> None
      | Some cur \<Rightarrow>
          if pNextFreeEntry (tbl ! cur) = None then Some (None, ob)
          else
            let ob = ob\<lparr>uNumUsedEntries := uNumUsedEntries ob + 1\<rparr>;
                tbl = tbl[0 := (tbl ! 0)\<lparr>pNextFreeEntry := pNextFreeEntry (tbl ! cur)\<rparr>];
                tbl = tbl[cur := (tbl ! cur)\<lparr>pNextFreeEntry := None,
                         tTxPktParams := (tTxPktParams (tbl ! cur))\<lparr>uFlags := 0, uHeadroomSize := 0\<rparr>\<rparr>]
            in Some (Some cur, ob\<lparr>aTxCtrlBlkTbl := tbl\<rparr>))"

fun txCtrlBlk_Free :: "TTxCtrlBlkObj option \<Rightarrow> nat \<Rightarrow> TTxCtrlBlkObj option" where
  "txCtrlBlk_Free None cur = None"
| "txCtrlBlk_Free (Some ob) cur =
     (let tbl = aTxCtrlBlkTbl ob in
      if pNextFreeEntry (tbl ! cur) \<noteq> None then Some ob
      else
        let ob = ob\<lparr>uNumUsedEntries := uNumUsedEntries ob - 1\<rparr>;
            tbl = tbl[cur := (tbl ! cur)\<lparr>pNextFreeEntry := pNextFreeEntry (tbl ! 0)\<rparr>];
            tbl = tbl[0 := (tbl ! 0)\<lparr>pNextFreeEntry := Some cur\<rparr>]
        in Some (ob\<lparr>aTxCtrlBlkTbl := tbl\<rparr>))"

text \<open>\<open>None\<close> is an address outside the table (the descriptor id is an 8-bit value).\<close>

definition txCtrlBlk_GetPointer :: "TTxCtrlBlkObj \<Rightarrow> u8 \<Rightarrow> nat option" where
  "txCtrlBlk_GetPointer ob descId =
     (if unat descId < CTRL_BLK_ENTRIES_NUM then Some (unat descId) else None)"

fun txCtrlBlk_Destroy :: "TTxCtrlBlkObj option \<Rightarrow> ti_status \<times> bool" where
  "txCtrlBlk_Destroy None = (TI_OK, False)"
| "txCtrlBlk_Destroy (Some ob) = (TI_OK, True)"

section \<open>The free chain\<close>

primrec free_walk :: "TTxCtrlBlk list \<Rightarrow> nat \<Rightarrow> nat \<Rightarrow> nat list" where
  "free_walk tbl a 0 = []"
| "free_walk tbl a (Suc n) =
     (case pNextFreeEntry (tbl ! a) of None \<Rightarrow> [] | Some x \<Rightarrow> x # free_walk tbl x n)"

primrec chain :: "TTxCtrlBlk list \<Rightarrow> nat \<Rightarrow> nat list \<Rightarrow> bool" where
  "chain tbl a [] \<longleftrightarrow> pNextFreeEntry (tbl ! a) = None"
| "chain tbl a (x # xs) \<longleftrightarrow> pNextFreeEntry (tbl ! a) = Some x \<and> chain tbl x xs"

definition free_list :: "TTxCtrlBlkObj \<Rightarrow> nat list" where
  "free_list ob = free_walk (aTxCtrlBlkTbl ob) 0 CTRL_BLK_ENTRIES_NUM"

definition in_use :: "TTxCtrlBlkObj \<Rightarrow> nat set" where
  "in_use ob = {0..<CTRL_BLK_ENTRIES_NUM} - insert 0 (set (free_list ob))"

definition blk_wf :: "TTxCtrlBlkObj \<Rightarrow> bool" where [wf_defs]:
  "blk_wf ob \<longleftrightarrow>
     length (aTxCtrlBlkTbl ob) = CTRL_BLK_ENTRIES_NUM \<and>
     chain (aTxCtrlBlkTbl ob) 0 (free_list ob) \<and>
     free_list ob \<noteq> [] \<and>
     distinct (0 # free_list ob) \<and>
     set (free_list ob) \<subseteq> {0..<CTRL_BLK_ENTRIES_NUM} \<and>
     (\<forall>i\<in>in_use ob. pNextFreeEntry (aTxCtrlBlkTbl ob ! i) = None) \<and>
     (\<forall>i<CTRL_BLK_ENTRIES_NUM. descID (tTxDescriptor (aTxCtrlBlkTbl ob ! i)) = of_nat i) \<and>
     unat (uNumUsedEntries ob) = card (in_use ob)"

lemma chain_walk: "chain tbl a xs \<Longrightarrow> length xs \<le> n \<Longrightarrow> free_walk tbl a n = xs"
proof (induction xs arbitrary: a n)
  case Nil
  then show ?case by (cases n) auto
next
  case (Cons x xs)
  then show ?case by (cases n) auto
qed

lemma chain_update [simp]: "z \<notin> set (a # xs) \<Longrightarrow> chain (tbl[z := b]) a xs = chain tbl a xs"
  by (induction xs arbitrary: a) auto

lemma distinct_below:
  assumes "distinct (0 # xs)" "set xs \<subseteq> {0..<CTRL_BLK_ENTRIES_NUM}"
  shows "length xs < CTRL_BLK_ENTRIES_NUM"
proof -
  have "card (set (0 # xs)) \<le> card {0..<CTRL_BLK_ENTRIES_NUM}"
    using assms by (intro card_mono) (auto simp: CTRL_BLK_ENTRIES_NUM_def)
  with assms(1) show ?thesis by (simp add: distinct_card)
qed

text \<open>To show \<open>blk_wf\<close>, exhibit the free chain.\<close>

lemma blk_wfI:
  assumes "length (aTxCtrlBlkTbl ob) = CTRL_BLK_ENTRIES_NUM" "chain (aTxCtrlBlkTbl ob) 0 xs" "xs \<noteq> []"
    "distinct (0 # xs)" "set xs \<subseteq> {0..<CTRL_BLK_ENTRIES_NUM}"
    "\<And>i. i < CTRL_BLK_ENTRIES_NUM \<Longrightarrow> i \<noteq> 0 \<Longrightarrow> i \<notin> set xs \<Longrightarrow> pNextFreeEntry (aTxCtrlBlkTbl ob ! i) = None"
    "\<And>i. i < CTRL_BLK_ENTRIES_NUM \<Longrightarrow> descID (tTxDescriptor (aTxCtrlBlkTbl ob ! i)) = of_nat i"
    "unat (uNumUsedEntries ob) = card ({0..<CTRL_BLK_ENTRIES_NUM} - insert 0 (set xs))"
  shows "blk_wf ob \<and> free_list ob = xs"
proof -
  have "free_list ob = xs"
    using chain_walk [OF assms(2)] distinct_below [OF assms(4,5)] by (simp add: free_list_def)
  with assms show ?thesis by (simp add: blk_wf_def in_use_def)
qed

lemma in_use_card:
  assumes "blk_wf ob"
  shows "card (in_use ob) + length (free_list ob) = 159"
proof -
  have "insert 0 (set (free_list ob)) \<subseteq> {0..<CTRL_BLK_ENTRIES_NUM}"
    using assms by (auto simp: blk_wf_def CTRL_BLK_ENTRIES_NUM_def)
  then have "card (in_use ob) = CTRL_BLK_ENTRIES_NUM - card (insert 0 (set (free_list ob)))"
    by (simp add: in_use_def card_Diff_subset finite_subset)
  moreover have "card (insert 0 (set (free_list ob))) = Suc (length (free_list ob))"
    using assms by (simp add: blk_wf_def distinct_card)
  moreover have "length (free_list ob) < CTRL_BLK_ENTRIES_NUM"
    using assms by (intro distinct_below) (auto simp: blk_wf_def)
  ultimately show ?thesis by (simp add: CTRL_BLK_ENTRIES_NUM_def)
qed

section \<open>The operations keep the chain\<close>

lemma chain_upt:
  assumes "\<And>i. a \<le> i \<Longrightarrow> i < a + n \<Longrightarrow> pNextFreeEntry (tbl ! i) = Some (Suc i)"
    and "pNextFreeEntry (tbl ! (a + n)) = None"
  shows "chain tbl a [Suc a..<Suc (a + n)]"
  using assms
proof (induction n arbitrary: a)
  case 0
  then show ?case by simp
next
  case (Suc n)
  have "chain tbl (Suc a) [Suc (Suc a)..<Suc (Suc a + n)]"
    using Suc.prems by (intro Suc.IH) auto
  moreover have "[Suc a..<Suc (a + Suc n)] = Suc a # [Suc (Suc a)..<Suc (Suc a + n)]"
    by (simp add: upt_conv_Cons del: upt_Suc)
  ultimately show ?case using Suc.prems(1) [of a] by (simp del: upt_Suc)
qed

lemma txCtrlBlk_Init_tbl:
  assumes "i < CTRL_BLK_ENTRIES_NUM" "b = aTxCtrlBlkTbl (txCtrlBlk_Init ob r c) ! i"
  shows "pNextFreeEntry b = (if Suc i < CTRL_BLK_ENTRIES_NUM then Some (Suc i) else None)"
    "descID (tTxDescriptor b) = of_nat i"
  using assms by (auto simp: txCtrlBlk_Init_def Let_def nth_list_update init_entry_def)

lemma txCtrlBlk_Init_wf:
  "blk_wf (txCtrlBlk_Init ob r c) \<and> free_list (txCtrlBlk_Init ob r c) = [1..<CTRL_BLK_ENTRIES_NUM]"
proof (rule blk_wfI)
  let ?t = "aTxCtrlBlkTbl (txCtrlBlk_Init ob r c)"
  have "chain ?t 0 [Suc 0..<Suc (0 + 159)]"
    by (rule chain_upt) (simp_all add: txCtrlBlk_Init_tbl(1) [OF _ refl] CTRL_BLK_ENTRIES_NUM_def)
  then show "chain ?t 0 [1..<CTRL_BLK_ENTRIES_NUM]" by (simp add: CTRL_BLK_ENTRIES_NUM_def del: upt_Suc)
  show "length ?t = CTRL_BLK_ENTRIES_NUM" by (simp add: txCtrlBlk_Init_def Let_def)
  have "{0..<CTRL_BLK_ENTRIES_NUM} - insert 0 (set [1..<CTRL_BLK_ENTRIES_NUM]) = {}" by auto
  then show "unat (uNumUsedEntries (txCtrlBlk_Init ob r c)) =
      card ({0..<CTRL_BLK_ENTRIES_NUM} - insert 0 (set [1..<CTRL_BLK_ENTRIES_NUM]))"
    by (simp add: txCtrlBlk_Init_def Let_def)
qed (auto simp: txCtrlBlk_Init_tbl [OF _ refl] CTRL_BLK_ENTRIES_NUM_def)

lemma txCtrlBlk_Alloc_step:
  assumes wf: "blk_wf ob" and fl: "free_list ob = x # y # ys"
  shows "\<exists>ob'. txCtrlBlk_Alloc ob = Some (Some x, ob') \<and> blk_wf ob' \<and> free_list ob' = y # ys \<and>
    tTxPktParams (aTxCtrlBlkTbl ob' ! x) = \<lparr>uHeadroomSize = 0, uFlags = 0\<rparr>"
proof -
  let ?t = "aTxCtrlBlkTbl ob"
  have len: "length ?t = CTRL_BLK_ENTRIES_NUM" using wf by (simp add: blk_wf_def)
  have c: "pNextFreeEntry (?t ! 0) = Some x" "pNextFreeEntry (?t ! x) = Some y" "chain ?t y ys"
    using wf fl by (auto simp: blk_wf_def)
  have d: "distinct (0 # x # y # ys)" "set (x # y # ys) \<subseteq> {0..<CTRL_BLK_ENTRIES_NUM}"
    using wf fl by (auto simp: blk_wf_def)
  obtain ob' where e: "txCtrlBlk_Alloc ob = Some (Some x, ob')"
    using c by (simp add: txCtrlBlk_Alloc_def Let_def)
  then have t': "aTxCtrlBlkTbl ob' = (?t[0 := (?t ! 0)\<lparr>pNextFreeEntry := Some y\<rparr>])[x := (?t ! x)\<lparr>pNextFreeEntry := None,
      tTxPktParams := (tTxPktParams (?t ! x))\<lparr>uFlags := 0, uHeadroomSize := 0\<rparr>\<rparr>]"
    and u': "uNumUsedEntries ob' = uNumUsedEntries ob + 1"
    using c d by (auto simp: txCtrlBlk_Alloc_def Let_def nth_list_update)
  have l: "0 < length ?t" "x < length ?t" "y < length ?t" using d len by auto
  have "card (in_use ob) + length (free_list ob) = 159" using wf by (rule in_use_card)
  then have used: "unat (uNumUsedEntries ob) < 159" using wf fl by (simp add: blk_wf_def)
  have iu: "{0..<CTRL_BLK_ENTRIES_NUM} - insert 0 (set (y # ys)) = insert x (in_use ob)" "x \<notin> in_use ob"
    using d fl by (auto simp: in_use_def)
  have "finite (in_use ob)" by (simp add: in_use_def)
  have "blk_wf ob' \<and> free_list ob' = y # ys"
  proof (rule blk_wfI)
    show "chain (aTxCtrlBlkTbl ob') 0 (y # ys)"
      using c d l unfolding t' by (simp add: nth_list_update)
    show "unat (uNumUsedEntries ob') = card ({0..<CTRL_BLK_ENTRIES_NUM} - insert 0 (set (y # ys)))"
      using wf used iu \<open>finite (in_use ob)\<close> unfolding u'
      by (simp add: unat_word_ariths blk_wf_def)
    show "i < CTRL_BLK_ENTRIES_NUM \<Longrightarrow> i \<noteq> 0 \<Longrightarrow> i \<notin> set (y # ys) \<Longrightarrow>
        pNextFreeEntry (aTxCtrlBlkTbl ob' ! i) = None" for i
      using wf fl l unfolding t' by (auto simp: nth_list_update blk_wf_def in_use_def)
    show "i < CTRL_BLK_ENTRIES_NUM \<Longrightarrow> descID (tTxDescriptor (aTxCtrlBlkTbl ob' ! i)) = of_nat i" for i
      using wf l unfolding t' by (auto simp: nth_list_update blk_wf_def)
  qed (use d len in \<open>auto simp: t'\<close>)
  moreover have "tTxPktParams (aTxCtrlBlkTbl ob' ! x) = \<lparr>uHeadroomSize = 0, uFlags = 0\<rparr>"
    using l by (simp add: t')
  ultimately show ?thesis using e by blast
qed

lemma txCtrlBlk_Alloc_last:
  assumes wf: "blk_wf ob" and fl: "free_list ob = [x]"
  shows "txCtrlBlk_Alloc ob = Some (None, ob)"
  using assms by (simp add: blk_wf_def txCtrlBlk_Alloc_def)

lemma txCtrlBlk_Free_step:
  assumes wf: "blk_wf ob" and x: "x \<in> in_use ob"
  shows "\<exists>ob'. txCtrlBlk_Free (Some ob) x = Some ob' \<and> blk_wf ob' \<and> free_list ob' = x # free_list ob"
proof -
  let ?t = "aTxCtrlBlkTbl ob"
  have len: "length ?t = CTRL_BLK_ENTRIES_NUM" using wf by (simp add: blk_wf_def)
  have c: "chain ?t 0 (free_list ob)" "pNextFreeEntry (?t ! x) = None"
    using wf x by (auto simp: blk_wf_def)
  have d: "distinct (0 # x # free_list ob)" "set (x # free_list ob) \<subseteq> {0..<CTRL_BLK_ENTRIES_NUM}"
    using wf x by (auto simp: blk_wf_def in_use_def)
  obtain y ys where fl: "free_list ob = y # ys" using wf by (cases "free_list ob") (auto simp: blk_wf_def)
  obtain ob' where e: "txCtrlBlk_Free (Some ob) x = Some ob'"
    using c by (simp add: Let_def)
  then have t': "aTxCtrlBlkTbl ob' = (?t[x := (?t ! x)\<lparr>pNextFreeEntry := Some y\<rparr>])[0 := (?t ! 0)\<lparr>pNextFreeEntry := Some x\<rparr>]"
    and u': "uNumUsedEntries ob' = uNumUsedEntries ob - 1"
    using c d fl by (auto simp: Let_def)
  have l: "0 < length ?t" "x < length ?t" using d len by auto
  have f: "finite (in_use ob)" by (simp add: in_use_def)
  have iu: "{0..<CTRL_BLK_ENTRIES_NUM} - insert 0 (set (x # free_list ob)) = in_use ob - {x}"
    by (auto simp: in_use_def)
  have u0: "uNumUsedEntries ob \<noteq> 0"
    using wf x f by (auto simp: blk_wf_def card_gt_0_iff)
  have "blk_wf ob' \<and> free_list ob' = x # free_list ob"
  proof (rule blk_wfI)
    show "chain (aTxCtrlBlkTbl ob') 0 (x # free_list ob)"
      using c d l fl unfolding t' by (simp add: nth_list_update)
    show "unat (uNumUsedEntries ob') = card ({0..<CTRL_BLK_ENTRIES_NUM} - insert 0 (set (x # free_list ob)))"
      using wf x u0 f unfolding u' iu by (simp add: blk_wf_def)
    show "i < CTRL_BLK_ENTRIES_NUM \<Longrightarrow> i \<noteq> 0 \<Longrightarrow> i \<notin> set (x # free_list ob) \<Longrightarrow>
        pNextFreeEntry (aTxCtrlBlkTbl ob' ! i) = None" for i
      using wf l unfolding t' by (auto simp: nth_list_update blk_wf_def in_use_def)
    show "i < CTRL_BLK_ENTRIES_NUM \<Longrightarrow> descID (tTxDescriptor (aTxCtrlBlkTbl ob' ! i)) = of_nat i" for i
      using wf l unfolding t' by (auto simp: nth_list_update blk_wf_def)
  qed (use d len in \<open>auto simp: t'\<close>)
  with e show ?thesis by blast
qed

section \<open>The table as a pool\<close>

definition blk_release :: "TTxCtrlBlkObj \<Rightarrow> nat \<Rightarrow> TTxCtrlBlkObj" where
  "blk_release ob x = the (txCtrlBlk_Free (Some ob) x)"

lemma in_use_free_list:
  assumes "free_list ob' = ys" "x \<noteq> 0" "x < CTRL_BLK_ENTRIES_NUM"
  shows "free_list ob = x # ys \<Longrightarrow> x \<notin> set ys \<Longrightarrow> in_use ob' = insert x (in_use ob)"
    and "free_list ob = ys \<Longrightarrow> free_list ob'' = x # ys \<Longrightarrow> in_use ob'' = in_use ob - {x}"
  using assms by (auto simp: in_use_def)

interpretation txblk: pool txCtrlBlk_Alloc blk_release in_use blk_wf 158
proof (unfold_locales, goal_cases)
  case (1 s)
  from in_use_card [OF 1] have "card (in_use s) \<le> 158"
    using 1 by (cases "free_list s") (auto simp: blk_wf_def)
  then show ?case by (simp add: in_use_def)
next
  case (2 s)
  from in_use_card [OF 2(1)] 2(2) obtain x y ys where fl: "free_list s = x # y # ys"
    by (cases "free_list s"; cases "tl (free_list s)") auto
  have x: "x \<noteq> 0" "x < CTRL_BLK_ENTRIES_NUM" "x \<notin> set (y # ys)" using 2(1) fl by (auto simp: blk_wf_def)
  from txCtrlBlk_Alloc_step [OF 2(1) fl] obtain s' where
    s': "txCtrlBlk_Alloc s = Some (Some x, s')" "blk_wf s'" "free_list s' = y # ys" by blast
  have "in_use s' = insert x (in_use s)" using in_use_free_list(1) [OF s'(3) x(1,2) fl x(3)] .
  moreover have "x \<notin> in_use s" using fl by (simp add: in_use_def)
  ultimately show ?case using s' by blast
next
  case (3 s)
  from in_use_card [OF 3(1)] 3(2) obtain x where "free_list s = [x]"
    by (cases "free_list s") auto
  with 3(1) show ?case by (rule txCtrlBlk_Alloc_last)
next
  case (4 s x)
  then have x: "x \<noteq> 0" "x < CTRL_BLK_ENTRIES_NUM" by (auto simp: in_use_def)
  from txCtrlBlk_Free_step [OF 4] obtain s' where
    s': "txCtrlBlk_Free (Some s) x = Some s'" "blk_wf s'" "free_list s' = x # free_list s" by blast
  with in_use_free_list(2) [OF refl x refl s'(3)] show ?case
    by (simp add: blk_release_def del: txCtrlBlk_Free.simps)
qed

inductive blk_step :: "TTxCtrlBlkObj \<Rightarrow> TTxCtrlBlkObj \<Rightarrow> bool" where
  step_alloc: "txCtrlBlk_Alloc ob = Some (r, ob') \<Longrightarrow> blk_step ob ob'"
| step_free: "x \<in> in_use ob \<Longrightarrow> txCtrlBlk_Free (Some ob) x = Some ob' \<Longrightarrow> blk_step ob ob'"

definition blk_init :: "TTxCtrlBlkObj \<Rightarrow> bool" where
  "blk_init ob \<longleftrightarrow> (\<exists>o0 r c. ob = txCtrlBlk_Init o0 r c)"

lemma blk_step_wf: "blk_step ob ob' \<Longrightarrow> blk_wf ob \<Longrightarrow> blk_wf ob'"
proof (induction rule: blk_step.induct)
  case (step_alloc ob r ob')
  with txblk.out_finite [of ob] txblk.alloc_ok [of ob] txblk.alloc_empty [of ob] show ?case
    by (cases "card (in_use ob) = 158") auto
next
  case (step_free x ob ob')
  with txblk.release_ok [of ob x] show ?case by (simp add: blk_release_def)
qed

interpretation txblk_inv: state_invariant blk_init blk_step blk_wf
  by unfold_locales (auto simp: blk_init_def txCtrlBlk_Init_wf intro: blk_step_wf)

section \<open>Properties of the control-block table\<close>

definition blk_ex :: TTxCtrlBlkObj where
  "blk_ex = txCtrlBlk_Init (the (txCtrlBlk_Create 0x1000)) 0 0"

lemma blk_ex_wf: "blk_wf blk_ex" "free_list blk_ex = [1..<160]" "in_use blk_ex = {}"
  "reach blk_init blk_step blk_ex"
  using txCtrlBlk_Init_wf [of "the (txCtrlBlk_Create 0x1000)" 0 0]
  by (auto simp: blk_ex_def in_use_def CTRL_BLK_ENTRIES_NUM_def blk_init_def intro!: reach_init) blast

text \<open>
  C39: However allocations and releases of allocated entries are interleaved after
  \<open>txCtrlBlk_Init\<close>, the free chain is intact, \<open>txCtrlBlk_Alloc\<close> never follows a \<open>NULL\<close>
  pointer, it reports \<open>NULL\<close> exactly when 158 of the 160 entries are in use, \<open>uNumUsedEntries\<close> counts the
  entries in use, and an entry it returns is neither entry 0 nor in use, carries its own index as
  descriptor id, and is found by \<open>txCtrlBlk_GetPointer\<close> from that id.
\<close>

theorem txCtrlBlk_Alloc_reachable:
  assumes "reach blk_init blk_step ob"
  shows "blk_wf ob \<and> unat (uNumUsedEntries ob) = card (in_use ob) \<and>
    (\<exists>r ob'. txCtrlBlk_Alloc ob = Some (r, ob') \<and> (r = None \<longleftrightarrow> card (in_use ob) = 158) \<and>
      (\<forall>x. r = Some x \<longrightarrow> x \<noteq> 0 \<and> x \<notin> in_use ob \<and> in_use ob' = insert x (in_use ob) \<and>
        txCtrlBlk_GetPointer ob' (descID (tTxDescriptor (aTxCtrlBlkTbl ob' ! x))) = Some x))"
proof -
  have wf: "blk_wf ob" using txblk_inv.reach_invar [OF assms] .
  show ?thesis
  proof (cases "card (in_use ob) = 158")
    case True
    with txblk.alloc_empty [OF wf] wf show ?thesis by (auto simp: blk_wf_def)
  next
    case False
    with txblk.out_finite [OF wf] have "card (in_use ob) < 158" by linarith
    from txblk.alloc_ok [OF wf this] obtain x ob' where
      a: "txCtrlBlk_Alloc ob = Some (Some x, ob')" "x \<notin> in_use ob" "blk_wf ob'" "in_use ob' = insert x (in_use ob)"
      by blast
    have x: "x \<in> in_use ob'" using a(4) by simp
    then have x: "x \<noteq> 0" "x < CTRL_BLK_ENTRIES_NUM" by (auto simp: in_use_def)
    then have "descID (tTxDescriptor (aTxCtrlBlkTbl ob' ! x)) = of_nat x" using a(3) by (simp add: blk_wf_def)
    then have "txCtrlBlk_GetPointer ob' (descID (tTxDescriptor (aTxCtrlBlkTbl ob' ! x))) = Some x"
      using x by (simp add: txCtrlBlk_GetPointer_def CTRL_BLK_ENTRIES_NUM_def unat_of_nat)
    with a x wf False show ?thesis by (auto simp: blk_wf_def)
  qed
qed

theorem txCtrlBlk_Alloc_reachable_witness:
  "\<exists>x ob'. txCtrlBlk_Alloc blk_ex = Some (Some x, ob') \<and> x \<noteq> 0 \<and> in_use ob' = {x}"
  using txCtrlBlk_Alloc_reachable [OF blk_ex_wf(4)] blk_ex_wf(3) by auto

text \<open>
  \<open>n\<close> allocations in a row return pairwise different entries, none of which was in use,
  and as many of them as are left below the capacity of 158.
\<close>

lemma txCtrlBlk_Alloc_distinct:
  assumes "blk_wf ob"
  shows "\<exists>xs ob'. alloc_n txCtrlBlk_Alloc n ob = Some (xs, ob') \<and> distinct xs \<and> set xs \<inter> in_use ob = {} \<and>
    length xs = min n (158 - card (in_use ob)) \<and> in_use ob' = in_use ob \<union> set xs"
  using txblk.alloc_n_ok [OF assms, of n] by blast

text \<open>
  Releasing the entry that was just allocated restores the free chain exactly (the same entry is
  the next one to be handed out) and the count of used entries.
\<close>

lemma txCtrlBlk_Free_after_Alloc:
  assumes "blk_wf ob" "txCtrlBlk_Alloc ob = Some (Some x, ob')"
  shows "\<exists>ob''. txCtrlBlk_Free (Some ob') x = Some ob'' \<and> blk_wf ob'' \<and> free_list ob'' = free_list ob \<and>
    uNumUsedEntries ob'' = uNumUsedEntries ob"
proof -
  obtain y z zs where fl: "free_list ob = y # z # zs"
    using assms txCtrlBlk_Alloc_last [of ob]
    by (cases "free_list ob"; cases "tl (free_list ob)") (auto simp: blk_wf_def)
  from txCtrlBlk_Alloc_step [OF assms(1) fl] assms(2)
  have a: "y = x" "blk_wf ob'" "free_list ob' = z # zs" by auto
  have "x \<in> in_use ob'"
    using assms(1) fl a(1,3) by (auto simp: in_use_def blk_wf_def)
  from txCtrlBlk_Free_step [OF a(2) this] obtain ob'' where
    f: "txCtrlBlk_Free (Some ob') x = Some ob''" "blk_wf ob''" "free_list ob'' = x # free_list ob'" by blast
  have "unat (uNumUsedEntries ob'') = unat (uNumUsedEntries ob)"
    using f(2,3) assms(1) fl a(1,3) by (auto simp: blk_wf_def in_use_def)
  then have "uNumUsedEntries ob'' = uNumUsedEntries ob" by (simp add: word_unat_eq_iff)
  with f fl a show ?thesis by (auto simp del: txCtrlBlk_Free.simps)
qed

text \<open>
  Releasing an entry that is already free is detected and changes nothing, except for the last entry
  of the free chain, whose \<open>pNextFreeEntry\<close> is \<open>NULL\<close> just as that of an entry in use: there the
  release is accepted and the chain becomes a cycle.
\<close>

lemma txCtrlBlk_Free_double:
  assumes "blk_wf ob" "free_list ob = xs @ x # y # ys"
  shows "txCtrlBlk_Free (Some ob) x = Some ob"
proof -
  have "chain t a (xs @ x # y # ys) \<Longrightarrow> pNextFreeEntry (t ! x) = Some y" for t a
    by (induction xs arbitrary: a) auto
  with assms show ?thesis by (auto simp: blk_wf_def)
qed

lemma txCtrlBlk_Free_double_last:
  "\<exists>ob. txCtrlBlk_Free (Some blk_ex) 159 = Some ob \<and> uNumUsedEntries ob = 0xFFFFFFFF \<and>
    pNextFreeEntry (aTxCtrlBlkTbl ob ! 0) = Some 159 \<and> pNextFreeEntry (aTxCtrlBlkTbl ob ! 159) = Some 1 \<and>
    pNextFreeEntry (aTxCtrlBlkTbl ob ! 158) = Some 159"
proof -
  have "pNextFreeEntry (aTxCtrlBlkTbl blk_ex ! i) = (if Suc i < 160 then Some (Suc i) else None)"
    if "i < 160" for i
    using txCtrlBlk_Init_tbl(1) [OF _ refl] that by (simp add: blk_ex_def CTRL_BLK_ENTRIES_NUM_def)
  moreover have "length (aTxCtrlBlkTbl blk_ex) = 160"
    using blk_ex_wf(1) by (simp add: blk_wf_def CTRL_BLK_ENTRIES_NUM_def)
  moreover have "uNumUsedEntries blk_ex = 0"
    by (simp add: blk_ex_def txCtrlBlk_Init_def Let_def)
  ultimately show ?thesis by (simp add: Let_def)
qed

end
