(* ===== verification/Wlan_TxHwQueue.thy ===== *)
theory Wlan_TxHwQueue
  imports Wlan_TxCtrlBlk
begin

text \<open>
  \<open>TWD/Data_Service/txHwQueue.c\<close>: the driver's account of the firmware's Tx memory blocks and
  descriptors. Blocks are allocated here by an estimate from the packet's length and freed by the
  accumulated counters that the firmware reports on every interrupt. Each of the four queues has a low
  threshold of blocks that is reserved for it while it uses less. All quantities are 32-bit words (the two
  descriptor counters 8-bit words), with C's wrap-around; \<open>hw_wf\<close> is the invariant under which none of
  the subtractions wraps. The target is little endian, so \<open>ENDIAN_HANDLE_LONG\<close> is the identity.
\<close>

section \<open>Data\<close>

datatype ETxHwQueStatus =
  TX_HW_QUE_STATUS_SUCCESS | TX_HW_QUE_STATUS_STOP_CURRENT | TX_HW_QUE_STATUS_STOP_NEXT

record TTxHwQueueInfo =
  uNumBlksThresh :: u32
  uNumBlksUsed :: u32
  uNumBlksReserved :: u32
  uAllocatedBlksCntr :: u32
  uFwFreedBlksCntr :: u32
  uNumBlksCausedBusy :: u32
  bQueueBusy :: bool
  uPercentOfBlkLowThresh :: u16
  uPercentOfBlkHighThresh :: u16

text \<open>\<open>fUpdateBusyMapCb\<close> is the address of the registered callback, \<open>NULL\<close> when there is none.\<close>

record TTxHwQueue =
  hwq_hReport :: handle
  fUpdateBusyMapCb :: handle
  hUpdateBusyMapHndl :: handle
  uNumTotalBlks :: u32
  uNumTotalBlksFree :: u32
  uNumTotalBlksReserved :: u32
  uNumUsedDescriptors :: u32
  uFwTxResultsCntr :: u8
  uDrvTxPacketsCntr :: u8
  aTxHwQueueInfo :: "TTxHwQueueInfo list"

text \<open>The part of \<open>FwStatus_t\<close> that this module reads.\<close>

record FwStatus =
  fw_counters :: u32
  txReleasedBlks :: "u32 list"

definition MAX_NUM_OF_AC :: nat where "MAX_NUM_OF_AC = 4"
definition NUM_TX_DESCRIPTORS :: u32 where "NUM_TX_DESCRIPTORS = 32"
definition MAX_HEADER_SIZE :: u32 where "MAX_HEADER_SIZE = 48"
definition BLKS_HW_ALLOC_SPARE :: u32 where "BLKS_HW_ALLOC_SPARE = 2"
definition TWD_INT_UPDATE_BUSY_MAP :: u32 where "TWD_INT_UPDATE_BUSY_MAP = 2"

text \<open>\<open>QOS_AC_BE\<close>, \<open>QOS_AC_BK\<close>, \<open>QOS_AC_VI\<close> and \<open>QOS_AC_VO\<close> are 0 to 3.\<close>

definition WMEQosTagToACTable :: "nat list" where
  "WMEQosTagToACTable = [0, 1, 1, 0, 2, 2, 3, 3]"

section \<open>Operations\<close>

definition zero_info :: TTxHwQueueInfo where
  "zero_info = \<lparr>uNumBlksThresh = 0, uNumBlksUsed = 0, uNumBlksReserved = 0, uAllocatedBlksCntr = 0,
     uFwFreedBlksCntr = 0, uNumBlksCausedBusy = 0, bQueueBusy = False, uPercentOfBlkLowThresh = 0,
     uPercentOfBlkHighThresh = 0\<rparr>"

definition txHwQueue_Create :: "handle \<Rightarrow> TTxHwQueue option" where
  "txHwQueue_Create mem =
     (if mem = NULL then None
      else Some \<lparr>hwq_hReport = NULL, fUpdateBusyMapCb = NULL, hUpdateBusyMapHndl = NULL, uNumTotalBlks = 0,
        uNumTotalBlksFree = 0, uNumTotalBlksReserved = 0, uNumUsedDescriptors = 0, uFwTxResultsCntr = 0,
        uDrvTxPacketsCntr = 0, aTxHwQueueInfo = replicate MAX_NUM_OF_AC zero_info\<rparr>)"

definition txHwQueue_Init :: "TTxHwQueue \<Rightarrow> handle \<Rightarrow> TTxHwQueue" where
  "txHwQueue_Init hw report = hw\<lparr>hwq_hReport := report\<rparr>"

text \<open>\<open>thresh\<close> is \<open>TxBlocksThresholdPerAc\<close>, an array of 8-bit values.\<close>

definition txHwQueue_Config :: "TTxHwQueue \<Rightarrow> u8 list \<Rightarrow> TTxHwQueue" where
  "txHwQueue_Config hw thresh =
     hw\<lparr>aTxHwQueueInfo := map (\<lambda>i. (aTxHwQueueInfo hw ! i)\<lparr>uNumBlksThresh := ucast (thresh ! i)\<rparr>) [0..<MAX_NUM_OF_AC]\<rparr>"

definition restart_info :: "TTxHwQueueInfo \<Rightarrow> TTxHwQueueInfo" where
  "restart_info qi = qi\<lparr>uNumBlksUsed := 0, uAllocatedBlksCntr := 0, uFwFreedBlksCntr := 0,
     uNumBlksCausedBusy := 0, bQueueBusy := False, uNumBlksReserved := uNumBlksThresh qi\<rparr>"

definition restart_queue :: "TTxHwQueue \<Rightarrow> nat \<Rightarrow> TTxHwQueue" where
  "restart_queue hw i =
     (let qi = restart_info (aTxHwQueueInfo hw ! i)
      in hw\<lparr>aTxHwQueueInfo := (aTxHwQueueInfo hw)[i := qi],
            uNumTotalBlksReserved := uNumTotalBlksReserved hw + uNumBlksReserved qi\<rparr>)"

definition txHwQueue_Restart :: "TTxHwQueue \<Rightarrow> TTxHwQueue" where
  "txHwQueue_Restart hw =
     foldl restart_queue
       (hw\<lparr>uNumTotalBlksFree := uNumTotalBlks hw, uNumTotalBlksReserved := 0, uNumUsedDescriptors := 0,
           uFwTxResultsCntr := 0, uDrvTxPacketsCntr := 0\<rparr>)
       [0..<MAX_NUM_OF_AC]"

definition txHwQueue_SetHwInfo :: "TTxHwQueue \<Rightarrow> u32 \<Rightarrow> TTxHwQueue" where
  "txHwQueue_SetHwInfo hw numTxBlocks = txHwQueue_Restart (hw\<lparr>uNumTotalBlks := numTxBlocks - 1\<rparr>)"

definition txHwQueue_CheckResources :: "TTxHwQueue \<Rightarrow> TTxHwQueueInfo \<Rightarrow> u32" where
  "txHwQueue_CheckResources hw qi =
     (if uNumUsedDescriptors hw < NUM_TX_DESCRIPTORS
      then uNumTotalBlksFree hw - (uNumTotalBlksReserved hw - uNumBlksReserved qi)
      else 0)"

text \<open>The estimate of the blocks a packet of the given descriptor length needs.\<close>

definition blks_to_alloc :: "u16 \<Rightarrow> u32" where
  "blks_to_alloc len =
     (let l = (ucast len :: u32) + 20;
          n = drop_bit 8 l;
          excl = push_bit 2 n + (l AND 0xFF) + MAX_HEADER_SIZE - 14;
          n = n + (if excl > 252 then 2 else 1)
      in n + BLKS_HW_ALLOC_SPARE)"

text \<open>The reservation that a queue gives up when it takes \<open>n\<close> blocks.\<close>

definition take_reserved :: "TTxHwQueue \<Rightarrow> TTxHwQueueInfo \<Rightarrow> u32 \<Rightarrow> TTxHwQueue \<times> TTxHwQueueInfo" where
  "take_reserved hw qi n =
     (let r = uNumBlksReserved qi in
      if r \<noteq> 0 then
        if n > r then (hw\<lparr>uNumTotalBlksReserved := uNumTotalBlksReserved hw - r\<rparr>, qi\<lparr>uNumBlksReserved := 0\<rparr>)
        else (hw\<lparr>uNumTotalBlksReserved := uNumTotalBlksReserved hw - n\<rparr>, qi\<lparr>uNumBlksReserved := r - n\<rparr>)
      else (hw, qi))"

definition txHwQueue_AllocResources ::
  "TTxHwQueue \<Rightarrow> TxIfDescriptor \<Rightarrow> ETxHwQueStatus \<times> TTxHwQueue \<times> TxIfDescriptor" where
  "txHwQueue_AllocResources hw d =
     (let q = WMEQosTagToACTable ! unat (desc_tid d);
          qi = aTxHwQueueInfo hw ! q;
          n = blks_to_alloc (desc_length d);
          avail = txHwQueue_CheckResources hw qi
      in if n > avail then
           (TX_HW_QUE_STATUS_STOP_CURRENT,
            hw\<lparr>aTxHwQueueInfo := (aTxHwQueueInfo hw)[q := qi\<lparr>uNumBlksCausedBusy := n, bQueueBusy := True\<rparr>]\<rparr>, d)
         else
           let d = d\<lparr>extraMemBlks := ucast BLKS_HW_ALLOC_SPARE, totalMemBlks := ucast n\<rparr>;
               hw = hw\<lparr>uNumUsedDescriptors := uNumUsedDescriptors hw + 1,
                       uDrvTxPacketsCntr := uDrvTxPacketsCntr hw + 1\<rparr>;
               qi = qi\<lparr>uAllocatedBlksCntr := uAllocatedBlksCntr qi + n\<rparr>;
               (hw, qi) = take_reserved hw qi n;
               hw = hw\<lparr>uNumTotalBlksFree := uNumTotalBlksFree hw - n\<rparr>;
               qi = qi\<lparr>uNumBlksUsed := uNumBlksUsed qi + n\<rparr>;
               stop = push_bit 1 n > avail;
               qi = (if stop then qi\<lparr>uNumBlksCausedBusy := n, bQueueBusy := True\<rparr> else qi)
           in (if stop then TX_HW_QUE_STATUS_STOP_NEXT else TX_HW_QUE_STATUS_SUCCESS,
               hw\<lparr>aTxHwQueueInfo := (aTxHwQueueInfo hw)[q := qi]\<rparr>, d))"

definition txHwQueue_UpdateFreeBlocks :: "TTxHwQueue \<Rightarrow> nat \<Rightarrow> u32 \<Rightarrow> TTxHwQueue" where
  "txHwQueue_UpdateFreeBlocks hw q uFreeBlocks =
     (let qi = aTxHwQueueInfo hw ! q in
      if uFreeBlocks = uFwFreedBlksCntr qi then hw
      else
        let qi = qi\<lparr>uFwFreedBlksCntr := uFreeBlocks\<rparr>;
            newUsedBlks = uAllocatedBlksCntr qi - uFreeBlocks;
            numBlksToFree = uNumBlksUsed qi - newUsedBlks;
            hw = hw\<lparr>uNumTotalBlksFree := uNumTotalBlksFree hw + numBlksToFree\<rparr>;
            qi = qi\<lparr>uNumBlksUsed := newUsedBlks\<rparr>;
            lowThreshold = uNumBlksThresh qi
        in if newUsedBlks < lowThreshold then
             let newReserved = lowThreshold - newUsedBlks;
                 qi = qi\<lparr>uNumBlksReserved := newReserved\<rparr>;
                 hw = hw\<lparr>uNumTotalBlksReserved := uNumTotalBlksReserved hw +
                          (if numBlksToFree > newReserved then newReserved else numBlksToFree)\<rparr>
             in hw\<lparr>aTxHwQueueInfo := (aTxHwQueueInfo hw)[q := qi]\<rparr>
           else hw\<lparr>aTxHwQueueInfo := (aTxHwQueueInfo hw)[q := qi]\<rparr>)"

text \<open>\<open>FwStatCntrs_t.txResultsCntr\<close> is the last byte of the counters word.\<close>

definition txResultsCntr :: "u32 \<Rightarrow> u8" where
  "txResultsCntr counters = ucast (drop_bit 24 counters)"

definition update_descriptors :: "TTxHwQueue \<Rightarrow> u8 \<Rightarrow> TTxHwQueue" where
  "update_descriptors hw cntr =
     (if cntr \<noteq> uFwTxResultsCntr hw then
        let hw = hw\<lparr>uFwTxResultsCntr := cntr\<rparr>;
            used = (if uFwTxResultsCntr hw \<le> uDrvTxPacketsCntr hw
                    then ucast (uDrvTxPacketsCntr hw) - ucast (uFwTxResultsCntr hw)
                    else 0x100 - (ucast (uFwTxResultsCntr hw) - ucast (uDrvTxPacketsCntr hw)))
        in hw\<lparr>uNumUsedDescriptors := used\<rparr>
      else hw)"

text \<open>One queue of the second loop: release it when it was stopped and its packet now fits.\<close>

definition release_queue :: "TTxHwQueue \<times> u32 \<Rightarrow> nat \<Rightarrow> TTxHwQueue \<times> u32" where
  "release_queue s q =
     (case s of (hw, bp) \<Rightarrow>
        let qi = aTxHwQueueInfo hw ! q in
        if bQueueBusy qi \<and> uNumBlksCausedBusy qi \<le> txHwQueue_CheckResources hw qi
        then (hw\<lparr>aTxHwQueueInfo := (aTxHwQueueInfo hw)[q := qi\<lparr>bQueueBusy := False\<rparr>]\<rparr>, bp OR push_bit q 1)
        else (hw, bp))"

text \<open>The second result lists the calls of the callback: its address, its handle and the bitmap.\<close>

definition txHwQueue_UpdateFreeResources ::
  "TTxHwQueue \<Rightarrow> FwStatus \<Rightarrow> ti_status \<times> (handle \<times> handle \<times> u32) list \<times> TTxHwQueue" where
  "txHwQueue_UpdateFreeResources hw fw =
     (let hw = update_descriptors hw (txResultsCntr (fw_counters fw));
          hw = foldl (\<lambda>h q. txHwQueue_UpdateFreeBlocks h q (txReleasedBlks fw ! q)) hw [0..<MAX_NUM_OF_AC];
          (hw, bp) = foldl release_queue (hw, 0) [0..<MAX_NUM_OF_AC];
          calls = (if bp > 0 \<and> fUpdateBusyMapCb hw \<noteq> NULL
                   then [(fUpdateBusyMapCb hw, hUpdateBusyMapHndl hw, bp)] else [])
      in (TXN_STATUS_COMPLETE, calls, hw))"

definition txHwQueue_RegisterCb :: "TTxHwQueue \<Rightarrow> u32 \<Rightarrow> handle \<Rightarrow> handle \<Rightarrow> TTxHwQueue" where
  "txHwQueue_RegisterCb hw uCallBackId fCbFunc hCbHndl =
     (if uCallBackId = TWD_INT_UPDATE_BUSY_MAP
      then hw\<lparr>fUpdateBusyMapCb := fCbFunc, hUpdateBusyMapHndl := hCbHndl\<rparr> else hw)"

fun txHwQueue_Destroy :: "TTxHwQueue option \<Rightarrow> ti_status \<times> bool" where
  "txHwQueue_Destroy None = (TI_OK, False)"
| "txHwQueue_Destroy (Some hw) = (TI_OK, True)"

section \<open>The accounting invariant\<close>

text \<open>
  Natural-number views: \<open>used_sum\<close> and \<open>res_sum\<close> add up the queues. \<open>info_wf\<close> says that a queue's
  reservation is what it lacks to its threshold and that its use is the difference of the two accumulated
  counters; \<open>hw_wf\<close> that no block is lost and that the reservations can be honoured.
\<close>

definition used_sum :: "TTxHwQueue \<Rightarrow> nat" where
  "used_sum hw = sum_list (map (\<lambda>qi. unat (uNumBlksUsed qi)) (aTxHwQueueInfo hw))"

definition res_sum :: "TTxHwQueue \<Rightarrow> nat" where
  "res_sum hw = sum_list (map (\<lambda>qi. unat (uNumBlksReserved qi)) (aTxHwQueueInfo hw))"

definition info_wf :: "TTxHwQueueInfo \<Rightarrow> bool" where [wf_defs]:
  "info_wf qi \<longleftrightarrow>
     unat (uNumBlksReserved qi) = unat (uNumBlksThresh qi) - unat (uNumBlksUsed qi) \<and>
     uNumBlksUsed qi = uAllocatedBlksCntr qi - uFwFreedBlksCntr qi"

definition hw_wf :: "TTxHwQueue \<Rightarrow> bool" where [wf_defs]:
  "hw_wf hw \<longleftrightarrow>
     length (aTxHwQueueInfo hw) = MAX_NUM_OF_AC \<and>
     (\<forall>qi\<in>set (aTxHwQueueInfo hw). info_wf qi) \<and>
     unat (uNumTotalBlksFree hw) + used_sum hw = unat (uNumTotalBlks hw) \<and>
     unat (uNumTotalBlksReserved hw) = res_sum hw \<and>
     res_sum hw \<le> unat (uNumTotalBlksFree hw) \<and>
     uNumUsedDescriptors hw \<le> NUM_TX_DESCRIPTORS \<and>
     uNumUsedDescriptors hw = ucast (uDrvTxPacketsCntr hw - uFwTxResultsCntr hw)"

section \<open>The operations keep the invariant\<close>

lemma res_le_sum: "q < length (aTxHwQueueInfo hw) \<Longrightarrow> unat (uNumBlksReserved (aTxHwQueueInfo hw ! q)) \<le> res_sum hw"
  using elem_le_sum_list [of q "map (\<lambda>qi. unat (uNumBlksReserved qi)) (aTxHwQueueInfo hw)"] by (simp add: res_sum_def)

lemma used_le_sum: "q < length (aTxHwQueueInfo hw) \<Longrightarrow> unat (uNumBlksUsed (aTxHwQueueInfo hw ! q)) \<le> used_sum hw"
  using elem_le_sum_list [of q "map (\<lambda>qi. unat (uNumBlksUsed qi)) (aTxHwQueueInfo hw)"] by (simp add: used_sum_def)

lemma CheckResources_unat:
  assumes "hw_wf hw" "q < MAX_NUM_OF_AC" "uNumUsedDescriptors hw < NUM_TX_DESCRIPTORS"
  shows "unat (txHwQueue_CheckResources hw (aTxHwQueueInfo hw ! q)) =
    unat (uNumTotalBlksFree hw) - (res_sum hw - unat (uNumBlksReserved (aTxHwQueueInfo hw ! q)))"
proof -
  have r: "unat (uNumBlksReserved (aTxHwQueueInfo hw ! q)) \<le> res_sum hw"
    using assms by (intro res_le_sum) (simp add: hw_wf_def)
  with assms have 1: "unat (uNumTotalBlksReserved hw - uNumBlksReserved (aTxHwQueueInfo hw ! q)) =
      res_sum hw - unat (uNumBlksReserved (aTxHwQueueInfo hw ! q))"
    by (subst unat_le_diff) (auto simp: word_le_nat_alt hw_wf_def)
  with assms show ?thesis
    unfolding txHwQueue_CheckResources_def by (subst if_P) (auto simp: word_le_nat_alt hw_wf_def unat_le_diff)
qed

text \<open>Writing one queue: the invariant from the changes in the totals.\<close>

lemma hw_update_wf:
  assumes "hw_wf hw" "q < MAX_NUM_OF_AC" "info_wf qi'"
    and infos: "aTxHwQueueInfo hw' = (aTxHwQueueInfo hw)[q := qi']"
    and total: "uNumTotalBlks hw' = uNumTotalBlks hw"
    and free: "unat (uNumTotalBlksFree hw') + unat (uNumBlksUsed qi') =
      unat (uNumTotalBlksFree hw) + unat (uNumBlksUsed (aTxHwQueueInfo hw ! q))"
    and res: "unat (uNumTotalBlksReserved hw') + unat (uNumBlksReserved (aTxHwQueueInfo hw ! q)) =
      unat (uNumTotalBlksReserved hw) + unat (uNumBlksReserved qi')"
    and le: "unat (uNumTotalBlksReserved hw') \<le> unat (uNumTotalBlksFree hw')"
    and desc: "uNumUsedDescriptors hw' \<le> NUM_TX_DESCRIPTORS"
      "uNumUsedDescriptors hw' = ucast (uDrvTxPacketsCntr hw' - uFwTxResultsCntr hw')"
  shows "hw_wf hw'"
proof -
  have q: "q < length (aTxHwQueueInfo hw)" using assms by (simp add: hw_wf_def)
  have u: "used_sum hw' + unat (uNumBlksUsed (aTxHwQueueInfo hw ! q)) = used_sum hw + unat (uNumBlksUsed qi')"
    unfolding used_sum_def infos using q by (rule sum_list_update_nat)
  have r: "res_sum hw' + unat (uNumBlksReserved (aTxHwQueueInfo hw ! q)) = res_sum hw + unat (uNumBlksReserved qi')"
    unfolding res_sum_def infos using q by (rule sum_list_update_nat)
  have i: "\<forall>qi\<in>set (aTxHwQueueInfo hw'). info_wf qi"
    using assms(1,3) set_update_subset_insert [of "aTxHwQueueInfo hw" q qi'] unfolding infos hw_wf_def by blast
  have "unat (uNumTotalBlksFree hw) + used_sum hw = unat (uNumTotalBlks hw)"
    "unat (uNumTotalBlksReserved hw) = res_sum hw"
    using assms(1) by (simp_all add: hw_wf_def)
  with u r free res le have "unat (uNumTotalBlksFree hw') + used_sum hw' = unat (uNumTotalBlks hw')"
    "unat (uNumTotalBlksReserved hw') = res_sum hw'" "res_sum hw' \<le> unat (uNumTotalBlksFree hw')"
    unfolding total by linarith+
  with i assms(1) desc show ?thesis by (simp add: hw_wf_def infos)
qed

lemma hw_busy_wf [simp]:
  assumes "hw_wf hw" "q < MAX_NUM_OF_AC"
  shows "hw_wf (hw\<lparr>aTxHwQueueInfo := (aTxHwQueueInfo hw)[q := (aTxHwQueueInfo hw ! q)\<lparr>uNumBlksCausedBusy := n, bQueueBusy := b\<rparr>]\<rparr>)"
    "hw_wf (hw\<lparr>aTxHwQueueInfo := (aTxHwQueueInfo hw)[q := (aTxHwQueueInfo hw ! q)\<lparr>bQueueBusy := b\<rparr>]\<rparr>)"
proof -
  have "info_wf (aTxHwQueueInfo hw ! q)" using assms by (simp add: hw_wf_def)
  then have "info_wf ((aTxHwQueueInfo hw ! q)\<lparr>uNumBlksCausedBusy := n, bQueueBusy := b\<rparr>)"
    "info_wf ((aTxHwQueueInfo hw ! q)\<lparr>bQueueBusy := b\<rparr>)" by (simp_all add: info_wf_def)
  with assms show "hw_wf (hw\<lparr>aTxHwQueueInfo := (aTxHwQueueInfo hw)[q := (aTxHwQueueInfo hw ! q)\<lparr>uNumBlksCausedBusy := n, bQueueBusy := b\<rparr>]\<rparr>)"
    "hw_wf (hw\<lparr>aTxHwQueueInfo := (aTxHwQueueInfo hw)[q := (aTxHwQueueInfo hw ! q)\<lparr>bQueueBusy := b\<rparr>]\<rparr>)"
    by (intro hw_update_wf [OF assms, rotated 1]; simp add: hw_wf_def)+
qed

lemma WME_table_range: "t < 8 \<Longrightarrow> WMEQosTagToACTable ! t < MAX_NUM_OF_AC"
  by (auto simp: WMEQosTagToACTable_def MAX_NUM_OF_AC_def less_Suc_eq numeral_eq_Suc)

text \<open>The estimate lies between 3 and 260 blocks, so it is never 0 and doubling it does not wrap.\<close>

lemma blks_to_alloc_unat:
  "unat (blks_to_alloc len) = (unat len + 20) div 256 + (if 4 * ((unat len + 20) div 256) + (unat len + 20) mod 256 + 34 > 252 then 4 else 3)"
proof -
  define l where "l = (ucast len :: u32) + 20"
  have len: "unat len < 65536" using unsigned_less [of len] by simp
  have l: "unat l = unat len + 20"
    using len by (simp add: l_def unat_word_ariths unsigned_ucast_eq take_bit_eq_mod)
  have n: "unat (drop_bit 8 l) = (unat len + 20) div 256"
    unfolding unat_drop_bit_eq l by (simp add: drop_bit_eq_div)
  have m: "unat (l AND 0xFF) = (unat len + 20) mod 256"
  proof -
    have "l AND 0xFF = take_bit 8 l" by (simp only: take_bit_eq_mask) (simp add: mask_eq_exp_minus_1)
    show ?thesis unfolding \<open>l AND 0xFF = take_bit 8 l\<close> unsigned_take_bit_eq l by (simp add: take_bit_eq_mod)
  qed
  have b: "(unat len + 20) div 256 \<le> 256" "(unat len + 20) mod 256 < 256" using len by auto
  have p: "unat (push_bit 2 (drop_bit 8 l)) = 4 * ((unat len + 20) div 256)"
    using b n by (simp add: push_bit_eq_mult unat_word_ariths)
  have s: "unat (push_bit 2 (drop_bit 8 l) + (l AND 0xFF)) = 4 * ((unat len + 20) div 256) + (unat len + 20) mod 256"
    using p m b by (subst unat_add_bounded) simp_all
  have e: "unat (push_bit 2 (drop_bit 8 l) + (l AND 0xFF) + MAX_HEADER_SIZE - 14) =
      4 * ((unat len + 20) div 256) + (unat len + 20) mod 256 + 34"
  proof -
    have "X + MAX_HEADER_SIZE - 14 = X + 34" for X by (simp add: MAX_HEADER_SIZE_def)
    then show ?thesis using s b by (simp only: unat_add_bounded) (subst unat_add_bounded, simp_all)
  qed
  have c: "push_bit 2 (drop_bit 8 l) + (l AND 0xFF) + MAX_HEADER_SIZE - 14 > 252 \<longleftrightarrow>
      4 * ((unat len + 20) div 256) + (unat len + 20) mod 256 + 34 > 252"
    using e by (simp add: word_less_nat_alt)
  show ?thesis
    unfolding blks_to_alloc_def Let_def l_def [symmetric]
    using n b by (simp only: c) (simp add: BLKS_HW_ALLOC_SPARE_def unat_word_ariths)
qed

lemma blks_to_alloc_bounds: "3 \<le> unat (blks_to_alloc len)" "unat (blks_to_alloc len) \<le> 260"
proof -
  have "unat len < 65536" using unsigned_less [of len] by simp
  then have "(unat len + 20) div 256 \<le> 256" by linarith
  then show "3 \<le> unat (blks_to_alloc len)" "unat (blks_to_alloc len) \<le> 260"
    unfolding blks_to_alloc_unat by (simp_all only: split: if_split) linarith+
qed

lemma avail_pos_desc:
  "0 < unat (txHwQueue_CheckResources hw qi) \<Longrightarrow> uNumUsedDescriptors hw < NUM_TX_DESCRIPTORS"
  by (auto simp: txHwQueue_CheckResources_def split: if_splits)

lemma take_reserved_spec:
  assumes "take_reserved hw qi n = (hw', qi')" "uNumBlksReserved qi \<le> uNumTotalBlksReserved hw"
  shows "unat (uNumBlksReserved qi') = unat (uNumBlksReserved qi) - unat n"
    and "unat (uNumTotalBlksReserved hw') + unat (uNumBlksReserved qi) =
      unat (uNumTotalBlksReserved hw) + unat (uNumBlksReserved qi')"
    and "hw' = hw\<lparr>uNumTotalBlksReserved := uNumTotalBlksReserved hw'\<rparr>"
    and "qi' = qi\<lparr>uNumBlksReserved := uNumBlksReserved qi'\<rparr>"
  using assms
  by (auto simp: take_reserved_def Let_def word_le_nat_alt word_less_nat_alt unat_le_diff split: if_splits)

lemma unat_n_used:
  assumes "hw_wf hw" "q < MAX_NUM_OF_AC" "unat n \<le> unat (uNumTotalBlksFree hw)"
  shows "unat (uNumBlksUsed (aTxHwQueueInfo hw ! q) + n) = unat (uNumBlksUsed (aTxHwQueueInfo hw ! q)) + unat n"
proof -
  have "unat (uNumBlksUsed (aTxHwQueueInfo hw ! q)) \<le> used_sum hw"
    using assms by (intro used_le_sum) (simp add: hw_wf_def)
  with assms have "unat (uNumBlksUsed (aTxHwQueueInfo hw ! q)) + unat n \<le> unat (uNumTotalBlks hw)"
    by (simp add: hw_wf_def)
  also have "\<dots> < 2 ^ LENGTH(32)" by (rule unsigned_less)
  finally show ?thesis by (rule unat_add_bounded)
qed

lemma desc_inc:
  assumes "uNumUsedDescriptors hw = ucast (uDrvTxPacketsCntr hw - uFwTxResultsCntr hw)"
    "uNumUsedDescriptors hw < NUM_TX_DESCRIPTORS"
  shows "uNumUsedDescriptors hw + 1 = ucast (uDrvTxPacketsCntr hw + 1 - uFwTxResultsCntr hw)"
    "uNumUsedDescriptors hw + 1 \<le> NUM_TX_DESCRIPTORS"
proof -
  let ?d = "uDrvTxPacketsCntr hw - uFwTxResultsCntr hw"
  have "unat ?d < 32"
    using assms by (simp add: word_less_nat_alt NUM_TX_DESCRIPTORS_def)
  moreover have "uDrvTxPacketsCntr hw + 1 - uFwTxResultsCntr hw = ?d + 1" by simp
  ultimately have "unat (uDrvTxPacketsCntr hw + 1 - uFwTxResultsCntr hw) = unat ?d + 1"
    by (simp only: unat_word_ariths(1)) simp
  with assms(1) \<open>unat ?d < 32\<close> have "unat (ucast (uDrvTxPacketsCntr hw + 1 - uFwTxResultsCntr hw) :: u32) = unat (uNumUsedDescriptors hw + 1)"
    by (simp add: unat_word_ariths(1))
  then show "uNumUsedDescriptors hw + 1 = ucast (uDrvTxPacketsCntr hw + 1 - uFwTxResultsCntr hw)"
    by (metis word_unat_eq_iff)
  show "uNumUsedDescriptors hw + 1 \<le> NUM_TX_DESCRIPTORS" using assms(2) by (rule inc_le)
qed

text \<open>The three outcomes of \<open>txHwQueue_AllocResources\<close>.\<close>

lemma AllocResources_stop_current:
  assumes "q = WMEQosTagToACTable ! unat (desc_tid d)" "n = blks_to_alloc (desc_length d)"
    "txHwQueue_CheckResources hw (aTxHwQueueInfo hw ! q) < n"
  shows "txHwQueue_AllocResources hw d = (TX_HW_QUE_STATUS_STOP_CURRENT,
    hw\<lparr>aTxHwQueueInfo := (aTxHwQueueInfo hw)[q := (aTxHwQueueInfo hw ! q)\<lparr>uNumBlksCausedBusy := n, bQueueBusy := True\<rparr>]\<rparr>, d)"
  using assms by (simp add: txHwQueue_AllocResources_def Let_def)

lemma AllocResources_ok:
  assumes wf: "hw_wf hw" and tid: "unat (desc_tid d) < 8"
    and q: "q = WMEQosTagToACTable ! unat (desc_tid d)" and n: "n = blks_to_alloc (desc_length d)"
    and av: "n \<le> txHwQueue_CheckResources hw (aTxHwQueueInfo hw ! q)"
    and r: "txHwQueue_AllocResources hw d = (st, hw', d')"
  shows "st \<noteq> TX_HW_QUE_STATUS_STOP_CURRENT" "hw_wf hw'"
    "unat (uNumBlksUsed (aTxHwQueueInfo hw' ! q)) = unat (uNumBlksUsed (aTxHwQueueInfo hw ! q)) + unat n"
    "unat (uNumTotalBlksFree hw') = unat (uNumTotalBlksFree hw) - unat n"
    "d' = d\<lparr>extraMemBlks := 2, totalMemBlks := ucast n\<rparr>"
    "st = TX_HW_QUE_STATUS_STOP_NEXT \<longleftrightarrow> 2 * unat n > unat (txHwQueue_CheckResources hw (aTxHwQueueInfo hw ! q))"
    "st = TX_HW_QUE_STATUS_STOP_NEXT \<Longrightarrow> bQueueBusy (aTxHwQueueInfo hw' ! q) \<and> uNumBlksCausedBusy (aTxHwQueueInfo hw' ! q) = n"
proof -
  let ?qi = "aTxHwQueueInfo hw ! q"
  have q4: "q < MAX_NUM_OF_AC" unfolding q using tid by (rule WME_table_range)
  have len: "q < length (aTxHwQueueInfo hw)" using wf q4 by (simp add: hw_wf_def)
  have iw: "info_wf ?qi" using wf len by (simp add: hw_wf_def)
  have nb: "3 \<le> unat n" "unat n \<le> 260" using blks_to_alloc_bounds n by simp_all
  have de: "uNumUsedDescriptors hw < NUM_TX_DESCRIPTORS"
    using av nb by (intro avail_pos_desc [of _ ?qi]) (simp add: word_le_nat_alt)
  have rs: "unat (uNumBlksReserved ?qi) \<le> res_sum hw" using len by (rule res_le_sum)
  have av': "unat n \<le> unat (uNumTotalBlksFree hw) - (res_sum hw - unat (uNumBlksReserved ?qi))"
    using av CheckResources_unat [OF wf q4 de] by (simp add: word_le_nat_alt)
  define hw1 where "hw1 = hw\<lparr>uNumUsedDescriptors := uNumUsedDescriptors hw + 1, uDrvTxPacketsCntr := uDrvTxPacketsCntr hw + 1\<rparr>"
  define qi1 where "qi1 = ?qi\<lparr>uAllocatedBlksCntr := uAllocatedBlksCntr ?qi + n\<rparr>"
  obtain hw2 qi2 where t: "take_reserved hw1 qi1 n = (hw2, qi2)" by (cases "take_reserved hw1 qi1 n")
  have "uNumBlksReserved qi1 \<le> uNumTotalBlksReserved hw1"
    using rs wf by (simp add: word_le_nat_alt hw_wf_def hw1_def qi1_def)
  note ts = take_reserved_spec [OF t this]
  let ?stop = "push_bit 1 n > txHwQueue_CheckResources hw ?qi"
  let ?qi' = "(if ?stop then qi2\<lparr>uNumBlksUsed := uNumBlksUsed qi2 + n, uNumBlksCausedBusy := n, bQueueBusy := True\<rparr>
      else qi2\<lparr>uNumBlksUsed := uNumBlksUsed qi2 + n\<rparr>)"
  have hw': "hw' = hw2\<lparr>uNumTotalBlksFree := uNumTotalBlksFree hw2 - n, aTxHwQueueInfo := (aTxHwQueueInfo hw2)[q := ?qi']\<rparr>"
    and st: "st = (if ?stop then TX_HW_QUE_STATUS_STOP_NEXT else TX_HW_QUE_STATUS_SUCCESS)"
    and d': "d' = d\<lparr>extraMemBlks := 2, totalMemBlks := ucast n\<rparr>"
    using r av t unfolding txHwQueue_AllocResources_def Let_def q [symmetric] n [symmetric] hw1_def [symmetric] qi1_def [symmetric]
    by (auto simp: BLKS_HW_ALLOC_SPARE_def split: if_splits)
  have h2: "uNumTotalBlksFree hw2 = uNumTotalBlksFree hw" "uNumTotalBlks hw2 = uNumTotalBlks hw"
    "aTxHwQueueInfo hw2 = aTxHwQueueInfo hw" "uNumUsedDescriptors hw2 = uNumUsedDescriptors hw + 1"
    "uDrvTxPacketsCntr hw2 = uDrvTxPacketsCntr hw + 1" "uFwTxResultsCntr hw2 = uFwTxResultsCntr hw"
    by (subst ts(3), simp add: hw1_def)+
  have q2: "uNumBlksUsed qi2 = uNumBlksUsed ?qi" "uNumBlksThresh qi2 = uNumBlksThresh ?qi"
    "uAllocatedBlksCntr qi2 = uAllocatedBlksCntr ?qi + n" "uFwFreedBlksCntr qi2 = uFwFreedBlksCntr ?qi"
    by (subst ts(4), simp add: qi1_def)+
  have nf: "unat n \<le> unat (uNumTotalBlksFree hw)" using av' by linarith
  have used: "unat (uNumBlksUsed ?qi + n) = unat (uNumBlksUsed ?qi) + unat n"
    using wf q4 nf by (rule unat_n_used)
  have free: "unat (uNumTotalBlksFree hw - n) = unat (uNumTotalBlksFree hw) - unat n"
    using nf by (simp add: unat_le_diff word_le_nat_alt)
  have iw': "info_wf ?qi'"
    using iw used ts(1) q2 by (auto simp: info_wf_def qi1_def)
  show "hw_wf hw'"
  proof (rule hw_update_wf [OF wf q4 iw'])
    show "unat (uNumTotalBlksFree hw') + unat (uNumBlksUsed ?qi') = unat (uNumTotalBlksFree hw) + unat (uNumBlksUsed ?qi)"
      using free used nf by (simp add: hw' h2 q2)
    show "unat (uNumTotalBlksReserved hw') + unat (uNumBlksReserved ?qi) = unat (uNumTotalBlksReserved hw) + unat (uNumBlksReserved ?qi')"
      using ts(2) by (simp add: hw' hw1_def qi1_def)
    show "unat (uNumTotalBlksReserved hw') \<le> unat (uNumTotalBlksFree hw')"
    proof -
      have "unat (uNumTotalBlksReserved hw2) + unat (uNumBlksReserved ?qi) =
          res_sum hw + (unat (uNumBlksReserved ?qi) - unat n)" "res_sum hw \<le> unat (uNumTotalBlksFree hw)"
        using ts(1,2) wf by (simp_all add: hw_wf_def hw1_def qi1_def)
      with av' rs have "unat (uNumTotalBlksReserved hw2) \<le> unat (uNumTotalBlksFree hw) - unat n" by linarith
      then show ?thesis using free by (simp add: hw' h2)
    qed
    show "uNumUsedDescriptors hw' \<le> NUM_TX_DESCRIPTORS"
      "uNumUsedDescriptors hw' = ucast (uDrvTxPacketsCntr hw' - uFwTxResultsCntr hw')"
      using desc_inc [OF _ de] wf by (simp_all add: hw' h2 hw_wf_def)
  qed (simp_all add: hw' h2)
  show "st \<noteq> TX_HW_QUE_STATUS_STOP_CURRENT" using st by simp
  show "unat (uNumBlksUsed (aTxHwQueueInfo hw' ! q)) = unat (uNumBlksUsed ?qi) + unat n"
    using len used by (simp add: hw' h2 q2)
  show "unat (uNumTotalBlksFree hw') = unat (uNumTotalBlksFree hw) - unat n" using free by (simp add: hw' h2)
  show "d' = d\<lparr>extraMemBlks := 2, totalMemBlks := ucast n\<rparr>" by (rule d')
  have "unat (push_bit 1 n) = 2 * unat n" using nb by (simp add: push_bit_eq_mult unat_word_ariths)
  then have stop: "?stop \<longleftrightarrow> 2 * unat n > unat (txHwQueue_CheckResources hw ?qi)" by (simp add: word_less_nat_alt)
  then show "st = TX_HW_QUE_STATUS_STOP_NEXT \<longleftrightarrow> 2 * unat n > unat (txHwQueue_CheckResources hw ?qi)"
    using st by simp
  show "st = TX_HW_QUE_STATUS_STOP_NEXT \<Longrightarrow> bQueueBusy (aTxHwQueueInfo hw' ! q) \<and> uNumBlksCausedBusy (aTxHwQueueInfo hw' ! q) = n"
    using st len by (auto simp: hw' h2 split: if_splits)
qed

subsection \<open>Freed blocks and descriptors\<close>

text \<open>
  What the driver relies on from the firmware: the counters it reports lie between the driver's previous
  knowledge and what the driver handed over, so the number of blocks and of descriptors in use does not grow.
\<close>

definition fw_blks_ok :: "TTxHwQueue \<Rightarrow> nat \<Rightarrow> u32 \<Rightarrow> bool" where
  "fw_blks_ok hw q fb \<longleftrightarrow>
     uAllocatedBlksCntr (aTxHwQueueInfo hw ! q) - fb \<le> uNumBlksUsed (aTxHwQueueInfo hw ! q)"

definition fw_ok :: "TTxHwQueue \<Rightarrow> FwStatus \<Rightarrow> bool" where
  "fw_ok hw fw \<longleftrightarrow>
     (\<forall>q<MAX_NUM_OF_AC. fw_blks_ok hw q (txReleasedBlks fw ! q)) \<and>
     ucast (uDrvTxPacketsCntr hw - txResultsCntr (fw_counters fw)) \<le> uNumUsedDescriptors hw"

lemma UpdateFreeBlocks_info:
  assumes "q < length (aTxHwQueueInfo hw)" "info_wf (aTxHwQueueInfo hw ! q)"
  shows "uNumBlksUsed (aTxHwQueueInfo (txHwQueue_UpdateFreeBlocks hw q fb) ! q) =
      uAllocatedBlksCntr (aTxHwQueueInfo hw ! q) - fb"
    "j \<noteq> q \<Longrightarrow> aTxHwQueueInfo (txHwQueue_UpdateFreeBlocks hw q fb) ! j = aTxHwQueueInfo hw ! j"
    "uNumBlksThresh (aTxHwQueueInfo (txHwQueue_UpdateFreeBlocks hw q fb) ! q) = uNumBlksThresh (aTxHwQueueInfo hw ! q)"
    "bQueueBusy (aTxHwQueueInfo (txHwQueue_UpdateFreeBlocks hw q fb) ! q) = bQueueBusy (aTxHwQueueInfo hw ! q)"
    "uNumBlksCausedBusy (aTxHwQueueInfo (txHwQueue_UpdateFreeBlocks hw q fb) ! q) = uNumBlksCausedBusy (aTxHwQueueInfo hw ! q)"
  using assms by (auto simp: txHwQueue_UpdateFreeBlocks_def Let_def info_wf_def)

lemma UpdateFreeBlocks_same [simp]:
  "uNumTotalBlks (txHwQueue_UpdateFreeBlocks hw q fb) = uNumTotalBlks hw"
  "uNumUsedDescriptors (txHwQueue_UpdateFreeBlocks hw q fb) = uNumUsedDescriptors hw"
  "uDrvTxPacketsCntr (txHwQueue_UpdateFreeBlocks hw q fb) = uDrvTxPacketsCntr hw"
  "uFwTxResultsCntr (txHwQueue_UpdateFreeBlocks hw q fb) = uFwTxResultsCntr hw"
  "fUpdateBusyMapCb (txHwQueue_UpdateFreeBlocks hw q fb) = fUpdateBusyMapCb hw"
  "hUpdateBusyMapHndl (txHwQueue_UpdateFreeBlocks hw q fb) = hUpdateBusyMapHndl hw"
  "length (aTxHwQueueInfo (txHwQueue_UpdateFreeBlocks hw q fb)) = length (aTxHwQueueInfo hw)"
  by (simp_all add: txHwQueue_UpdateFreeBlocks_def Let_def)

lemma UpdateFreeBlocks_wf:
  assumes wf: "hw_wf hw" and q: "q < MAX_NUM_OF_AC" and ok: "fw_blks_ok hw q fb"
  shows "hw_wf (txHwQueue_UpdateFreeBlocks hw q fb)"
proof (cases "fb = uFwFreedBlksCntr (aTxHwQueueInfo hw ! q)")
  case True
  then show ?thesis using wf by (simp add: txHwQueue_UpdateFreeBlocks_def Let_def)
next
  case False
  let ?qi = "aTxHwQueueInfo hw ! q" and ?hw = "txHwQueue_UpdateFreeBlocks hw q fb"
  let ?qi' = "aTxHwQueueInfo ?hw ! q"
  define new where "new = uAllocatedBlksCntr ?qi - fb"
  define nf where "nf = uNumBlksUsed ?qi - new"
  have len: "q < length (aTxHwQueueInfo hw)" using wf q by (simp add: hw_wf_def)
  have iw: "info_wf ?qi" using wf len by (simp add: hw_wf_def)
  have le: "unat new \<le> unat (uNumBlksUsed ?qi)"
    using ok by (simp add: fw_blks_ok_def word_le_nat_alt new_def)
  have nf: "unat nf = unat (uNumBlksUsed ?qi) - unat new"
    using le by (simp add: nf_def unat_le_diff word_le_nat_alt)
  have us: "unat (uNumBlksUsed ?qi) \<le> used_sum hw" using len by (rule used_le_sum)
  have total: "unat (uNumTotalBlksFree hw) + used_sum hw = unat (uNumTotalBlks hw)" "unat (uNumTotalBlks hw) < 2 ^ 32"
    using wf unsigned_less [of "uNumTotalBlks hw"] by (simp_all add: hw_wf_def)
  have tr: "unat (uNumTotalBlksReserved hw) = res_sum hw" "res_sum hw \<le> unat (uNumTotalBlksFree hw)"
    using wf by (simp_all add: hw_wf_def)
  have free: "unat (uNumTotalBlksFree hw + nf) = unat (uNumTotalBlksFree hw) + unat nf"
    using us total nf by (intro unat_add_bounded) simp
  have rs: "unat (uNumBlksReserved ?qi) = unat (uNumBlksThresh ?qi) - unat (uNumBlksUsed ?qi)"
    using iw by (simp add: info_wf_def)
  define add where "add = (if new < uNumBlksThresh ?qi then
      (if nf > uNumBlksThresh ?qi - new then uNumBlksThresh ?qi - new else nf) else 0)"
  have thr: "unat (uNumBlksThresh ?qi - new) = unat (uNumBlksThresh ?qi) - unat new" if "new < uNumBlksThresh ?qi"
    using that by (simp add: unat_le_diff less_imp_le)
  have add: "unat add = (unat (uNumBlksThresh ?qi) - unat new) - (unat (uNumBlksThresh ?qi) - unat (uNumBlksUsed ?qi))"
    using nf le thr by (auto simp: add_def word_less_nat_alt)
  have "unat add \<le> unat nf" using nf add by linarith
  then have res: "unat (uNumTotalBlksReserved hw + add) = unat (uNumTotalBlksReserved hw) + unat add"
    using us total tr nf by (intro unat_add_bounded) simp
  have f1: "uNumTotalBlksFree ?hw = uNumTotalBlksFree hw + nf"
    using False by (simp add: txHwQueue_UpdateFreeBlocks_def Let_def new_def nf_def)
  have f2: "uNumTotalBlksReserved ?hw = uNumTotalBlksReserved hw + add"
    using False by (simp add: txHwQueue_UpdateFreeBlocks_def Let_def new_def nf_def add_def)
  have qi': "unat (uNumBlksReserved ?qi') = unat (uNumBlksThresh ?qi) - unat new"
    "uAllocatedBlksCntr ?qi' = uAllocatedBlksCntr ?qi" "uFwFreedBlksCntr ?qi' = fb"
    using False len iw le rs
    by (auto simp: txHwQueue_UpdateFreeBlocks_def Let_def new_def unat_le_diff word_less_nat_alt word_le_nat_alt)
  note inf = UpdateFreeBlocks_info [OF len iw, where fb = fb]
  have iw': "info_wf ?qi'" using qi' inf(1,3) by (simp add: info_wf_def new_def)
  show ?thesis
  proof (rule hw_update_wf [OF wf q iw'])
    show "aTxHwQueueInfo ?hw = (aTxHwQueueInfo hw)[q := ?qi']"
      using inf(2) len by (auto intro!: nth_equalityI simp: nth_list_update)
    show "unat (uNumTotalBlksFree ?hw) + unat (uNumBlksUsed ?qi') = unat (uNumTotalBlksFree hw) + unat (uNumBlksUsed ?qi)"
      using free nf le inf(1) by (simp add: f1 new_def)
    show "unat (uNumTotalBlksReserved ?hw) + unat (uNumBlksReserved ?qi) = unat (uNumTotalBlksReserved hw) + unat (uNumBlksReserved ?qi')"
      using res add rs qi'(1) le unfolding f2 by linarith
    show "unat (uNumTotalBlksReserved ?hw) \<le> unat (uNumTotalBlksFree ?hw)"
      using res free tr \<open>unat add \<le> unat nf\<close> by (simp add: f1 f2)
    show "uNumUsedDescriptors ?hw \<le> NUM_TX_DESCRIPTORS"
      "uNumUsedDescriptors ?hw = ucast (uDrvTxPacketsCntr ?hw - uFwTxResultsCntr ?hw)"
      unfolding UpdateFreeBlocks_same using wf unfolding hw_wf_def by blast+
  qed simp
qed

lemma update_descriptors_used:
  "hw_wf hw \<Longrightarrow> uNumUsedDescriptors (update_descriptors hw c) = ucast (uDrvTxPacketsCntr hw - c)"
proof -
  assume wf: "hw_wf hw"
  let ?d = "uDrvTxPacketsCntr hw"
  have "unat (ucast ?d - ucast c :: u32) = unat (?d - c)" if "c \<le> ?d"
    using that by (simp add: unat_le_diff word_le_nat_alt)
  moreover have "unat (0x100 - (ucast c - ucast ?d) :: u32) = unat (?d - c)" if "\<not> c \<le> ?d"
  proof -
    have lt: "unat ?d < unat c" "unat c < 256"
      using that unsigned_less [of c] by (simp_all add: word_less_nat_alt not_le)
    then have "unat (ucast c - ucast ?d :: u32) = unat c - unat ?d"
      by (simp add: unat_le_diff word_le_nat_alt)
    moreover have "unat (?d - c) = 256 + unat ?d - unat c"
      using lt by (simp add: unat_sub_if')
    ultimately show ?thesis using lt by (subst unat_le_diff) (simp_all add: word_le_nat_alt)
  qed
  ultimately have "(if c \<le> ?d then ucast ?d - ucast c else 0x100 - (ucast c - ucast ?d)) = (ucast (?d - c) :: u32)"
    by (auto simp: word_unat_eq_iff)
  with wf show ?thesis by (cases "c \<le> ?d") (auto simp: update_descriptors_def Let_def hw_wf_def)
qed

lemma update_descriptors_same [simp]:
  "aTxHwQueueInfo (update_descriptors hw c) = aTxHwQueueInfo hw"
  "uNumTotalBlks (update_descriptors hw c) = uNumTotalBlks hw"
  "uNumTotalBlksFree (update_descriptors hw c) = uNumTotalBlksFree hw"
  "uNumTotalBlksReserved (update_descriptors hw c) = uNumTotalBlksReserved hw"
  "uDrvTxPacketsCntr (update_descriptors hw c) = uDrvTxPacketsCntr hw"
  "uFwTxResultsCntr (update_descriptors hw c) = c"
  "fUpdateBusyMapCb (update_descriptors hw c) = fUpdateBusyMapCb hw"
  "hUpdateBusyMapHndl (update_descriptors hw c) = hUpdateBusyMapHndl hw"
  by (simp_all add: update_descriptors_def Let_def)

lemma update_descriptors_wf:
  assumes "hw_wf hw" "ucast (uDrvTxPacketsCntr hw - c) \<le> uNumUsedDescriptors hw"
  shows "hw_wf (update_descriptors hw c)"
proof -
  have "ucast (uDrvTxPacketsCntr hw - c) \<le> NUM_TX_DESCRIPTORS"
    using assms unfolding hw_wf_def by (metis order_trans)
  then show ?thesis
    using assms(1) update_descriptors_used [OF assms(1), of c]
    by (simp add: hw_wf_def used_sum_def res_sum_def)
qed

text \<open>The state after the first loop of \<open>txHwQueue_UpdateFreeResources\<close>.\<close>

definition after_fw :: "TTxHwQueue \<Rightarrow> FwStatus \<Rightarrow> nat \<Rightarrow> TTxHwQueue" where
  "after_fw hw fw k = foldl (\<lambda>h q. txHwQueue_UpdateFreeBlocks h q (txReleasedBlks fw ! q))
     (update_descriptors hw (txResultsCntr (fw_counters fw))) [0..<k]"

lemma after_fw_spec:
  assumes "hw_wf hw" "fw_ok hw fw" "k \<le> MAX_NUM_OF_AC"
  shows "hw_wf (after_fw hw fw k) \<and>
    (\<forall>j. k \<le> j \<longrightarrow> aTxHwQueueInfo (after_fw hw fw k) ! j = aTxHwQueueInfo hw ! j) \<and>
    (\<forall>j<k. uNumBlksUsed (aTxHwQueueInfo (after_fw hw fw k) ! j) =
        uAllocatedBlksCntr (aTxHwQueueInfo hw ! j) - txReleasedBlks fw ! j \<and>
      uNumBlksThresh (aTxHwQueueInfo (after_fw hw fw k) ! j) = uNumBlksThresh (aTxHwQueueInfo hw ! j) \<and>
      bQueueBusy (aTxHwQueueInfo (after_fw hw fw k) ! j) = bQueueBusy (aTxHwQueueInfo hw ! j) \<and>
      uNumBlksCausedBusy (aTxHwQueueInfo (after_fw hw fw k) ! j) = uNumBlksCausedBusy (aTxHwQueueInfo hw ! j))"
  using assms(3)
proof (induction k)
  case 0
  then show ?case using assms(1,2) update_descriptors_wf by (simp add: after_fw_def fw_ok_def)
next
  case (Suc k)
  let ?h = "after_fw hw fw k"
  have s: "after_fw hw fw (Suc k) = txHwQueue_UpdateFreeBlocks ?h k (txReleasedBlks fw ! k)"
    by (simp add: after_fw_def)
  have k: "k < MAX_NUM_OF_AC" using Suc.prems by simp
  from Suc have IH: "hw_wf ?h" "aTxHwQueueInfo ?h ! k = aTxHwQueueInfo hw ! k" by auto
  have len: "k < length (aTxHwQueueInfo ?h)" "info_wf (aTxHwQueueInfo ?h ! k)"
    using IH(1) k by (simp_all add: hw_wf_def)
  have "fw_blks_ok ?h k (txReleasedBlks fw ! k)"
    using assms(2) k IH(2) by (simp add: fw_ok_def fw_blks_ok_def)
  then have "hw_wf (after_fw hw fw (Suc k))"
    unfolding s using IH(1) k by (intro UpdateFreeBlocks_wf)
  then show ?case
    using Suc UpdateFreeBlocks_info [OF len, where fb = "txReleasedBlks fw ! k"] IH(2)
    unfolding s by (auto simp: less_Suc_eq)
qed

text \<open>The second loop releases exactly the stopped queues whose packet now fits.\<close>

definition queue_ready :: "TTxHwQueue \<Rightarrow> nat \<Rightarrow> bool" where
  "queue_ready hw q \<longleftrightarrow> bQueueBusy (aTxHwQueueInfo hw ! q) \<and>
     uNumBlksCausedBusy (aTxHwQueueInfo hw ! q) \<le> txHwQueue_CheckResources hw (aTxHwQueueInfo hw ! q)"

lemma release_fold:
  assumes "hw_wf hw" "k \<le> MAX_NUM_OF_AC" "foldl release_queue (hw, 0) [0..<k] = (hw', bp)"
  shows "hw_wf hw' \<and> fUpdateBusyMapCb hw' = fUpdateBusyMapCb hw \<and> hUpdateBusyMapHndl hw' = hUpdateBusyMapHndl hw \<and>
    uNumTotalBlks hw' = uNumTotalBlks hw \<and> uNumTotalBlksFree hw' = uNumTotalBlksFree hw \<and>
    uNumTotalBlksReserved hw' = uNumTotalBlksReserved hw \<and> uNumUsedDescriptors hw' = uNumUsedDescriptors hw \<and>
    (\<forall>j. bit bp j \<longleftrightarrow> j < k \<and> queue_ready hw j) \<and>
    (\<forall>j<MAX_NUM_OF_AC. aTxHwQueueInfo hw' ! j = (aTxHwQueueInfo hw ! j)
      \<lparr>bQueueBusy := bQueueBusy (aTxHwQueueInfo hw ! j) \<and> \<not> (j < k \<and> queue_ready hw j)\<rparr>)"
  using assms(2,3)
proof (induction k arbitrary: hw' bp)
  case 0
  then show ?case using assms(1) by simp
next
  case (Suc k)
  obtain h b where f: "foldl release_queue (hw, 0) [0..<k] = (h, b)" by (cases "foldl release_queue (hw, 0) [0..<k]")
  have k: "k < MAX_NUM_OF_AC" "k < 32" using Suc.prems by (simp_all add: MAX_NUM_OF_AC_def)
  note IH = Suc.IH [OF less_imp_le [OF k(1)] f]
  have len: "length (aTxHwQueueInfo h) = MAX_NUM_OF_AC" "length (aTxHwQueueInfo hw) = MAX_NUM_OF_AC"
    using IH assms(1) by (simp_all add: hw_wf_def)
  have same: "aTxHwQueueInfo h ! k = aTxHwQueueInfo hw ! k"
    using IH k by simp
  have "txHwQueue_CheckResources h (aTxHwQueueInfo h ! k) = txHwQueue_CheckResources hw (aTxHwQueueInfo hw ! k)"
    using IH same by (simp add: txHwQueue_CheckResources_def)
  then have r: "(bQueueBusy (aTxHwQueueInfo h ! k) \<and> uNumBlksCausedBusy (aTxHwQueueInfo h ! k) \<le>
      txHwQueue_CheckResources h (aTxHwQueueInfo h ! k)) = queue_ready hw k"
    using same by (simp add: queue_ready_def)
  have s: "release_queue (h, b) k = (hw', bp)" using Suc.prems(2) f by simp
  show ?case
  proof (cases "queue_ready hw k")
    case False
    with r s have "hw' = h" "bp = b" by (auto simp: release_queue_def Let_def)
    have "(j < Suc k \<and> queue_ready hw j) = (j < k \<and> queue_ready hw j)" for j
      using False by (auto simp: less_Suc_eq)
    note eq = this
    show ?thesis unfolding \<open>hw' = h\<close> \<open>bp = b\<close> eq by (rule IH)
  next
    case True
    with r s have h': "hw' = h\<lparr>aTxHwQueueInfo := (aTxHwQueueInfo h)[k := (aTxHwQueueInfo h ! k)\<lparr>bQueueBusy := False\<rparr>]\<rparr>"
      and bp: "bp = b OR push_bit k 1"
      by (auto simp: release_queue_def Let_def)
    have "hw_wf hw'" unfolding h' using IH k(1) by (intro hw_busy_wf(2)) auto
    moreover have "bit bp j \<longleftrightarrow> j < Suc k \<and> queue_ready hw j" for j
      using IH True k by (auto simp: bp bit_simps less_Suc_eq)
    moreover have "aTxHwQueueInfo hw' ! j = (aTxHwQueueInfo hw ! j)
        \<lparr>bQueueBusy := bQueueBusy (aTxHwQueueInfo hw ! j) \<and> \<not> (j < Suc k \<and> queue_ready hw j)\<rparr>" if "j < MAX_NUM_OF_AC" for j
      using that IH True k len same by (cases "j = k") (simp_all add: h' less_Suc_eq)
    ultimately show ?thesis using IH by (simp add: h')
  qed
qed

lemma UpdateFreeResources_spec:
  assumes "hw_wf hw" "fw_ok hw fw" "txHwQueue_UpdateFreeResources hw fw = (st, calls, hw')"
  shows "\<exists>bp. foldl release_queue (after_fw hw fw MAX_NUM_OF_AC, 0) [0..<MAX_NUM_OF_AC] = (hw', bp) \<and>
    st = TXN_STATUS_COMPLETE \<and> hw_wf hw' \<and>
    calls = (if bp > 0 \<and> fUpdateBusyMapCb hw' \<noteq> NULL then [(fUpdateBusyMapCb hw', hUpdateBusyMapHndl hw', bp)] else [])"
proof -
  obtain h bp where f: "foldl release_queue (after_fw hw fw MAX_NUM_OF_AC, 0) [0..<MAX_NUM_OF_AC] = (h, bp)"
    by (cases "foldl release_queue (after_fw hw fw MAX_NUM_OF_AC, 0) [0..<MAX_NUM_OF_AC]")
  have "hw_wf (after_fw hw fw MAX_NUM_OF_AC)" using after_fw_spec [OF assms(1,2)] by blast
  from release_fold [OF this _ f] have "hw_wf h" by simp
  with assms(3) f show ?thesis
    unfolding txHwQueue_UpdateFreeResources_def Let_def after_fw_def by auto
qed

section \<open>Initialisation and reachable states\<close>

definition thresh_fit :: "TTxHwQueue \<Rightarrow> bool" where
  "thresh_fit hw \<longleftrightarrow> length (aTxHwQueueInfo hw) = MAX_NUM_OF_AC \<and>
     sum_list (map (\<lambda>qi. unat (uNumBlksThresh qi)) (aTxHwQueueInfo hw)) \<le> unat (uNumTotalBlks hw)"

lemma unat_sum4:
  fixes a b c d :: u32
  assumes "unat a + (unat b + (unat c + unat d)) \<le> unat (t :: u32)"
  shows "unat (a + b + c + d) = unat a + (unat b + (unat c + unat d))"
proof -
  have t: "unat t < 2 ^ LENGTH(32)" by (rule unsigned_less)
  have "unat (a + b) = unat a + unat b" using assms t by (intro unat_add_bounded) linarith
  moreover have "unat (a + b + c) = unat (a + b) + unat c"
    using assms t calculation by (intro unat_add_bounded) linarith
  moreover have "unat (a + b + c + d) = unat (a + b + c) + unat d"
    using assms t calculation by (intro unat_add_bounded) linarith
  ultimately show ?thesis by simp
qed

lemma Restart_spec:
  assumes "thresh_fit hw"
  shows "hw_wf (txHwQueue_Restart hw)" "used_sum (txHwQueue_Restart hw) = 0"
    "map uNumBlksThresh (aTxHwQueueInfo (txHwQueue_Restart hw)) = map uNumBlksThresh (aTxHwQueueInfo hw)"
    "uNumTotalBlks (txHwQueue_Restart hw) = uNumTotalBlks hw"
proof -
  obtain a b c d where l: "aTxHwQueueInfo hw = [a, b, c, d]"
    using assms by (auto simp: thresh_fit_def MAX_NUM_OF_AC_def length_Suc_conv eval_nat_numeral)
  have s: "unat (uNumBlksThresh a) + (unat (uNumBlksThresh b) + (unat (uNumBlksThresh c) + unat (uNumBlksThresh d))) \<le> unat (uNumTotalBlks hw)"
    using assms l by (simp add: thresh_fit_def)
  have u: "[0..<MAX_NUM_OF_AC] = [0, 1, 2, 3]" by (simp add: MAX_NUM_OF_AC_def upt_rec)
  have e: "txHwQueue_Restart hw = hw\<lparr>uNumTotalBlksFree := uNumTotalBlks hw,
      uNumTotalBlksReserved := uNumBlksThresh a + uNumBlksThresh b + uNumBlksThresh c + uNumBlksThresh d,
      uNumUsedDescriptors := 0, uFwTxResultsCntr := 0, uDrvTxPacketsCntr := 0,
      aTxHwQueueInfo := map restart_info [a, b, c, d]\<rparr>"
    unfolding txHwQueue_Restart_def u by (simp add: restart_queue_def Let_def l restart_info_def)
  show "hw_wf (txHwQueue_Restart hw)"
    using s unat_sum4 [OF s]
    by (simp add: e restart_info_def hw_wf_def info_wf_def used_sum_def res_sum_def MAX_NUM_OF_AC_def NUM_TX_DESCRIPTORS_def)
  show "used_sum (txHwQueue_Restart hw) = 0"
    "map uNumBlksThresh (aTxHwQueueInfo (txHwQueue_Restart hw)) = map uNumBlksThresh (aTxHwQueueInfo hw)"
    "uNumTotalBlks (txHwQueue_Restart hw) = uNumTotalBlks hw"
    by (simp_all add: e l restart_info_def used_sum_def)
qed

definition hw_init :: "TTxHwQueue \<Rightarrow> bool" where
  "hw_init hw \<longleftrightarrow> (\<exists>hw0 thresh n. length thresh = MAX_NUM_OF_AC \<and>
     sum_list (map unat thresh) \<le> unat (n - 1 :: u32) \<and>
     hw = txHwQueue_SetHwInfo (txHwQueue_Config hw0 thresh) n)"

inductive hw_step :: "TTxHwQueue \<Rightarrow> TTxHwQueue \<Rightarrow> bool" where
  step_alloc: "unat (desc_tid d) < 8 \<Longrightarrow> txHwQueue_AllocResources hw d = (st, hw', d') \<Longrightarrow> hw_step hw hw'"
| step_update: "fw_ok hw fw \<Longrightarrow> txHwQueue_UpdateFreeResources hw fw = (st, calls, hw') \<Longrightarrow> hw_step hw hw'"
| step_restart: "hw' = txHwQueue_Restart hw \<Longrightarrow> hw_step hw hw'"
| step_register: "hw' = txHwQueue_RegisterCb hw i f h \<Longrightarrow> hw_step hw hw'"

lemma hw_init_fit:
  assumes "length thresh = MAX_NUM_OF_AC" "sum_list (map unat thresh) \<le> unat (n - 1 :: u32)"
  shows "thresh_fit ((txHwQueue_Config hw0 thresh)\<lparr>uNumTotalBlks := n - 1\<rparr>)"
proof -
  have "map (\<lambda>i. unat (thresh ! i)) [0..<MAX_NUM_OF_AC] = map unat thresh"
    using assms(1) by (intro nth_equalityI) simp_all
  with assms show ?thesis by (simp add: thresh_fit_def txHwQueue_Config_def comp_def)
qed

definition hw_invar :: "TTxHwQueue \<Rightarrow> bool" where
  "hw_invar hw \<longleftrightarrow> hw_wf hw \<and> thresh_fit hw"

lemma thresh_fit_cong:
  assumes "map uNumBlksThresh (aTxHwQueueInfo hw') = map uNumBlksThresh (aTxHwQueueInfo hw)"
    "uNumTotalBlks hw' = uNumTotalBlks hw"
  shows "thresh_fit hw' = thresh_fit hw"
proof -
  have "map (\<lambda>qi. unat (uNumBlksThresh qi)) (aTxHwQueueInfo hw') = map (\<lambda>qi. unat (uNumBlksThresh qi)) (aTxHwQueueInfo hw)"
    using assms(1) by (metis (no_types, lifting) list.map_comp map_eq_conv comp_def)
  moreover have "length (aTxHwQueueInfo hw') = length (aTxHwQueueInfo hw)"
    using assms(1) by (rule map_eq_imp_length_eq)
  ultimately show ?thesis using assms(2) by (simp add: thresh_fit_def)
qed

lemma Alloc_thresh:
  assumes "txHwQueue_AllocResources hw d = (st, hw', d')"
  shows "map uNumBlksThresh (aTxHwQueueInfo hw') = map uNumBlksThresh (aTxHwQueueInfo hw)"
    "uNumTotalBlks hw' = uNumTotalBlks hw"
proof -
  let ?q = "WMEQosTagToACTable ! unat (desc_tid d)"
  have u: "map uNumBlksThresh (xs[i := y]) = map uNumBlksThresh xs" if "uNumBlksThresh y = uNumBlksThresh (xs ! i)" for xs i and y :: TTxHwQueueInfo
    using that by (cases "i < length xs") (simp_all add: map_update list_update_beyond list_update_same_conv)
  show "map uNumBlksThresh (aTxHwQueueInfo hw') = map uNumBlksThresh (aTxHwQueueInfo hw)"
    "uNumTotalBlks hw' = uNumTotalBlks hw"
    using assms
    by (auto simp: txHwQueue_AllocResources_def take_reserved_def Let_def u split: if_splits)
qed

lemma Update_thresh:
  assumes "hw_wf hw" "fw_ok hw fw" "txHwQueue_UpdateFreeResources hw fw = (st, calls, hw')"
  shows "map uNumBlksThresh (aTxHwQueueInfo hw') = map uNumBlksThresh (aTxHwQueueInfo hw)"
    "uNumTotalBlks hw' = uNumTotalBlks hw"
proof -
  let ?h = "after_fw hw fw MAX_NUM_OF_AC"
  from UpdateFreeResources_spec [OF assms] obtain bp where
    f: "foldl release_queue (?h, 0) [0..<MAX_NUM_OF_AC] = (hw', bp)" "hw_wf hw'" by blast
  have a: "hw_wf ?h" "\<forall>j<MAX_NUM_OF_AC. uNumBlksThresh (aTxHwQueueInfo ?h ! j) = uNumBlksThresh (aTxHwQueueInfo hw ! j)"
    using after_fw_spec [OF assms(1,2) order_refl] by auto
  have t: "uNumTotalBlks (after_fw hw fw k) = uNumTotalBlks hw" for k
    by (induction k) (simp_all add: after_fw_def)
  note r = release_fold [OF a(1) order_refl f(1)]
  then show "uNumTotalBlks hw' = uNumTotalBlks hw" using t by simp
  show "map uNumBlksThresh (aTxHwQueueInfo hw') = map uNumBlksThresh (aTxHwQueueInfo hw)"
    using r a(2) f(2) assms(1) by (auto intro!: nth_equalityI simp: hw_wf_def)
qed

lemma hw_step_invar: "hw_step hw hw' \<Longrightarrow> hw_invar hw \<Longrightarrow> hw_invar hw'"
proof (induction rule: hw_step.induct)
  case (step_alloc d hw st hw' d')
  let ?q = "WMEQosTagToACTable ! unat (desc_tid d)" and ?n = "blks_to_alloc (desc_length d)"
  have "hw_wf hw'"
  proof (cases "?n \<le> txHwQueue_CheckResources hw (aTxHwQueueInfo hw ! ?q)")
    case True
    from step_alloc AllocResources_ok(2) [OF _ _ refl refl True] show ?thesis by (simp add: hw_invar_def)
  next
    case False
    with AllocResources_stop_current [OF refl refl, of hw d] step_alloc WME_table_range [of "unat (desc_tid d)"]
    show ?thesis by (auto simp: hw_invar_def)
  qed
  moreover have "thresh_fit hw'"
    using step_alloc thresh_fit_cong [OF Alloc_thresh] by (simp add: hw_invar_def)
  ultimately show ?case by (simp add: hw_invar_def)
next
  case (step_update hw fw st calls hw')
  then have "hw_wf hw" "thresh_fit hw" by (simp_all add: hw_invar_def)
  with step_update UpdateFreeResources_spec [of hw fw st calls hw'] thresh_fit_cong [OF Update_thresh [of hw fw st calls hw']]
  show ?case by (auto simp: hw_invar_def)
next
  case (step_restart hw' hw)
  then show ?case using Restart_spec [of hw] thresh_fit_cong [of hw' hw] by (simp add: hw_invar_def)
next
  case (step_register hw' hw i f h)
  moreover have "hw_invar (hw\<lparr>fUpdateBusyMapCb := f, hUpdateBusyMapHndl := h\<rparr>) = hw_invar hw"
    by (simp add: hw_invar_def hw_wf_def thresh_fit_def used_sum_def res_sum_def)
  ultimately show ?case by (simp add: txHwQueue_RegisterCb_def)
qed

interpretation hw_inv: state_invariant hw_init hw_step hw_invar
proof unfold_locales
  fix s
  assume "hw_init s"
  then obtain hw0 thresh n where *: "length thresh = MAX_NUM_OF_AC"
    "sum_list (map unat thresh) \<le> unat (n - 1 :: u32)" "s = txHwQueue_SetHwInfo (txHwQueue_Config hw0 thresh) n"
    by (auto simp: hw_init_def)
  from hw_init_fit [OF *(1,2), of hw0] *(3) show "hw_invar s"
    using Restart_spec [of "(txHwQueue_Config hw0 thresh)\<lparr>uNumTotalBlks := n - 1\<rparr>"] thresh_fit_cong [OF Restart_spec(3,4)]
    by (simp add: txHwQueue_SetHwInfo_def hw_invar_def)
qed (rule hw_step_invar)

section \<open>Properties of the HW-queue accounting\<close>

definition hw_ex :: TTxHwQueue where
  "hw_ex = txHwQueue_SetHwInfo (txHwQueue_Config (the (txHwQueue_Create 0x1000)) [10, 5, 20, 10]) 101"

definition desc_ex :: TxIfDescriptor where
  "desc_ex = \<lparr>desc_length = 1500, extraMemBlks = 0, totalMemBlks = 0, descID = 3, desc_tid = 6, aid = 1, desc_reserved = 0\<rparr>"

lemma hw_ex_reach: "reach hw_init hw_step hw_ex" "hw_wf hw_ex"
proof -
  have "hw_init hw_ex"
    unfolding hw_init_def hw_ex_def
    by (intro exI [of _ "the (txHwQueue_Create 0x1000)"] exI [of _ "[10, 5, 20, 10]"] exI [of _ 101])
      (simp add: MAX_NUM_OF_AC_def)
  then show "reach hw_init hw_step hw_ex" "hw_wf hw_ex"
    using hw_inv.invar_init by (auto intro: reach_init simp: hw_invar_def)
qed

lemma four_queues: "[0..<MAX_NUM_OF_AC] = [0, 1, 2, 3]" "replicate MAX_NUM_OF_AC x = [x, x, x, x]"
  by (simp_all add: MAX_NUM_OF_AC_def upt_rec numeral_eq_Suc)

lemma hw_ex_simps:
  "map uNumBlksUsed (aTxHwQueueInfo hw_ex) = [0, 0, 0, 0]"
  "map uNumBlksThresh (aTxHwQueueInfo hw_ex) = [10, 5, 20, 10]"
  "map bQueueBusy (aTxHwQueueInfo hw_ex) = [False, False, False, False]"
  "uNumUsedDescriptors hw_ex = 0" "uNumTotalBlksFree hw_ex = 100" "uNumTotalBlksReserved hw_ex = 45"
  "uDrvTxPacketsCntr hw_ex = 0" "map uAllocatedBlksCntr (aTxHwQueueInfo hw_ex) = [0, 0, 0, 0]"
  by (simp_all add: hw_ex_def txHwQueue_SetHwInfo_def txHwQueue_Config_def txHwQueue_Create_def txHwQueue_Restart_def
      restart_queue_def restart_info_def zero_info_def Let_def four_queues)

text \<open>
  C5: In every state that a valid configuration (the thresholds together do not exceed the usable
  blocks) leads to through allocations, firmware status updates, restarts and callback registrations, no
  block is lost: free and used blocks add up to the total; every queue's reservation is what it lacks
  to its threshold, the total reservation is their sum and is covered by free blocks; a queue's use is
  the difference of the two accumulated counters, and at most 32 descriptors are in use.
\<close>

theorem txHwQueue_accounting:
  assumes "reach hw_init hw_step hw"
  shows "unat (uNumTotalBlksFree hw) + used_sum hw = unat (uNumTotalBlks hw) \<and>
    (\<forall>qi\<in>set (aTxHwQueueInfo hw).
       unat (uNumBlksReserved qi) = unat (uNumBlksThresh qi) - unat (uNumBlksUsed qi) \<and>
       uNumBlksUsed qi = uAllocatedBlksCntr qi - uFwFreedBlksCntr qi) \<and>
    unat (uNumTotalBlksReserved hw) = res_sum hw \<and> res_sum hw \<le> unat (uNumTotalBlksFree hw) \<and>
    uNumUsedDescriptors hw \<le> NUM_TX_DESCRIPTORS"
proof -
  have wf: "hw_wf hw" using hw_inv.reach_invar [OF assms] by (simp add: hw_invar_def)
  have "\<forall>qi\<in>set (aTxHwQueueInfo hw). info_wf qi" using wf by (simp add: hw_wf_def)
  with wf show ?thesis unfolding hw_wf_def info_wf_def by blast
qed

theorem txHwQueue_accounting_witness:
  "unat (uNumTotalBlksFree hw_ex) + used_sum hw_ex = unat (uNumTotalBlks hw_ex)"
  using txHwQueue_accounting [OF hw_ex_reach(1)] by simp

text \<open>
  C6: The thresholds are guarantees: while a descriptor is free, a packet of a queue that stays
  within its threshold is always accepted, whatever the other queues use.
\<close>

theorem txHwQueue_threshold_guarantee:
  assumes "hw_wf hw" "unat (desc_tid d) < 8" "uNumUsedDescriptors hw < NUM_TX_DESCRIPTORS"
    and "qi = aTxHwQueueInfo hw ! (WMEQosTagToACTable ! unat (desc_tid d))"
    and "unat (uNumBlksUsed qi) + unat (blks_to_alloc (desc_length d)) \<le> unat (uNumBlksThresh qi)"
    and "txHwQueue_AllocResources hw d = (st, hw', d')"
  shows "st \<noteq> TX_HW_QUE_STATUS_STOP_CURRENT \<and> hw_wf hw'"
proof -
  let ?q = "WMEQosTagToACTable ! unat (desc_tid d)"
  have q: "?q < MAX_NUM_OF_AC" using assms(2) by (rule WME_table_range)
  have len: "?q < length (aTxHwQueueInfo hw)" using assms(1) q by (simp add: hw_wf_def)
  then have "info_wf qi" using assms(1,4) by (simp add: hw_wf_def)
  moreover have "unat (uNumBlksReserved qi) \<le> res_sum hw" using res_le_sum [OF len] assms(4) by simp
  moreover have "res_sum hw \<le> unat (uNumTotalBlksFree hw)" using assms(1) by (simp add: hw_wf_def)
  ultimately have "unat (blks_to_alloc (desc_length d)) \<le>
      unat (uNumTotalBlksFree hw) - (res_sum hw - unat (uNumBlksReserved qi))"
    using assms(5) by (simp add: info_wf_def)
  then have "blks_to_alloc (desc_length d) \<le> txHwQueue_CheckResources hw qi"
    using CheckResources_unat [OF assms(1) q assms(3)] assms(4) by (simp add: word_le_nat_alt)
  with AllocResources_ok(1,2) [OF assms(1,2) refl refl _ assms(6)] assms(4) show ?thesis by simp
qed

theorem txHwQueue_threshold_guarantee_witness:
  "fst (txHwQueue_AllocResources hw_ex desc_ex) \<noteq> TX_HW_QUE_STATUS_STOP_CURRENT"
proof -
  obtain st hw' d' where r: "txHwQueue_AllocResources hw_ex desc_ex = (st, hw', d')"
    by (cases "txHwQueue_AllocResources hw_ex desc_ex")
  have q: "WMEQosTagToACTable ! unat (desc_tid desc_ex) = 3" by (simp add: WMEQosTagToACTable_def desc_ex_def)
  have len: "length (aTxHwQueueInfo hw_ex) = 4" using hw_ex_reach(2) by (simp add: hw_wf_def MAX_NUM_OF_AC_def)
  have "map uNumBlksUsed (aTxHwQueueInfo hw_ex) ! 3 = 0" "map uNumBlksThresh (aTxHwQueueInfo hw_ex) ! 3 = 10"
    by (simp_all add: hw_ex_simps)
  then have u: "uNumBlksUsed (aTxHwQueueInfo hw_ex ! 3) = 0" "uNumBlksThresh (aTxHwQueueInfo hw_ex ! 3) = 10"
    using len by simp_all
  have b: "unat (blks_to_alloc (desc_length desc_ex)) = 9" by (simp add: blks_to_alloc_unat desc_ex_def)
  have h: "unat (desc_tid desc_ex) < 8" "uNumUsedDescriptors hw_ex < NUM_TX_DESCRIPTORS"
    by (simp_all add: desc_ex_def hw_ex_simps NUM_TX_DESCRIPTORS_def)
  from txHwQueue_threshold_guarantee [OF hw_ex_reach(2) h refl _ r] r b u show ?thesis by (simp add: q)
qed

text \<open>
  \<open>txHwQueue_AllocResources\<close> on every branch: it returns \<open>STOP_CURRENT\<close> exactly when the estimate
  exceeds what is available to the queue, and then only marks the queue busy; otherwise the blocks and a
  descriptor are taken, the descriptor is stamped with the number of blocks, and the result is
  \<open>STOP_NEXT\<close>, with the queue marked busy, exactly when twice the estimate is not available.
\<close>

lemma txHwQueue_AllocResources_outcome:
  assumes "hw_wf hw" "unat (desc_tid d) < 8"
    and "q = WMEQosTagToACTable ! unat (desc_tid d)" "n = blks_to_alloc (desc_length d)"
    and "avail = txHwQueue_CheckResources hw (aTxHwQueueInfo hw ! q)"
    and "txHwQueue_AllocResources hw d = (st, hw', d')"
  shows "hw_wf hw' \<and>
    (st = TX_HW_QUE_STATUS_STOP_CURRENT \<longleftrightarrow> avail < n) \<and>
    (st = TX_HW_QUE_STATUS_STOP_NEXT \<longleftrightarrow> n \<le> avail \<and> unat avail < 2 * unat n) \<and>
    (st \<noteq> TX_HW_QUE_STATUS_SUCCESS \<longrightarrow>
       bQueueBusy (aTxHwQueueInfo hw' ! q) \<and> uNumBlksCausedBusy (aTxHwQueueInfo hw' ! q) = n) \<and>
    (if st = TX_HW_QUE_STATUS_STOP_CURRENT
     then d' = d \<and> uNumTotalBlksFree hw' = uNumTotalBlksFree hw \<and> used_sum hw' = used_sum hw
     else d' = d\<lparr>extraMemBlks := 2, totalMemBlks := ucast n\<rparr> \<and>
       unat (uNumTotalBlksFree hw') = unat (uNumTotalBlksFree hw) - unat n \<and>
       unat (uNumBlksUsed (aTxHwQueueInfo hw' ! q)) = unat (uNumBlksUsed (aTxHwQueueInfo hw ! q)) + unat n)"
proof (cases "avail < n")
  case True
  have q: "q < MAX_NUM_OF_AC" unfolding assms(3) using assms(2) by (rule WME_table_range)
  have r: "st = TX_HW_QUE_STATUS_STOP_CURRENT" "d' = d"
    "hw' = hw\<lparr>aTxHwQueueInfo := (aTxHwQueueInfo hw)[q := (aTxHwQueueInfo hw ! q)\<lparr>uNumBlksCausedBusy := n, bQueueBusy := True\<rparr>]\<rparr>"
    using AllocResources_stop_current [OF assms(3,4), of hw] True assms(5,6) by simp_all
  have wf': "hw_wf hw'" unfolding r(3) using assms(1) q by (rule hw_busy_wf(1))
  moreover have "used_sum hw' = used_sum hw"
  proof -
    have "uNumTotalBlksFree hw' = uNumTotalBlksFree hw" "uNumTotalBlks hw' = uNumTotalBlks hw" by (simp_all add: r(3))
    with wf' assms(1) show ?thesis unfolding hw_wf_def by (metis add_left_imp_eq)
  qed
  ultimately show ?thesis using True r q assms(1) by (auto simp: hw_wf_def)
next
  case False
  then have "n \<le> txHwQueue_CheckResources hw (aTxHwQueueInfo hw ! q)" using assms(5) by simp
  note ok = AllocResources_ok [OF assms(1-4) this assms(6)]
  with False assms(5) show ?thesis by (cases st) auto
qed

text \<open>
  The rough estimate is enough: for every packet of up to 14058 bytes, the allocated blocks of
  252 bytes, without the two spare ones, hold the packet, its 20 bytes of overhead and the 34 bytes by which
  the header may grow, and the number fits the 8-bit \<open>totalMemBlks\<close> field of the descriptor.
\<close>

lemma blks_to_alloc_covers:
  assumes "len \<le> 14058"
  shows "unat len + 20 + 34 \<le> 252 * (unat (blks_to_alloc len) - 2) \<and> unat (blks_to_alloc len) < 256"
proof -
  define k r where "k = (unat len + 20) div 256" and "r = (unat len + 20) mod 256"
  have l: "unat len + 20 = 256 * k + r" "r < 256" by (simp_all add: k_def r_def)
  have "unat len \<le> 14058" using assms by (simp add: word_le_nat_alt)
  with l have k: "k \<le> 54" "k = 54 \<Longrightarrow> r \<le> 254" by linarith+
  have b: "unat (blks_to_alloc len) = k + (if 4 * k + r + 34 > 252 then 4 else 3)"
    by (simp add: blks_to_alloc_unat k_def r_def)
  have "4 * k + r + 34 \<le> 504" using l k by (cases "k = 54") auto
  then show ?thesis using l k unfolding b by auto
qed

lemma UpdateFreeResources_result:
  assumes "hw_wf hw" "fw_ok hw fw" "txHwQueue_UpdateFreeResources hw fw = (st, calls, hw')"
  shows "st = TXN_STATUS_COMPLETE \<and> hw_wf hw' \<and>
    uNumUsedDescriptors hw' = ucast (uDrvTxPacketsCntr hw - txResultsCntr (fw_counters fw)) \<and>
    (\<forall>q<MAX_NUM_OF_AC. uNumBlksUsed (aTxHwQueueInfo hw' ! q) =
        uAllocatedBlksCntr (aTxHwQueueInfo hw ! q) - txReleasedBlks fw ! q \<and>
      bQueueBusy (aTxHwQueueInfo hw' ! q) = (bQueueBusy (aTxHwQueueInfo hw ! q) \<and>
        \<not> uNumBlksCausedBusy (aTxHwQueueInfo hw ! q) \<le> txHwQueue_CheckResources hw' (aTxHwQueueInfo hw' ! q))) \<and>
    (\<exists>bp. (\<forall>q. bit bp q = (q < MAX_NUM_OF_AC \<and> bQueueBusy (aTxHwQueueInfo hw ! q) \<and> \<not> bQueueBusy (aTxHwQueueInfo hw' ! q))) \<and>
      calls = (if bp \<noteq> 0 \<and> fUpdateBusyMapCb hw \<noteq> NULL then [(fUpdateBusyMapCb hw, hUpdateBusyMapHndl hw, bp)] else []))"
proof -
  let ?h = "after_fw hw fw MAX_NUM_OF_AC"
  from UpdateFreeResources_spec [OF assms] obtain bp where f: "foldl release_queue (?h, 0) [0..<MAX_NUM_OF_AC] = (hw', bp)"
    "st = TXN_STATUS_COMPLETE" "hw_wf hw'"
    and c: "calls = (if bp > 0 \<and> fUpdateBusyMapCb hw' \<noteq> NULL then [(fUpdateBusyMapCb hw', hUpdateBusyMapHndl hw', bp)] else [])"
    by blast
  note a = after_fw_spec [OF assms(1,2) order_refl]
  have s: "fUpdateBusyMapCb (after_fw hw fw k) = fUpdateBusyMapCb hw \<and> hUpdateBusyMapHndl (after_fw hw fw k) = hUpdateBusyMapHndl hw \<and>
      uNumUsedDescriptors (after_fw hw fw k) = ucast (uDrvTxPacketsCntr hw - txResultsCntr (fw_counters fw))" for k
    using update_descriptors_used [OF assms(1)] by (induction k) (simp_all add: after_fw_def)
  note r = release_fold [OF _ order_refl f(1)]
  have r: "\<forall>j<MAX_NUM_OF_AC. aTxHwQueueInfo hw' ! j = (aTxHwQueueInfo ?h ! j)
        \<lparr>bQueueBusy := bQueueBusy (aTxHwQueueInfo ?h ! j) \<and> \<not> (j < MAX_NUM_OF_AC \<and> queue_ready ?h j)\<rparr>"
    "\<forall>j. bit bp j \<longleftrightarrow> j < MAX_NUM_OF_AC \<and> queue_ready ?h j"
    "uNumUsedDescriptors hw' = uNumUsedDescriptors ?h" "fUpdateBusyMapCb hw' = fUpdateBusyMapCb ?h"
    "hUpdateBusyMapHndl hw' = hUpdateBusyMapHndl ?h"
    "uNumTotalBlksFree hw' = uNumTotalBlksFree ?h" "uNumTotalBlksReserved hw' = uNumTotalBlksReserved ?h"
    using r a by simp_all
  have qr: "queue_ready ?h q = (bQueueBusy (aTxHwQueueInfo hw ! q) \<and>
      uNumBlksCausedBusy (aTxHwQueueInfo hw ! q) \<le> txHwQueue_CheckResources hw' (aTxHwQueueInfo hw' ! q))"
    if "q < MAX_NUM_OF_AC" for q
    using that a r by (simp add: queue_ready_def txHwQueue_CheckResources_def)
  have q: "uNumBlksUsed (aTxHwQueueInfo hw' ! q) = uAllocatedBlksCntr (aTxHwQueueInfo hw ! q) - txReleasedBlks fw ! q \<and>
      bQueueBusy (aTxHwQueueInfo hw' ! q) = (bQueueBusy (aTxHwQueueInfo hw ! q) \<and> \<not> queue_ready ?h q)"
    if "q < MAX_NUM_OF_AC" for q
    using that a r(1) by simp
  have bp: "\<forall>q. bit bp q = (q < MAX_NUM_OF_AC \<and> bQueueBusy (aTxHwQueueInfo hw ! q) \<and> \<not> bQueueBusy (aTxHwQueueInfo hw' ! q))"
    using r(2) q qr by blast
  have cl: "calls = (if bp \<noteq> 0 \<and> fUpdateBusyMapCb hw \<noteq> NULL then [(fUpdateBusyMapCb hw, hUpdateBusyMapHndl hw, bp)] else [])"
    using c r(4,5) s [of MAX_NUM_OF_AC] by (auto simp: word_neq_0_conv)
  show ?thesis using f(2,3) r(3) s [of MAX_NUM_OF_AC] q qr bp cl by auto
qed

text \<open>
  After a firmware status report, every queue's use is what the firmware has not yet released,
  the number of used descriptors is the 8-bit difference of the packet counters (also when they wrap), a
  queue is still stopped exactly when it was and its packet still does not fit, and the callback is
  called once, if registered and some queue was released, with exactly the bits of the released queues.
\<close>

lemma txHwQueue_UpdateFreeResources_outcome:
  assumes "hw_wf hw" "fw_ok hw fw" "txHwQueue_UpdateFreeResources hw fw = (st, calls, hw')"
  shows "st = TXN_STATUS_COMPLETE \<and> hw_wf hw' \<and>
    uNumUsedDescriptors hw' = ucast (uDrvTxPacketsCntr hw - txResultsCntr (fw_counters fw)) \<and>
    (\<forall>q<MAX_NUM_OF_AC. uNumBlksUsed (aTxHwQueueInfo hw' ! q) =
        uAllocatedBlksCntr (aTxHwQueueInfo hw ! q) - txReleasedBlks fw ! q \<and>
      bQueueBusy (aTxHwQueueInfo hw' ! q) = (bQueueBusy (aTxHwQueueInfo hw ! q) \<and>
        \<not> uNumBlksCausedBusy (aTxHwQueueInfo hw ! q) \<le> txHwQueue_CheckResources hw' (aTxHwQueueInfo hw' ! q))) \<and>
    (\<exists>bp. (\<forall>q. bit bp q = (q < MAX_NUM_OF_AC \<and> bQueueBusy (aTxHwQueueInfo hw ! q) \<and> \<not> bQueueBusy (aTxHwQueueInfo hw' ! q))) \<and>
      calls = (if bp \<noteq> 0 \<and> fUpdateBusyMapCb hw \<noteq> NULL then [(fUpdateBusyMapCb hw, hUpdateBusyMapHndl hw, bp)] else []))"
  using assms by (rule UpdateFreeResources_result)

definition fw_ex :: FwStatus where
  "fw_ex = \<lparr>fw_counters = 0, txReleasedBlks = [0, 0, 0, 0]\<rparr>"

lemma fw_ex_ok: "fw_ok hw_ex fw_ex"
proof -
  have "fw_blks_ok hw_ex q (txReleasedBlks fw_ex ! q)" if "q < 4" for q
  proof -
    have len: "length (aTxHwQueueInfo hw_ex) = 4" using hw_ex_reach(2) by (simp add: hw_wf_def MAX_NUM_OF_AC_def)
    have "q = 0 \<or> q = 1 \<or> q = 2 \<or> q = 3" using that by linarith
    then have "map uAllocatedBlksCntr (aTxHwQueueInfo hw_ex) ! q = 0" "txReleasedBlks fw_ex ! q = 0"
      by (auto simp: hw_ex_simps fw_ex_def)
    with len that show ?thesis by (simp add: fw_blks_ok_def)
  qed
  then show ?thesis by (simp add: fw_ok_def MAX_NUM_OF_AC_def hw_ex_simps txResultsCntr_def fw_ex_def)
qed

text \<open>
  C7: No queue stays stopped for ever: when the firmware reports that everything handed over was
  released, each queue whose packet fits beside the other queues' thresholds is not stopped any more, and if it was
  stopped and the upper layer has registered its callback, that callback is called once, with a map that has the bit of this
  queue; the map has the bits of exactly the queues that were stopped and are not any more.
\<close>

theorem txHwQueue_no_stuck_queue:
  assumes "hw_wf hw" "txHwQueue_UpdateFreeResources hw fw = (st, calls, hw')"
    and "\<forall>j<MAX_NUM_OF_AC. txReleasedBlks fw ! j = uAllocatedBlksCntr (aTxHwQueueInfo hw ! j)"
    and "txResultsCntr (fw_counters fw) = uDrvTxPacketsCntr hw" "q < MAX_NUM_OF_AC"
    and "unat (uNumBlksCausedBusy (aTxHwQueueInfo hw ! q)) +
      sum_list (map (\<lambda>qi. unat (uNumBlksThresh qi)) (aTxHwQueueInfo hw)) \<le>
      unat (uNumTotalBlks hw) + unat (uNumBlksThresh (aTxHwQueueInfo hw ! q))"
  shows "\<not> bQueueBusy (aTxHwQueueInfo hw' ! q) \<and>
    (bQueueBusy (aTxHwQueueInfo hw ! q) \<and> fUpdateBusyMapCb hw \<noteq> NULL \<longrightarrow>
      (\<exists>bp. calls = [(fUpdateBusyMapCb hw, hUpdateBusyMapHndl hw, bp)] \<and> bit bp q \<and>
        (\<forall>j. bit bp j = (j < MAX_NUM_OF_AC \<and> bQueueBusy (aTxHwQueueInfo hw ! j) \<and> \<not> bQueueBusy (aTxHwQueueInfo hw' ! j)))))"
proof -
  have ok: "fw_ok hw fw" using assms(3,4) by (simp add: fw_ok_def fw_blks_ok_def)
  note out = UpdateFreeResources_result [OF assms(1) ok assms(2)]
  note th = Update_thresh [OF assms(1) ok assms(2)]
  have wf': "hw_wf hw'" and len: "length (aTxHwQueueInfo hw') = MAX_NUM_OF_AC" using out by (auto simp: hw_wf_def)
  have u: "\<forall>j<MAX_NUM_OF_AC. uNumBlksUsed (aTxHwQueueInfo hw' ! j) = 0" using out assms(3) by simp
  have res: "unat (uNumBlksReserved (aTxHwQueueInfo hw' ! j)) = unat (uNumBlksThresh (aTxHwQueueInfo hw ! j))" if "j < MAX_NUM_OF_AC" for j
  proof -
    have "info_wf (aTxHwQueueInfo hw' ! j)" using wf' that by (simp add: hw_wf_def)
    moreover have "uNumBlksThresh (aTxHwQueueInfo hw' ! j) = uNumBlksThresh (aTxHwQueueInfo hw ! j)"
      using th(1) that len by (metis map_eq_imp_length_eq nth_map)
    ultimately show ?thesis using u that by (simp add: info_wf_def)
  qed
  have "used_sum hw' = 0"
    using u len by (auto simp: used_sum_def sum_list_eq_0_iff in_set_conv_nth)
  with wf' th(2) have free: "unat (uNumTotalBlksFree hw') = unat (uNumTotalBlks hw)" by (simp add: hw_wf_def)
  have rs: "res_sum hw' = sum_list (map (\<lambda>qi. unat (uNumBlksThresh qi)) (aTxHwQueueInfo hw))"
    unfolding res_sum_def using res len assms(1)
    by (intro arg_cong [of _ _ sum_list] nth_equalityI) (auto simp: hw_wf_def)
  have "uNumUsedDescriptors hw' < NUM_TX_DESCRIPTORS" using out assms(4) by (simp add: NUM_TX_DESCRIPTORS_def)
  from CheckResources_unat [OF wf' assms(5) this] free rs res [OF assms(5)] assms(6) res_le_sum [of q hw'] assms(5) len
  have "uNumBlksCausedBusy (aTxHwQueueInfo hw ! q) \<le> txHwQueue_CheckResources hw' (aTxHwQueueInfo hw' ! q)"
    by (simp add: word_le_nat_alt)
  with out assms(5) have free_q: "\<not> bQueueBusy (aTxHwQueueInfo hw' ! q)" by blast
  from out obtain bp where bp: "\<forall>j. bit bp j = (j < MAX_NUM_OF_AC \<and> bQueueBusy (aTxHwQueueInfo hw ! j) \<and> \<not> bQueueBusy (aTxHwQueueInfo hw' ! j))"
    "calls = (if bp \<noteq> 0 \<and> fUpdateBusyMapCb hw \<noteq> NULL then [(fUpdateBusyMapCb hw, hUpdateBusyMapHndl hw, bp)] else [])" by blast
  have "\<exists>bp. calls = [(fUpdateBusyMapCb hw, hUpdateBusyMapHndl hw, bp)] \<and> bit bp q \<and>
      (\<forall>j. bit bp j = (j < MAX_NUM_OF_AC \<and> bQueueBusy (aTxHwQueueInfo hw ! j) \<and> \<not> bQueueBusy (aTxHwQueueInfo hw' ! j)))"
    if "bQueueBusy (aTxHwQueueInfo hw ! q)" "fUpdateBusyMapCb hw \<noteq> NULL"
  proof -
    have b: "bit bp q" using that(1) bp(1) free_q assms(5) by blast
    then have "bp \<noteq> 0" by (metis bit_0_eq bot_apply bot_bool_def)
    then have "calls = [(fUpdateBusyMapCb hw, hUpdateBusyMapHndl hw, bp)]" using bp(2) that(2) by (simp only: if_True simp_thms)
    with b bp(1) show ?thesis by blast
  qed
  with free_q show ?thesis by blast
qed

definition hw_ex_busy :: TTxHwQueue where
  "hw_ex_busy = txHwQueue_RegisterCb
     (hw_ex\<lparr>aTxHwQueueInfo := (aTxHwQueueInfo hw_ex)[3 := (aTxHwQueueInfo hw_ex ! 3)\<lparr>uNumBlksCausedBusy := 9, bQueueBusy := True\<rparr>]\<rparr>)
     TWD_INT_UPDATE_BUSY_MAP 5 6"

lemma RegisterCb_wf: "hw_wf (txHwQueue_RegisterCb hw i f h) = hw_wf hw"
  by (simp add: txHwQueue_RegisterCb_def hw_wf_def used_sum_def res_sum_def)

lemma hw_ex_busy_fields [simp]:
  "aTxHwQueueInfo hw_ex_busy = (aTxHwQueueInfo hw_ex)[3 := (aTxHwQueueInfo hw_ex ! 3)\<lparr>uNumBlksCausedBusy := 9, bQueueBusy := True\<rparr>]"
  "fUpdateBusyMapCb hw_ex_busy = 5" "hUpdateBusyMapHndl hw_ex_busy = 6" "uDrvTxPacketsCntr hw_ex_busy = uDrvTxPacketsCntr hw_ex"
  "uNumTotalBlks hw_ex_busy = uNumTotalBlks hw_ex"
  by (simp_all add: hw_ex_busy_def txHwQueue_RegisterCb_def)

theorem txHwQueue_no_stuck_queue_witness:
  "bQueueBusy (aTxHwQueueInfo hw_ex_busy ! 3) \<and>
   \<not> bQueueBusy (aTxHwQueueInfo (snd (snd (txHwQueue_UpdateFreeResources hw_ex_busy fw_ex))) ! 3) \<and>
   (\<exists>bp. fst (snd (txHwQueue_UpdateFreeResources hw_ex_busy fw_ex)) = [(5, 6, bp)] \<and> bit bp 3)"
proof -
  have len: "length (aTxHwQueueInfo hw_ex) = 4" using hw_ex_reach(2) by (simp add: hw_wf_def MAX_NUM_OF_AC_def)
  obtain st calls hw' where r: "txHwQueue_UpdateFreeResources hw_ex_busy fw_ex = (st, calls, hw')"
    by (cases "txHwQueue_UpdateFreeResources hw_ex_busy fw_ex")
  have "hw_wf (hw_ex\<lparr>aTxHwQueueInfo := (aTxHwQueueInfo hw_ex)[3 := (aTxHwQueueInfo hw_ex ! 3)\<lparr>uNumBlksCausedBusy := 9, bQueueBusy := True\<rparr>]\<rparr>)"
    using hw_ex_reach(2) by (rule hw_busy_wf(1)) (simp add: MAX_NUM_OF_AC_def)
  then have wf: "hw_wf hw_ex_busy" by (simp add: hw_ex_busy_def RegisterCb_wf)
  have al: "map uAllocatedBlksCntr (aTxHwQueueInfo hw_ex) ! j = txReleasedBlks fw_ex ! j"
    and th: "map uNumBlksThresh (aTxHwQueueInfo hw_ex) ! 3 = 10" for j
    by (simp_all add: hw_ex_simps fw_ex_def)
  have a: "\<forall>j<MAX_NUM_OF_AC. txReleasedBlks fw_ex ! j = uAllocatedBlksCntr (aTxHwQueueInfo hw_ex_busy ! j)"
    using al [symmetric] len by (auto simp: nth_list_update MAX_NUM_OF_AC_def)
  have b: "txResultsCntr (fw_counters fw_ex) = uDrvTxPacketsCntr hw_ex_busy" "3 < MAX_NUM_OF_AC"
    by (simp_all add: hw_ex_simps txResultsCntr_def fw_ex_def MAX_NUM_OF_AC_def)
  have "map uNumBlksThresh (aTxHwQueueInfo hw_ex_busy) = [10, 5, 20, 10]"
    using len th by (simp add: map_update) (simp add: hw_ex_simps)
  then have "sum_list (map unat (map uNumBlksThresh (aTxHwQueueInfo hw_ex_busy))) = 45" by simp
  moreover have "uNumTotalBlks hw_ex_busy = 100"
    by (simp add: hw_ex_def txHwQueue_SetHwInfo_def txHwQueue_Restart_def restart_queue_def Let_def four_queues)
  ultimately have c: "unat (uNumBlksCausedBusy (aTxHwQueueInfo hw_ex_busy ! 3)) +
      sum_list (map (\<lambda>qi. unat (uNumBlksThresh qi)) (aTxHwQueueInfo hw_ex_busy)) \<le>
      unat (uNumTotalBlks hw_ex_busy) + unat (uNumBlksThresh (aTxHwQueueInfo hw_ex_busy ! 3))"
    using len by (simp add: comp_def)
  have busy: "bQueueBusy (aTxHwQueueInfo hw_ex_busy ! 3)" using len by simp
  note t = txHwQueue_no_stuck_queue [OF wf r a b c]
  from t have "\<not> bQueueBusy (aTxHwQueueInfo hw' ! 3)" by (rule conjunct1)
  moreover have "\<exists>bp. calls = [(5, 6, bp)] \<and> bit bp 3" using t busy by (simp only: hw_ex_busy_fields) auto
  ultimately show ?thesis using busy r by simp
qed

text \<open>
  The last descriptor: an allocation that takes it can return \<open>SUCCESS\<close>, although no packet can follow;
  the next one is then refused with \<open>STOP_CURRENT\<close>.
\<close>

lemma AllocResources_last_descriptor:
  assumes "hw_wf hw" "unat (desc_tid d) < 8" "uNumUsedDescriptors hw = 31"
    and "2 * unat (blks_to_alloc (desc_length d)) \<le>
      unat (txHwQueue_CheckResources hw (aTxHwQueueInfo hw ! (WMEQosTagToACTable ! unat (desc_tid d))))"
    and "txHwQueue_AllocResources hw d = (st, hw', d')"
  shows "st = TX_HW_QUE_STATUS_SUCCESS \<and> fst (txHwQueue_AllocResources hw' d) = TX_HW_QUE_STATUS_STOP_CURRENT"
proof -
  let ?q = "WMEQosTagToACTable ! unat (desc_tid d)" and ?n = "blks_to_alloc (desc_length d)"
  have le: "?n \<le> txHwQueue_CheckResources hw (aTxHwQueueInfo hw ! ?q)" using assms(4) by (simp add: word_le_nat_alt)
  note ok = AllocResources_ok [OF assms(1,2) refl refl le assms(5)]
  have "st = TX_HW_QUE_STATUS_SUCCESS" using ok(1,6) assms(4) by (cases st) auto
  moreover have "uNumUsedDescriptors hw' = 32"
    using assms(3,5) le by (auto simp: txHwQueue_AllocResources_def take_reserved_def Let_def split: if_splits)
  then have "txHwQueue_CheckResources hw' qi = 0" for qi
    by (simp add: txHwQueue_CheckResources_def NUM_TX_DESCRIPTORS_def)
  moreover have "0 < ?n" using blks_to_alloc_bounds(1) [of "desc_length d"] by (simp add: word_less_nat_alt)
  ultimately show ?thesis using AllocResources_stop_current [OF refl refl, of hw' d] by simp
qed

end
