(* ===== verification/Wlan_RxQueue.thy ===== *)
theory Wlan_RxQueue
  imports Wlan_Prelude "HOL-Library.Multiset"
begin

text \<open>
  \<open>TWD/Data_Service/RxQueue.c\<close>: the receive reorder buffer of the block-ack sessions. For each traffic
  identifier (TID) an array of eight entries, used as a ring from \<open>aWinStartArrayInex\<close>, holds the packets that
  arrived before the expected one. The object's state carries a log of the calls it makes: packets
  passed to the upper layer, and the timer started or stopped. A received buffer is its Rx descriptor
  fields and the bytes of the frame, from which headers are read in little endian order.
\<close>

section \<open>Data\<close>

record rx_buf =
  buf_addr :: handle
  packet_class_tag :: u8
  rx_status :: u8
  frame :: "nat \<Rightarrow> u8"

datatype rx_act = Deliver rx_buf | TmrStart | TmrStop

text \<open>\<open>pPacket\<close> is \<open>None\<close> where the code has \<open>NULL\<close>.\<close>

record TRxQueuePacketEntry =
  pPacket :: "rx_buf option"
  tStatus :: ti_status
  uFrameSn :: u16

record TRxQueueTidDataBase =
  aPaketsQueue :: "TRxQueuePacketEntry list"
  aTidBaEstablished :: bool
  aWinStartArrayInex :: u32
  aTidWinSize :: u32
  aTidExpectedSn :: u16

record TRxQueue =
  hTimer :: handle
  tSa1ArrayMng :: "TRxQueueTidDataBase list"
  tReceivePacketCB :: handle
  hReceivePacketCB_handle :: handle
  bPacketMiss :: bool
  aPacketsStored :: u16
  aFrameTid :: u8
  rx_log :: "rx_act list"

definition RX_QUEUE_ARRAY_SIZE :: nat where "RX_QUEUE_ARRAY_SIZE = 8"
definition RX_QUEUE_ARRAY_SIZE_BIT_MASK :: u32 where "RX_QUEUE_ARRAY_SIZE_BIT_MASK = 7"
definition RX_QUEUE_WIN_SIZE :: u32 where "RX_QUEUE_WIN_SIZE = 8"
definition MAX_NUM_OF_802_1d_TAGS :: nat where "MAX_NUM_OF_802_1d_TAGS = 8"
definition SEQ_NUM_WRAP :: u32 where "SEQ_NUM_WRAP = 0x1000"
definition SEQ_NUM_MASK :: u32 where "SEQ_NUM_MASK = 0xFFF"

text \<open>The macro compares its arguments in 32-bit arithmetic; only the difference is reduced to 12 bits.\<close>

definition BA_SESSION_IS_A_BIGGER_THAN_B :: "u32 \<Rightarrow> u32 \<Rightarrow> bool" where
  "BA_SESSION_IS_A_BIGGER_THAN_B A B \<longleftrightarrow> ((A - B) AND 0xFFF) < 0x7FF \<and> A \<noteq> B"

definition TAG_CLASS_QOS_DATA :: u8 where "TAG_CLASS_QOS_DATA = 3"
definition TAG_CLASS_BA_EVENT :: u8 where "TAG_CLASS_BA_EVENT = 6"
definition TAG_CLASS_AMSDU :: u8 where "TAG_CLASS_AMSDU = 7"

section \<open>Reading the frame\<close>

text \<open>\<open>COPY_WLAN_WORD\<close> on the little-endian target.\<close>

definition frame_word :: "rx_buf \<Rightarrow> nat \<Rightarrow> u16" where
  "frame_word b i = ucast (frame b i) OR push_bit 8 (ucast (frame b (i + 1)))"

text \<open>
  Offsets: \<open>fc\<close> 0, \<open>seqCtrl\<close> 22 and \<open>qosControl\<close> 24 in \<open>dot11_header_t\<close>; the body of a BAR frame
  starts at 16, that of a management frame at 24.
\<close>

definition hdr_fc :: "rx_buf \<Rightarrow> u16" where "hdr_fc b = frame_word b 0"
definition hdr_sn :: "rx_buf \<Rightarrow> u16" where "hdr_sn b = drop_bit 4 (frame_word b 22 AND 0xFFF0)"
definition hdr_qos :: "rx_buf \<Rightarrow> u16" where "hdr_qos b = frame_word b 24"
definition hdr_tid :: "rx_buf \<Rightarrow> u8" where "hdr_tid b = ucast (hdr_qos b AND 0x000F)"

definition IS_QOS_FRAME :: "u16 \<Rightarrow> bool" where
  "IS_QOS_FRAME fc \<longleftrightarrow> fc AND 0x00FC = 0x0088 \<or> fc AND 0x00FC = 0x00C8"

definition fix_tag :: "rx_buf \<Rightarrow> rx_buf" where
  "fix_tag b =
     (if IS_QOS_FRAME (hdr_fc b) \<and> packet_class_tag b \<noteq> TAG_CLASS_QOS_DATA \<and> packet_class_tag b \<noteq> TAG_CLASS_AMSDU
      then b\<lparr>packet_class_tag := if hdr_qos b AND 0x0080 \<noteq> 0 then TAG_CLASS_AMSDU else TAG_CLASS_QOS_DATA\<rparr>
      else b)"

section \<open>Operations\<close>

definition zero_entry :: TRxQueuePacketEntry where
  "zero_entry = \<lparr>pPacket = None, tStatus = TI_OK, uFrameSn = 0\<rparr>"

definition zero_tid :: TRxQueueTidDataBase where
  "zero_tid = \<lparr>aPaketsQueue = replicate RX_QUEUE_ARRAY_SIZE zero_entry, aTidBaEstablished = False,
     aWinStartArrayInex = 0, aTidWinSize = 0, aTidExpectedSn = 0\<rparr>"

definition RxQueue_Create :: "handle \<Rightarrow> TRxQueue option" where
  "RxQueue_Create mem =
     (if mem = NULL then None
      else Some \<lparr>hTimer = NULL, tSa1ArrayMng = replicate MAX_NUM_OF_802_1d_TAGS zero_tid, tReceivePacketCB = NULL,
        hReceivePacketCB_handle = NULL, bPacketMiss = False, aPacketsStored = 0, aFrameTid = 0, rx_log = []\<rparr>)"

text \<open>The result lists the timer that is destroyed, if any, and whether the object was freed.\<close>

fun RxQueue_Destroy :: "TRxQueue option \<Rightarrow> ti_status \<times> handle list \<times> bool" where
  "RxQueue_Destroy None = (TI_NOK, [], False)"
| "RxQueue_Destroy (Some s) = (TI_OK, if hTimer s \<noteq> NULL then [hTimer s] else [], True)"

text \<open>\<open>timer\<close> is what \<open>tmr_CreateTimer\<close> returned.\<close>

definition RxQueue_Init :: "TRxQueue \<Rightarrow> handle \<Rightarrow> ti_status \<times> TRxQueue" where
  "RxQueue_Init s timer = (TI_OK, s\<lparr>hTimer := timer\<rparr>)"

definition TWD_INT_RECEIVE_PACKET :: u32 where "TWD_INT_RECEIVE_PACKET = 0x10"

definition RxQueue_Register_CB :: "TRxQueue \<Rightarrow> u32 \<Rightarrow> handle \<Rightarrow> handle \<Rightarrow> TRxQueue" where
  "RxQueue_Register_CB s uCallBackID CBFunc CBObj =
     (if uCallBackID = TWD_INT_RECEIVE_PACKET
      then s\<lparr>tReceivePacketCB := CBFunc, hReceivePacketCB_handle := CBObj\<rparr> else s)"

definition RxQueue_PassPacket :: "TRxQueue \<Rightarrow> ti_status \<Rightarrow> rx_buf \<Rightarrow> TRxQueue" where
  "RxQueue_PassPacket s st b =
     (let b = (if st = TI_OK then b else b\<lparr>rx_status := (rx_status b AND NOT 7) OR 3\<rparr>)
      in s\<lparr>rx_log := rx_log s @ [Deliver b]\<rparr>)"

text \<open>The TID's database, its head entry, and the small updates that the loops are made of.\<close>

definition tid_db :: "TRxQueue \<Rightarrow> nat \<Rightarrow> TRxQueueTidDataBase" where
  "tid_db s t = tSa1ArrayMng s ! t"

definition upd_tid :: "nat \<Rightarrow> (TRxQueueTidDataBase \<Rightarrow> TRxQueueTidDataBase) \<Rightarrow> TRxQueue \<Rightarrow> TRxQueue" where
  "upd_tid t f s = s\<lparr>tSa1ArrayMng := (tSa1ArrayMng s)[t := f (tid_db s t)]\<rparr>"

definition head_entry :: "TRxQueueTidDataBase \<Rightarrow> TRxQueuePacketEntry" where
  "head_entry db = aPaketsQueue db ! unat (aWinStartArrayInex db)"

definition clear_head :: "TRxQueueTidDataBase \<Rightarrow> TRxQueueTidDataBase" where
  "clear_head db = db\<lparr>aPaketsQueue := (aPaketsQueue db)[unat (aWinStartArrayInex db) := (head_entry db)\<lparr>pPacket := None\<rparr>]\<rparr>"

definition next_index :: "TRxQueueTidDataBase \<Rightarrow> TRxQueueTidDataBase" where
  "next_index db = db\<lparr>aWinStartArrayInex := (aWinStartArrayInex db + 1) AND RX_QUEUE_ARRAY_SIZE_BIT_MASK\<rparr>"

definition next_sn :: "TRxQueueTidDataBase \<Rightarrow> TRxQueueTidDataBase" where
  "next_sn db = db\<lparr>aTidExpectedSn := (aTidExpectedSn db + 1) AND 0xFFF\<rparr>"

definition next_entry :: "TRxQueueTidDataBase \<Rightarrow> TRxQueueTidDataBase" where
  "next_entry db = next_sn (next_index db)"

text \<open>Pass the head entry's packet, empty the entry and count it off.\<close>

definition pass_head :: "nat \<Rightarrow> TRxQueue \<Rightarrow> TRxQueue" where
  "pass_head t s =
     (case pPacket (head_entry (tid_db s t)) of
        None \<Rightarrow> s
      | Some b \<Rightarrow>
          let s = RxQueue_PassPacket s (tStatus (head_entry (tid_db s t))) b;
              s = upd_tid t clear_head s
          in s\<lparr>aPacketsStored := aPacketsStored s - 1\<rparr>)"

definition stop_timer :: "TRxQueue \<Rightarrow> TRxQueue" where
  "stop_timer s = (if bPacketMiss s then s\<lparr>rx_log := rx_log s @ [TmrStop], bPacketMiss := False\<rparr> else s)"

definition start_timer :: "u8 \<Rightarrow> TRxQueue \<Rightarrow> TRxQueue" where
  "start_timer t s = s\<lparr>rx_log := rx_log s @ [TmrStart], bPacketMiss := True, aFrameTid := t\<rparr>"

definition restart_timer :: "u8 \<Rightarrow> TRxQueue \<Rightarrow> TRxQueue" where
  "restart_timer t s = (if aPacketsStored s \<noteq> 0 then start_timer t s else s)"

text \<open>The loops run over the eight entries; the first argument bounds the number of rounds.\<close>

primrec close_loop :: "nat \<Rightarrow> nat \<Rightarrow> TRxQueue \<Rightarrow> TRxQueue" where
  "close_loop 0 t s = s"
| "close_loop (Suc n) t s = close_loop n t (upd_tid t next_index (pass_head t s))"

definition RxQueue_CloseBaSession :: "TRxQueue \<Rightarrow> u8 \<Rightarrow> TRxQueue" where
  "RxQueue_CloseBaSession s tid =
     (let t = unat tid in
      if t \<ge> MAX_NUM_OF_802_1d_TAGS then s
      else if aTidBaEstablished (tid_db s t) then
        let s = upd_tid t (aTidBaEstablished_update (\<lambda>_. False)) s;
            s = close_loop RX_QUEUE_ARRAY_SIZE t s
        in stop_timer s
      else s)"

text \<open>The \<open>while\<close> loop of parts 1 and 3: pass the consecutive packets from the window start on.\<close>

primrec drain_loop :: "nat \<Rightarrow> nat \<Rightarrow> TRxQueue \<Rightarrow> TRxQueue" where
  "drain_loop 0 t s = s"
| "drain_loop (Suc n) t s =
     (if pPacket (head_entry (tid_db s t)) \<noteq> None
      then drain_loop n t (upd_tid t next_entry (pass_head t s)) else s)"

definition rx_part1 :: "TRxQueue \<Rightarrow> u8 \<Rightarrow> rx_buf \<Rightarrow> TRxQueue" where
  "rx_part1 s tid b =
     (let t = unat tid;
          s = stop_timer s;
          s = RxQueue_PassPacket s TI_OK b;
          s = upd_tid t (\<lambda>db. next_index (next_sn db)) s;
          s = drain_loop RX_QUEUE_ARRAY_SIZE t s;
          s = upd_tid t (\<lambda>db. db\<lparr>aTidExpectedSn := aTidExpectedSn db AND 0xFFF\<rparr>) s
      in restart_timer tid s)"

definition save_index :: "TRxQueueTidDataBase \<Rightarrow> u16 \<Rightarrow> nat" where
  "save_index db sn =
     unat ((ucast (aWinStartArrayInex db + (((ucast sn + SEQ_NUM_WRAP - ucast (aTidExpectedSn db)) AND SEQ_NUM_MASK))) :: u16)
       AND 7)"

definition rx_part2 :: "TRxQueue \<Rightarrow> u8 \<Rightarrow> u16 \<Rightarrow> rx_buf \<Rightarrow> TRxQueue" where
  "rx_part2 s tid sn b =
     (let t = unat tid; i = save_index (tid_db s t) sn in
      if pPacket (aPaketsQueue (tid_db s t) ! i) = None then
        let s = upd_tid t (\<lambda>db. db\<lparr>aPaketsQueue := (aPaketsQueue db)[i := \<lparr>pPacket = Some b, tStatus = TI_OK, uFrameSn = sn\<rparr>]\<rparr>) s;
            s = s\<lparr>aPacketsStored := aPacketsStored s + 1\<rparr>
        in if \<not> bPacketMiss s then start_timer tid s else s
      else RxQueue_PassPacket s TI_NOK b)"

text \<open>The \<open>for\<close> loop of part 3; the result is the final \<open>i\<close> and the state.\<close>

primrec slide_loop :: "nat \<Rightarrow> u32 \<Rightarrow> u16 \<Rightarrow> nat \<Rightarrow> TRxQueue \<Rightarrow> u32 \<times> TRxQueue" where
  "slide_loop 0 i new t s = (i, s)"
| "slide_loop (Suc n) i new t s =
     (if BA_SESSION_IS_A_BIGGER_THAN_B (ucast new) (ucast (aTidExpectedSn (tid_db s t))) \<and> i < aTidWinSize (tid_db s t)
      then slide_loop n (i + 1) new t (upd_tid t next_entry (pass_head t s))
      else (i, s))"

text \<open>Part 3 stores the packet without its sequence number (\<open>pPacket\<close> is assigned twice).\<close>

definition rx_part3 :: "TRxQueue \<Rightarrow> u8 \<Rightarrow> u16 \<Rightarrow> rx_buf \<Rightarrow> TRxQueue" where
  "rx_part3 s tid sn b =
     (let t = unat tid;
          new = ucast ((ucast sn + SEQ_NUM_WRAP - aTidWinSize (tid_db s t) + 1) AND SEQ_NUM_MASK) :: u16;
          s = stop_timer s;
          s = upd_tid t next_entry s;
          (i, s) = slide_loop RX_QUEUE_ARRAY_SIZE 0 new t s;
          s = (if i = aTidWinSize (tid_db s t) then upd_tid t (\<lambda>db. db\<lparr>aTidExpectedSn := new\<rparr>) s
               else drain_loop RX_QUEUE_ARRAY_SIZE t s);
          s = (if aTidExpectedSn (tid_db s t) = sn then upd_tid t next_sn (RxQueue_PassPacket s TI_OK b)
               else let j = save_index (tid_db s t) sn in
                 (upd_tid t (\<lambda>db. db\<lparr>aPaketsQueue := (aPaketsQueue db)[j := (aPaketsQueue db ! j)\<lparr>pPacket := Some b, tStatus := TI_OK\<rparr>]\<rparr>) s)
                   \<lparr>aPacketsStored := aPacketsStored s + 1\<rparr>);
          s = upd_tid t (\<lambda>db. db\<lparr>aTidExpectedSn := aTidExpectedSn db AND 0xFFF\<rparr>) s
      in restart_timer tid s)"

text \<open>A QoS data frame. The last branch is the code's fall-through to the final \<open>RxQueue_PassPacket\<close>.\<close>

definition rx_qos :: "TRxQueue \<Rightarrow> rx_buf \<Rightarrow> TRxQueue" where
  "rx_qos s b =
     (let tid = hdr_tid b; db = tid_db s (unat tid) in
      if unat tid \<ge> MAX_NUM_OF_802_1d_TAGS then RxQueue_PassPacket s TI_NOK b
      else if \<not> aTidBaEstablished db then RxQueue_PassPacket s TI_OK b
      else
        let sn = hdr_sn b;
            winEnd = ucast (aTidExpectedSn db) + aTidWinSize db - 1 in
        if sn = aTidExpectedSn db then rx_part1 s tid b
        else if \<not> BA_SESSION_IS_A_BIGGER_THAN_B (ucast sn) (ucast (aTidExpectedSn db)) then RxQueue_PassPacket s TI_OK b
        else if BA_SESSION_IS_A_BIGGER_THAN_B (ucast sn) (ucast (aTidExpectedSn db)) \<and>
                \<not> BA_SESSION_IS_A_BIGGER_THAN_B (ucast sn) winEnd then rx_part2 s tid sn b
        else if BA_SESSION_IS_A_BIGGER_THAN_B (ucast sn) winEnd then rx_part3 s tid sn b
        else RxQueue_PassPacket s TI_OK b)"

text \<open>The \<open>for\<close> loop of a BAR frame.\<close>

primrec bar_loop :: "nat \<Rightarrow> u32 \<Rightarrow> u16 \<Rightarrow> nat \<Rightarrow> TRxQueue \<Rightarrow> TRxQueue" where
  "bar_loop 0 i delta t s = s"
| "bar_loop (Suc n) i delta t s =
     (if i < ucast delta \<or> pPacket (head_entry (tid_db s t)) \<noteq> None
      then bar_loop n (i + 1) delta t (upd_tid t next_index (pass_head t s)) else s)"

definition rx_bar :: "TRxQueue \<Rightarrow> rx_buf \<Rightarrow> TRxQueue" where
  "rx_bar s b =
     (let tid = ucast (drop_bit 12 (frame_word b 16 AND 0xF000)) :: u8; t = unat tid in
      if t \<ge> MAX_NUM_OF_802_1d_TAGS then RxQueue_PassPacket s TI_NOK b
      else if \<not> aTidBaEstablished (tid_db s t) then RxQueue_PassPacket s TI_NOK b
      else
        let start = drop_bit 4 (frame_word b 18 AND 0xFFF0) in
        if BA_SESSION_IS_A_BIGGER_THAN_B (ucast start) (ucast (aTidExpectedSn (tid_db s t))) then
          let delta = start - aTidExpectedSn (tid_db s t);
              s = stop_timer s;
              s = bar_loop RX_QUEUE_ARRAY_SIZE 0 delta t s;
              s = restart_timer tid s;
              s = upd_tid t (\<lambda>db. db\<lparr>aTidExpectedSn := start\<rparr>) s
          in RxQueue_PassPacket s TI_OK b
        else RxQueue_PassPacket s TI_OK b)"

definition rx_addba :: "TRxQueue \<Rightarrow> rx_buf \<Rightarrow> TRxQueue" where
  "rx_addba s b =
     (let param = frame_word b 27; tid = ucast (drop_bit 2 (param AND 0x003C)) :: u8; t = unat tid in
      if t \<ge> MAX_NUM_OF_802_1d_TAGS then RxQueue_PassPacket s TI_NOK b
      else if aTidBaEstablished (tid_db s t) then RxQueue_PassPacket s TI_NOK b
      else
        let win = ucast (drop_bit 6 (param AND 0xFFC0)) :: u32;
            win = (if win > RX_QUEUE_WIN_SIZE then RX_QUEUE_WIN_SIZE else win);
            s = upd_tid t (\<lambda>db. db\<lparr>aTidWinSize := win, aTidBaEstablished := True,
                  aTidExpectedSn := drop_bit 4 (frame_word b 31 AND 0xFFF0), aWinStartArrayInex := 0,
                  aPaketsQueue := replicate RX_QUEUE_ARRAY_SIZE zero_entry\<rparr>) s
        in RxQueue_PassPacket s TI_OK b)"

definition rx_delba :: "TRxQueue \<Rightarrow> rx_buf \<Rightarrow> TRxQueue" where
  "rx_delba s b =
     (let tid = ucast (drop_bit 12 (frame_word b 26 AND 0xF000)) :: u8; t = unat tid in
      if t \<ge> MAX_NUM_OF_802_1d_TAGS then RxQueue_PassPacket s TI_NOK b
      else if \<not> aTidBaEstablished (tid_db s t) then RxQueue_PassPacket s TI_NOK b
      else RxQueue_PassPacket (RxQueue_CloseBaSession s tid) TI_OK b)"

definition rx_ba_event :: "TRxQueue \<Rightarrow> rx_buf \<Rightarrow> TRxQueue" where
  "rx_ba_event s b =
     (let sub = hdr_fc b AND 0x00F0 in
      if sub = 0x0080 then rx_bar s b
      else if sub = 0x00D0 then
        (if frame b 25 = 0 then rx_addba s b
         else if frame b 25 = 2 then rx_delba s b
         else RxQueue_PassPacket s TI_NOK b)
      else RxQueue_PassPacket s TI_NOK b)"

definition RxQueue_ReceivePacket :: "TRxQueue \<Rightarrow> rx_buf \<Rightarrow> TRxQueue" where
  "RxQueue_ReceivePacket s b =
     (let b = fix_tag b; tag = packet_class_tag b in
      if tag \<noteq> TAG_CLASS_QOS_DATA \<and> tag \<noteq> TAG_CLASS_BA_EVENT \<and> tag \<noteq> TAG_CLASS_AMSDU
      then RxQueue_PassPacket s TI_OK b
      else if tag = TAG_CLASS_QOS_DATA \<or> tag = TAG_CLASS_AMSDU then rx_qos s b
      else rx_ba_event s b)"

text \<open>
  \<open>RxQueue_PacketTimeOut\<close>: its first loop looks for a stored packet and need not end, so the
  function is partial: \<open>None\<close> is a call that does not return.
\<close>

partial_function (option) find_stored :: "TRxQueueTidDataBase \<Rightarrow> TRxQueueTidDataBase option" where
  "find_stored db =
     (if pPacket (head_entry db) = None then find_stored (next_sn (next_index db)) else Some db)"

primrec timeout_drain :: "nat \<Rightarrow> nat \<Rightarrow> TRxQueue \<Rightarrow> TRxQueue" where
  "timeout_drain 0 t s = s"
| "timeout_drain (Suc n) t s =
     (if aPacketsStored s > 0 \<and> pPacket (head_entry (tid_db s t)) \<noteq> None
      then timeout_drain n t (upd_tid t next_entry (pass_head t s)) else s)"

definition RxQueue_PacketTimeOut :: "TRxQueue \<Rightarrow> TRxQueue option" where
  "RxQueue_PacketTimeOut s =
     (let s = s\<lparr>bPacketMiss := False\<rparr>; t = unat (aFrameTid s) in
      case (if aPacketsStored s \<noteq> 0 then
              (case find_stored (tid_db s t) of
                 None \<Rightarrow> None
               | Some db \<Rightarrow> Some (timeout_drain RX_QUEUE_ARRAY_SIZE t (upd_tid t (\<lambda>_. db) s)))
            else Some s) of
        None \<Rightarrow> None
      | Some s \<Rightarrow> Some (if aPacketsStored s \<noteq> 0
          then s\<lparr>rx_log := rx_log s @ [TmrStart], bPacketMiss := True\<rparr> else s))"

section \<open>The reorder window\<close>

text \<open>
  The ring of eight entries, read from the window start: position \<open>k\<close> is the entry of the packet whose
  sequence number is \<open>k\<close> after the expected one.
\<close>

definition window :: "TRxQueueTidDataBase \<Rightarrow> rx_buf option list" where
  "window db = map (\<lambda>k. pPacket (aPaketsQueue db ! ((unat (aWinStartArrayInex db) + k) mod 8))) [0..<8]"

definition pkts :: "rx_buf option list \<Rightarrow> rx_buf list" where
  "pkts w = List.map_filter id w"

definition db_ok :: "TRxQueueTidDataBase \<Rightarrow> bool" where
  "db_ok db \<longleftrightarrow> length (aPaketsQueue db) = 8 \<and> unat (aWinStartArrayInex db) < 8 \<and>
     (\<forall>e\<in>set (aPaketsQueue db). pPacket e \<noteq> None \<longrightarrow> tStatus e = TI_OK)"

lemma pkts_simps [simp]: "pkts [] = []" "pkts (None # w) = pkts w" "pkts (Some b # w) = b # pkts w"
  "pkts (v @ w) = pkts v @ pkts w" "pkts (replicate n None) = []"
  by (induction n) (simp_all add: pkts_def List.map_filter_def)

lemma length_window [simp]: "length (window db) = 8"
  by (simp add: window_def)

lemma nth_window [simp]: "k < 8 \<Longrightarrow> window db ! k = pPacket (aPaketsQueue db ! ((unat (aWinStartArrayInex db) + k) mod 8))"
  by (simp add: window_def)

lemma window_Cons: "window db = window db ! 0 # tl (window db)"
  by (cases "window db") (auto simp: window_def)

lemma head_window: "db_ok db \<Longrightarrow> pPacket (head_entry db) = window db ! 0"
  by (simp add: db_ok_def head_entry_def)

lemma unat_and7: "unat (x AND 7 :: 'a::len word) = unat x mod 8"
proof -
  have "(7 :: 'a word) = mask 3" by (simp add: mask_eq_exp_minus_1)
  then have "x AND 7 = take_bit 3 x" by (simp only: take_bit_eq_mask)
  then show ?thesis unfolding \<open>x AND 7 = take_bit 3 x\<close> unsigned_take_bit_eq by (simp add: take_bit_eq_mod)
qed

lemma next_index_idx: "db_ok db \<Longrightarrow> unat (aWinStartArrayInex (next_index db)) = Suc (unat (aWinStartArrayInex db)) mod 8"
  by (simp add: next_index_def RX_QUEUE_ARRAY_SIZE_BIT_MASK_def unat_and7 db_ok_def unat_word_ariths)

lemma window_next_index:
  assumes "db_ok db"
  shows "window (next_index db) = tl (window db) @ [window db ! 0]" "db_ok (next_index db)"
proof -
  have q: "aPaketsQueue (next_index db) = aPaketsQueue db" by (simp add: next_index_def)
  show "window (next_index db) = tl (window db) @ [window db ! 0]"
  proof (rule nth_equalityI)
    fix k
    assume "k < length (window (next_index db))"
    then have k: "k < 8" by simp
    show "window (next_index db) ! k = (tl (window db) @ [window db ! 0]) ! k"
    proof (cases "k = 7")
      case True
      have "(Suc i mod 8 + 7) mod 8 = i" if "i < 8" for i :: nat using that by (auto simp: mod_if)
      with True show ?thesis using assms next_index_idx [OF assms] q
        by (simp add: nth_append) (simp add: db_ok_def)
    next
      case False
      have "(Suc i mod 8 + k) mod 8 = (i + Suc k) mod 8" for i by (metis add_Suc_shift mod_add_left_eq)
      with False k next_index_idx [OF assms] q show ?thesis by (simp add: nth_append nth_tl)
    qed
  qed simp
  show "db_ok (next_index db)"
    using assms next_index_idx [OF assms] q by (simp add: db_ok_def)
qed

lemma window_clear_head:
  assumes "db_ok db"
  shows "window (clear_head db) = None # tl (window db)" "db_ok (clear_head db)"
proof -
  have i: "unat (aWinStartArrayInex db) < 8" "length (aPaketsQueue db) = 8" using assms by (simp_all add: db_ok_def)
  show "window (clear_head db) = None # tl (window db)"
  proof (rule nth_equalityI)
    fix k
    assume "k < length (window (clear_head db))"
    then have k: "k < 8" by simp
    show "window (clear_head db) ! k = (None # tl (window db)) ! k"
    proof (cases k)
      case 0
      with i show ?thesis by (simp add: clear_head_def)
    next
      case (Suc j)
      have "i \<noteq> (i + k) mod 8" if "i < 8" for i :: nat using that Suc k by (auto simp: mod_if)
      with i Suc k show ?thesis by (simp add: clear_head_def nth_tl)
    qed
  qed simp
  show "db_ok (clear_head db)"
    using assms i set_update_subset_insert [of "aPaketsQueue db" "unat (aWinStartArrayInex db)" "(head_entry db)\<lparr>pPacket := None\<rparr>"]
    by (auto simp: db_ok_def clear_head_def)
qed

lemma next_sn_same [simp]:
  "window (next_sn db) = window db" "db_ok (next_sn db) = db_ok db"
  by (simp_all add: next_sn_def window_def db_ok_def)

section \<open>Rounds\<close>

text \<open>Every loop of the module repeats one round: pass the head entry, if occupied, and move on.\<close>

primrec rounds :: "(TRxQueueTidDataBase \<Rightarrow> TRxQueueTidDataBase) \<Rightarrow> nat \<Rightarrow> nat \<Rightarrow> TRxQueue \<Rightarrow> TRxQueue" where
  "rounds adv 0 t s = s"
| "rounds adv (Suc k) t s = rounds adv k t (upd_tid t adv (pass_head t s))"

lemma tid_db_upd [simp]: "t < length (tSa1ArrayMng s) \<Longrightarrow> tid_db (upd_tid t f s) t = f (tid_db s t)"
  "j \<noteq> t \<Longrightarrow> tid_db (upd_tid t f s) j = tid_db s j"
  "length (tSa1ArrayMng (upd_tid t f s)) = length (tSa1ArrayMng s)"
  by (simp_all add: tid_db_def upd_tid_def)

lemma upd_tid_fields [simp]:
  "rx_log (upd_tid t f s) = rx_log s" "aPacketsStored (upd_tid t f s) = aPacketsStored s"
  "bPacketMiss (upd_tid t f s) = bPacketMiss s" "aFrameTid (upd_tid t f s) = aFrameTid s"
  by (simp_all add: upd_tid_def)

lemma clear_head_id: "pPacket (head_entry db) = None \<Longrightarrow> clear_head db = db"
proof -
  assume "pPacket (head_entry db) = None"
  then have "(head_entry db)\<lparr>pPacket := None\<rparr> = head_entry db" by (cases "head_entry db") simp
  then show ?thesis by (simp add: clear_head_def head_entry_def)
qed

lemma pass_head_eq:
  assumes "db_ok (tid_db s t)" "t < length (tSa1ArrayMng s)"
  shows "pass_head t s = s\<lparr>rx_log := rx_log s @ map Deliver (pkts [window (tid_db s t) ! 0]),
    tSa1ArrayMng := (tSa1ArrayMng s)[t := clear_head (tid_db s t)],
    aPacketsStored := aPacketsStored s - of_nat (length (pkts [window (tid_db s t) ! 0]))\<rparr>"
proof (cases "window (tid_db s t) ! 0")
  case None
  with assms head_window [OF assms(1)] clear_head_id [of "tid_db s t"] show ?thesis
    by (simp add: pass_head_def) (simp add: tid_db_def)
next
  case (Some b)
  have h: "pPacket (head_entry (tid_db s t)) = Some b" using Some head_window [OF assms(1)] by simp
  have "head_entry (tid_db s t) \<in> set (aPaketsQueue (tid_db s t))" using assms(1) by (simp add: head_entry_def db_ok_def)
  then have "tStatus (head_entry (tid_db s t)) = TI_OK" using assms(1) h by (simp add: db_ok_def)
  with h Some show ?thesis
    by (simp add: pass_head_def RxQueue_PassPacket_def upd_tid_def Let_def del: nth_window) (simp add: tid_db_def)
qed

definition adv_ok :: "(TRxQueueTidDataBase \<Rightarrow> TRxQueueTidDataBase) \<Rightarrow> bool" where
  "adv_ok adv \<longleftrightarrow> (\<forall>db. db_ok db \<longrightarrow> db_ok (adv db) \<and> window (adv db) = tl (window db) @ [window db ! 0]) \<and>
     (\<forall>db. aTidWinSize (adv db) = aTidWinSize db \<and> aTidBaEstablished (adv db) = aTidBaEstablished db)"

lemma adv_ok_cases [simp]: "adv_ok next_index" "adv_ok next_entry"
proof -
  have [simp]: "aTidWinSize (next_index db) = aTidWinSize db" "aTidBaEstablished (next_index db) = aTidBaEstablished db"
    "aTidWinSize (next_sn db) = aTidWinSize db" "aTidBaEstablished (next_sn db) = aTidBaEstablished db" for db
    by (simp_all add: next_index_def next_sn_def)
  show "adv_ok next_index" "adv_ok next_entry"
    by (simp_all add: adv_ok_def window_next_index next_entry_def)
qed

lemma next_index_next_sn: "next_index (next_sn db) = next_entry db"
  by (simp add: next_entry_def next_index_def next_sn_def)

definition round_db :: "(TRxQueueTidDataBase \<Rightarrow> TRxQueueTidDataBase) \<Rightarrow> nat \<Rightarrow> TRxQueueTidDataBase \<Rightarrow> TRxQueueTidDataBase" where
  "round_db adv k db = ((\<lambda>d. adv (clear_head d)) ^^ k) db"

lemma round_db_Suc: "round_db adv (Suc k) db = round_db adv k (adv (clear_head db))"
  by (simp only: round_db_def funpow_Suc_right comp_apply)

lemma round_db_0 [simp]: "round_db adv 0 db = db"
  by (simp add: round_db_def)

lemma clear_head_fields [simp]: "aTidWinSize (clear_head db) = aTidWinSize db"
  "aTidBaEstablished (clear_head db) = aTidBaEstablished db" "aTidExpectedSn (clear_head db) = aTidExpectedSn db"
  by (simp_all add: clear_head_def)

lemma round_step_window:
  assumes "adv_ok adv" "db_ok db"
  shows "window (adv (clear_head db)) = tl (window db) @ [None]" "db_ok (adv (clear_head db))"
    "aTidWinSize (adv (clear_head db)) = aTidWinSize db" "aTidBaEstablished (adv (clear_head db)) = aTidBaEstablished db"
  using assms window_clear_head [OF assms(2)] by (simp_all add: adv_ok_def del: nth_window)

lemma round_db_window:
  assumes "adv_ok adv" "db_ok db" "k \<le> 8"
  shows "window (round_db adv k db) = drop k (window db) @ replicate k None \<and> db_ok (round_db adv k db) \<and>
    aTidWinSize (round_db adv k db) = aTidWinSize db \<and> aTidBaEstablished (round_db adv k db) = aTidBaEstablished db"
  using assms(2,3)
proof (induction k arbitrary: db)
  case 0
  then show ?case by simp
next
  case (Suc k)
  note st = round_step_window [OF assms(1) Suc.prems(1)]
  have "drop k (tl (window db) @ [None]) = drop (Suc k) (window db) @ [None]"
    using Suc.prems(2) by (simp add: drop_Suc)
  with Suc.IH [OF st(2)] Suc.prems(2) st show ?case
    by (simp add: round_db_Suc replicate_append_same)
qed

lemma rounds_eq:
  assumes "adv_ok adv" "db_ok (tid_db s t)" "t < length (tSa1ArrayMng s)" "k \<le> 8"
  shows "rounds adv k t s = s\<lparr>rx_log := rx_log s @ map Deliver (pkts (take k (window (tid_db s t)))),
    tSa1ArrayMng := (tSa1ArrayMng s)[t := round_db adv k (tid_db s t)],
    aPacketsStored := aPacketsStored s - of_nat (length (pkts (take k (window (tid_db s t)))))\<rparr>"
  using assms(2-4)
proof (induction k arbitrary: s)
  case 0
  then show ?case by (simp add: tid_db_def)
next
  case (Suc k)
  let ?db = "tid_db s t" and ?s = "upd_tid t adv (pass_head t s)"
  note ph = pass_head_eq [OF Suc.prems(1,2)]
  note st = round_step_window [OF assms(1) Suc.prems(1)]
  have d: "tid_db ?s t = adv (clear_head ?db)" and l: "length (tSa1ArrayMng ?s) = length (tSa1ArrayMng s)"
    using Suc.prems(2) by (simp_all add: ph upd_tid_def tid_db_def del: nth_window)
  have w: "take (Suc k) (window ?db) = window ?db ! 0 # take k (tl (window ?db) @ [None])"
    using Suc.prems(3) by (subst window_Cons) (simp add: take_append del: nth_window)
  have p: "pkts (take (Suc k) (window ?db)) = pkts [window ?db ! 0] @ pkts (take k (window (tid_db ?s t)))"
    unfolding w d st(1) by (subst pkts_simps(4) [symmetric]) simp
  have "rounds adv (Suc k) t s = rounds adv k t ?s" by simp
  also have "\<dots> = ?s\<lparr>rx_log := rx_log ?s @ map Deliver (pkts (take k (window (tid_db ?s t)))),
    tSa1ArrayMng := (tSa1ArrayMng ?s)[t := round_db adv k (tid_db ?s t)],
    aPacketsStored := aPacketsStored ?s - of_nat (length (pkts (take k (window (tid_db ?s t)))))\<rparr>"
    using Suc.prems(2,3) st(2) d l by (intro Suc.IH) simp_all
  also have "\<dots> = s\<lparr>rx_log := rx_log s @ map Deliver (pkts (take (Suc k) (window ?db))),
    tSa1ArrayMng := (tSa1ArrayMng s)[t := round_db adv (Suc k) ?db],
    aPacketsStored := aPacketsStored s - of_nat (length (pkts (take (Suc k) (window ?db))))\<rparr>"
    unfolding p d round_db_Suc by (simp add: ph upd_tid_def del: nth_window)
  finally show ?case .
qed

section \<open>Sequence numbers\<close>

lemma unat_and_FFF: "unat (x AND 0xFFF :: 'a::len word) = unat x mod 4096"
proof -
  have "(0xFFF :: 'a word) = mask 12" by (simp add: mask_eq_exp_minus_1)
  then have "x AND 0xFFF = take_bit 12 x" by (simp only: take_bit_eq_mask)
  then show ?thesis unfolding \<open>x AND 0xFFF = take_bit 12 x\<close> unsigned_take_bit_eq by (simp add: take_bit_eq_mod)
qed

text \<open>How far \<open>sn\<close> lies after \<open>E\<close> on the circle of the 4096 sequence numbers.\<close>

definition sn_dist :: "u16 \<Rightarrow> u16 \<Rightarrow> nat" where
  "sn_dist E sn = (unat sn + 4096 - unat E) mod 4096"

lemma diff_and_FFF:
  fixes A B :: u32
  assumes "unat A < 65536" "unat B < 65536"
  shows "unat ((A - B) AND 0xFFF) = (unat A + 65536 - unat B) mod 4096"
proof -
  have "unat (A - B) mod 4096 = (unat A + 65536 - unat B) mod 4096"
  proof (cases "unat B \<le> unat A")
    case True
    then have "unat A + 65536 - unat B = (unat A - unat B) + 16 * 4096" by simp
    then have "(unat A + 65536 - unat B) mod 4096 = (unat A - unat B) mod 4096" by (simp only: mod_mult_self1)
    with True show ?thesis by (simp add: unat_sub_if')
  next
    case False
    have "unat A + 4294967296 - unat B = (unat A + 65536 - unat B) + 1048560 * 4096" using assms by simp
    then have "(unat A + 4294967296 - unat B) mod 4096 = (unat A + 65536 - unat B) mod 4096" by (simp only: mod_mult_self1)
    with False show ?thesis by (simp add: unat_sub_if')
  qed
  then show ?thesis by (simp add: unat_and_FFF)
qed

lemma sn_dist_if:
  assumes "unat E < 4096" "unat sn < 4096"
  shows "sn_dist E sn = (if unat E \<le> unat sn then unat sn - unat E else unat sn + 4096 - unat E)"
  using assms by (auto simp: sn_dist_def mod_if)

lemma sn_dist_Suc:
  assumes "unat E < 4096" "unat E' = Suc (unat E) mod 4096" "unat sn < 4096" "0 < sn_dist E sn"
  shows "sn_dist E' sn = sn_dist E sn - 1"
proof (cases "Suc (unat E) = 4096")
  case True
  with assms have "unat E' = 0" "unat E = 4095" by auto
  with assms show ?thesis by (auto simp: sn_dist_if split: if_splits)
next
  case False
  with assms have "unat E' = Suc (unat E)" "Suc (unat E) < 4096" by auto
  with assms show ?thesis by (auto simp: sn_dist_if split: if_splits)
qed

lemma bigger_iff:
  assumes "unat E < 4096" "unat sn < 4096"
  shows "BA_SESSION_IS_A_BIGGER_THAN_B (ucast sn) (ucast E) \<longleftrightarrow> 0 < sn_dist E sn \<and> sn_dist E sn < 0x7FF"
    "sn = E \<longleftrightarrow> sn_dist E sn = 0"
proof -
  have "unat (ucast sn - ucast E AND 0xFFF :: u32) = (unat sn + 65536 - unat E) mod 4096"
    using assms by (subst diff_and_FFF) simp_all
  also have "\<dots> = sn_dist E sn"
  proof -
    have "unat sn + 65536 - unat E = (unat sn + 4096 - unat E) + 15 * 4096" using assms by simp
    then show ?thesis unfolding sn_dist_def by (simp only: mod_mult_self1)
  qed
  finally have d: "unat (ucast sn - ucast E AND 0xFFF :: u32) = sn_dist E sn" .
  show z: "sn = E \<longleftrightarrow> sn_dist E sn = 0"
    using assms by (auto simp: sn_dist_def word_unat_eq_iff mod_if split: if_splits)
  have "ucast sn = (ucast E :: u32) \<longleftrightarrow> sn = E" by (simp add: word_unat_eq_iff)
  with z show "BA_SESSION_IS_A_BIGGER_THAN_B (ucast sn) (ucast E) \<longleftrightarrow> 0 < sn_dist E sn \<and> sn_dist E sn < 0x7FF"
    using d by (auto simp: BA_SESSION_IS_A_BIGGER_THAN_B_def word_less_nat_alt)
qed

lemma winEnd_unat:
  assumes "unat (E :: u16) < 4096" "1 \<le> unat W" "unat (W :: u32) \<le> 8"
  shows "unat (ucast E + W - 1) = unat E + unat W - 1"
proof -
  have "unat (ucast E + W) = unat E + unat W" using assms by (subst unat_add_bounded) simp_all
  then show ?thesis using assms by (subst unat_le_diff) (simp_all add: word_le_nat_alt)
qed

lemma bigger_winEnd_iff:
  assumes "unat E < 4096" "unat sn < 4096" "1 \<le> unat W" "unat (W :: u32) \<le> 8" "sn_dist E sn < 0x7FF"
  shows "BA_SESSION_IS_A_BIGGER_THAN_B (ucast sn) (ucast E + W - 1) \<longleftrightarrow>
    unat W \<le> sn_dist E sn \<or> (Suc (sn_dist E sn) = unat W \<and> 4096 < unat E + unat W)"
proof -
  note we = winEnd_unat [OF assms(1,3,4)]
  have u: "unat (ucast sn - (ucast E + W - 1) AND 0xFFF :: u32) = (unat sn + 65536 - (unat E + unat W - 1)) mod 4096"
    using assms we by (subst diff_and_FFF) simp_all
  have n: "ucast sn = ucast E + W - 1 \<longleftrightarrow> unat sn = unat E + unat W - 1"
    using we by (simp add: word_unat_eq_iff)
  note e = sn_dist_if [OF assms(1,2)]
  have r: "unat (ucast sn - (ucast E + W - 1) AND 0xFFF :: u32) = (sn_dist E sn + 4097 - unat W) mod 4096"
  proof (cases "unat E \<le> unat sn")
    case True
    then have "unat sn + 65536 - (unat E + unat W - 1) = (sn_dist E sn + 4097 - unat W) + 15 * 4096"
      using e assms by simp
    then show ?thesis unfolding u by (simp only: mod_mult_self1)
  next
    case False
    then have "unat sn + 65536 - (unat E + unat W - 1) = (sn_dist E sn + 4097 - unat W) + 14 * 4096"
      using e assms by simp
    then show ?thesis unfolding u by (simp only: mod_mult_self1)
  qed
  have r': "(sn_dist E sn + 4097 - unat W) mod 4096 = (if Suc (sn_dist E sn) < unat W then sn_dist E sn + 4097 - unat W else Suc (sn_dist E sn) - unat W)"
    using assms by (auto simp: mod_if)
  show ?thesis
    unfolding BA_SESSION_IS_A_BIGGER_THAN_B_def n word_less_nat_alt r r' using e assms by (auto split: if_splits)
qed

lemma hdr_sn_less: "unat (hdr_sn b) < 4096"
proof -
  have "unat (hdr_sn b) = unat (frame_word b 22 AND 0xFFF0) div 16"
    unfolding hdr_sn_def unat_drop_bit_eq by (simp add: drop_bit_eq_div)
  moreover have "unat (frame_word b 22 AND 0xFFF0) < 65536"
    using unsigned_less [of "frame_word b 22 AND 0xFFF0"] by simp
  ultimately show ?thesis by simp
qed

lemma next_sn_unat: "unat (aTidExpectedSn db) < 4096 \<Longrightarrow> unat (aTidExpectedSn (next_sn db)) = Suc (unat (aTidExpectedSn db)) mod 4096"
  by (simp add: next_sn_def unat_and_FFF unat_word_ariths)

lemma next_index_sn [simp]: "aTidExpectedSn (next_index db) = aTidExpectedSn db"
  by (simp add: next_index_def)

lemma round_db_sn:
  assumes "unat (aTidExpectedSn db) < 4096"
  shows "unat (aTidExpectedSn (round_db next_entry k db)) = (unat (aTidExpectedSn db) + k) mod 4096"
  using assms
proof (induction k arbitrary: db)
  case 0
  then show ?case by simp
next
  case (Suc k)
  let ?db = "next_entry (clear_head db)"
  have e: "unat (aTidExpectedSn ?db) = Suc (unat (aTidExpectedSn db)) mod 4096"
    using next_sn_unat [of "next_index (clear_head db)"] Suc.prems by (simp add: next_entry_def)
  then have "unat (aTidExpectedSn (round_db next_entry k ?db)) = (Suc (unat (aTidExpectedSn db)) mod 4096 + k) mod 4096"
    by (subst Suc.IH) simp_all
  then show ?case by (simp add: round_db_Suc mod_add_left_eq)
qed

section \<open>The loops as rounds\<close>

definition run_len :: "rx_buf option list \<Rightarrow> nat" where
  "run_len w = length (takeWhile (\<lambda>x. x \<noteq> None) w)"

lemma run_len_simps [simp]: "run_len [] = 0" "run_len (None # w) = 0" "run_len (Some b # w) = Suc (run_len w)"
  "run_len (w @ [None]) = run_len w"
  by (simp_all add: run_len_def takeWhile_tail)

lemma run_len_le: "run_len w \<le> length w"
  by (simp add: run_len_def length_takeWhile_le)

lemma drain_rounds:
  assumes "db_ok (tid_db s t)" "t < length (tSa1ArrayMng s)" "run_len (window (tid_db s t)) \<le> n"
  shows "drain_loop n t s = rounds next_entry (run_len (window (tid_db s t))) t s"
  using assms
proof (induction n arbitrary: s)
  case 0
  then show ?case by simp
next
  case (Suc n)
  let ?w = "window (tid_db s t)" and ?s = "upd_tid t next_entry (pass_head t s)"
  have h: "pPacket (head_entry (tid_db s t)) = ?w ! 0" using Suc.prems(1) by (rule head_window)
  show ?case
  proof (cases "?w ! 0")
    case None
    then have "?w = None # tl ?w" by (metis window_Cons)
    then have "run_len ?w = 0" by (metis run_len_simps(2))
    with None h show ?thesis by (simp del: nth_window)
  next
    case (Some b)
    then have w: "?w = Some b # tl ?w" by (metis window_Cons)
    then have r: "run_len ?w = Suc (run_len (tl ?w))" by (metis run_len_simps(3))
    note st = round_step_window [OF adv_ok_cases(2) Suc.prems(1)]
    have d: "tid_db ?s t = next_entry (clear_head (tid_db s t))" "length (tSa1ArrayMng ?s) = length (tSa1ArrayMng s)"
      using Suc.prems(2) pass_head_eq [OF Suc.prems(1,2)] by (simp_all add: upd_tid_def tid_db_def del: nth_window)
    have r': "run_len (window (tid_db ?s t)) = run_len (tl ?w)" unfolding d st(1) by simp
    have "drain_loop n t ?s = rounds next_entry (run_len (window (tid_db ?s t))) t ?s"
      using Suc.prems(2,3) st(2) d r r' by (intro Suc.IH) simp_all
    with Some h r r' show ?thesis by (simp del: nth_window)
  qed
qed

lemma run_len_window: "run_len (window db) \<le> 8"
  using run_len_le [of "window db"] by simp

lemma drain_eq:
  assumes "db_ok (tid_db s t)" "t < length (tSa1ArrayMng s)"
  shows "drain_loop RX_QUEUE_ARRAY_SIZE t s = rounds next_entry (run_len (window (tid_db s t))) t s"
  using assms run_len_window by (intro drain_rounds) (simp_all add: RX_QUEUE_ARRAY_SIZE_def)

lemma close_eq: "close_loop n t s = rounds next_index n t s"
  by (induction n arbitrary: s) simp_all

text \<open>The sliding loop makes as many rounds as the new window start is ahead, but at most the window size.\<close>

lemma slide_rounds:
  assumes "db_ok (tid_db s t)" "t < length (tSa1ArrayMng s)" "unat (aTidExpectedSn (tid_db s t)) < 4096"
    "unat new < 4096" "unat W \<le> 8" "aTidWinSize (tid_db s t) = W" "unat i + n = 8"
    and k: "k = (if sn_dist (aTidExpectedSn (tid_db s t)) new < 0x7FF then min (sn_dist (aTidExpectedSn (tid_db s t)) new) (unat W - unat i) else 0)"
  shows "slide_loop n i new t s = (i + of_nat k, rounds next_entry k t s)"
  using assms(1-3,6-8)
proof (induction n arbitrary: s i k)
  case 0
  then have "k = 0" using assms(5) by simp
  then show ?case by simp
next
  case (Suc n)
  let ?E = "aTidExpectedSn (tid_db s t)" and ?s = "upd_tid t next_entry (pass_head t s)"
  let ?c = "BA_SESSION_IS_A_BIGGER_THAN_B (ucast new) (ucast ?E) \<and> i < W"
  have c: "?c \<longleftrightarrow> k \<noteq> 0"
    using bigger_iff(1) [OF Suc.prems(3) assms(4)] Suc.prems(6) by (auto simp: word_less_nat_alt)
  show ?case
  proof (cases "k = 0")
    case True
    with c Suc.prems(4) show ?thesis by auto
  next
    case False
    note st = round_step_window [OF adv_ok_cases(2) Suc.prems(1)]
    have d: "tid_db ?s t = next_entry (clear_head (tid_db s t))" "length (tSa1ArrayMng ?s) = length (tSa1ArrayMng s)"
      using Suc.prems(2) pass_head_eq [OF Suc.prems(1,2)] by (simp_all add: upd_tid_def tid_db_def del: nth_window)
    have e: "unat (aTidExpectedSn (tid_db ?s t)) = Suc (unat ?E) mod 4096"
      using next_sn_unat [of "next_index (clear_head (tid_db s t))"] Suc.prems(3) by (simp add: d next_entry_def)
    have dist: "sn_dist (aTidExpectedSn (tid_db ?s t)) new = sn_dist ?E new - 1" "0 < sn_dist ?E new" "sn_dist ?E new < 0x7FF"
      using sn_dist_Suc [OF Suc.prems(3) e assms(4)] False Suc.prems(6) by (auto split: if_splits)
    have i: "unat (i + 1) = Suc (unat i)" using Suc.prems(5) by (simp add: unat_word_ariths)
    have "slide_loop n (i + 1) new t ?s = (i + 1 + of_nat (k - 1), rounds next_entry (k - 1) t ?s)"
      using Suc.prems st d e dist i False by (intro Suc.IH) (auto simp: min_def split: if_splits)
    moreover have "i + 1 + of_nat (k - 1) = i + of_nat k" using False by (cases k) simp_all
    moreover have "rounds next_entry (k - 1) t ?s = rounds next_entry k t s"
      using False by (cases k) simp_all
    ultimately show ?thesis using c False Suc.prems(4) by simp
  qed
qed

section \<open>The reorder buffer as a window\<close>

text \<open>
  The specification, on the window alone: a packet \<open>d\<close> positions ahead of the expected one slides the window
  until it fits, which passes what falls out, takes its position, and then the run of consecutive
  packets at the window start is passed. The result is the passed packets, by how much the expected
  number advances, and the new window.
\<close>

definition win_drop :: "nat \<Rightarrow> rx_buf option list \<Rightarrow> rx_buf option list" where
  "win_drop k w = drop k w @ replicate (min k (length w)) None"

definition reorder :: "nat \<Rightarrow> nat \<Rightarrow> rx_buf \<Rightarrow> rx_buf option list \<Rightarrow> rx_buf list \<times> nat \<times> rx_buf option list" where
  "reorder W d b w =
     (let k = Suc d - W;
          w' = (win_drop k w)[d - k := Some b];
          r = run_len w'
      in (pkts (take k w) @ pkts (take r w'), k + r, win_drop r w'))"

definition deliveries :: "rx_act list \<Rightarrow> rx_buf list" where
  "deliveries l = List.map_filter (\<lambda>a. case a of Deliver b \<Rightarrow> Some b | _ \<Rightarrow> None) l"

lemma deliveries_simps [simp]: "deliveries [] = []" "deliveries (l @ m) = deliveries l @ deliveries m"
  "deliveries [Deliver b] = [b]" "deliveries [TmrStart] = []" "deliveries [TmrStop] = []"
  "deliveries (map Deliver bs) = bs"
  by (simp_all add: deliveries_def List.map_filter_def comp_def)

lemma timer_fields [simp]:
  "tSa1ArrayMng (stop_timer s) = tSa1ArrayMng s" "tSa1ArrayMng (restart_timer t s) = tSa1ArrayMng s"
  "tSa1ArrayMng (start_timer t s) = tSa1ArrayMng s"
  "aPacketsStored (stop_timer s) = aPacketsStored s" "aPacketsStored (restart_timer t s) = aPacketsStored s"
  "aPacketsStored (start_timer t s) = aPacketsStored s"
  "deliveries (rx_log (stop_timer s)) = deliveries (rx_log s)"
  "deliveries (rx_log (restart_timer t s)) = deliveries (rx_log s)"
  "deliveries (rx_log (start_timer t s)) = deliveries (rx_log s)"
  by (simp_all add: stop_timer_def restart_timer_def start_timer_def)

lemma pass_fields [simp]:
  "tSa1ArrayMng (RxQueue_PassPacket s st b) = tSa1ArrayMng s" "aPacketsStored (RxQueue_PassPacket s st b) = aPacketsStored s"
  "deliveries (rx_log (RxQueue_PassPacket s TI_OK b)) = deliveries (rx_log s) @ [b]"
  by (simp_all add: RxQueue_PassPacket_def)

text \<open>
  What every branch of the receive path establishes for TID \<open>t\<close>: the packets passed, the new window, the new
  expected number, and that nothing else of the tables changes.
\<close>

definition tid_change :: "nat \<Rightarrow> TRxQueue \<Rightarrow> TRxQueue \<Rightarrow> rx_buf list \<Rightarrow> nat \<Rightarrow> rx_buf option list \<Rightarrow> bool" where
  "tid_change t s s' out a w \<longleftrightarrow>
     tSa1ArrayMng s' = (tSa1ArrayMng s)[t := tid_db s' t] \<and>
     deliveries (rx_log s') = deliveries (rx_log s) @ out \<and>
     window (tid_db s' t) = w \<and> db_ok (tid_db s' t) \<and>
     aTidWinSize (tid_db s' t) = aTidWinSize (tid_db s t) \<and> aTidBaEstablished (tid_db s' t) = aTidBaEstablished (tid_db s t) \<and>
     unat (aTidExpectedSn (tid_db s' t)) = (unat (aTidExpectedSn (tid_db s t)) + a) mod 4096 \<and>
     aPacketsStored s' + of_nat (length (pkts (window (tid_db s t)))) = aPacketsStored s + of_nat (length (pkts w))"

definition tid_wf :: "TRxQueueTidDataBase \<Rightarrow> bool" where [wf_defs]:
  "tid_wf db \<longleftrightarrow> db_ok db \<and> unat (aTidExpectedSn db) < 4096 \<and>
     (if aTidBaEstablished db then
        1 \<le> unat (aTidWinSize db) \<and> unat (aTidWinSize db) \<le> 8 \<and> window db ! 0 = None \<and>
        (\<forall>k<8. \<forall>b. window db ! k = Some b \<longrightarrow> k < unat (aTidWinSize db) \<and> sn_dist (aTidExpectedSn db) (hdr_sn b) = k)
      else window db = replicate 8 None)"

lemma mask_sn_id: "unat (E :: u16) < 4096 \<Longrightarrow> E AND 0xFFF = E"
  by (simp add: word_unat_eq_iff unat_and_FFF)

lemma db_sn_update [simp]: "window (db\<lparr>aTidExpectedSn := x\<rparr>) = window db" "db_ok (db\<lparr>aTidExpectedSn := x\<rparr>) = db_ok db"
  by (simp_all add: window_def db_ok_def)

lemma pkts_take_drop: "length (pkts (take k w)) + length (pkts (drop k w)) = length (pkts w)"
  by (metis append_take_drop_id length_append pkts_simps(4))

text \<open>Rounds with \<open>next_entry\<close>, as a change of the TID.\<close>

lemma rounds_change:
  assumes "db_ok (tid_db s t)" "t < length (tSa1ArrayMng s)" "unat (aTidExpectedSn (tid_db s t)) < 4096" "k \<le> 8"
  shows "tid_change t s (rounds next_entry k t s) (pkts (take k (window (tid_db s t)))) k (win_drop k (window (tid_db s t)))"
proof -
  let ?db = "tid_db s t" and ?s = "rounds next_entry k t s"
  note e = rounds_eq [OF adv_ok_cases(2) assms(1,2,4)]
  have d: "tid_db ?s t = round_db next_entry k ?db" using assms(2) by (simp add: e) (simp add: tid_db_def)
  have c: "of_nat (length (pkts (window ?db))) =
      (of_nat (length (pkts (take k (window ?db)))) + of_nat (length (pkts (drop k (window ?db)))) :: u16)"
    by (metis of_nat_add pkts_take_drop)
  show ?thesis
    unfolding tid_change_def d using round_db_window [OF adv_ok_cases(2) assms(1,4)] round_db_sn [OF assms(3)] assms(4) c
    by (simp add: e win_drop_def min_def)
qed

subsection \<open>Composing changes\<close>

lemma count_trans:
  fixes a b c x y z :: u16
  assumes "b + x = a + y" "c + y = b + z"
  shows "c + x = a + z"
proof -
  have "c + x = (c + y) + (b + x) - b - y" by simp
  also have "\<dots> = a + z" unfolding assms by simp
  finally show ?thesis .
qed

lemma tid_changeD:
  assumes "tid_change t s s' out a w"
  shows "tSa1ArrayMng s' = (tSa1ArrayMng s)[t := tid_db s' t]" "deliveries (rx_log s') = deliveries (rx_log s) @ out"
    "window (tid_db s' t) = w" "db_ok (tid_db s' t)" "aTidWinSize (tid_db s' t) = aTidWinSize (tid_db s t)"
    "aTidBaEstablished (tid_db s' t) = aTidBaEstablished (tid_db s t)"
    "unat (aTidExpectedSn (tid_db s' t)) = (unat (aTidExpectedSn (tid_db s t)) + a) mod 4096"
    "aPacketsStored s' + of_nat (length (pkts (window (tid_db s t)))) = aPacketsStored s + of_nat (length (pkts w))"
  using assms unfolding tid_change_def by blast+

lemma tid_change_trans:
  assumes "tid_change t s s1 o1 a1 w1" "tid_change t s1 s2 o2 a2 w2"
  shows "tid_change t s s2 (o1 @ o2) (a1 + a2) w2"
proof -
  note c1 = tid_changeD [OF assms(1)] and c2 = tid_changeD [OF assms(2)]
  have c: "aPacketsStored s2 + of_nat (length (pkts (window (tid_db s t)))) = aPacketsStored s + of_nat (length (pkts w2))"
    using count_trans [OF c1(8) c2(8) [unfolded c1(3)]] .
  have e: "unat (aTidExpectedSn (tid_db s2 t)) = (unat (aTidExpectedSn (tid_db s t)) + (a1 + a2)) mod 4096"
    unfolding c2(7) c1(7) by (simp add: mod_add_left_eq add.assoc)
  have m: "tSa1ArrayMng s2 = (tSa1ArrayMng s)[t := tid_db s2 t]"
    using c2(1) unfolding c1(1) by simp
  have d: "deliveries (rx_log s2) = deliveries (rx_log s) @ o1 @ o2" unfolding c2(2) c1(2) by simp
  have w: "aTidWinSize (tid_db s2 t) = aTidWinSize (tid_db s t)"
    "aTidBaEstablished (tid_db s2 t) = aTidBaEstablished (tid_db s t)" unfolding c2(5,6) c1(5,6) by simp_all
  show ?thesis unfolding tid_change_def by (intro conjI m d w e c c2)
qed

lemma tid_change_cong:
  assumes "tid_change t s s1 out a w" "tSa1ArrayMng s2 = tSa1ArrayMng s1" "aPacketsStored s2 = aPacketsStored s1"
    "deliveries (rx_log s2) = deliveries (rx_log s1) @ out2"
  shows "tid_change t s s2 (out @ out2) a w"
  using assms by (simp add: tid_change_def tid_db_def)

lemma tid_change_refl:
  assumes "db_ok (tid_db s t)" "unat (aTidExpectedSn (tid_db s t)) < 4096"
  shows "tid_change t s s [] 0 (window (tid_db s t))"
  using assms by (simp add: tid_change_def) (simp add: tid_db_def)

lemma tid_change_same:
  assumes "db_ok (tid_db s t)" "unat (aTidExpectedSn (tid_db s t)) < 4096" "tSa1ArrayMng s2 = tSa1ArrayMng s"
    "aPacketsStored s2 = aPacketsStored s" "deliveries (rx_log s2) = deliveries (rx_log s) @ out2"
  shows "tid_change t s s2 out2 0 (window (tid_db s t))"
  using tid_change_cong [OF tid_change_refl [OF assms(1,2)] assms(3-5)] by simp

lemma tid_change_upd:
  assumes "t < length (tSa1ArrayMng s)" "db_ok (f (tid_db s t))"
    "aTidWinSize (f (tid_db s t)) = aTidWinSize (tid_db s t)" "aTidBaEstablished (f (tid_db s t)) = aTidBaEstablished (tid_db s t)"
    "unat (aTidExpectedSn (f (tid_db s t))) = (unat (aTidExpectedSn (tid_db s t)) + a) mod 4096"
    "length (pkts (window (f (tid_db s t)))) = length (pkts (window (tid_db s t)))"
  shows "tid_change t s (upd_tid t f s) [] a (window (f (tid_db s t)))"
  using assms by (simp add: tid_change_def) (simp add: upd_tid_def tid_db_def)

lemma tid_change_facts:
  assumes "tid_change t s s' out a w" "t < length (tSa1ArrayMng s)"
  shows "db_ok (tid_db s' t)" "window (tid_db s' t) = w" "t < length (tSa1ArrayMng s')"
    "aTidWinSize (tid_db s' t) = aTidWinSize (tid_db s t)"
    "unat (aTidExpectedSn (tid_db s' t)) = (unat (aTidExpectedSn (tid_db s t)) + a) mod 4096"
    "unat (aTidExpectedSn (tid_db s' t)) < 4096" "aTidBaEstablished (tid_db s' t) = aTidBaEstablished (tid_db s t)"
    "j \<noteq> t \<Longrightarrow> tid_db s' j = tid_db s j" "length (tSa1ArrayMng s') = length (tSa1ArrayMng s)"
proof -
  have m: "tSa1ArrayMng s' = (tSa1ArrayMng s)[t := tid_db s' t]" using assms(1) by (simp add: tid_change_def)
  show "length (tSa1ArrayMng s') = length (tSa1ArrayMng s)" by (subst m) simp
  then show "t < length (tSa1ArrayMng s')" using assms(2) by simp
  show "j \<noteq> t \<Longrightarrow> tid_db s' j = tid_db s j" by (simp add: tid_db_def) (metis m nth_list_update_neq)
qed (use assms in \<open>simp_all add: tid_change_def\<close>)

text \<open>Moving on by one entry when the window start is empty.\<close>

lemma next_entry_change:
  assumes "t < length (tSa1ArrayMng s)" "db_ok (tid_db s t)" "unat (aTidExpectedSn (tid_db s t)) < 4096"
    "window (tid_db s t) ! 0 = None"
  shows "tid_change t s (upd_tid t next_entry s) [] 1 (win_drop 1 (window (tid_db s t)))"
proof -
  let ?db = "tid_db s t"
  have w: "window (next_entry ?db) = tl (window ?db) @ [None]" "db_ok (next_entry ?db)"
    using window_next_index [OF assms(2)] assms(4) by (simp_all add: next_entry_def del: nth_window)
  have "window ?db = None # tl (window ?db)" using assms(4) by (metis window_Cons)
  then have l: "length (pkts (tl (window ?db))) = length (pkts (window ?db))" by (metis pkts_simps(2))
  have wd: "win_drop 1 (window ?db) = window (next_entry ?db)" by (simp add: w win_drop_def drop_Suc min_def)
  show ?thesis unfolding wd
    using assms(1) w l next_sn_unat [of "next_index ?db"] assms(3)
    by (intro tid_change_upd) (simp_all add: next_entry_def, simp_all add: next_sn_def next_index_def)
qed

lemma drain_change:
  assumes "t < length (tSa1ArrayMng s)" "db_ok (tid_db s t)" "unat (aTidExpectedSn (tid_db s t)) < 4096"
  shows "tid_change t s (drain_loop RX_QUEUE_ARRAY_SIZE t s) (pkts (take (run_len (window (tid_db s t))) (window (tid_db s t))))
    (run_len (window (tid_db s t))) (win_drop (run_len (window (tid_db s t))) (window (tid_db s t)))"
  unfolding drain_eq [OF assms(2,1)] using assms run_len_window by (intro rounds_change)

lemma mask_sn_change:
  assumes "t < length (tSa1ArrayMng s)" "db_ok (tid_db s t)" "unat (aTidExpectedSn (tid_db s t)) < 4096"
  shows "upd_tid t (\<lambda>db. db\<lparr>aTidExpectedSn := aTidExpectedSn db AND 0xFFF\<rparr>) s = s"
  using assms by (simp add: upd_tid_def mask_sn_id tid_db_def)

subsection \<open>Facts on windows\<close>

definition none_from :: "rx_buf option list \<Rightarrow> nat \<Rightarrow> bool" where
  "none_from w n \<longleftrightarrow> (\<forall>p. n \<le> p \<longrightarrow> p < length w \<longrightarrow> w ! p = None)"

lemma length_win_drop [simp]: "length (win_drop k w) = length w"
  by (auto simp: win_drop_def min_def)

lemma nth_win_drop: "p < length w \<Longrightarrow> win_drop k w ! p = (if p + k < length w then w ! (p + k) else None)"
  by (cases "k \<le> length w") (auto simp: win_drop_def nth_append add.commute min_def)

lemma win_drop_0 [simp]: "win_drop 0 w = w"
  by (simp add: win_drop_def)

lemma win_drop_add: "win_drop a (win_drop b w) = win_drop (a + b) w"
  by (rule nth_equalityI) (auto simp: nth_win_drop add.assoc)

lemma none_from_all: "none_from w 0 \<longleftrightarrow> w = replicate (length w) None"
  by (auto simp: none_from_def list_eq_iff_nth_eq)

lemma none_from_mono: "none_from w n \<Longrightarrow> n \<le> m \<Longrightarrow> none_from w m"
  by (auto simp: none_from_def)

lemma none_from_win_drop: "none_from w n \<Longrightarrow> none_from (win_drop k w) (n - k)"
  by (auto simp: none_from_def nth_win_drop)

lemma win_drop_all: "none_from w n \<Longrightarrow> n \<le> k \<Longrightarrow> win_drop k w = replicate (length w) None"
  by (rule nth_equalityI) (auto simp: none_from_def nth_win_drop)

lemma run_len_none_from: "none_from w n \<Longrightarrow> run_len w \<le> n"
proof (rule ccontr)
  assume n: "none_from w n" and c: "\<not> run_len w \<le> n"
  then have "n < length w" using run_len_le [of w] by simp
  with n have "w ! n = None" by (simp add: none_from_def)
  moreover have "w ! n \<noteq> None"
    using c by (metis (mono_tags, lifting) run_len_def not_le nth_mem set_takeWhileD takeWhile_nth)
  ultimately show False by simp
qed

lemma nth_run: "p < run_len w \<Longrightarrow> w ! p \<noteq> None"
  by (metis (mono_tags, lifting) run_len_def nth_mem set_takeWhileD takeWhile_nth)

lemma run_len_eqI: "(\<And>p. p < r \<Longrightarrow> w ! p \<noteq> None) \<Longrightarrow> r \<le> length w \<Longrightarrow> (r < length w \<Longrightarrow> w ! r = None) \<Longrightarrow> run_len w = r"
proof (induction w arbitrary: r)
  case Nil
  then show ?case by simp
next
  case (Cons x w)
  show ?case
  proof (cases r)
    case 0
    with Cons.prems(3) show ?thesis by simp
  next
    case (Suc r')
    with Cons.prems(1) [of 0] obtain b where "x = Some b" by auto
    moreover have "run_len w = r'"
      using Cons.prems Suc by (intro Cons.IH) (metis Suc_less_eq nth_Cons_Suc, simp_all)
    ultimately show ?thesis using Suc by simp
  qed
qed

lemma run_len_end: "run_len w < length w \<Longrightarrow> w ! run_len w = None"
  by (metis (mono_tags, lifting) nth_length_takeWhile run_len_def)

lemma pkts_none: "none_from w 0 \<Longrightarrow> pkts w = []"
  by (metis none_from_all pkts_simps(5))

lemma pkts_take_none:
  assumes "none_from w n" "n \<le> k"
  shows "pkts (take k w) = pkts w"
proof -
  have "none_from (drop k w) 0" using assms by (auto simp: none_from_def)
  then have "pkts (drop k w) = []" by (rule pkts_none)
  then show ?thesis by (metis append_Nil2 append_take_drop_id pkts_simps(4))
qed

lemma pkts_update:
  assumes "k < length w" "w ! k = None"
  shows "length (pkts (w[k := Some b])) = Suc (length (pkts w))"
proof -
  have "pkts w = pkts (take k w) @ pkts (drop (Suc k) w)"
    using assms by (subst id_take_nth_drop [OF assms(1)]) (simp add: assms(2))
  moreover have "pkts (w[k := Some b]) = pkts (take k w) @ b # pkts (drop (Suc k) w)"
    using assms by (simp add: upd_conv_take_nth_drop)
  ultimately show ?thesis by simp
qed

lemma win_drop_update: "k \<le> p \<Longrightarrow> p < length w \<Longrightarrow> win_drop k (w[p := x]) = (win_drop k w)[p - k := x]"
  by (rule nth_equalityI) (auto simp: nth_win_drop nth_list_update)

subsection \<open>The branches of the receive path\<close>

lemma save_index_eq:
  assumes "unat (aWinStartArrayInex db) < 8" "unat (aTidExpectedSn db) < 4096" "unat sn < 4096"
  shows "save_index db sn = (unat (aWinStartArrayInex db) + sn_dist (aTidExpectedSn db) sn) mod 8"
proof -
  let ?y = "(ucast sn + SEQ_NUM_WRAP - ucast (aTidExpectedSn db)) AND SEQ_NUM_MASK :: u32"
  have "unat (ucast sn + SEQ_NUM_WRAP) = unat sn + 4096"
    using assms by (simp add: SEQ_NUM_WRAP_def unat_word_ariths)
  then have "unat (ucast sn + SEQ_NUM_WRAP - ucast (aTidExpectedSn db)) = unat sn + 4096 - unat (aTidExpectedSn db)"
    using assms by (subst unat_le_diff) (simp_all add: word_le_nat_alt)
  then have y: "unat ?y = sn_dist (aTidExpectedSn db) sn"
    by (simp add: SEQ_NUM_MASK_def unat_and_FFF sn_dist_def)
  have "sn_dist (aTidExpectedSn db) sn < 4096" by (simp add: sn_dist_def)
  then have x: "unat (aWinStartArrayInex db + ?y) = unat (aWinStartArrayInex db) + sn_dist (aTidExpectedSn db) sn"
    using assms y by (subst unat_add_bounded) simp_all
  have "unat (ucast (aWinStartArrayInex db + ?y) :: u16) = unat (aWinStartArrayInex db + ?y) mod 65536"
    by (simp add: unsigned_ucast_eq take_bit_eq_mod)
  with x show ?thesis unfolding save_index_def unat_and7 by (simp add: mod_mod_cancel)
qed

lemma store_window:
  assumes "db_ok db" "k < 8" "i = (unat (aWinStartArrayInex db) + k) mod 8" "pPacket e = Some b" "tStatus e = TI_OK"
  shows "window (db\<lparr>aPaketsQueue := (aPaketsQueue db)[i := e]\<rparr>) = (window db)[k := Some b]"
    "db_ok (db\<lparr>aPaketsQueue := (aPaketsQueue db)[i := e]\<rparr>)"
proof -
  let ?j = "unat (aWinStartArrayInex db)"
  have j: "?j < 8" "length (aPaketsQueue db) = 8" using assms(1) by (simp_all add: db_ok_def)
  have inj: "(?j + p) mod 8 = i \<longleftrightarrow> p = k" if "p < 8" for p
    using that assms(2,3) j(1) by (auto simp: mod_if split: if_splits)
  show "window (db\<lparr>aPaketsQueue := (aPaketsQueue db)[i := e]\<rparr>) = (window db)[k := Some b]"
  proof (rule nth_equalityI)
    fix p
    assume "p < length (window (db\<lparr>aPaketsQueue := (aPaketsQueue db)[i := e]\<rparr>))"
    then have "p < 8" by simp
    with inj [of p] j assms(2-4) show "window (db\<lparr>aPaketsQueue := (aPaketsQueue db)[i := e]\<rparr>) ! p = (window db)[k := Some b] ! p"
      by (auto simp: nth_list_update)
  qed simp
  show "db_ok (db\<lparr>aPaketsQueue := (aPaketsQueue db)[i := e]\<rparr>)"
    using assms(1,5) set_update_subset_insert [of "aPaketsQueue db" i e] by (auto simp: db_ok_def)
qed

lemma tid_wf_est:
  assumes "tid_wf db" "aTidBaEstablished db"
  shows "db_ok db" "unat (aTidExpectedSn db) < 4096" "1 \<le> unat (aTidWinSize db)" "unat (aTidWinSize db) \<le> 8"
    "window db ! 0 = None" "none_from (window db) (unat (aTidWinSize db))"
    "window db ! k = Some b \<Longrightarrow> k < 8 \<Longrightarrow> sn_dist (aTidExpectedSn db) (hdr_sn b) = k"
proof -
  show "none_from (window db) (unat (aTidWinSize db))"
    using assms unfolding tid_wf_def none_from_def by (metis length_window not_None_eq not_less)
qed (use assms in \<open>auto simp: tid_wf_def simp del: nth_window\<close>)

lemma reorder_expected:
  assumes "w = None # v" "1 \<le> W"
  shows "reorder W 0 b w = (b # pkts (take (run_len v) v), Suc (run_len v), win_drop (run_len v) (win_drop 1 w))"
proof -
  have "win_drop (Suc (run_len v)) (Some b # v) = win_drop (run_len v) (win_drop 1 w)"
    unfolding win_drop_add assms(1) using run_len_le [of v]
    by (intro nth_equalityI) (auto simp: nth_win_drop)
  with assms show ?thesis by (simp add: reorder_def Let_def)
qed

lemma part1_change:
  assumes "t = unat tid" "t < length (tSa1ArrayMng s)" "db_ok (tid_db s t)" "unat (aTidExpectedSn (tid_db s t)) < 4096"
    "window (tid_db s t) ! 0 = None" "1 \<le> W" "reorder W 0 b (window (tid_db s t)) = (out, a, w')"
  shows "tid_change t s (rx_part1 s tid b) out a w'"
proof -
  let ?w = "window (tid_db s t)"
  define s2 where "s2 = RxQueue_PassPacket (stop_timer s) TI_OK b"
  define s3 where "s3 = upd_tid t next_entry s2"
  define s4 where "s4 = drain_loop RX_QUEUE_ARRAY_SIZE t s3"
  have c2: "tid_change t s s2 [b] 0 ?w"
    using assms(3,4) by (intro tid_change_same) (simp_all add: s2_def)
  note f2 = tid_change_facts [OF c2 assms(2)]
  have c3: "tid_change t s2 s3 [] 1 (win_drop 1 ?w)"
    using next_entry_change [OF f2(3,1,6)] f2(2) assms(5) by (simp add: s3_def del: nth_window)
  note f3 = tid_change_facts [OF c3 f2(3)]
  have c4: "tid_change t s3 s4 (pkts (take (run_len (win_drop 1 ?w)) (win_drop 1 ?w))) (run_len (win_drop 1 ?w))
      (win_drop (run_len (win_drop 1 ?w)) (win_drop 1 ?w))"
    using drain_change [OF f3(3,1,6)] f3(2) by (simp add: s4_def)
  note f4 = tid_change_facts [OF c4 f3(3)]
  have r: "rx_part1 s tid b = restart_timer tid s4"
    unfolding rx_part1_def Let_def assms(1) [symmetric] next_index_next_sn
    using mask_sn_change [OF f4(3,1,6)] by (simp add: s2_def s3_def s4_def)
  have "tid_change t s (rx_part1 s tid b) (([b] @ [] @ pkts (take (run_len (win_drop 1 ?w)) (win_drop 1 ?w))) @ [])
      (0 + (1 + run_len (win_drop 1 ?w))) (win_drop (run_len (win_drop 1 ?w)) (win_drop 1 ?w))"
    unfolding r by (rule tid_change_cong [OF tid_change_trans [OF c2 tid_change_trans [OF c3 c4]]]) simp_all
  moreover have w: "?w = None # tl ?w" using assms(5) by (metis window_Cons)
  have "win_drop 1 ?w = tl ?w @ [None]" by (simp add: win_drop_def drop_Suc min_def)
  then have "run_len (win_drop 1 ?w) = run_len (tl ?w)" "take (run_len (tl ?w)) (win_drop 1 ?w) = take (run_len (tl ?w)) (tl ?w)"
    using run_len_le [of "tl ?w"] by simp_all
  moreover note reorder_expected [OF w assms(6), of b]
  ultimately show ?thesis using assms(7) by simp
qed

lemma store_change:
  assumes "t < length (tSa1ArrayMng s)" "db_ok (tid_db s t)" "unat (aTidExpectedSn (tid_db s t)) < 4096"
    "k < 8" "window (tid_db s t) ! k = None" "i = (unat (aWinStartArrayInex (tid_db s t)) + k) mod 8"
    "pPacket e = Some b" "tStatus e = TI_OK"
  shows "tid_change t s ((upd_tid t (\<lambda>db. db\<lparr>aPaketsQueue := (aPaketsQueue db)[i := e]\<rparr>) s)\<lparr>aPacketsStored := aPacketsStored s + 1\<rparr>)
    [] 0 ((window (tid_db s t))[k := Some b])"
proof -
  note w = store_window [OF assms(2,4,6,7,8)]
  have "length (pkts ((window (tid_db s t))[k := Some b])) = Suc (length (pkts (window (tid_db s t))))"
    using assms(4,5) by (intro pkts_update) (simp_all del: nth_window)
  with w assms(1,3) show ?thesis
    by (simp add: tid_change_def upd_tid_def tid_db_def)
qed

lemma part2_change:
  assumes "t = unat tid" "t < length (tSa1ArrayMng s)" "db_ok (tid_db s t)" "unat (aTidExpectedSn (tid_db s t)) < 4096"
    "window (tid_db s t) ! 0 = None" "unat sn < 4096" "d = sn_dist (aTidExpectedSn (tid_db s t)) sn"
    "0 < d" "d < W" "W \<le> 8" "window (tid_db s t) ! d = None"
    "reorder W d b (window (tid_db s t)) = (out, a, w')"
  shows "tid_change t s (rx_part2 s tid sn b) out a w'"
proof -
  let ?db = "tid_db s t" and ?w = "window (tid_db s t)"
  let ?e = "\<lparr>pPacket = Some b, tStatus = TI_OK, uFrameSn = sn\<rparr>"
  have i: "save_index ?db sn = (unat (aWinStartArrayInex ?db) + d) mod 8"
    using assms(3,4,6,7) by (simp add: save_index_eq db_ok_def)
  have "?w = None # tl ?w" using assms(5) by (metis window_Cons)
  then have "?w[d := Some b] = None # (tl ?w)[d - 1 := Some b]"
    using assms(8) by (cases d) (auto, metis list_update_code(3))
  then have "run_len (?w[d := Some b]) = 0" by simp
  then have o: "out = []" "a = 0" "w' = ?w[d := Some b]"
    using assms(9,12) by (auto simp: reorder_def Let_def)
  have "pPacket (aPaketsQueue ?db ! save_index ?db sn) = None"
    using assms(9,10,11) i by simp
  then have r: "\<exists>s'. rx_part2 s tid sn b = s' \<and> (s' = (upd_tid t (\<lambda>db. db\<lparr>aPaketsQueue := (aPaketsQueue db)[save_index ?db sn := ?e]\<rparr>) s)\<lparr>aPacketsStored := aPacketsStored s + 1\<rparr>
      \<or> s' = start_timer tid ((upd_tid t (\<lambda>db. db\<lparr>aPaketsQueue := (aPaketsQueue db)[save_index ?db sn := ?e]\<rparr>) s)\<lparr>aPacketsStored := aPacketsStored s + 1\<rparr>))"
    unfolding rx_part2_def Let_def assms(1) [symmetric] by auto
  have c: "tid_change t s ((upd_tid t (\<lambda>db. db\<lparr>aPaketsQueue := (aPaketsQueue db)[save_index ?db sn := ?e]\<rparr>) s)\<lparr>aPacketsStored := aPacketsStored s + 1\<rparr>)
      [] 0 (?w[d := Some b])"
    using assms i by (intro store_change) simp_all
  from r show ?thesis
    using c tid_change_cong [OF c, of "rx_part2 s tid sn b" "[]"] unfolding o by auto
qed

text \<open>Part 3 up to the point where the new packet is placed.\<close>

lemma new_start_unat:
  assumes "unat (sn :: u16) < 4096" "1 \<le> unat W" "unat (W :: u32) \<le> 8"
  shows "unat (ucast ((ucast sn + SEQ_NUM_WRAP - W + 1) AND SEQ_NUM_MASK) :: u16) = (unat sn + 4097 - unat W) mod 4096"
proof -
  have "unat (ucast sn + SEQ_NUM_WRAP) = unat sn + 4096" using assms by (simp add: SEQ_NUM_WRAP_def unat_word_ariths)
  then have "unat (ucast sn + SEQ_NUM_WRAP - W) = unat sn + 4096 - unat W"
    using assms by (subst unat_le_diff) (simp_all add: word_le_nat_alt)
  then have "unat (ucast sn + SEQ_NUM_WRAP - W + 1) = unat sn + 4097 - unat W"
    using assms by (subst unat_add_bounded) simp_all
  then have "unat ((ucast sn + SEQ_NUM_WRAP - W + 1) AND SEQ_NUM_MASK) = (unat sn + 4097 - unat W) mod 4096"
    by (simp add: SEQ_NUM_MASK_def unat_and_FFF)
  then show ?thesis by (simp add: unsigned_ucast_eq take_bit_eq_mod)
qed

lemma sn_dist_add:
  assumes "unat E < 4096" "unat sn < 4096" "unat E' = (unat E + a) mod 4096" "a \<le> sn_dist E sn"
  shows "sn_dist E' sn = sn_dist E sn - a"
  using assms
proof (induction a arbitrary: E')
  case 0
  then show ?case by (simp add: sn_dist_def)
next
  case (Suc a)
  define E1 :: u16 where "E1 = of_nat ((unat E + a) mod 4096)"
  have e1: "unat E1 = (unat E + a) mod 4096" by (simp add: E1_def unat_of_nat mod_mod_cancel)
  with Suc have d1: "sn_dist E1 sn = sn_dist E sn - a" by simp
  have "unat E' = Suc (unat E1) mod 4096" using Suc.prems(3) e1 by (simp add: mod_Suc_eq)
  moreover have "unat E1 < 4096" using e1 by simp
  ultimately show ?case using sn_dist_Suc [of E1 E' sn] d1 Suc.prems by simp
qed

lemma sn_dist_add_back:
  assumes "unat E < 4096" "unat sn < 4096"
  shows "(unat E + sn_dist E sn) mod 4096 = unat sn"
  using assms by (auto simp: sn_dist_if mod_if)

lemma sn_dist_of_add:
  assumes "unat E < 4096" "k < 4096" "unat sn = (unat E + k) mod 4096"
  shows "sn_dist E sn = k"
proof (cases "unat E + k < 4096")
  case True
  with assms show ?thesis by (simp add: sn_dist_def)
next
  case False
  with assms have "unat sn = unat E + k - 4096" by (simp add: le_mod_geq)
  with assms False show ?thesis by (simp add: sn_dist_def)
qed

lemma part3_slide:
  assumes t: "t < length (tSa1ArrayMng s)" and wf: "tid_wf (tid_db s t)" "aTidBaEstablished (tid_db s t)"
    and W: "W = aTidWinSize (tid_db s t)" and E: "E = aTidExpectedSn (tid_db s t)"
    and sn: "unat sn < 4096" and d: "d = sn_dist E sn" "unat W \<le> d" "d < 0x7FF"
    and new: "unat new = (unat sn + 4097 - unat W) mod 4096" and w: "w = window (tid_db s t)"
    and s1: "s1 = upd_tid t next_entry (stop_timer s)" and sl: "slide_loop RX_QUEUE_ARRAY_SIZE 0 new t s1 = (i, s2)"
    and s3: "s3 = (if i = W then upd_tid t (\<lambda>db. db\<lparr>aTidExpectedSn := new\<rparr>) s2 else drain_loop RX_QUEUE_ARRAY_SIZE t s2)"
    and m: "m = run_len (win_drop (Suc d - unat W) w)"
  shows "aTidWinSize (tid_db s2 t) = W"
    "tid_change t s s3 (pkts (take (Suc d - unat W) w) @ pkts (take m (win_drop (Suc d - unat W) w)))
      (Suc d - unat W + m) (win_drop m (win_drop (Suc d - unat W) w))"
proof -
  note est = tid_wf_est [OF wf]
  let ?K = "Suc d - unat W" and ?W = "unat W"
  define k where "k = min (d - ?W) ?W"
  have W8: "1 \<le> ?W" "?W \<le> 8" using est W by simp_all
  have nf: "none_from w ?W" using est(6) W w by simp
  have w0: "w = None # tl w" using est(5) w by (metis window_Cons)
  have lw: "length w = 8" using w by simp
  have c0: "tid_change t s (stop_timer s) [] 0 w"
    unfolding w using est by (intro tid_change_same) simp_all
  note f0 = tid_change_facts [OF c0 t]
  have c1: "tid_change t (stop_timer s) s1 [] 1 (win_drop 1 w)"
    using next_entry_change [OF f0(3,1,6)] f0(2) est(5) by (simp add: s1 w del: nth_window)
  note c1' = tid_change_trans [OF c0 c1] and f1 = tid_change_facts [OF c1 f0(3)]
  have E1: "unat (aTidExpectedSn (tid_db s1 t)) = (unat E + 1) mod 4096"
    using f1(5) f0(5) E est(2) by simp
  have newd: "sn_dist (aTidExpectedSn (tid_db s1 t)) new = d - ?W"
  proof -
    have n: "unat new = (unat E + ?K) mod 4096"
    proof -
      have "d + 4097 - ?W = ?K + 4096" using d W8 by simp
      then have "(unat E + ?K) mod 4096 = (unat E + (d + 4097 - ?W)) mod 4096"
        by (simp only: add.assoc [symmetric] mod_add_self2)
      also have "unat E + (d + 4097 - ?W) = (unat E + d) + (4097 - ?W)" using W8 by simp
      also have "((unat E + d) + (4097 - ?W)) mod 4096 = ((unat E + d) mod 4096 + (4097 - ?W)) mod 4096" by (simp add: mod_add_left_eq)
      also have "(unat E + d) mod 4096 = unat sn" unfolding d(1) using sn_dist_add_back est(2) sn E by simp
      finally show ?thesis using new W8 by simp
    qed
    have "sn_dist E new = ?K"
      using sn_dist_of_add [OF _ _ n] d est(2) E by simp
    then show ?thesis
      using sn_dist_add [of E new "aTidExpectedSn (tid_db s1 t)" 1] E1 est(2) E n W8 d by simp
  qed
  have "slide_loop RX_QUEUE_ARRAY_SIZE 0 new t s1 = (0 + of_nat k, rounds next_entry k t s1)"
  proof (rule slide_rounds [where W = W])
    show "k = (if sn_dist (aTidExpectedSn (tid_db s1 t)) new < 0x7FF
        then min (sn_dist (aTidExpectedSn (tid_db s1 t)) new) (unat W - unat (0 :: u32)) else 0)"
      unfolding newd k_def using d by simp
    show "aTidWinSize (tid_db s1 t) = W" using f1(4) f0(4) W by simp
    show "unat new < 4096" using new by simp
  qed (use f1 W8 in \<open>simp_all add: RX_QUEUE_ARRAY_SIZE_def\<close>)
  with sl have i: "i = of_nat k" and s2: "s2 = rounds next_entry k t s1" by simp_all
  have k8: "k \<le> 8" using W8 by (simp add: k_def)
  have c2: "tid_change t s1 s2 (pkts (take k (win_drop 1 w))) k (win_drop k (win_drop 1 w))"
    using rounds_change [OF f1(1,3,6) k8] f1(2) by (simp add: s2)
  note c2' = tid_change_trans [OF c1' c2] and f2 = tid_change_facts [OF c2 f1(3)]
  show W2: "aTidWinSize (tid_db s2 t) = W" using f2(4) f1(4) f0(4) W by simp
  have iW: "i = W \<longleftrightarrow> k = ?W" using i k8 W8 by (simp add: word_unat_eq_iff unat_of_nat)
  have o2: "pkts (take k (win_drop 1 w)) = pkts (take ?K w)"
  proof (cases "k = ?W")
    case True
    have "pkts (take k (win_drop 1 w)) = pkts (win_drop 1 w)"
      using none_from_win_drop [OF nf, of 1] True by (intro pkts_take_none [of _ "?W - 1"]) simp_all
    also have "pkts (win_drop 1 w) = pkts w"
    proof -
      have "win_drop 1 w = tl w @ [None]" using lw by (simp add: win_drop_def drop_Suc min_def)
      then have "pkts (win_drop 1 w) = pkts (tl w)" by simp
      then show ?thesis using w0 by (metis pkts_simps(2))
    qed
    also have "pkts w = pkts (take ?K w)" using pkts_take_none [OF nf] True d by (simp add: k_def)
    finally show ?thesis .
  next
    case False
    then have k: "Suc k = ?K" "k \<le> 7" using W8 d by (auto simp: k_def min_def split: if_splits)
    have "win_drop 1 w = tl w @ [None]" using lw by (simp add: win_drop_def drop_Suc min_def)
    then have "take k (win_drop 1 w) = take k (tl w)" using k lw by simp
    moreover have "take ?K w = None # take k (tl w)" using w0 k(1) by (metis take_Suc_Cons)
    ultimately show ?thesis by simp
  qed
  have w2: "win_drop k (win_drop 1 w) = win_drop ?K w"
  proof (cases "k = ?W")
    case True
    then show ?thesis using win_drop_all [OF nf, of "k + 1"] win_drop_all [OF nf, of ?K] d
      by (simp add: win_drop_add k_def)
  next
    case False
    then have "k + 1 = ?K" using d by (auto simp: k_def min_def split: if_splits)
    then show ?thesis by (simp add: win_drop_add)
  qed
  show "tid_change t s s3 (pkts (take ?K w) @ pkts (take m (win_drop ?K w))) (?K + m) (win_drop m (win_drop ?K w))"
  proof (cases "k = ?W")
    case False
    then have kK: "1 + k = ?K" using d by (auto simp: k_def min_def split: if_splits)
    have "tid_change t s2 s3 (pkts (take m (win_drop ?K w))) m (win_drop m (win_drop ?K w))"
      using drain_change [OF f2(3,1,6)] f2(2) w2 m False iW by (simp add: s3)
    from tid_change_trans [OF c2' this] show ?thesis by (simp only: append_Nil add_0 o2 kK)
  next
    case True
    have e: "win_drop ?K w = replicate 8 None" using win_drop_all [OF nf, of ?K] True d lw by (simp add: k_def)
    then have m0: "m = 0" using run_len_none_from [of "replicate 8 None" 0] by (simp add: m none_from_all)
    have s3': "s3 = upd_tid t (\<lambda>db. db\<lparr>aTidExpectedSn := new\<rparr>) s2" using True iW by (simp add: s3)
    have n: "unat new = (unat (aTidExpectedSn (tid_db s2 t)) + (d - ?W - ?W)) mod 4096"
    proof -
      have "unat (aTidExpectedSn (tid_db s2 t)) = ((unat E + 1) mod 4096 + k) mod 4096" using f2(5) E1 by simp
      then have "(unat (aTidExpectedSn (tid_db s2 t)) + (d - ?W - ?W)) mod 4096 = ((unat E + 1) mod 4096 + (k + (d - ?W - ?W))) mod 4096"
        by (simp add: mod_add_left_eq add.assoc)
      also have "k + (d - ?W - ?W) = d - ?W" using True d by (auto simp: k_def min_def split: if_splits)
      also have "((unat E + 1) mod 4096 + (d - ?W)) mod 4096 = unat new"
        using sn_dist_add_back [of "aTidExpectedSn (tid_db s1 t)" new] newd E1 f1(6) new by simp
      finally show ?thesis by simp
    qed
    have "tid_change t s2 s3 [] (d - ?W - ?W) (window ((\<lambda>db. db\<lparr>aTidExpectedSn := new\<rparr>) (tid_db s2 t)))"
      unfolding s3' using f2 n by (intro tid_change_upd) simp_all
    from tid_change_trans [OF c2' this] have "tid_change t s s3 (pkts (take ?K w)) (1 + k + (d - ?W - ?W)) (win_drop ?K w)"
      unfolding db_sn_update(1) f2(2) w2 by (simp only: append_Nil append_Nil2 add_0 o2)
    moreover have "1 + k + (d - ?W - ?W) = ?K" using True d by (auto simp: k_def min_def split: if_splits)
    ultimately show ?thesis by (simp add: m0)
  qed
qed

lemma reorder_beyond:
  assumes nf: "none_from w W" and W: "1 \<le> W" "W \<le> d" "W \<le> length w"
    and w1: "w1 = win_drop (Suc d - W) w" and m: "m = run_len w1"
  shows "m \<le> W - 1" "none_from w1 (W - 1)"
    "reorder W d b w = (if m = W - 1
       then (pkts (take (Suc d - W) w) @ pkts (take m w1) @ [b], Suc d - W + m + 1, win_drop m w1)
       else (pkts (take (Suc d - W) w) @ pkts (take m w1), Suc d - W + m, (win_drop m w1)[W - 1 - m := Some b]))"
proof -
  show n1: "none_from w1 (W - 1)"
    using none_from_mono [OF none_from_win_drop [OF nf, of "Suc d - W"], of "W - 1"] W by (simp add: w1)
  then show mW: "m \<le> W - 1" unfolding m by (rule run_len_none_from)
  have l: "length w1 = length w" by (simp add: w1)
  have i: "d - (Suc d - W) = W - 1" using W by simp
  let ?w2 = "w1[W - 1 := Some b]"
  have nn: "w1 ! p \<noteq> None" if "p < m" for p using that nth_run [of p w1] by (simp add: m)
  show "reorder W d b w = (if m = W - 1
       then (pkts (take (Suc d - W) w) @ pkts (take m w1) @ [b], Suc d - W + m + 1, win_drop m w1)
       else (pkts (take (Suc d - W) w) @ pkts (take m w1), Suc d - W + m, (win_drop m w1)[W - 1 - m := Some b]))"
  proof (cases "m = W - 1")
    case True
    have r: "run_len ?w2 = Suc m"
    proof (rule run_len_eqI)
      show "?w2 ! p \<noteq> None" if "p < Suc m" for p
        using that nn [of p] True W l by (cases "p = m") (auto simp: nth_list_update)
      show "?w2 ! Suc m = None" if "Suc m < length ?w2"
        using that n1 True W l by (simp add: none_from_def)
    qed (use True W l in simp)
    have "take (Suc m) ?w2 = take m w1 @ [Some b]"
    proof -
      have m: "m < length ?w2" "W - 1 = m" using True W l by simp_all
      then show ?thesis unfolding m(2) take_Suc_conv_app_nth [OF m(1) [unfolded m(2)]] by simp
    qed
    moreover have "win_drop (Suc m) ?w2 = win_drop m w1"
    proof -
      have "none_from ?w2 W" using n1 l W(1) by (auto simp: none_from_def nth_list_update)
      then have "win_drop (Suc m) ?w2 = replicate (length w) None" using win_drop_all [of ?w2 W "Suc m"] True W l by simp
      moreover have "win_drop m w1 = replicate (length w) None" using win_drop_all [OF n1, of m] True l by simp
      ultimately show ?thesis by simp
    qed
    ultimately show ?thesis using True i r by (simp add: reorder_def Let_def w1 [symmetric])
  next
    case False
    then have lt: "m < W - 1" using mW by simp
    have r: "run_len ?w2 = m"
    proof (rule run_len_eqI)
      show "?w2 ! p \<noteq> None" if "p < m" for p using that nn [of p] lt by simp
      show "?w2 ! m = None" if "m < length ?w2"
        using that run_len_end [of w1] lt by (simp add: m)
    qed (use lt W l in simp)
    have "take m ?w2 = take m w1" using lt by simp
    moreover have "win_drop m ?w2 = (win_drop m w1)[W - 1 - m := Some b]"
      using lt W l by (intro win_drop_update) simp_all
    ultimately show ?thesis using False i r by (simp add: reorder_def Let_def w1 [symmetric])
  qed
qed

text \<open>
  Placing the new packet, once the window has been slid so that the packet is the last of \<open>V\<close> positions.
\<close>

lemma part3_place:
  assumes t: "t = unat tid" "t < length (tSa1ArrayMng s)" and E: "unat (aTidExpectedSn (tid_db s t)) < 4096"
    and V: "1 \<le> V" "V \<le> 8" "none_from (window (tid_db s t)) V" and sn: "unat sn < 4096"
    and d: "d = sn_dist (aTidExpectedSn (tid_db s t)) sn" "V \<le> d"
    and new: "new = (ucast ((ucast sn + SEQ_NUM_WRAP - aTidWinSize (tid_db s t) + 1) AND SEQ_NUM_MASK) :: u16)"
    and s1: "s1 = upd_tid t next_entry (stop_timer s)" and sl: "slide_loop RX_QUEUE_ARRAY_SIZE 0 new t s1 = (i, s2)"
    and s3: "s3 = (if i = aTidWinSize (tid_db s t) then upd_tid t (\<lambda>db. db\<lparr>aTidExpectedSn := new\<rparr>) s2
      else drain_loop RX_QUEUE_ARRAY_SIZE t s2)"
    and W2: "aTidWinSize (tid_db s2 t) = aTidWinSize (tid_db s t)"
    and w1: "w1 = win_drop (Suc d - V) (window (tid_db s t))" and m: "m = run_len w1"
    and c3: "tid_change t s s3 (pkts (take (Suc d - V) (window (tid_db s t))) @ pkts (take m w1)) (Suc d - V + m) (win_drop m w1)"
    and r: "reorder V d b (window (tid_db s t)) = (out, a, w')"
  shows "tid_change t s (rx_part3 s tid sn b) out a w'"
proof -
  let ?w = "window (tid_db s t)" and ?K = "Suc d - V"
  note f3 = tid_change_facts [OF c3 t(2)]
  have lw: "V \<le> length ?w" using V(2) by simp
  note rb = reorder_beyond [OF V(3,1) d(2) lw w1 m]
  have dist: "sn_dist (aTidExpectedSn (tid_db s3 t)) sn = V - 1 - m"
    using sn_dist_add [OF E sn f3(5)] rb(1) d V by simp
  define s4 where "s4 = (if aTidExpectedSn (tid_db s3 t) = sn then upd_tid t next_sn (RxQueue_PassPacket s3 TI_OK b)
     else (upd_tid t (\<lambda>db. db\<lparr>aPaketsQueue := (aPaketsQueue db)[save_index (tid_db s3 t) sn :=
        (aPaketsQueue db ! save_index (tid_db s3 t) sn)\<lparr>pPacket := Some b, tStatus := TI_OK\<rparr>]\<rparr>) s3)\<lparr>aPacketsStored := aPacketsStored s3 + 1\<rparr>)"
  have eqv: "aTidExpectedSn (tid_db s3 t) = sn \<longleftrightarrow> m = V - 1"
    using bigger_iff(2) [OF f3(6) sn] dist rb(1) by auto
  have c4: "tid_change t s s4 out a w'"
  proof (cases "m = V - 1")
    case True
    have p: "tid_change t s3 (RxQueue_PassPacket s3 TI_OK b) [b] 0 (window (tid_db s3 t))"
      using f3 by (intro tid_change_same) simp_all
    note fp = tid_change_facts [OF p f3(3)]
    have s4: "s4 = upd_tid t next_sn (RxQueue_PassPacket s3 TI_OK b)" using True eqv by (simp add: s4_def)
    have "tid_change t (RxQueue_PassPacket s3 TI_OK b) s4 [] 1 (window (next_sn (tid_db (RxQueue_PassPacket s3 TI_OK b) t)))"
      unfolding s4 using fp next_sn_unat [OF fp(6)]
      by (intro tid_change_upd) (simp_all, simp_all add: next_sn_def)
    from tid_change_trans [OF c3 tid_change_trans [OF p this]] show ?thesis
      using r rb(3) [of b] True f3(2) fp(2) by simp
  next
    case False
    let ?k = "V - 1 - m" and ?i = "save_index (tid_db s3 t) sn"
    let ?e = "(aPaketsQueue (tid_db s3 t) ! ?i)\<lparr>pPacket := Some b, tStatus := TI_OK\<rparr>"
    have i: "?i = (unat (aWinStartArrayInex (tid_db s3 t)) + ?k) mod 8"
      using save_index_eq [OF _ f3(6) sn] f3(1) dist by (simp add: db_ok_def)
    have "none_from (win_drop m w1) ?k" using none_from_win_drop [OF rb(2), of m] by simp
    then have n: "window (tid_db s3 t) ! ?k = None" using f3(2) V by (simp add: none_from_def w1 del: nth_window)
    have "s4 = (upd_tid t (\<lambda>db. db\<lparr>aPaketsQueue := (aPaketsQueue db)[?i := ?e]\<rparr>) s3)\<lparr>aPacketsStored := aPacketsStored s3 + 1\<rparr>"
      using False eqv by (simp add: s4_def upd_tid_def)
    then have "tid_change t s3 s4 [] 0 ((window (tid_db s3 t))[?k := Some b])"
      using store_change [OF f3(3,1,6) _ n i, of ?e b] V by simp
    from tid_change_trans [OF c3 this] show ?thesis using r rb(3) [of b] False f3(2) by simp
  qed
  note f4 = tid_change_facts [OF c4 t(2)]
  have "rx_part3 s tid sn b = restart_timer tid s4"
    unfolding rx_part3_def Let_def t(1) [symmetric] new [symmetric] s1 [symmetric] sl prod.case
      W2 s3 [symmetric] s4_def [symmetric] mask_sn_change [OF f4(3,1,6)] by (rule refl)
  with tid_change_cong [OF c4, of "rx_part3 s tid sn b" "[]"] show ?thesis by simp
qed

lemma part3_change:
  assumes t: "t = unat tid" "t < length (tSa1ArrayMng s)" and wf: "tid_wf (tid_db s t)" "aTidBaEstablished (tid_db s t)"
    and W: "W = unat (aTidWinSize (tid_db s t))" and sn: "unat sn < 4096"
    and d: "d = sn_dist (aTidExpectedSn (tid_db s t)) sn" "W \<le> d" "d < 0x7FF"
    and r: "reorder W d b (window (tid_db s t)) = (out, a, w')"
  shows "tid_change t s (rx_part3 s tid sn b) out a w'"
proof -
  note est = tid_wf_est [OF wf]
  let ?w = "window (tid_db s t)" and ?W = "aTidWinSize (tid_db s t)"
  define new where "new = (ucast ((ucast sn + SEQ_NUM_WRAP - ?W + 1) AND SEQ_NUM_MASK) :: u16)"
  define s1 where "s1 = upd_tid t next_entry (stop_timer s)"
  obtain i s2 where sl: "slide_loop RX_QUEUE_ARRAY_SIZE 0 new t s1 = (i, s2)"
    by (cases "slide_loop RX_QUEUE_ARRAY_SIZE 0 new t s1")
  define s3 where "s3 = (if i = ?W then upd_tid t (\<lambda>db. db\<lparr>aTidExpectedSn := new\<rparr>) s2 else drain_loop RX_QUEUE_ARRAY_SIZE t s2)"
  have nw: "unat new = (unat sn + 4097 - unat ?W) mod 4096" unfolding new_def using sn est(3,4) by (rule new_start_unat)
  note sl3 = part3_slide [OF t(2) wf refl refl sn d(1) d(2) [unfolded W] d(3) nw refl s1_def sl s3_def refl]
  show ?thesis
    by (rule part3_place [OF t est(2) est(3,4,6) [folded W] sn d(1,2) new_def s1_def sl s3_def sl3(1) refl refl
          sl3(2) [folded W] r])
qed

text \<open>
  Part 3 on the frame at the end of the window, which the code's test sends there when the window passes
  the wrap of the sequence numbers: the window is slid by one position all the same, so the frame is the
  last of a window that is one shorter.
\<close>

lemma part3_end_change:
  assumes t: "t = unat tid" "t < length (tSa1ArrayMng s)" and wf: "tid_wf (tid_db s t)" "aTidBaEstablished (tid_db s t)"
    and V: "Suc V = unat (aTidWinSize (tid_db s t))" "1 \<le> V" and sn: "unat sn < 4096"
    and d: "V = sn_dist (aTidExpectedSn (tid_db s t)) sn" and free: "window (tid_db s t) ! V = None"
    and r: "reorder V V b (window (tid_db s t)) = (out, a, w')"
  shows "tid_change t s (rx_part3 s tid sn b) out a w'"
proof -
  note est = tid_wf_est [OF wf]
  let ?w = "window (tid_db s t)" and ?W = "aTidWinSize (tid_db s t)" and ?E = "aTidExpectedSn (tid_db s t)"
  define new where "new = (ucast ((ucast sn + SEQ_NUM_WRAP - ?W + 1) AND SEQ_NUM_MASK) :: u16)"
  define s1 where "s1 = upd_tid t next_entry (stop_timer s)"
  have V8: "V \<le> 8" "V < 8" using V est(4) by simp_all
  have nf: "none_from ?w V"
    using est(6) free V(1) unfolding none_from_def by (metis le_antisym not_less_eq_eq)
  have "unat new = (unat sn + 4097 - unat ?W) mod 4096" unfolding new_def using sn est(3,4) by (rule new_start_unat)
  moreover have "unat sn = (unat ?E + V) mod 4096" using sn_dist_add_back [OF est(2) sn] d by simp
  moreover have "((unat ?E + V) mod 4096 + 4097 - unat ?W) mod 4096 = (unat ?E + V + (4096 - V)) mod 4096"
    unfolding V(1) [symmetric] using V8 mod_add_left_eq [of "unat ?E + V" 4096 "4096 - V"] by (simp add: add.commute)
  ultimately have new: "unat new = unat ?E" using est(2) V8 by simp
  have c0: "tid_change t s (stop_timer s) [] 0 ?w" using est by (intro tid_change_same) simp_all
  note f0 = tid_change_facts [OF c0 t(2)]
  have c1: "tid_change t (stop_timer s) s1 [] 1 (win_drop 1 ?w)"
    using next_entry_change [OF f0(3,1,6)] f0(2) est(5) by (simp add: s1_def del: nth_window)
  note c1' = tid_change_trans [OF c0 c1] and f1 = tid_change_facts [OF c1 f0(3)]
  have far: "sn_dist (aTidExpectedSn (tid_db s1 t)) new = 4095"
    using f1(5) f0(5) est(2) new by (intro sn_dist_of_add) (simp_all add: mod_Suc_eq mod_add_left_eq mod_if)
  have sl: "slide_loop RX_QUEUE_ARRAY_SIZE 0 new t s1 = (0, s1)"
    using slide_rounds [of s1 t new ?W 0 8 0] f1 f0(4) est(2,4) new far by (simp add: RX_QUEUE_ARRAY_SIZE_def)
  define s3 where "s3 = (if 0 = ?W then upd_tid t (\<lambda>db. db\<lparr>aTidExpectedSn := new\<rparr>) s1 else drain_loop RX_QUEUE_ARRAY_SIZE t s1)"
  have "?W \<noteq> 0" using V(1) by auto
  then have s3: "s3 = drain_loop RX_QUEUE_ARRAY_SIZE t s1" by (simp add: s3_def)
  note c3 = tid_change_trans [OF c1' drain_change [OF f1(3,1,6), folded s3, unfolded f1(2)]]
  have "?w = None # tl ?w" using est(5) by (metis window_Cons)
  then have "pkts (take 1 ?w) = []" by (metis One_nat_def pkts_simps(1,2) take0 take_Suc_Cons)
  with c3 have c3: "tid_change t s s3 (pkts (take (Suc V - V) ?w) @ pkts (take (run_len (win_drop (Suc V - V) ?w)) (win_drop (Suc V - V) ?w)))
      (Suc V - V + run_len (win_drop (Suc V - V) ?w)) (win_drop (run_len (win_drop (Suc V - V) ?w)) (win_drop (Suc V - V) ?w))"
    by simp
  have W2: "aTidWinSize (tid_db s1 t) = ?W" using f1(4) f0(4) by simp
  show ?thesis
    by (rule part3_place [OF t est(2) V(2) V8(1) nf sn d le_refl new_def s1_def sl s3_def W2 refl refl c3 r])
qed

subsection \<open>What the specification guarantees\<close>

lemma pkts_mset_win_drop: "mset (pkts (take k w)) + mset (pkts (win_drop k w)) = mset (pkts w)"
proof -
  have "mset (pkts w) = mset (pkts (take k w)) + mset (pkts (drop k w))"
    by (metis append_take_drop_id mset_append pkts_simps(4))
  then show ?thesis by (simp add: win_drop_def)
qed

lemma pkts_mset_update:
  assumes "k < length w" "w ! k = None"
  shows "mset (pkts (w[k := Some b])) = add_mset b (mset (pkts w))"
proof -
  have "pkts w = pkts (take k w) @ pkts (drop (Suc k) w)"
    by (subst id_take_nth_drop [OF assms(1)]) (simp add: assms(2))
  moreover have "pkts (w[k := Some b]) = pkts (take k w) @ b # pkts (drop (Suc k) w)"
    using assms by (simp add: upd_conv_take_nth_drop)
  ultimately show ?thesis by simp
qed

lemma pkts_sorted:
  assumes "\<And>p x. p < length w \<Longrightarrow> w ! p = Some x \<Longrightarrow> f x = p + c"
  shows "sorted_wrt (<) (map f (pkts w)) \<and> (\<forall>x\<in>set (pkts w). c \<le> f x \<and> f x < c + length w)"
  using assms
proof (induction w arbitrary: c)
  case Nil
  then show ?case by simp
next
  case (Cons y w)
  have IH: "sorted_wrt (<) (map f (pkts w)) \<and> (\<forall>x\<in>set (pkts w). Suc c \<le> f x \<and> f x < Suc c + length w)"
    using Cons.prems [of "Suc _"] by (intro Cons.IH) auto
  show ?case
  proof (cases y)
    case None
    then show ?thesis using IH by auto
  next
    case (Some x)
    then have "f x = c" using Cons.prems [of 0 x] by simp
    then show ?thesis using IH Some by auto
  qed
qed

text \<open>Where the new packet goes, and that this position is free.\<close>

lemma reorder_slot:
  assumes "none_from w W" "1 \<le> W" "W \<le> length w" "d < W \<Longrightarrow> w ! d = None"
  shows "d - (Suc d - W) < W" "d - (Suc d - W) < length w" "win_drop (Suc d - W) w ! (d - (Suc d - W)) = None"
    "Suc d - W + (d - (Suc d - W)) = d"
proof -
  show l: "d - (Suc d - W) < W" "d - (Suc d - W) < length w" "Suc d - W + (d - (Suc d - W)) = d"
    using assms(2,3) by auto
  show "win_drop (Suc d - W) w ! (d - (Suc d - W)) = None"
  proof (cases "d < W")
    case True
    then show ?thesis using assms(3,4) by simp
  next
    case False
    then show ?thesis using assms(1-3) l by (auto simp: nth_win_drop none_from_def)
  qed
qed

lemma reorder_spec:
  assumes w: "length w = 8" "none_from w W" "w ! 0 = None" and W: "1 \<le> W" "W \<le> 8"
    and f: "\<And>p x. p < 8 \<Longrightarrow> w ! p = Some x \<Longrightarrow> f x = p" "f b = d" and d: "d < W \<Longrightarrow> w ! d = None"
    and r: "reorder W d b w = (out, a, w')"
  shows "mset out + mset (pkts w') = add_mset b (mset (pkts w))"
    "sorted_wrt (<) (map f out)" "\<forall>x\<in>set out. f x < a" "w' ! 0 = None" "length w' = 8"
    "p < 8 \<Longrightarrow> w' ! p = Some x \<Longrightarrow> p < W \<and> f x = a + p"
proof -
  let ?K = "Suc d - W"
  let ?o = "d - ?K"
  note sl = reorder_slot [OF w(2) W(1) _ d, unfolded w(1), OF W(2)]
  define w2 where "w2 = (win_drop ?K w)[?o := Some b]"
  define q where "q = run_len w2"
  have out: "out = pkts (take ?K w) @ pkts (take q w2)" and a: "a = ?K + q" and w': "w' = win_drop q w2"
    using r by (auto simp: reorder_def Let_def w2_def q_def)
  have l2: "length w2 = 8" using w by (simp add: w2_def)
  have n2: "w2 ! p = (if p = ?o then Some b else if p + ?K < 8 then w ! (p + ?K) else None)" if "p < 8" for p
    using that sl(2) w(1) by (simp add: w2_def nth_list_update nth_win_drop)
  have f2: "f x = p + ?K" if "p < 8" "w2 ! p = Some x" for p x
    using that(2) f(1) [of "p + ?K" x] f(2) sl(4) unfolding n2 [OF that(1)]
    by (simp only: split: if_splits) simp_all
  have p2: "p < W" if "p < 8" "w2 ! p = Some x" for p x
  proof (cases "p = ?o")
    case True
    then show ?thesis using sl(1) by simp
  next
    case False
    then have "p + ?K < 8" "w ! (p + ?K) = Some x" using that n2 [OF that(1)] by (simp_all split: if_splits)
    then have "p + ?K < W" using w(1,2) unfolding none_from_def by (metis not_le option.distinct(1))
    then show ?thesis by simp
  qed
  have q8: "q \<le> 8" using run_len_le [of w2] l2 by (simp add: q_def)
  have m2: "mset (pkts w2) = add_mset b (mset (pkts (win_drop ?K w)))"
    unfolding w2_def using sl w(1) by (intro pkts_mset_update) simp_all
  show "mset out + mset (pkts w') = add_mset b (mset (pkts w))"
    using m2 pkts_mset_win_drop [of q w2] pkts_mset_win_drop [of ?K w] by (simp add: out w' union_assoc)
  have s1: "sorted_wrt (<) (map f (pkts (take ?K w))) \<and> (\<forall>x\<in>set (pkts (take ?K w)). 0 \<le> f x \<and> f x < 0 + length (take ?K w))"
    using f(1) w(1) by (intro pkts_sorted) simp_all
  have s2: "sorted_wrt (<) (map f (pkts (take q w2))) \<and> (\<forall>x\<in>set (pkts (take q w2)). ?K \<le> f x \<and> f x < ?K + length (take q w2))"
    using f2 l2 by (intro pkts_sorted) simp_all
  have b1: "f x < ?K" if "x \<in> set (pkts (take ?K w))" for x
    using s1 that by (metis add_0 length_take less_le_trans min.cobounded2)
  have b2: "?K \<le> f x \<and> f x < ?K + q" if "x \<in> set (pkts (take q w2))" for x
    using s2 that l2 q8 by (simp add: min_absorb2)
  show "sorted_wrt (<) (map f out)"
    using s1 s2 b1 b2 by (simp add: out sorted_wrt_append) (meson less_le_trans)
  show "\<forall>x\<in>set out. f x < a"
    by (auto simp: out a dest!: b1 b2)
  show "length w' = 8" by (simp add: w' l2)
  show "w' ! 0 = None"
    using run_len_end [of w2] l2 by (auto simp: w' nth_win_drop q_def)
  show "p < 8 \<Longrightarrow> w' ! p = Some x \<Longrightarrow> p < W \<and> f x = a + p"
    using f2 [of "p + q" x] p2 [of "p + q" x] l2 by (auto simp: w' nth_win_drop a split: if_splits)
qed

end
