(* ===== verification/Wlan_RxReorder.thy ===== *)
theory Wlan_RxReorder
  imports Wlan_RxQueue
begin

text \<open>
  The reorder buffer of \<open>TWD/Data_Service/RxQueue.c\<close>, continued: the invariant of the whole object, that
  the receive path implements the window specification, the other operations, and the properties. Any frame may be received; three
  kinds that the code accepts unchecked set a mark beside the state (\<open>rx_ok\<close>).
\<close>

section \<open>Well-formed states\<close>

definition stored_total :: "TRxQueue \<Rightarrow> nat" where
  "stored_total s = sum_list (map (\<lambda>db. length (pkts (window db))) (tSa1ArrayMng s))"

definition rx_wf :: "TRxQueue \<Rightarrow> bool" where [wf_defs]:
  "rx_wf s \<longleftrightarrow> length (tSa1ArrayMng s) = 8 \<and> (\<forall>db\<in>set (tSa1ArrayMng s). tid_wf db) \<and>
     aPacketsStored s = of_nat (stored_total s)"

lemma rx_wf_tid: "rx_wf s \<Longrightarrow> t < 8 \<Longrightarrow> tid_wf (tid_db s t) \<and> t < length (tSa1ArrayMng s)"
  by (simp add: rx_wf_def tid_db_def)

lemma rx_wf_update:
  assumes "rx_wf s" "t < 8" "tSa1ArrayMng s' = (tSa1ArrayMng s)[t := db']" "tid_wf db'"
    "aPacketsStored s' + of_nat (length (pkts (window (tid_db s t)))) = aPacketsStored s + of_nat (length (pkts (window db')))"
  shows "rx_wf s'"
proof -
  have "stored_total s' + length (pkts (window (tid_db s t))) = stored_total s + length (pkts (window db'))"
    unfolding stored_total_def assms(3) tid_db_def using assms(1,2) by (intro sum_list_update_nat) (simp add: rx_wf_def)
  then have "of_nat (stored_total s') + of_nat (length (pkts (window (tid_db s t)))) =
      (of_nat (stored_total s) + of_nat (length (pkts (window db'))) :: u16)"
    by (metis of_nat_add)
  moreover have "aPacketsStored s = of_nat (stored_total s)" using assms(1) by (simp add: rx_wf_def)
  ultimately have "aPacketsStored s' = of_nat (stored_total s')"
    using assms(5) by (metis add_right_cancel)
  moreover have "\<forall>db\<in>set (tSa1ArrayMng s'). tid_wf db"
    using assms(1,4) set_update_subset_insert [of "tSa1ArrayMng s" t db'] unfolding assms(3) rx_wf_def by blast
  ultimately show ?thesis using assms(1,3) by (simp add: rx_wf_def)
qed

lemma rx_wf_cong:
  assumes "rx_wf s" "tSa1ArrayMng s' = tSa1ArrayMng s" "aPacketsStored s' = aPacketsStored s"
  shows "rx_wf s'"
  using assms by (simp add: rx_wf_def stored_total_def)

lemma tid_change_wf:
  assumes "rx_wf s" "t < 8" "tid_change t s s' out a w" "tid_wf (tid_db s' t)"
  shows "rx_wf s'"
  using rx_wf_update [OF assms(1,2) tid_changeD(1) [OF assms(3)] assms(4)] tid_changeD(3,8) [OF assms(3)] by simp

text \<open>The frame that an established session puts into order.\<close>

definition rx_in_session :: "TRxQueue \<Rightarrow> rx_buf \<Rightarrow> bool" where
  "rx_in_session s b \<longleftrightarrow> unat (hdr_tid b) < 8 \<and> aTidBaEstablished (tid_db s (unat (hdr_tid b)))"

text \<open>How far ahead of the expected packet it is.\<close>

definition rx_ahead :: "TRxQueue \<Rightarrow> rx_buf \<Rightarrow> nat" where
  "rx_ahead s b = sn_dist (aTidExpectedSn (tid_db s (unat (hdr_tid b)))) (hdr_sn b)"

text \<open>
  The one input on which the code's window test is wrong: the frame at the end of the window when the
  window end passes the wrap of the sequence numbers (the sum in the test is not reduced to 12 bits). The code
  takes it for a frame beyond the window, so it gives up the expected packet: for this frame the window is
  one shorter than the session's.
\<close>

definition rx_wrap_end :: "TRxQueue \<Rightarrow> rx_buf \<Rightarrow> bool" where
  "rx_wrap_end s b \<longleftrightarrow> (let db = tid_db s (unat (hdr_tid b)) in
     Suc (rx_ahead s b) = unat (aTidWinSize db) \<and> 4096 < unat (aTidExpectedSn db) + unat (aTidWinSize db))"

definition rx_win :: "TRxQueue \<Rightarrow> rx_buf \<Rightarrow> nat" where
  "rx_win s b = (let W = unat (aTidWinSize (tid_db s (unat (hdr_tid b)))) in if rx_wrap_end s b then W - 1 else W)"

lemma rx_win_facts:
  assumes "rx_wf s" "rx_in_session s b" "db = tid_db s (unat (hdr_tid b))"
  shows "1 \<le> rx_win s b" "rx_win s b \<le> 8" "rx_win s b \<le> unat (aTidWinSize db)"
    "rx_ahead s b < unat (aTidWinSize db) \<Longrightarrow> rx_win s b \<le> rx_ahead s b \<Longrightarrow> rx_wrap_end s b"
    "rx_wrap_end s b \<Longrightarrow> rx_ahead s b = rx_win s b \<and> Suc (rx_win s b) = unat (aTidWinSize db)"
proof -
  have t: "unat (hdr_tid b) < 8" "aTidBaEstablished db" using assms(2,3) by (simp_all add: rx_in_session_def)
  have "tid_wf db" using rx_wf_tid [OF assms(1) t(1)] assms(3) by simp
  note est = tid_wf_est [OF this t(2)]
  show "1 \<le> rx_win s b" "rx_win s b \<le> 8" "rx_win s b \<le> unat (aTidWinSize db)"
    "rx_ahead s b < unat (aTidWinSize db) \<Longrightarrow> rx_win s b \<le> rx_ahead s b \<Longrightarrow> rx_wrap_end s b"
    "rx_wrap_end s b \<Longrightarrow> rx_ahead s b = rx_win s b \<and> Suc (rx_win s b) = unat (aTidWinSize db)"
    using est(2-4) by (auto simp: rx_win_def Let_def assms(3) rx_wrap_end_def split: if_splits)
qed

lemma rx_qos_cases:
  assumes "rx_wf s" "rx_in_session s b" "db = tid_db s (unat (hdr_tid b))"
  shows "rx_ahead s b = 0 \<Longrightarrow> rx_qos s b = rx_part1 s (hdr_tid b) b"
    "0x7FF \<le> rx_ahead s b \<Longrightarrow> rx_qos s b = RxQueue_PassPacket s TI_OK b"
    "0 < rx_ahead s b \<Longrightarrow> rx_ahead s b < rx_win s b \<Longrightarrow> rx_qos s b = rx_part2 s (hdr_tid b) (hdr_sn b) b"
    "rx_win s b \<le> rx_ahead s b \<Longrightarrow> rx_ahead s b < 0x7FF \<Longrightarrow> rx_qos s b = rx_part3 s (hdr_tid b) (hdr_sn b) b"
proof -
  have t: "unat (hdr_tid b) < 8" "aTidBaEstablished db" using assms(2,3) by (simp_all add: rx_in_session_def)
  have wf: "tid_wf db" using rx_wf_tid [OF assms(1) t(1)] assms(3) by simp
  note est = tid_wf_est [OF wf t(2)] and win = rx_win_facts [OF assms]
  have a: "rx_ahead s b = sn_dist (aTidExpectedSn db) (hdr_sn b)" by (simp add: rx_ahead_def assms(3))
  note b1 = bigger_iff [OF est(2) hdr_sn_less [of b]]
  have b2: "BA_SESSION_IS_A_BIGGER_THAN_B (ucast (hdr_sn b)) (ucast (aTidExpectedSn db) + aTidWinSize db - 1) \<longleftrightarrow>
      rx_win s b \<le> rx_ahead s b" if "rx_ahead s b < 0x7FF"
    using bigger_winEnd_iff [OF est(2) hdr_sn_less est(3,4), of b] that
    by (auto simp: rx_win_def rx_wrap_end_def Let_def assms(3) [symmetric] a)
  note q = rx_qos_def [of s b, unfolded Let_def assms(3) [symmetric]]
  show "rx_ahead s b = 0 \<Longrightarrow> rx_qos s b = rx_part1 s (hdr_tid b) b"
    using t b1 a by (simp add: q MAX_NUM_OF_802_1d_TAGS_def)
  show "0x7FF \<le> rx_ahead s b \<Longrightarrow> rx_qos s b = RxQueue_PassPacket s TI_OK b"
    using t b1 a by (simp add: q MAX_NUM_OF_802_1d_TAGS_def)
  show "0 < rx_ahead s b \<Longrightarrow> rx_ahead s b < rx_win s b \<Longrightarrow> rx_qos s b = rx_part2 s (hdr_tid b) (hdr_sn b) b"
    using t b1 b2 a win(2) by (simp add: q MAX_NUM_OF_802_1d_TAGS_def)
  show "rx_win s b \<le> rx_ahead s b \<Longrightarrow> rx_ahead s b < 0x7FF \<Longrightarrow> rx_qos s b = rx_part3 s (hdr_tid b) (hdr_sn b) b"
    using t b1 b2 a win(1) by (simp add: q MAX_NUM_OF_802_1d_TAGS_def)
qed

lemma rx_qos_change:
  assumes "rx_wf s" "rx_in_session s b" "t = unat (hdr_tid b)" "db = tid_db s t"
    "rx_ahead s b < 0x7FF" "0 < rx_ahead s b \<Longrightarrow> rx_ahead s b < unat (aTidWinSize db) \<Longrightarrow> window db ! rx_ahead s b = None"
    "reorder (rx_win s b) (rx_ahead s b) b (window db) = (out, a, w')"
  shows "tid_change t s (rx_qos s b) out a w'"
proof -
  have t: "t < 8" "aTidBaEstablished db" using assms(2,3,4) by (simp_all add: rx_in_session_def)
  note wf = rx_wf_tid [OF assms(1) t(1)]
  note est = tid_wf_est [OF conjunct1 [OF wf] t(2) [unfolded assms(4)], folded assms(4)]
  note cs = rx_qos_cases [OF assms(1,2), folded assms(3), OF assms(4)]
    and win = rx_win_facts [OF assms(1,2), folded assms(3), OF assms(4)]
  have d: "rx_ahead s b = sn_dist (aTidExpectedSn db) (hdr_sn b)" by (simp add: rx_ahead_def assms(3,4))
  consider "rx_ahead s b = 0" | "0 < rx_ahead s b" "rx_ahead s b < rx_win s b"
    | "rx_win s b \<le> rx_ahead s b" "rx_wrap_end s b" | "rx_win s b \<le> rx_ahead s b" "\<not> rx_wrap_end s b"
    by linarith
  then show ?thesis
  proof cases
    case 1
    with part1_change [OF assms(3), of s "rx_win s b" b out a w'] wf est win(1) cs(1) assms(4,7) show ?thesis by simp
  next
    case 2
    then have "rx_ahead s b < unat (aTidWinSize db)" using win(3) by simp
    with 2 part2_change [OF assms(3), of s "hdr_sn b" "rx_ahead s b" "rx_win s b" b out a w']
      wf est win(2) cs(3) assms(4,6,7) d hdr_sn_less [of b] show ?thesis by (simp del: nth_window)
  next
    case 3
    note e = win(5) [OF 3(2)]
    have q: "rx_qos s b = rx_part3 s (hdr_tid b) (hdr_sn b) b" using cs(4) 3(1) assms(5) by simp
    have r: "reorder (rx_win s b) (rx_win s b) b (window db) = (out, a, w')" using assms(7) e by simp
    have "window db ! rx_win s b = None" using assms(6) win(1) e by (simp del: nth_window)
    moreover have "rx_win s b = sn_dist (aTidExpectedSn db) (hdr_sn b)" using d e by simp
    moreover have "Suc (rx_win s b) = unat (aTidWinSize db)" using e by simp
    ultimately show ?thesis
      unfolding q assms(4) using r t(2) win(1) hdr_sn_less [of b] wf
      by (intro part3_end_change [OF assms(3), where V = "rx_win s b"]) (simp_all only: assms(4))
  next
    case 4
    then have "unat (aTidWinSize db) \<le> rx_ahead s b" "rx_win s b = unat (aTidWinSize db)"
      using win(4) by (auto simp: rx_win_def Let_def assms(3,4) intro: leI)
    with part3_change [OF assms(3) conjunct2 [OF wf] conjunct1 [OF wf], of "unat (aTidWinSize db)" "hdr_sn b" "rx_ahead s b" b out a w']
      cs(4) assms(4,5,7) d t(2) hdr_sn_less [of b] show ?thesis by simp
  qed
qed

lemma tid_wfI:
  assumes "db_ok db" "unat (aTidExpectedSn db) < 4096" "aTidBaEstablished db" "1 \<le> unat (aTidWinSize db)"
    "unat (aTidWinSize db) \<le> 8" "window db ! 0 = None"
    "\<And>k x. k < 8 \<Longrightarrow> window db ! k = Some x \<Longrightarrow> k < unat (aTidWinSize db) \<and> sn_dist (aTidExpectedSn db) (hdr_sn x) = k"
  shows "tid_wf db"
  using assms by (simp add: tid_wf_def del: nth_window)

lemma rx_reorder_facts:
  assumes "rx_wf s" "rx_in_session s b" "t = unat (hdr_tid b)" "db = tid_db s t"
    "rx_ahead s b < 0x7FF" "0 < rx_ahead s b \<Longrightarrow> rx_ahead s b < unat (aTidWinSize db) \<Longrightarrow> window db ! rx_ahead s b = None"
    "reorder (rx_win s b) (rx_ahead s b) b (window db) = (out, a, w')"
  shows "mset out + mset (pkts w') = add_mset b (mset (pkts (window db)))"
    "sorted_wrt (<) (map (\<lambda>x. sn_dist (aTidExpectedSn db) (hdr_sn x)) out)"
    "\<forall>x\<in>set out. sn_dist (aTidExpectedSn db) (hdr_sn x) < a"
    "rx_wf (rx_qos s b)"
proof -
  have t: "t < 8" "aTidBaEstablished db" using assms(2,3,4) by (simp_all add: rx_in_session_def)
  note wf = rx_wf_tid [OF assms(1) t(1)]
  note est = tid_wf_est [OF conjunct1 [OF wf] t(2) [unfolded assms(4)], folded assms(4)]
  note win = rx_win_facts [OF assms(1,2), folded assms(3), OF assms(4)]
  let ?f = "\<lambda>x. sn_dist (aTidExpectedSn db) (hdr_sn x)" and ?W = "rx_win s b"
  have d: "?f b = rx_ahead s b" by (simp add: rx_ahead_def assms(3,4))
  have free: "window db ! rx_ahead s b = None" if "rx_ahead s b < unat (aTidWinSize db)"
    using that assms(6) est(5) by (cases "rx_ahead s b = 0") (simp_all del: nth_window)
  have nf: "none_from (window db) ?W"
  proof (cases "rx_wrap_end s b")
    case True
    note e = win(5) [OF True]
    then have "window db ! ?W = None" using free by (simp del: nth_window)
    with est(6) e show ?thesis unfolding none_from_def by (metis le_antisym not_less_eq_eq)
  next
    case False
    then show ?thesis using est(6) by (simp add: rx_win_def Let_def assms(3,4))
  qed
  have free': "window db ! rx_ahead s b = None" if "rx_ahead s b < ?W" using that win(3) by (intro free) simp
  note sp = reorder_spec [OF length_window nf est(5) win(1,2), of ?f b, OF est(7) d free' assms(7)]
  show "mset out + mset (pkts w') = add_mset b (mset (pkts (window db)))" "sorted_wrt (<) (map ?f out)" "\<forall>x\<in>set out. ?f x < a"
    using sp(1,2,3) by simp_all
  note c = rx_qos_change [OF assms(1-7)]
  note f = tid_change_facts [OF c conjunct2 [OF wf], folded assms(4)]
  let ?db = "tid_db (rx_qos s b) t"
  have "tid_wf ?db"
  proof (rule tid_wfI)
    fix k x
    assume k: "k < 8" "window ?db ! k = Some x"
    then have "k < ?W \<and> ?f x = a + k" using sp(6) f(2) by (simp del: nth_window)
    then show "k < unat (aTidWinSize ?db) \<and> sn_dist (aTidExpectedSn ?db) (hdr_sn x) = k"
      using sn_dist_add [OF est(2) hdr_sn_less [of x] f(5)] f(4) win(3) by simp
  qed (use f est t sp(4) in \<open>simp_all del: nth_window\<close>)
  with tid_change_wf [OF assms(1) t(1) c] show "rx_wf (rx_qos s b)" by simp
qed

text \<open>A second copy of a stored packet is passed with the failure status, unless it is at the wrapped window end.\<close>

lemma rx_qos_dup:
  assumes "rx_wf s" "rx_in_session s b" "\<not> rx_wrap_end s b" "db = tid_db s (unat (hdr_tid b))"
    "0 < rx_ahead s b" "rx_ahead s b < unat (aTidWinSize db)" "window db ! rx_ahead s b \<noteq> None"
  shows "rx_qos s b = RxQueue_PassPacket s TI_NOK b"
proof -
  have t: "unat (hdr_tid b) < 8" "aTidBaEstablished db" using assms(2,4) by (simp_all add: rx_in_session_def)
  have wf: "tid_wf db" using rx_wf_tid [OF assms(1) t(1)] assms(4) by simp
  note est = tid_wf_est [OF wf t(2)]
  have "save_index db (hdr_sn b) = (unat (aWinStartArrayInex db) + rx_ahead s b) mod 8"
    using save_index_eq [of db "hdr_sn b"] est(1,2) hdr_sn_less [of b] by (simp add: db_ok_def rx_ahead_def assms(4))
  then have "pPacket (aPaketsQueue db ! save_index db (hdr_sn b)) \<noteq> None"
    using assms(6,7) est(4) by simp
  then have "rx_part2 s (hdr_tid b) (hdr_sn b) b = RxQueue_PassPacket s TI_NOK b"
    unfolding rx_part2_def Let_def assms(4) by (simp only: if_False)
  moreover have "rx_ahead s b < rx_win s b" using assms(3,6) by (simp add: rx_win_def Let_def assms(4))
  ultimately show ?thesis using rx_qos_cases(3) [OF assms(1,2,4,5)] by simp
qed

text \<open>The frame that the code cannot treat: a second copy of the packet stored at the wrapped window end.\<close>

definition rx_wrap_dup :: "TRxQueue \<Rightarrow> rx_buf \<Rightarrow> bool" where
  "rx_wrap_dup s b \<longleftrightarrow> rx_wrap_end s b \<and> window (tid_db s (unat (hdr_tid b))) ! rx_ahead s b \<noteq> None"

lemma rx_qos_wf:
  assumes "rx_wf s" "rx_in_session s b \<Longrightarrow> \<not> rx_wrap_dup s b"
  shows "rx_wf (rx_qos s b)"
proof (cases "rx_in_session s b")
  case False
  then have "\<exists>st. rx_qos s b = RxQueue_PassPacket s st b"
    by (auto simp: rx_qos_def Let_def rx_in_session_def MAX_NUM_OF_802_1d_TAGS_def)
  then show ?thesis using rx_wf_cong [OF assms(1)] by auto
next
  case True
  let ?db = "tid_db s (unat (hdr_tid b))"
  obtain out a w' where r: "reorder (rx_win s b) (rx_ahead s b) b (window ?db) = (out, a, w')"
    by (cases "reorder (rx_win s b) (rx_ahead s b) b (window ?db)")
  consider "0x7FF \<le> rx_ahead s b"
    | "rx_ahead s b < 0x7FF" "0 < rx_ahead s b \<Longrightarrow> rx_ahead s b < unat (aTidWinSize ?db) \<Longrightarrow> window ?db ! rx_ahead s b = None"
    | "0 < rx_ahead s b" "rx_ahead s b < unat (aTidWinSize ?db)" "window ?db ! rx_ahead s b \<noteq> None"
    by (meson not_le)
  then show ?thesis
  proof cases
    case 1
    then show ?thesis using rx_qos_cases(2) [OF assms(1) True refl] rx_wf_cong [OF assms(1)] by simp
  next
    case 2
    show ?thesis using rx_reorder_facts(4) [OF assms(1) True refl refl 2(1) _ r] 2(2) by simp
  next
    case 3
    with assms(2) [OF True] have "\<not> rx_wrap_end s b" by (simp add: rx_wrap_dup_def del: nth_window)
    with 3 show ?thesis using rx_qos_dup [OF assms(1) True _ refl] rx_wf_cong [OF assms(1)] by simp
  qed
qed

section \<open>Closing a session, and its other events\<close>

lemma rounds_index_change:
  assumes "db_ok (tid_db s t)" "t < length (tSa1ArrayMng s)" "unat (aTidExpectedSn (tid_db s t)) < 4096" "k \<le> 8"
  shows "tid_change t s (rounds next_index k t s) (pkts (take k (window (tid_db s t)))) 0 (win_drop k (window (tid_db s t)))"
proof -
  let ?db = "tid_db s t" and ?s = "rounds next_index k t s"
  note e = rounds_eq [OF adv_ok_cases(1) assms(1,2,4)]
  have d: "tid_db ?s t = round_db next_index k ?db" using assms(2) by (simp add: e) (simp add: tid_db_def)
  have c: "of_nat (length (pkts (window ?db))) =
      (of_nat (length (pkts (take k (window ?db)))) + of_nat (length (pkts (drop k (window ?db)))) :: u16)"
    by (metis of_nat_add pkts_take_drop)
  have "aTidExpectedSn (round_db next_index j db) = aTidExpectedSn db" for j db
    by (induction j arbitrary: db) (simp_all add: round_db_Suc)
  then show ?thesis
    unfolding tid_change_def d using round_db_window [OF adv_ok_cases(1) assms(1,4)] assms(3,4) c
    by (simp add: e win_drop_def min_def)
qed

text \<open>Closing passes everything that is stored, lowest sequence number first, and empties the window.\<close>

lemma CloseBaSession_change:
  assumes "rx_wf s" "t = unat tid" "t < 8" "aTidBaEstablished (tid_db s t)" "s' = RxQueue_CloseBaSession s tid"
  shows "deliveries (rx_log s') = deliveries (rx_log s) @ pkts (window (tid_db s t))"
    "window (tid_db s' t) = replicate 8 None" "\<not> aTidBaEstablished (tid_db s' t)" "rx_wf s'"
    "j \<noteq> t \<Longrightarrow> tid_db s' j = tid_db s j" "\<not> bPacketMiss s'"
proof -
  let ?db = "tid_db s t" and ?f = "aTidBaEstablished_update (\<lambda>_. False)"
  note wf = rx_wf_tid [OF assms(1,3)]
  note est = tid_wf_est [OF conjunct1 [OF wf] assms(4)]
  define s1 where "s1 = upd_tid t ?f s"
  have d1: "tid_db s1 t = ?f ?db" "window (tid_db s1 t) = window ?db" "db_ok (tid_db s1 t)"
    "aTidExpectedSn (tid_db s1 t) = aTidExpectedSn ?db" "t < length (tSa1ArrayMng s1)"
    using wf est(1) by (simp_all add: s1_def window_def db_ok_def)
  have c: "tid_change t s1 (close_loop 8 t s1) (pkts (take 8 (window ?db))) 0 (win_drop 8 (window ?db))"
    using rounds_index_change [OF d1(3,5), of 8] d1(2,4) est(2) by (simp add: close_eq)
  have w8: "win_drop 8 (window ?db) = replicate 8 None" by (simp add: win_drop_def)
  note f = tid_change_facts [OF c d1(5)]
  have s': "s' = stop_timer (close_loop 8 t s1)"
    using assms(3,4) by (simp add: assms(5) RxQueue_CloseBaSession_def Let_def assms(2) [symmetric] s1_def
        MAX_NUM_OF_802_1d_TAGS_def RX_QUEUE_ARRAY_SIZE_def)
  have db': "tid_db s' j = tid_db (close_loop 8 t s1) j" for j by (simp add: s' tid_db_def)
  show "window (tid_db s' t) = replicate 8 None" using f(2) w8 by (simp add: db')
  show "\<not> aTidBaEstablished (tid_db s' t)" using f(7) d1(1) by (simp add: db')
  show "deliveries (rx_log s') = deliveries (rx_log s) @ pkts (window ?db)"
    using tid_changeD(2) [OF c] by (simp add: s' s1_def)
  show "j \<noteq> t \<Longrightarrow> tid_db s' j = tid_db s j" using f(8) by (simp add: db' s1_def)
  show "\<not> bPacketMiss s'" by (simp add: s' stop_timer_def)
  have "tid_wf (tid_db s' t)"
    using f d1 w8 by (simp add: tid_wf_def db')
  moreover have "tSa1ArrayMng s' = (tSa1ArrayMng s)[t := tid_db s' t]"
    using tid_changeD(1) [OF c] by (simp add: s' s1_def upd_tid_def tid_db_def)
  moreover have "aPacketsStored s' + of_nat (length (pkts (window ?db))) = aPacketsStored s + of_nat (length (pkts (window (tid_db s' t))))"
    using tid_changeD(8) [OF c] d1(2) f(2) by (simp add: s' s1_def) (simp add: tid_db_def)
  ultimately show "rx_wf s'" by (intro rx_wf_update [OF assms(1,3)])
qed

subsection \<open>Block-ack requests\<close>

lemma bar_loop_full:
  assumes "8 \<le> unat delta" "unat i + n = 8"
  shows "bar_loop n i delta t s = rounds next_index n t s"
  using assms(2)
proof (induction n arbitrary: i s)
  case 0
  then show ?case by simp
next
  case (Suc n)
  have "i < ucast delta" using Suc.prems assms(1) by (simp add: word_less_nat_alt)
  moreover have "unat (i + 1) + n = 8" using Suc.prems by (simp add: unat_word_ariths)
  ultimately show ?case using Suc.IH by simp
qed

lemma bar_loop_part:
  assumes "db_ok (tid_db s t)" "t < length (tSa1ArrayMng s)" "unat i + n = 8" "unat i \<le> unat delta" "unat delta < 8"
    "window (tid_db s t) ! (unat delta - unat i) = None"
  shows "bar_loop n i delta t s = rounds next_index (unat delta - unat i) t s"
  using assms
proof (induction n arbitrary: i s)
  case 0
  then show ?case by simp
next
  case (Suc n)
  let ?s = "upd_tid t next_index (pass_head t s)"
  show ?case
  proof (cases "unat i = unat delta")
    case True
    then show ?thesis using Suc.prems(1,6) head_window [OF Suc.prems(1)] by (simp add: word_less_nat_alt del: nth_window)
  next
    case False
    note st = round_step_window [OF adv_ok_cases(1) Suc.prems(1)]
    have d: "tid_db ?s t = next_index (clear_head (tid_db s t))" "length (tSa1ArrayMng ?s) = length (tSa1ArrayMng s)"
      using Suc.prems(2) pass_head_eq [OF Suc.prems(1,2)] by (simp_all add: upd_tid_def tid_db_def del: nth_window)
    have i: "unat (i + 1) = Suc (unat i)" using Suc.prems(3) by (simp add: unat_word_ariths)
    have lt: "unat i < unat delta" using Suc.prems(4) False by simp
    have "window (tid_db ?s t) ! (unat delta - unat (i + 1)) = window (tid_db s t) ! (unat delta - unat i)"
    proof -
      have "unat delta - Suc (unat i) < 7" using lt Suc.prems(5) by simp
      then show ?thesis unfolding d st(1) i using lt by (simp add: nth_append nth_tl Suc_diff_Suc del: nth_window)
    qed
    with Suc.prems d st(2) i lt have "bar_loop n (i + 1) delta t ?s = rounds next_index (unat delta - unat (i + 1)) t ?s"
      by (intro Suc.IH) (simp_all del: nth_window)
    moreover have "unat delta - unat i = Suc (unat delta - unat (i + 1))" using lt i by simp
    ultimately show ?thesis using lt by (simp add: word_less_nat_alt)
  qed
qed

text \<open>
  A block-ack request is safe when its starting number is not followed by stored packets (the code
  passes these, but does not count them into the expected number), or when it makes the loop flush everything.
\<close>

definition rx_bar_ok :: "TRxQueueTidDataBase \<Rightarrow> u16 \<Rightarrow> bool" where
  "rx_bar_ok db start \<longleftrightarrow> 8 \<le> unat (start - aTidExpectedSn db) \<or> window db ! unat (start - aTidExpectedSn db) = None"

lemma sn16_less: "unat (drop_bit 4 (x AND 0xFFF0) :: u16) < 4096"
proof -
  have "unat (drop_bit 4 (x AND 0xFFF0)) = unat (x AND 0xFFF0) div 16"
    unfolding unat_drop_bit_eq by (simp add: drop_bit_eq_div)
  moreover have "unat (x AND 0xFFF0) < 65536" using unsigned_less [of "x AND 0xFFF0"] by simp
  ultimately show ?thesis by simp
qed

lemma bar_wf:
  assumes "rx_wf s" "t < 8" "aTidBaEstablished (tid_db s t)" "rx_bar_ok (tid_db s t) start" "unat start < 4096"
    "BA_SESSION_IS_A_BIGGER_THAN_B (ucast start) (ucast (aTidExpectedSn (tid_db s t)))"
    "s1 = bar_loop RX_QUEUE_ARRAY_SIZE 0 (start - aTidExpectedSn (tid_db s t)) t (stop_timer s)"
  shows "rx_wf (upd_tid t (\<lambda>db. db\<lparr>aTidExpectedSn := start\<rparr>) s1)"
proof -
  let ?db = "tid_db s t" and ?delta = "start - aTidExpectedSn (tid_db s t)"
  note wf = rx_wf_tid [OF assms(1,2)]
  note est = tid_wf_est [OF conjunct1 [OF wf] assms(3)]
  define n where "n = (if 8 \<le> unat ?delta then 8 else unat ?delta)"
  have st: "tid_db (stop_timer s) t = ?db" by (simp add: tid_db_def)
  have s1: "s1 = rounds next_index n t (stop_timer s)"
    using bar_loop_full [of ?delta 0 8] bar_loop_part [of "stop_timer s" t 0 8 ?delta] assms(4) wf est(1) st
    by (auto simp: assms(7) n_def rx_bar_ok_def RX_QUEUE_ARRAY_SIZE_def simp del: nth_window)
  have c: "tid_change t (stop_timer s) s1 (pkts (take n (window ?db))) 0 (win_drop n (window ?db))"
    using rounds_index_change [of "stop_timer s" t n] wf est(1,2) st by (simp add: s1 n_def)
  note f = tid_change_facts [OF c, unfolded st, simplified, OF conjunct2 [OF wf]]
  let ?s2 = "upd_tid t (\<lambda>db. db\<lparr>aTidExpectedSn := start\<rparr>) s1"
  let ?db2 = "(tid_db s1 t)\<lparr>aTidExpectedSn := start\<rparr>"
  have "tid_wf ?db2"
  proof (rule tid_wfI)
    have "win_drop n (window ?db) ! 0 = None" using assms(4) by (auto simp: nth_win_drop n_def rx_bar_ok_def simp del: nth_window)
    then show "window ?db2 ! 0 = None" using f(2) by (simp del: nth_window)
    fix k x
    assume k: "k < 8" "window ?db2 ! k = Some x"
    then have nk: "n + k < 8" "window ?db ! (n + k) = Some x" "n = unat ?delta"
      using f(2) by (auto simp: nth_win_drop n_def add.commute simp del: nth_window split: if_splits)
    then have x: "sn_dist (aTidExpectedSn ?db) (hdr_sn x) = n + k" "n + k < unat (aTidWinSize ?db)"
      using conjunct1 [OF wf] assms(3) by (auto simp: tid_wf_def simp del: nth_window)
    have "aTidExpectedSn ?db \<le> start"
    proof (rule ccontr)
      assume "\<not> aTidExpectedSn ?db \<le> start"
      then have "unat ?delta = unat start + 65536 - unat (aTidExpectedSn ?db)"
        by (simp add: unat_sub_if' word_le_nat_alt)
      with nk est(2) show False by simp
    qed
    then have "unat start = (unat (aTidExpectedSn ?db) + n) mod 4096"
      using nk(3) assms(5) by (simp add: unat_le_diff word_le_nat_alt)
    then have "sn_dist start (hdr_sn x) = k"
      using sn_dist_add [OF est(2) hdr_sn_less, of start n x] x by simp
    then show "k < unat (aTidWinSize ?db2) \<and> sn_dist (aTidExpectedSn ?db2) (hdr_sn x) = k"
      using x f(4) by simp
  qed (use f est assms(3,5) in simp_all)
  moreover have "tSa1ArrayMng ?s2 = (tSa1ArrayMng s)[t := ?db2]"
    using tid_changeD(1) [OF c] by (simp add: upd_tid_def)
  moreover have "aPacketsStored ?s2 + of_nat (length (pkts (window ?db))) = aPacketsStored s + of_nat (length (pkts (window ?db2)))"
    using tid_changeD(8) [OF c] f(2) st by simp
  ultimately show ?thesis by (intro rx_wf_update [OF assms(1,2)])
qed

text \<open>The assumptions on one received buffer under which the invariant is kept.\<close>

definition rx_bar_frame_ok :: "TRxQueue \<Rightarrow> rx_buf \<Rightarrow> bool" where
  "rx_bar_frame_ok s b \<longleftrightarrow>
     (let t = unat (ucast (drop_bit 12 (frame_word b 16 AND 0xF000)) :: u8) in
        t < 8 \<longrightarrow> aTidBaEstablished (tid_db s t) \<longrightarrow> rx_bar_ok (tid_db s t) (drop_bit 4 (frame_word b 18 AND 0xFFF0)))"

definition rx_addba_ok :: "rx_buf \<Rightarrow> bool" where
  "rx_addba_ok b \<longleftrightarrow> frame_word b 27 AND 0xFFC0 \<noteq> 0"

definition rx_ok :: "TRxQueue \<Rightarrow> rx_buf \<Rightarrow> bool" where
  "rx_ok s b \<longleftrightarrow>
     (let b = fix_tag b; tag = packet_class_tag b; sub = hdr_fc b AND 0x00F0 in
      ((tag = TAG_CLASS_QOS_DATA \<or> tag = TAG_CLASS_AMSDU) \<and> rx_in_session s b \<longrightarrow> \<not> rx_wrap_dup s b) \<and>
      (tag = TAG_CLASS_BA_EVENT \<and> sub = 0x0080 \<longrightarrow> rx_bar_frame_ok s b) \<and>
      (tag = TAG_CLASS_BA_EVENT \<and> sub = 0x00D0 \<and> frame b 25 = 0 \<longrightarrow> rx_addba_ok b))"

lemma rx_bar_wf:
  assumes "rx_wf s" "rx_bar_frame_ok s b"
  shows "rx_wf (rx_bar s b)"
proof -
  let ?tid = "ucast (drop_bit 12 (frame_word b 16 AND 0xF000)) :: u8" and ?start = "drop_bit 4 (frame_word b 18 AND 0xFFF0)"
  let ?t = "unat ?tid"
  have p: "rx_wf (RxQueue_PassPacket s st b)" for st using rx_wf_cong [OF assms(1)] by simp
  show ?thesis
  proof (cases "?t < 8 \<and> aTidBaEstablished (tid_db s ?t) \<and>
      BA_SESSION_IS_A_BIGGER_THAN_B (ucast ?start) (ucast (aTidExpectedSn (tid_db s ?t)))")
    case False
    then show ?thesis using p by (auto simp: rx_bar_def Let_def MAX_NUM_OF_802_1d_TAGS_def)
  next
    case True
    let ?s1 = "bar_loop RX_QUEUE_ARRAY_SIZE 0 (?start - aTidExpectedSn (tid_db s ?t)) ?t (stop_timer s)"
    have "rx_bar s b = RxQueue_PassPacket (upd_tid ?t (\<lambda>db. db\<lparr>aTidExpectedSn := ?start\<rparr>) (restart_timer ?tid ?s1)) TI_OK b"
      using True by (simp add: rx_bar_def Let_def MAX_NUM_OF_802_1d_TAGS_def)
    moreover have "rx_wf (upd_tid ?t (\<lambda>db. db\<lparr>aTidExpectedSn := ?start\<rparr>) ?s1)"
      using True assms sn16_less [of "frame_word b 18"] by (intro bar_wf [where s = s]) (auto simp: rx_bar_frame_ok_def Let_def)
    then have "rx_wf (RxQueue_PassPacket (upd_tid ?t (\<lambda>db. db\<lparr>aTidExpectedSn := ?start\<rparr>) (restart_timer ?tid ?s1)) TI_OK b)"
      by (rule rx_wf_cong) (simp_all add: upd_tid_def tid_db_def)
    ultimately show ?thesis by simp
  qed
qed

lemma rx_addba_wf:
  assumes "rx_wf s" "rx_addba_ok b"
  shows "rx_wf (rx_addba s b)"
proof -
  let ?p = "frame_word b 27"
  let ?t = "unat (ucast (drop_bit 2 (?p AND 0x003C)) :: u8)"
  let ?win = "ucast (drop_bit 6 (?p AND 0xFFC0)) :: u32"
  let ?w = "if ?win > RX_QUEUE_WIN_SIZE then RX_QUEUE_WIN_SIZE else ?win"
  let ?db = "(tid_db s ?t)\<lparr>aTidWinSize := ?w, aTidBaEstablished := True,
      aTidExpectedSn := drop_bit 4 (frame_word b 31 AND 0xFFF0), aWinStartArrayInex := 0,
      aPaketsQueue := replicate RX_QUEUE_ARRAY_SIZE zero_entry\<rparr>"
  have p: "rx_wf (RxQueue_PassPacket s st b)" for st using rx_wf_cong [OF assms(1)] by simp
  show ?thesis
  proof (cases "?t < 8 \<and> \<not> aTidBaEstablished (tid_db s ?t)")
    case False
    then show ?thesis using p by (auto simp: rx_addba_def Let_def MAX_NUM_OF_802_1d_TAGS_def)
  next
    case True
    have w: "window ?db = replicate 8 None"
      by (auto intro!: nth_equalityI simp: window_def zero_entry_def RX_QUEUE_ARRAY_SIZE_def)
    have "?p AND 0xFFC0 \<noteq> 0" using assms(2) by (simp add: rx_addba_ok_def)
    moreover have "drop_bit 6 (?p AND 0xFFC0) = 0 \<Longrightarrow> ?p AND 0xFFC0 = 0"
    proof -
      assume z: "drop_bit 6 (?p AND 0xFFC0) = 0"
      have m: "(0xFFC0 :: u16) = NOT (mask 6)" by (simp add: mask_eq_exp_minus_1)
      have "\<not> bit (?p AND 0xFFC0) n" for n
      proof (cases "n < 6")
        case True
        then show ?thesis unfolding m by (simp add: bit_simps)
      next
        case False
        then obtain j where "n = 6 + j" using le_Suc_ex not_less by blast
        moreover have "\<not> bit (drop_bit 6 (?p AND 0xFFC0)) j" unfolding z by simp
        ultimately show ?thesis by (simp only: bit_drop_bit_eq comp_apply not_False_eq_True)
      qed
      then show ?thesis by (intro bit_eqI) simp
    qed
    ultimately have "?win \<noteq> 0" by (auto simp: word_unat_eq_iff)
    then have W: "1 \<le> unat ?w" "unat ?w \<le> 8"
      by (auto simp: RX_QUEUE_WIN_SIZE_def word_less_nat_alt word_unat_eq_iff)
    have "tid_wf ?db"
    proof (rule tid_wfI)
      fix k x
      assume "k < 8" "window ?db ! k = Some x"
      then show "k < unat (aTidWinSize ?db) \<and> sn_dist (aTidExpectedSn ?db) (hdr_sn x) = k" unfolding w by simp
    next
      show "window ?db ! 0 = None" unfolding w by simp
    qed (use W sn16_less in \<open>simp_all add: db_ok_def zero_entry_def RX_QUEUE_ARRAY_SIZE_def\<close>)
    moreover have "window (tid_db s ?t) = replicate 8 None"
      using rx_wf_tid [OF assms(1), of ?t] True by (simp add: tid_wf_def)
    ultimately have "rx_wf (upd_tid ?t (\<lambda>db. ?db) s)"
      using True w by (intro rx_wf_update [OF assms(1), of ?t _ ?db]) (simp_all add: upd_tid_def)
    moreover have "rx_addba s b = RxQueue_PassPacket (upd_tid ?t (\<lambda>db. ?db) s) TI_OK b"
      using True by (simp add: rx_addba_def Let_def MAX_NUM_OF_802_1d_TAGS_def upd_tid_def)
    ultimately show ?thesis using rx_wf_cong by simp
  qed
qed

lemma CloseBaSession_wf: "rx_wf s \<Longrightarrow> rx_wf (RxQueue_CloseBaSession s tid)"
  using CloseBaSession_change(4) [of s "unat tid" tid]
  by (cases "unat tid < 8 \<and> aTidBaEstablished (tid_db s (unat tid))")
    (auto simp: RxQueue_CloseBaSession_def Let_def MAX_NUM_OF_802_1d_TAGS_def)

lemma ReceivePacket_wf:
  assumes "rx_wf s" "rx_ok s b"
  shows "rx_wf (RxQueue_ReceivePacket s b)"
proof -
  let ?b = "fix_tag b"
  have p: "rx_wf (RxQueue_PassPacket s' st b')" if "rx_wf s'" for s' st b' using rx_wf_cong [OF that] by simp
  have q: "rx_wf (rx_qos s ?b)" if "packet_class_tag ?b = TAG_CLASS_QOS_DATA \<or> packet_class_tag ?b = TAG_CLASS_AMSDU"
    using that assms by (intro rx_qos_wf) (auto simp: rx_ok_def Let_def)
  have "rx_wf (rx_delba s ?b)" using p assms(1) CloseBaSession_wf by (auto simp: rx_delba_def Let_def)
  then have e: "rx_wf (rx_ba_event s ?b)" if "packet_class_tag ?b = TAG_CLASS_BA_EVENT"
    using that rx_bar_wf [OF assms(1), of ?b] rx_addba_wf [OF assms(1), of ?b] p assms
    by (auto simp: rx_ba_event_def rx_ok_def Let_def)
  show ?thesis using p q e assms(1) by (auto simp: RxQueue_ReceivePacket_def Let_def)
qed

section \<open>The timeout\<close>

lemma next_entry_id: "next_sn (next_index db) = next_entry db"
  by (simp add: next_entry_def)

lemma find_stored_some:
  assumes "db_ok db" "j < 8" "\<And>p. p < j \<Longrightarrow> window db ! p = None" "window db ! j \<noteq> None"
  shows "find_stored db = Some (round_db next_entry j db)"
  using assms
proof (induction j arbitrary: db)
  case 0
  then show ?case using head_window [OF 0(1)] by (subst find_stored.simps) (auto simp del: nth_window)
next
  case (Suc j)
  let ?db = "next_entry db"
  have h: "pPacket (head_entry db) = None" using head_window [OF Suc.prems(1)] Suc.prems(3) [of 0] by (simp del: nth_window)
  have w0: "window db ! 0 = None" using Suc.prems(3) [of 0] by simp
  have w: "window ?db = tl (window db) @ [None]" "db_ok ?db"
    using window_next_index [OF Suc.prems(1)] w0 by (simp_all add: next_entry_def del: nth_window)
  have n: "window ?db ! p = window db ! Suc p" if "p < 7" for p
    unfolding w(1) using that by (simp add: nth_append nth_tl del: nth_window)
  have "find_stored ?db = Some (round_db next_entry j ?db)"
    using Suc.prems w(2) n by (intro Suc.IH) (simp_all del: nth_window)
  moreover have "round_db next_entry (Suc j) db = round_db next_entry j ?db"
    by (simp add: round_db_Suc clear_head_id [OF h])
  ultimately show ?case using h by (subst find_stored.simps) (simp add: next_entry_id)
qed

text \<open>On an empty array the search never returns.\<close>

lemma find_stored_none:
  assumes "db_ok db" "window db = replicate 8 None"
  shows "find_stored db = None"
proof -
  have "\<not> (db_ok d \<and> window d = replicate 8 None)" if "find_stored d = Some e" for d e
  proof (rule find_stored.raw_induct [where P = "\<lambda>d e. \<not> (db_ok d \<and> window d = replicate 8 None)", OF _ that])
    fix f d e
    assume IH: "\<And>d e. f d = Some e \<Longrightarrow> \<not> (db_ok d \<and> window d = replicate 8 None)"
      and step: "(if pPacket (head_entry d) = None then f (next_sn (next_index d)) else Some d) = Some e"
    show "\<not> (db_ok d \<and> window d = replicate 8 None)"
    proof
      assume w: "db_ok d \<and> window d = replicate 8 None"
      then have h: "pPacket (head_entry d) = None" using head_window [of d] by (simp del: nth_window)
      then have "f (next_sn (next_index d)) = Some e" using step by simp
      from IH [OF this] have "\<not> (db_ok (next_index d) \<and> window (next_index d) = replicate 8 None)" by simp
      moreover have "tl (replicate 8 None) @ [None] = replicate 8 (None :: rx_buf option)"
        by (simp add: numeral_eq_Suc)
      ultimately show False using w window_next_index [of d] by (simp del: nth_window)
    qed
  qed
  with assms show ?thesis by (cases "find_stored db") auto
qed

lemma timeout_drain_eq:
  assumes "db_ok (tid_db s t)" "t < length (tSa1ArrayMng s)" "length (pkts (window (tid_db s t))) \<le> unat (aPacketsStored s)"
  shows "timeout_drain n t s = drain_loop n t s"
  using assms
proof (induction n arbitrary: s)
  case 0
  then show ?case by simp
next
  case (Suc n)
  let ?w = "window (tid_db s t)" and ?s = "upd_tid t next_entry (pass_head t s)"
  have h: "pPacket (head_entry (tid_db s t)) = ?w ! 0" using Suc.prems(1) by (rule head_window)
  show ?case
  proof (cases "?w ! 0")
    case None
    then show ?thesis using h by (simp del: nth_window)
  next
    case (Some b)
    then have p: "pkts ?w = b # pkts (tl ?w)" by (metis pkts_simps(3) window_Cons)
    then have st: "aPacketsStored s \<noteq> 0" using Suc.prems(3) by auto
    note rs = round_step_window [OF adv_ok_cases(2) Suc.prems(1)]
    have d: "tid_db ?s t = next_entry (clear_head (tid_db s t))" "length (tSa1ArrayMng ?s) = length (tSa1ArrayMng s)"
      "aPacketsStored ?s = aPacketsStored s - 1"
      using Suc.prems(2) pass_head_eq [OF Suc.prems(1,2)] Some by (simp_all add: upd_tid_def tid_db_def del: nth_window)
    have "length (pkts (window (tid_db ?s t))) \<le> unat (aPacketsStored ?s)"
      using Suc.prems(3) p st unfolding d(1,3) rs(1) by simp
    with Suc.IH [of ?s] Suc.prems(2) rs(2) d have "timeout_drain n t ?s = drain_loop n t ?s" by simp
    then show ?thesis using h Some st by (simp add: word_neq_0_conv del: nth_window)
  qed
qed

lemma stored_le:
  assumes "rx_wf s" "t < 8"
  shows "length (pkts (window (tid_db s t))) \<le> unat (aPacketsStored s)" "unat (aPacketsStored s) = stored_total s"
proof -
  have l: "length (pkts (window db)) \<le> 8" for db
    by (metis length_window length_filter_le length_map List.map_filter_def pkts_def)
  have "stored_total s \<le> sum_list (map (\<lambda>_. 8) (tSa1ArrayMng s))"
    unfolding stored_total_def using l by (intro sum_list_mono) blast
  then have "stored_total s \<le> 64" using assms(1) by (simp add: rx_wf_def sum_list_triv)
  then show u: "unat (aPacketsStored s) = stored_total s"
    using assms(1) by (simp add: rx_wf_def unat_of_nat)
  have "length (pkts (window (tid_db s t))) \<le> stored_total s"
    using elem_le_sum_list [of t "map (\<lambda>db. length (pkts (window db))) (tSa1ArrayMng s)"] assms
    by (simp add: stored_total_def rx_wf_def tid_db_def)
  then show "length (pkts (window (tid_db s t))) \<le> unat (aPacketsStored s)" using u by simp
qed

definition first_stored :: "rx_buf option list \<Rightarrow> nat" where
  "first_stored w = length (takeWhile (\<lambda>x. x = None) w)"

lemma first_stored_spec:
  assumes "\<not> none_from w 0"
  shows "first_stored w < length w" "\<And>p. p < first_stored w \<Longrightarrow> w ! p = None" "w ! first_stored w \<noteq> None"
    "pkts (take (first_stored w) w) = []"
proof -
  obtain p where "p < length w" "w ! p \<noteq> None" using assms by (auto simp: none_from_def)
  then show l: "first_stored w < length w" unfolding first_stored_def
    by (metis (mono_tags, lifting) length_takeWhile_le le_neq_implies_less nth_mem set_takeWhileD takeWhile_eq_all_conv takeWhile_eq_take take_all)
  show n: "w ! p = None" if "p < first_stored w" for p
    using that unfolding first_stored_def by (metis (mono_tags, lifting) nth_mem set_takeWhileD takeWhile_nth)
  show "w ! first_stored w \<noteq> None" using l unfolding first_stored_def by (metis (mono_tags, lifting) nth_length_takeWhile)
  have "none_from (take (first_stored w) w) 0" using n by (simp add: none_from_def)
  then show "pkts (take (first_stored w) w) = []" by (rule pkts_none)
qed

text \<open>
  The timeout returns exactly when the TID it was armed for has a stored packet, or nothing is stored at
  all; then it skips the missing packets and passes the first run.
\<close>

lemma PacketTimeOut_result:
  assumes wf: "rx_wf s" and t: "t = unat (aFrameTid s)" "t < 8" and w: "w = window (tid_db s t)"
  shows "RxQueue_PacketTimeOut s = None \<longleftrightarrow> aPacketsStored s \<noteq> 0 \<and> none_from w 0"
    "aPacketsStored s \<noteq> 0 \<Longrightarrow> \<not> none_from w 0 \<Longrightarrow> k = first_stored w + run_len (win_drop (first_stored w) w) \<Longrightarrow>
      \<exists>s'. RxQueue_PacketTimeOut s = Some s' \<and> tid_change t s s' (pkts (take k w)) k (win_drop k w)"
proof -
  note wt = rx_wf_tid [OF wf t(2)]
  have dbo: "db_ok (tid_db s t)" "unat (aTidExpectedSn (tid_db s t)) < 4096" using wt by (auto simp: tid_wf_def)
  define s0 where "s0 = s\<lparr>bPacketMiss := False\<rparr>"
  have s0: "tid_db s0 t = tid_db s t" "tSa1ArrayMng s0 = tSa1ArrayMng s" "aPacketsStored s0 = aPacketsStored s"
    "rx_log s0 = rx_log s" "aFrameTid s0 = aFrameTid s"
    by (simp_all add: s0_def tid_db_def)
  have e: "RxQueue_PacketTimeOut s = (case (if aPacketsStored s \<noteq> 0 then
              (case find_stored (tid_db s t) of None \<Rightarrow> None
               | Some db \<Rightarrow> Some (timeout_drain 8 t (upd_tid t (\<lambda>_. db) s0))) else Some s0) of
        None \<Rightarrow> None | Some s \<Rightarrow> Some (if aPacketsStored s \<noteq> 0 then s\<lparr>rx_log := rx_log s @ [TmrStart], bPacketMiss := True\<rparr> else s))"
    unfolding RxQueue_PacketTimeOut_def Let_def s0_def [symmetric] s0(3,5) t(1) [symmetric] s0(1) RX_QUEUE_ARRAY_SIZE_def ..
  have fs: "find_stored (tid_db s t) = Some (round_db next_entry (first_stored w) (tid_db s t))" if "\<not> none_from w 0"
    using first_stored_spec [OF that] dbo(1) w by (intro find_stored_some) (simp_all del: nth_window)
  have fn: "find_stored (tid_db s t) = None" if "none_from w 0"
    using that dbo(1) w by (intro find_stored_none) (simp_all add: none_from_all)
  show "RxQueue_PacketTimeOut s = None \<longleftrightarrow> aPacketsStored s \<noteq> 0 \<and> none_from w 0"
    unfolding e using fs fn by (cases "none_from w 0") auto
  show "\<exists>s'. RxQueue_PacketTimeOut s = Some s' \<and> tid_change t s s' (pkts (take k w)) k (win_drop k w)"
    if n: "aPacketsStored s \<noteq> 0" "\<not> none_from w 0" and k: "k = first_stored w + run_len (win_drop (first_stored w) w)"
  proof -
    let ?j = "first_stored w"
    define s1 where "s1 = upd_tid t (\<lambda>_. round_db next_entry ?j (tid_db s t)) s0"
    have j: "?j \<le> 8" using first_stored_spec(1) [OF n(2)] w by simp
    have r: "s1 = rounds next_entry ?j t s0"
      using rounds_eq [OF adv_ok_cases(2), of s0 t ?j] s0 dbo(1) wt j first_stored_spec(4) [OF n(2)] w
      by (simp add: s1_def upd_tid_def)
    have c0: "tid_change t s s0 [] 0 w" unfolding w using dbo s0 by (intro tid_change_same) simp_all
    note f0 = tid_change_facts [OF c0 conjunct2 [OF wt]]
    have c1: "tid_change t s0 s1 (pkts (take ?j w)) ?j (win_drop ?j w)"
      using rounds_change [OF f0(1,3,6) j] f0(2) by (simp add: r)
    note f1 = tid_change_facts [OF c1 f0(3)]
    have c2: "tid_change t s1 (drain_loop 8 t s1) (pkts (take (run_len (win_drop ?j w)) (win_drop ?j w))) (run_len (win_drop ?j w))
        (win_drop (run_len (win_drop ?j w)) (win_drop ?j w))"
      using drain_change [OF f1(3,1,6)] f1(2) by (simp add: RX_QUEUE_ARRAY_SIZE_def)
    have "length (pkts (win_drop ?j w)) \<le> length (pkts w)"
      using pkts_take_drop [of ?j w] by (simp add: win_drop_def)
    then have td: "timeout_drain 8 t s1 = drain_loop 8 t s1"
      using timeout_drain_eq [OF f1(1,3)] f1(2) stored_le [OF wf t(2)] w s0(3) by (simp add: s1_def)
    have p: "pkts (take k w) = pkts (take ?j w) @ pkts (take (run_len (win_drop ?j w)) (win_drop ?j w))"
    proof -
      have "run_len (win_drop ?j w) \<le> 8 - ?j"
      proof (rule run_len_none_from)
        show "none_from (win_drop ?j w) (8 - ?j)" using w by (auto simp: none_from_def nth_win_drop simp del: nth_window)
      qed
      then have "take (run_len (win_drop ?j w)) (win_drop ?j w) = take (run_len (win_drop ?j w)) (drop ?j w)"
        using w by (simp add: win_drop_def)
      then show ?thesis by (simp add: k take_add)
    qed
    let ?s' = "if aPacketsStored (drain_loop 8 t s1) \<noteq> 0
      then (drain_loop 8 t s1)\<lparr>rx_log := rx_log (drain_loop 8 t s1) @ [TmrStart], bPacketMiss := True\<rparr> else drain_loop 8 t s1"
    have "RxQueue_PacketTimeOut s = Some ?s'"
      unfolding e fs [OF n(2)] using n(1) td by (simp add: s1_def)
    moreover have "tid_change t s ?s' ((([] @ pkts (take ?j w)) @ pkts (take (run_len (win_drop ?j w)) (win_drop ?j w))) @ [])
        (0 + ?j + run_len (win_drop ?j w)) (win_drop (run_len (win_drop ?j w)) (win_drop ?j w))"
      by (rule tid_change_cong [OF tid_change_trans [OF tid_change_trans [OF c0 c1] c2]]) simp_all
    then have "tid_change t s ?s' (pkts (take k w)) k (win_drop k w)"
      unfolding p by (simp add: k win_drop_add add.commute)
    ultimately show ?thesis by blast
  qed
qed

lemma PacketTimeOut_wf:
  assumes wf: "rx_wf s" and t: "unat (aFrameTid s) < 8" and r: "RxQueue_PacketTimeOut s = Some s'"
  shows "rx_wf s'"
proof -
  define t' w where "t' = unat (aFrameTid s)" and "w = window (tid_db s t')"
  have t': "t' < 8" using t by (simp add: t'_def)
  note res = PacketTimeOut_result [OF wf t'_def t' w_def]
  show ?thesis
  proof (cases "aPacketsStored s = 0")
    case True
    then show ?thesis using r wf by (auto simp: RxQueue_PacketTimeOut_def Let_def intro: rx_wf_cong [of s])
  next
    case False
    then have n: "\<not> none_from w 0" using res(1) r by auto
    define k where "k = first_stored w + run_len (win_drop (first_stored w) w)"
    from res(2) [OF False n k_def] r have c: "tid_change t' s s' (pkts (take k w)) k (win_drop k w)" by auto
    note wt = rx_wf_tid [OF wf t']
    have est: "aTidBaEstablished (tid_db s t')"
      using wt n by (auto simp: tid_wf_def w_def none_from_all split: if_splits)
    note e = tid_wf_est [OF conjunct1 [OF wt] est] and f = tid_change_facts [OF c conjunct2 [OF wt]]
    have "tid_wf (tid_db s' t')"
    proof (rule tid_wfI)
      have "win_drop k w ! 0 = None"
      proof (cases "k < 8")
        case True
        let ?v = "win_drop (first_stored w) w"
        have "run_len ?v < length ?v" using True by (simp add: k_def w_def)
        from run_len_end [OF this] True show ?thesis
          by (simp add: nth_win_drop w_def k_def add.commute del: nth_window)
      next
        case False
        then show ?thesis by (simp add: nth_win_drop w_def del: nth_window)
      qed
      then show "window (tid_db s' t') ! 0 = None" using f(2) by (simp del: nth_window)
      fix p x
      assume p: "p < 8" "window (tid_db s' t') ! p = Some x"
      then have x: "p + k < 8" "w ! (p + k) = Some x"
        using f(2) by (auto simp: nth_win_drop w_def simp del: nth_window split: if_splits)
      then have "sn_dist (aTidExpectedSn (tid_db s t')) (hdr_sn x) = p + k" "p + k < unat (aTidWinSize (tid_db s t'))"
        using wt est by (auto simp: tid_wf_def w_def simp del: nth_window)
      then show "p < unat (aTidWinSize (tid_db s' t')) \<and> sn_dist (aTidExpectedSn (tid_db s' t')) (hdr_sn x) = p"
        using sn_dist_add [OF e(2) hdr_sn_less [of x] f(5)] f(4) by simp
    qed (use f e est in simp_all)
    then show ?thesis using tid_change_wf [OF wf t' c] by simp
  qed
qed

section \<open>Reachable states\<close>

lemma loops_tid [simp]:
  "aFrameTid (RxQueue_PassPacket s st b) = aFrameTid s" "aFrameTid (pass_head t s) = aFrameTid s"
  "aFrameTid (stop_timer s) = aFrameTid s"
  by (simp_all add: RxQueue_PassPacket_def pass_head_def stop_timer_def Let_def split: option.splits)

lemma loops_tid2 [simp]: "aFrameTid (drain_loop n t s) = aFrameTid s" "aFrameTid (close_loop n t s) = aFrameTid s"
  "aFrameTid (snd (slide_loop n i new t s)) = aFrameTid s" "aFrameTid (bar_loop n i delta t s) = aFrameTid s"
  "aFrameTid (timeout_drain n t s) = aFrameTid s"
  by (induction n arbitrary: s i) auto

lemma restart_tid: "unat (aFrameTid s) < 8 \<Longrightarrow> unat t < 8 \<Longrightarrow> unat (aFrameTid (restart_timer t s)) < 8"
  by (simp add: restart_timer_def start_timer_def)

lemma rx_qos_tid: "unat (aFrameTid s) < 8 \<Longrightarrow> unat (aFrameTid (rx_qos s b)) < 8"
proof -
  assume a: "unat (aFrameTid s) < 8"
  have "unat (aFrameTid (rx_part1 s t b)) < 8" "unat (aFrameTid (rx_part2 s t n b)) < 8" "unat (aFrameTid (rx_part3 s t n b)) < 8"
    if "unat t < 8" for t n
    using a that
    by (auto simp: rx_part1_def rx_part2_def rx_part3_def Let_def start_timer_def case_prod_beta intro!: restart_tid)
  with a show ?thesis by (auto simp: rx_qos_def Let_def MAX_NUM_OF_802_1d_TAGS_def)
qed

lemma ReceivePacket_tid: "unat (aFrameTid s) < 8 \<Longrightarrow> unat (aFrameTid (RxQueue_ReceivePacket s b)) < 8"
  using rx_qos_tid [of s "fix_tag b"]
  by (auto simp: RxQueue_ReceivePacket_def rx_ba_event_def rx_bar_def rx_addba_def rx_delba_def RxQueue_CloseBaSession_def
      Let_def MAX_NUM_OF_802_1d_TAGS_def intro!: restart_tid)

definition rx_init :: "TRxQueue \<times> bool \<Rightarrow> bool" where
  "rx_init p \<longleftrightarrow> (\<exists>mem timer s0. RxQueue_Create mem = Some s0 \<and> p = (snd (RxQueue_Init s0 timer), False))"

text \<open>
  Any buffer may be received. The mark beside the state records whether one of the three kinds of frame
  excluded by \<open>rx_ok\<close>, which the code does not check for, has been received.
\<close>

inductive rx_step :: "TRxQueue \<times> bool \<Rightarrow> TRxQueue \<times> bool \<Rightarrow> bool" where
  step_receive: "rx_step (s, bad) (RxQueue_ReceivePacket s b, bad \<or> \<not> rx_ok s b)"
| step_close: "rx_step (s, bad) (RxQueue_CloseBaSession s tid, bad)"
| step_timeout: "RxQueue_PacketTimeOut s = Some s' \<Longrightarrow> rx_step (s, bad) (s', bad)"
| step_register: "rx_step (s, bad) (RxQueue_Register_CB s i f h, bad)"

definition rx_inv :: "TRxQueue \<Rightarrow> bool" where
  "rx_inv s \<longleftrightarrow> rx_wf s \<and> unat (aFrameTid s) < 8"

definition rx_marked_inv :: "TRxQueue \<times> bool \<Rightarrow> bool" where
  "rx_marked_inv p \<longleftrightarrow> (\<not> snd p \<longrightarrow> rx_inv (fst p))"

lemma rx_create_wf: "RxQueue_Create mem = Some s \<Longrightarrow> rx_inv (snd (RxQueue_Init s timer))"
proof -
  assume a: "RxQueue_Create mem = Some s"
  have w: "window zero_tid = replicate 8 None"
    by (auto intro!: nth_equalityI simp: window_def zero_tid_def zero_entry_def RX_QUEUE_ARRAY_SIZE_def)
  then have "tid_wf zero_tid"
    unfolding tid_wf_def by (simp add: zero_tid_def db_ok_def zero_entry_def RX_QUEUE_ARRAY_SIZE_def)
  with a w show ?thesis
    by (auto simp: RxQueue_Create_def RxQueue_Init_def rx_inv_def rx_wf_def stored_total_def MAX_NUM_OF_802_1d_TAGS_def
        sum_list_replicate split: if_splits)
qed

interpretation rxq: state_invariant rx_init rx_step rx_marked_inv
proof unfold_locales
  show "rx_init s \<Longrightarrow> rx_marked_inv s" for s using rx_create_wf by (auto simp: rx_init_def rx_marked_inv_def)
  show "rx_marked_inv p \<Longrightarrow> rx_step p p' \<Longrightarrow> rx_marked_inv p'" for p p'
  proof (erule rx_step.cases, goal_cases)
    case (1 s bad b)
    then show ?case by (simp add: rx_marked_inv_def rx_inv_def ReceivePacket_wf ReceivePacket_tid)
  next
    case (2 s bad tid)
    then show ?case by (simp add: rx_marked_inv_def rx_inv_def CloseBaSession_wf) (simp add: RxQueue_CloseBaSession_def Let_def)
  next
    case (3 s s' bad)
    moreover have "aFrameTid s' = aFrameTid s" using 3(4)
      by (auto simp: RxQueue_PacketTimeOut_def Let_def split: option.splits if_splits)
    ultimately show ?case using PacketTimeOut_wf by (auto simp: rx_marked_inv_def rx_inv_def)
  next
    case (4 s bad i f h)
    then show ?case by (auto simp: rx_marked_inv_def rx_inv_def RxQueue_Register_CB_def intro: rx_wf_cong)
  qed
qed

lemma reach_rx_inv: "reach rx_init rx_step (s, False) \<Longrightarrow> rx_inv s"
  using rxq.reach_invar by (force simp: rx_marked_inv_def)

lemma reach_receive_ok:
  "reach rx_init rx_step (s, False) \<Longrightarrow> rx_ok s b \<Longrightarrow> reach rx_init rx_step (RxQueue_ReceivePacket s b, False)"
  by (drule reach_step [where step = rx_step]) (rule step_receive [of s False b], simp)

section \<open>Example frames\<close>

definition rx_ex_data :: "u8 \<Rightarrow> u16 \<Rightarrow> rx_buf" where
  "rx_ex_data tid sn = \<lparr>buf_addr = 0x100, packet_class_tag = 3, rx_status = 0,
     frame = (\<lambda>_. 0)(0 := 0x88, 22 := ucast (push_bit 4 sn), 23 := ucast (drop_bit 4 sn), 24 := tid)\<rparr>"

text \<open>An ADDBA request for a window of eight, with starting number 0.\<close>

definition rx_ex_addba :: "u8 \<Rightarrow> u16 \<Rightarrow> rx_buf" where
  "rx_ex_addba tid sn = \<lparr>buf_addr = 0x200, packet_class_tag = 6, rx_status = 0,
     frame = (\<lambda>_. 0)(0 := 0xD0, 25 := 0, 27 := push_bit 2 tid, 28 := 2, 31 := ucast (push_bit 4 sn), 32 := ucast (drop_bit 4 sn))\<rparr>"

definition rx_ex0 :: TRxQueue where
  "rx_ex0 = snd (RxQueue_Init (the (RxQueue_Create 0x1000)) 0x2000)"

definition rx_ex1 :: TRxQueue where "rx_ex1 = RxQueue_ReceivePacket rx_ex0 (rx_ex_addba 0 0)"
definition rx_ex2 :: TRxQueue where "rx_ex2 = RxQueue_ReceivePacket rx_ex1 (rx_ex_addba 1 0)"
definition rx_ex3 :: TRxQueue where "rx_ex3 = RxQueue_ReceivePacket rx_ex2 (rx_ex_data 0 1)"
definition rx_ex4 :: TRxQueue where "rx_ex4 = RxQueue_ReceivePacket rx_ex3 (rx_ex_data 1 1)"
definition rx_ex5 :: TRxQueue where "rx_ex5 = RxQueue_ReceivePacket rx_ex4 (rx_ex_data 0 0)"

lemma rx_ex_eval:
  "map Option.is_none (window (tid_db rx_ex5 0)) = replicate 8 True"
  "aPacketsStored rx_ex5 = 1" "bPacketMiss rx_ex5" "aFrameTid rx_ex5 = 0"
  by code_simp+

lemma rx_ex_ok: "rx_ok rx_ex0 (rx_ex_addba 0 0)" "rx_ok rx_ex1 (rx_ex_addba 1 0)" "rx_ok rx_ex2 (rx_ex_data 0 1)"
  "rx_ok rx_ex3 (rx_ex_data 1 1)" "rx_ok rx_ex4 (rx_ex_data 0 0)"
  by code_simp+

lemma rx_ex_reach: "reach rx_init rx_step (rx_ex3, False)" "reach rx_init rx_step (rx_ex4, False)"
  "reach rx_init rx_step (rx_ex5, False)"
proof -
  have "RxQueue_Create 0x1000 = Some (the (RxQueue_Create 0x1000))" by (simp add: RxQueue_Create_def)
  then have "rx_init (rx_ex0, False)" unfolding rx_init_def rx_ex0_def by blast
  then have "reach rx_init rx_step (rx_ex0, False)" by (rule reach_init)
  then have "reach rx_init rx_step (rx_ex1, False)" unfolding rx_ex1_def by (rule reach_receive_ok) (rule rx_ex_ok)
  then have "reach rx_init rx_step (rx_ex2, False)" unfolding rx_ex2_def by (rule reach_receive_ok) (rule rx_ex_ok)
  then show 3: "reach rx_init rx_step (rx_ex3, False)" unfolding rx_ex3_def by (rule reach_receive_ok) (rule rx_ex_ok)
  then show 4: "reach rx_init rx_step (rx_ex4, False)" unfolding rx_ex4_def by (rule reach_receive_ok) (rule rx_ex_ok)
  then show "reach rx_init rx_step (rx_ex5, False)" unfolding rx_ex5_def by (rule reach_receive_ok) (rule rx_ex_ok)
qed

lemma rx_ex_wf: "rx_wf rx_ex3" "rx_wf rx_ex4" "rx_wf rx_ex5"
  using reach_rx_inv [OF rx_ex_reach(1)] reach_rx_inv [OF rx_ex_reach(2)] reach_rx_inv [OF rx_ex_reach(3)]
  by (simp_all add: rx_inv_def)

lemma rx_ex_frame: "packet_class_tag (rx_ex_data 0 0) = TAG_CLASS_QOS_DATA" "0 = unat (hdr_tid (rx_ex_data 0 0))"
  "rx_in_session rx_ex3 (rx_ex_data 0 0)" "rx_win rx_ex3 (rx_ex_data 0 0) = 8"
  by code_simp+

lemma rx_ex_ahead: "rx_ahead rx_ex3 (rx_ex_data 0 0) = 0"
  by code_simp

lemma rx_ex_tid: "unat (aTidWinSize (tid_db rx_ex3 0)) = 8" "aTidExpectedSn (tid_db rx_ex3 0) = 0"
  "0 = unat (aFrameTid rx_ex3)" "aTidBaEstablished (tid_db rx_ex3 0)"
  by code_simp+

lemma rx_ex_window:
  "map hdr_sn (fst (reorder 8 0 (rx_ex_data 0 0) (window (tid_db rx_ex3 0)))) = [0, 1]"
  "map hdr_sn (pkts (window (tid_db rx_ex3 0))) = [1]"
  "first_stored (window (tid_db rx_ex3 0)) + run_len (win_drop (first_stored (window (tid_db rx_ex3 0))) (window (tid_db rx_ex3 0))) = 2"
  "map hdr_sn (pkts (take 2 (window (tid_db rx_ex3 0)))) = [1]"
  by code_simp+

section \<open>Properties of the reorder buffer\<close>

lemma receive_qos:
  assumes "packet_class_tag b = TAG_CLASS_QOS_DATA \<or> packet_class_tag b = TAG_CLASS_AMSDU"
  shows "RxQueue_ReceivePacket s b = rx_qos s b"
proof -
  have "fix_tag b = b" using assms by (auto simp: fix_tag_def)
  then show ?thesis using assms by (auto simp: RxQueue_ReceivePacket_def Let_def)
qed

text \<open>
  C3: Unless a frame of one of three kinds that the code does not check for has been received, in every state
  reached by received packets, closed sessions, timeouts that return and registrations each session's window is well
  formed: nothing is stored at the window start, every stored packet lies inside the window at the position that its
  sequence number has after the expected one, a closed session stores nothing, and \<open>aPacketsStored\<close> is the
  number of packets stored in all sessions. The three kinds (\<open>rx_ok\<close>) are an ADDBA request for a window of
  size zero, a BAR whose starting number is itself stored (\<open>rx_bar_ok\<close>; the code passes the packets that follow
  but does not count them, and \<open>RxQueue_bar_misplaces\<close> below is a run in which this breaks the invariant), and a second copy
  of the packet stored at a window end that passes the wrap of the sequence numbers (\<open>rx_wrap_dup\<close>).
\<close>

theorem RxQueue_invariant:
  assumes "reach rx_init rx_step (s, bad)" "\<not> bad"
  shows "length (tSa1ArrayMng s) = 8 \<and> unat (aPacketsStored s) = stored_total s \<and>
    (\<forall>t<8. if aTidBaEstablished (tid_db s t)
      then window (tid_db s t) ! 0 = None \<and>
        (\<forall>k<8. \<forall>b. window (tid_db s t) ! k = Some b \<longrightarrow>
          k < unat (aTidWinSize (tid_db s t)) \<and> sn_dist (aTidExpectedSn (tid_db s t)) (hdr_sn b) = k)
      else window (tid_db s t) = replicate 8 None)"
proof -
  have wf: "rx_wf s" using reach_rx_inv [of s] assms by (simp add: rx_inv_def)
  have "tid_wf (tid_db s t)" if "t < 8" for t using rx_wf_tid [OF wf that] by simp
  moreover have "length (tSa1ArrayMng s) = 8" using wf by (simp add: rx_wf_def)
  moreover have "unat (aPacketsStored s) = stored_total s" using stored_le(2) [OF wf, of 0] by simp
  ultimately show ?thesis unfolding tid_wf_def by (simp del: nth_window)
qed

theorem RxQueue_invariant_witness: "unat (aPacketsStored rx_ex5) = stored_total rx_ex5"
  using RxQueue_invariant [OF rx_ex_reach(3)] by blast

text \<open>
  C1: The receive path implements the window specification: in a well-formed state, a data frame of an
  established session, not behind the expected one, and whose position is free, passes exactly the packets that
  \<open>reorder\<close> gives, in that order, leaves the window that \<open>reorder\<close> gives, advances the expected number by the number
  of positions, and changes no other session. The window that the code uses is the session's, \<open>aTidWinSize\<close> positions,
  with one exception (\<open>rx_win\<close>): for the frame at the end of a window that passes the wrap of the sequence numbers
  it uses a window one shorter, so it gives up the expected packet and slides the window by one.
\<close>

theorem RxQueue_ReceivePacket_refines_reorder:
  assumes "rx_wf s" "packet_class_tag b = TAG_CLASS_QOS_DATA \<or> packet_class_tag b = TAG_CLASS_AMSDU"
    "rx_in_session s b" "t = unat (hdr_tid b)" "db = tid_db s t" "rx_ahead s b < 0x7FF"
    "rx_ahead s b = 0 \<or> unat (aTidWinSize db) \<le> rx_ahead s b \<or> window db ! rx_ahead s b = None"
    "V = (if Suc (rx_ahead s b) = unat (aTidWinSize db) \<and> 4096 < unat (aTidExpectedSn db) + unat (aTidWinSize db)
       then unat (aTidWinSize db) - 1 else unat (aTidWinSize db))"
    "reorder V (rx_ahead s b) b (window db) = (out, a, w')"
    and "s' = RxQueue_ReceivePacket s b"
  shows "deliveries (rx_log s') = deliveries (rx_log s) @ out \<and> window (tid_db s' t) = w' \<and>
    unat (aTidExpectedSn (tid_db s' t)) = (unat (aTidExpectedSn db) + a) mod 4096 \<and>
    (\<forall>j. j \<noteq> t \<longrightarrow> tid_db s' j = tid_db s j) \<and> rx_wf s'"
proof -
  have t: "t < 8" using assms(3,4) by (simp add: rx_in_session_def)
  have free: "0 < rx_ahead s b \<Longrightarrow> rx_ahead s b < unat (aTidWinSize db) \<Longrightarrow> window db ! rx_ahead s b = None"
    using assms(7) by (metis less_irrefl not_le)
  have "V = rx_win s b" using assms(8) by (simp add: rx_win_def rx_wrap_end_def Let_def assms(4,5))
  with assms(9) have r: "reorder (rx_win s b) (rx_ahead s b) b (window db) = (out, a, w')" by simp
  have c: "tid_change t s s' out a w'"
    using rx_qos_change [OF assms(1,3,4,5,6) free r] receive_qos [OF assms(2)] assms(10) by simp
  have "rx_wf s'"
    using rx_reorder_facts(4) [OF assms(1,3,4,5,6) free r] receive_qos [OF assms(2)] assms(10) by simp
  with tid_changeD [OF c] tid_change_facts(8) [OF c] rx_wf_tid [OF assms(1) t] assms(5) show ?thesis by auto
qed

theorem RxQueue_ReceivePacket_refines_reorder_witness:
  "deliveries (rx_log (RxQueue_ReceivePacket rx_ex3 (rx_ex_data 0 0))) =
     deliveries (rx_log rx_ex3) @ fst (reorder 8 0 (rx_ex_data 0 0) (window (tid_db rx_ex3 0))) \<and>
   map hdr_sn (fst (reorder 8 0 (rx_ex_data 0 0) (window (tid_db rx_ex3 0)))) = [0, 1]"
proof -
  let ?b = "rx_ex_data 0 0" and ?db = "tid_db rx_ex3 0"
  obtain out a w' where r: "reorder 8 0 ?b (window ?db) = (out, a, w')" by (rule prod_cases3)
  have "deliveries (rx_log (RxQueue_ReceivePacket rx_ex3 ?b)) = deliveries (rx_log rx_ex3) @ out"
  proof (rule RxQueue_ReceivePacket_refines_reorder [OF rx_ex_wf(1) disjI1 [OF rx_ex_frame(1)] rx_ex_frame(3,2) refl _ _ refl _ refl, THEN conjunct1])
    show "reorder (if Suc (rx_ahead rx_ex3 ?b) = unat (aTidWinSize ?db) \<and> 4096 < unat (aTidExpectedSn ?db) + unat (aTidWinSize ?db)
        then unat (aTidWinSize ?db) - 1 else unat (aTidWinSize ?db)) (rx_ahead rx_ex3 ?b) ?b (window ?db) = (out, a, w')"
      unfolding rx_ex_tid(1,2) rx_ex_ahead using r by simp
    show "rx_ahead rx_ex3 ?b < 0x7FF" unfolding rx_ex_ahead by simp
  qed (rule disjI1 [OF rx_ex_ahead])
  moreover note rx_ex_window(1)
  ultimately show ?thesis unfolding r fst_conv by (rule conjI)
qed

text \<open>
  C2: Packets leave an established session in order and none is lost: whatever a data frame in range makes
  the session pass has strictly increasing sequence numbers, counted from the expected one, all of them below the
  new expected number; and the passed packets together with those stored afterwards are exactly those stored
  before and the new one.
\<close>

theorem RxQueue_ReceivePacket_in_order_lossless:
  assumes "rx_wf s" "packet_class_tag b = TAG_CLASS_QOS_DATA \<or> packet_class_tag b = TAG_CLASS_AMSDU"
    "rx_in_session s b" "t = unat (hdr_tid b)" "db = tid_db s t" "rx_ahead s b < 0x7FF"
    "rx_ahead s b = 0 \<or> unat (aTidWinSize db) \<le> rx_ahead s b \<or> window db ! rx_ahead s b = None"
    and "s' = RxQueue_ReceivePacket s b"
  shows "\<exists>out a. deliveries (rx_log s') = deliveries (rx_log s) @ out \<and>
    unat (aTidExpectedSn (tid_db s' t)) = (unat (aTidExpectedSn db) + a) mod 4096 \<and>
    sorted_wrt (<) (map (\<lambda>x. sn_dist (aTidExpectedSn db) (hdr_sn x)) out) \<and>
    (\<forall>x\<in>set out. sn_dist (aTidExpectedSn db) (hdr_sn x) < a) \<and>
    mset out + mset (pkts (window (tid_db s' t))) = add_mset b (mset (pkts (window db)))"
proof -
  obtain out a w' where r: "reorder (rx_win s b) (rx_ahead s b) b (window db) = (out, a, w')"
    by (cases "reorder (rx_win s b) (rx_ahead s b) b (window db)")
  have free: "0 < rx_ahead s b \<Longrightarrow> rx_ahead s b < unat (aTidWinSize db) \<Longrightarrow> window db ! rx_ahead s b = None"
    using assms(7) by (metis less_irrefl not_le)
  have "tid_change t s s' out a w'"
    using rx_qos_change [OF assms(1,3,4,5,6) free r] receive_qos [OF assms(2)] assms(8) by simp
  note c = tid_changeD [OF this]
  from rx_reorder_facts(1-3) [OF assms(1,3,4,5,6) free r] c(2,3,7) assms(5) show ?thesis by blast
qed

theorem RxQueue_ReceivePacket_in_order_lossless_witness:
  "\<exists>out. deliveries (rx_log (RxQueue_ReceivePacket rx_ex3 (rx_ex_data 0 0))) = deliveries (rx_log rx_ex3) @ out \<and>
     sorted_wrt (<) (map (\<lambda>x. sn_dist 0 (hdr_sn x)) out)"
proof -
  let ?b = "rx_ex_data 0 0"
  have l: "rx_ahead rx_ex3 ?b < 0x7FF" unfolding rx_ex_ahead by simp
  from RxQueue_ReceivePacket_in_order_lossless [OF rx_ex_wf(1) disjI1 [OF rx_ex_frame(1)] rx_ex_frame(3,2) refl l
      disjI1 [OF rx_ex_ahead] refl]
  obtain out where "deliveries (rx_log (RxQueue_ReceivePacket rx_ex3 ?b)) = deliveries (rx_log rx_ex3) @ out"
    "sorted_wrt (<) (map (\<lambda>x. sn_dist (aTidExpectedSn (tid_db rx_ex3 0)) (hdr_sn x)) out)" by blast
  then show ?thesis unfolding rx_ex_tid(2) by blast
qed

text \<open>
  Closing an established session passes every packet it still stores, lowest sequence number first,
  empties its window, ends the session, stops the timer and leaves the other sessions as they are.
\<close>

lemma RxQueue_CloseBaSession_flushes:
  assumes "rx_wf s" "unat tid < 8" "aTidBaEstablished (tid_db s (unat tid))" "s' = RxQueue_CloseBaSession s tid"
  shows "deliveries (rx_log s') = deliveries (rx_log s) @ pkts (window (tid_db s (unat tid))) \<and>
    window (tid_db s' (unat tid)) = replicate 8 None \<and> \<not> aTidBaEstablished (tid_db s' (unat tid)) \<and>
    \<not> bPacketMiss s' \<and> rx_wf s' \<and> (\<forall>j. j \<noteq> unat tid \<longrightarrow> tid_db s' j = tid_db s j)"
  using CloseBaSession_change [OF assms(1) refl assms(2,3,4)] by blast

text \<open>
  C4: When the timer expires for a session with a stored packet, the handler returns: it gives up the
  missing packets, passes the first run of stored ones in order and counts the expected number past them. It does
  not return exactly when packets are stored, but none in the session the timer was armed for.
\<close>

theorem RxQueue_PacketTimeOut_outcome:
  assumes "rx_wf s" "t = unat (aFrameTid s)" "t < 8" "w = window (tid_db s t)"
    "k = first_stored w + run_len (win_drop (first_stored w) w)"
  shows "(RxQueue_PacketTimeOut s = None \<longleftrightarrow> stored_total s \<noteq> 0 \<and> pkts w = []) \<and>
    (pkts w \<noteq> [] \<longrightarrow> (\<exists>s'. RxQueue_PacketTimeOut s = Some s' \<and>
       deliveries (rx_log s') = deliveries (rx_log s) @ pkts (take k w) \<and> window (tid_db s' t) = win_drop k w \<and>
       unat (aTidExpectedSn (tid_db s' t)) = (unat (aTidExpectedSn (tid_db s t)) + k) mod 4096 \<and> rx_wf s'))"
proof -
  have n: "none_from w 0 \<longleftrightarrow> pkts w = []"
  proof
    show "pkts w = [] \<Longrightarrow> none_from w 0"
      by (auto simp: none_from_def pkts_def List.map_filter_def filter_empty_conv dest: nth_mem)
  qed (rule pkts_none)
  note st = stored_le [OF assms(1,3)]
  have z: "aPacketsStored s \<noteq> 0 \<longleftrightarrow> stored_total s \<noteq> 0" using st(2) by (metis unat_eq_zero)
  have p: "pkts w \<noteq> [] \<Longrightarrow> aPacketsStored s \<noteq> 0" using st assms(4) by (auto simp: unat_eq_zero)
  note res = PacketTimeOut_result [OF assms(1-4)]
  have "\<exists>s'. RxQueue_PacketTimeOut s = Some s' \<and> deliveries (rx_log s') = deliveries (rx_log s) @ pkts (take k w) \<and>
      window (tid_db s' t) = win_drop k w \<and> unat (aTidExpectedSn (tid_db s' t)) = (unat (aTidExpectedSn (tid_db s t)) + k) mod 4096 \<and> rx_wf s'"
    if "pkts w \<noteq> []"
  proof -
    from res(2) [OF p [OF that] _ assms(5)] that n obtain s' where
      s': "RxQueue_PacketTimeOut s = Some s'" "tid_change t s s' (pkts (take k w)) k (win_drop k w)" by blast
    with PacketTimeOut_wf [OF assms(1) _ s'(1)] assms(2,3) tid_changeD [OF s'(2)] show ?thesis by auto
  qed
  then show ?thesis using res(1) n z by blast
qed

theorem RxQueue_PacketTimeOut_outcome_witness:
  "\<exists>s' out. RxQueue_PacketTimeOut rx_ex3 = Some s' \<and> deliveries (rx_log s') = deliveries (rx_log rx_ex3) @ out \<and> map hdr_sn out = [1]"
proof -
  let ?w = "window (tid_db rx_ex3 0)"
  have ne: "pkts ?w \<noteq> []" using rx_ex_window(2) by (metis list.map_disc_iff not_Cons_self2)
  note out = RxQueue_PacketTimeOut_outcome [OF rx_ex_wf(1) rx_ex_tid(3) zero_less_numeral refl rx_ex_window(3) [symmetric]]
  obtain s' where s': "RxQueue_PacketTimeOut rx_ex3 = Some s' \<and>
      deliveries (rx_log s') = deliveries (rx_log rx_ex3) @ pkts (take 2 ?w) \<and> window (tid_db s' 0) = win_drop 2 ?w \<and>
      unat (aTidExpectedSn (tid_db s' 0)) = (unat (aTidExpectedSn (tid_db rx_ex3 0)) + 2) mod 4096 \<and> rx_wf s'"
    by (rule exE [OF mp [OF conjunct2 [OF out] ne]])
  show ?thesis
    by (rule exI, rule exI, rule conjI, rule conjunct1 [OF s'], rule conjI, rule conjunct1 [OF conjunct2 [OF s']], rule rx_ex_window(4))
qed

text \<open>
  The search of the timeout handler can run for ever: there is a reachable state, with the timer
  armed, in which \<open>RxQueue_PacketTimeOut\<close> does not return. (Two sessions store a packet each, then the expected
  packet of the first one empties it, and the timer is armed again for that session because the shared
  counter is not zero.)
\<close>

lemma RxQueue_PacketTimeOut_can_hang:
  "\<exists>s. reach rx_init rx_step (s, False) \<and> bPacketMiss s \<and> RxQueue_PacketTimeOut s = None"
proof -
  have m: "map Option.is_none (window (tid_db rx_ex5 0)) = replicate 8 True" "aPacketsStored rx_ex5 = 1"
    "bPacketMiss rx_ex5" "0 = unat (aFrameTid rx_ex5)"
    using rx_ex_eval by simp_all
  have "none_from (window (tid_db rx_ex5 0)) 0"
    unfolding none_from_def
  proof (intro allI impI)
    fix p
    assume "p < length (window (tid_db rx_ex5 0))"
    then have "Option.is_none (window (tid_db rx_ex5 0) ! p)" using m(1) by (metis length_window nth_map nth_replicate)
    then show "window (tid_db rx_ex5 0) ! p = None" by (simp add: Option.is_none_def del: nth_window)
  qed
  then have "RxQueue_PacketTimeOut rx_ex5 = None"
    using PacketTimeOut_result(1) [OF rx_ex_wf(3) m(4) _ refl] m(2) by simp
  with rx_ex_reach(3) m(3) show ?thesis by blast
qed

text \<open>
  The condition on the BARs is needed. The session expects packet 0 and stores packets 1 and 3. A BAR with
  starting number 1 makes the code pass packet 1 and move the window past it, and then set the expected
  number to 1, although the window now starts at packet 2: packet 3 is stored one position after the window start
  but is two after the expected packet.
\<close>

definition rx_ex_bar :: "u8 \<Rightarrow> u16 \<Rightarrow> rx_buf" where
  "rx_ex_bar tid sn = \<lparr>buf_addr = 0x300, packet_class_tag = 6, rx_status = 0,
     frame = (\<lambda>_. 0)(0 := 0x80, 17 := push_bit 4 tid, 18 := ucast (push_bit 4 sn), 19 := ucast (drop_bit 4 sn))\<rparr>"

definition rx_ex6 :: TRxQueue where "rx_ex6 = RxQueue_ReceivePacket rx_ex3 (rx_ex_data 0 3)"
definition rx_ex7 :: TRxQueue where "rx_ex7 = RxQueue_ReceivePacket rx_ex6 (rx_ex_bar 0 1)"

lemma rx_ex7_eval: "map_option hdr_sn (window (tid_db rx_ex7 0) ! 1) = Some 3"
  by code_simp

lemma rx_ex7_expected: "sn_dist (aTidExpectedSn (tid_db rx_ex7 0)) 3 = 2"
  by code_simp

lemma rx_ex7_session: "aTidBaEstablished (tid_db rx_ex7 0)"
  by code_simp

lemma rx_ex7_marks: "rx_ok rx_ex3 (rx_ex_data 0 3)" "\<not> rx_ok rx_ex6 (rx_ex_bar 0 1)"
  by code_simp+

lemma RxQueue_bar_misplaces:
  "\<exists>s b. reach rx_init rx_step (s, True) \<and> aTidBaEstablished (tid_db s 0) \<and>
     window (tid_db s 0) ! 1 = Some b \<and> sn_dist (aTidExpectedSn (tid_db s 0)) (hdr_sn b) = 2"
proof -
  have "reach rx_init rx_step (rx_ex6, False)"
    unfolding rx_ex6_def by (rule reach_receive_ok [OF rx_ex_reach(1) rx_ex7_marks(1)])
  then have "reach rx_init rx_step (rx_ex7, False \<or> \<not> rx_ok rx_ex6 (rx_ex_bar 0 1))"
    unfolding rx_ex7_def by (rule reach_step) (rule step_receive)
  then have r: "reach rx_init rx_step (rx_ex7, True)" using rx_ex7_marks(2) by simp
  obtain b where b: "window (tid_db rx_ex7 0) ! 1 = Some b" "hdr_sn b = 3" using rx_ex7_eval by (auto simp del: nth_window)
  show ?thesis
    by (rule exI, rule exI [of _ b], rule conjI, rule r, rule conjI, rule rx_ex7_session, rule conjI, rule b(1),
        unfold b(2), rule rx_ex7_expected)
qed

end
