(* ===== verification/Wlan_FwStatus.thy ===== *)
theory Wlan_FwStatus
  imports Wlan_Bus
begin

text \<open>
  \<open>TWD/FirmwareApi/public_host_int.h\<close>: the status structure that the driver reads from the firmware on every interrupt, with the
  macros that read its fields, and the device addresses of \<open>TWD/TWDriver/Device1273.h\<close> that the transfer modules use. The
  target is little endian, so \<open>ENDIAN_HANDLE_LONG\<close> and \<open>ENDIAN_HANDLE_WORD\<close> are the identity.
\<close>

definition NUM_RX_PKT_DESC :: nat where "NUM_RX_PKT_DESC = 8"

record FwStatus_t =
  intrStatus :: u32
  counters :: u32
  rxPktsDesc :: "u32 list"
  fwLocalTime :: u32

text \<open>The bytes of \<open>FwStatCntrs_t\<close>.\<close>

definition fwRxCntr :: "u32 \<Rightarrow> u8" where "fwRxCntr c = ucast c"
definition fwTxResultsCntr :: "u32 \<Rightarrow> u8" where "fwTxResultsCntr c = ucast (drop_bit 24 c)"

definition RX_DESC_GET_MEM_BLK :: "u32 \<Rightarrow> u32" where "RX_DESC_GET_MEM_BLK d = drop_bit 0 (d AND 0x000000FF)"
definition RX_DESC_GET_LENGTH :: "u32 \<Rightarrow> u32" where "RX_DESC_GET_LENGTH d = drop_bit 8 (d AND 0x000FFF00)"
definition RX_DESC_GET_UNALIGNED :: "u32 \<Rightarrow> u32" where "RX_DESC_GET_UNALIGNED d = drop_bit 20 (d AND 0x00100000)"
definition RX_DESC_GET_PACKET_CLASS_TAG :: "u32 \<Rightarrow> u32" where "RX_DESC_GET_PACKET_CLASS_TAG d = drop_bit 24 (d AND 0xFF000000)"

definition REGISTERS_BASE :: u32 where "REGISTERS_BASE = 0x00300000"
definition SLV_REG_DATA :: u32 where "SLV_REG_DATA = REGISTERS_BASE + 0x0008"
definition SLV_MEM_DATA :: u32 where "SLV_MEM_DATA = REGISTERS_BASE + 0x0018"
definition HINT_MASK :: u32 where "HINT_MASK = REGISTERS_BASE + 0x04DC"
definition HOST_WR_ACCESS_REG :: u32 where "HOST_WR_ACCESS_REG = REGISTERS_BASE + 0x09F8"
definition REGISTER_SIZE :: u16 where "REGISTER_SIZE = 4"
definition MAX_XFER_BUFS :: nat where "MAX_XFER_BUFS = 4"

end
