(* ===== verification/Wlan_RxXfer.thy ===== *)
theory Wlan_RxXfer
  imports Wlan_FwStatus
begin

text \<open>
  \<open>TWD/FW_Transfer/RxXfer.c\<close>: reading the received packets. Every status of the firmware carries a counter of
  received packets and the short descriptors of up to eight of them; the module reads the new packets in transactions of
  up to four, into buffers of the upper layer, and passes each packet on when its transaction is done. A pointer to one of the sixteen transaction
  structures is its index. \<open>rx_mem\<close> is the host memory at the head of the buffers.

  What the module does outside is a log: the transactions, the packets passed to \<open>RxQueue_ReceivePacket\<close>, the calls of the error
  callback. The answers of \<open>twIf_Transact\<close>, the data that the device puts into a buffer and the results of the upper layer's buffer
  allocation are parameters (\<open>rx_env\<close>), functions of the whole state. \<open>rx_flight\<close> lists the read transactions that the bus has accepted and
  not completed, oldest first; a completed one has its data put into the buffers and its callback called.
\<close>

section \<open>Data\<close>

definition RX_DRIVER_COUNTER_ADDRESS :: u32 where "RX_DRIVER_COUNTER_ADDRESS = 0x300538"
definition UNALIGNED_PAYLOAD :: u32 where "UNALIGNED_PAYLOAD = 0x1"
definition MAX_CONSECUTIVE_READ_TXN :: nat where "MAX_CONSECUTIVE_READ_TXN = 16"
definition RX_DESC_STATUS_DRIVER_RX_Q_FAIL :: u8 where "RX_DESC_STATUS_DRIVER_RX_Q_FAIL = 3"
definition RX_DESC_STATUS_MASK :: u8 where "RX_DESC_STATUS_MASK = 7"
definition DRV_RX_FLAG_END_OF_BURST :: u8 where "DRV_RX_FLAG_END_OF_BURST = 1"
definition TAG_CLASS_UNKNOWN :: u8 where "TAG_CLASS_UNKNOWN = 0"

datatype ERxBufferStatus = RX_BUF_ALLOC_PENDING | RX_BUF_ALLOC_COMPLETE | RX_BUF_ALLOC_OUT_OF_MEM

record RxIfDescriptor_t =
  rxd_length :: u16
  rxd_status :: u8
  packet_class_tag :: u8
  driverFlags :: u8

text \<open>The two callbacks that the module gives to its read transactions.\<close>

datatype rx_cb = RxCbNull | RxCbTxnDone | RxCbPktDrop

record rx_txn =
  rx_params :: u32
  rx_hwAddr :: u32
  rx_doneCb :: rx_cb
  aLen :: "u16 list"
  aBuf :: "handle list"

record TRegTxn =
  reg_params :: u32
  reg_hwAddr :: u32
  uRegData :: u32
  uRegAdata :: u32

record TCounterTxn =
  cnt_params :: u32
  cnt_hwAddr :: u32
  uCounter :: u32

record TRxXferDbgStat =
  uCountFwEvents :: u32
  uCountPktsForward :: u32
  uCountBufPend :: u32
  uCountBufNoMem :: u32
  uCountPktAggreg :: "u32 list"

datatype rx_ev =
    RxReg TRegTxn
  | RxRead nat rx_txn
  | RxCntr TCounterTxn
  | RxPass handle RxIfDescriptor_t
  | RxErr

record TRxXfer =
  aRxPktsDesc :: "u32 list"
  uFwRxCntr :: u32
  uDrvRxCntr :: u32
  uPacketMemoryPoolStart :: u32
  uMaxAggregLen :: u32
  uMaxAggregPkts :: u32
  RequestForBufferCB :: handle
  RequestForBufferCB_handle :: handle
  bPendingBuffer :: bool
  uCurrTxnIndex :: u32
  uAvailableTxn :: u32
  aSlaveRegTxn :: "TRegTxn list"
  aTxnStruct :: "rx_txn list"
  aCounterTxn :: "TCounterTxn list"
  aTempBuffer :: handle
  rx_fErrCb :: handle
  rx_hErrCb :: handle
  tDbgStat :: TRxXferDbgStat
  rx_mem :: "handle \<Rightarrow> RxIfDescriptor_t"
  rx_flight :: "nat list"
  rx_log :: "rx_ev list"

record rx_env =
  rx_rsp :: "TRxXfer \<Rightarrow> nat \<Rightarrow> ti_status"
  rx_dev :: "TRxXfer \<Rightarrow> nat \<Rightarrow> nat \<Rightarrow> RxIfDescriptor_t"
  rx_alloc :: "TRxXfer \<Rightarrow> u32 \<Rightarrow> u32 \<Rightarrow> ERxBufferStatus \<times> handle"

text \<open>Where the code would follow a \<open>NULL\<close> transaction pointer or write outside an array.\<close>

datatype rx_fault = RxNullTxn | RxAggregIndex | RxBufIndex

definition rx_emit :: "rx_ev \<Rightarrow> TRxXfer \<Rightarrow> TRxXfer" where
  "rx_emit e s = s\<lparr>rx_log := rx_log s @ [e]\<rparr>"
definition rx_at :: "TRxXfer \<Rightarrow> nat \<Rightarrow> rx_txn" where
  "rx_at s i = aTxnStruct s ! i"
definition rx_upd :: "nat \<Rightarrow> (rx_txn \<Rightarrow> rx_txn) \<Rightarrow> TRxXfer \<Rightarrow> TRxXfer" where
  "rx_upd i f s = s\<lparr>aTxnStruct := (aTxnStruct s)[i := f (rx_at s i)]\<rparr>"
definition rx_stat :: "(TRxXferDbgStat \<Rightarrow> TRxXferDbgStat) \<Rightarrow> TRxXfer \<Rightarrow> TRxXfer" where
  "rx_stat f s = s\<lparr>tDbgStat := f (tDbgStat s)\<rparr>"
definition rx_write :: "handle \<Rightarrow> (RxIfDescriptor_t \<Rightarrow> RxIfDescriptor_t) \<Rightarrow> TRxXfer \<Rightarrow> TRxXfer" where
  "rx_write b f s = s\<lparr>rx_mem := (rx_mem s)(b := f (rx_mem s b))\<rparr>"

text \<open>The buffers of a transaction in use: up to the first length zero.\<close>

definition rx_used :: "rx_txn \<Rightarrow> nat" where
  "rx_used t = length (takeWhile (\<lambda>l. l \<noteq> 0) (take MAX_XFER_BUFS (aLen t)))"

section \<open>Passing the packets of a completed transaction\<close>

definition fwd_check :: "TRxXfer \<Rightarrow> nat \<Rightarrow> nat \<Rightarrow> TRxXfer" where
  "fwd_check s i k =
     (let b = aBuf (rx_at s i) ! k; l = aLen (rx_at s i) ! k;
          s = (if l \<noteq> push_bit 2 (rxd_length (rx_mem s b)) then
                 let s = rx_write b (\<lambda>d. d\<lparr>rxd_status := (rxd_status d AND NOT RX_DESC_STATUS_MASK) OR RX_DESC_STATUS_DRIVER_RX_Q_FAIL,
                           rxd_length := drop_bit 2 l\<rparr>) s
                 in if rx_fErrCb s \<noteq> NULL then rx_emit RxErr s else s
               else s)
      in rx_stat (\<lambda>d. d\<lparr>uCountPktsForward := uCountPktsForward d + 1\<rparr>) s)"

definition fwd_one :: "TRxXfer \<Rightarrow> nat \<Rightarrow> nat \<Rightarrow> TRxXfer" where
  "fwd_one s i k =
     (let s = fwd_check s i k; b = aBuf (rx_at s i) ! k;
          s = (if TXN_PARAM_GET_END_OF_BURST (rx_params (rx_at s i)) \<noteq> 0 \<and> (k = MAX_XFER_BUFS - 1 \<or> aLen (rx_at s i) ! (k + 1) = 0)
               then rx_write b (\<lambda>d. d\<lparr>driverFlags := driverFlags d OR DRV_RX_FLAG_END_OF_BURST\<rparr>)
                      (rx_upd i (\<lambda>t. t\<lparr>rx_params := TXN_PARAM_SET_END_OF_BURST (rx_params t) 0\<rparr>) s)
               else s)
      in rx_emit (RxPass b (rx_mem s b)) s)"

fun fwd_loop :: "nat list \<Rightarrow> nat \<Rightarrow> TRxXfer \<Rightarrow> TRxXfer" where
  "fwd_loop [] i s = s"
| "fwd_loop (k # ks) i s = (if aLen (rx_at s i) ! k = 0 then s else fwd_loop ks i (fwd_one s i k))"

definition rxXfer_ForwardPacket :: "TRxXfer \<Rightarrow> nat \<Rightarrow> TRxXfer" where
  "rxXfer_ForwardPacket s i = rx_upd i (\<lambda>t. t\<lparr>aBuf := (aBuf t)[0 := NULL]\<rparr>) (fwd_loop [0..<MAX_XFER_BUFS] i s)"

section \<open>Transactions\<close>

text \<open>The device's data arrives in the buffers of a transaction.\<close>

fun land_loop :: "rx_env \<Rightarrow> nat list \<Rightarrow> nat \<Rightarrow> TRxXfer \<Rightarrow> TRxXfer" where
  "land_loop env [] i s = s"
| "land_loop env (k # ks) i s = land_loop env ks i (rx_write (aBuf (rx_at s i) ! k) (\<lambda>_. rx_dev env s i k) s)"

definition rx_land :: "rx_env \<Rightarrow> nat \<Rightarrow> TRxXfer \<Rightarrow> TRxXfer" where
  "rx_land env i s = land_loop env [0..<rx_used (rx_at s i)] i s"

text \<open>\<open>twIf_Transact\<close> of the packets' read transaction.\<close>

definition rx_transact :: "rx_env \<Rightarrow> TRxXfer \<Rightarrow> nat \<Rightarrow> ti_status \<times> TRxXfer" where
  "rx_transact env s i =
     (let st = rx_rsp env s i; s = rx_emit (RxRead i (rx_at s i)) s
      in (st, if st = TXN_STATUS_COMPLETE then rx_land env i s
              else if st = TXN_STATUS_PENDING then s\<lparr>rx_flight := rx_flight s @ [i]\<rparr> else s))"

definition rxXfer_IssueTxn :: "rx_env \<Rightarrow> TRxXfer \<Rightarrow> u32 \<Rightarrow> ti_status \<times> TRxXfer" where
  "rxXfer_IssueTxn env s uFirstMemBlkAddr =
     (let i = unat (uCurrTxnIndex s);
          r = (aSlaveRegTxn s ! i)\<lparr>reg_hwAddr := SLV_REG_DATA, uRegData := uFirstMemBlkAddr, uRegAdata := uFirstMemBlkAddr + 4\<rparr>;
          s = rx_emit (RxReg r) (s\<lparr>aSlaveRegTxn := (aSlaveRegTxn s)[i := r]\<rparr>);
          (eStatus, s) = rx_transact env s i;
          c = (aCounterTxn s ! i)\<lparr>cnt_hwAddr := RX_DRIVER_COUNTER_ADDRESS, uCounter := uDrvRxCntr s\<rparr>;
          s = rx_emit (RxCntr c) (s\<lparr>aCounterTxn := (aCounterTxn s)[i := c]\<rparr>)
      in (eStatus, s))"

section \<open>The handler\<close>

text \<open>The variables of \<open>rxXfer_Handle\<close> that live through its loop; \<open>pTxn\<close> is an index or \<open>NULL\<close>.\<close>

record rx_loc =
  uAggregPktsNum :: u32
  uFirstMemBlk :: u32
  uTotalAggregLen :: u32
  pTxn :: "nat option"
  bIssueTxn :: bool
  bDropLastPkt :: bool
  bExit :: bool
  uRxDesc :: u32
  uBuffSize :: u32

definition rx_loc0 :: rx_loc where
  "rx_loc0 = \<lparr>uAggregPktsNum = 0, uFirstMemBlk = 0, uTotalAggregLen = 0, pTxn = None, bIssueTxn = False, bDropLastPkt = False, bExit = False,
     uRxDesc = 0, uBuffSize = 0\<rparr>"

definition SLV_MEM_CP_VALUE :: "u32 \<Rightarrow> u32 \<Rightarrow> u32" where
  "SLV_MEM_CP_VALUE desc offset = push_bit 8 (RX_DESC_GET_MEM_BLK desc) + offset"
definition ALIGNMENT_SIZE :: "u32 \<Rightarrow> u32" where
  "ALIGNMENT_SIZE desc = (if RX_DESC_GET_UNALIGNED desc AND UNALIGNED_PAYLOAD \<noteq> 0 then 2 else 0)"

text \<open>A buffer was allocated: the packet joins the current transaction.\<close>

definition rx_join :: "TRxXfer \<Rightarrow> rx_loc \<Rightarrow> handle \<Rightarrow> rx_fault + TRxXfer \<times> rx_loc" where
  "rx_join s l pHostBuf =
     (let i = unat (uCurrTxnIndex s);
          (s, l) = (if uAggregPktsNum l = 0
             then (rx_upd i (\<lambda>t. t\<lparr>rx_hwAddr := SLV_MEM_DATA\<rparr>) s,
                   l\<lparr>pTxn := Some i, uFirstMemBlk := SLV_MEM_CP_VALUE (uRxDesc l) (uPacketMemoryPoolStart s)\<rparr>)
             else (s, l));
          n = unat (uAggregPktsNum l)
      in case pTxn l of
           None \<Rightarrow> Inl RxNullTxn
         | Some j \<Rightarrow>
             if n \<ge> MAX_XFER_BUFS then Inl RxBufIndex
             else
               let s = rx_upd j (\<lambda>t. t\<lparr>aBuf := (aBuf t)[n := pHostBuf + ALIGNMENT_SIZE (uRxDesc l)], aLen := (aLen t)[n := ucast (uBuffSize l)]\<rparr>) s;
                   l = l\<lparr>uAggregPktsNum := uAggregPktsNum l + 1, uTotalAggregLen := uTotalAggregLen l + uBuffSize l\<rparr>;
                   l = (if uAggregPktsNum l \<ge> uMaxAggregPkts s then l\<lparr>bIssueTxn := True\<rparr> else l)
               in Inr (s\<lparr>uDrvRxCntr := uDrvRxCntr s + 1\<rparr>, l))"

definition rx_flush :: "rx_loc \<Rightarrow> rx_loc" where
  "rx_flush l = (if uAggregPktsNum l > 0 then l\<lparr>bIssueTxn := True\<rparr> else l)"

text \<open>The first part of the loop's body: what to do with the next packet.\<close>

definition rx_fetch :: "rx_env \<Rightarrow> u32 \<Rightarrow> TRxXfer \<Rightarrow> rx_loc \<Rightarrow> rx_fault + TRxXfer \<times> rx_loc" where
  "rx_fetch env uFwIndex s l =
     (let uDrvIndex = uDrvRxCntr s mod of_nat NUM_RX_PKT_DESC in
      if uDrvIndex \<noteq> uFwIndex then
        let d = aRxPktsDesc s ! unat uDrvIndex;
            l = l\<lparr>uRxDesc := d, uBuffSize := push_bit 2 (RX_DESC_GET_LENGTH d)\<rparr>
        in if uTotalAggregLen l + uBuffSize l > uMaxAggregLen s then Inr (s, l\<lparr>bIssueTxn := True\<rparr>)
           else
             case rx_alloc env s (uBuffSize l) (RX_DESC_GET_PACKET_CLASS_TAG d) of
               (RX_BUF_ALLOC_COMPLETE, buf) \<Rightarrow> rx_join s l buf
             | (RX_BUF_ALLOC_PENDING, buf) \<Rightarrow>
                 Inr (rx_stat (\<lambda>x. x\<lparr>uCountBufPend := uCountBufPend x + 1\<rparr>) (s\<lparr>bPendingBuffer := True\<rparr>), rx_flush (l\<lparr>bExit := True\<rparr>))
             | (RX_BUF_ALLOC_OUT_OF_MEM, buf) \<Rightarrow>
                 Inr (rx_stat (\<lambda>x. x\<lparr>uCountBufNoMem := uCountBufNoMem x + 1\<rparr>) s, rx_flush (l\<lparr>bDropLastPkt := True\<rparr>))
      else Inr (s, rx_flush (l\<lparr>bExit := True\<rparr>)))"

definition rx_next_index :: "TRxXfer \<Rightarrow> TRxXfer" where
  "rx_next_index s = s\<lparr>uCurrTxnIndex := (uCurrTxnIndex s + 1) mod of_nat MAX_CONSECUTIVE_READ_TXN\<rparr>"

text \<open>The second part: send the current transaction, after its last length and its flag are set.\<close>

definition rx_prep :: "nat \<Rightarrow> rx_loc \<Rightarrow> TRxXfer \<Rightarrow> TRxXfer" where
  "rx_prep j l s =
     (let n = unat (uAggregPktsNum l);
          s = (if bExit l then rx_upd j (\<lambda>t. t\<lparr>rx_params := TXN_PARAM_SET_END_OF_BURST (rx_params t) 1\<rparr>) s else s)
      in if n < MAX_XFER_BUFS then rx_upd j (\<lambda>t. t\<lparr>aLen := (aLen t)[n := 0]\<rparr>) s else s)"

definition rx_send :: "rx_env \<Rightarrow> TRxXfer \<Rightarrow> rx_loc \<Rightarrow> rx_fault + TRxXfer \<times> rx_loc" where
  "rx_send env s l =
     (if \<not> bIssueTxn l then Inr (s, l)
      else
        case pTxn l of
          None \<Rightarrow> Inl RxNullTxn
        | Some j \<Rightarrow>
            let n = unat (uAggregPktsNum l);
                (st, s) = rxXfer_IssueTxn env (rx_prep j l s) (uFirstMemBlk l);
                s = (if st = TXN_STATUS_COMPLETE then rxXfer_ForwardPacket s j
                     else if st = TXN_STATUS_PENDING then s\<lparr>uAvailableTxn := uAvailableTxn s - 1\<rparr> else s)
            in if n = 0 \<or> n > MAX_XFER_BUFS then Inl RxAggregIndex
               else
                 let s = rx_stat (\<lambda>x. x\<lparr>uCountPktAggreg := (uCountPktAggreg x)[n - 1 := uCountPktAggreg x ! (n - 1) + 1]\<rparr>) s
                 in Inr (rx_next_index s, l\<lparr>uAggregPktsNum := 0, uTotalAggregLen := 0, bIssueTxn := False\<rparr>))"

text \<open>The third part: a packet for which there is no memory is read into the dummy buffer.\<close>

definition rx_drop :: "rx_env \<Rightarrow> TRxXfer \<Rightarrow> rx_loc \<Rightarrow> TRxXfer \<times> rx_loc" where
  "rx_drop env s l =
     (if \<not> bDropLastPkt l then (s, l)
      else
        let s = s\<lparr>uDrvRxCntr := uDrvRxCntr s + 1\<rparr>;
            l = l\<lparr>uFirstMemBlk := SLV_MEM_CP_VALUE (uRxDesc l) (uPacketMemoryPoolStart s)\<rparr>;
            i = unat (uCurrTxnIndex s);
            l = l\<lparr>pTxn := Some i\<rparr>;
            s = rx_upd i (\<lambda>t. t\<lparr>aBuf := (aBuf t)[0 := aTempBuffer s], aLen := (aLen t)[0 := ucast (uBuffSize l), 1 := 0],
                  rx_hwAddr := SLV_MEM_DATA, rx_doneCb := RxCbPktDrop\<rparr>) s;
            (st, s) = rxXfer_IssueTxn env s (uFirstMemBlk l);
            s = (if st = TXN_STATUS_PENDING then s\<lparr>uAvailableTxn := uAvailableTxn s - 1\<rparr> else s)
        in (rx_next_index s, l\<lparr>bDropLastPkt := False\<rparr>))"

definition rx_round :: "rx_env \<Rightarrow> u32 \<Rightarrow> TRxXfer \<Rightarrow> rx_loc \<Rightarrow> rx_fault + TRxXfer \<times> rx_loc" where
  "rx_round env uFwIndex s l =
     (case rx_fetch env uFwIndex s l of
        Inl e \<Rightarrow> Inl e
      | Inr (s, l) \<Rightarrow> (case rx_send env s l of Inl e \<Rightarrow> Inl e | Inr (s, l) \<Rightarrow> Inr (rx_drop env s l)))"

text \<open>The loop. \<open>None\<close> is a call that does not return.\<close>

partial_function (option) rx_loop :: "rx_env \<Rightarrow> u32 \<Rightarrow> TRxXfer \<Rightarrow> rx_loc \<Rightarrow> (rx_fault + TRxXfer) option" where
  "rx_loop env fw s l =
     (case rx_round env fw s l of
        Inl e \<Rightarrow> Some (Inl e)
      | Inr (s, l) \<Rightarrow> if bExit l then Some (Inr s) else rx_loop env fw s l)"

declare rx_loop.simps [code]

definition rxXfer_Handle :: "rx_env \<Rightarrow> TRxXfer \<Rightarrow> (rx_fault + ti_status \<times> TRxXfer) option" where
  "rxXfer_Handle env s =
     (if uAvailableTxn s = 0 then Some (Inr (TI_NOK, s))
      else map_option (map_sum id (Pair TI_OK)) (rx_loop env (uFwRxCntr s mod of_nat NUM_RX_PKT_DESC) s rx_loc0))"

section \<open>Events\<close>

definition rxXfer_RxEvent :: "rx_env \<Rightarrow> TRxXfer \<Rightarrow> FwStatus_t \<Rightarrow> (rx_fault + ti_status \<times> TRxXfer) option" where
  "rxXfer_RxEvent env s fw =
     (let c = ucast (fwRxCntr (counters fw)) :: u32 in
      if c mod of_nat NUM_RX_PKT_DESC = uFwRxCntr s mod of_nat NUM_RX_PKT_DESC then Some (Inr (TXN_STATUS_COMPLETE, s))
      else
        let s = rx_stat (\<lambda>x. x\<lparr>uCountFwEvents := uCountFwEvents x + 1\<rparr>) s;
            s = s\<lparr>uFwRxCntr := c, aRxPktsDesc := map (\<lambda>i. rxPktsDesc fw ! i) [0..<NUM_RX_PKT_DESC]\<rparr>
        in map_option (map_sum id (\<lambda>(_, s). (TXN_STATUS_COMPLETE, s))) (rxXfer_Handle env s))"

definition rxXfer_TxnDoneCb :: "rx_env \<Rightarrow> TRxXfer \<Rightarrow> nat \<Rightarrow> (rx_fault + TRxXfer) option" where
  "rxXfer_TxnDoneCb env s i =
     (let s = s\<lparr>uAvailableTxn := uAvailableTxn s + 1\<rparr>;
          s = rxXfer_ForwardPacket s i
      in if bPendingBuffer s then map_option (map_sum id snd) (rxXfer_Handle env (s\<lparr>bPendingBuffer := False\<rparr>)) else Some (Inr s))"

definition rxXfer_PktDropTxnDoneCb :: "TRxXfer \<Rightarrow> nat \<Rightarrow> TRxXfer" where
  "rxXfer_PktDropTxnDoneCb s i = rx_upd i (\<lambda>t. t\<lparr>rx_doneCb := RxCbTxnDone\<rparr>) (s\<lparr>uAvailableTxn := uAvailableTxn s + 1\<rparr>)"

text \<open>The bus completes the oldest transaction; \<open>TwIf\<close> calls its callback.\<close>

definition rx_BusDone :: "rx_env \<Rightarrow> TRxXfer \<Rightarrow> (rx_fault + TRxXfer) option" where
  "rx_BusDone env s =
     (case rx_flight s of
        [] \<Rightarrow> Some (Inr s)
      | i # is \<Rightarrow>
          let s = rx_land env i (s\<lparr>rx_flight := is\<rparr>) in
          (case rx_doneCb (rx_at s i) of
             RxCbTxnDone \<Rightarrow> rxXfer_TxnDoneCb env s i
           | RxCbPktDrop \<Rightarrow> Some (Inr (rxXfer_PktDropTxnDoneCb s i))
           | RxCbNull \<Rightarrow> Some (Inr s)))"

section \<open>Construction, configuration and restart\<close>

definition zero_rx_txn :: rx_txn where
  "zero_rx_txn = \<lparr>rx_params = 0, rx_hwAddr = 0, rx_doneCb = RxCbNull, aLen = replicate MAX_XFER_BUFS 0, aBuf = replicate MAX_XFER_BUFS NULL\<rparr>"

definition rxXfer_ClearStats :: "TRxXfer \<Rightarrow> TRxXfer" where
  "rxXfer_ClearStats s = s\<lparr>tDbgStat := \<lparr>uCountFwEvents = 0, uCountPktsForward = 0, uCountBufPend = 0, uCountBufNoMem = 0,
     uCountPktAggreg = replicate MAX_XFER_BUFS 0\<rparr>\<rparr>"

text \<open>\<open>mem\<close> is what \<open>os_memoryAlloc\<close> returns, \<open>tmp\<close> the address of the dummy buffer in it, \<open>hm\<close> the host memory.\<close>

definition rxXfer_Create :: "handle \<Rightarrow> handle \<Rightarrow> (handle \<Rightarrow> RxIfDescriptor_t) \<Rightarrow> TRxXfer option" where
  "rxXfer_Create mem tmp hm =
     (if mem = NULL then None
      else Some \<lparr>aRxPktsDesc = replicate NUM_RX_PKT_DESC 0, uFwRxCntr = 0, uDrvRxCntr = 0, uPacketMemoryPoolStart = 0, uMaxAggregLen = 0, uMaxAggregPkts = 0,
        RequestForBufferCB = NULL, RequestForBufferCB_handle = NULL, bPendingBuffer = False, uCurrTxnIndex = 0, uAvailableTxn = 0,
        aSlaveRegTxn = replicate MAX_CONSECUTIVE_READ_TXN \<lparr>reg_params = 0, reg_hwAddr = 0, uRegData = 0, uRegAdata = 0\<rparr>,
        aTxnStruct = replicate MAX_CONSECUTIVE_READ_TXN zero_rx_txn,
        aCounterTxn = replicate MAX_CONSECUTIVE_READ_TXN \<lparr>cnt_params = 0, cnt_hwAddr = 0, uCounter = 0\<rparr>,
        aTempBuffer = tmp, rx_fErrCb = NULL, rx_hErrCb = NULL,
        tDbgStat = \<lparr>uCountFwEvents = 0, uCountPktsForward = 0, uCountBufPend = 0, uCountBufNoMem = 0, uCountPktAggreg = replicate MAX_XFER_BUFS 0\<rparr>,
        rx_mem = hm, rx_flight = [], rx_log = []\<rparr>)"

text \<open>Whether the object is freed.\<close>

definition rxXfer_Destroy :: "TRxXfer option \<Rightarrow> bool" where
  "rxXfer_Destroy s \<longleftrightarrow> s \<noteq> None"

text \<open>The buffers of a transaction that was on its way are marked and passed on, to be freed.\<close>

fun mark_loop :: "nat list \<Rightarrow> nat \<Rightarrow> TRxXfer \<Rightarrow> TRxXfer" where
  "mark_loop [] i s = s"
| "mark_loop (k # ks) i s =
     (if aLen (rx_at s i) ! k = 0 then s
      else mark_loop ks i (rx_write (aBuf (rx_at s i) ! k) (\<lambda>d. d\<lparr>packet_class_tag := TAG_CLASS_UNKNOWN\<rparr>) s))"

definition rx_release :: "nat \<Rightarrow> TRxXfer \<Rightarrow> TRxXfer" where
  "rx_release i s =
     (if aBuf (rx_at s i) ! 0 \<noteq> NULL \<and> rx_doneCb (rx_at s i) = RxCbTxnDone
      then rxXfer_ForwardPacket (mark_loop [0..<MAX_XFER_BUFS] i s) i else s)"

definition rx_fill :: "nat \<Rightarrow> TRxXfer \<Rightarrow> TRxXfer" where
  "rx_fill i s =
     (let r = aSlaveRegTxn s ! i; c = aCounterTxn s ! i;
          s = s\<lparr>aSlaveRegTxn := (aSlaveRegTxn s)[i := r\<lparr>reg_params := TXN_PARAM_SET (reg_params r) TXN_LOW_PRIORITY TXN_FUNC_ID_WLAN TXN_DIRECTION_WRITE TXN_INC_ADDR,
                  reg_hwAddr := SLV_REG_DATA\<rparr>]\<rparr>;
          s = rx_upd i (\<lambda>t. t\<lparr>rx_params := TXN_PARAM_SET (rx_params t) TXN_LOW_PRIORITY TXN_FUNC_ID_WLAN TXN_DIRECTION_READ TXN_FIXED_ADDR,
                  rx_doneCb := RxCbTxnDone\<rparr>) s
      in s\<lparr>aCounterTxn := (aCounterTxn s)[i := c\<lparr>cnt_params := TXN_PARAM_SET (cnt_params c) TXN_LOW_PRIORITY TXN_FUNC_ID_WLAN TXN_DIRECTION_WRITE TXN_INC_ADDR,
                  cnt_hwAddr := RX_DRIVER_COUNTER_ADDRESS\<rparr>]\<rparr>)"

definition rxXfer_Restart :: "TRxXfer \<Rightarrow> TRxXfer" where
  "rxXfer_Restart s =
     (let s = s\<lparr>uFwRxCntr := 0, uDrvRxCntr := 0, uCurrTxnIndex := 0, uAvailableTxn := of_nat (MAX_CONSECUTIVE_READ_TXN - 1)\<rparr>;
          s = fold rx_release [0..<MAX_CONSECUTIVE_READ_TXN] s
      in fold rx_fill [0..<MAX_CONSECUTIVE_READ_TXN] s)"

definition rxXfer_Init :: "TRxXfer \<Rightarrow> TRxXfer" where
  "rxXfer_Init s = rxXfer_ClearStats (rxXfer_Restart s)"

definition rxXfer_SetDefaults :: "TRxXfer \<Rightarrow> u32 \<Rightarrow> TRxXfer" where
  "rxXfer_SetDefaults s uRxAggregPktsLimit = s\<lparr>uMaxAggregPkts := uRxAggregPktsLimit\<rparr>"

definition rxXfer_SetBusParams :: "TRxXfer \<Rightarrow> u32 \<Rightarrow> TRxXfer" where
  "rxXfer_SetBusParams s uDmaBufLen = s\<lparr>uMaxAggregLen := uDmaBufLen\<rparr>"

text \<open>\<open>TWD_INT_REQUEST_FOR_BUFFER\<close> is the only callback the module knows; \<open>is_req\<close> says whether the identifier is that one.\<close>

definition rxXfer_Register_CB :: "TRxXfer \<Rightarrow> bool \<Rightarrow> handle \<Rightarrow> handle \<Rightarrow> TRxXfer" where
  "rxXfer_Register_CB s is_req f h = (if is_req then s\<lparr>RequestForBufferCB := f, RequestForBufferCB_handle := h\<rparr> else s)"

definition rxXfer_SetRxDirectAccessParams :: "TRxXfer \<Rightarrow> u32 \<Rightarrow> TRxXfer" where
  "rxXfer_SetRxDirectAccessParams s a = s\<lparr>uPacketMemoryPoolStart := a\<rparr>"

definition rxXfer_RegisterErrCb :: "TRxXfer \<Rightarrow> handle \<Rightarrow> handle \<Rightarrow> TRxXfer" where
  "rxXfer_RegisterErrCb s f h = s\<lparr>rx_fErrCb := f, rx_hErrCb := h\<rparr>"

section \<open>The handler returns\<close>

text \<open>The fields that neither the log, the memory, the structures nor the statistics are.\<close>

definition rx_core :: "TRxXfer \<Rightarrow> TRxXfer" where
  "rx_core s = s\<lparr>aSlaveRegTxn := [], aTxnStruct := [], aCounterTxn := [], tDbgStat := undefined, rx_mem := undefined, rx_flight := [], rx_log := []\<rparr>"

lemma rx_core_simps [simp]:
  "rx_core (rx_emit e s) = rx_core s" "rx_core (rx_upd i f s) = rx_core s" "rx_core (rx_stat g s) = rx_core s" "rx_core (rx_write b h s) = rx_core s"
  "rx_core (s\<lparr>aSlaveRegTxn := v1\<rparr>) = rx_core s" "rx_core (s\<lparr>aCounterTxn := v2\<rparr>) = rx_core s" "rx_core (s\<lparr>rx_flight := v3\<rparr>) = rx_core s"
  by (simp_all add: rx_core_def rx_emit_def rx_upd_def rx_stat_def rx_write_def)

lemma rx_core_fields:
  assumes "rx_core s = rx_core t"
  shows "aRxPktsDesc s = aRxPktsDesc t" "uFwRxCntr s = uFwRxCntr t" "uDrvRxCntr s = uDrvRxCntr t" "uPacketMemoryPoolStart s = uPacketMemoryPoolStart t"
    "uMaxAggregLen s = uMaxAggregLen t" "uMaxAggregPkts s = uMaxAggregPkts t" "bPendingBuffer s = bPendingBuffer t" "uCurrTxnIndex s = uCurrTxnIndex t"
    "uAvailableTxn s = uAvailableTxn t" "aTempBuffer s = aTempBuffer t" "rx_fErrCb s = rx_fErrCb t"
  using assms by (cases s; cases t; simp add: rx_core_def)+

lemma fwd_check_core [simp]: "rx_core (fwd_check s i k) = rx_core s"
  by (simp add: fwd_check_def Let_def)

lemma fwd_one_core [simp]: "rx_core (fwd_one s i k) = rx_core s"
  by (simp add: fwd_one_def Let_def)

lemma fwd_loop_core [simp]: "rx_core (fwd_loop ks i s) = rx_core s"
  by (induction ks i s rule: fwd_loop.induct) simp_all

lemma forward_core [simp]: "rx_core (rxXfer_ForwardPacket s i) = rx_core s"
  by (simp add: rxXfer_ForwardPacket_def)

lemma land_loop_core [simp]: "rx_core (land_loop env ks i s) = rx_core s"
  by (induction env ks i s rule: land_loop.induct) simp_all

lemma transact_core [simp]: "rx_core (snd (rx_transact env s i)) = rx_core s"
  by (simp add: rx_transact_def rx_land_def Let_def)

lemma issue_core [simp]: "rx_core (snd (rxXfer_IssueTxn env s a)) = rx_core s"
proof -
  have "rx_core t2 = rx_core t" if "rx_transact env t i = (st, t2)" for t i st t2
    using transact_core [of env t i] that by simp
  then show ?thesis by (fastforce simp: rxXfer_IssueTxn_def Let_def split: prod.split)
qed

text \<open>The packets that are left to read; indices of descriptors are the counters' last three bits.\<close>

definition idx3 :: "u32 \<Rightarrow> 3 word" where "idx3 x = ucast x"

definition rx_left :: "u32 \<Rightarrow> TRxXfer \<Rightarrow> nat" where
  "rx_left fw s = unat (idx3 fw - idx3 (uDrvRxCntr s))"

lemma unat_idx3: "unat (idx3 x) = unat x mod 8"
  by (simp add: idx3_def unsigned_ucast_eq take_bit_eq_mod)

lemma idx3_plus: "idx3 (x + y) = idx3 x + idx3 y"
proof -
  have "unat (idx3 (x + y)) = unat (idx3 x + idx3 y)"
    by (simp add: unat_idx3 unat_word_ariths mod_mod_cancel mod_simps)
  then show ?thesis by (simp add: word_unat_eq_iff)
qed

lemma idx3_1 [simp]: "idx3 1 = 1"
  by (simp add: idx3_def)

lemma mod8_idx3: "unat (x mod of_nat NUM_RX_PKT_DESC :: u32) = unat (idx3 x)"
  by (simp add: NUM_RX_PKT_DESC_def unat_mod unat_idx3)

lemma left_0_iff:
  assumes "fw < 8"
  shows "rx_left fw s = 0 \<longleftrightarrow> uDrvRxCntr s mod of_nat NUM_RX_PKT_DESC = fw"
proof -
  have "unat fw < 8" using assms by (simp add: word_less_nat_alt)
  then have "unat (idx3 fw) = unat fw" by (simp add: unat_idx3)
  then show ?thesis by (auto simp: rx_left_def mod8_idx3 word_unat_eq_iff [of "uDrvRxCntr s mod _"] word_unat_eq_iff [of "idx3 fw"] unat_eq_zero)
qed

lemma left_Suc:
  assumes "rx_left fw s \<noteq> 0" "uDrvRxCntr t = uDrvRxCntr s + 1"
  shows "rx_left fw t = rx_left fw s - 1"
proof -
  have "idx3 fw - idx3 (uDrvRxCntr t) = (idx3 fw - idx3 (uDrvRxCntr s)) - 1" by (simp add: assms(2) idx3_plus)
  moreover have "idx3 fw - idx3 (uDrvRxCntr s) \<noteq> 0" using assms(1) by (auto simp: rx_left_def)
  ultimately show ?thesis unfolding rx_left_def by (metis unat_dec)
qed

lemma left_less: "rx_left fw s < 8"
  using unsigned_less [of "idx3 fw - idx3 (uDrvRxCntr s)"] by (simp add: rx_left_def)

lemma rx_join_left:
  assumes "rx_join s l b = Inr (t, l')"
  shows "uDrvRxCntr t = uDrvRxCntr s + 1 \<and> uAggregPktsNum l' = uAggregPktsNum l + 1 \<and> unat (uAggregPktsNum l) < 4 \<and> bExit l' = bExit l \<and> bDropLastPkt l' = bDropLastPkt l"
  using assms by (auto simp: rx_join_def Let_def MAX_XFER_BUFS_def rx_upd_def split: option.splits if_splits)

lemma prep_core [simp]: "rx_core (rx_prep j l s) = rx_core s"
  by (simp add: rx_prep_def Let_def)

lemma rx_send_left:
  assumes "rx_send env s l = Inr (t, l')"
  shows "uDrvRxCntr t = uDrvRxCntr s \<and> bExit l' = bExit l \<and> bDropLastPkt l' = bDropLastPkt l \<and>
    \<not> bIssueTxn l' \<and> (if bIssueTxn l then uAggregPktsNum l \<noteq> 0 \<and> uAggregPktsNum l' = 0 else uAggregPktsNum l' = uAggregPktsNum l)"
proof -
  have "rx_core s2 = rx_core s1" if "rxXfer_IssueTxn env s1 a = (st, s2)" for s1 a st s2
    using issue_core [of env s1 a] that by simp
  note c = rx_core_fields(3) [OF this]
  show ?thesis using assms
    by (auto simp: rx_send_def Let_def rx_next_index_def rx_stat_def rx_upd_def rx_core_fields(3) [OF forward_core] rx_core_fields(3) [OF prep_core] unat_eq_zero dest!: c split: option.splits if_splits prod.splits)
qed

lemma rx_drop_left:
  "uDrvRxCntr (fst (rx_drop env s l)) = (if bDropLastPkt l then uDrvRxCntr s + 1 else uDrvRxCntr s) \<and> bExit (snd (rx_drop env s l)) = bExit l \<and>
   uAggregPktsNum (snd (rx_drop env s l)) = uAggregPktsNum l \<and> bIssueTxn (snd (rx_drop env s l)) = bIssueTxn l \<and> \<not> bDropLastPkt (snd (rx_drop env s l))"
proof -
  have "rx_core s2 = rx_core s1" if "rxXfer_IssueTxn env s1 a = (st, s2)" for s1 a st s2
    using issue_core [of env s1 a] that by simp
  note c = rx_core_fields(3) [OF this]
  show ?thesis
    by (auto simp: rx_drop_def Let_def rx_next_index_def rx_upd_def dest!: c split: prod.splits)
qed

definition rx_start :: "rx_loc \<Rightarrow> bool" where
  "rx_start l \<longleftrightarrow> \<not> bIssueTxn l \<and> \<not> bDropLastPkt l \<and> \<not> bExit l"

definition rx_measure :: "u32 \<Rightarrow> TRxXfer \<Rightarrow> rx_loc \<Rightarrow> nat" where
  "rx_measure fw s l = 2 * rx_left fw s + (if uAggregPktsNum l = 0 then 0 else 1)"

lemma rx_start_0 [simp]: "rx_start rx_loc0"
  by (simp add: rx_start_def rx_loc0_def)

text \<open>The cases of the first part of a round.\<close>

definition rx_desc :: "TRxXfer \<Rightarrow> rx_loc \<Rightarrow> rx_loc" where
  "rx_desc s l = (let d = aRxPktsDesc s ! unat (uDrvRxCntr s mod of_nat NUM_RX_PKT_DESC) in l\<lparr>uRxDesc := d, uBuffSize := push_bit 2 (RX_DESC_GET_LENGTH d)\<rparr>)"

lemma rx_desc_simps [simp]:
  "uAggregPktsNum (rx_desc s l) = uAggregPktsNum l" "uFirstMemBlk (rx_desc s l) = uFirstMemBlk l" "uTotalAggregLen (rx_desc s l) = uTotalAggregLen l"
  "pTxn (rx_desc s l) = pTxn l" "bIssueTxn (rx_desc s l) = bIssueTxn l" "bDropLastPkt (rx_desc s l) = bDropLastPkt l" "bExit (rx_desc s l) = bExit l"
  by (simp_all add: rx_desc_def Let_def)

lemma rx_flush_simps [simp]:
  "uAggregPktsNum (rx_flush l) = uAggregPktsNum l" "uFirstMemBlk (rx_flush l) = uFirstMemBlk l" "uTotalAggregLen (rx_flush l) = uTotalAggregLen l"
  "pTxn (rx_flush l) = pTxn l" "bIssueTxn (rx_flush l) \<longleftrightarrow> bIssueTxn l \<or> uAggregPktsNum l \<noteq> 0" "bDropLastPkt (rx_flush l) = bDropLastPkt l"
  "bExit (rx_flush l) = bExit l" "uRxDesc (rx_flush l) = uRxDesc l" "uBuffSize (rx_flush l) = uBuffSize l"
  by (auto simp: rx_flush_def word_gt_0)

lemma rx_stat_simps [simp]:
  "uDrvRxCntr (rx_stat f s) = uDrvRxCntr s"
  by (simp add: rx_stat_def)

lemma rx_fetch_cases:
  assumes "rx_fetch env fw s l = Inr (t, l')" "rx_start l" "fw < 8"
  obtains (full) "rx_left fw s \<noteq> 0" "uTotalAggregLen l + uBuffSize (rx_desc s l) > uMaxAggregLen s" "t = s" "l' = (rx_desc s l)\<lparr>bIssueTxn := True\<rparr>"
  | (join) b where "rx_left fw s \<noteq> 0" "\<not> uTotalAggregLen l + uBuffSize (rx_desc s l) > uMaxAggregLen s" "rx_join s (rx_desc s l) b = Inr (t, l')"
  | (pend) "rx_left fw s \<noteq> 0" "t = rx_stat (\<lambda>x. x\<lparr>uCountBufPend := uCountBufPend x + 1\<rparr>) (s\<lparr>bPendingBuffer := True\<rparr>)" "l' = rx_flush ((rx_desc s l)\<lparr>bExit := True\<rparr>)"
  | (nomem) "rx_left fw s \<noteq> 0" "t = rx_stat (\<lambda>x. x\<lparr>uCountBufNoMem := uCountBufNoMem x + 1\<rparr>) s" "l' = rx_flush ((rx_desc s l)\<lparr>bDropLastPkt := True\<rparr>)"
  | (empty) "rx_left fw s = 0" "t = s" "l' = rx_flush (l\<lparr>bExit := True\<rparr>)"
proof -
  let ?l = "rx_desc s l"
  have l: "uTotalAggregLen l = uTotalAggregLen ?l" by (simp add: rx_desc_def Let_def)
  show thesis
  proof (cases "rx_left fw s = 0")
    case True
    with assms(1) left_0_iff [OF assms(3), of s] show ?thesis by (intro empty [OF True]) (simp_all add: rx_fetch_def Let_def)
  next
    case left: False
    with left_0_iff [OF assms(3), of s] have ix: "uDrvRxCntr s mod of_nat NUM_RX_PKT_DESC \<noteq> fw" by simp
    show ?thesis
    proof (cases "uTotalAggregLen l + uBuffSize ?l > uMaxAggregLen s")
      case True
      with assms(1) ix show ?thesis by (intro full [OF left True]) (auto simp: rx_fetch_def Let_def rx_desc_def)
    next
      case False
      obtain a b where a: "rx_alloc env s (uBuffSize ?l) (RX_DESC_GET_PACKET_CLASS_TAG (uRxDesc ?l)) = (a, b)" by fastforce
      have e: "rx_fetch env fw s l = (case a of RX_BUF_ALLOC_COMPLETE \<Rightarrow> rx_join s ?l b
          | RX_BUF_ALLOC_PENDING \<Rightarrow> Inr (rx_stat (\<lambda>x. x\<lparr>uCountBufPend := uCountBufPend x + 1\<rparr>) (s\<lparr>bPendingBuffer := True\<rparr>), rx_flush (?l\<lparr>bExit := True\<rparr>))
          | RX_BUF_ALLOC_OUT_OF_MEM \<Rightarrow> Inr (rx_stat (\<lambda>x. x\<lparr>uCountBufNoMem := uCountBufNoMem x + 1\<rparr>) s, rx_flush (?l\<lparr>bDropLastPkt := True\<rparr>)))"
        using ix False a by (cases a) (simp_all add: rx_fetch_def Let_def rx_desc_def)
      show ?thesis
      proof (cases a)
        case RX_BUF_ALLOC_PENDING
        then show ?thesis using e assms(1) by (intro pend [OF left]) simp_all
      next
        case RX_BUF_ALLOC_COMPLETE
        then show ?thesis using e assms(1) by (intro join [OF left False]) simp
      next
        case RX_BUF_ALLOC_OUT_OF_MEM
        then show ?thesis using e assms(1) by (intro nomem [OF left]) simp_all
      qed
    qed
  qed
qed

lemma rx_round_measure:
  assumes "rx_round env fw s l = Inr (t, l')" "rx_start l" "fw < 8" "\<not> bExit l'"
  shows "rx_measure fw t l' < rx_measure fw s l \<and> rx_start l'"
proof -
  from assms(1) obtain s1 l1 s2 l2 where f: "rx_fetch env fw s l = Inr (s1, l1)" and r: "rx_send env s1 l1 = Inr (s2, l2)"
    and d: "rx_drop env s2 l2 = (t, l')"
    by (auto simp: rx_round_def split: sum.splits prod.splits)
  note sd = rx_send_left [OF r] rx_drop_left [of env s2 l2, unfolded d, simplified]
  have st: "rx_start l'" using assms(4) sd by (simp add: rx_start_def)
  from f assms(2,3) show ?thesis
  proof (cases rule: rx_fetch_cases)
    case full
    then show ?thesis using sd st assms(2) by (simp add: rx_measure_def rx_start_def rx_left_def)
  next
    case (join b)
    note j = rx_join_left [OF join(3)]
    have "rx_left fw t = rx_left fw s - 1" using join(1) j sd assms(2) by (intro left_Suc) (simp_all add: rx_start_def)
    then show ?thesis using join(1) st by (cases "rx_left fw s") (simp_all add: rx_measure_def)
  next
    case pend
    then show ?thesis using sd assms(4) by simp
  next
    case nomem
    have "rx_left fw t = rx_left fw s - 1" using nomem sd by (intro left_Suc) simp_all
    then show ?thesis using nomem sd st by (auto simp add: rx_measure_def)
  next
    case empty
    then show ?thesis using sd assms(4) by simp
  qed
qed

lemma rx_loop_returns:
  assumes "rx_start l" "fw < 8"
  shows "\<exists>r. rx_loop env fw s l = Some r"
  using assms(1)
proof (induction "rx_measure fw s l" arbitrary: s l rule: less_induct)
  case less
  show ?case
  proof (cases "rx_round env fw s l")
    case (Inl e)
    then show ?thesis by (subst rx_loop.simps) simp
  next
    case (Inr p)
    obtain t l' where p: "p = (t, l')" by fastforce
    show ?thesis
    proof (cases "bExit l'")
      case True
      with Inr p show ?thesis by (subst rx_loop.simps) simp
    next
      case False
      with less.hyps [of t l'] rx_round_measure [OF _ less.prems assms(2), of env s t l'] Inr p show ?thesis by (subst rx_loop.simps) simp
    qed
  qed
qed

end
