(* ===== verification/Wlan_RxXferRun.thy ===== *)
theory Wlan_RxXferRun
  imports Wlan_RxXfer
begin

text \<open>
  The runs of the Rx transfer module: the account of its sixteen transaction structures, what the handler reads, and
  what becomes of dropped packets.
\<close>

section \<open>The account of the transaction structures\<close>

text \<open>How many structures were taken since structure \<open>i\<close>, and the packets counted since its transaction.\<close>

definition rx_age :: "TRxXfer \<Rightarrow> nat \<Rightarrow> nat" where
  "rx_age s i = unat (ucast (uCurrTxnIndex s) - of_nat i :: 4 word)"

definition rx_since :: "TRxXfer \<Rightarrow> nat \<Rightarrow> u32" where
  "rx_since s i = uDrvRxCntr s - uCounter (aCounterTxn s ! i)"

text \<open>
  \<open>rx_acc n b s\<close>: with \<open>n\<close> packets still to be read, and a transaction under construction (\<open>b\<close>) or not. The last clause bounds what the firmware
  announces beyond a transaction that is not completed.
\<close>

definition rx_acc :: "nat \<Rightarrow> bool \<Rightarrow> TRxXfer \<Rightarrow> bool" where
  "rx_acc n b s \<longleftrightarrow> length (aCounterTxn s) = 16 \<and> uCurrTxnIndex s < 16 \<and> distinct (rx_flight s) \<and>
     uAvailableTxn s + of_nat (length (rx_flight s)) = 15 \<and>
     (\<forall>i \<in> set (rx_flight s). i < 16 \<and> 0 < rx_age s i \<and> rx_age s i + of_bool b \<le> 1 + unat (rx_since s i) \<and> unat (rx_since s i) + n \<le> 6)"

lemma rx_acc_eqI:
  assumes "rx_acc n b s" "aCounterTxn t = aCounterTxn s" "uCurrTxnIndex t = uCurrTxnIndex s" "rx_flight t = rx_flight s"
    "uAvailableTxn t = uAvailableTxn s" "uDrvRxCntr t = uDrvRxCntr s"
  shows "rx_acc n b t"
  using assms by (simp add: rx_acc_def rx_age_def rx_since_def)

lemma idx4_next:
  assumes "uCurrTxnIndex s < 16"
  shows "(ucast (uCurrTxnIndex (rx_next_index s)) :: 4 word) = ucast (uCurrTxnIndex s) + 1" "uCurrTxnIndex (rx_next_index s) < 16"
    "unat (uCurrTxnIndex (rx_next_index s)) = Suc (unat (uCurrTxnIndex s)) mod 16"
proof -
  have u: "unat (uCurrTxnIndex s) < 16" using assms by (simp add: word_less_nat_alt)
  then have "unat (uCurrTxnIndex s + 1) = Suc (unat (uCurrTxnIndex s))" by (simp add: unat_word_ariths)
  then show n: "unat (uCurrTxnIndex (rx_next_index s)) = Suc (unat (uCurrTxnIndex s)) mod 16"
    by (simp add: rx_next_index_def MAX_CONSECUTIVE_READ_TXN_def unat_mod)
  then show "uCurrTxnIndex (rx_next_index s) < 16" by (simp add: word_less_nat_alt)
  show "(ucast (uCurrTxnIndex (rx_next_index s)) :: 4 word) = ucast (uCurrTxnIndex s) + 1"
    by (simp add: word_unat_eq_iff unat_word_ariths unsigned_ucast_eq take_bit_eq_mod n mod_simps)
qed

text \<open>A transaction is issued with the current structure.\<close>

definition rx_next_flight :: "ti_status \<Rightarrow> TRxXfer \<Rightarrow> nat list" where
  "rx_next_flight st s = rx_flight s @ (if st = TXN_STATUS_PENDING then [unat (uCurrTxnIndex s)] else [])"

lemma rx_acc_issue:
  assumes a: "rx_acc n b s"
    and t: "uDrvRxCntr t = uDrvRxCntr s + of_bool (\<not> b)" "aCounterTxn t = (aCounterTxn s)[unat (uCurrTxnIndex s) := c]" "uCounter c = uDrvRxCntr t"
      "rx_flight t = rx_next_flight st s" "uAvailableTxn t = (if st = TXN_STATUS_PENDING then uAvailableTxn s - 1 else uAvailableTxn s)"
      "uCurrTxnIndex t = uCurrTxnIndex (rx_next_index s)" and n: "b \<or> 0 < n" "n + of_bool b \<le> 7"
  shows "rx_acc (n - of_bool (\<not> b)) False t"
proof -
  let ?i = "unat (uCurrTxnIndex s)"
  have c: "uCurrTxnIndex s < 16" "length (aCounterTxn s) = 16" using a by (simp_all add: rx_acc_def)
  then have i: "?i < 16" by (simp add: word_less_nat_alt)
  note x = idx4_next [OF c(1)]
  have cast: "(of_nat ?i :: 4 word) = ucast (uCurrTxnIndex s)" by (rule of_nat_unat)
  have new: "rx_age t ?i = 1" "rx_since t ?i = 0"
    using t c i by (simp_all add: rx_age_def x(1) cast rx_since_def)
  have old: "j \<noteq> ?i \<and> rx_age t j = Suc (rx_age s j) \<and> unat (rx_since t j) = unat (rx_since s j) + of_bool (\<not> b)" if j: "j \<in> set (rx_flight s)" for j
  proof -
    from a j have o: "0 < rx_age s j" "rx_age s j + of_bool b \<le> 1 + unat (rx_since s j)" "unat (rx_since s j) + n \<le> 6" by (simp_all add: rx_acc_def)
    have ne: "j \<noteq> ?i" using o(1) by (auto simp: rx_age_def cast)
    have "rx_age s j < 15" using o by simp
    moreover have "rx_age t j = unat ((ucast (uCurrTxnIndex s) - of_nat j :: 4 word) + 1)" by (simp add: rx_age_def t(6) x(1) algebra_simps)
    ultimately have "rx_age t j = Suc (rx_age s j)" by (simp add: rx_age_def unat_word_ariths)
    moreover have "rx_since t j = rx_since s j + of_bool (\<not> b)" using t(1,2) ne by (simp add: rx_since_def)
    then have "unat (rx_since t j) = unat (rx_since s j) + of_bool (\<not> b)" using o(3) by (cases b) (simp_all add: unat_word_ariths)
    ultimately show ?thesis using ne by simp
  qed
  have "\<forall>j \<in> set (rx_flight t). j < 16 \<and> 0 < rx_age t j \<and> rx_age t j + of_bool False \<le> 1 + unat (rx_since t j) \<and> unat (rx_since t j) + (n - of_bool (\<not> b)) \<le> 6"
  proof
    fix j assume "j \<in> set (rx_flight t)"
    then consider "j \<in> set (rx_flight s)" | "j = ?i" by (auto simp: t(4) rx_next_flight_def split: if_splits)
    then show "j < 16 \<and> 0 < rx_age t j \<and> rx_age t j + of_bool False \<le> 1 + unat (rx_since t j) \<and> unat (rx_since t j) + (n - of_bool (\<not> b)) \<le> 6"
    proof cases
      case 1
      with a have "j < 16" "rx_age s j + of_bool b \<le> 1 + unat (rx_since s j)" "unat (rx_since s j) + n \<le> 6" by (simp_all add: rx_acc_def)
      with old [OF 1] n show ?thesis by (cases b) auto
    next
      case 2
      with new i n show ?thesis by (cases b) auto
    qed
  qed
  moreover have "distinct (rx_flight t)" using a old by (auto simp: t(4) rx_next_flight_def rx_acc_def)
  moreover have "uAvailableTxn t + of_nat (length (rx_flight t)) = 15" using a by (auto simp: t(4,5) rx_next_flight_def rx_acc_def)
  ultimately show ?thesis using c x(2) by (simp add: rx_acc_def t(2,6))
qed

lemma rx_acct_simps [simp]:
  "rx_flight (rx_emit e s) = rx_flight s" "rx_flight (rx_upd i f s) = rx_flight s" "rx_flight (rx_stat g s) = rx_flight s" "rx_flight (rx_write w h s) = rx_flight s"
  "aCounterTxn (rx_emit e s) = aCounterTxn s" "aCounterTxn (rx_upd i f s) = aCounterTxn s" "aCounterTxn (rx_stat g s) = aCounterTxn s" "aCounterTxn (rx_write w h s) = aCounterTxn s"
  by (simp_all add: rx_emit_def rx_upd_def rx_stat_def rx_write_def)

lemma fwd_one_acct [simp]: "rx_flight (fwd_one s i k) = rx_flight s" "aCounterTxn (fwd_one s i k) = aCounterTxn s"
  by (simp_all add: fwd_one_def fwd_check_def Let_def)

lemma fwd_loop_acct: "rx_flight (fwd_loop ks i s) = rx_flight s \<and> aCounterTxn (fwd_loop ks i s) = aCounterTxn s"
  by (induction ks i s rule: fwd_loop.induct) simp_all

lemma forward_acct [simp]: "rx_flight (rxXfer_ForwardPacket s i) = rx_flight s" "aCounterTxn (rxXfer_ForwardPacket s i) = aCounterTxn s"
  by (simp_all add: rxXfer_ForwardPacket_def fwd_loop_acct)

lemma land_loop_acct: "rx_flight (land_loop env ks i s) = rx_flight s \<and> aCounterTxn (land_loop env ks i s) = aCounterTxn s"
  by (induction env ks i s rule: land_loop.induct) simp_all

lemma land_acct [simp]: "rx_flight (rx_land env i s) = rx_flight s" "aCounterTxn (rx_land env i s) = aCounterTxn s"
  by (simp_all add: rx_land_def land_loop_acct)

lemma land_core [simp]: "rx_core (rx_land env i s) = rx_core s"
  by (simp add: rx_land_def)

lemmas forward_fields [simp] = rx_core_fields [OF forward_core]
lemmas land_fields [simp] = rx_core_fields [OF land_core]
lemmas emit_fields [simp] = rx_core_fields [OF rx_core_simps(1)]
lemmas upd_fields [simp] = rx_core_fields [OF rx_core_simps(2)]
lemmas stat_fields [simp] = rx_core_fields [OF rx_core_simps(3)]

lemma transact_acct:
  assumes "rx_transact env s i = (st, t)"
  shows "rx_flight t = rx_flight s @ (if st = TXN_STATUS_PENDING then [i] else [])" "aCounterTxn t = aCounterTxn s"
  using assms by (auto simp: rx_transact_def Let_def)

lemma issue_acct:
  assumes "rxXfer_IssueTxn env s a = (st, t)"
  shows "rx_flight t = rx_next_flight st s"
    "\<exists>c. aCounterTxn t = (aCounterTxn s)[unat (uCurrTxnIndex s) := c] \<and> uCounter c = uDrvRxCntr s" "rx_core t = rx_core s"
proof -
  define r where "r = (aSlaveRegTxn s ! unat (uCurrTxnIndex s))\<lparr>reg_hwAddr := SLV_REG_DATA, uRegData := a, uRegAdata := a + 4\<rparr>"
  define s1 where "s1 = rx_emit (RxReg r) (s\<lparr>aSlaveRegTxn := (aSlaveRegTxn s)[unat (uCurrTxnIndex s) := r]\<rparr>)"
  obtain st' s2 where x: "rx_transact env s1 (unat (uCurrTxnIndex s)) = (st', s2)" by fastforce
  define c where "c = (aCounterTxn s2 ! unat (uCurrTxnIndex s))\<lparr>cnt_hwAddr := RX_DRIVER_COUNTER_ADDRESS, uCounter := uDrvRxCntr s2\<rparr>"
  have e: "st' = st" "t = rx_emit (RxCntr c) (s2\<lparr>aCounterTxn := (aCounterTxn s2)[unat (uCurrTxnIndex s) := c]\<rparr>)"
    using assms x by (auto simp: rxXfer_IssueTxn_def Let_def r_def s1_def c_def)
  have "rx_core s2 = rx_core s1" using transact_core [of env s1 "unat (uCurrTxnIndex s)"] by (simp add: x)
  also have "\<dots> = rx_core s" by (simp add: s1_def)
  finally have k: "rx_core s2 = rx_core s" .
  show "rx_core t = rx_core s" by (simp add: e(2) k)
  show "rx_flight t = rx_next_flight st s" using transact_acct(1) [OF x] e by (simp add: rx_next_flight_def s1_def)
  show "\<exists>c. aCounterTxn t = (aCounterTxn s)[unat (uCurrTxnIndex s) := c] \<and> uCounter c = uDrvRxCntr s"
    using transact_acct(2) [OF x] by (intro exI [of _ c]) (simp add: e(2) s1_def c_def rx_core_fields(3) [OF k])
qed

lemma prep_acct [simp]: "rx_flight (rx_prep j l s) = rx_flight s" "aCounterTxn (rx_prep j l s) = aCounterTxn s"
  by (simp_all add: rx_prep_def Let_def)

lemmas prep_fields [simp] = rx_core_fields [OF prep_core]

text \<open>The two parts of a round that issue a transaction.\<close>

lemma rx_issue_acc:
  assumes i: "rxXfer_IssueTxn env s1 a = (st, s2)" and acc: "rx_acc n b s" and n: "b \<or> 0 < n" "n + of_bool b \<le> 7"
    and s1: "uDrvRxCntr s1 = uDrvRxCntr s + of_bool (\<not> b)" "uCurrTxnIndex s1 = uCurrTxnIndex s" "uAvailableTxn s1 = uAvailableTxn s"
      "rx_flight s1 = rx_flight s" "aCounterTxn s1 = aCounterTxn s"
    and t: "rx_flight t = rx_flight s2" "aCounterTxn t = aCounterTxn s2" "uDrvRxCntr t = uDrvRxCntr s2" "uCurrTxnIndex t = uCurrTxnIndex (rx_next_index s2)"
      "uAvailableTxn t = (if st = TXN_STATUS_PENDING then uAvailableTxn s2 - 1 else uAvailableTxn s2)"
  shows "rx_acc (n - of_bool (\<not> b)) False t"
proof -
  note x = issue_acct [OF i]
  note f = rx_core_fields [OF x(3)]
  from x(2) obtain c where c: "aCounterTxn s2 = (aCounterTxn s1)[unat (uCurrTxnIndex s1) := c]" "uCounter c = uDrvRxCntr s1" by blast
  show ?thesis
  proof (rule rx_acc_issue [OF acc])
    show "aCounterTxn t = (aCounterTxn s)[unat (uCurrTxnIndex s) := c]" using c s1 t by simp
    show "rx_flight t = rx_next_flight st s" using x(1) s1 t by (simp add: rx_next_flight_def)
  qed (use c s1 t f n in \<open>simp_all add: rx_next_index_def\<close>)
qed

lemma rx_send_acc:
  assumes "rx_send env s l = Inr (t, l')" "rx_acc n (uAggregPktsNum l \<noteq> 0) s" "uAggregPktsNum l \<noteq> 0 \<Longrightarrow> n \<le> 6"
  shows "rx_acc n (uAggregPktsNum l' \<noteq> 0) t"
proof (cases "bIssueTxn l")
  case False
  with assms show ?thesis by (simp add: rx_send_def)
next
  case True
  from rx_send_left [OF assms(1)] True have z: "uAggregPktsNum l \<noteq> 0" "uAggregPktsNum l' = 0" by simp_all
  from assms(1) True obtain j where j: "pTxn l = Some j" by (auto simp: rx_send_def split: option.splits)
  obtain st s2 where i: "rxXfer_IssueTxn env (rx_prep j l s) (uFirstMemBlk l) = (st, s2)" by fastforce
  have "rx_acc (n - of_bool (\<not> True)) False t"
    by (rule rx_issue_acc [OF i]) (use assms True z j i in \<open>auto simp: rx_send_def rx_next_index_def Let_def split: if_splits\<close>)
  then show ?thesis using z by simp
qed

lemma rx_drop_acc:
  assumes "rx_acc n (uAggregPktsNum l \<noteq> 0) s" "bDropLastPkt l \<Longrightarrow> 0 < n \<and> n \<le> 7 \<and> uAggregPktsNum l = 0"
  shows "rx_acc (n - of_bool (bDropLastPkt l)) (uAggregPktsNum l \<noteq> 0) (fst (rx_drop env s l))"
proof (cases "bDropLastPkt l")
  case False
  with assms show ?thesis by (simp add: rx_drop_def)
next
  case True
  with assms have n: "0 < n" "n \<le> 7" "uAggregPktsNum l = 0" "rx_acc n False s" by simp_all
  define s1 where "s1 = rx_upd (unat (uCurrTxnIndex s)) (\<lambda>t. t\<lparr>aBuf := (aBuf t)[0 := aTempBuffer s], aLen := (aLen t)[0 := ucast (uBuffSize l), 1 := 0],
                  rx_hwAddr := SLV_MEM_DATA, rx_doneCb := RxCbPktDrop\<rparr>) (s\<lparr>uDrvRxCntr := uDrvRxCntr s + 1\<rparr>)"
  obtain st s2 where i: "rxXfer_IssueTxn env s1 (SLV_MEM_CP_VALUE (uRxDesc l) (uPacketMemoryPoolStart s)) = (st, s2)" by fastforce
  have "rx_acc (n - of_bool (\<not> False)) False (fst (rx_drop env s l))"
    by (rule rx_issue_acc [OF i n(4)]) (use True n i in \<open>auto simp: rx_drop_def rx_next_index_def Let_def s1_def split: if_splits\<close>)
  then show ?thesis using n True by simp
qed

lemma rx_join_frame:
  assumes "rx_join s l b = Inr (t, l')"
  shows "rx_flight t = rx_flight s \<and> aCounterTxn t = aCounterTxn s \<and> uCurrTxnIndex t = uCurrTxnIndex s \<and> uAvailableTxn t = uAvailableTxn s"
  using assms by (auto simp: rx_join_def Let_def rx_upd_def split: option.splits if_splits)

lemma rx_acc_join:
  assumes "rx_acc n b s" "0 < n" "uDrvRxCntr t = uDrvRxCntr s + 1" "rx_flight t = rx_flight s" "aCounterTxn t = aCounterTxn s" "uCurrTxnIndex t = uCurrTxnIndex s"
    "uAvailableTxn t = uAvailableTxn s"
  shows "rx_acc (n - 1) True t"
proof -
  have "rx_age t j = rx_age s j \<and> unat (rx_since t j) = Suc (unat (rx_since s j))" if "j \<in> set (rx_flight s)" for j
  proof -
    have "unat (rx_since s j) \<le> 6" using assms(1) that by (force simp: rx_acc_def)
    moreover have "rx_since t j = rx_since s j + 1" using assms by (simp add: rx_since_def)
    ultimately show ?thesis using assms by (simp add: rx_age_def unat_word_ariths)
  qed
  with assms show ?thesis by (fastforce simp: rx_acc_def)
qed

lemma rx_round_acc:
  assumes "rx_round env fw s l = Inr (t, l')" "rx_start l" "fw < 8" "rx_acc (rx_left fw s) (uAggregPktsNum l \<noteq> 0) s"
    "uAggregPktsNum l \<noteq> 0 \<Longrightarrow> rx_left fw s \<le> 6"
  shows "rx_acc (rx_left fw t) (uAggregPktsNum l' \<noteq> 0) t \<and> (uAggregPktsNum l' \<noteq> 0 \<longrightarrow> rx_left fw t \<le> 6)"
proof -
  from assms(1) obtain s1 l1 s2 l2 where f: "rx_fetch env fw s l = Inr (s1, l1)" and r: "rx_send env s1 l1 = Inr (s2, l2)"
    and d: "rx_drop env s2 l2 = (t, l')"
    by (auto simp: rx_round_def split: sum.splits prod.splits)
  note sd = rx_send_left [OF r] rx_drop_left [of env s2 l2, unfolded d, simplified]
  have lt: "rx_left fw s < 8" by (rule left_less)
  have fin: ?thesis if a: "rx_acc n (uAggregPktsNum l1 \<noteq> 0) s1" "uAggregPktsNum l1 \<noteq> 0 \<Longrightarrow> n \<le> 6" "rx_left fw s1 = n"
    "bDropLastPkt l1 \<Longrightarrow> 0 < n \<and> n \<le> 7 \<and> uAggregPktsNum l2 = 0" for n
  proof -
    have "rx_acc (n - of_bool (bDropLastPkt l2)) (uAggregPktsNum l2 \<noteq> 0) t"
      using rx_drop_acc [OF rx_send_acc [OF r a(1,2)], of env] a(4) sd d by simp
    moreover have "rx_left fw t = n - of_bool (bDropLastPkt l2)"
    proof (cases "bDropLastPkt l2")
      case True
      with a(3,4) sd show ?thesis using left_Suc [of fw s1 t] by simp
    next
      case False
      with a(3) sd show ?thesis by (simp add: rx_left_def)
    qed
    ultimately show ?thesis using sd a(2) by (auto split: if_splits)
  qed
  from f assms(2,3) show ?thesis
  proof (cases rule: rx_fetch_cases)
    case full
    show ?thesis by (rule fin [of "rx_left fw s"]) (use full assms in \<open>simp_all add: rx_start_def\<close>)
  next
    case (join b)
    note j = rx_join_left [OF join(3)] rx_join_frame [OF join(3)]
    have "unat (uAggregPktsNum l + 1) = Suc (unat (uAggregPktsNum l))" using j by (simp add: unat_word_ariths)
    then have n: "uAggregPktsNum l1 \<noteq> 0" using j by (intro notI) simp
    show ?thesis
    proof (rule fin [of "rx_left fw s - 1"])
      show "rx_acc (rx_left fw s - 1) (uAggregPktsNum l1 \<noteq> 0) s1" using n rx_acc_join [OF assms(4)] join(1) j by simp
      show "rx_left fw s1 = rx_left fw s - 1" using join(1) j by (intro left_Suc) simp_all
    qed (use lt j assms(2) in \<open>simp_all add: rx_start_def\<close>)
  next
    case pend
    show ?thesis by (rule fin [of "rx_left fw s"]) (use pend assms in \<open>auto simp: rx_start_def rx_left_def intro: rx_acc_eqI\<close>)
  next
    case nomem
    have "uAggregPktsNum l2 = 0" using sd nomem assms(2) by (cases "uAggregPktsNum l = 0") (simp_all add: rx_start_def)
    then show ?thesis by (intro fin [of "rx_left fw s"]) (use nomem assms lt in \<open>auto simp: rx_start_def rx_left_def intro: rx_acc_eqI\<close>)
  next
    case empty
    show ?thesis by (rule fin [of "rx_left fw s"]) (use empty assms in \<open>simp_all add: rx_start_def\<close>)
  qed
qed

text \<open>A rule for the loop: what every round keeps holds at its end.\<close>

lemma rx_loop_rule:
  assumes "rx_loop env fw s l = Some (Inr t)" "rx_start l" "fw < 8" "P s l"
    and r: "\<And>s l t l'. rx_round env fw s l = Inr (t, l') \<Longrightarrow> rx_start l \<Longrightarrow> P s l \<Longrightarrow> P t l'"
  shows "\<exists>l'. P t l' \<and> bExit l'"
  using assms(1-4)
proof (induction "rx_measure fw s l" arbitrary: s l rule: less_induct)
  case less
  obtain t1 l1 where r1: "rx_round env fw s l = Inr (t1, l1)"
    using less.prems(1) by (subst (asm) rx_loop.simps) (auto split: sum.splits)
  note p = r [OF r1 less.prems(2,4)]
  show ?case
  proof (cases "bExit l1")
    case True
    with less.prems(1) r1 have "t = t1" by (subst (asm) rx_loop.simps) simp
    with p True show ?thesis by blast
  next
    case False
    with less.prems(1) r1 have c: "rx_loop env fw t1 l1 = Some (Inr t)" by (subst (asm) rx_loop.simps) simp
    from rx_round_measure [OF r1 less.prems(2,3) False] less.hyps [OF _ c _ less.prems(3) p] show ?thesis by simp
  qed
qed

lemma rx_loop_acc:
  assumes "rx_loop env fw s l = Some (Inr t)" "rx_start l" "fw < 8" "rx_acc (rx_left fw s) (uAggregPktsNum l \<noteq> 0) s"
    "uAggregPktsNum l \<noteq> 0 \<Longrightarrow> rx_left fw s \<le> 6"
  shows "rx_acc (rx_left fw t) False t"
proof -
  let ?P = "\<lambda>s (l :: rx_loc). rx_acc (rx_left fw s) (uAggregPktsNum l \<noteq> 0) s \<and> (uAggregPktsNum l \<noteq> 0 \<longrightarrow> rx_left fw s \<le> 6)"
  have "\<exists>l'. ?P t l' \<and> bExit l'"
  proof (rule rx_loop_rule [where P = ?P, OF assms(1-3)])
    show "?P s l" using assms(4,5) by blast
    show "?P t2 l2" if "rx_round env fw s1 l1 = Inr (t2, l2)" "rx_start l1" "?P s1 l1" for s1 l1 t2 l2
      using rx_round_acc [OF that(1,2) assms(3)] that(3) by blast
  qed
  then show ?thesis by (auto simp: rx_acc_def)
qed

text \<open>The handler changes neither the firmware's counter and descriptors nor the configuration.\<close>

definition rx_const :: "TRxXfer \<Rightarrow> u32 \<times> u32 list \<times> u32 \<times> u32 \<times> u32 \<times> handle \<times> handle" where
  "rx_const s = (uFwRxCntr s, aRxPktsDesc s, uPacketMemoryPoolStart s, uMaxAggregLen s, uMaxAggregPkts s, aTempBuffer s, rx_fErrCb s)"

lemma rx_const_core: "rx_core s = rx_core t \<Longrightarrow> rx_const s = rx_const t"
  using rx_core_fields [of s t] by (simp add: rx_const_def)

lemma rx_const_upd [simp]: "rx_const (s\<lparr>uDrvRxCntr := d\<rparr>) = rx_const s" "rx_const (s\<lparr>uAvailableTxn := v\<rparr>) = rx_const s" "rx_const (rx_next_index s) = rx_const s"
    "rx_const (s\<lparr>bPendingBuffer := p\<rparr>) = rx_const s"
  by (simp_all add: rx_const_def rx_next_index_def)

lemmas rx_const_simps [simp] = rx_core_simps(1-4) [THEN rx_const_core] forward_core [THEN rx_const_core] prep_core [THEN rx_const_core]

lemma rx_round_const:
  assumes "rx_round env fw s l = Inr (t, l')" "rx_start l" "fw < 8"
  shows "rx_const t = rx_const s"
proof -
  from assms(1) obtain s1 l1 s2 l2 where f: "rx_fetch env fw s l = Inr (s1, l1)" and r: "rx_send env s1 l1 = Inr (s2, l2)"
    and d: "rx_drop env s2 l2 = (t, l')"
    by (auto simp: rx_round_def split: sum.splits prod.splits)
  note i = issue_acct(3) [THEN rx_const_core]
  have "rx_const t = rx_const s2" using d by (auto simp: rx_drop_def Let_def dest!: i split: if_splits prod.splits)
  also have "\<dots> = rx_const s1" using r by (auto simp: rx_send_def Let_def dest!: i split: if_splits prod.splits option.splits)
  also from f assms(2,3) have "\<dots> = rx_const s"
    by (cases rule: rx_fetch_cases) (auto simp: rx_join_def Let_def split: option.splits if_splits)
  finally show ?thesis .
qed

lemma rx_loop_const:
  assumes "rx_loop env fw s l = Some (Inr t)" "rx_start l" "fw < 8"
  shows "rx_const t = rx_const s"
  using rx_loop_rule [OF assms, where P = "\<lambda>t _. rx_const t = rx_const s"] rx_round_const [OF _ _ assms(3)] by auto

text \<open>The firmware index of a state, the packets it announces and that are not read.\<close>

definition rx_todo :: "TRxXfer \<Rightarrow> nat" where
  "rx_todo s = rx_left (uFwRxCntr s mod of_nat NUM_RX_PKT_DESC) s"

lemma fw_index_less: "uFwRxCntr s mod of_nat NUM_RX_PKT_DESC < (8 :: u32)"
  by (simp add: word_less_nat_alt mod8_idx3 unat_idx3)

lemma map_sum_InrE:
  assumes "map_sum id g x = Inr y"
  obtains z where "x = Inr z" "y = g z"
  using assms by (cases x) auto

lemma rxXfer_Handle_acc:
  assumes "rxXfer_Handle env s = Some (Inr (st, t))" "rx_acc (rx_todo s) False s"
  shows "rx_acc (rx_todo t) False t"
proof (cases "uAvailableTxn s = 0")
  case True
  with assms show ?thesis by (simp add: rxXfer_Handle_def)
next
  case False
  with assms(1) have l: "rx_loop env (uFwRxCntr s mod of_nat NUM_RX_PKT_DESC) s rx_loc0 = Some (Inr t)"
    by (auto simp: rxXfer_Handle_def elim: map_sum_InrE)
  show ?thesis using rx_loop_acc [OF l rx_start_0 fw_index_less] rx_loop_const [OF l rx_start_0 fw_index_less] assms(2)
    by (simp add: rx_todo_def rx_loc0_def rx_const_def)
qed

section \<open>The shape of the structures\<close>

text \<open>Properties of a structure that survive what the module does to it.\<close>

definition rx_stable :: "(rx_txn \<Rightarrow> bool) \<Rightarrow> bool" where
  "rx_stable Q \<longleftrightarrow> (\<forall>t. Q t \<longrightarrow> (\<forall>p. Q (t\<lparr>rx_params := p\<rparr>)) \<and> (\<forall>a. Q (t\<lparr>rx_hwAddr := a\<rparr>)) \<and> (\<forall>n v. Q (t\<lparr>aBuf := (aBuf t)[n := v]\<rparr>)) \<and>
     (\<forall>n v. Q (t\<lparr>aLen := (aLen t)[n := v]\<rparr>)) \<and> (\<forall>c. c \<noteq> RxCbNull \<longrightarrow> Q (t\<lparr>rx_doneCb := c\<rparr>)))"

definition rx_all :: "(rx_txn \<Rightarrow> bool) \<Rightarrow> TRxXfer \<Rightarrow> bool" where
  "rx_all Q s \<longleftrightarrow> length (aTxnStruct s) = 16 \<and> (\<forall>t \<in> set (aTxnStruct s). Q t)"

lemma rx_all_upd:
  assumes "rx_all Q s" "\<And>t. Q t \<Longrightarrow> Q (f t)"
  shows "rx_all Q (rx_upd i f s)"
proof (cases "i < 16")
  case True
  with assms show ?thesis by (auto simp: rx_all_def rx_upd_def rx_at_def dest!: set_update_subset_insert [THEN subsetD])
next
  case False
  with assms show ?thesis by (simp add: rx_all_def rx_upd_def list_update_beyond)
qed

lemma rx_all_cong: "aTxnStruct t = aTxnStruct s \<Longrightarrow> rx_all Q t = rx_all Q s"
  by (simp add: rx_all_def)

lemma rx_all_simps [simp]:
  "rx_all Q (rx_emit e s) = rx_all Q s" "rx_all Q (rx_stat g s) = rx_all Q s" "rx_all Q (rx_write w h s) = rx_all Q s" "rx_all Q (rx_next_index s) = rx_all Q s"
  "rx_all Q (s\<lparr>aCounterTxn := cs\<rparr>) = rx_all Q s" "rx_all Q (s\<lparr>aSlaveRegTxn := rs\<rparr>) = rx_all Q s" "rx_all Q (s\<lparr>rx_flight := fl\<rparr>) = rx_all Q s"
  "rx_all Q (s\<lparr>uAvailableTxn := n\<rparr>) = rx_all Q s" "rx_all Q (s\<lparr>uDrvRxCntr := n\<rparr>) = rx_all Q s" "rx_all Q (s\<lparr>bPendingBuffer := b\<rparr>) = rx_all Q s"
  by (simp_all add: rx_all_def rx_emit_def rx_stat_def rx_write_def rx_next_index_def)

lemma rx_all_fwd_one: "rx_stable Q \<Longrightarrow> rx_all Q s \<Longrightarrow> rx_all Q (fwd_one s i k)"
  by (auto simp: fwd_one_def fwd_check_def Let_def rx_stable_def intro!: rx_all_upd)

lemma rx_all_fwd_loop: "rx_stable Q \<Longrightarrow> rx_all Q s \<Longrightarrow> rx_all Q (fwd_loop ks i s)"
  by (induction ks i s rule: fwd_loop.induct) (auto simp: rx_all_fwd_one)

lemma rx_all_forward: "rx_stable Q \<Longrightarrow> rx_all Q s \<Longrightarrow> rx_all Q (rxXfer_ForwardPacket s i)"
  by (auto simp: rxXfer_ForwardPacket_def rx_stable_def intro!: rx_all_upd rx_all_fwd_loop)

lemma rx_all_land_loop [simp]: "rx_all Q (land_loop env ks i s) = rx_all Q s"
  by (induction env ks i s rule: land_loop.induct) simp_all

lemma rx_all_issue:
  assumes "rxXfer_IssueTxn env s a = (st, t)"
  shows "rx_all Q t = rx_all Q s"
  using assms by (auto simp: rxXfer_IssueTxn_def rx_transact_def rx_land_def Let_def split: if_splits)

lemma rx_all_prep: "rx_stable Q \<Longrightarrow> rx_all Q s \<Longrightarrow> rx_all Q (rx_prep j l s)"
  by (auto simp: rx_prep_def Let_def rx_stable_def intro!: rx_all_upd)

lemma rx_all_join:
  assumes "rx_join s l b = Inr (t, l')" "rx_stable Q" "rx_all Q s"
  shows "rx_all Q t"
proof -
  have u: "rx_all Q (rx_upd j (\<lambda>t. t\<lparr>aBuf := (aBuf t)[n := v], aLen := (aLen t)[n := w]\<rparr>) s1)" if "rx_all Q s1" for j n v w s1
  proof (rule rx_all_upd [OF that])
    fix t assume "Q t"
    then have "Q (t\<lparr>aBuf := (aBuf t)[n := v]\<rparr>)" using assms(2) by (simp add: rx_stable_def)
    then have "Q ((t\<lparr>aBuf := (aBuf t)[n := v]\<rparr>)\<lparr>aLen := (aLen (t\<lparr>aBuf := (aBuf t)[n := v]\<rparr>))[n := w]\<rparr>)" using assms(2) unfolding rx_stable_def by blast
    then show "Q (t\<lparr>aBuf := (aBuf t)[n := v], aLen := (aLen t)[n := w]\<rparr>)" by simp
  qed
  have h: "rx_all Q (rx_upd j (\<lambda>t. t\<lparr>rx_hwAddr := a\<rparr>) s)" for j a using assms(2,3) by (auto simp: rx_stable_def intro!: rx_all_upd)
  show ?thesis using assms(1) u [OF assms(3)] u [OF h] by (auto simp: rx_join_def Let_def split: option.splits if_splits)
qed

lemma rx_all_drop:
  assumes "rx_drop env s l = (t, l')" "rx_stable Q" "rx_all Q s"
  shows "rx_all Q t"
proof -
  have u: "rx_all Q (rx_upd j (\<lambda>t. t\<lparr>aBuf := (aBuf t)[0 := v], aLen := (aLen t)[0 := w, 1 := 0], rx_hwAddr := a, rx_doneCb := RxCbPktDrop\<rparr>) (s\<lparr>uDrvRxCntr := d\<rparr>))" for j v w a d
  proof (rule rx_all_upd)
    fix t assume q: "Q t"
    have S: "Q (t\<lparr>aBuf := (aBuf t)[n := v]\<rparr>)" "Q (t\<lparr>aLen := (aLen t)[n := x]\<rparr>)" "Q (t\<lparr>rx_hwAddr := a\<rparr>)" "Q (t\<lparr>rx_doneCb := RxCbPktDrop\<rparr>)" if "Q t" for t n v x a
      using assms(2) that by (simp_all add: rx_stable_def)
    from S(4) [OF S(3) [OF S(2) [OF S(2) [OF S(1) [OF q]]]]]
    show "Q (t\<lparr>aBuf := (aBuf t)[0 := v], aLen := (aLen t)[0 := w, 1 := 0], rx_hwAddr := a, rx_doneCb := RxCbPktDrop\<rparr>)" by fastforce
  qed (use assms(3) in simp)
  show ?thesis using assms(1,3) u by (auto simp: rx_drop_def Let_def rx_all_issue split: if_splits prod.splits)
qed

lemma rx_all_round:
  assumes "rx_round env fw s l = Inr (t, l')" "rx_start l" "fw < 8" "rx_stable Q" "rx_all Q s"
  shows "rx_all Q t"
proof -
  from assms(1) obtain s1 l1 s2 l2 where f: "rx_fetch env fw s l = Inr (s1, l1)" and r: "rx_send env s1 l1 = Inr (s2, l2)"
    and d: "rx_drop env s2 l2 = (t, l')"
    by (auto simp: rx_round_def split: sum.splits prod.splits)
  from f assms(2,3) have "rx_all Q s1" using assms(4,5)
    by (cases rule: rx_fetch_cases) (auto intro: rx_all_join)
  then have "rx_all Q s2" using r assms(4)
    by (auto simp: rx_send_def Let_def rx_all_forward rx_all_prep rx_all_issue split: if_splits prod.splits option.splits)
  then show ?thesis using rx_all_drop [OF d assms(4)] by simp
qed

lemma rx_all_Handle:
  assumes "rxXfer_Handle env s = Some (Inr (st, t))" "rx_stable Q" "rx_all Q s"
  shows "rx_all Q t"
proof (cases "uAvailableTxn s = 0")
  case True
  with assms show ?thesis by (simp add: rxXfer_Handle_def)
next
  case False
  with assms(1) have l: "rx_loop env (uFwRxCntr s mod of_nat NUM_RX_PKT_DESC) s rx_loc0 = Some (Inr t)"
    by (auto simp: rxXfer_Handle_def elim: map_sum_InrE)
  from rx_loop_rule [OF l rx_start_0 fw_index_less, where P = "\<lambda>t _. rx_all Q t"] rx_all_round [OF _ _ fw_index_less assms(2)] assms(3)
  show ?thesis by blast
qed

section \<open>Runs\<close>

definition txn_shape :: "rx_txn \<Rightarrow> bool" where
  "txn_shape t \<longleftrightarrow> length (aLen t) = 4 \<and> length (aBuf t) = 4"

definition txn_cb :: "rx_txn \<Rightarrow> bool" where
  "txn_cb t \<longleftrightarrow> rx_doneCb t \<noteq> RxCbNull"

lemma stable_shape [simp]: "rx_stable txn_shape" "rx_stable txn_cb"
  by (simp_all add: rx_stable_def txn_shape_def txn_cb_def)

text \<open>
  What the module relies on from the firmware: its counter is not behind the driver's, and while a read is not completed it
  announces at most six packets more than were read up to it. The eight descriptors of the status cannot hold more.
\<close>

definition rx_fw_ok :: "TRxXfer \<Rightarrow> FwStatus_t \<Rightarrow> bool" where
  "rx_fw_ok s fw \<longleftrightarrow> (\<forall>i \<in> set (rx_flight s).
     let announced = unat (fwRxCntr (counters fw) - ucast (uCounter (aCounterTxn s ! i))) in unat (rx_since s i) \<le> announced \<and> announced \<le> 6)"

text \<open>The steps: a status of the firmware, the bus's completion, and a restart, for which the lower layer has dropped what was on its way.\<close>

inductive rx_step :: "TRxXfer \<Rightarrow> TRxXfer \<Rightarrow> bool" where
  rx_step_event: "rx_fw_ok s fw \<Longrightarrow> rxXfer_RxEvent env s fw = Some (Inr (st, t)) \<Longrightarrow> rx_step s t"
| rx_step_done: "rx_BusDone env s = Some (Inr t) \<Longrightarrow> rx_step s t"
| rx_step_restart: "rx_step s (rxXfer_Restart (s\<lparr>rx_flight := []\<rparr>))"
| rx_step_defaults: "rx_step s (rxXfer_SetDefaults s n)"
| rx_step_bus: "rx_step s (rxXfer_SetBusParams s n)"
| rx_step_register: "rx_step s (rxXfer_Register_CB s b f h)"
| rx_step_access: "rx_step s (rxXfer_SetRxDirectAccessParams s a)"
| rx_step_err: "rx_step s (rxXfer_RegisterErrCb s f h)"
| rx_step_stats: "rx_step s (rxXfer_ClearStats s)"

definition rx_init :: "TRxXfer \<Rightarrow> bool" where
  "rx_init s \<longleftrightarrow> (\<exists>mem tmp hm s0. rxXfer_Create mem tmp hm = Some s0 \<and> s = rxXfer_Init s0)"

definition rx_inv :: "TRxXfer \<Rightarrow> bool" where
  "rx_inv s \<longleftrightarrow> rx_acc (rx_todo s) False s \<and> rx_all txn_shape s \<and> rx_all txn_cb s"

lemma ucast_plus_down:
  fixes x y :: "'a::len word"
  assumes "LENGTH('b::len) \<le> LENGTH('a)"
  shows "(ucast (x + y) :: 'b word) = ucast x + ucast y"
proof -
  have "(2::nat) ^ LENGTH('b) dvd 2 ^ LENGTH('a)" using assms by (rule le_imp_power_dvd)
  then have "unat (ucast (x + y) :: 'b word) = unat (ucast x + ucast y :: 'b word)"
    by (simp add: unsigned_ucast_eq take_bit_eq_mod unat_word_ariths mod_mod_cancel mod_simps)
  then show ?thesis by (simp add: word_unat_eq_iff)
qed

lemma unat_ucast_mod: "unat (ucast (x :: 'a::len word) :: 'b::len word) = unat x mod 2 ^ LENGTH('b)"
  by (simp add: unsigned_ucast_eq take_bit_eq_mod)

lemma idx3_ucast8: "idx3 (ucast (c :: u8)) = ucast c"
proof -
  have "unat c < 256" using unsigned_less [of c] by simp
  then show ?thesis unfolding idx3_def word_unat_eq_iff unat_ucast_mod by simp
qed

lemma ucast3_8: "(ucast (ucast (d :: u32) :: u8) :: 3 word) = idx3 d"
  unfolding idx3_def word_unat_eq_iff unat_ucast_mod by (simp add: mod_mod_cancel)

lemma idx3_mod8: "idx3 (x mod of_nat NUM_RX_PKT_DESC) = idx3 x"
  by (simp add: word_unat_eq_iff unat_idx3 mod8_idx3)

text \<open>The packets to read after a status, counted from a transaction that is not completed.\<close>

lemma todo_announced:
  assumes a: "unat (drv - cnt :: u32) \<le> unat (c - ucast cnt :: u8)" "unat (c - ucast cnt :: u8) \<le> 6"
  shows "unat (idx3 (ucast c) - idx3 drv) = unat (c - ucast cnt) - unat (drv - cnt)"
proof -
  define b where "b = c - ucast cnt"
  define d where "d = drv - cnt"
  have "c = b + ucast cnt" "drv = d + cnt" by (simp_all add: b_def d_def)
  then have e: "idx3 (ucast c) - idx3 drv = ucast b - idx3 d"
    by (simp add: idx3_ucast8 ucast_plus_down ucast3_8 idx3_plus)
  have u: "unat (ucast b :: 3 word) = unat b" "unat (idx3 d) = unat d"
    using a by (simp_all add: b_def [symmetric] d_def [symmetric] unsigned_ucast_eq take_bit_eq_mod unat_idx3)
  have "idx3 d \<le> ucast b" using a u by (simp add: word_le_nat_alt b_def d_def)
  then show ?thesis using u by (simp add: e unat_sub b_def [symmetric] d_def [symmetric])
qed

lemma rx_acc_event:
  assumes "rx_acc n False s" "rx_fw_ok s fw" "t = s\<lparr>tDbgStat := g, uFwRxCntr := ucast (fwRxCntr (counters fw)), aRxPktsDesc := ds\<rparr>"
  shows "rx_acc (rx_todo t) False t"
proof -
  have "unat (rx_since t i) + rx_todo t \<le> 6" if i: "i \<in> set (rx_flight s)" for i
  proof -
    let ?c = "fwRxCntr (counters fw)" and ?k = "uCounter (aCounterTxn s ! i)"
    have f: "unat (uDrvRxCntr s - ?k) \<le> unat (?c - ucast ?k)" "unat (?c - ucast ?k) \<le> 6"
      using assms(2) i by (auto simp: rx_fw_ok_def Let_def rx_since_def)
    have "rx_todo t = unat (?c - ucast ?k) - unat (uDrvRxCntr s - ?k)"
      using todo_announced [OF f] by (simp add: rx_todo_def rx_left_def idx3_mod8 assms(3))
    then show ?thesis using f by (simp add: rx_since_def assms(3))
  qed
  with assms(1,3) show ?thesis by (simp add: rx_acc_def rx_age_def rx_since_def)
qed

lemma todo_core: "rx_core s = rx_core t \<Longrightarrow> rx_todo s = rx_todo t"
  using rx_core_fields(2,3) [of s t] by (simp add: rx_todo_def rx_left_def)

lemma rx_inv_event:
  assumes "rx_inv s" "rx_fw_ok s fw" "rxXfer_RxEvent env s fw = Some (Inr (st, t))"
  shows "rx_inv t"
proof (cases "ucast (fwRxCntr (counters fw)) mod of_nat NUM_RX_PKT_DESC = uFwRxCntr s mod of_nat NUM_RX_PKT_DESC")
  case True
  with assms show ?thesis by (simp add: rxXfer_RxEvent_def)
next
  case False
  define s1 where "s1 = s\<lparr>tDbgStat := (tDbgStat s)\<lparr>uCountFwEvents := uCountFwEvents (tDbgStat s) + 1\<rparr>,
    uFwRxCntr := ucast (fwRxCntr (counters fw)), aRxPktsDesc := map (\<lambda>i. rxPktsDesc fw ! i) [0..<NUM_RX_PKT_DESC]\<rparr>"
  from False assms(3) obtain st1 where h: "rxXfer_Handle env s1 = Some (Inr (st1, t))"
    by (auto simp: rxXfer_RxEvent_def Let_def rx_stat_def s1_def elim!: map_sum_InrE)
  have "rx_acc (rx_todo s1) False s1" by (rule rx_acc_event [OF _ assms(2)]) (use assms(1) in \<open>auto simp: rx_inv_def s1_def\<close>)
  moreover have "rx_all Q s1 = rx_all Q s" for Q by (simp add: rx_all_def s1_def)
  ultimately show ?thesis using assms(1) rxXfer_Handle_acc [OF h] rx_all_Handle [OF h] by (simp add: rx_inv_def)
qed

lemma rx_acc_tail:
  assumes "rx_acc n False s" "rx_flight s = i # js" "rx_flight t = js" "uAvailableTxn t = uAvailableTxn s + 1" "aCounterTxn t = aCounterTxn s"
    "uCurrTxnIndex t = uCurrTxnIndex s" "uDrvRxCntr t = uDrvRxCntr s"
  shows "rx_acc n False t"
  using assms by (auto simp: rx_acc_def rx_age_def rx_since_def algebra_simps)

lemma rx_all_upd_cb: "rx_stable Q \<Longrightarrow> rx_all Q s \<Longrightarrow> rx_all Q (rx_upd i (\<lambda>t. t\<lparr>rx_doneCb := RxCbTxnDone\<rparr>) s)"
  by (rule rx_all_upd) (auto simp: rx_stable_def)

lemma rx_all_land [simp]: "rx_all Q (rx_land env i s) = rx_all Q s"
  by (simp add: rx_land_def)

lemma rx_inv_done:
  assumes "rx_inv s" "rx_BusDone env s = Some (Inr t)"
  shows "rx_inv t"
proof (cases "rx_flight s")
  case Nil
  with assms show ?thesis by (simp add: rx_BusDone_def)
next
  case (Cons i js)
  define s1 where "s1 = rx_land env i (s\<lparr>rx_flight := js\<rparr>)"
  have c1: "rx_core s1 = rx_core s" "rx_flight s1 = js" "aCounterTxn s1 = aCounterTxn s" by (simp_all add: s1_def)
  have a1: "rx_all Q s1 = rx_all Q s" for Q by (simp add: s1_def)
  note f1 = rx_core_fields [OF c1(1)]
  have inv: "rx_inv u" if "uAvailableTxn u = uAvailableTxn s1 + 1" "rx_flight u = js" "aCounterTxn u = aCounterTxn s1" "uCurrTxnIndex u = uCurrTxnIndex s1"
    "uDrvRxCntr u = uDrvRxCntr s1" "uFwRxCntr u = uFwRxCntr s1" "rx_all txn_shape u" "rx_all txn_cb u" for u
  proof -
    have "rx_todo u = rx_todo s" using that f1 by (simp add: rx_todo_def rx_left_def)
    then show ?thesis using that f1 c1 assms(1) rx_acc_tail [of _ s i js u] Cons by (simp add: rx_inv_def)
  qed
  have al: "rx_all txn_shape s1" "rx_all txn_cb s1" using assms(1) a1 by (simp_all add: rx_inv_def)
  have i: "i < 16" using assms(1) Cons by (simp add: rx_inv_def rx_acc_def)
  then have "rx_doneCb (rx_at s1 i) \<noteq> RxCbNull" using al(2) by (auto simp: rx_all_def rx_at_def txn_cb_def)
  then consider "rx_doneCb (rx_at s1 i) = RxCbTxnDone" "rxXfer_TxnDoneCb env s1 i = Some (Inr t)"
    | "rx_doneCb (rx_at s1 i) = RxCbPktDrop" "t = rxXfer_PktDropTxnDoneCb s1 i"
    using assms(2) Cons by (auto simp: rx_BusDone_def Let_def s1_def [symmetric] split: rx_cb.splits)
  then show ?thesis
  proof cases
    case 1
    define u where "u = rxXfer_ForwardPacket (s1\<lparr>uAvailableTxn := uAvailableTxn s1 + 1\<rparr>) i"
    have u: "rx_inv (u\<lparr>bPendingBuffer := False\<rparr>)" "rx_inv u"
      by (rule inv; use al c1 in \<open>simp add: u_def rx_all_forward\<close>)+
    have d: "rxXfer_TxnDoneCb env s1 i = (if bPendingBuffer u then map_option (map_sum id snd) (rxXfer_Handle env (u\<lparr>bPendingBuffer := False\<rparr>)) else Some (Inr u))"
      by (simp only: rxXfer_TxnDoneCb_def Let_def u_def)
    show ?thesis
    proof (cases "bPendingBuffer u")
      case True
      with 1(2) d obtain st where h: "rxXfer_Handle env (u\<lparr>bPendingBuffer := False\<rparr>) = Some (Inr (st, t))"
        by (auto elim!: map_sum_InrE)
      show ?thesis using u(1) rxXfer_Handle_acc [OF h] rx_all_Handle [OF h] by (simp add: rx_inv_def)
    next
      case False
      with 1(2) d u show ?thesis by simp
    qed
  next
    case 2
    show ?thesis by (rule inv) (use 2 al c1 in \<open>simp_all add: rxXfer_PktDropTxnDoneCb_def rx_all_upd_cb\<close>)
  qed
qed

lemma mark_loop_frame: "rx_core (mark_loop ks i s) = rx_core s \<and> rx_flight (mark_loop ks i s) = rx_flight s \<and> aCounterTxn (mark_loop ks i s) = aCounterTxn s \<and>
  rx_all Q (mark_loop ks i s) = rx_all Q s"
  by (induction ks i s rule: mark_loop.induct) simp_all

lemma release_frame [simp]: "rx_core (rx_release i s) = rx_core s" "rx_flight (rx_release i s) = rx_flight s" "aCounterTxn (rx_release i s) = aCounterTxn s"
  by (simp_all add: rx_release_def mark_loop_frame)

lemma rx_all_release: "rx_stable Q \<Longrightarrow> rx_all Q s \<Longrightarrow> rx_all Q (rx_release i s)"
  by (simp add: rx_release_def rx_all_forward mark_loop_frame)

lemma fold_release_frame: "rx_core (fold rx_release ks s) = rx_core s \<and> rx_flight (fold rx_release ks s) = rx_flight s \<and> aCounterTxn (fold rx_release ks s) = aCounterTxn s \<and>
  (rx_stable Q \<longrightarrow> rx_all Q s \<longrightarrow> rx_all Q (fold rx_release ks s))"
  by (induction ks arbitrary: s) (simp_all add: rx_all_release)

lemma fill_frame [simp]: "rx_core (rx_fill i s) = rx_core s" "rx_flight (rx_fill i s) = rx_flight s" "length (aCounterTxn (rx_fill i s)) = length (aCounterTxn s)"
  by (simp_all add: rx_fill_def Let_def)

lemma rx_all_fill:
  assumes "rx_stable Q" "rx_all Q s"
  shows "rx_all Q (rx_fill i s)"
proof -
  have "Q (t\<lparr>rx_params := p, rx_doneCb := RxCbTxnDone\<rparr>)" if "Q t" for t p
  proof -
    have "Q (t\<lparr>rx_params := p\<rparr>)" using assms(1) that by (simp add: rx_stable_def)
    then show ?thesis using assms(1) unfolding rx_stable_def by (metis rx_cb.distinct(1))
  qed
  then show ?thesis using assms(2) by (auto simp: rx_fill_def Let_def intro!: rx_all_upd)
qed

lemma fold_fill_frame: "rx_core (fold rx_fill ks s) = rx_core s \<and> rx_flight (fold rx_fill ks s) = rx_flight s \<and> length (aCounterTxn (fold rx_fill ks s)) = length (aCounterTxn s) \<and>
  (rx_stable Q \<longrightarrow> rx_all Q s \<longrightarrow> rx_all Q (fold rx_fill ks s))"
  by (induction ks arbitrary: s) (simp_all add: rx_all_fill)

lemma fill_cb:
  assumes "length (aTxnStruct s) = 16" "n \<le> 16"
  shows "length (aTxnStruct (fold rx_fill [0..<n] s)) = 16 \<and> (\<forall>i < n. rx_doneCb (rx_at (fold rx_fill [0..<n] s) i) = RxCbTxnDone)"
  using assms(2)
proof (induction n)
  case 0
  with assms(1) show ?case by simp
next
  case (Suc n)
  then show ?case by (auto simp: rx_fill_def Let_def rx_upd_def rx_at_def nth_list_update less_Suc_eq)
qed

lemma rx_inv_restart:
  assumes "rx_all txn_shape s" "rx_flight s = []" "length (aCounterTxn s) = 16"
  shows "rx_inv (rxXfer_Restart s)"
proof -
  define s1 where "s1 = s\<lparr>uFwRxCntr := 0, uDrvRxCntr := 0, uCurrTxnIndex := 0, uAvailableTxn := of_nat (MAX_CONSECUTIVE_READ_TXN - 1)\<rparr>"
  define s2 where "s2 = fold rx_release [0..<16] s1"
  have r: "rxXfer_Restart s = fold rx_fill [0..<16] s2" by (simp add: rxXfer_Restart_def Let_def s1_def s2_def MAX_CONSECUTIVE_READ_TXN_def)
  have a: "rx_all txn_shape s2" using assms(1) fold_release_frame [of "[0..<16]" s1 txn_shape] by (simp add: s2_def s1_def rx_all_def)
  have c: "rx_core (rxXfer_Restart s) = rx_core s1" "rx_flight (rxXfer_Restart s) = []" "length (aCounterTxn (rxXfer_Restart s)) = 16"
    using assms fold_release_frame [of "[0..<16]" s1] fold_fill_frame [of "[0..<16]" s2] by (simp_all add: r s2_def s1_def)
  have cb: "rx_all txn_cb (rxXfer_Restart s)" using a fill_cb [of s2 16] by (auto simp: r rx_all_def txn_cb_def rx_at_def in_set_conv_nth)
  have sh: "rx_all txn_shape (rxXfer_Restart s)" using a fold_fill_frame [of "[0..<16]" s2 txn_shape] by (simp add: r)
  note f = rx_core_fields [OF c(1)]
  show ?thesis using c f cb sh by (simp add: rx_inv_def rx_acc_def s1_def MAX_CONSECUTIVE_READ_TXN_def)
qed

lemma rx_inv_cong:
  assumes "rx_inv s" "uFwRxCntr t = uFwRxCntr s" "uDrvRxCntr t = uDrvRxCntr s" "aCounterTxn t = aCounterTxn s" "uCurrTxnIndex t = uCurrTxnIndex s"
    "rx_flight t = rx_flight s" "uAvailableTxn t = uAvailableTxn s" "aTxnStruct t = aTxnStruct s"
  shows "rx_inv t"
  using assms by (simp add: rx_inv_def rx_acc_def rx_age_def rx_since_def rx_todo_def rx_left_def rx_all_def)

lemma rx_inv_step:
  assumes "rx_inv s" "rx_step s t"
  shows "rx_inv t"
  using assms(2,1)
proof (cases rule: rx_step.cases)
  case (rx_step_event fw env st)
  then show ?thesis using rx_inv_event [OF assms(1)] by blast
next
  case (rx_step_done env)
  then show ?thesis using rx_inv_done [OF assms(1)] by blast
next
  case rx_step_restart
  have "rx_inv (rxXfer_Restart (s\<lparr>rx_flight := []\<rparr>))"
    by (rule rx_inv_restart) (use assms(1) in \<open>simp_all add: rx_inv_def rx_acc_def\<close>)
  then show ?thesis using rx_step_restart by simp
qed (auto intro!: rx_inv_cong [OF assms(1)] simp: rxXfer_SetDefaults_def rxXfer_SetBusParams_def rxXfer_Register_CB_def
  rxXfer_SetRxDirectAccessParams_def rxXfer_RegisterErrCb_def rxXfer_ClearStats_def)

lemma rx_inv_init:
  assumes "rx_init s"
  shows "rx_inv s"
proof -
  from assms obtain mem tmp hm s0 where s: "rxXfer_Create mem tmp hm = Some s0" "s = rxXfer_Init s0" by (auto simp: rx_init_def)
  have "rx_inv (rxXfer_Restart s0)"
    by (rule rx_inv_restart) (use s(1) in \<open>auto simp: rxXfer_Create_def rx_all_def txn_shape_def zero_rx_txn_def MAX_XFER_BUFS_def MAX_CONSECUTIVE_READ_TXN_def split: if_splits\<close>)
  then show ?thesis by (rule rx_inv_cong) (simp_all add: s(2) rxXfer_Init_def rxXfer_ClearStats_def)
qed

interpretation rxx: state_invariant rx_init rx_step rx_inv
  by unfold_locales (auto intro: rx_inv_init rx_inv_step)

lemma rx_flight_bound:
  assumes "rx_acc n False s"
  shows "length (rx_flight s) \<le> 7"
proof -
  have b: "0 < rx_age s i \<and> rx_age s i \<le> 7" if "i \<in> set (rx_flight s)" for i
    using assms that by (force simp: rx_acc_def)
  have "inj_on (rx_age s) (set (rx_flight s))"
  proof (rule inj_onI)
    fix i j assume ij: "i \<in> set (rx_flight s)" "j \<in> set (rx_flight s)" "rx_age s i = rx_age s j"
    then have l: "i < 16" "j < 16" using assms by (auto simp: rx_acc_def)
    from ij(3) have "(of_nat i :: 4 word) = of_nat j" by (simp add: rx_age_def word_unat_eq_iff [symmetric])
    then have "unat (of_nat i :: 4 word) = unat (of_nat j :: 4 word)" by simp
    with l show "i = j" by (simp add: unsigned_of_nat take_bit_eq_mod)
  qed
  then have "card (set (rx_flight s)) = card (rx_age s ` set (rx_flight s))" by (simp add: card_image)
  also have "\<dots> \<le> card {1..7::nat}" using b by (intro card_mono) (auto simp: Suc_le_eq)
  finally show ?thesis using assms by (simp add: rx_acc_def distinct_card)
qed

section \<open>Properties\<close>

text \<open>
  C11: The structures of the read transactions are never used twice at the same time: in every reachable state the transactions not yet completed use different
  structures, the structure to be used next is not among them, the counter of free structures is fifteen less their number, and at least eight are free, so
  that the handler never refuses to run. The firmware is relied on to announce no more packets than its eight descriptors can hold.
\<close>

theorem rxXfer_structures_not_reused:
  assumes "reach rx_init rx_step s"
  shows "distinct (rx_flight s) \<and> unat (uCurrTxnIndex s) \<notin> set (rx_flight s) \<and> unat (uAvailableTxn s) = 15 - length (rx_flight s) \<and> 8 \<le> uAvailableTxn s"
proof -
  have a: "rx_acc (rx_todo s) False s" using rxx.reach_invar [OF assms] by (simp add: rx_inv_def)
  note l = rx_flight_bound [OF a]
  have "rx_age s (unat (uCurrTxnIndex s)) = 0" by (simp add: rx_age_def)
  then have c: "unat (uCurrTxnIndex s) \<notin> set (rx_flight s)" using a by (auto simp: rx_acc_def)
  have "uAvailableTxn s = 15 - of_nat (length (rx_flight s))" using a by (simp add: rx_acc_def eq_diff_eq)
  moreover have "unat (of_nat (length (rx_flight s)) :: u32) = length (rx_flight s)" using l by (simp add: unsigned_of_nat take_bit_eq_mod)
  ultimately have u: "unat (uAvailableTxn s) = 15 - length (rx_flight s)" using l by (simp add: unat_sub word_le_nat_alt)
  with l have "8 \<le> unat (uAvailableTxn s)" by simp
  then show ?thesis using a c u by (simp add: rx_acc_def word_le_nat_alt)
qed

text \<open>Examples: a bus that accepts transactions or completes them in the call, an upper layer with buffers or without.\<close>

definition rx_de :: RxIfDescriptor_t where
  "rx_de = \<lparr>rxd_length = 8, rxd_status = 0, packet_class_tag = 2, driverFlags = 0\<rparr>"

definition re_ex :: "ti_status \<Rightarrow> ERxBufferStatus \<Rightarrow> rx_env" where
  "re_ex st a = \<lparr>rx_rsp = (\<lambda>_ _. st), rx_dev = (\<lambda>_ _ _. rx_de), rx_alloc = (\<lambda>s _ _. (a, 0x5000 + 0x100 * uDrvRxCntr s))\<rparr>"

definition fw_ex :: "u32 \<Rightarrow> FwStatus_t" where
  "fw_ex c = \<lparr>intrStatus = 0, counters = c, rxPktsDesc = replicate 8 0x02000801, fwLocalTime = 0\<rparr>"

definition rs0 :: TRxXfer where
  "rs0 = rxXfer_Init (the (rxXfer_Create 0x100 0x400 (\<lambda>_. rx_de)))"
definition rs1 :: TRxXfer where
  "rs1 = rxXfer_SetDefaults (rxXfer_SetBusParams rs0 0x1000) 4"

definition rx_do :: "rx_env \<Rightarrow> FwStatus_t \<Rightarrow> TRxXfer \<Rightarrow> TRxXfer" where
  "rx_do env fw s = (case rxXfer_RxEvent env s fw of Some (Inr (_, t)) \<Rightarrow> t | _ \<Rightarrow> s)"
definition rx_bus :: "rx_env \<Rightarrow> TRxXfer \<Rightarrow> TRxXfer" where
  "rx_bus env s = (case rx_BusDone env s of Some (Inr t) \<Rightarrow> t | _ \<Rightarrow> s)"

definition rs2 :: TRxXfer where
  "rs2 = rx_do (re_ex TXN_STATUS_PENDING RX_BUF_ALLOC_COMPLETE) (fw_ex 6) rs1"
definition rs3 :: TRxXfer where
  "rs3 = rx_do (re_ex TXN_STATUS_PENDING RX_BUF_ALLOC_OUT_OF_MEM) (fw_ex 1) rs1"

lemma reach_rs: "reach rx_init rx_step rs1"
proof -
  obtain s where s: "rxXfer_Create 0x100 0x400 (\<lambda>_. rx_de) = Some s" by (simp add: rxXfer_Create_def)
  then have "rx_init rs0" unfolding rx_init_def rs0_def by (metis option.sel)
  then have "reach rx_init rx_step rs0" by (rule reach_init)
  from reach_step [OF this rx_step_bus] have "reach rx_init rx_step (rxXfer_SetBusParams rs0 0x1000)" .
  from reach_step [OF this rx_step_defaults] show ?thesis unfolding rs1_def .
qed

lemma rx_do_step: "rx_fw_ok s fw \<Longrightarrow> reach rx_init rx_step s \<Longrightarrow> reach rx_init rx_step (rx_do env fw s)"
  by (auto simp: rx_do_def intro: reach_step rx_step_event split: option.split sum.split)

lemma rx_bus_step: "reach rx_init rx_step s \<Longrightarrow> reach rx_init rx_step (rx_bus env s)"
  by (auto simp: rx_bus_def intro: reach_step rx_step_done split: option.split sum.split)

lemma rs1_flight: "rx_flight rs1 = []" by code_simp

lemma reach_rs2: "reach rx_init rx_step rs2"
  unfolding rs2_def by (rule rx_do_step [OF _ reach_rs]) (simp add: rx_fw_ok_def rs1_flight)

theorem rxXfer_structures_not_reused_witness:
  "rx_flight rs2 = [0, 1] \<and> unat (uCurrTxnIndex rs2) \<notin> {0, 1} \<and> unat (uAvailableTxn rs2) = 13"
proof -
  have f: "rx_flight rs2 = [0, 1]" by code_simp
  with rxXfer_structures_not_reused [OF reach_rs2] show ?thesis by simp
qed

section \<open>What the handler reads\<close>

text \<open>The read transactions of a log, and the lengths of the packets that one reads.\<close>

fun read_txn :: "rx_ev \<Rightarrow> rx_txn list" where
  "read_txn (RxRead i t) = [t]"
| "read_txn _ = []"

definition rx_reads :: "TRxXfer \<Rightarrow> rx_txn list" where
  "rx_reads s = concat (map read_txn (rx_log s))"

definition rx_lens :: "rx_txn \<Rightarrow> u16 list" where
  "rx_lens t = takeWhile (\<lambda>l. l \<noteq> 0) (take MAX_XFER_BUFS (aLen t))"

text \<open>The lengths in bytes of the packets that wait, in the order of the descriptors.\<close>

definition pkt_len :: "TRxXfer \<Rightarrow> u32 \<Rightarrow> u16" where
  "pkt_len s c = ucast (push_bit 2 (RX_DESC_GET_LENGTH (aRxPktsDesc s ! unat (c mod of_nat NUM_RX_PKT_DESC))))"

definition rx_wait :: "u32 \<Rightarrow> TRxXfer \<Rightarrow> u16 list" where
  "rx_wait fw s = map (\<lambda>k. pkt_len s (uDrvRxCntr s + of_nat k)) [0..<rx_left fw s]"

lemma rx_wait_Nil: "rx_left fw s = 0 \<Longrightarrow> rx_wait fw s = []"
  by (simp add: rx_wait_def)

lemma rx_wait_Cons:
  assumes "rx_left fw s \<noteq> 0" "uDrvRxCntr t = uDrvRxCntr s + 1" "aRxPktsDesc t = aRxPktsDesc s"
  shows "rx_wait fw s = pkt_len s (uDrvRxCntr s) # rx_wait fw t"
proof -
  have "[0..<rx_left fw s] = 0 # map Suc [0..<rx_left fw t]"
    using assms(1) left_Suc [OF assms(1,2)] by (simp add: upt_conv_Cons map_Suc_upt)
  then show ?thesis using assms(2,3) by (simp add: rx_wait_def pkt_len_def algebra_simps comp_def)
qed

lemma rx_reads_simps [simp]:
  "rx_reads (rx_upd i f s) = rx_reads s" "rx_reads (rx_stat g s) = rx_reads s" "rx_reads (rx_write w h s) = rx_reads s" "rx_reads (rx_next_index s) = rx_reads s"
  "rx_reads (s\<lparr>aCounterTxn := cs\<rparr>) = rx_reads s" "rx_reads (s\<lparr>aSlaveRegTxn := rs\<rparr>) = rx_reads s" "rx_reads (s\<lparr>rx_flight := fl\<rparr>) = rx_reads s"
  "rx_reads (s\<lparr>uAvailableTxn := n\<rparr>) = rx_reads s" "rx_reads (s\<lparr>uDrvRxCntr := n\<rparr>) = rx_reads s" "rx_reads (s\<lparr>bPendingBuffer := b\<rparr>) = rx_reads s"
  "rx_reads (rx_emit e s) = rx_reads s @ read_txn e"
  by (simp_all add: rx_reads_def rx_upd_def rx_stat_def rx_write_def rx_next_index_def rx_emit_def)

lemma rx_reads_fwd_loop [simp]: "rx_reads (fwd_loop ks i s) = rx_reads s"
proof -
  have "rx_reads (fwd_one s i k) = rx_reads s" for s k by (simp add: fwd_one_def fwd_check_def Let_def)
  then show ?thesis by (induction ks i s rule: fwd_loop.induct) simp_all
qed

lemma rx_reads_forward [simp]: "rx_reads (rxXfer_ForwardPacket s i) = rx_reads s"
  by (simp add: rxXfer_ForwardPacket_def)

lemma rx_reads_land_loop [simp]: "rx_reads (land_loop env ks i s) = rx_reads s"
  by (induction env ks i s rule: land_loop.induct) simp_all

lemma rx_at_simps [simp]:
  "rx_at (rx_emit e s) = rx_at s" "rx_at (s\<lparr>aSlaveRegTxn := rs\<rparr>) = rx_at s"
  by (simp_all add: fun_eq_iff rx_at_def rx_emit_def)

lemma issue_reads:
  assumes "rxXfer_IssueTxn env s a = (st, t)"
  shows "rx_reads t = rx_reads s @ [rx_at s (unat (uCurrTxnIndex s))]"
  using assms by (auto simp: rxXfer_IssueTxn_def rx_transact_def rx_land_def Let_def split: if_splits)

text \<open>The packets of the transaction under construction.\<close>

definition rx_agg :: "TRxXfer \<Rightarrow> rx_loc \<Rightarrow> u16 list \<Rightarrow> bool" where
  "rx_agg s l ag \<longleftrightarrow> length ag = unat (uAggregPktsNum l) \<and> length ag \<le> 4 \<and> length ag \<le> max 1 (unat (uMaxAggregPkts s)) \<and> 0 \<notin> set ag \<and>
     sum_list (map unat ag) = unat (uTotalAggregLen l) \<and> sum_list (map unat ag) \<le> unat (uMaxAggregLen s) \<and>
     (ag \<noteq> [] \<longrightarrow> pTxn l = Some (unat (uCurrTxnIndex s)) \<and> take (length ag) (aLen (rx_at s (unat (uCurrTxnIndex s)))) = ag)"

lemma desc_length_bound: "unat (push_bit 2 (RX_DESC_GET_LENGTH d)) \<le> 16380"
proof -
  have "d AND 0x000FFF00 \<le> 0x000FFF00" by (rule word_and_le1)
  then have "unat (d AND 0x000FFF00) \<le> 0x000FFF00" by (simp add: word_le_nat_alt)
  then have "unat (RX_DESC_GET_LENGTH d) \<le> 4095" by (simp add: RX_DESC_GET_LENGTH_def drop_bit_eq_div unat_div)
  then show ?thesis by (simp add: push_bit_eq_mult unat_word_ariths)
qed

lemma pkt_len_size: "unat (pkt_len s (uDrvRxCntr s)) = unat (uBuffSize (rx_desc s l))" "ucast (uBuffSize (rx_desc s l)) = pkt_len s (uDrvRxCntr s)"
  using desc_length_bound [of "aRxPktsDesc s ! unat (uDrvRxCntr s mod of_nat NUM_RX_PKT_DESC)"]
  by (simp_all add: pkt_len_def rx_desc_def Let_def unat_ucast_mod)

lemma sum_unat16: "sum_list (map unat (ag :: u16 list)) \<le> length ag * 65535"
proof (induction ag)
  case (Cons x ag)
  have "unat x < 65536" using unsigned_less [of x] by simp
  with Cons show ?case by simp
qed simp

lemma agg_total:
  assumes "rx_agg s l ag"
  shows "unat (uTotalAggregLen l + uBuffSize (rx_desc s l)) = unat (uTotalAggregLen l) + unat (uBuffSize (rx_desc s l))"
proof (rule unat_add_bounded)
  have "unat (uTotalAggregLen l) \<le> 4 * 65535" using assms sum_unat16 [of ag] by (simp add: rx_agg_def)
  moreover have "unat (uBuffSize (rx_desc s l)) \<le> 16380" using desc_length_bound by (simp add: rx_desc_def Let_def)
  ultimately show "unat (uTotalAggregLen l) + unat (uBuffSize (rx_desc s l)) < 2 ^ LENGTH(32)" by simp
qed

lemma rx_join_agg:
  assumes g: "rx_agg s l ag" and p: "length ag < max 1 (unat (uMaxAggregPkts s))" "uMaxAggregPkts s \<le> 4" and z: "pkt_len s (uDrvRxCntr s) \<noteq> 0"
    and m: "\<not> uTotalAggregLen l + uBuffSize (rx_desc s l) > uMaxAggregLen s" and sh: "rx_all txn_shape s" "uCurrTxnIndex s < 16"
  shows "\<exists>t l'. rx_join s (rx_desc s l) b = Inr (t, l') \<and> rx_agg t l' (ag @ [pkt_len s (uDrvRxCntr s)]) \<and> rx_reads t = rx_reads s \<and>
    (bIssueTxn l' \<longleftrightarrow> bIssueTxn l \<or> unat (uMaxAggregPkts s) \<le> length ag + 1)"
proof -
  let ?i = "unat (uCurrTxnIndex s)" and ?n = "length ag"
  have i: "?i < 16" using sh(2) by (simp add: word_less_nat_alt)
  have n: "?n = unat (uAggregPktsNum l)" "?n < 4" using g p by (auto simp: rx_agg_def word_le_nat_alt)
  have sh4: "length (aLen (rx_at s ?i)) = 4" using sh(1) i by (auto simp: rx_all_def rx_at_def txn_shape_def)
  have len: "length (aTxnStruct s) = 16" using sh(1) by (simp add: rx_all_def)
  define s0 where "s0 = (if uAggregPktsNum l = 0 then rx_upd ?i (\<lambda>t. t\<lparr>rx_hwAddr := SLV_MEM_DATA\<rparr>) s else s)"
  define l0 where "l0 = (if uAggregPktsNum l = 0
    then (rx_desc s l)\<lparr>pTxn := Some ?i, uFirstMemBlk := SLV_MEM_CP_VALUE (uRxDesc (rx_desc s l)) (uPacketMemoryPoolStart s)\<rparr> else rx_desc s l)"
  have e: "uAggregPktsNum l = 0 \<longleftrightarrow> ag = []" using n(1) by (auto simp: unat_eq_zero)
  have p0: "pTxn l0 = Some ?i" "uAggregPktsNum l0 = uAggregPktsNum l" "uTotalAggregLen l0 = uTotalAggregLen l" "uBuffSize l0 = uBuffSize (rx_desc s l)" "bIssueTxn l0 = bIssueTxn l"
    using g e by (auto simp: l0_def rx_agg_def)
  have s0: "rx_core s0 = rx_core s" "rx_reads s0 = rx_reads s" "aLen (rx_at s0 ?i) = aLen (rx_at s ?i)" "length (aTxnStruct s0) = 16"
    using len i by (simp_all add: s0_def) (simp_all add: rx_upd_def rx_at_def)
  note f0 = rx_core_fields [OF s0(1)]
  define t where "t = (rx_upd ?i (\<lambda>t. t\<lparr>aBuf := (aBuf t)[?n := b + ALIGNMENT_SIZE (uRxDesc l0)], aLen := (aLen t)[?n := ucast (uBuffSize l0)]\<rparr>) s0)\<lparr>uDrvRxCntr := uDrvRxCntr s + 1\<rparr>"
  define l1 where "l1 = l0\<lparr>uAggregPktsNum := uAggregPktsNum l + 1, uTotalAggregLen := uTotalAggregLen l + uBuffSize (rx_desc s l)\<rparr>"
  define l2 where "l2 = (if uAggregPktsNum l + 1 \<ge> uMaxAggregPkts s then l1\<lparr>bIssueTxn := True\<rparr> else l1)"
  have j: "rx_join s (rx_desc s l) b = Inr (t, l2)"
  proof (cases "uAggregPktsNum l = 0")
    case True
    then show ?thesis using n by (simp add: rx_join_def Let_def s0_def l0_def t_def l2_def l1_def MAX_XFER_BUFS_def)
  next
    case False
    then have "pTxn l = Some ?i" using g e by (auto simp: rx_agg_def)
    then show ?thesis using False n by (simp add: rx_join_def Let_def s0_def l0_def t_def l2_def l1_def MAX_XFER_BUFS_def)
  qed
  have q: "unat (uAggregPktsNum l + 1) = Suc ?n" using n by (simp add: unat_word_ariths)
  have a: "aLen (rx_at t ?i) = (aLen (rx_at s ?i))[?n := pkt_len s (uDrvRxCntr s)]"
    using i s0(3,4) by (simp add: t_def rx_upd_def rx_at_def p0(4) pkt_len_size(2) [of s l])
  have ag: "rx_agg t l2 (ag @ [pkt_len s (uDrvRxCntr s)])"
  proof -
    have tf: "uMaxAggregPkts t = uMaxAggregPkts s" "uMaxAggregLen t = uMaxAggregLen s" "uCurrTxnIndex t = uCurrTxnIndex s" using f0 by (simp_all add: t_def)
    have lf: "uAggregPktsNum l2 = uAggregPktsNum l + 1" "uTotalAggregLen l2 = uTotalAggregLen l + uBuffSize (rx_desc s l)" "pTxn l2 = Some ?i"
      using p0 by (simp_all add: l2_def l1_def)
    have tk: "take (length (ag @ [pkt_len s (uDrvRxCntr s)])) (aLen (rx_at t ?i)) = ag @ [pkt_len s (uDrvRxCntr s)]"
      using g n sh4 unfolding a by (cases "ag = []") (auto simp: rx_agg_def take_Suc_conv_app_nth take_update_cancel)
    show ?thesis using g p n q z m tk agg_total [OF g] pkt_len_size(1) [of s l]
      by (simp add: rx_agg_def tf lf word_less_nat_alt not_less)
  qed
  moreover have "rx_reads t = rx_reads s" using s0(2) by (simp add: t_def)
  moreover have "bIssueTxn l2 \<longleftrightarrow> bIssueTxn l \<or> unat (uMaxAggregPkts s) \<le> length ag + 1"
    using q p0(5) by (simp add: l2_def l1_def word_le_nat_alt)
  ultimately show ?thesis using j by blast
qed

lemma takeWhile_take_zero:
  assumes "take (length ag) xs = ag" "length xs = 4" "0 \<notin> set ag" "length ag < 4 \<Longrightarrow> xs ! length ag = 0"
  shows "takeWhile (\<lambda>l. l \<noteq> (0 :: u16)) (take MAX_XFER_BUFS xs) = ag"
proof -
  have x: "xs = ag @ drop (length ag) xs" using assms(1) by (metis append_take_drop_id)
  have "takeWhile (\<lambda>l. l \<noteq> 0) (ag @ drop (length ag) xs) = ag @ takeWhile (\<lambda>l. l \<noteq> 0) (drop (length ag) xs)"
    using assms(3) by (intro takeWhile_append2) auto
  moreover have "takeWhile (\<lambda>l. l \<noteq> 0) (drop (length ag) xs) = []"
  proof (cases "length ag < 4")
    case True
    then have "drop (length ag) xs = 0 # drop (Suc (length ag)) xs" using assms(2,4) by (simp add: Cons_nth_drop_Suc [symmetric])
    then show ?thesis by simp
  next
    case False
    then show ?thesis using assms(2) by simp
  qed
  ultimately show ?thesis using x assms(2) by (simp add: MAX_XFER_BUFS_def)
qed

lemma rx_agg_Nil [simp]: "rx_agg s l [] \<longleftrightarrow> uAggregPktsNum l = 0 \<and> uTotalAggregLen l = 0"
  by (auto simp: rx_agg_def unat_eq_zero)

lemma next_index_pending [simp]: "bPendingBuffer (rx_next_index s) = bPendingBuffer s"
  by (simp add: rx_next_index_def)

lemma rx_send_reads:
  assumes g: "rx_agg s l ag" and i: "bIssueTxn l" "ag \<noteq> []" and sh: "rx_all txn_shape s" "uCurrTxnIndex s < 16"
  shows "\<exists>t l' x. rx_send env s l = Inr (t, l') \<and> rx_reads t = rx_reads s @ [x] \<and> rx_lens x = ag \<and> rx_agg t l' [] \<and> bPendingBuffer t = bPendingBuffer s"
proof -
  let ?i = "unat (uCurrTxnIndex s)" and ?s = "rx_prep (unat (uCurrTxnIndex s)) l s"
  have c: "?i < 16" using sh(2) by (simp add: word_less_nat_alt)
  have sh4: "length (aLen (rx_at s ?i)) = 4" "length (aTxnStruct s) = 16" using sh(1) c by (auto simp: rx_all_def rx_at_def txn_shape_def)
  have n: "unat (uAggregPktsNum l) = length ag" "0 < length ag" "length ag \<le> 4" using g i by (auto simp: rx_agg_def)
  obtain st s2 where t: "rxXfer_IssueTxn env ?s (uFirstMemBlk l) = (st, s2)" by fastforce
  have al: "aLen (rx_at ?s ?i) = (if length ag < 4 then (aLen (rx_at s ?i))[length ag := 0] else aLen (rx_at s ?i))"
    using n sh4 c by (simp add: rx_prep_def Let_def rx_upd_def rx_at_def MAX_XFER_BUFS_def)
  have "rx_lens (rx_at ?s ?i) = ag"
    unfolding rx_lens_def al by (rule takeWhile_take_zero) (use g i n sh4 in \<open>auto simp: rx_agg_def\<close>)
  moreover have "rx_reads s2 = rx_reads s @ [rx_at ?s ?i]"
    using issue_reads [OF t] by (simp add: rx_prep_def Let_def)
  moreover have "bPendingBuffer s2 = bPendingBuffer s" using rx_core_fields(7) [OF issue_acct(3) [OF t]] by simp
  moreover have "\<exists>t l'. rx_send env s l = Inr (t, l') \<and> rx_reads t = rx_reads s2 \<and> rx_agg t l' [] \<and> bPendingBuffer t = bPendingBuffer s2"
  proof -
    have p: "pTxn l = Some ?i" using g i by (simp add: rx_agg_def)
    have w: "\<not> (unat (uAggregPktsNum l) = 0 \<or> unat (uAggregPktsNum l) > MAX_XFER_BUFS)" using n by (simp add: MAX_XFER_BUFS_def)
    show ?thesis unfolding rx_send_def using i p w t by (simp only: Let_def) simp
  qed
  ultimately show ?thesis by metis
qed

lemma rx_drop_reads:
  assumes "bDropLastPkt l" "uBuffSize l = uBuffSize (rx_desc s l0)" "pkt_len s (uDrvRxCntr s) \<noteq> 0" "rx_all txn_shape s" "uCurrTxnIndex s < 16"
  shows "\<exists>x. rx_reads (fst (rx_drop env s l)) = rx_reads s @ [x] \<and> rx_lens x = [pkt_len s (uDrvRxCntr s)] \<and>
    bPendingBuffer (fst (rx_drop env s l)) = bPendingBuffer s \<and> uTotalAggregLen (snd (rx_drop env s l)) = uTotalAggregLen l"
proof -
  let ?i = "unat (uCurrTxnIndex s)"
  have c: "?i < 16" using assms(5) by (simp add: word_less_nat_alt)
  have sh4: "length (aLen (rx_at s ?i)) = 4" "length (aTxnStruct s) = 16" using assms(4) c by (auto simp: rx_all_def rx_at_def txn_shape_def)
  define s1 where "s1 = rx_upd ?i (\<lambda>t. t\<lparr>aBuf := (aBuf t)[0 := aTempBuffer s], aLen := (aLen t)[0 := ucast (uBuffSize l), 1 := 0],
                  rx_hwAddr := SLV_MEM_DATA, rx_doneCb := RxCbPktDrop\<rparr>) (s\<lparr>uDrvRxCntr := uDrvRxCntr s + 1\<rparr>)"
  obtain st s2 where t: "rxXfer_IssueTxn env s1 (SLV_MEM_CP_VALUE (uRxDesc l) (uPacketMemoryPoolStart s)) = (st, s2)" by fastforce
  have a: "aLen (rx_at s1 ?i) = (aLen (rx_at s ?i))[0 := pkt_len s (uDrvRxCntr s), 1 := 0]"
    using sh4 c pkt_len_size(2) [of s l0] by (simp add: s1_def rx_upd_def rx_at_def assms(2))
  have "rx_lens (rx_at s1 ?i) = [pkt_len s (uDrvRxCntr s)]"
    unfolding rx_lens_def a by (rule takeWhile_take_zero) (use sh4 assms(3) in \<open>auto simp: take_Suc_conv_app_nth\<close>)
  moreover have "rx_reads s2 = rx_reads s @ [rx_at s1 ?i]" using issue_reads [OF t] by (simp add: s1_def)
  moreover have "bPendingBuffer s2 = bPendingBuffer s" using rx_core_fields(7) [OF issue_acct(3) [OF t]] by (simp add: s1_def)
  moreover have "fst (rx_drop env s l) = rx_next_index (if st = TXN_STATUS_PENDING then s2\<lparr>uAvailableTxn := uAvailableTxn s2 - 1\<rparr> else s2)"
    "uTotalAggregLen (snd (rx_drop env s l)) = uTotalAggregLen l"
    using assms(1) t by (simp_all add: rx_drop_def Let_def s1_def)
  ultimately show ?thesis by (intro exI [of _ "rx_at s1 ?i"]) simp
qed

text \<open>After the first part of a round: \<open>ag\<close> are the packets of the current transaction.\<close>

definition rx_fetched :: "u32 \<Rightarrow> TRxXfer \<Rightarrow> rx_loc \<Rightarrow> u16 list \<Rightarrow> bool" where
  "rx_fetched fw s l ag \<longleftrightarrow> rx_agg s l ag \<and> (if bIssueTxn l then ag \<noteq> [] else length ag < max 1 (unat (uMaxAggregPkts s))) \<and>
     (bExit l \<or> bDropLastPkt l \<longrightarrow> ag \<noteq> [] \<longrightarrow> bIssueTxn l) \<and>
     (bExit l \<longrightarrow> \<not> bDropLastPkt l \<and> (rx_left fw s = 0 \<or> bPendingBuffer s)) \<and>
     (bDropLastPkt l \<longrightarrow> rx_left fw s \<noteq> 0 \<and> (\<exists>l0. uBuffSize l = uBuffSize (rx_desc s l0)))"

lemma rx_agg_cong:
  assumes "rx_agg s l ag" "uAggregPktsNum l' = uAggregPktsNum l" "uTotalAggregLen l' = uTotalAggregLen l" "pTxn l' = pTxn l" "aTxnStruct t = aTxnStruct s"
    "uMaxAggregPkts t = uMaxAggregPkts s" "uMaxAggregLen t = uMaxAggregLen s" "uCurrTxnIndex t = uCurrTxnIndex s"
  shows "rx_agg t l' ag"
  using assms by (auto simp: rx_agg_def rx_at_def)

lemma agg_empty: "rx_agg s l ag \<Longrightarrow> uAggregPktsNum l = 0 \<longleftrightarrow> ag = []"
  by (auto simp: rx_agg_def unat_eq_zero [symmetric])

lemma stat_txns [simp]: "aTxnStruct (rx_stat f s) = aTxnStruct s" "aRxPktsDesc (rx_stat f s) = aRxPktsDesc s"
  by (simp_all add: rx_stat_def)

lemma rx_fetch_ok:
  assumes "rx_agg s l ag" "length ag < max 1 (unat (uMaxAggregPkts s))" "uMaxAggregPkts s \<le> 4" "rx_left fw s \<noteq> 0 \<Longrightarrow> pkt_len s (uDrvRxCntr s) \<noteq> 0"
    "rx_all txn_shape s" "uCurrTxnIndex s < 16" "fw < 8"
  shows "\<exists>t l'. rx_fetch env fw s l = Inr (t, l')"
proof (cases "rx_left fw s \<noteq> 0 \<and> \<not> uTotalAggregLen l + uBuffSize (rx_desc s l) > uMaxAggregLen s")
  case True
  then have "\<exists>t l'. rx_join s (rx_desc s l) b = Inr (t, l')" for b using rx_join_agg [OF assms(1,2,3) _ _ assms(5,6)] assms(4) by metis
  then show ?thesis using True
    by (auto simp: rx_fetch_def Let_def rx_desc_def split: prod.split ERxBufferStatus.split)
next
  case False
  then show ?thesis using left_0_iff [OF assms(7), of s] by (auto simp: rx_fetch_def Let_def rx_desc_def)
qed

lemma rx_fetch_reads:
  assumes g: "rx_agg s l ag" "rx_start l" "length ag < max 1 (unat (uMaxAggregPkts s))" "uMaxAggregPkts s \<le> 4"
    and p: "\<And>x. x \<in> set (rx_wait fw s) \<Longrightarrow> x \<noteq> 0 \<and> unat x \<le> unat (uMaxAggregLen s)"
    and sh: "rx_all txn_shape s" "uCurrTxnIndex s < 16" and fw: "fw < 8"
  shows "\<exists>t l' ag'. rx_fetch env fw s l = Inr (t, l') \<and> rx_fetched fw t l' ag' \<and> ag' @ rx_wait fw t = ag @ rx_wait fw s \<and> rx_reads t = rx_reads s"
proof -
  have hd: "rx_wait fw s = pkt_len s (uDrvRxCntr s) # rx_wait fw (s\<lparr>uDrvRxCntr := uDrvRxCntr s + 1\<rparr>)" if "rx_left fw s \<noteq> 0"
    by (rule rx_wait_Cons [OF that]) simp_all
  then have z: "pkt_len s (uDrvRxCntr s) \<noteq> 0 \<and> unat (pkt_len s (uDrvRxCntr s)) \<le> unat (uMaxAggregLen s)" if "rx_left fw s \<noteq> 0"
    using p that by simp
  obtain t l' where f: "rx_fetch env fw s l = Inr (t, l')" using rx_fetch_ok [OF g(1,3,4) _ sh fw] z by blast
  have fl: "bIssueTxn l = False" "bDropLastPkt l = False" "bExit l = False" using g(2) by (simp_all add: rx_start_def)
  from f g(2) fw have "\<exists>ag'. rx_fetched fw t l' ag' \<and> ag' @ rx_wait fw t = ag @ rx_wait fw s \<and> rx_reads t = rx_reads s"
  proof (cases rule: rx_fetch_cases)
    case full
    have "ag \<noteq> []"
    proof
      assume "ag = []"
      then have "uTotalAggregLen l = 0" using g(1) by simp
      then have "uBuffSize (rx_desc s l) > uMaxAggregLen s" using full(2) by simp
      then show False using z [OF full(1)] pkt_len_size(1) [of s l] by (simp add: word_less_nat_alt)
    qed
    then show ?thesis using full g fl by (intro exI [of _ ag]) (auto simp: rx_fetched_def intro: rx_agg_cong)
  next
    case (join b)
    from rx_join_agg [OF g(1,3,4) _ join(2) sh, of b] z [OF join(1)] join(3)
    have j: "rx_agg t l' (ag @ [pkt_len s (uDrvRxCntr s)])" "rx_reads t = rx_reads s"
      "bIssueTxn l' \<longleftrightarrow> unat (uMaxAggregPkts s) \<le> length ag + 1" by (simp_all add: fl)
    note c = rx_join_left [OF join(3)]
    have k: "aRxPktsDesc t = aRxPktsDesc s" "uMaxAggregPkts t = uMaxAggregPkts s" using join(3) by (auto simp: rx_join_def Let_def split: option.splits if_splits)
    have "rx_wait fw s = pkt_len s (uDrvRxCntr s) # rx_wait fw t" by (rule rx_wait_Cons [OF join(1)]) (use c k in simp_all)
    then show ?thesis using j c k fl by (intro exI [of _ "ag @ [pkt_len s (uDrvRxCntr s)]"]) (auto simp: rx_fetched_def)
  next
    case pend
    have w: "rx_wait fw t = rx_wait fw s" using pend by (simp add: rx_wait_def rx_left_def pkt_len_def)
    show ?thesis using pend g fl w agg_empty [OF g(1)] by (intro exI [of _ ag]) (auto simp: rx_fetched_def intro: rx_agg_cong)
  next
    case nomem
    have w: "rx_wait fw t = rx_wait fw s" "rx_left fw t \<noteq> 0" "rx_desc t = rx_desc s" using nomem by (auto simp: rx_wait_def rx_left_def pkt_len_def rx_desc_def fun_eq_iff)
    show ?thesis using nomem g fl w agg_empty [OF g(1)] by (intro exI [of _ ag]) (auto simp: rx_fetched_def intro: rx_agg_cong)
  next
    case empty
    show ?thesis using empty g fl agg_empty [OF g(1)] by (intro exI [of _ ag]) (auto simp: rx_fetched_def intro: rx_agg_cong)
  qed
  with f show ?thesis by blast
qed

text \<open>A read transaction within the limits of the configuration.\<close>

definition rx_good :: "u32 \<Rightarrow> u32 \<Rightarrow> rx_txn \<Rightarrow> bool" where
  "rx_good maxLen maxPkts t \<longleftrightarrow> rx_lens t \<noteq> [] \<and> length (rx_lens t) \<le> max 1 (unat maxPkts) \<and> sum_list (map unat (rx_lens t)) \<le> unat maxLen"

text \<open>The invariant of the loop: \<open>r0\<close> was read before, \<open>w0\<close> waited at the start.\<close>

definition rx_g :: "u32 \<Rightarrow> u32 \<Rightarrow> u32 \<Rightarrow> rx_txn list \<Rightarrow> u16 list \<Rightarrow> TRxXfer \<Rightarrow> rx_loc \<Rightarrow> bool" where
  "rx_g fw m p r0 w0 s l \<longleftrightarrow> (\<exists>ag sent. rx_agg s l ag \<and> rx_reads s = r0 @ sent \<and> concat (map rx_lens sent) @ ag @ rx_wait fw s = w0 \<and> (\<forall>x \<in> set sent. rx_good m p x) \<and>
     rx_all txn_shape s \<and> uCurrTxnIndex s < 16 \<and> uMaxAggregLen s = m \<and> uMaxAggregPkts s = p \<and> length ag < max 1 (unat p) \<and>
     (bExit l \<longrightarrow> ag = [] \<and> (rx_left fw s = 0 \<or> bPendingBuffer s)))"

lemma next_index_less: "uCurrTxnIndex (rx_next_index s) < 16"
  by (simp add: rx_next_index_def MAX_CONSECUTIVE_READ_TXN_def word_less_nat_alt unat_mod)

lemma rx_send_curr: "rx_send env s l = Inr (t, l') \<Longrightarrow> uCurrTxnIndex s < 16 \<Longrightarrow> uCurrTxnIndex t < 16"
  by (auto simp: rx_send_def Let_def next_index_less split: if_splits prod.splits option.splits)

lemma rx_drop_curr: "uCurrTxnIndex s < 16 \<Longrightarrow> uCurrTxnIndex (fst (rx_drop env s l)) < 16"
  by (auto simp: rx_drop_def Let_def next_index_less split: prod.splits)

lemma rx_fetch_frame:
  assumes "rx_fetch env fw s l = Inr (t, l')" "rx_start l" "fw < 8"
  shows "rx_const t = rx_const s" "uCurrTxnIndex t = uCurrTxnIndex s" "rx_all txn_shape s \<Longrightarrow> rx_all txn_shape t"
proof -
  have "rx_const t = rx_const s \<and> uCurrTxnIndex t = uCurrTxnIndex s \<and> (rx_all txn_shape s \<longrightarrow> rx_all txn_shape t)"
    using assms
  proof (cases rule: rx_fetch_cases)
    case (join b)
    have "rx_const t = rx_const s" using join(3) by (auto simp: rx_join_def Let_def split: option.splits if_splits)
    then show ?thesis using rx_join_frame [OF join(3)] rx_all_join [OF join(3) stable_shape(1)] by simp
  qed simp_all
  then show "rx_const t = rx_const s" "uCurrTxnIndex t = uCurrTxnIndex s" "rx_all txn_shape s \<Longrightarrow> rx_all txn_shape t" by simp_all
qed

lemma rx_send_frame:
  assumes "rx_send env s l = Inr (t, l')"
  shows "rx_const t = rx_const s" "uDrvRxCntr t = uDrvRxCntr s" "rx_all txn_shape s \<Longrightarrow> rx_all txn_shape t" "uBuffSize l' = uBuffSize l"
proof -
  note i = issue_acct(3) [THEN rx_const_core]
  show "rx_const t = rx_const s" using assms by (auto simp: rx_send_def Let_def dest!: i split: if_splits prod.splits option.splits)
  show "uDrvRxCntr t = uDrvRxCntr s" using rx_send_left [OF assms] by simp
  show "rx_all txn_shape s \<Longrightarrow> rx_all txn_shape t" using assms
    by (auto simp: rx_send_def Let_def rx_all_forward rx_all_prep rx_all_issue split: if_splits prod.splits option.splits)
  show "uBuffSize l' = uBuffSize l" using assms by (auto simp: rx_send_def Let_def split: if_splits prod.splits option.splits)
qed

lemma rx_wait_cong: "rx_const t = rx_const s \<Longrightarrow> uDrvRxCntr t = uDrvRxCntr s \<Longrightarrow> rx_wait fw t = rx_wait fw s"
  by (simp add: rx_wait_def rx_left_def pkt_len_def rx_const_def)

lemma rx_send_round:
  assumes f: "rx_fetched fw s l ag" and g: "rx_reads s = r0 @ sent" "\<forall>x \<in> set sent. rx_good (uMaxAggregLen s) (uMaxAggregPkts s) x"
    and sh: "rx_all txn_shape s" "uCurrTxnIndex s < 16"
  shows "\<exists>t l' ag' sent'. rx_send env s l = Inr (t, l') \<and> rx_agg t l' ag' \<and> rx_reads t = r0 @ sent' \<and> concat (map rx_lens sent') @ ag' = concat (map rx_lens sent) @ ag \<and>
    (\<forall>x \<in> set sent'. rx_good (uMaxAggregLen s) (uMaxAggregPkts s) x) \<and> bPendingBuffer t = bPendingBuffer s \<and> length ag' < max 1 (unat (uMaxAggregPkts s)) \<and>
    (bExit l \<or> bDropLastPkt l \<longrightarrow> ag' = [])"
proof (cases "bIssueTxn l")
  case True
  with f have a: "rx_agg s l ag" "ag \<noteq> []" by (auto simp: rx_fetched_def)
  from rx_send_reads [OF a(1) True a(2) sh, of env] obtain t l' x where
    t: "rx_send env s l = Inr (t, l')" "rx_reads t = rx_reads s @ [x]" "rx_lens x = ag" "rx_agg t l' []" "bPendingBuffer t = bPendingBuffer s" by blast
  have "rx_good (uMaxAggregLen s) (uMaxAggregPkts s) x" using a t(3) by (simp add: rx_good_def rx_agg_def)
  then show ?thesis using t g by (intro exI [of _ t] exI [of _ l'] exI [of _ "[]"] exI [of _ "sent @ [x]"]) simp
next
  case False
  then show ?thesis using f g by (intro exI [of _ s] exI [of _ l] exI [of _ ag] exI [of _ sent]) (auto simp: rx_send_def rx_fetched_def)
qed

lemma rx_round_reads:
  assumes g: "rx_g fw m p r0 w0 s l" and st: "rx_start l" and fw: "fw < 8" and p: "p \<le> 4" and w: "\<And>x. x \<in> set w0 \<Longrightarrow> x \<noteq> 0 \<and> unat x \<le> unat m"
  shows "\<exists>t l'. rx_round env fw s l = Inr (t, l') \<and> rx_g fw m p r0 w0 t l'"
proof -
  from g obtain ag sent where a: "rx_agg s l ag" "rx_reads s = r0 @ sent" "concat (map rx_lens sent) @ ag @ rx_wait fw s = w0" "\<forall>x \<in> set sent. rx_good m p x"
    "rx_all txn_shape s" "uCurrTxnIndex s < 16" "uMaxAggregLen s = m" "uMaxAggregPkts s = p" "length ag < max 1 (unat p)" by (auto simp: rx_g_def)
  have ws: "x \<noteq> 0 \<and> unat x \<le> unat m" if "x \<in> set (rx_wait fw s)" for x using w that by (simp add: a(3) [symmetric])
  have "\<exists>t l' ag'. rx_fetch env fw s l = Inr (t, l') \<and> rx_fetched fw t l' ag' \<and> ag' @ rx_wait fw t = ag @ rx_wait fw s \<and> rx_reads t = rx_reads s"
    by (rule rx_fetch_reads [OF a(1) st _ _ _ a(5,6) fw]) (use a(7-9) p ws in auto)
  then obtain s1 l1 ag1 where f: "rx_fetch env fw s l = Inr (s1, l1)" "rx_fetched fw s1 l1 ag1" "ag1 @ rx_wait fw s1 = ag @ rx_wait fw s" "rx_reads s1 = r0 @ sent"
    using a(2) by auto
  note k1 = rx_fetch_frame [OF f(1) st fw]
  have c1: "rx_all txn_shape s1" "uCurrTxnIndex s1 < 16" "uMaxAggregLen s1 = m" "uMaxAggregPkts s1 = p" using k1 a(5-8) by (simp_all add: rx_const_def)
  from rx_send_round [OF f(2,4) _ c1(1,2), of env, unfolded c1(3,4), OF a(4)] obtain s2 l2 ag2 sent2 where r: "rx_send env s1 l1 = Inr (s2, l2)" "rx_agg s2 l2 ag2" "rx_reads s2 = r0 @ sent2"
    "concat (map rx_lens sent2) @ ag2 = concat (map rx_lens sent) @ ag1" "\<forall>x \<in> set sent2. rx_good m p x" "bPendingBuffer s2 = bPendingBuffer s1"
    "length ag2 < max 1 (unat p)" "bExit l1 \<or> bDropLastPkt l1 \<longrightarrow> ag2 = []" by blast
  note k2 = rx_send_frame [OF r(1)] rx_send_left [OF r(1)]
  have c2: "rx_all txn_shape s2" "uCurrTxnIndex s2 < 16" "uMaxAggregLen s2 = m" "uMaxAggregPkts s2 = p" using k2 c1 rx_send_curr [OF r(1)] by (simp_all add: rx_const_def)
  have w2: "rx_wait fw s2 = rx_wait fw s1" "rx_left fw s2 = rx_left fw s1" using rx_wait_cong [OF k2(1,2)] k2(2) by (simp_all add: rx_left_def)
  have sum: "concat (map rx_lens sent2) @ ag2 @ rx_wait fw s2 = w0" using a(3) f(3) r(4) w2 by (metis append.assoc)
  obtain t l' where d: "rx_drop env s2 l2 = (t, l')" by fastforce
  have rnd: "rx_round env fw s l = Inr (t, l')" using f(1) r(1) d by (simp add: rx_round_def)
  note k3 = rx_round_const [OF rnd st fw]
  have c3: "rx_all txn_shape t" "uCurrTxnIndex t < 16" "uMaxAggregLen t = m" "uMaxAggregPkts t = p"
    using rx_all_drop [OF d _ c2(1)] rx_drop_curr [OF c2(2), of env l2] d k3 a(7,8) by (simp_all add: rx_const_def)
  show ?thesis
  proof (cases "bDropLastPkt l1")
    case False
    then have e: "t = s2" "l' = l2" using d k2(5) by (auto simp: rx_drop_def)
    have x: "bExit l2 \<longrightarrow> ag2 = [] \<and> (rx_left fw s2 = 0 \<or> bPendingBuffer s2)" using r(6,8) k2(5) f(2) w2(2) by (simp add: rx_fetched_def)
    have "rx_g fw m p r0 w0 t l'" unfolding rx_g_def e using r(2,3,5,7) sum c3 x e by (intro exI [of _ ag2] exI [of _ sent2]) simp
    with rnd show ?thesis by blast
  next
    case True
    then have n: "ag2 = []" "bDropLastPkt l2" "rx_left fw s2 \<noteq> 0" "\<not> bExit l2" using r(8) k2(5) f(2) w2 by (auto simp: rx_fetched_def)
    from True f(2) obtain l0 where b: "uBuffSize l2 = uBuffSize (rx_desc s2 l0)" using k2(4) k2(1,2) by (auto simp: rx_fetched_def rx_desc_def rx_const_def)
    have dl: "uDrvRxCntr t = uDrvRxCntr s2 + 1" "bExit l' = bExit l2" "uAggregPktsNum l' = uAggregPktsNum l2" using rx_drop_left [of env s2 l2] d n by simp_all
    have kd: "aRxPktsDesc t = aRxPktsDesc s2" using k3 k2(1) k1(1) by (simp add: rx_const_def)
    have wt: "rx_wait fw s2 = pkt_len s2 (uDrvRxCntr s2) # rx_wait fw t" by (rule rx_wait_Cons [OF n(3) dl(1) kd])
    have z: "pkt_len s2 (uDrvRxCntr s2) \<noteq> 0 \<and> unat (pkt_len s2 (uDrvRxCntr s2)) \<le> unat m" using w by (simp add: sum [symmetric] wt)
    from rx_drop_reads [OF n(2) b _ c2(1,2), of env] z d obtain x where x: "rx_reads t = rx_reads s2 @ [x]" "rx_lens x = [pkt_len s2 (uDrvRxCntr s2)]"
      "uTotalAggregLen l' = uTotalAggregLen l2" by auto
    have "rx_good m p x" using x z by (simp add: rx_good_def)
    then have "rx_g fw m p r0 w0 t l'" unfolding rx_g_def using x r(2,3,5) sum wt n dl c3
      by (intro exI [of _ "[]"] exI [of _ "sent2 @ [x]"]) simp
    with rnd show ?thesis by blast
  qed
qed

lemma rx_loop_total:
  assumes "rx_start l" "fw < 8" "P s l" and r: "\<And>s l. rx_start l \<Longrightarrow> P s l \<Longrightarrow> \<exists>t l'. rx_round env fw s l = Inr (t, l') \<and> P t l'"
  shows "\<exists>t l'. rx_loop env fw s l = Some (Inr t) \<and> P t l' \<and> bExit l'"
  using assms(1,3)
proof (induction "rx_measure fw s l" arbitrary: s l rule: less_induct)
  case less
  from r [OF less.prems] obtain t1 l1 where r1: "rx_round env fw s l = Inr (t1, l1)" and p: "P t1 l1" by blast
  show ?case
  proof (cases "bExit l1")
    case True
    with r1 p show ?thesis by (subst rx_loop.simps) auto
  next
    case False
    with r1 have "rx_loop env fw s l = rx_loop env fw t1 l1" by (subst rx_loop.simps) simp
    with rx_round_measure [OF r1 less.prems(1) assms(2) False] less.hyps [of t1 l1] p show ?thesis by simp
  qed
qed

text \<open>The lengths of the packets that a status announces beyond those read, and of those that still wait.\<close>

definition rx_announced :: "TRxXfer \<Rightarrow> FwStatus_t \<Rightarrow> u16 list" where
  "rx_announced s fw = rx_wait (ucast (fwRxCntr (counters fw)) mod of_nat NUM_RX_PKT_DESC) (s\<lparr>aRxPktsDesc := map (\<lambda>i. rxPktsDesc fw ! i) [0..<NUM_RX_PKT_DESC]\<rparr>)"

definition rx_waiting :: "TRxXfer \<Rightarrow> u16 list" where
  "rx_waiting s = rx_wait (uFwRxCntr s mod of_nat NUM_RX_PKT_DESC) s"

lemma rxXfer_Handle_reads:
  assumes "rx_all txn_shape s" "uCurrTxnIndex s < 16" "uAvailableTxn s \<noteq> 0" "uMaxAggregPkts s \<le> 4"
    and w: "\<And>x. x \<in> set (rx_waiting s) \<Longrightarrow> x \<noteq> 0 \<and> unat x \<le> unat (uMaxAggregLen s)"
  shows "\<exists>t sent. rxXfer_Handle env s = Some (Inr (TI_OK, t)) \<and> rx_reads t = rx_reads s @ sent \<and> concat (map rx_lens sent) @ rx_waiting t = rx_waiting s \<and>
    (\<forall>x \<in> set sent. rx_good (uMaxAggregLen s) (uMaxAggregPkts s) x) \<and> (rx_waiting t = [] \<or> bPendingBuffer t)"
proof -
  let ?fw = "uFwRxCntr s mod of_nat NUM_RX_PKT_DESC"
  let ?P = "rx_g ?fw (uMaxAggregLen s) (uMaxAggregPkts s) (rx_reads s) (rx_waiting s)"
  have "?P s rx_loc0" unfolding rx_g_def using assms(1,2) by (intro exI [of _ "[]"]) (simp add: rx_loc0_def rx_waiting_def)
  from rx_loop_total [OF rx_start_0 fw_index_less, where P = ?P, OF this rx_round_reads [OF _ _ fw_index_less assms(4) w]]
  obtain t l' where t: "rx_loop env ?fw s rx_loc0 = Some (Inr t)" "?P t l'" "bExit l'" by blast
  have k: "rx_waiting t = rx_wait ?fw t" using rx_loop_const [OF t(1) rx_start_0 fw_index_less] by (simp add: rx_waiting_def rx_const_def)
  have h: "rxXfer_Handle env s = Some (Inr (TI_OK, t))" using assms(3) t(1) by (simp add: rxXfer_Handle_def)
  from t(2,3) obtain sent where x: "rx_reads t = rx_reads s @ sent" "concat (map rx_lens sent) @ rx_wait ?fw t = rx_waiting s"
    "\<forall>x \<in> set sent. rx_good (uMaxAggregLen s) (uMaxAggregPkts s) x" "rx_left ?fw t = 0 \<or> bPendingBuffer t" unfolding rx_g_def by force
  from x(4) have "rx_waiting t = [] \<or> bPendingBuffer t" using rx_wait_Nil k by auto
  with h x k show ?thesis by auto
qed

text \<open>
  C12: A status that announces new packets has all of them read, once and in the order of their descriptors: the lengths in the read transactions
  issued by the call, followed by those that still wait, are the announced ones; none waits unless the upper layer has made a buffer wait. Every transaction has at least one
  packet, no more than the limit, and fits the bus's buffer. The packets' lengths are relied on to be neither zero nor more than that buffer.
\<close>

theorem rxXfer_RxEvent_reads_all:
  assumes "reach rx_init rx_step s" "rx_fw_ok s fw"
    and new: "ucast (fwRxCntr (counters fw)) mod of_nat NUM_RX_PKT_DESC \<noteq> uFwRxCntr s mod of_nat NUM_RX_PKT_DESC"
    and "uMaxAggregPkts s \<le> 4" "\<forall>x \<in> set (rx_announced s fw). x \<noteq> 0 \<and> unat x \<le> unat (uMaxAggregLen s)"
  shows "\<exists>t sent. rxXfer_RxEvent env s fw = Some (Inr (TXN_STATUS_COMPLETE, t)) \<and> rx_reads t = rx_reads s @ sent \<and>
    concat (map rx_lens sent) @ rx_waiting t = rx_announced s fw \<and> (\<forall>x \<in> set sent. rx_good (uMaxAggregLen s) (uMaxAggregPkts s) x) \<and>
    (rx_waiting t = [] \<or> bPendingBuffer t)"
proof -
  have inv: "rx_inv s" by (rule rxx.reach_invar [OF assms(1)])
  define s1 where "s1 = (rx_stat (\<lambda>x. x\<lparr>uCountFwEvents := uCountFwEvents x + 1\<rparr>) s)\<lparr>uFwRxCntr := ucast (fwRxCntr (counters fw)),
    aRxPktsDesc := map (\<lambda>i. rxPktsDesc fw ! i) [0..<NUM_RX_PKT_DESC]\<rparr>"
  have e: "rxXfer_RxEvent env s fw = map_option (map_sum id (\<lambda>(_, s). (TXN_STATUS_COMPLETE, s))) (rxXfer_Handle env s1)"
    using new by (simp add: rxXfer_RxEvent_def Let_def s1_def)
  have w: "rx_waiting s1 = rx_announced s fw" by (simp add: rx_waiting_def rx_announced_def rx_wait_def rx_left_def pkt_len_def s1_def)
  have l: "length (rx_flight s) \<le> 7" "uAvailableTxn s + of_nat (length (rx_flight s)) = 15"
    using inv rx_flight_bound by (auto simp: rx_inv_def rx_acc_def)
  have "uAvailableTxn s \<noteq> 0"
  proof
    assume "uAvailableTxn s = 0"
    then have "unat (of_nat (length (rx_flight s)) :: u32) = 15" using l(2) by simp
    then show False using l(1) by (simp add: unsigned_of_nat take_bit_eq_mod)
  qed
  then have "uAvailableTxn s1 \<noteq> 0" "rx_all txn_shape s1" "uCurrTxnIndex s1 < 16" "rx_reads s1 = rx_reads s" "uMaxAggregPkts s1 = uMaxAggregPkts s" "uMaxAggregLen s1 = uMaxAggregLen s"
    using inv by (simp_all add: s1_def rx_inv_def rx_acc_def) (simp_all add: rx_all_def rx_reads_def rx_stat_def)
  with rxXfer_Handle_reads [of s1 env] assms(4,5) w show ?thesis by (auto simp: e)
qed

lemma rs1_announced: "rx_announced rs1 (fw_ex 6) = [32, 32, 32, 32, 32, 32]" by code_simp

theorem rxXfer_RxEvent_reads_all_witness:
  "\<exists>t sent. rxXfer_RxEvent (re_ex TXN_STATUS_PENDING RX_BUF_ALLOC_COMPLETE) rs1 (fw_ex 6) = Some (Inr (TXN_STATUS_COMPLETE, t)) \<and>
     concat (map rx_lens sent) @ rx_waiting t = [32, 32, 32, 32, 32, 32]"
proof -
  have n: "ucast (fwRxCntr (counters (fw_ex 6))) mod of_nat NUM_RX_PKT_DESC \<noteq> uFwRxCntr rs1 mod of_nat NUM_RX_PKT_DESC" by code_simp
  have m: "uMaxAggregPkts rs1 \<le> 4" "\<forall>x \<in> set (rx_announced rs1 (fw_ex 6)). x \<noteq> 0 \<and> unat x \<le> unat (uMaxAggregLen rs1)" by code_simp+
  have f: "rx_fw_ok rs1 (fw_ex 6)" by (simp add: rx_fw_ok_def rs1_flight)
  from rxXfer_RxEvent_reads_all [OF reach_rs f n m, of "re_ex TXN_STATUS_PENDING RX_BUF_ALLOC_COMPLETE"] rs1_announced show ?thesis by auto
qed

section \<open>Dropped packets and oversized packets\<close>

text \<open>A packet was dropped for want of memory and its read into the dummy buffer has completed.\<close>

definition rs4 :: TRxXfer where
  "rs4 = rx_bus (re_ex TXN_STATUS_PENDING RX_BUF_ALLOC_OUT_OF_MEM) rs3"

lemma reach_rs4: "reach rx_init rx_step rs4"
  unfolding rs4_def rs3_def by (intro rx_bus_step rx_do_step reach_rs) (simp add: rx_fw_ok_def rs1_flight)

text \<open>
  A restart passes the module's own dummy buffer to the upper layer, to be freed as a packet: the callback of a dropped packet restores the regular
  callback but leaves the dummy buffer in the structure, and the restart releases the buffer of every structure with the regular callback. The state is
  reachable: one packet was dropped and its read has completed.
\<close>

lemma rxXfer_Restart_frees_dummy_buffer:
  "reach rx_init rx_step rs4 \<and> rx_flight rs4 = [] \<and> (\<exists>d. last (rx_log (rxXfer_Restart rs4)) = RxPass (aTempBuffer rs4) d)"
proof -
  have "rx_flight rs4 = []" by code_simp
  moreover have "last (rx_log (rxXfer_Restart rs4)) = RxPass (aTempBuffer rs4) \<lparr>rxd_length = 8, rxd_status = 0, packet_class_tag = 0, driverFlags = 0\<rparr>" by code_simp
  ultimately show ?thesis using reach_rs4 by blast
qed

text \<open>
  When the read of a dropped packet completes in the call, its callback stays in the structure although nothing is on its way. The handler does not set the callback of
  regular packets, so packets that are later read with the structure complete without being passed on.
\<close>

lemma land_cb [simp]: "rx_at (rx_land env i s) = rx_at s" "rx_log (rx_land env i s) = rx_log s"
proof -
  have "rx_at (land_loop env ks i s) = rx_at s \<and> rx_log (land_loop env ks i s) = rx_log s" for ks
    by (induction env ks i s rule: land_loop.induct) (simp_all add: rx_write_def rx_at_def fun_eq_iff)
  then show "rx_at (rx_land env i s) = rx_at s" "rx_log (rx_land env i s) = rx_log s" by (simp_all add: rx_land_def)
qed

lemma rxXfer_drop_callback_stays:
  "let s = rx_do (re_ex TXN_STATUS_COMPLETE RX_BUF_ALLOC_OUT_OF_MEM) (fw_ex 1) rs1 in rx_flight s = [] \<and> rx_doneCb (rx_at s 0) = RxCbPktDrop"
  by code_simp

lemma rxXfer_drop_callback_loses:
  assumes "rx_flight s = i # js" "rx_doneCb (rx_at s i) = RxCbPktDrop"
  shows "\<exists>t. rx_BusDone env s = Some (Inr t) \<and> rx_log t = rx_log s"
proof -
  have "rx_at (s\<lparr>rx_flight := js\<rparr>) = rx_at s" by (simp add: rx_at_def fun_eq_iff)
  then show ?thesis using assms by (simp add: rx_BusDone_def Let_def rxXfer_PktDropTxnDoneCb_def rx_upd_def)
qed

text \<open>A packet longer than the bus's buffer makes the handler follow a \<open>NULL\<close> pointer when no transaction is under construction.\<close>

lemma rxXfer_Handle_oversized:
  assumes "uAvailableTxn s \<noteq> 0" "rx_waiting s = x # xs" "unat x > unat (uMaxAggregLen s)"
  shows "rxXfer_Handle env s = Some (Inl RxNullTxn)"
proof -
  let ?fw = "uFwRxCntr s mod of_nat NUM_RX_PKT_DESC"
  have n: "rx_left ?fw s \<noteq> 0" using assms(2) rx_wait_Nil [of ?fw s] by (auto simp: rx_waiting_def)
  have "x = pkt_len s (uDrvRxCntr s)" using rx_wait_Cons [OF n, of "s\<lparr>uDrvRxCntr := uDrvRxCntr s + 1\<rparr>"] assms(2) by (simp add: rx_waiting_def)
  then have b: "uBuffSize (rx_desc s rx_loc0) > uMaxAggregLen s" using assms(3) pkt_len_size(1) [of s rx_loc0] by (simp add: word_less_nat_alt)
  have "rx_fetch env ?fw s rx_loc0 = Inr (s, (rx_desc s rx_loc0)\<lparr>bIssueTxn := True\<rparr>)"
    using n left_0_iff [OF fw_index_less, of s] b by (simp add: rx_fetch_def Let_def rx_desc_def rx_loc0_def)
  then have "rx_round env ?fw s rx_loc0 = Inl RxNullTxn" by (simp add: rx_round_def rx_send_def rx_loc0_def)
  then have "rx_loop env ?fw s rx_loc0 = Some (Inl RxNullTxn)" by (subst rx_loop.simps) simp
  then show ?thesis using assms(1) by (simp add: rxXfer_Handle_def)
qed

end
