(* ===== verification/Wlan_TxXfer.thy ===== *)
theory Wlan_TxXfer
  imports Wlan_TxCtrlBlk Wlan_FwStatus
begin

text \<open>
  \<open>TWD/FW_Transfer/txXfer.c\<close>: sending packets to the firmware. Packets are collected in a ring that is threaded through their control blocks
  (\<open>pNextAggregEntry\<close>) and handed to the bus in one burst when the ring reaches its limits or the caller ends the burst. A pointer to a control block is
  its index, \<open>None\<close> is \<open>NULL\<close>; \<open>xf_blks\<close> is the memory of the control blocks, which the model of the control-block table extends with the
  fields of this module.

  The log records the calls, the transactions with the length of their packet, and the calls of the upper layer's callback. The answers of \<open>twIf_Transact\<close> are a parameter.
\<close>

section \<open>Data\<close>

definition DBG_MAX_AGGREG_PKTS :: nat where "DBG_MAX_AGGREG_PKTS = 16"

record TTxXferBlk = TTxCtrlBlk +
  xf_hwAddr :: u32
  xf_doneCb :: bool
  pNextAggregEntry :: "nat option"

record TPktsCntrTxn =
  pc_params :: u32
  pc_hwAddr :: u32
  pc_uPktsCntr :: u32

datatype xf_ev =
    XfGiven nat
  | XfSent nat u32 bool nat
  | XfCntr u32
  | XfDone nat
  | XfRestart

record TTxXferObj =
  uAggregMaxPkts :: u32
  uAggregMaxLen :: u32
  uAggregPktsNum :: u32
  uAggregPktsLen :: u32
  pAggregFirstPkt :: "nat option"
  pAggregLastPkt :: "nat option"
  fSendPacketTransferCb :: handle
  hSendPacketTransferHndl :: handle
  fXferCompleteLocalCb :: bool
  uPktsCntr :: u32
  uPktsCntrTxnIndex :: u32
  aPktsCntrTxn :: "TPktsCntrTxn list"
  aDbgCountPktAggreg :: "u32 list"
  xf_blks :: "nat \<Rightarrow> TTxXferBlk"
  xf_log :: "xf_ev list"

type_synonym xf_env = "TTxXferObj \<Rightarrow> nat \<Rightarrow> ti_status"

text \<open>Where the code would follow a \<open>NULL\<close> pointer or write outside the array of statistics.\<close>

datatype xf_fault = XfNullPkt | XfDbgIndex

definition xf_emit :: "xf_ev \<Rightarrow> TTxXferObj \<Rightarrow> TTxXferObj" where
  "xf_emit e s = s\<lparr>xf_log := xf_log s @ [e]\<rparr>"
definition xf_upd :: "nat \<Rightarrow> (TTxXferBlk \<Rightarrow> TTxXferBlk) \<Rightarrow> TTxXferObj \<Rightarrow> TTxXferObj" where
  "xf_upd p f s = s\<lparr>xf_blks := (xf_blks s)(p := f (xf_blks s p))\<rparr>"

definition xf_len :: "TTxXferObj \<Rightarrow> nat \<Rightarrow> u32" where
  "xf_len s p = push_bit 2 (ucast (desc_length (tTxDescriptor (xf_blks s p))))"

section \<open>Construction and configuration\<close>

definition txXfer_Create :: "handle \<Rightarrow> (nat \<Rightarrow> TTxXferBlk) \<Rightarrow> TTxXferObj option" where
  "txXfer_Create mem blks =
     (if mem = NULL then None
      else Some \<lparr>uAggregMaxPkts = 0, uAggregMaxLen = 0, uAggregPktsNum = 0, uAggregPktsLen = 0, pAggregFirstPkt = None, pAggregLastPkt = None,
        fSendPacketTransferCb = NULL, hSendPacketTransferHndl = NULL, fXferCompleteLocalCb = False, uPktsCntr = 0, uPktsCntrTxnIndex = 0,
        aPktsCntrTxn = replicate CTRL_BLK_ENTRIES_NUM \<lparr>pc_params = 0, pc_hwAddr = 0, pc_uPktsCntr = 0\<rparr>,
        aDbgCountPktAggreg = replicate DBG_MAX_AGGREG_PKTS 0, xf_blks = blks, xf_log = []\<rparr>)"

text \<open>Whether the object is freed.\<close>

definition txXfer_Destroy :: "TTxXferObj option \<Rightarrow> ti_status \<times> bool" where
  "txXfer_Destroy s = (TI_OK, s \<noteq> None)"

definition txXfer_Restart :: "TTxXferObj \<Rightarrow> ti_status \<times> TTxXferObj" where
  "txXfer_Restart s = (TI_OK, xf_emit XfRestart (s\<lparr>uPktsCntr := 0, uPktsCntrTxnIndex := 0, uAggregPktsNum := 0\<rparr>))"

definition txXfer_Init :: "TTxXferObj \<Rightarrow> ti_status \<times> TTxXferObj" where
  "txXfer_Init s =
     (let s = s\<lparr>fSendPacketTransferCb := NULL, fXferCompleteLocalCb := False\<rparr>;
          s = s\<lparr>aPktsCntrTxn := map (\<lambda>i. (aPktsCntrTxn s ! i)\<lparr>
                  pc_params := TXN_PARAM_SET (pc_params (aPktsCntrTxn s ! i)) TXN_LOW_PRIORITY TXN_FUNC_ID_WLAN TXN_DIRECTION_WRITE TXN_INC_ADDR,
                  pc_hwAddr := HOST_WR_ACCESS_REG\<rparr>) [0..<CTRL_BLK_ENTRIES_NUM]\<rparr>
      in txXfer_Restart s)"

definition txXfer_SetDefaults :: "TTxXferObj \<Rightarrow> u32 \<Rightarrow> TTxXferObj" where
  "txXfer_SetDefaults s uTxAggregPktsLimit = s\<lparr>uAggregMaxPkts := uTxAggregPktsLimit\<rparr>"

definition txXfer_SetBusParams :: "TTxXferObj \<Rightarrow> u32 \<Rightarrow> TTxXferObj" where
  "txXfer_SetBusParams s uDmaBufLen = s\<lparr>uAggregMaxLen := uDmaBufLen\<rparr>"

text \<open>\<open>is_xfer\<close> says whether the identifier is \<open>TWD_INT_SEND_PACKET_TRANSFER\<close>, the only one the module knows.\<close>

definition txXfer_RegisterCb :: "TTxXferObj \<Rightarrow> bool \<Rightarrow> handle \<Rightarrow> handle \<Rightarrow> TTxXferObj" where
  "txXfer_RegisterCb s is_xfer f h =
     (if is_xfer then s\<lparr>fSendPacketTransferCb := f, hSendPacketTransferHndl := h, fXferCompleteLocalCb := True\<rparr> else s)"

definition txXfer_ClearStats :: "TTxXferObj \<Rightarrow> TTxXferObj" where
  "txXfer_ClearStats s = s\<lparr>aDbgCountPktAggreg := replicate DBG_MAX_AGGREG_PKTS 0\<rparr>"

section \<open>Sending\<close>

text \<open>One packet of a burst: \<open>follows\<close> says whether others follow. The transaction is logged with what the bus sees of it.\<close>

definition xf_prepare :: "bool \<Rightarrow> nat \<Rightarrow> TTxXferObj \<Rightarrow> TTxXferObj" where
  "xf_prepare follows p s =
     xf_upd p (\<lambda>b. b\<lparr>xf_hwAddr := SLV_MEM_DATA\<rparr>)
       (if follows then xf_upd p (\<lambda>b. b\<lparr>uTxnParams := TXN_PARAM_SET_AGGREGATE (uTxnParams b) TXN_AGGREGATE_ON, xf_doneCb := False\<rparr>) s
        else xf_upd p (\<lambda>b. b\<lparr>uTxnParams := TXN_PARAM_SET_AGGREGATE (uTxnParams b) TXN_AGGREGATE_OFF, xf_doneCb := fXferCompleteLocalCb s\<rparr>) s)"

definition xf_transact :: "xf_env \<Rightarrow> nat \<Rightarrow> TTxXferObj \<Rightarrow> ti_status \<times> TTxXferObj" where
  "xf_transact env p s =
     (env s p, xf_emit (XfSent p (TXN_PARAM_GET_AGGREGATE (uTxnParams (xf_blks s p))) (xf_doneCb (xf_blks s p)) (unat (xf_len s p))) s)"

text \<open>The loop over the packets; the first argument counts those that are left.\<close>

fun xf_send_loop :: "xf_env \<Rightarrow> nat \<Rightarrow> nat option \<Rightarrow> ti_status \<Rightarrow> TTxXferObj \<Rightarrow> (ti_status \<times> TTxXferObj) option" where
  "xf_send_loop env 0 p st s = Some (st, s)"
| "xf_send_loop env (Suc k) None st s = None"
| "xf_send_loop env (Suc k) (Some p) st s =
     (let nxt = (if k > 0 then pNextAggregEntry (xf_blks s p) else Some p);
          (st, s) = xf_transact env p (xf_prepare (k > 0) p s)
      in xf_send_loop env k nxt st s)"

text \<open>The loop over the upper layer's callbacks.\<close>

fun xf_cb_loop :: "nat \<Rightarrow> nat option \<Rightarrow> TTxXferObj \<Rightarrow> TTxXferObj option" where
  "xf_cb_loop 0 p s = Some s"
| "xf_cb_loop (Suc k) None s = None"
| "xf_cb_loop (Suc k) (Some p) s = xf_cb_loop k (pNextAggregEntry (xf_blks s p)) (xf_emit (XfDone p) s)"

text \<open>The counter of packets is written to the firmware after every burst.\<close>

definition xf_count :: "TTxXferObj \<Rightarrow> TTxXferObj" where
  "xf_count s =
     (let s = s\<lparr>uPktsCntr := uPktsCntr s + uAggregPktsNum s, uPktsCntrTxnIndex := uPktsCntrTxnIndex s + 1\<rparr>;
          s = (if uPktsCntrTxnIndex s = of_nat CTRL_BLK_ENTRIES_NUM then s\<lparr>uPktsCntrTxnIndex := 0\<rparr> else s);
          i = unat (uPktsCntrTxnIndex s)
      in xf_emit (XfCntr (uPktsCntr s)) (s\<lparr>aPktsCntrTxn := (aPktsCntrTxn s)[i := (aPktsCntrTxn s ! i)\<lparr>pc_uPktsCntr := uPktsCntr s, pc_hwAddr := HOST_WR_ACCESS_REG\<rparr>]\<rparr>))"

definition txXfer_SendAggregatedPkts :: "xf_env \<Rightarrow> TTxXferObj \<Rightarrow> bool \<Rightarrow> xf_fault + ti_status \<times> TTxXferObj" where
  "txXfer_SendAggregatedPkts env s bLastPktSentNow =
     (let n = unat (uAggregPktsNum s) in
      case xf_send_loop env n (pAggregFirstPkt s) TXN_STATUS_COMPLETE s of
        None \<Rightarrow> Inl XfNullPkt
      | Some (st, s) \<Rightarrow>
          if n \<ge> DBG_MAX_AGGREG_PKTS then Inl XfDbgIndex
          else
            let s = s\<lparr>aDbgCountPktAggreg := (aDbgCountPktAggreg s)[n := aDbgCountPktAggreg s ! n + 1]\<rparr> in
            if st = TXN_STATUS_ERROR then Inr (st, s)
            else
              let s = xf_count s in
              if fSendPacketTransferCb s \<noteq> NULL \<and> st = TXN_STATUS_COMPLETE then
                case xf_cb_loop (if bLastPktSentNow then n - 1 else n) (pAggregFirstPkt s) s of
                  None \<Rightarrow> Inl XfNullPkt
                | Some s \<Rightarrow> Inr (st, s)
              else Inr (st, s))"

definition xf_start :: "u32 \<Rightarrow> nat \<Rightarrow> TTxXferObj \<Rightarrow> TTxXferObj" where
  "xf_start uPktLen p s =
     xf_upd p (\<lambda>b. b\<lparr>pNextAggregEntry := Some p\<rparr>)
       (s\<lparr>uAggregPktsNum := 1, uAggregPktsLen := uPktLen, pAggregFirstPkt := Some p, pAggregLastPkt := Some p\<rparr>)"

definition xf_append :: "u32 \<Rightarrow> nat \<Rightarrow> nat \<Rightarrow> TTxXferObj \<Rightarrow> TTxXferObj" where
  "xf_append uPktLen q p s =
     (let s = s\<lparr>uAggregPktsNum := uAggregPktsNum s + 1, uAggregPktsLen := uAggregPktsLen s + uPktLen\<rparr>;
          s = xf_upd q (\<lambda>b. b\<lparr>pNextAggregEntry := Some p\<rparr>) s;
          s = s\<lparr>pAggregLastPkt := Some p\<rparr>
      in xf_upd p (\<lambda>b. b\<lparr>pNextAggregEntry := pAggregFirstPkt s\<rparr>) s)"

definition txXfer_SendPacket :: "xf_env \<Rightarrow> TTxXferObj \<Rightarrow> nat \<Rightarrow> xf_fault + ti_status \<times> TTxXferObj" where
  "txXfer_SendPacket env s p =
     (let uPktLen = xf_len s p; s = xf_emit (XfGiven p) s in
      if uAggregPktsNum s = 0 then
        let s = xf_start uPktLen p s in
        if uAggregMaxPkts s \<le> 1 then
          map_sum id (\<lambda>(st, s). (st, s\<lparr>uAggregPktsNum := 0\<rparr>)) (txXfer_SendAggregatedPkts env s True)
        else Inr (TXN_STATUS_PENDING, s)
      else if uAggregPktsNum s + 1 \<le> uAggregMaxPkts s \<and> uAggregPktsLen s + uPktLen \<le> uAggregMaxLen s then
        (case pAggregLastPkt s of
           None \<Rightarrow> Inl XfNullPkt
         | Some q \<Rightarrow> Inr (TXN_STATUS_PENDING, xf_append uPktLen q p s))
      else
        map_sum id (\<lambda>(_, s). (TXN_STATUS_PENDING, xf_start uPktLen p s)) (txXfer_SendAggregatedPkts env s False))"

definition txXfer_EndOfBurst :: "xf_env \<Rightarrow> TTxXferObj \<Rightarrow> xf_fault + TTxXferObj" where
  "txXfer_EndOfBurst env s =
     (if uAggregPktsNum s > 0 then map_sum id (\<lambda>(_, s). s\<lparr>uAggregPktsNum := 0\<rparr>) (txXfer_SendAggregatedPkts env s False) else Inr s)"

text \<open>The transaction of a burst's last packet is done: \<open>k\<close> counts the rounds that the loop has left.\<close>

fun xf_done_loop :: "nat \<Rightarrow> nat \<Rightarrow> nat option \<Rightarrow> TTxXferObj \<Rightarrow> TTxXferObj option" where
  "xf_done_loop 0 pIn p s = Some s"
| "xf_done_loop (Suc k) pIn None s = None"
| "xf_done_loop (Suc k) pIn (Some p) s =
     (let s = xf_emit (XfDone p) s in
      if p = pIn then Some s else xf_done_loop k pIn (pNextAggregEntry (xf_blks s p)) s)"

definition txXfer_TransferDoneCb :: "TTxXferObj \<Rightarrow> nat \<Rightarrow> TTxXferObj option" where
  "txXfer_TransferDoneCb s pInputPkt = xf_done_loop (unat (uAggregMaxPkts s)) pInputPkt (pNextAggregEntry (xf_blks s pInputPkt)) s"

end
