(* ===== verification/Wlan_TxXferRun.thy ===== *)
theory Wlan_TxXferRun
  imports Wlan_TxXfer
begin

text \<open>
  The runs of the Tx transfer module: its log is accepted by a specification machine in which packets wait in a list and leave it in bursts.
\<close>

section \<open>The specification\<close>

text \<open>
  The packets that wait, the lengths of the packets of the burst that is being sent, the size of the last complete burst, and the counter written to the
  firmware. \<open>maxLen\<close> and \<open>maxPkts\<close> are the limits of a burst.
\<close>

record xf_sp =
  sp_wait :: "nat list"
  sp_open :: "nat list"
  sp_last :: nat
  sp_cnt :: u32

definition sp0 :: xf_sp where
  "sp0 = \<lparr>sp_wait = [], sp_open = [], sp_last = 0, sp_cnt = 0\<rparr>"

definition burst_ok :: "nat \<Rightarrow> nat \<Rightarrow> nat list \<Rightarrow> bool" where
  "burst_ok maxLen maxPkts ls \<longleftrightarrow> length ls \<le> max 1 maxPkts \<and> (length ls = 1 \<or> sum_list ls \<le> maxLen)"

text \<open>Of a burst's packets, all but the last have the aggregation flag and no callback; the last has no flag.\<close>

fun xf_spec :: "nat \<Rightarrow> nat \<Rightarrow> xf_ev \<Rightarrow> xf_sp \<Rightarrow> xf_sp option" where
  "xf_spec maxLen maxPkts (XfGiven p) sp = (if sp_open sp = [] then Some (sp\<lparr>sp_wait := sp_wait sp @ [p]\<rparr>) else None)"
| "xf_spec maxLen maxPkts (XfSent p fl cb l) sp =
     (if sp_wait sp \<noteq> [] \<and> hd (sp_wait sp) = p then
        let ls = sp_open sp @ [l]; sp = sp\<lparr>sp_wait := tl (sp_wait sp)\<rparr> in
        if fl = TXN_AGGREGATE_ON then (if cb then None else Some (sp\<lparr>sp_open := ls\<rparr>))
        else if burst_ok maxLen maxPkts ls then Some (sp\<lparr>sp_open := [], sp_last := length ls\<rparr>) else None
      else None)"
| "xf_spec maxLen maxPkts (XfCntr c) sp = (if sp_open sp = [] \<and> c = sp_cnt sp + of_nat (sp_last sp) then Some (sp\<lparr>sp_cnt := c, sp_last := 0\<rparr>) else None)"
| "xf_spec maxLen maxPkts (XfDone p) sp = Some sp"
| "xf_spec maxLen maxPkts XfRestart sp = Some sp0"

fun xf_run :: "nat \<Rightarrow> nat \<Rightarrow> xf_ev list \<Rightarrow> xf_sp \<Rightarrow> xf_sp option" where
  "xf_run maxLen maxPkts [] sp = Some sp"
| "xf_run maxLen maxPkts (e # es) sp = Option.bind (xf_spec maxLen maxPkts e sp) (xf_run maxLen maxPkts es)"

lemma xf_run_append: "xf_run m n (xs @ ys) sp = Option.bind (xf_run m n xs sp) (xf_run m n ys)"
  by (induction xs arbitrary: sp) (auto simp: bind_assoc split: bind_split)

section \<open>The ring\<close>

fun xf_chain :: "(nat \<Rightarrow> TTxXferBlk) \<Rightarrow> nat list \<Rightarrow> bool" where
  "xf_chain f (a # b # r) \<longleftrightarrow> pNextAggregEntry (f a) = Some b \<and> xf_chain f (b # r)"
| "xf_chain f [a] \<longleftrightarrow> True"
| "xf_chain f [] \<longleftrightarrow> True"

fun xf_walk :: "(nat \<Rightarrow> TTxXferBlk) \<Rightarrow> nat \<Rightarrow> nat option \<Rightarrow> nat list" where
  "xf_walk f 0 p = []"
| "xf_walk f (Suc k) None = []"
| "xf_walk f (Suc k) (Some p) = p # xf_walk f k (pNextAggregEntry (f p))"

text \<open>The packets of the current aggregation, in order.\<close>

definition xf_pkts :: "TTxXferObj \<Rightarrow> nat list" where
  "xf_pkts s = xf_walk (xf_blks s) (unat (uAggregPktsNum s)) (pAggregFirstPkt s)"

definition xf_ring :: "(nat \<Rightarrow> TTxXferBlk) \<Rightarrow> nat list \<Rightarrow> bool" where
  "xf_ring f ag \<longleftrightarrow> distinct ag \<and> xf_chain f ag \<and> (ag \<noteq> [] \<longrightarrow> pNextAggregEntry (f (last ag)) = Some (hd ag))"

lemma xf_walk_chain: "xf_chain f ag \<Longrightarrow> ag \<noteq> [] \<Longrightarrow> xf_walk f (length ag) (Some (hd ag)) = ag"
proof (induction f ag rule: xf_chain.induct)
  case (1 f a b r)
  then show ?case by simp
qed simp_all

lemma xf_chain_cong: "xf_chain f ag \<Longrightarrow> (\<And>p. p \<in> set ag \<Longrightarrow> pNextAggregEntry (g p) = pNextAggregEntry (f p)) \<Longrightarrow> xf_chain g ag"
  by (induction f ag rule: xf_chain.induct) simp_all

lemma xf_chain_snoc: "xf_chain f (ag @ [p]) \<longleftrightarrow> xf_chain f ag \<and> (ag \<noteq> [] \<longrightarrow> pNextAggregEntry (f (last ag)) = Some p)"
  by (induction f ag rule: xf_chain.induct) auto

text \<open>What the loops over the packets leave unchanged.\<close>

definition xf_frame :: "TTxXferObj \<Rightarrow> TTxXferObj \<Rightarrow> bool" where
  "xf_frame s t \<longleftrightarrow> t\<lparr>xf_blks := xf_blks s, xf_log := xf_log s\<rparr> = s \<and>
     (\<forall>p. pNextAggregEntry (xf_blks t p) = pNextAggregEntry (xf_blks s p) \<and> tTxDescriptor (xf_blks t p) = tTxDescriptor (xf_blks s p))"

lemma xf_frame_fields:
  assumes "xf_frame s t"
  shows "uAggregMaxPkts t = uAggregMaxPkts s" "uAggregMaxLen t = uAggregMaxLen s" "uAggregPktsNum t = uAggregPktsNum s" "uAggregPktsLen t = uAggregPktsLen s"
    "pAggregFirstPkt t = pAggregFirstPkt s" "pAggregLastPkt t = pAggregLastPkt s" "uPktsCntr t = uPktsCntr s" "xf_len t = xf_len s"
    "fXferCompleteLocalCb t = fXferCompleteLocalCb s"
  using assms by (cases s; cases t; simp add: xf_frame_def xf_len_def fun_eq_iff)+

lemma xf_frame_refl [simp]: "xf_frame s s"
  by (simp add: xf_frame_def)

lemma xf_frame_trans: "xf_frame s t \<Longrightarrow> xf_frame t u \<Longrightarrow> xf_frame s u"
  by (cases s; cases t; cases u) (simp add: xf_frame_def)

lemma xf_frame_simps [simp]:
  "xf_frame s (xf_emit e t) = xf_frame s t"
  by (cases s; cases t) (simp add: xf_frame_def xf_emit_def)

lemma xf_frame_prepare [simp]: "xf_frame s (xf_prepare b p s)"
  by (cases s) (simp add: xf_frame_def xf_prepare_def xf_upd_def)

lemma aggregate_flag: "TXN_PARAM_GET_AGGREGATE (TXN_PARAM_SET_AGGREGATE p TXN_AGGREGATE_ON) = TXN_AGGREGATE_ON"
  "TXN_PARAM_GET_AGGREGATE (TXN_PARAM_SET_AGGREGATE p TXN_AGGREGATE_OFF) = TXN_AGGREGATE_OFF"
  by (simp_all add: txn_get_fld txn_set_fld fld_get_set TXN_AGGREGATE_ON_def TXN_AGGREGATE_OFF_def)

text \<open>The transactions of a burst.\<close>

fun xf_sents :: "bool \<Rightarrow> (nat \<Rightarrow> u32) \<Rightarrow> nat list \<Rightarrow> xf_ev list" where
  "xf_sents cb len [] = []"
| "xf_sents cb len [p] = [XfSent p TXN_AGGREGATE_OFF cb (unat (len p))]"
| "xf_sents cb len (p # q # r) = XfSent p TXN_AGGREGATE_ON False (unat (len p)) # xf_sents cb len (q # r)"

text \<open>The packets that the transactions of a log send.\<close>

definition xf_burst :: "xf_ev list \<Rightarrow> nat list" where
  "xf_burst es = concat (map (\<lambda>e. case e of XfSent p fl cb l \<Rightarrow> [p] | _ \<Rightarrow> []) es)"

lemma xf_burst_simps [simp]:
  "xf_burst [] = []" "xf_burst (es @ ds) = xf_burst es @ xf_burst ds" "xf_burst (XfSent p fl cb l # es) = p # xf_burst es" "xf_burst (XfGiven p # es) = xf_burst es"
  "xf_burst (XfCntr c # es) = xf_burst es" "xf_burst (XfDone p # es) = xf_burst es" "xf_burst (map XfDone ps) = []"
  by (simp_all add: xf_burst_def)

lemma xf_burst_sents [simp]: "xf_burst (xf_sents cb len ag) = ag"
  by (induction cb len ag rule: xf_sents.induct) simp_all

lemma xf_transact_prepare:
  "snd (xf_transact env p (xf_prepare b p s)) =
     xf_emit (XfSent p (if b then TXN_AGGREGATE_ON else TXN_AGGREGATE_OFF) (\<not> b \<and> fXferCompleteLocalCb s) (unat (xf_len s p))) (xf_prepare b p s)"
  by (simp add: xf_transact_def xf_prepare_def xf_upd_def xf_len_def aggregate_flag)

lemma xf_send_loop_ok:
  assumes "xf_chain (xf_blks s) ag" "ag \<noteq> []"
  shows "\<exists>st' t. xf_send_loop env (length ag) (Some (hd ag)) st s = Some (st', t) \<and> xf_frame s t \<and> xf_log t = xf_log s @ xf_sents (fXferCompleteLocalCb s) (xf_len s) ag"
  using assms
proof (induction "fXferCompleteLocalCb s" "xf_len s" ag arbitrary: s st rule: xf_sents.induct)
  case (2 p)
  define t where "t = snd (xf_transact env p (xf_prepare False p s))"
  have "xf_send_loop env 1 (Some p) st s = Some (env (xf_prepare False p s) p, t)" by (simp add: t_def xf_transact_def)
  then show ?case by (auto simp: t_def xf_transact_prepare) (simp add: xf_emit_def xf_prepare_def xf_upd_def)
next
  case (3 p q r)
  define t where "t = snd (xf_transact env p (xf_prepare True p s))"
  have f: "xf_frame s t" by (simp add: t_def xf_transact_prepare)
  have l: "xf_log t = xf_log s @ [XfSent p TXN_AGGREGATE_ON False (unat (xf_len s p))]"
    unfolding t_def xf_transact_prepare by (simp add: xf_emit_def xf_prepare_def xf_upd_def)
  have c: "xf_chain (xf_blks t) (q # r)" "pNextAggregEntry (xf_blks s p) = Some q"
    using 3(2) f by (auto simp: xf_frame_def intro: xf_chain_cong)
  from 3(1) [of t "env (xf_prepare True p s) p"] c(1) xf_frame_fields(8,9) [OF f] obtain st' u where
    u: "xf_send_loop env (length (q # r)) (Some q) (env (xf_prepare True p s) p) t = Some (st', u)" "xf_frame t u"
    "xf_log u = xf_log t @ xf_sents (fXferCompleteLocalCb s) (xf_len s) (q # r)" by auto
  have "xf_send_loop env (length (p # q # r)) (Some p) st s = Some (st', u)"
    using u(1) c(2) by (simp add: t_def xf_transact_def)
  then show ?case using u l xf_frame_trans [OF f u(2)] by simp
qed simp

section \<open>The invariant\<close>

lemma spec_sents:
  assumes "sp_wait sp = ag @ w" "ag \<noteq> []" "burst_ok m n (sp_open sp @ map (unat \<circ> len) ag)"
  shows "xf_run m n (xf_sents cb len ag) sp = Some (sp\<lparr>sp_wait := w, sp_open := [], sp_last := length (sp_open sp) + length ag\<rparr>)"
  using assms
proof (induction cb len ag arbitrary: sp rule: xf_sents.induct)
  case (2 cb len p)
  then show ?case by (simp add: Let_def TXN_AGGREGATE_ON_def TXN_AGGREGATE_OFF_def)
next
  case (3 cb len p q r)
  from 3(1) [of "sp\<lparr>sp_wait := q # r @ w, sp_open := sp_open sp @ [unat (len p)]\<rparr>"] 3(2-4) show ?case by (simp add: Let_def)
qed simp

text \<open>The state against the specification: \<open>ag\<close> is the current aggregation.\<close>

definition xf_agg :: "TTxXferObj \<Rightarrow> nat list \<Rightarrow> bool" where
  "xf_agg s ag \<longleftrightarrow> xf_ring (xf_blks s) ag \<and> length ag = unat (uAggregPktsNum s) \<and>
     (ag \<noteq> [] \<longrightarrow> pAggregFirstPkt s = Some (hd ag) \<and> pAggregLastPkt s = Some (last ag) \<and> unat (uAggregPktsLen s) = sum_list (map (unat \<circ> xf_len s) ag) \<and>
        burst_ok (unat (uAggregMaxLen s)) (unat (uAggregMaxPkts s)) (map (unat \<circ> xf_len s) ag)) \<and> uAggregMaxPkts s \<le> 15"

definition xf_rel :: "TTxXferObj \<Rightarrow> nat list \<Rightarrow> bool" where
  "xf_rel s w \<longleftrightarrow> (\<exists>sp. xf_run (unat (uAggregMaxLen s)) (unat (uAggregMaxPkts s)) (xf_log s) sp0 = Some sp \<and> sp_wait sp = w \<and> sp_open sp = [] \<and> sp_cnt sp = uPktsCntr s)"

lemma xf_agg_pkts: "xf_agg s ag \<Longrightarrow> xf_pkts s = ag"
  using xf_walk_chain [of "xf_blks s" ag] by (cases "ag = []") (auto simp: xf_agg_def xf_pkts_def xf_ring_def)

lemma xf_agg_length: "xf_agg s ag \<Longrightarrow> length ag \<le> 15"
  by (cases "ag = []") (auto simp: xf_agg_def burst_ok_def word_le_nat_alt)

lemma xf_cb_loop_ok:
  assumes "xf_chain (xf_blks s) ag" "k \<le> length ag" "ag \<noteq> []"
  shows "\<exists>t. xf_cb_loop k (Some (hd ag)) s = Some t \<and> xf_frame s t \<and> xf_log t = xf_log s @ map XfDone (take k ag)"
  using assms
proof (induction "xf_blks s" ag arbitrary: s k rule: xf_chain.induct)
  case (1 a b r)
  show ?case
  proof (cases k)
    case (Suc j)
    let ?s = "xf_emit (XfDone a) s"
    have c: "xf_blks s = xf_blks ?s" "xf_chain (xf_blks ?s) (b # r)" "j \<le> length (b # r)" using 1(2,3) Suc by (simp_all add: xf_emit_def)
    from 1(1) [OF c] obtain t where t: "xf_cb_loop j (Some b) ?s = Some t" "xf_frame ?s t" "xf_log t = xf_log ?s @ map XfDone (take j (b # r))" by auto
    have "xf_frame s t" by (rule xf_frame_trans [OF _ t(2)]) simp
    then show ?thesis using t Suc 1(2) by (simp add: xf_emit_def)
  qed simp
next
  case (2 a)
  then have "k = 0 \<or> k = 1" by auto
  then show ?case by (auto simp: xf_emit_def xf_frame_simps [unfolded xf_emit_def])
qed simp

lemma xf_run_done [simp]: "xf_run m n (map XfDone ps) sp = Some sp"
  by (induction ps) simp_all

lemma xf_count_fields:
  "xf_log (xf_count s) = xf_log s @ [XfCntr (uPktsCntr s + uAggregPktsNum s)]" "uPktsCntr (xf_count s) = uPktsCntr s + uAggregPktsNum s" "xf_blks (xf_count s) = xf_blks s"
  "uAggregMaxPkts (xf_count s) = uAggregMaxPkts s" "uAggregMaxLen (xf_count s) = uAggregMaxLen s" "uAggregPktsNum (xf_count s) = uAggregPktsNum s"
  "pAggregFirstPkt (xf_count s) = pAggregFirstPkt s" "fSendPacketTransferCb (xf_count s) = fSendPacketTransferCb s"
  by (simp_all add: xf_count_def Let_def xf_emit_def)

text \<open>A burst is sent: the waiting packets before \<open>w\<close> leave.\<close>

lemma send_aggregated_ok:
  assumes a: "xf_agg s ag" "ag \<noteq> []" and r: "xf_rel s (ag @ w)"
  shows "\<exists>st t. txXfer_SendAggregatedPkts env s b = Inr (st, t) \<and> xf_rel t w \<and> uAggregMaxPkts t = uAggregMaxPkts s \<and> uAggregMaxLen t = uAggregMaxLen s \<and>
    xf_len t = xf_len s \<and> (\<forall>q. pNextAggregEntry (xf_blks t q) = pNextAggregEntry (xf_blks s q)) \<and> (\<exists>es. xf_log t = xf_log s @ es \<and> xf_burst es = ag)"
proof -
  let ?m = "unat (uAggregMaxLen s)" and ?n = "unat (uAggregMaxPkts s)"
  have c: "xf_chain (xf_blks s) ag" "pAggregFirstPkt s = Some (hd ag)" "unat (uAggregPktsNum s) = length ag" "burst_ok ?m ?n (map (unat \<circ> xf_len s) ag)"
    using a by (auto simp: xf_agg_def xf_ring_def)
  from r obtain sp where sp: "xf_run ?m ?n (xf_log s) sp0 = Some sp" "sp_wait sp = ag @ w" "sp_open sp = []" "sp_cnt sp = uPktsCntr s" by (auto simp: xf_rel_def)
  from xf_send_loop_ok [OF c(1) a(2), of env TXN_STATUS_COMPLETE] obtain st s1 where
    l: "xf_send_loop env (length ag) (Some (hd ag)) TXN_STATUS_COMPLETE s = Some (st, s1)" "xf_frame s s1" "xf_log s1 = xf_log s @ xf_sents (fXferCompleteLocalCb s) (xf_len s) ag" by blast
  note f = xf_frame_fields [OF l(2)]
  define sp1 where "sp1 = sp\<lparr>sp_wait := w, sp_open := [], sp_last := length ag\<rparr>"
  have r1: "xf_run ?m ?n (xf_log s1) sp0 = Some sp1" using sp spec_sents [OF sp(2) a(2), of ?m ?n "xf_len s"] c(4) by (simp add: l(3) xf_run_append sp1_def)
  define s2 where "s2 = s1\<lparr>aDbgCountPktAggreg := (aDbgCountPktAggreg s1)[length ag := aDbgCountPktAggreg s1 ! length ag + 1]\<rparr>"
  show ?thesis
  proof (cases "st = TXN_STATUS_ERROR")
    case True
    have "txXfer_SendAggregatedPkts env s b = Inr (st, s2)"
      using l(1) c xf_agg_length [OF a(1)] True by (simp add: txXfer_SendAggregatedPkts_def Let_def DBG_MAX_AGGREG_PKTS_def s2_def)
    moreover have "xf_rel s2 w" using r1 f sp by (simp add: xf_rel_def s2_def sp1_def)
    ultimately show ?thesis using f l(2,3) by (intro exI [of _ st] exI [of _ s2]) (simp add: s2_def xf_len_def fun_eq_iff xf_frame_def)
  next
    case False
    have b2: "xf_blks s2 = xf_blks s1" "uAggregPktsNum s2 = uAggregPktsNum s" "pAggregFirstPkt s2 = pAggregFirstPkt s" "uPktsCntr s2 = uPktsCntr s" "xf_log s2 = xf_log s1"
      "uAggregMaxPkts s2 = uAggregMaxPkts s" "uAggregMaxLen s2 = uAggregMaxLen s" using f by (simp_all add: s2_def)
    define s3 where "s3 = xf_count s2"
    note f3 = xf_count_fields [of s2, folded s3_def, unfolded b2]
    have n: "of_nat (length ag) = uAggregPktsNum s" using c(3) [symmetric] by simp
    have l3: "xf_len s3 = xf_len s" using f(8) f3(3) by (simp add: xf_len_def fun_eq_iff)
    have r3: "xf_run ?m ?n (xf_log s3) sp0 = Some (sp1\<lparr>sp_cnt := uPktsCntr s + uAggregPktsNum s, sp_last := 0\<rparr>)"
      using r1 sp n by (simp add: f3 xf_run_append sp1_def)
    have rel: "xf_rel t w \<and> uAggregMaxPkts t = uAggregMaxPkts s \<and> uAggregMaxLen t = uAggregMaxLen s \<and> xf_len t = xf_len s \<and>
      (\<forall>q. pNextAggregEntry (xf_blks t q) = pNextAggregEntry (xf_blks s q)) \<and> (\<exists>es. xf_log t = xf_log s @ es \<and> xf_burst es = ag)"
      if "xf_frame s3 t" "xf_log t = xf_log s3 @ map XfDone ps" for t ps
    proof -
      have "xf_log t = xf_log s @ xf_sents (fXferCompleteLocalCb s) (xf_len s) ag @ XfCntr (uPktsCntr s + uAggregPktsNum s) # map XfDone ps"
        using that(2) f3(1) l(3) by simp
      then have "\<exists>es. xf_log t = xf_log s @ es \<and> xf_burst es = ag"
        by (intro exI [of _ "xf_sents (fXferCompleteLocalCb s) (xf_len s) ag @ XfCntr (uPktsCntr s + uAggregPktsNum s) # map XfDone ps"]) simp
      then show ?thesis
        using xf_frame_fields [OF that(1)] that l(2) r3 f3(2-5) l3 by (simp add: xf_rel_def xf_run_append sp1_def xf_frame_def)
    qed
    show ?thesis
    proof (cases "fSendPacketTransferCb s3 \<noteq> NULL \<and> st = TXN_STATUS_COMPLETE")
      case cb: False
      have "txXfer_SendAggregatedPkts env s b = Inr (st, s3)"
        using l(1) c xf_agg_length [OF a(1)] False cb by (auto simp: txXfer_SendAggregatedPkts_def Let_def DBG_MAX_AGGREG_PKTS_def s2_def [symmetric] s3_def [symmetric])
      with rel [of s3 "[]"] show ?thesis by auto
    next
      case cb: True
      have ch: "xf_chain (xf_blks s3) ag" using c(1) l(2) unfolding f3(3) by (auto simp: xf_frame_def intro: xf_chain_cong)
      define k where "k = (if b then length ag - 1 else length ag)"
      have k: "k \<le> length ag" by (simp add: k_def)
      from xf_cb_loop_ok [OF ch k a(2)] obtain t where
        t: "xf_cb_loop k (Some (hd ag)) s3 = Some t" "xf_frame s3 t" "xf_log t = xf_log s3 @ map XfDone (take k ag)" by blast
      have "txXfer_SendAggregatedPkts env s b = Inr (st, t)"
        using l(1) c xf_agg_length [OF a(1)] False cb t(1) f3(7)
        by (simp add: txXfer_SendAggregatedPkts_def Let_def DBG_MAX_AGGREG_PKTS_def s2_def [symmetric] s3_def [symmetric] k_def)
      with rel [OF t(2,3)] show ?thesis by blast
    qed
  qed
qed

text \<open>The operations on the ring.\<close>

lemma xf_len_le: "unat (xf_len s p) \<le> 262140"
proof -
  have "unat (ucast (desc_length (tTxDescriptor (xf_blks s p))) :: u32) \<le> 65535"
    using unsigned_less [of "desc_length (tTxDescriptor (xf_blks s p))", where ?'a = nat] by (simp add: unsigned_ucast_eq take_bit_nat_eq_self)
  then show ?thesis by (simp add: xf_len_def push_bit_eq_mult unat_word_ariths)
qed

lemma xf_lens_le: "sum_list (map (unat \<circ> xf_len s) ag) \<le> 262140 * length ag"
  by (induction ag) (use xf_len_le in \<open>auto intro!: add_mono\<close>)

lemma xf_agg_nil: "uAggregPktsNum s = 0 \<Longrightarrow> uAggregMaxPkts s \<le> 15 \<Longrightarrow> xf_agg s []"
  by (simp add: xf_agg_def xf_ring_def)

lemma xf_agg_empty: "xf_agg s ag \<Longrightarrow> uAggregPktsNum s = 0 \<longleftrightarrow> ag = []"
  by (auto simp: xf_agg_def simp flip: unat_eq_0)

lemma xf_agg_emit [simp]: "xf_agg (xf_emit e s) ag = xf_agg s ag" "xf_len (xf_emit e s) = xf_len s"
  by (simp_all add: xf_agg_def xf_emit_def xf_len_def fun_eq_iff o_def)

lemma xf_agg_start: "uAggregMaxPkts s \<le> 15 \<Longrightarrow> xf_agg (xf_start (xf_len s p) p s) [p]"
  by (simp add: xf_agg_def xf_start_def xf_ring_def xf_upd_def xf_len_def burst_ok_def)

lemma xf_append_eq:
  "xf_append l q p s = s\<lparr>uAggregPktsNum := uAggregPktsNum s + 1, uAggregPktsLen := uAggregPktsLen s + l, pAggregLastPkt := Some p,
     xf_blks := (\<lambda>g. g(p := (g p)\<lparr>pNextAggregEntry := pAggregFirstPkt s\<rparr>)) ((xf_blks s)(q := (xf_blks s q)\<lparr>pNextAggregEntry := Some p\<rparr>))\<rparr>"
  by (simp add: xf_append_def Let_def xf_upd_def)

lemma xf_append_fields:
  "uAggregPktsNum (xf_append l q p s) = uAggregPktsNum s + 1" "uAggregPktsLen (xf_append l q p s) = uAggregPktsLen s + l"
  "pAggregFirstPkt (xf_append l q p s) = pAggregFirstPkt s" "pAggregLastPkt (xf_append l q p s) = Some p"
  "uAggregMaxPkts (xf_append l q p s) = uAggregMaxPkts s" "uAggregMaxLen (xf_append l q p s) = uAggregMaxLen s"
  "uPktsCntr (xf_append l q p s) = uPktsCntr s" "xf_log (xf_append l q p s) = xf_log s"
  unfolding xf_append_eq by simp_all

lemma xf_append_next:
  "pNextAggregEntry (xf_blks (xf_append l q p s) r) = (if r = p then pAggregFirstPkt s else if r = q then Some p else pNextAggregEntry (xf_blks s r))"
  by (simp add: xf_append_eq)

lemma xf_append_len: "xf_len (xf_append l q p s) r = xf_len s r"
  by (simp add: xf_append_eq xf_len_def)

lemma xf_ring_append:
  assumes r: "xf_ring f ag" and ag: "ag \<noteq> []" and p: "p \<notin> set ag"
    and g: "\<And>r. pNextAggregEntry (g r) = (if r = p then Some (hd ag) else if r = last ag then Some p else pNextAggregEntry (f r))"
  shows "xf_ring g (ag @ [p])"
proof -
  obtain as z where z: "ag = as @ [z]" using ag by (cases ag rule: rev_cases) auto
  have d: "distinct as" "z \<notin> set as" "p \<notin> set as" "p \<noteq> z" and c: "xf_chain f as" "as \<noteq> [] \<Longrightarrow> pNextAggregEntry (f (last as)) = Some z"
    using r p by (simp_all add: xf_ring_def z xf_chain_snoc)
  have g': "pNextAggregEntry (g x) = pNextAggregEntry (f x)" if "x \<in> set as" for x
  proof -
    from that d have "x \<noteq> p" "x \<noteq> last ag" by (auto simp: z)
    then show ?thesis by (simp add: g)
  qed
  have "xf_chain g ag" using c xf_chain_cong [OF c(1) g'] g' [OF last_in_set] by (simp add: z xf_chain_snoc)
  moreover have "pNextAggregEntry (g (last ag)) = Some p" "pNextAggregEntry (g p) = Some (hd ag)" using p ag by (auto simp: g)
  ultimately show ?thesis using r ag p by (simp add: xf_ring_def xf_chain_snoc)
qed

lemma xf_agg_append:
  assumes a: "xf_agg s ag" "ag \<noteq> []" "p \<notin> set ag"
    and n: "uAggregPktsNum s + 1 \<le> uAggregMaxPkts s" and l: "uAggregPktsLen s + xf_len s p \<le> uAggregMaxLen s"
  shows "xf_agg (xf_append (xf_len s p) (last ag) p s) (ag @ [p])"
proof -
  let ?t = "xf_append (xf_len s p) (last ag) p s" and ?sum = "sum_list (map (unat \<circ> xf_len s) ag)"
  have s: "xf_ring (xf_blks s) ag" "length ag = unat (uAggregPktsNum s)" "pAggregFirstPkt s = Some (hd ag)" "unat (uAggregPktsLen s) = ?sum" "uAggregMaxPkts s \<le> 15"
    using a by (auto simp: xf_agg_def)
  have "?sum \<le> 262140 * 15" using xf_lens_le [of s ag] xf_agg_length [OF a(1)] by linarith
  then have len: "unat (uAggregPktsLen s + xf_len s p) = ?sum + unat (xf_len s p)"
    using xf_len_le [of s p] s(4) by (simp add: unat_word_ariths)
  have num: "unat (uAggregPktsNum s + 1) = length ag + 1" using xf_agg_length [OF a(1)] s(2) by (simp add: unat_word_ariths)
  have "xf_ring (xf_blks ?t) (ag @ [p])" using s(1,3) a(2,3) by (intro xf_ring_append [of "xf_blks s"]) (simp_all add: xf_append_next)
  moreover have "burst_ok (unat (uAggregMaxLen s)) (unat (uAggregMaxPkts s)) (map (unat \<circ> xf_len s) (ag @ [p]))"
    using n l num len by (simp add: burst_ok_def word_le_nat_alt)
  ultimately show ?thesis using a(2) s num len by (simp add: xf_agg_def xf_append_fields xf_append_len o_def)
qed

section \<open>The operations keep the invariant\<close>

definition xf_inv :: "TTxXferObj \<Rightarrow> bool" where
  "xf_inv s \<longleftrightarrow> (\<exists>ag. xf_agg s ag \<and> xf_rel s ag)"

text \<open>The packets that an operation has sent are a ring that is not longer than the limit, and none of them waits any more.\<close>

definition xf_left :: "TTxXferObj \<Rightarrow> TTxXferObj \<Rightarrow> bool" where
  "xf_left s t \<longleftrightarrow> (\<exists>es. xf_log t = xf_log s @ es \<and> xf_ring (xf_blks t) (xf_burst es) \<and> length (xf_burst es) \<le> max 1 (unat (uAggregMaxPkts t)) \<and>
     set (xf_pkts t) \<inter> set (xf_burst es) = {})"

lemma xf_ring_Nil [simp]: "xf_ring f []"
  by (simp add: xf_ring_def)

lemma xf_leftI:
  assumes "xf_agg r ag" "xf_log t = xf_log s @ es" "xf_burst es = ag" "uAggregMaxPkts t = uAggregMaxPkts r"
    "\<And>q. q \<in> set ag \<Longrightarrow> pNextAggregEntry (xf_blks t q) = pNextAggregEntry (xf_blks r q)" "set (xf_pkts t) \<inter> set ag = {}"
  shows "xf_left s t"
proof -
  have "xf_ring (xf_blks t) ag" using assms(1,5) by (auto simp: xf_agg_def xf_ring_def intro: xf_chain_cong)
  moreover have "length ag \<le> max 1 (unat (uAggregMaxPkts t))" using assms(1,4) by (cases "ag = []") (auto simp: xf_agg_def burst_ok_def)
  ultimately show ?thesis using assms(2,3,6) unfolding xf_left_def by auto
qed

lemma xf_left_given: "xf_log t = xf_log s @ [XfGiven p] \<Longrightarrow> xf_left s t"
  unfolding xf_left_def by (intro exI [of _ "[XfGiven p]"]) simp

lemma xf_pkts_none [simp]: "uAggregPktsNum s = 0 \<Longrightarrow> xf_pkts s = []"
  by (simp add: xf_pkts_def)

text \<open>What a packet changes: its own block and the ring it joins.\<close>

definition xf_next :: "TTxXferObj \<Rightarrow> TTxXferObj \<Rightarrow> nat list \<Rightarrow> nat \<Rightarrow> bool" where
  "xf_next s t ag p \<longleftrightarrow> (\<exists>ag'. xf_agg t ag' \<and> xf_rel t ag' \<and> set ag' \<subseteq> insert p (set ag)) \<and>
     (\<forall>q. q \<notin> insert p (set ag) \<longrightarrow> pNextAggregEntry (xf_blks t q) = pNextAggregEntry (xf_blks s q)) \<and> uAggregMaxPkts t = uAggregMaxPkts s \<and> xf_left s t"

lemma xf_start_fields [simp]:
  "uAggregMaxPkts (xf_start l p s) = uAggregMaxPkts s" "q \<noteq> p \<Longrightarrow> pNextAggregEntry (xf_blks (xf_start l p s) q) = pNextAggregEntry (xf_blks s q)"
  by (simp_all add: xf_start_def xf_upd_def)

lemma xf_emit_fields [simp]: "xf_blks (xf_emit e s) = xf_blks s" "uAggregMaxPkts (xf_emit e s) = uAggregMaxPkts s"
  by (simp_all add: xf_emit_def)

lemma xf_rel_cong: "xf_rel s w \<Longrightarrow> xf_log t = xf_log s \<Longrightarrow> uAggregMaxPkts t = uAggregMaxPkts s \<Longrightarrow> uAggregMaxLen t = uAggregMaxLen s \<Longrightarrow> uPktsCntr t = uPktsCntr s \<Longrightarrow> xf_rel t w"
  by (simp add: xf_rel_def)

lemma xf_rel_given: "xf_rel s w \<Longrightarrow> xf_rel (xf_emit (XfGiven p) s) (w @ [p])"
  by (auto simp: xf_rel_def xf_emit_def xf_run_append)

lemma xf_rel_start: "xf_rel s w \<Longrightarrow> xf_rel (xf_start l p s) w"
  by (rule xf_rel_cong) (simp_all add: xf_start_def xf_upd_def)

lemma SendPacket_ok:
  assumes a: "xf_agg s ag" and r: "xf_rel s ag" and p: "p \<notin> set ag"
  shows "\<exists>st t. txXfer_SendPacket env s p = Inr (st, t) \<and> xf_next s t ag p"
proof -
  let ?s = "xf_emit (XfGiven p) s" and ?l = "xf_len s p"
  have a1: "xf_agg ?s ag" and r1: "xf_rel ?s (ag @ [p])" using a xf_rel_given [OF r] by simp_all
  have m: "uAggregMaxPkts ?s \<le> 15" using a1 by (simp add: xf_agg_def)
  consider "ag = []" "uAggregMaxPkts s \<le> 1" | "ag = []" "\<not> uAggregMaxPkts s \<le> 1"
    | "ag \<noteq> []" "uAggregPktsNum s + 1 \<le> uAggregMaxPkts s \<and> uAggregPktsLen s + ?l \<le> uAggregMaxLen s"
    | "ag \<noteq> []" "\<not> (uAggregPktsNum s + 1 \<le> uAggregMaxPkts s \<and> uAggregPktsLen s + ?l \<le> uAggregMaxLen s)" by blast
  then show ?thesis
  proof cases
    case 1
    let ?t = "xf_start ?l p ?s"
    have at: "xf_agg ?t [p]" "xf_rel ?t ([p] @ [])" using xf_agg_start [OF m, of p] xf_rel_start [OF r1] 1 by simp_all
    from send_aggregated_ok [OF at(1) _ at(2), of env True] obtain st t es where
      t: "txXfer_SendAggregatedPkts env ?t True = Inr (st, t)" "xf_rel t []" "uAggregMaxPkts t = uAggregMaxPkts ?t"
      "\<And>q. pNextAggregEntry (xf_blks t q) = pNextAggregEntry (xf_blks ?t q)" "xf_log t = xf_log ?t @ es" "xf_burst es = [p]" by auto
    let ?u = "t\<lparr>uAggregPktsNum := 0\<rparr>"
    have "xf_log ?u = xf_log s @ XfGiven p # es" using t(5) by (simp add: xf_start_def xf_upd_def xf_emit_def)
    then have "xf_left s ?u" by (rule xf_leftI [OF at(1)]) (simp_all add: t(3,4,6))
    moreover have "xf_agg ?u []" using t(3) m by (intro xf_agg_nil) (simp_all add: xf_start_def xf_upd_def)
    moreover have "xf_rel ?u []" by (rule xf_rel_cong [OF t(2)]) simp_all
    moreover have "txXfer_SendPacket env s p = Inr (st, ?u)"
      using 1 xf_agg_empty [OF a1] t(1) by (simp add: txXfer_SendPacket_def Let_def xf_emit_def xf_start_def xf_upd_def)
    ultimately show ?thesis using 1 t(3,4) by (auto simp: xf_next_def)
  next
    case 2
    then have "txXfer_SendPacket env s p = Inr (TXN_STATUS_PENDING, xf_start ?l p ?s)"
      using xf_agg_empty [OF a] by (simp add: txXfer_SendPacket_def Let_def xf_emit_def xf_start_def xf_upd_def)
    moreover have "xf_left s (xf_start ?l p ?s)" by (rule xf_left_given [of _ _ p]) (simp add: xf_start_def xf_upd_def xf_emit_def)
    ultimately show ?thesis using xf_agg_start [OF m, of p] xf_rel_start [OF r1] 2 by (auto simp: xf_next_def)
  next
    case 3
    let ?t = "xf_append ?l (last ag) p ?s"
    have "xf_agg ?t (ag @ [p])" using xf_agg_append [OF a1 3(1) p] 3(2) by (simp add: xf_emit_def xf_len_def)
    moreover have "xf_rel ?t (ag @ [p])" by (rule xf_rel_cong [OF r1]) (simp_all add: xf_append_fields)
    moreover have "xf_left s ?t" by (rule xf_left_given [of _ _ p]) (simp add: xf_append_fields xf_emit_def)
    moreover have "pAggregLastPkt s = Some (last ag)" using a 3(1) by (simp add: xf_agg_def)
    then have "txXfer_SendPacket env s p = Inr (TXN_STATUS_PENDING, ?t)"
      using 3 xf_agg_empty [OF a] by (simp add: txXfer_SendPacket_def Let_def xf_emit_def)
    ultimately show ?thesis using 3(1) by (auto simp: xf_next_def xf_append_fields xf_append_next)
  next
    case 4
    from send_aggregated_ok [OF a1 4(1) r1, of env False] obtain st t es where
      t: "txXfer_SendAggregatedPkts env ?s False = Inr (st, t)" "xf_rel t [p]" "uAggregMaxPkts t = uAggregMaxPkts ?s" "xf_len t = xf_len s"
      "\<And>q. pNextAggregEntry (xf_blks t q) = pNextAggregEntry (xf_blks ?s q)" "xf_log t = xf_log ?s @ es" "xf_burst es = ag" by auto
    let ?u = "xf_start ?l p t"
    have "txXfer_SendPacket env s p = Inr (TXN_STATUS_PENDING, ?u)"
      using 4 xf_agg_empty [OF a] t(1) by (auto simp: txXfer_SendPacket_def Let_def xf_emit_def)
    moreover have u: "xf_agg ?u [p]" using xf_agg_start [of t p] t(3,4) m by simp
    moreover have "xf_left s ?u"
    proof (rule xf_leftI [OF a1, of _ _ "XfGiven p # es"])
      show "xf_log ?u = xf_log s @ XfGiven p # es" using t(6) by (simp add: xf_start_def xf_upd_def xf_emit_def)
      show "pNextAggregEntry (xf_blks ?u q) = pNextAggregEntry (xf_blks ?s q)" if "q \<in> set ag" for q
        using that p t(5) by (cases "q = p") simp_all
    qed (use p in \<open>simp_all add: t(3,7) xf_agg_pkts [OF u]\<close>)
    ultimately show ?thesis using xf_rel_start [OF t(2)] t(3,5) by (auto simp: xf_next_def)
  qed
qed

lemma EndOfBurst_ok:
  assumes a: "xf_agg s ag" and r: "xf_rel s ag"
  shows "\<exists>t. txXfer_EndOfBurst env s = Inr t \<and> xf_inv t \<and> xf_pkts t = [] \<and> (\<forall>q. pNextAggregEntry (xf_blks t q) = pNextAggregEntry (xf_blks s q)) \<and> uAggregMaxPkts t = uAggregMaxPkts s \<and> xf_left s t"
proof (cases "ag = []")
  case True
  moreover have "xf_left s s" unfolding xf_left_def by (intro exI [of _ "[]"]) simp
  ultimately show ?thesis using a r xf_agg_empty [OF a] by (auto simp: txXfer_EndOfBurst_def xf_inv_def xf_agg_pkts)
next
  case False
  from r have "xf_rel s (ag @ [])" by simp
  from send_aggregated_ok [OF a False this, of env False] obtain st t es where
    t: "txXfer_SendAggregatedPkts env s False = Inr (st, t)" "xf_rel t []" "uAggregMaxPkts t = uAggregMaxPkts s"
    "\<And>q. pNextAggregEntry (xf_blks t q) = pNextAggregEntry (xf_blks s q)" "xf_log t = xf_log s @ es" "xf_burst es = ag" by auto
  have "xf_left s (t\<lparr>uAggregPktsNum := 0\<rparr>)" by (rule xf_leftI [OF a, of _ _ es]) (simp_all add: t(3-6))
  moreover have "txXfer_EndOfBurst env s = Inr (t\<lparr>uAggregPktsNum := 0\<rparr>)" using False xf_agg_empty [OF a] t(1) by (simp add: txXfer_EndOfBurst_def word_gt_0)
  moreover have "xf_agg (t\<lparr>uAggregPktsNum := 0\<rparr>) []" using t(3) a by (intro xf_agg_nil) (simp_all add: xf_agg_def)
  moreover have "xf_rel (t\<lparr>uAggregPktsNum := 0\<rparr>) []" by (rule xf_rel_cong [OF t(2)]) simp_all
  ultimately show ?thesis using t(3,4) by (auto simp: xf_inv_def xf_agg_pkts)
qed

lemma xf_done_loop_frame: "xf_done_loop k q p s = Some t \<Longrightarrow> xf_frame s t \<and> (\<exists>ps. xf_log t = xf_log s @ map XfDone ps)"
proof (induction k q p s rule: xf_done_loop.induct)
  case (3 k q p s)
  let ?s = "xf_emit (XfDone p) s"
  show ?case
  proof (cases "p = q")
    case True
    then show ?thesis using 3(2) by (auto simp: Let_def xf_emit_def xf_frame_simps [unfolded xf_emit_def] intro: exI [of _ "[p]"])
  next
    case False
    with 3 obtain ps where t: "xf_frame ?s t" "xf_log t = xf_log ?s @ map XfDone ps" by (auto simp: Let_def)
    have "xf_frame s t" by (rule xf_frame_trans [OF _ t(1)]) simp
    moreover have "xf_log t = xf_log s @ map XfDone (p # ps)" using t(2) by (simp add: xf_emit_def)
    ultimately show ?thesis by blast
  qed
qed auto

section \<open>Runs\<close>

text \<open>
  A step of the module or of its surroundings. The packets of \<open>A\<close> are left alone: no step sends them again or writes their control block. The packets that
  wait in the current aggregation are always left alone.
\<close>

inductive xf_step :: "nat set \<Rightarrow> TTxXferObj \<Rightarrow> TTxXferObj \<Rightarrow> bool" for A where
  packet: "p \<notin> set (xf_pkts s) \<Longrightarrow> p \<notin> A \<Longrightarrow> txXfer_SendPacket env s p = Inr (st, t) \<Longrightarrow> xf_step A s t"
| burst: "txXfer_EndOfBurst env s = Inr t \<Longrightarrow> xf_step A s t"
| complete: "txXfer_TransferDoneCb s p = Some t \<Longrightarrow> xf_step A s t"
| client: "p \<notin> set (xf_pkts s) \<Longrightarrow> p \<notin> A \<Longrightarrow> xf_step A s (xf_upd p f s)"
| restart: "xf_step A s (snd (txXfer_Restart s))"
| register: "xf_step A s (txXfer_RegisterCb s b f h)"
| clear: "xf_step A s (txXfer_ClearStats s)"

definition xf_init :: "TTxXferObj \<Rightarrow> bool" where
  "xf_init s \<longleftrightarrow> (\<exists>mem blks s0 n m. txXfer_Create mem blks = Some s0 \<and> n \<le> 15 \<and> s = txXfer_SetBusParams (txXfer_SetDefaults (snd (txXfer_Init s0)) n) m)"

text \<open>A step keeps the invariant and the links between packets that are left alone.\<close>

definition xf_links :: "nat set \<Rightarrow> TTxXferObj \<Rightarrow> TTxXferObj \<Rightarrow> bool" where
  "xf_links A s t \<longleftrightarrow> uAggregMaxPkts t = uAggregMaxPkts s \<and>
     (set (xf_pkts s) \<inter> A = {} \<longrightarrow> set (xf_pkts t) \<inter> A = {} \<and> (\<forall>q\<in>A. pNextAggregEntry (xf_blks t q) = pNextAggregEntry (xf_blks s q)))"

lemma xf_links_pkts: "xf_agg s ag \<Longrightarrow> xf_agg t ag \<Longrightarrow> uAggregMaxPkts t = uAggregMaxPkts s \<Longrightarrow> \<forall>q\<in>A. pNextAggregEntry (xf_blks t q) = pNextAggregEntry (xf_blks s q) \<Longrightarrow> xf_links A s t"
  by (simp add: xf_links_def xf_agg_pkts)

lemma xf_agg_frame:
  assumes "xf_agg s ag" "xf_frame s t"
  shows "xf_agg t ag"
proof -
  have "xf_ring (xf_blks t) ag" using assms by (auto simp: xf_agg_def xf_ring_def xf_frame_def intro: xf_chain_cong)
  then show ?thesis using assms(1) xf_frame_fields [OF assms(2)] by (simp add: xf_agg_def)
qed

lemma xf_agg_upd:
  assumes a: "xf_agg s ag" "p \<notin> set ag"
  shows "xf_agg (xf_upd p f s) ag"
proof -
  have o: "xf_blks (xf_upd p f s) q = xf_blks s q" "xf_len (xf_upd p f s) q = xf_len s q" if "q \<in> set ag" for q
    using that a(2) by (auto simp: xf_upd_def xf_len_def)
  have "xf_chain (xf_blks (xf_upd p f s)) ag" using a(1) o(1) by (auto simp: xf_agg_def xf_ring_def intro: xf_chain_cong)
  then have "xf_ring (xf_blks (xf_upd p f s)) ag" using a(1) o(1) by (simp add: xf_agg_def xf_ring_def)
  moreover have l: "map (unat \<circ> xf_len (xf_upd p f s)) ag = map (unat \<circ> xf_len s) ag" using o(2) by simp
  ultimately show ?thesis using a(1) unfolding xf_agg_def l by (simp add: xf_upd_def)
qed

lemma xf_agg_cong:
  "xf_agg s ag \<Longrightarrow> xf_blks t = xf_blks s \<Longrightarrow> uAggregPktsNum t = uAggregPktsNum s \<Longrightarrow> uAggregPktsLen t = uAggregPktsLen s \<Longrightarrow> pAggregFirstPkt t = pAggregFirstPkt s \<Longrightarrow>
   pAggregLastPkt t = pAggregLastPkt s \<Longrightarrow> uAggregMaxPkts t = uAggregMaxPkts s \<Longrightarrow> uAggregMaxLen t = uAggregMaxLen s \<Longrightarrow> xf_agg t ag"
  by (simp add: xf_agg_def xf_len_def comp_def)

lemma xf_inv_restart: "xf_inv s \<Longrightarrow> xf_inv (snd (txXfer_Restart s))"
  by (auto simp: xf_inv_def xf_agg_def xf_ring_def xf_rel_def txXfer_Restart_def xf_emit_def xf_run_append sp0_def intro!: exI [of _ "[]"])

lemma xf_step_ok:
  assumes "xf_inv s" "xf_step A s t"
  shows "xf_inv t \<and> xf_links A s t"
proof -
  from assms(1) obtain ag where a: "xf_agg s ag" and r: "xf_rel s ag" by (auto simp: xf_inv_def)
  note pk = xf_agg_pkts [OF a]
  show ?thesis using assms(2)
  proof cases
    case (packet p env st)
    from SendPacket_ok [OF a r, of p env] packet pk have "xf_next s t ag p" by auto
    then obtain ag' where ag': "xf_agg t ag'" "xf_rel t ag'" "set ag' \<subseteq> insert p (set ag)" "uAggregMaxPkts t = uAggregMaxPkts s"
      "\<And>q. q \<notin> insert p (set ag) \<Longrightarrow> pNextAggregEntry (xf_blks t q) = pNextAggregEntry (xf_blks s q)" by (auto simp: xf_next_def)
    have "pNextAggregEntry (xf_blks t q) = pNextAggregEntry (xf_blks s q)" if "q \<in> A" "set ag \<inter> A = {}" for q
      using that packet(2) by (intro ag'(5)) auto
    then have "xf_links A s t" using packet(2) ag'(3,4) by (auto simp: xf_links_def pk xf_agg_pkts [OF ag'(1)])
    then show ?thesis using ag' by (auto simp: xf_inv_def)
  next
    case (burst env)
    from EndOfBurst_ok [OF a r, of env] burst show ?thesis by (auto simp: xf_links_def)
  next
    case (complete p)
    then obtain ps where t: "xf_frame s t" "xf_log t = xf_log s @ map XfDone ps" by (auto simp: txXfer_TransferDoneCb_def dest!: xf_done_loop_frame)
    have "xf_rel t ag" using r xf_frame_fields [OF t(1)] t(2) by (auto simp: xf_rel_def xf_run_append)
    moreover have "xf_links A s t" using a xf_agg_frame [OF a t(1)] xf_frame_fields [OF t(1)] t(1) by (intro xf_links_pkts) (auto simp: xf_frame_def)
    ultimately show ?thesis using xf_agg_frame [OF a t(1)] by (auto simp: xf_inv_def)
  next
    case (client p f)
    have u: "xf_agg t ag" using xf_agg_upd [OF a] client pk by simp
    moreover have "xf_rel t ag" by (rule xf_rel_cong [OF r]) (simp_all add: client xf_upd_def)
    moreover have "xf_links A s t" using client by (intro xf_links_pkts [OF a u]) (auto simp: xf_upd_def)
    ultimately show ?thesis by (auto simp: xf_inv_def)
  next
    case restart
    have "xf_links A s t" by (simp add: restart xf_links_def xf_pkts_def txXfer_Restart_def xf_emit_def)
    then show ?thesis using xf_inv_restart [OF assms(1)] restart by simp
  next
    case (register b f h)
    have u: "xf_agg t ag" by (rule xf_agg_cong [OF a]) (simp_all add: register txXfer_RegisterCb_def)
    moreover have "xf_rel t ag" by (rule xf_rel_cong [OF r]) (simp_all add: register txXfer_RegisterCb_def)
    moreover have "xf_links A s t" by (rule xf_links_pkts [OF a u]) (simp_all add: register txXfer_RegisterCb_def)
    ultimately show ?thesis by (auto simp: xf_inv_def)
  next
    case clear
    have u: "xf_agg t ag" by (rule xf_agg_cong [OF a]) (simp_all add: clear txXfer_ClearStats_def)
    moreover have "xf_rel t ag" by (rule xf_rel_cong [OF r]) (simp_all add: clear txXfer_ClearStats_def)
    moreover have "xf_links A s t" by (rule xf_links_pkts [OF a u]) (simp_all add: clear txXfer_ClearStats_def)
    ultimately show ?thesis by (auto simp: xf_inv_def)
  qed
qed

lemma xf_inv_init: "xf_init s \<Longrightarrow> xf_inv s"
  by (auto simp: xf_init_def xf_inv_def xf_agg_def xf_ring_def xf_rel_def txXfer_Create_def txXfer_Init_def txXfer_Restart_def txXfer_SetDefaults_def
      txXfer_SetBusParams_def xf_emit_def Let_def sp0_def split: if_splits intro!: exI [of _ "[]"])

interpretation txx: state_invariant xf_init "xf_step {}" xf_inv
  by unfold_locales (use xf_step_ok xf_inv_init in blast)+

lemma xf_links_star:
  assumes "(xf_step A)\<^sup>*\<^sup>* s t" "xf_inv s"
  shows "xf_inv t \<and> xf_links A s t"
  using assms
proof (induction rule: rtranclp_induct)
  case (step t u)
  then show ?case using xf_step_ok [of t A u] by (auto simp: xf_links_def)
qed (simp add: xf_links_def)

lemma xf_done_loop_ring:
  assumes "xf_chain (xf_blks s) ag" "ag \<noteq> []" "distinct ag" "length ag \<le> k"
  shows "xf_done_loop k (last ag) (Some (hd ag)) s = Some (s\<lparr>xf_log := xf_log s @ map XfDone ag\<rparr>)"
  using assms
proof (induction "xf_blks s" ag arbitrary: s k rule: xf_chain.induct)
  case (1 a b r)
  then obtain j where k: "k = Suc j" by (cases k) auto
  have "xf_done_loop j (last (b # r)) (Some b) (xf_emit (XfDone a) s) = Some ((xf_emit (XfDone a) s)\<lparr>xf_log := xf_log (xf_emit (XfDone a) s) @ map XfDone (b # r)\<rparr>)"
    using 1(1) [of "xf_emit (XfDone a) s" j] 1(2-5) k by simp
  moreover have "a \<noteq> last (b # r)" using 1(4) last_in_set [of "b # r"] by auto
  ultimately show ?case using 1(2) k by (simp add: Let_def xf_emit_def)
next
  case (2 a)
  then show ?case by (cases k) (simp_all add: Let_def xf_emit_def)
qed simp

section \<open>The properties\<close>


text \<open>A run: a limit of four packets and 4000 bytes, two packets of 1000 bytes.\<close>

definition xw_env :: xf_env where
  "xw_env s p = TXN_STATUS_PENDING"
definition xw_blk :: "nat \<Rightarrow> TTxXferBlk" where
  "xw_blk p = \<lparr>uTxnParams = 0,
     tTxDescriptor = \<lparr>desc_length = 250, extraMemBlks = 0, totalMemBlks = 0, descID = of_nat p, desc_tid = 0, aid = 1, desc_reserved = 0\<rparr>,
     tTxPktParams = \<lparr>uHeadroomSize = 0, uFlags = 0\<rparr>, pNextFreeEntry = None, xf_hwAddr = 0, xf_doneCb = False, pNextAggregEntry = None\<rparr>"
definition xw_start :: "u32 \<Rightarrow> TTxXferObj" where
  "xw_start n = txXfer_SetBusParams (txXfer_SetDefaults (snd (txXfer_Init (the (txXfer_Create 1 xw_blk)))) n) 4000"
definition xw_give :: "nat \<Rightarrow> TTxXferObj \<Rightarrow> TTxXferObj" where
  "xw_give p s = (case txXfer_SendPacket xw_env s p of Inr (st, t) \<Rightarrow> t | Inl _ \<Rightarrow> s)"
definition xw :: TTxXferObj where
  "xw = xw_give 7 (xw_give 3 (txXfer_RegisterCb (xw_start 4) True 1 1))"

lemma xw_init: "n \<le> 15 \<Longrightarrow> xf_init (xw_start n)"
  unfolding xf_init_def xw_start_def
  by (intro exI [of _ 1] exI [of _ xw_blk] exI [of _ "the (txXfer_Create 1 xw_blk)"] exI [of _ n] exI [of _ 4000]) (simp add: txXfer_Create_def)

lemma xw_give_cases: "p \<notin> set (xf_pkts s) \<Longrightarrow> p \<notin> A \<Longrightarrow> xw_give p s = s \<or> xf_step A s (xw_give p s)"
  unfolding xw_give_def by (cases "txXfer_SendPacket xw_env s p") (auto intro: xf_step.packet [of p])

lemma xw_give_step: "p \<notin> set (xf_pkts s) \<Longrightarrow> reach xf_init (xf_step {}) s \<Longrightarrow> reach xf_init (xf_step {}) (xw_give p s)"
  using xw_give_cases [of p s "{}"] by (auto intro: reach_step)

lemma xw_reach: "reach xf_init (xf_step {}) xw"
proof -
  have "reach xf_init (xf_step {}) (txXfer_RegisterCb (xw_start 4) True 1 1)"
    by (rule reach_step [where s = "xw_start 4"]) (rule reach_init, simp_all add: xw_init xf_step.register)
  moreover have "3 \<notin> set (xf_pkts (txXfer_RegisterCb (xw_start 4) True 1 1))" "7 \<notin> set (xf_pkts (xw_give 3 (txXfer_RegisterCb (xw_start 4) True 1 1)))" by code_simp+
  ultimately show ?thesis unfolding xw_def by (intro xw_give_step)
qed

lemma xw_pkts: "xf_pkts xw = [3, 7]" "uAggregMaxPkts xw = 4" "uAggregMaxLen xw = 4000" by code_simp+


text \<open>
  C14: with a limit of at most 15 packets, an operation sends a burst \<open>ag\<close>: the caller ends the burst, or gives a packet that does not fit into it any more, or gives a packet while packets are not collected.
  Its packets are then left alone until the transaction of its last packet is done, while other packets are given and sent. The completion then calls the upper
  layer's callback for the packets of this burst and no others, each once and in their order, if the limit of packets is not 0; with the limit 0, the configured default,
  it calls nothing, although the packet of the burst was sent.
\<close>

theorem txXfer_TransferDoneCb_reports_burst:
  assumes "reach xf_init (xf_step {}) s"
    and "txXfer_EndOfBurst env s = Inr u \<or> p \<notin> set (xf_pkts s) \<and> txXfer_SendPacket env s p = Inr (st, u)"
    and "ag = xf_burst (drop (length (xf_log s)) (xf_log u))" "ag \<noteq> []" "(xf_step (set ag))\<^sup>*\<^sup>* u t"
  shows "txXfer_TransferDoneCb t (last ag) = Some (t\<lparr>xf_log := xf_log t @ map XfDone (if uAggregMaxPkts t = 0 then [] else ag)\<rparr>)"
proof -
  from txx.reach_invar [OF assms(1)] obtain w where a: "xf_agg s w" "xf_rel s w" by (auto simp: xf_inv_def)
  have "xf_inv u \<and> xf_left s u"
    using assms(2) EndOfBurst_ok [OF a, of env] SendPacket_ok [OF a, of p env] xf_agg_pkts [OF a(1)] by (auto simp: xf_next_def xf_inv_def)
  then have u: "xf_inv u" "xf_ring (xf_blks u) ag" "length ag \<le> max 1 (unat (uAggregMaxPkts u))" "set (xf_pkts u) \<inter> set ag = {}"
    using assms(3) by (auto simp: xf_left_def)
  from xf_links_star [OF assms(5) u(1)] u(4) have t: "\<And>q. q \<in> set ag \<Longrightarrow> pNextAggregEntry (xf_blks t q) = pNextAggregEntry (xf_blks u q)" "uAggregMaxPkts t = uAggregMaxPkts u"
    by (simp_all add: xf_links_def)
  have c: "xf_chain (xf_blks t) ag" "pNextAggregEntry (xf_blks t (last ag)) = Some (hd ag)" "distinct ag"
    using u(2) t(1) assms(4) by (auto simp: xf_ring_def intro: xf_chain_cong)
  show ?thesis
  proof (cases "uAggregMaxPkts t = 0")
    case True
    then show ?thesis by (simp add: txXfer_TransferDoneCb_def)
  next
    case False
    then have "length ag \<le> unat (uAggregMaxPkts t)" using u(3) t(2) by (simp add: max_def unat_gt_0 Suc_le_eq word_gt_0 split: if_splits)
    then show ?thesis using c False assms(4) xf_done_loop_ring [of t ag "unat (uAggregMaxPkts t)"] by (simp add: txXfer_TransferDoneCb_def)
  qed
qed

definition xw_sent :: TTxXferObj where
  "xw_sent = (case txXfer_EndOfBurst xw_env xw of Inr t \<Rightarrow> t | Inl _ \<Rightarrow> xw)"

lemma xw_sent_pkts: "xf_pkts xw_sent = []" by code_simp
lemma xw_sent_burst: "xf_burst (drop (length (xf_log xw)) (xf_log xw_sent)) = [3, 7]" by code_simp
lemma xw_sent_limit: "uAggregMaxPkts (xw_give 5 xw_sent) = 4" by code_simp

theorem txXfer_TransferDoneCb_reports_burst_witness:
  "txXfer_TransferDoneCb (xw_give 5 xw_sent) 7 = Some ((xw_give 5 xw_sent)\<lparr>xf_log := xf_log (xw_give 5 xw_sent) @ [XfDone 3, XfDone 7]\<rparr>)"
proof -
  from txx.reach_invar [OF xw_reach] have "xf_agg xw [3, 7]" "xf_rel xw [3, 7]" using xw_pkts(1) by (auto simp: xf_inv_def xf_agg_pkts)
  from EndOfBurst_ok [OF this, of xw_env] obtain u where "txXfer_EndOfBurst xw_env xw = Inr u" by blast
  then have u: "txXfer_EndOfBurst xw_env xw = Inr xw_sent \<or> 0 \<notin> set (xf_pkts xw) \<and> txXfer_SendPacket xw_env xw 0 = Inr (TXN_STATUS_PENDING, xw_sent)"
    by (simp add: xw_sent_def)
  note p = xw_sent_pkts xw_sent_burst xw_sent_limit
  from p(1) have r: "(xf_step (set [3, 7]))\<^sup>*\<^sup>* xw_sent (xw_give 5 xw_sent)" using xw_give_cases [of 5 xw_sent "set [3, 7]"] by (auto intro: r_into_rtranclp)
  from txXfer_TransferDoneCb_reports_burst [OF xw_reach u p(2) [symmetric] _ r] show ?thesis by (simp add: p(3))
qed

text \<open>
  \<open>osRgstry.c\<close> lets the limit be as large as \<open>TWD_TX_AGGREG_PKTS_LIMIT_MAX\<close> = 32, but the array of statistics has 16 entries: ending a burst of 16 packets
  writes behind it.
\<close>

lemma txXfer_EndOfBurst_writes_behind_array:
  "map_sum id xf_log (txXfer_EndOfBurst xw_env (fold xw_give [1..<17] ((xw_start 32)\<lparr>uAggregMaxLen := 32000\<rparr>))) = Inl XfDbgIndex"
  by code_simp

text \<open>With the limit 0, which is \<open>TWD_TX_AGGREG_PKTS_LIMIT_DEF\<close>, packets are sent one at a time, but the completion calls nothing.\<close>

lemma txXfer_TransferDoneCb_without_aggregation: "uAggregMaxPkts s = 0 \<Longrightarrow> txXfer_TransferDoneCb s p = Some s"
  by (simp add: txXfer_TransferDoneCb_def)

text \<open>The status of a burst is that of its last packet: an error of an earlier one is lost, and the packets are counted.\<close>

lemma txXfer_error_lost:
  "map_sum id (\<lambda>t. drop 3 (xf_log t)) (txXfer_EndOfBurst (\<lambda>s p. if p = 3 then TXN_STATUS_ERROR else TXN_STATUS_COMPLETE) xw) =
     Inr [XfSent 3 TXN_AGGREGATE_ON False 1000, XfSent 7 TXN_AGGREGATE_OFF True 1000, XfCntr 2, XfDone 3, XfDone 7]"
  by code_simp

end
