(* ===== verification/Wlan_TxResult.thy ===== *)
theory Wlan_TxResult
  imports Wlan_FwStatus
begin

text \<open>
  \<open>TWD/FW_Transfer/txResult.c\<close>: the results of sent packets. The firmware writes them into a cyclic table of sixteen entries and counts them; on an
  interrupt the module reads the table, tells the firmware how many results it has seen, and calls the upper layer for each new one. The second half of the
  theory puts the module beside the firmware.

  The log records the transactions with their addresses, the results passed to the upper layer and the restarts. Parameters are the answer of the bus to the read, the data that
  it reads, and what the upper layer's callback does: a result may lead to a recovery that sets the hardware information again.
\<close>

section \<open>Data\<close>

definition TRQ_DEPTH :: nat where "TRQ_DEPTH = 16"
definition TX_RESULT_QUEUE_DEPTH_MASK :: u32 where "TX_RESULT_QUEUE_DEPTH_MASK = of_nat TRQ_DEPTH - 1"

record TxResultDescriptor_t =
  tr_descID :: u8
  tr_status :: u8
  mediumUsage :: u16
  fwHandlingTime :: u32
  mediumDelay :: u32
  lsbSecuritySequenceNumber :: u8
  ackFailures :: u8
  tr_rate :: u8
  tr_spare :: u8

record TxResultControl_t =
  TxResultFwCounter :: u32
  TxResultHostCounter :: u32

record TxResultInterface_t =
  TxResultControl :: TxResultControl_t
  TxResultQueue :: "TxResultDescriptor_t list"

datatype ETxResultState = TX_RESULT_STATE_IDLE | TX_RESULT_STATE_READING

record THostCounterWriteTxn =
  hc_params :: u32
  hc_hwAddr :: u32
  hc_uCounter :: u32

record TResultsInfoReadTxn =
  ri_params :: u32
  ri_hwAddr :: u32
  tTxResultInfo :: TxResultInterface_t

datatype tr_ev =
    TrRead u32
  | TrHostCntr u32 u32
  | TrResult TxResultDescriptor_t
  | TrRestart

record TTxResultObj =
  uTxResultInfoAddr :: u32
  uTxResultHostCounterAddr :: u32
  uHostResultsCounter :: u32
  tr_eState :: ETxResultState
  fSendPacketCompleteCb :: handle
  hSendPacketCompleteHndl :: handle
  tHostCounterWriteTxn :: THostCounterWriteTxn
  tResultsInfoReadTxn :: TResultsInfoReadTxn
  uInterruptsCounter :: u32
  tr_log :: "tr_ev list"

text \<open>The answer of the bus, the data it reads, and the hardware address that a recovery started by the callback sets.\<close>

record tr_env =
  tr_rsp :: ti_status
  tr_dev :: TxResultInterface_t
  tr_cb :: "TTxResultObj \<Rightarrow> TxResultDescriptor_t \<Rightarrow> u32 option"

text \<open>The code does not check that the upper layer has registered its callback.\<close>

datatype tr_fault = TrNullCb

definition tr_emit :: "tr_ev \<Rightarrow> TTxResultObj \<Rightarrow> TTxResultObj" where
  "tr_emit e s = s\<lparr>tr_log := tr_log s @ [e]\<rparr>"

section \<open>Construction and configuration\<close>

definition tr_zero_desc :: TxResultDescriptor_t where
  "tr_zero_desc = \<lparr>tr_descID = 0, tr_status = 0, mediumUsage = 0, fwHandlingTime = 0, mediumDelay = 0, lsbSecuritySequenceNumber = 0, ackFailures = 0, tr_rate = 0, tr_spare = 0\<rparr>"

definition txResult_Create :: "handle \<Rightarrow> TTxResultObj option" where
  "txResult_Create mem =
     (if mem = NULL then None
      else Some \<lparr>uTxResultInfoAddr = 0, uTxResultHostCounterAddr = 0, uHostResultsCounter = 0, tr_eState = TX_RESULT_STATE_IDLE, fSendPacketCompleteCb = NULL,
        hSendPacketCompleteHndl = NULL, tHostCounterWriteTxn = \<lparr>hc_params = 0, hc_hwAddr = 0, hc_uCounter = 0\<rparr>,
        tResultsInfoReadTxn = \<lparr>ri_params = 0, ri_hwAddr = 0,
          tTxResultInfo = \<lparr>TxResultControl = \<lparr>TxResultFwCounter = 0, TxResultHostCounter = 0\<rparr>, TxResultQueue = replicate TRQ_DEPTH tr_zero_desc\<rparr>\<rparr>,
        uInterruptsCounter = 0, tr_log = []\<rparr>)"

text \<open>Whether the object is freed.\<close>

definition txResult_Destroy :: "TTxResultObj option \<Rightarrow> ti_status \<times> bool" where
  "txResult_Destroy s = (TI_OK, s \<noteq> None)"

definition txResult_Restart :: "TTxResultObj \<Rightarrow> TTxResultObj" where
  "txResult_Restart s = tr_emit TrRestart (s\<lparr>uHostResultsCounter := 0, tr_eState := TX_RESULT_STATE_IDLE\<rparr>)"

definition txResult_Init :: "TTxResultObj \<Rightarrow> ti_status \<times> TTxResultObj" where
  "txResult_Init s =
     (let w = tHostCounterWriteTxn s; r = tResultsInfoReadTxn s;
          s = s\<lparr>tHostCounterWriteTxn := w\<lparr>hc_params := TXN_PARAM_SET (hc_params w) TXN_LOW_PRIORITY TXN_FUNC_ID_WLAN TXN_DIRECTION_WRITE TXN_INC_ADDR, hc_hwAddr := 0\<rparr>\<rparr>;
          s = s\<lparr>tResultsInfoReadTxn := r\<lparr>ri_params := TXN_PARAM_SET (ri_params r) TXN_LOW_PRIORITY TXN_FUNC_ID_WLAN TXN_DIRECTION_READ TXN_INC_ADDR, ri_hwAddr := 0\<rparr>\<rparr>
      in (TI_OK, txResult_Restart s))"

text \<open>\<open>TxResultHostCounter\<close> is the second word of \<open>TxResultControl_t\<close>.\<close>

definition txResult_setHwInfo :: "TTxResultObj \<Rightarrow> u32 \<Rightarrow> TTxResultObj" where
  "txResult_setHwInfo s fwTxResultInterface =
     (let s = s\<lparr>uTxResultInfoAddr := fwTxResultInterface\<rparr>;
          s = s\<lparr>uTxResultHostCounterAddr := uTxResultInfoAddr s + 4\<rparr>
      in txResult_Restart s)"

text \<open>\<open>is_complete\<close> says whether the identifier is \<open>TWD_INT_SEND_PACKET_COMPLETE\<close>, the only one the module knows.\<close>

definition txResult_RegisterCb :: "TTxResultObj \<Rightarrow> bool \<Rightarrow> handle \<Rightarrow> handle \<Rightarrow> TTxResultObj" where
  "txResult_RegisterCb s is_complete f h = (if is_complete then s\<lparr>fSendPacketCompleteCb := f, hSendPacketCompleteHndl := h\<rparr> else s)"

definition txResult_ClearInfo :: "TTxResultObj \<Rightarrow> TTxResultObj" where
  "txResult_ClearInfo s = s\<lparr>uInterruptsCounter := 0\<rparr>"

section \<open>Results\<close>

text \<open>One new result, and the loop over them.\<close>

definition tr_result :: "tr_env \<Rightarrow> TTxResultObj \<Rightarrow> tr_fault + TTxResultObj" where
  "tr_result env s =
     (let i = unat (uHostResultsCounter s AND TX_RESULT_QUEUE_DEPTH_MASK);
          d = TxResultQueue (tTxResultInfo (tResultsInfoReadTxn s)) ! i;
          s = s\<lparr>uHostResultsCounter := uHostResultsCounter s + 1\<rparr>
      in if fSendPacketCompleteCb s = NULL then Inl TrNullCb
         else
           let s = tr_emit (TrResult d) s in
           Inr (case tr_cb env s d of None \<Rightarrow> s | Some a \<Rightarrow> txResult_setHwInfo s a))"

fun tr_results :: "tr_env \<Rightarrow> nat \<Rightarrow> TTxResultObj \<Rightarrow> tr_fault + TTxResultObj" where
  "tr_results env 0 s = Inr s"
| "tr_results env (Suc k) s = (case tr_result env s of Inl e \<Rightarrow> Inl e | Inr s \<Rightarrow> tr_results env k s)"

definition txResult_HandleNewResults :: "tr_env \<Rightarrow> TTxResultObj \<Rightarrow> tr_fault + TTxResultObj" where
  "txResult_HandleNewResults env s =
     (let uFwResultsCounter = TxResultFwCounter (TxResultControl (tTxResultInfo (tResultsInfoReadTxn s)));
          uNumNewResults = uFwResultsCounter - uHostResultsCounter s
      in if uNumNewResults = 0 then Inr s
         else
           let s = s\<lparr>tHostCounterWriteTxn := (tHostCounterWriteTxn s)\<lparr>hc_uCounter := uFwResultsCounter, hc_hwAddr := uTxResultHostCounterAddr s\<rparr>\<rparr>;
               s = tr_emit (TrHostCntr (hc_hwAddr (tHostCounterWriteTxn s)) (hc_uCounter (tHostCounterWriteTxn s))) s
           in tr_results env (unat uNumNewResults) s)"

text \<open>The data of a completed read are in the module's buffer.\<close>

definition tr_land :: "TxResultInterface_t \<Rightarrow> TTxResultObj \<Rightarrow> TTxResultObj" where
  "tr_land d s = s\<lparr>tResultsInfoReadTxn := (tResultsInfoReadTxn s)\<lparr>tTxResultInfo := d\<rparr>\<rparr>"

definition tr_transact :: "tr_env \<Rightarrow> TTxResultObj \<Rightarrow> ti_status \<times> TTxResultObj" where
  "tr_transact env s =
     (let s = tr_emit (TrRead (ri_hwAddr (tResultsInfoReadTxn s))) s
      in (tr_rsp env, if tr_rsp env = TXN_STATUS_COMPLETE then tr_land (tr_dev env) s else s))"

text \<open>The branch of the state \<open>TX_RESULT_STATE_READING\<close> leaves the loop of the state machine.\<close>

definition tr_reading :: "tr_env \<Rightarrow> TTxResultObj \<Rightarrow> tr_fault + TTxResultObj" where
  "tr_reading env s = map_sum id (\<lambda>s. s\<lparr>tr_eState := TX_RESULT_STATE_IDLE\<rparr>) (txResult_HandleNewResults env s)"

text \<open>The loop goes on in the state \<open>TX_RESULT_STATE_READING\<close> when the read has completed in this context.\<close>

definition txResult_StateMachine :: "tr_env \<Rightarrow> TTxResultObj \<Rightarrow> tr_fault + TTxResultObj" where
  "txResult_StateMachine env s =
     (case tr_eState s of
        TX_RESULT_STATE_IDLE \<Rightarrow>
          let s = s\<lparr>tResultsInfoReadTxn := (tResultsInfoReadTxn s)\<lparr>ri_hwAddr := uTxResultInfoAddr s\<rparr>\<rparr>;
              (eTwifStatus, s) = tr_transact env s;
              s = s\<lparr>tr_eState := TX_RESULT_STATE_READING\<rparr>
          in if eTwifStatus = TXN_STATUS_COMPLETE then tr_reading env s else Inr s
      | TX_RESULT_STATE_READING \<Rightarrow> tr_reading env s)"

definition txResult_TxCmpltIntrCb :: "tr_env \<Rightarrow> TTxResultObj \<Rightarrow> FwStatus_t \<Rightarrow> tr_fault + ti_status \<times> TTxResultObj" where
  "txResult_TxCmpltIntrCb env s pFwStatus =
     (let s = s\<lparr>uInterruptsCounter := uInterruptsCounter s + 1\<rparr> in
      if tr_eState s \<noteq> TX_RESULT_STATE_IDLE then Inr (TXN_STATUS_COMPLETE, s)
      else if fwTxResultsCntr (counters pFwStatus) = ucast (uHostResultsCounter s) then Inr (TXN_STATUS_COMPLETE, s)
      else map_sum id (\<lambda>s. (TXN_STATUS_COMPLETE, s)) (txResult_StateMachine env s))"

section \<open>The module beside the firmware\<close>

text \<open>The results passed on and the last counter written since the last restart.\<close>

definition tr_since :: "tr_ev list \<Rightarrow> TxResultDescriptor_t list \<times> u32" where
  "tr_since es = foldl (\<lambda>(rs, c) e. case e of TrRead _ \<Rightarrow> (rs, c) | TrHostCntr _ n \<Rightarrow> (rs, n) | TrResult r \<Rightarrow> (rs @ [r], c) | TrRestart \<Rightarrow> ([], 0)) ([], 0) es"

abbreviation tr_passed :: "TTxResultObj \<Rightarrow> TxResultDescriptor_t list" where "tr_passed s \<equiv> fst (tr_since (tr_log s))"
abbreviation tr_acked :: "TTxResultObj \<Rightarrow> u32" where "tr_acked s \<equiv> snd (tr_since (tr_log s))"

lemma tr_since_simps [simp]:
  "tr_since [] = ([], 0)" "tr_since (es @ [TrRead a]) = tr_since es" "tr_since (es @ [TrHostCntr a n]) = (fst (tr_since es), n)"
  "tr_since (es @ [TrResult r]) = (fst (tr_since es) @ [r], snd (tr_since es))" "tr_since (es @ [TrRestart]) = ([], 0)"
  by (simp_all add: tr_since_def split: prod.split)

text \<open>The module, all results of the firmware since its initialisation, and whether a read is on the bus.\<close>

record tr_sys =
  ts_host :: TTxResultObj
  ts_hist :: "TxResultDescriptor_t list"
  ts_flight :: bool

text \<open>The table shows the last sixteen results; its other entries are arbitrary.\<close>

definition tr_shows :: "TxResultInterface_t \<Rightarrow> TxResultDescriptor_t list \<Rightarrow> bool" where
  "tr_shows d hist \<longleftrightarrow> TxResultFwCounter (TxResultControl d) = of_nat (length hist) \<and>
     (\<forall>k < length hist. length hist \<le> k + TRQ_DEPTH \<longrightarrow> TxResultQueue d ! (k mod TRQ_DEPTH) = hist ! k)"

text \<open>The callback starts no recovery.\<close>

definition tr_quiet :: "tr_env \<Rightarrow> bool" where
  "tr_quiet env \<longleftrightarrow> (\<forall>s d. tr_cb env s d = None)"

text \<open>
  The firmware does not overwrite a result that the host has not acknowledged. The status of an interrupt is arbitrary: it may be older than the table. A recovery
  initialises the firmware, and its read transactions never complete.
\<close>

inductive tr_step :: "bool \<Rightarrow> tr_sys \<Rightarrow> tr_sys \<Rightarrow> bool" for rec where
  fw: "of_nat (length (ts_hist x)) - tr_acked (ts_host x) < of_nat TRQ_DEPTH \<Longrightarrow> tr_step rec x (x\<lparr>ts_hist := ts_hist x @ [r]\<rparr>)"
| intr: "tr_quiet env \<Longrightarrow> tr_shows (tr_dev env) (ts_hist x) \<Longrightarrow> txResult_TxCmpltIntrCb env (ts_host x) st = Inr (e, t) \<Longrightarrow>
    tr_step rec x (x\<lparr>ts_host := t, ts_flight := if tr_eState (ts_host x) = TX_RESULT_STATE_IDLE then tr_eState t = TX_RESULT_STATE_READING \<and> tr_rsp env = TXN_STATUS_PENDING else ts_flight x\<rparr>)"
| bus: "ts_flight x \<Longrightarrow> tr_quiet env \<Longrightarrow> tr_shows d (ts_hist x) \<Longrightarrow> txResult_StateMachine env (tr_land d (ts_host x)) = Inr t \<Longrightarrow>
    tr_step rec x (x\<lparr>ts_host := t, ts_flight := False\<rparr>)"
| clear: "tr_step rec x (x\<lparr>ts_host := txResult_ClearInfo (ts_host x)\<rparr>)"
| recover: "rec \<Longrightarrow> tr_step rec x (x\<lparr>ts_host := txResult_setHwInfo (ts_host x) a, ts_hist := [], ts_flight := False\<rparr>)"

definition tr_init :: "tr_sys \<Rightarrow> bool" where
  "tr_init x \<longleftrightarrow> (\<exists>mem s f h a. txResult_Create mem = Some s \<and> f \<noteq> NULL \<and>
     x = \<lparr>ts_host = txResult_setHwInfo (txResult_RegisterCb (snd (txResult_Init s)) True f h) a, ts_hist = [], ts_flight = False\<rparr>)"

definition tr_inv :: "tr_sys \<Rightarrow> bool" where
  "tr_inv x \<longleftrightarrow> (\<exists>rest. ts_hist x = tr_passed (ts_host x) @ rest \<and> length rest \<le> 16) \<and> uHostResultsCounter (ts_host x) = of_nat (length (tr_passed (ts_host x))) \<and>
     tr_acked (ts_host x) = uHostResultsCounter (ts_host x) \<and> (ts_flight x \<longrightarrow> tr_eState (ts_host x) = TX_RESULT_STATE_READING) \<and> fSendPacketCompleteCb (ts_host x) \<noteq> NULL"

lemma tr_index: "unat (of_nat n AND TX_RESULT_QUEUE_DEPTH_MASK :: u32) = n mod TRQ_DEPTH"
proof -
  have "of_nat n AND TX_RESULT_QUEUE_DEPTH_MASK = (take_bit 4 (of_nat n) :: u32)"
    by (simp add: TX_RESULT_QUEUE_DEPTH_MASK_def TRQ_DEPTH_def take_bit_eq_mask mask_eq_exp_minus_1)
  then show ?thesis by (simp add: unat_mod_distrib unsigned_of_nat TRQ_DEPTH_def take_bit_eq_mod mod_mod_cancel)
qed

lemma tr_results_ok:
  assumes "tr_quiet env" "fSendPacketCompleteCb s \<noteq> NULL" "uHostResultsCounter s = of_nat (length (tr_passed s))" "length rest \<le> 16"
    and "tr_shows (tTxResultInfo (tResultsInfoReadTxn s)) (tr_passed s @ rest)"
  shows "\<exists>t. tr_results env (length rest) s = Inr t \<and> tr_passed t = tr_passed s @ rest \<and> tr_acked t = tr_acked s \<and> uHostResultsCounter t = of_nat (length (tr_passed t)) \<and>
    fSendPacketCompleteCb t \<noteq> NULL"
  using assms
proof (induction rest arbitrary: s)
  case (Cons r rest)
  let ?n = "length (tr_passed s)"
  let ?t = "tr_emit (TrResult r) (s\<lparr>uHostResultsCounter := uHostResultsCounter s + 1\<rparr>)"
  have "TxResultQueue (tTxResultInfo (tResultsInfoReadTxn s)) ! (?n mod TRQ_DEPTH) = r"
    using Cons.prems(4,5) by (simp add: tr_shows_def TRQ_DEPTH_def)
  then have t: "tr_result env s = Inr ?t"
    using Cons.prems(1-3) by (simp add: tr_result_def Let_def tr_index tr_quiet_def)
  have p: "tr_passed ?t = tr_passed s @ [r]" "tr_acked ?t = tr_acked s" "tr_passed ?t @ rest = tr_passed s @ r # rest"
    "tResultsInfoReadTxn ?t = tResultsInfoReadTxn s" "fSendPacketCompleteCb ?t = fSendPacketCompleteCb s" "uHostResultsCounter ?t = of_nat (length (tr_passed ?t))"
    using Cons.prems(3) by (simp_all add: tr_emit_def)
  from Cons.IH [of ?t] Cons.prems p obtain u where "tr_results env (length rest) ?t = Inr u" "tr_passed u = tr_passed s @ r # rest" "tr_acked u = tr_acked s"
    "uHostResultsCounter u = of_nat (length (tr_passed u))" "fSendPacketCompleteCb u \<noteq> NULL" by auto
  then show ?case using t by simp
qed simp

text \<open>Handling a table that shows the firmware's results passes all of them on.\<close>

definition tr_now :: "TTxResultObj \<Rightarrow> TxResultDescriptor_t list \<Rightarrow> bool" where
  "tr_now t hist \<longleftrightarrow> tr_passed t = hist \<and> uHostResultsCounter t = of_nat (length hist) \<and> tr_acked t = of_nat (length hist) \<and> tr_eState t = TX_RESULT_STATE_IDLE \<and> fSendPacketCompleteCb t \<noteq> NULL"

lemma tr_reading_ok:
  assumes q: "tr_quiet env" and cb: "fSendPacketCompleteCb s \<noteq> NULL" and n: "uHostResultsCounter s = of_nat (length (tr_passed s))" "tr_acked s = uHostResultsCounter s"
    and h: "hist = tr_passed s @ rest" "length rest \<le> 16" and d: "tr_shows (tTxResultInfo (tResultsInfoReadTxn s)) hist"
  shows "\<exists>t. tr_reading env s = Inr t \<and> tr_now t hist"
proof -
  let ?c = "TxResultFwCounter (TxResultControl (tTxResultInfo (tResultsInfoReadTxn s)))"
  have c: "?c = of_nat (length hist)" using d by (simp add: tr_shows_def)
  have "?c - uHostResultsCounter s = of_nat (length rest)" by (simp add: c n h(1))
  moreover have "unat (of_nat (length rest) :: u32) = length rest" using h(2) by (simp add: unsigned_of_nat take_bit_eq_mod)
  ultimately have new: "unat (?c - uHostResultsCounter s) = length rest" by simp
  show ?thesis
  proof (cases "rest = []")
    case True
    then have "?c - uHostResultsCounter s = 0" using new by (simp add: unat_eq_0)
    then have "tr_reading env s = Inr (s\<lparr>tr_eState := TX_RESULT_STATE_IDLE\<rparr>)" by (simp add: tr_reading_def txResult_HandleNewResults_def)
    then show ?thesis using True h(1) n cb by (simp add: tr_now_def)
  next
    case False
    then have z: "?c - uHostResultsCounter s \<noteq> 0" using new by auto
    define s1 where "s1 = s\<lparr>tHostCounterWriteTxn := (tHostCounterWriteTxn s)\<lparr>hc_uCounter := ?c, hc_hwAddr := uTxResultHostCounterAddr s\<rparr>\<rparr>"
    define s2 where "s2 = tr_emit (TrHostCntr (hc_hwAddr (tHostCounterWriteTxn s1)) (hc_uCounter (tHostCounterWriteTxn s1))) s1"
    have f: "tr_passed s2 = tr_passed s" "tr_acked s2 = ?c" "tTxResultInfo (tResultsInfoReadTxn s2) = tTxResultInfo (tResultsInfoReadTxn s)" "fSendPacketCompleteCb s2 = fSendPacketCompleteCb s"
      "uHostResultsCounter s2 = uHostResultsCounter s" by (simp_all add: s2_def s1_def tr_emit_def)
    from tr_results_ok [OF q, of s2 rest] obtain t where
      t: "tr_results env (length rest) s2 = Inr t" "tr_passed t = hist" "tr_acked t = ?c" "uHostResultsCounter t = of_nat (length (tr_passed t))" "fSendPacketCompleteCb t \<noteq> NULL"
      using cb n h d by (auto simp: f)
    have "tr_reading env s = Inr (t\<lparr>tr_eState := TX_RESULT_STATE_IDLE\<rparr>)"
      using t(1) z new by (simp add: tr_reading_def txResult_HandleNewResults_def Let_def s1_def [symmetric] s2_def [symmetric])
    then show ?thesis using t c by (simp add: tr_now_def)
  qed
qed

lemma tr_invE:
  assumes "tr_inv x"
  obtains rest where "ts_hist x = tr_passed (ts_host x) @ rest" "length rest \<le> 16"
  using assms by (auto simp: tr_inv_def)

lemma tr_inv_now: "tr_now t (ts_hist x) \<Longrightarrow> tr_inv (x\<lparr>ts_host := t, ts_flight := False\<rparr>)"
  by (simp add: tr_inv_def tr_now_def)

lemma tr_bus_ok:
  assumes i: "tr_inv x" and f: "ts_flight x" and q: "tr_quiet env" "tr_shows d (ts_hist x)"
  shows "\<exists>t. txResult_StateMachine env (tr_land d (ts_host x)) = Inr t \<and> tr_now t (ts_hist x)"
proof -
  let ?s = "tr_land d (ts_host x)"
  obtain rest where h: "ts_hist x = tr_passed (ts_host x) @ rest" "length rest \<le> 16" using i by (rule tr_invE)
  have "\<exists>t. tr_reading env ?s = Inr t \<and> tr_now t (ts_hist x)"
    using i q h by (intro tr_reading_ok [of env ?s "ts_hist x" rest]) (simp_all add: tr_inv_def tr_land_def)
  then show ?thesis using i f by (simp add: txResult_StateMachine_def tr_inv_def tr_land_def tr_now_def)
qed

lemma tr_intr_ok:
  assumes i: "tr_inv x" and q: "tr_quiet env" "tr_shows (tr_dev env) (ts_hist x)"
  shows "\<exists>t. txResult_TxCmpltIntrCb env (ts_host x) st = Inr (TXN_STATUS_COMPLETE, t) \<and>
    (if tr_eState (ts_host x) = TX_RESULT_STATE_READING \<or> fwTxResultsCntr (counters st) = ucast (uHostResultsCounter (ts_host x))
     then t = (ts_host x)\<lparr>uInterruptsCounter := uInterruptsCounter (ts_host x) + 1\<rparr>
     else if tr_rsp env = TXN_STATUS_COMPLETE then tr_now t (ts_hist x)
     else tr_eState t = TX_RESULT_STATE_READING \<and> tr_passed t = tr_passed (ts_host x) \<and> tr_acked t = tr_acked (ts_host x) \<and>
       uHostResultsCounter t = uHostResultsCounter (ts_host x) \<and> fSendPacketCompleteCb t = fSendPacketCompleteCb (ts_host x))"
proof -
  let ?s = "(ts_host x)\<lparr>uInterruptsCounter := uInterruptsCounter (ts_host x) + 1\<rparr>"
  define s1 where "s1 = tr_emit (TrRead (uTxResultInfoAddr ?s)) (?s\<lparr>tResultsInfoReadTxn := (tResultsInfoReadTxn ?s)\<lparr>ri_hwAddr := uTxResultInfoAddr ?s\<rparr>\<rparr>)"
  define s2 where "s2 = (if tr_rsp env = TXN_STATUS_COMPLETE then tr_land (tr_dev env) s1 else s1)\<lparr>tr_eState := TX_RESULT_STATE_READING\<rparr>"
  consider "tr_eState (ts_host x) = TX_RESULT_STATE_READING \<or> fwTxResultsCntr (counters st) = ucast (uHostResultsCounter (ts_host x))"
    | "tr_eState (ts_host x) = TX_RESULT_STATE_IDLE" "fwTxResultsCntr (counters st) \<noteq> ucast (uHostResultsCounter (ts_host x))" by (cases "tr_eState (ts_host x)") auto
  then show ?thesis
  proof cases
    case 2
    have sm: "txResult_StateMachine env ?s = (if tr_rsp env = TXN_STATUS_COMPLETE then tr_reading env s2 else Inr s2)"
      using 2(1) by (simp add: txResult_StateMachine_def tr_transact_def Let_def s1_def s2_def)
    have f: "tr_passed s2 = tr_passed (ts_host x)" "tr_acked s2 = tr_acked (ts_host x)" "uHostResultsCounter s2 = uHostResultsCounter (ts_host x)"
      "fSendPacketCompleteCb s2 = fSendPacketCompleteCb (ts_host x)" "tr_eState s2 = TX_RESULT_STATE_READING" by (simp_all add: s1_def s2_def tr_emit_def tr_land_def)
    show ?thesis
    proof (cases "tr_rsp env = TXN_STATUS_COMPLETE")
      case True
      obtain rest where h: "ts_hist x = tr_passed (ts_host x) @ rest" "length rest \<le> 16" using i by (rule tr_invE)
      have "tTxResultInfo (tResultsInfoReadTxn s2) = tr_dev env" using True by (simp add: s2_def tr_land_def)
      then have "\<exists>t. tr_reading env s2 = Inr t \<and> tr_now t (ts_hist x)"
        using i q h by (intro tr_reading_ok [of env s2 "ts_hist x" rest]) (simp_all add: tr_inv_def f)
      then show ?thesis using 2 True sm by (auto simp: txResult_TxCmpltIntrCb_def Let_def)
    qed (use 2 sm f in \<open>auto simp: txResult_TxCmpltIntrCb_def Let_def\<close>)
  qed (auto simp: txResult_TxCmpltIntrCb_def Let_def)
qed

lemma tr_inv_cong:
  "tr_inv x \<Longrightarrow> tr_passed t = tr_passed (ts_host x) \<Longrightarrow> tr_acked t = tr_acked (ts_host x) \<Longrightarrow> uHostResultsCounter t = uHostResultsCounter (ts_host x) \<Longrightarrow>
   fSendPacketCompleteCb t = fSendPacketCompleteCb (ts_host x) \<Longrightarrow> (b \<Longrightarrow> tr_eState t = TX_RESULT_STATE_READING) \<Longrightarrow> tr_inv (x\<lparr>ts_host := t, ts_flight := b\<rparr>)"
  by (simp add: tr_inv_def)

lemma tr_inv_fw:
  assumes i: "tr_inv x" and r: "of_nat (length (ts_hist x)) - tr_acked (ts_host x) < of_nat TRQ_DEPTH"
  shows "tr_inv (x\<lparr>ts_hist := ts_hist x @ [r]\<rparr>)"
proof -
  obtain rest where h: "ts_hist x = tr_passed (ts_host x) @ rest" "length rest \<le> 16" using i by (rule tr_invE)
  have "of_nat (length rest) < (16 :: u32)" using r i by (simp add: tr_inv_def h(1) TRQ_DEPTH_def)
  then have "length rest < 16" using h(2) by (simp add: word_less_nat_alt unsigned_of_nat take_bit_eq_mod)
  then show ?thesis using i h(1) by (simp add: tr_inv_def)
qed

lemma tr_step_inv:
  assumes i: "tr_inv x" and s: "tr_step rec x y"
  shows "tr_inv y"
  using s
proof cases
  case (fw r)
  then show ?thesis using tr_inv_fw [OF i] by simp
next
  case (intr env st e t)
  let ?b = "if tr_eState (ts_host x) = TX_RESULT_STATE_IDLE then tr_eState t = TX_RESULT_STATE_READING \<and> tr_rsp env = TXN_STATUS_PENDING else ts_flight x"
  note o = tr_intr_ok [OF i intr(2,3), of st, unfolded intr(4)]
  show ?thesis
  proof (cases "tr_now t (ts_hist x)")
    case True
    then have "?b = False" using o i by (auto simp: tr_now_def tr_inv_def split: if_splits)
    then show ?thesis using tr_inv_now [OF True] intr(1) by simp
  next
    case False
    have "tr_passed t = tr_passed (ts_host x)" "tr_acked t = tr_acked (ts_host x)" "uHostResultsCounter t = uHostResultsCounter (ts_host x)" "fSendPacketCompleteCb t = fSendPacketCompleteCb (ts_host x)"
      "?b \<Longrightarrow> tr_eState t = TX_RESULT_STATE_READING"
      using o False i by (auto simp: tr_inv_def split: if_splits)
    then show ?thesis unfolding intr(1) by (intro tr_inv_cong [OF i])
  qed
next
  case (bus env d t)
  from tr_bus_ok [OF i bus(2-4)] bus(5) have "tr_now t (ts_hist x)" by auto
  then show ?thesis unfolding bus(1) by (rule tr_inv_now)
next
  case clear
  then show ?thesis using i by (simp add: tr_inv_def txResult_ClearInfo_def)
next
  case (recover a)
  then show ?thesis using i by (simp add: tr_inv_def txResult_setHwInfo_def txResult_Restart_def tr_emit_def Let_def)
qed

lemma tr_init_inv: "tr_init x \<Longrightarrow> tr_inv x"
  by (auto simp: tr_init_def tr_inv_def txResult_setHwInfo_def txResult_Restart_def txResult_Init_def txResult_RegisterCb_def txResult_Create_def tr_since_def tr_emit_def Let_def split: if_splits)

interpretation txr: state_invariant tr_init "tr_step True" tr_inv
  by unfold_locales (auto intro: tr_init_inv tr_step_inv)

lemma tr_cntr_eq:
  assumes "length rest \<le> 16" "(ucast (of_nat (n + length rest) :: u32) :: u8) = ucast (of_nat n :: u32)"
  shows "rest = []"
proof -
  have u: "unat (ucast (of_nat m :: u32) :: u8) = m mod 256" for m by (simp add: unsigned_ucast_eq unsigned_of_nat take_bit_eq_mod mod_mod_cancel)
  have "(n + length rest) mod 256 = n mod 256" using u [of "n + length rest"] u [of n] assms(2) by simp
  then have "length rest mod 256 = 0" by (metis mod_eq_0_iff_dvd mod_eq_dvd_iff_nat diff_add_inverse le_add1)
  then show ?thesis using assms(1) by simp
qed

section \<open>The properties\<close>

text \<open>
  C15: in every run, also across recoveries, the results passed to the upper layer are the firmware's results in their order, each once, up to at most sixteen that are still to come, and the
  counter that the firmware is told is the number of results passed on. An interrupt whose status is up to date and finds the module idle has all results passed on when the bus
  reads at once; otherwise the completion of the read has.
\<close>

theorem txResult_passes_all:
  assumes "reach tr_init (tr_step True) x" "tr_quiet env" "tr_shows (tr_dev env) (ts_hist x)"
  shows "(\<exists>rest. ts_hist x = tr_passed (ts_host x) @ rest \<and> length rest \<le> 16) \<and> tr_acked (ts_host x) = of_nat (length (tr_passed (ts_host x))) \<and>
    (tr_eState (ts_host x) = TX_RESULT_STATE_IDLE \<and> fwTxResultsCntr (counters st) = ucast (of_nat (length (ts_hist x)) :: u32) \<and> tr_rsp env = TXN_STATUS_COMPLETE \<longrightarrow>
      (\<exists>t. txResult_TxCmpltIntrCb env (ts_host x) st = Inr (TXN_STATUS_COMPLETE, t) \<and> tr_passed t = ts_hist x)) \<and>
    (ts_flight x \<longrightarrow> (\<exists>t. txResult_StateMachine env (tr_land (tr_dev env) (ts_host x)) = Inr t \<and> tr_passed t = ts_hist x))"
proof -
  have i: "tr_inv x" by (rule txr.reach_invar [OF assms(1)])
  obtain rest where h: "ts_hist x = tr_passed (ts_host x) @ rest" "length rest \<le> 16" using i by (rule tr_invE)
  have r: "rest = []" if "ucast (of_nat (length (ts_hist x)) :: u32) = (ucast (uHostResultsCounter (ts_host x)) :: u8)"
    using that i h tr_cntr_eq [OF h(2), of "length (tr_passed (ts_host x))"] by (simp add: tr_inv_def)
  have "\<exists>t. txResult_TxCmpltIntrCb env (ts_host x) st = Inr (TXN_STATUS_COMPLETE, t) \<and> tr_passed t = ts_hist x"
    if c: "tr_eState (ts_host x) = TX_RESULT_STATE_IDLE" "fwTxResultsCntr (counters st) = ucast (of_nat (length (ts_hist x)) :: u32)" "tr_rsp env = TXN_STATUS_COMPLETE"
    using tr_intr_ok [OF i assms(2,3), of st] r h(1) by (auto simp: c tr_now_def split: if_splits)
  moreover have "ts_flight x \<longrightarrow> (\<exists>t. txResult_StateMachine env (tr_land (tr_dev env) (ts_host x)) = Inr t \<and> tr_passed t = ts_hist x)"
    using tr_bus_ok [OF i _ assms(2,3)] by (auto simp: tr_now_def)
  ultimately show ?thesis using h i by (auto simp: tr_inv_def)
qed

text \<open>A read that has failed leaves the module waiting for it.\<close>

lemma tr_stuck:
  assumes "(tr_step False)\<^sup>*\<^sup>* x y" "tr_eState (ts_host x) = TX_RESULT_STATE_READING" "\<not> ts_flight x"
  shows "tr_log (ts_host y) = tr_log (ts_host x) \<and> tr_eState (ts_host y) = TX_RESULT_STATE_READING \<and> \<not> ts_flight y"
  using assms
proof (induction rule: rtranclp_induct)
  case (step y z)
  then show ?case by (auto elim!: tr_step.cases simp: txResult_TxCmpltIntrCb_def txResult_ClearInfo_def Let_def)
qed simp

text \<open>
  C16: when the bus fails the read that an interrupt starts, the module passes no further result on, whatever interrupts come and whatever the firmware reports, until a recovery.
\<close>

theorem txResult_bus_error_stops_results:
  assumes "reach tr_init (tr_step True) x" "tr_quiet env" "tr_shows (tr_dev env) (ts_hist x)"
    and "tr_eState (ts_host x) = TX_RESULT_STATE_IDLE" "fwTxResultsCntr (counters st) \<noteq> ucast (uHostResultsCounter (ts_host x))" "tr_rsp env = TXN_STATUS_ERROR"
    and "txResult_TxCmpltIntrCb env (ts_host x) st = Inr (e, t)" "(tr_step False)\<^sup>*\<^sup>* (x\<lparr>ts_host := t\<rparr>) y"
  shows "tr_passed (ts_host y) = tr_passed (ts_host x)"
proof -
  have i: "tr_inv x" by (rule txr.reach_invar [OF assms(1)])
  from tr_intr_ok [OF i assms(2,3), of st] assms(4-7) have t: "tr_eState t = TX_RESULT_STATE_READING" "tr_passed t = tr_passed (ts_host x)" by auto
  have "\<not> ts_flight x" using i assms(4) by (auto simp: tr_inv_def)
  from tr_stuck [OF assms(8)] this t show ?thesis by simp
qed

section \<open>A run\<close>

definition trw_desc :: "u8 \<Rightarrow> TxResultDescriptor_t" where
  "trw_desc i = tr_zero_desc\<lparr>tr_descID := i\<rparr>"
definition trw_env :: "ti_status \<Rightarrow> TxResultDescriptor_t list \<Rightarrow> tr_env" where
  "trw_env st hist = \<lparr>tr_rsp = st, tr_dev = \<lparr>TxResultControl = \<lparr>TxResultFwCounter = of_nat (length hist), TxResultHostCounter = 0\<rparr>, TxResultQueue = hist\<rparr>,
     tr_cb = \<lambda>s d. None\<rparr>"
definition trw_status :: "nat \<Rightarrow> FwStatus_t" where
  "trw_status n = \<lparr>intrStatus = 0, counters = push_bit 24 (of_nat n), rxPktsDesc = [], fwLocalTime = 0\<rparr>"
definition trw_start :: tr_sys where
  "trw_start = \<lparr>ts_host = txResult_setHwInfo (txResult_RegisterCb (snd (txResult_Init (the (txResult_Create 1)))) True 1 1) 0x1000, ts_hist = [], ts_flight = False\<rparr>"
definition trw :: tr_sys where
  "trw = trw_start\<lparr>ts_hist := [trw_desc 5, trw_desc 6]\<rparr>"

lemma trw_start_reach: "reach tr_init (tr_step True) trw_start"
proof (rule reach_init)
  show "tr_init trw_start"
    unfolding tr_init_def trw_start_def
    by (intro exI [of _ 1] exI [of _ "the (txResult_Create 1)"] exI [of _ "0x1000"]) (simp add: txResult_Create_def)
qed

lemma trw_reach: "reach tr_init (tr_step True) trw"
proof -
  have a: "of_nat (length (ts_hist trw_start)) - tr_acked (ts_host trw_start) < of_nat TRQ_DEPTH"
    "of_nat (length (ts_hist (trw_start\<lparr>ts_hist := [trw_desc 5]\<rparr>))) - tr_acked (ts_host (trw_start\<lparr>ts_hist := [trw_desc 5]\<rparr>)) < of_nat TRQ_DEPTH" by code_simp+
  have b: "trw_start\<lparr>ts_hist := ts_hist trw_start @ [trw_desc 5]\<rparr> = trw_start\<lparr>ts_hist := [trw_desc 5]\<rparr>" by (simp add: trw_start_def)
  from reach_step [OF trw_start_reach tr_step.fw [OF a(1), of True "trw_desc 5"]] have "reach tr_init (tr_step True) (trw_start\<lparr>ts_hist := [trw_desc 5]\<rparr>)" unfolding b .
  from reach_step [OF this tr_step.fw [OF a(2), of True "trw_desc 6"]] show ?thesis by (simp add: trw_def)
qed

lemma trw_shows: "tr_shows (tr_dev (trw_env st (ts_hist trw))) (ts_hist trw)" "tr_quiet (trw_env st h)"
  by (auto simp: tr_shows_def trw_env_def TRQ_DEPTH_def tr_quiet_def trw_def less_Suc_eq)

lemma trw_state: "tr_eState (ts_host trw) = TX_RESULT_STATE_IDLE" "tr_passed (ts_host trw) = []" "ts_hist trw = [trw_desc 5, trw_desc 6]"
  "fwTxResultsCntr (counters (trw_status 2)) = 2" "(ucast (uHostResultsCounter (ts_host trw)) :: u8) = 0" by code_simp+

theorem txResult_passes_all_witness:
  "\<exists>t. txResult_TxCmpltIntrCb (trw_env TXN_STATUS_COMPLETE (ts_hist trw)) (ts_host trw) (trw_status 2) = Inr (TXN_STATUS_COMPLETE, t) \<and> tr_passed t = [trw_desc 5, trw_desc 6]"
proof -
  have "tr_rsp (trw_env TXN_STATUS_COMPLETE (ts_hist trw)) = TXN_STATUS_COMPLETE" "fwTxResultsCntr (counters (trw_status 2)) = ucast (of_nat (length (ts_hist trw)) :: u32)" by code_simp+
  with txResult_passes_all [OF trw_reach trw_shows(2) trw_shows(1), of "trw_status 2" TXN_STATUS_COMPLETE] trw_state show ?thesis by auto
qed

theorem txResult_bus_error_stops_results_witness:
  "\<exists>t. txResult_TxCmpltIntrCb (trw_env TXN_STATUS_ERROR (ts_hist trw)) (ts_host trw) (trw_status 2) = Inr (TXN_STATUS_COMPLETE, t) \<and>
     (\<forall>y. (tr_step False)\<^sup>*\<^sup>* (trw\<lparr>ts_host := t\<rparr>) y \<longrightarrow> tr_passed (ts_host y) = [])"
proof -
  have e: "tr_rsp (trw_env TXN_STATUS_ERROR (ts_hist trw)) = TXN_STATUS_ERROR" "fwTxResultsCntr (counters (trw_status 2)) \<noteq> ucast (uHostResultsCounter (ts_host trw))" by code_simp+
  obtain t where t: "txResult_TxCmpltIntrCb (trw_env TXN_STATUS_ERROR (ts_hist trw)) (ts_host trw) (trw_status 2) = Inr (TXN_STATUS_COMPLETE, t)"
    using tr_intr_ok [OF txr.reach_invar [OF trw_reach] trw_shows(2) trw_shows(1)] by blast
  from txResult_bus_error_stops_results [OF trw_reach trw_shows(2) trw_shows(1) trw_state(1) e(2,1) t] t trw_state(2) show ?thesis by auto
qed

end
