(* ===== verification/Wlan_FwEvent.thy ===== *)
theory Wlan_FwEvent
  imports Wlan_FwStatus
begin

text \<open>
  \<open>TWD/FW_Transfer/FwEvent.c\<close>: the dispatch of the firmware's interrupts. In the driver task the module wakes the device, reads the interrupt register together
  with the firmware's status, calls the handlers of the interrupts that are set and unmasked, and lets the device sleep again. An interrupt that arrives meanwhile is
  remembered and leads to another read.

  The log records the calls of other modules. It also has an event for each interrupt and one for the vector of interrupts that the handlers are called for. Parameters are the bus, the
  clock, and the handlers: their status and the calls that they make into this module. \<open>HOST_INTR_MODE_EDGE\<close> and \<open>HOST_INTR_MODE_LEVEL\<close> are not
  defined in the build, so the interrupt is not acknowledged here.
\<close>

section \<open>Data\<close>

definition ACX_INTR_WATCHDOG :: u32 where "ACX_INTR_WATCHDOG = 0x1"
definition ACX_INTR_INIT_COMPLETE :: u32 where "ACX_INTR_INIT_COMPLETE = 0x2"
definition ACX_INTR_EVENT_A :: u32 where "ACX_INTR_EVENT_A = 0x4"
definition ACX_INTR_EVENT_B :: u32 where "ACX_INTR_EVENT_B = 0x8"
definition ACX_INTR_CMD_COMPLETE :: u32 where "ACX_INTR_CMD_COMPLETE = 0x10"
definition ACX_INTR_HW_AVAILABLE :: u32 where "ACX_INTR_HW_AVAILABLE = 0x20"
definition ACX_INTR_DATA :: u32 where "ACX_INTR_DATA = 0x40"

definition FW_STATUS_ADDR :: u32 where "FW_STATUS_ADDR = 0x14FC0 + 0xA000"

definition ALL_EVENTS_VECTOR :: u32 where
  "ALL_EVENTS_VECTOR = ACX_INTR_WATCHDOG OR ACX_INTR_INIT_COMPLETE OR ACX_INTR_EVENT_A OR ACX_INTR_EVENT_B OR ACX_INTR_CMD_COMPLETE OR ACX_INTR_HW_AVAILABLE OR ACX_INTR_DATA"

datatype EFwEventState = FWEVENT_STATE_IDLE | FWEVENT_STATE_WAIT_INTR_INFO | FWEVENT_STATE_WAIT_HANDLE_COMPLT

record TRegisterTxn =
  rt_params :: u32
  rt_hwAddr :: u32
  rt_uData :: u32

record TFwStatusTxn =
  fs_params :: u32
  fs_hwAddr :: u32
  tFwStatus :: FwStatus_t

text \<open>The handlers, in the order in which the code names them.\<close>

datatype fe_hndlr = FeWdExpire | FeCmdComplete | FeEventA | FeEventB | FeRxEvent | FeFreeResources | FeTxResult

datatype fe_ev =
    FeIntr
  | FeAwake
  | FeHwAvailable
  | FeRead
  | FeInfo u32
  | FeCall fe_hndlr
  | FeSleep
  | FeMask u32
  | FeStopped
  | FeSchedule u32
  | FeEnable u32
  | FeDisable u32

record TfwEvent =
  eSmState :: EFwEventState
  uEventMask :: u32
  uEventVector :: u32
  tMaskTxn :: TRegisterTxn
  tFwStatusTxn :: TFwStatusTxn
  uFwTimeOffset :: u32
  fe_uContextId :: u32
  bIntrPending :: bool
  uNumPendHndlrs :: u32
  fe_log :: "fe_ev list"

text \<open>The calls that a handler makes into this module.\<close>

datatype fe_req = FeReqStop | FeReqInitMask | FeReqMaskAll | FeReqEnableAll

record fe_env =
  fe_rsp :: "TfwEvent \<Rightarrow> ti_status"
  fe_status :: "TfwEvent \<Rightarrow> FwStatus_t"
  fe_time :: "TfwEvent \<Rightarrow> u32"
  fe_hndl :: "TfwEvent \<Rightarrow> fe_hndlr \<Rightarrow> ti_status \<times> fe_req list"

definition fe_emit :: "fe_ev \<Rightarrow> TfwEvent \<Rightarrow> TfwEvent" where
  "fe_emit e s = s\<lparr>fe_log := fe_log s @ [e]\<rparr>"

section \<open>Construction and configuration\<close>

definition fwEvent_Create :: "handle \<Rightarrow> TfwEvent option" where
  "fwEvent_Create mem =
     (if mem = NULL then None
      else Some \<lparr>eSmState = FWEVENT_STATE_IDLE, uEventMask = 0, uEventVector = 0, tMaskTxn = \<lparr>rt_params = 0, rt_hwAddr = 0, rt_uData = 0\<rparr>,
        tFwStatusTxn = \<lparr>fs_params = 0, fs_hwAddr = 0, tFwStatus = \<lparr>intrStatus = 0, counters = 0, rxPktsDesc = replicate NUM_RX_PKT_DESC 0, fwLocalTime = 0\<rparr>\<rparr>,
        uFwTimeOffset = 0, fe_uContextId = 0, bIntrPending = False, uNumPendHndlrs = 0, fe_log = []\<rparr>)"

text \<open>Whether the object is freed.\<close>

definition fwEvent_Destroy :: "TfwEvent option \<Rightarrow> ti_status \<times> bool" where
  "fwEvent_Destroy s = (TI_OK, s \<noteq> None)"

text \<open>\<open>client\<close> is the result of \<open>context_RegisterClient\<close>.\<close>

definition fwEvent_Init :: "TfwEvent \<Rightarrow> u32 \<Rightarrow> ti_status \<times> TfwEvent" where
  "fwEvent_Init s client =
     (let s = s\<lparr>eSmState := FWEVENT_STATE_IDLE, bIntrPending := False, uNumPendHndlrs := 0, uEventMask := 0, uEventVector := 0\<rparr>;
          m = tMaskTxn s; f = tFwStatusTxn s;
          s = s\<lparr>tMaskTxn := m\<lparr>rt_params := TXN_PARAM_SET (rt_params m) TXN_LOW_PRIORITY TXN_FUNC_ID_WLAN TXN_DIRECTION_WRITE TXN_INC_ADDR, rt_hwAddr := HINT_MASK\<rparr>\<rparr>;
          s = s\<lparr>tFwStatusTxn := f\<lparr>fs_params := TXN_PARAM_SET (fs_params f) TXN_HIGH_PRIORITY TXN_FUNC_ID_WLAN TXN_DIRECTION_READ TXN_INC_ADDR, fs_hwAddr := FW_STATUS_ADDR\<rparr>\<rparr>
      in (TI_OK, s\<lparr>fe_uContextId := client\<rparr>))"

definition fwEvent_Stop :: "TfwEvent \<Rightarrow> ti_status \<times> TfwEvent" where
  "fwEvent_Stop s = (TI_OK, fe_emit FeStopped (s\<lparr>eSmState := FWEVENT_STATE_IDLE, bIntrPending := False, uNumPendHndlrs := 0, uEventMask := 0, uEventVector := 0\<rparr>))"

text \<open>The mask is written inverted.\<close>

definition fe_write_mask :: "u32 \<Rightarrow> TfwEvent \<Rightarrow> TfwEvent" where
  "fe_write_mask m s =
     (let s = s\<lparr>uEventMask := m\<rparr>;
          s = s\<lparr>tMaskTxn := (tMaskTxn s)\<lparr>rt_uData := NOT (uEventMask s), rt_hwAddr := HINT_MASK\<rparr>\<rparr>
      in fe_emit (FeMask (rt_uData (tMaskTxn s))) s)"

definition fwEvent_SetInitMask :: "TfwEvent \<Rightarrow> TfwEvent" where
  "fwEvent_SetInitMask s = fe_write_mask (ACX_INTR_CMD_COMPLETE OR ACX_INTR_EVENT_A OR ACX_INTR_EVENT_B OR ACX_INTR_HW_AVAILABLE) s"

definition fwEvent_MaskAllFwInterrupts :: "TfwEvent \<Rightarrow> TfwEvent" where
  "fwEvent_MaskAllFwInterrupts s = fe_write_mask 0 s"

definition fwEvent_EnableExternalEvents :: "TfwEvent \<Rightarrow> TfwEvent" where
  "fwEvent_EnableExternalEvents s = fe_write_mask ALL_EVENTS_VECTOR s"

definition fwEvent_DisableInterrupts :: "TfwEvent \<Rightarrow> TfwEvent" where
  "fwEvent_DisableInterrupts s = fe_emit (FeDisable (fe_uContextId s)) s"

definition fwEvent_EnableInterrupts :: "TfwEvent \<Rightarrow> TfwEvent" where
  "fwEvent_EnableInterrupts s = fe_emit (FeEnable (fe_uContextId s)) s"

definition fwEvent_InterruptRequest :: "TfwEvent \<Rightarrow> TfwEvent" where
  "fwEvent_InterruptRequest s = fe_emit (FeSchedule (fe_uContextId s)) s"

definition fwEvent_TranslateToFwTime :: "TfwEvent \<Rightarrow> u32 \<Rightarrow> u32" where
  "fwEvent_TranslateToFwTime s uHostTime = uHostTime * 1000 - uFwTimeOffset s"

section \<open>The handlers\<close>

fun fe_do :: "fe_req \<Rightarrow> TfwEvent \<Rightarrow> TfwEvent" where
  "fe_do FeReqStop s = snd (fwEvent_Stop s)"
| "fe_do FeReqInitMask s = fwEvent_SetInitMask s"
| "fe_do FeReqMaskAll s = fwEvent_MaskAllFwInterrupts s"
| "fe_do FeReqEnableAll s = fwEvent_EnableExternalEvents s"

text \<open>A handler that is called, with \<open>UPDATE_PENDING_HANDLERS_NUMBER\<close>.\<close>

definition fe_call :: "fe_env \<Rightarrow> fe_hndlr \<Rightarrow> TfwEvent \<Rightarrow> TfwEvent" where
  "fe_call env h s =
     (let s = fe_emit (FeCall h) s; (eStatus, reqs) = fe_hndl env s h; s = fold fe_do reqs s
      in if eStatus = TXN_STATUS_PENDING then s\<lparr>uNumPendHndlrs := uNumPendHndlrs s + 1\<rparr> else s)"

definition fe_when :: "fe_env \<Rightarrow> u32 \<Rightarrow> fe_hndlr list \<Rightarrow> TfwEvent \<Rightarrow> TfwEvent" where
  "fe_when env b hs s = (if uEventVector s AND b \<noteq> 0 then fold (fe_call env) hs s else s)"

definition fwEvent_CallHandlers :: "fe_env \<Rightarrow> TfwEvent \<Rightarrow> ti_status \<times> TfwEvent" where
  "fwEvent_CallHandlers env s =
     (let s = s\<lparr>uNumPendHndlrs := 0\<rparr>;
          s = fe_when env ACX_INTR_WATCHDOG [FeWdExpire] s;
          s = fe_when env ACX_INTR_CMD_COMPLETE [FeCmdComplete] s;
          s = fe_when env ACX_INTR_EVENT_A [FeEventA] s;
          s = fe_when env ACX_INTR_EVENT_B [FeEventB] s;
          s = fe_when env ACX_INTR_DATA [FeRxEvent, FeFreeResources, FeTxResult] s
      in (if uNumPendHndlrs s = 0 then TXN_STATUS_COMPLETE else TXN_STATUS_PENDING, s))"

definition fwEvent_SmHandleEvents :: "fe_env \<Rightarrow> TfwEvent \<Rightarrow> ti_status \<times> TfwEvent" where
  "fwEvent_SmHandleEvents env s =
     (let s = s\<lparr>uFwTimeOffset := fe_time env s * 1000 - fwLocalTime (tFwStatus (tFwStatusTxn s))\<rparr>;
          s = s\<lparr>uEventVector := intrStatus (tFwStatus (tFwStatusTxn s))\<rparr>;
          s = s\<lparr>uEventVector := uEventVector s AND uEventMask s\<rparr>
      in fwEvent_CallHandlers env (fe_emit (FeInfo (uEventVector s)) s))"

section \<open>The state machine\<close>

text \<open>The data of a completed read are in the module's buffer.\<close>

definition fe_land :: "FwStatus_t \<Rightarrow> TfwEvent \<Rightarrow> TfwEvent" where
  "fe_land d s = s\<lparr>tFwStatusTxn := (tFwStatusTxn s)\<lparr>tFwStatus := d\<rparr>\<rparr>"

definition fwEvent_SmReadIntrInfo :: "fe_env \<Rightarrow> TfwEvent \<Rightarrow> ti_status \<times> TfwEvent" where
  "fwEvent_SmReadIntrInfo env s =
     (let s = fe_emit FeHwAvailable s;
          s = s\<lparr>tFwStatusTxn := (tFwStatusTxn s)\<lparr>fs_hwAddr := FW_STATUS_ADDR\<rparr>\<rparr>;
          s = fe_emit FeRead s;
          eStatus = fe_rsp env s
      in (eStatus, if eStatus = TXN_STATUS_COMPLETE then fe_land (fe_status env s) s else s))"

text \<open>One round of the loop; without a status the state machine returns.\<close>

definition fe_round :: "fe_env \<Rightarrow> TfwEvent \<Rightarrow> ti_status option \<times> TfwEvent" where
  "fe_round env s =
     (case eSmState s of
        FWEVENT_STATE_IDLE \<Rightarrow>
          let (eStatus, s) = fwEvent_SmReadIntrInfo env (fe_emit FeAwake s)
          in (Some eStatus, s\<lparr>eSmState := FWEVENT_STATE_WAIT_INTR_INFO\<rparr>)
      | FWEVENT_STATE_WAIT_INTR_INFO \<Rightarrow>
          let (eStatus, s) = fwEvent_SmHandleEvents env s
          in if eSmState s = FWEVENT_STATE_IDLE then (None, s) else (Some eStatus, s\<lparr>eSmState := FWEVENT_STATE_WAIT_HANDLE_COMPLT\<rparr>)
      | FWEVENT_STATE_WAIT_HANDLE_COMPLT \<Rightarrow>
          if bIntrPending s then
            let (eStatus, s) = fwEvent_SmReadIntrInfo env (s\<lparr>bIntrPending := False\<rparr>)
            in (Some eStatus, s\<lparr>eSmState := FWEVENT_STATE_WAIT_INTR_INFO\<rparr>)
          else (None, (fe_emit FeSleep s)\<lparr>eSmState := FWEVENT_STATE_IDLE\<rparr>))"

text \<open>Every round brings the loop nearer to its end, since no handler sets \<open>bIntrPending\<close>.\<close>

fun fe_stage :: "EFwEventState \<Rightarrow> nat" where
  "fe_stage FWEVENT_STATE_IDLE = 3"
| "fe_stage FWEVENT_STATE_WAIT_INTR_INFO = 2"
| "fe_stage FWEVENT_STATE_WAIT_HANDLE_COMPLT = 1"

definition fe_left :: "TfwEvent \<Rightarrow> nat" where
  "fe_left s = (if bIntrPending s then 3 else 0) + fe_stage (eSmState s)"

lemma fe_do_pending: "bIntrPending (fe_do r s) \<Longrightarrow> bIntrPending s"
  by (cases r) (simp_all add: fwEvent_Stop_def fwEvent_SetInitMask_def fwEvent_MaskAllFwInterrupts_def fwEvent_EnableExternalEvents_def fe_write_mask_def fe_emit_def Let_def)

lemma fe_dos_pending: "bIntrPending (fold fe_do rs s) \<Longrightarrow> bIntrPending s"
  by (induction rs arbitrary: s) (auto dest: fe_do_pending)

lemma fe_call_pending: "bIntrPending (fe_call env h s) \<Longrightarrow> bIntrPending s"
  by (auto simp: fe_call_def fe_emit_def Let_def split: prod.splits if_splits dest!: fe_dos_pending)

lemma fe_calls_pending: "bIntrPending (fold (fe_call env) hs s) \<Longrightarrow> bIntrPending s"
  by (induction hs arbitrary: s) (auto dest: fe_call_pending)

lemma fe_when_pending: "bIntrPending (fe_when env b hs s) \<Longrightarrow> bIntrPending s"
  by (auto simp: fe_when_def split: if_splits dest: fe_calls_pending)

lemma SmHandleEvents_pending: "bIntrPending (snd (fwEvent_SmHandleEvents env s)) \<Longrightarrow> bIntrPending s"
  by (auto simp: fwEvent_SmHandleEvents_def fwEvent_CallHandlers_def fe_emit_def Let_def dest!: fe_when_pending)

lemma SmReadIntrInfo_fields [simp]:
  "bIntrPending (snd (fwEvent_SmReadIntrInfo env s)) = bIntrPending s" "eSmState (snd (fwEvent_SmReadIntrInfo env s)) = eSmState s"
  by (simp_all add: fwEvent_SmReadIntrInfo_def fe_emit_def fe_land_def Let_def)

lemma fe_round_left: "fe_round env s = (Some e, t) \<Longrightarrow> fe_left t < fe_left s"
  using SmHandleEvents_pending [of env s]
  by (cases "eSmState s") (auto simp: fe_round_def fe_left_def fe_emit_def Let_def case_prod_beta split: if_splits)

function fwEvent_StateMachine :: "fe_env \<Rightarrow> TfwEvent \<Rightarrow> TfwEvent" where
  "fwEvent_StateMachine env s =
     (case fe_round env s of
        (None, s) \<Rightarrow> s
      | (Some eStatus, s) \<Rightarrow>
          if eStatus = TXN_STATUS_PENDING then s
          else if eStatus = TXN_STATUS_ERROR then snd (fwEvent_Stop s)
          else fwEvent_StateMachine env s)"
  by auto
termination
proof (relation "measure (\<lambda>(env, s). fe_left s)", goal_cases)
  case (2 env s x t e)
  then show ?case using fe_round_left [of env s e t] by simp
qed simp

declare fwEvent_StateMachine.simps [simp del]

definition fwEvent_NewEvent :: "fe_env \<Rightarrow> TfwEvent \<Rightarrow> TfwEvent" where
  "fwEvent_NewEvent env s =
     (let s = fe_emit FeIntr s in
      if eSmState s = FWEVENT_STATE_IDLE then fwEvent_StateMachine env s else s\<lparr>bIntrPending := True\<rparr>)"

definition fwEvent_HandlerCompleted :: "fe_env \<Rightarrow> TfwEvent \<Rightarrow> TfwEvent" where
  "fwEvent_HandlerCompleted env s =
     (if uNumPendHndlrs s = 0 then s
      else if eSmState s \<noteq> FWEVENT_STATE_WAIT_HANDLE_COMPLT then s
      else
        let s = s\<lparr>uNumPendHndlrs := uNumPendHndlrs s - 1\<rparr> in
        if uNumPendHndlrs s = 0 then fwEvent_StateMachine env s else s)"

section \<open>The specification\<close>

text \<open>
  The requests to keep the device awake that have not been taken back (\<open>twIf_Awake\<close> without a \<open>twIf_Sleep\<close>) and how many of them a stop has left behind, whether
  an interrupt has not been answered by a read yet, and the handlers still to be called. The device is woken and its status read only for an interrupt, the handlers
  of a vector are called in their order, each once, and the module takes back its request only when every interrupt has been answered. A stop forgets the interrupt
  and the handlers, but takes nothing back.
\<close>

record fe_sp =
  sp_awake :: nat
  sp_left :: nat
  sp_due :: bool
  sp_todo :: "fe_hndlr list"

definition fe_sp0 :: fe_sp where
  "fe_sp0 = \<lparr>sp_awake = 0, sp_left = 0, sp_due = False, sp_todo = []\<rparr>"

definition fe_handlers :: "u32 \<Rightarrow> fe_hndlr list" where
  "fe_handlers v =
     (if v AND ACX_INTR_WATCHDOG \<noteq> 0 then [FeWdExpire] else []) @ (if v AND ACX_INTR_CMD_COMPLETE \<noteq> 0 then [FeCmdComplete] else []) @
     (if v AND ACX_INTR_EVENT_A \<noteq> 0 then [FeEventA] else []) @ (if v AND ACX_INTR_EVENT_B \<noteq> 0 then [FeEventB] else []) @
     (if v AND ACX_INTR_DATA \<noteq> 0 then [FeRxEvent, FeFreeResources, FeTxResult] else [])"

fun fe_spec :: "fe_ev \<Rightarrow> fe_sp \<Rightarrow> fe_sp option" where
  "fe_spec FeIntr sp = Some (sp\<lparr>sp_due := True\<rparr>)"
| "fe_spec FeAwake sp = (if sp_awake sp = sp_left sp \<and> sp_due sp then Some (sp\<lparr>sp_awake := sp_awake sp + 1\<rparr>) else None)"
| "fe_spec FeHwAvailable sp = (if sp_left sp < sp_awake sp then Some sp else None)"
| "fe_spec FeRead sp = (if sp_left sp < sp_awake sp \<and> sp_due sp \<and> sp_todo sp = [] then Some (sp\<lparr>sp_due := False\<rparr>) else None)"
| "fe_spec (FeInfo v) sp = (if sp_left sp < sp_awake sp \<and> sp_todo sp = [] then Some (sp\<lparr>sp_todo := fe_handlers v\<rparr>) else None)"
| "fe_spec (FeCall h) sp = (case sp_todo sp of g # r \<Rightarrow> if g = h then Some (sp\<lparr>sp_todo := r\<rparr>) else None | [] \<Rightarrow> None)"
| "fe_spec FeSleep sp = (if sp_left sp < sp_awake sp \<and> \<not> sp_due sp \<and> sp_todo sp = [] then Some (sp\<lparr>sp_awake := sp_awake sp - 1\<rparr>) else None)"
| "fe_spec (FeMask m) sp = Some sp"
| "fe_spec FeStopped sp = Some (sp\<lparr>sp_left := sp_awake sp, sp_due := False, sp_todo := []\<rparr>)"
| "fe_spec (FeSchedule c) sp = Some sp"
| "fe_spec (FeEnable c) sp = Some sp"
| "fe_spec (FeDisable c) sp = Some sp"

fun fe_run :: "fe_ev list \<Rightarrow> fe_sp \<Rightarrow> fe_sp option" where
  "fe_run [] sp = Some sp"
| "fe_run (e # es) sp = Option.bind (fe_spec e sp) (fe_run es)"

lemma fe_run_append: "fe_run (xs @ ys) sp = Option.bind (fe_run xs sp) (fe_run ys)"
  by (induction xs arbitrary: sp) (auto simp: bind_assoc split: bind_split)

text \<open>The requests are counted as they are made and taken back, and each stop leaves at most one behind.\<close>

lemma fe_spec_counts:
  assumes "fe_spec e sp = Some sp'" "sp_left sp \<le> sp_awake sp" "sp_awake sp \<le> sp_left sp + 1"
  shows "sp_awake sp' + count_list [e] FeSleep = sp_awake sp + count_list [e] FeAwake \<and> sp_left sp' \<le> sp_awake sp' \<and> sp_awake sp' \<le> sp_left sp' + 1 \<and>
    sp_left sp' \<le> sp_left sp + count_list [e] FeStopped"
  using assms by (cases e) (auto split: if_splits list.splits)

lemma fe_run_counts:
  assumes "fe_run es sp = Some sp'" "sp_left sp \<le> sp_awake sp" "sp_awake sp \<le> sp_left sp + 1"
  shows "sp_awake sp' + count_list es FeSleep = sp_awake sp + count_list es FeAwake \<and> sp_left sp' \<le> sp_left sp + count_list es FeStopped"
  using assms
proof (induction es arbitrary: sp)
  case (Cons e es)
  then obtain s1 where s1: "fe_spec e sp = Some s1" "fe_run es s1 = Some sp'" by (auto split: bind_splits)
  note c = fe_spec_counts [OF s1(1) Cons.prems(2,3)]
  from Cons.IH [OF s1(2)] c show ?case by (auto split: if_splits)
qed simp

text \<open>Handlers that do not stop the module; they may change the mask.\<close>

definition fe_calm :: "fe_env \<Rightarrow> bool" where
  "fe_calm env \<longleftrightarrow> (\<forall>s h. FeReqStop \<notin> set (snd (fe_hndl env s h)))"

definition fe_at :: "TfwEvent \<Rightarrow> bool \<Rightarrow> bool \<Rightarrow> fe_hndlr list \<Rightarrow> bool" where
  "fe_at s a d hs \<longleftrightarrow> (\<exists>k. fe_run (fe_log s) fe_sp0 = Some \<lparr>sp_awake = k + of_bool a, sp_left = k, sp_due = d, sp_todo = hs\<rparr>)"

definition fe_inv :: "TfwEvent \<Rightarrow> bool" where
  "fe_inv s \<longleftrightarrow> fe_at s (eSmState s \<noteq> FWEVENT_STATE_IDLE) (bIntrPending s) [] \<and> (eSmState s = FWEVENT_STATE_IDLE \<longrightarrow> \<not> bIntrPending s)"

text \<open>What a handler leaves unchanged.\<close>

definition fe_same :: "TfwEvent \<Rightarrow> TfwEvent \<Rightarrow> bool" where
  "fe_same s t \<longleftrightarrow> eSmState t = eSmState s \<and> bIntrPending t = bIntrPending s \<and> uEventVector t = uEventVector s"

lemma fe_emit_fields [simp]:
  "eSmState (fe_emit e s) = eSmState s" "bIntrPending (fe_emit e s) = bIntrPending s" "uEventVector (fe_emit e s) = uEventVector s" "uNumPendHndlrs (fe_emit e s) = uNumPendHndlrs s"
  "uEventMask (fe_emit e s) = uEventMask s" "tFwStatusTxn (fe_emit e s) = tFwStatusTxn s"
  by (simp_all add: fe_emit_def)

lemma fe_at_emit:
  assumes "fe_at s a d hs"
    "\<And>k. fe_spec e \<lparr>sp_awake = k + of_bool a, sp_left = k, sp_due = d, sp_todo = hs\<rparr> = Some \<lparr>sp_awake = k + of_bool a', sp_left = k, sp_due = d', sp_todo = hs'\<rparr>"
  shows "fe_at (fe_emit e s) a' d' hs'"
  using assms by (auto simp: fe_at_def fe_emit_def fe_run_append)

lemma fe_at_cong: "fe_at s a d hs \<Longrightarrow> fe_log t = fe_log s \<Longrightarrow> fe_at t a d hs"
  by (simp add: fe_at_def)

lemma fe_write_mask_at: "fe_at s a d hs \<Longrightarrow> fe_at (fe_write_mask m s) a d hs \<and> fe_same s (fe_write_mask m s)"
  unfolding fe_write_mask_def Let_def by (auto simp: fe_same_def fe_at_def fe_emit_def fe_run_append)

lemma fe_do_at: "fe_at s a d hs \<Longrightarrow> r \<noteq> FeReqStop \<Longrightarrow> fe_at (fe_do r s) a d hs \<and> fe_same s (fe_do r s)"
  by (cases r) (simp_all add: fwEvent_SetInitMask_def fwEvent_MaskAllFwInterrupts_def fwEvent_EnableExternalEvents_def fe_write_mask_at)

lemma fe_dos_at: "fe_at s a d hs \<Longrightarrow> FeReqStop \<notin> set rs \<Longrightarrow> fe_at (fold fe_do rs s) a d hs \<and> fe_same s (fold fe_do rs s)"
proof (induction rs arbitrary: s)
  case (Cons r rs)
  from Cons.prems fe_do_at [of s a d hs r] have "fe_at (fe_do r s) a d hs" "fe_same s (fe_do r s)" by auto
  with Cons.IH [of "fe_do r s"] Cons.prems show ?case by (auto simp: fe_same_def)
qed (simp add: fe_same_def)

lemma fe_call_at:
  assumes "fe_at s a d (h # hs)" "fe_calm env"
  shows "fe_at (fe_call env h s) a d hs \<and> fe_same s (fe_call env h s)"
proof -
  let ?s = "fe_emit (FeCall h) s"
  obtain e rs where r: "fe_hndl env ?s h = (e, rs)" by (cases "fe_hndl env ?s h")
  have "FeReqStop \<notin> set rs" using assms(2) r by (metis fe_calm_def snd_conv)
  moreover have "fe_at ?s a d hs" using assms(1) by (rule fe_at_emit) simp
  ultimately have "fe_at (fold fe_do rs ?s) a d hs" "fe_same ?s (fold fe_do rs ?s)" using fe_dos_at by blast+
  then show ?thesis by (auto simp: fe_call_def r Let_def fe_same_def intro: fe_at_cong)
qed

lemma fe_calls_at: "fe_at s a d (hs @ gs) \<Longrightarrow> fe_calm env \<Longrightarrow> fe_at (fold (fe_call env) hs s) a d gs \<and> fe_same s (fold (fe_call env) hs s)"
proof (induction hs arbitrary: s)
  case (Cons h hs)
  from fe_call_at [of s a d h "hs @ gs" env] Cons.prems have "fe_at (fe_call env h s) a d (hs @ gs)" "fe_same s (fe_call env h s)" by auto
  with Cons.IH [of "fe_call env h s"] Cons.prems(2) show ?case by (auto simp: fe_same_def)
qed (simp add: fe_same_def)

lemma fe_when_at:
  assumes "fe_at s a d ((if uEventVector s AND b \<noteq> 0 then hs else []) @ gs)" "fe_calm env"
  shows "fe_at (fe_when env b hs s) a d gs" "fe_same s (fe_when env b hs s)"
  using assms fe_calls_at [of s a d hs gs env] by (auto simp: fe_when_def fe_same_def split: if_splits)

lemma CallHandlers_at:
  assumes "fe_at s a d (fe_handlers (uEventVector s))" and c: "fe_calm env"
  shows "fe_at (snd (fwEvent_CallHandlers env s)) a d [] \<and> fe_same s (snd (fwEvent_CallHandlers env s))"
proof -
  let ?v = "uEventVector s"
  define s0 where "s0 = s\<lparr>uNumPendHndlrs := 0\<rparr>"
  define s1 where "s1 = fe_when env ACX_INTR_WATCHDOG [FeWdExpire] s0"
  define s2 where "s2 = fe_when env ACX_INTR_CMD_COMPLETE [FeCmdComplete] s1"
  define s3 where "s3 = fe_when env ACX_INTR_EVENT_A [FeEventA] s2"
  define s4 where "s4 = fe_when env ACX_INTR_EVENT_B [FeEventB] s3"
  define s5 where "s5 = fe_when env ACX_INTR_DATA [FeRxEvent, FeFreeResources, FeTxResult] s4"
  have v0: "uEventVector s0 = ?v" "fe_same s s0" by (simp_all add: s0_def fe_same_def)
  have "fe_at s0 a d (fe_handlers ?v)" using assms(1) by (rule fe_at_cong) (simp add: s0_def)
  note f1 = fe_when_at [OF this [unfolded fe_handlers_def v0(1) [symmetric]] c, folded s1_def]
  have v1: "uEventVector s1 = ?v" using f1(2) v0 by (simp add: fe_same_def)
  note f2 = fe_when_at [OF f1(1) [unfolded v0(1) v1 [symmetric]] c, folded s2_def]
  have v2: "uEventVector s2 = ?v" using f2(2) v1 by (simp add: fe_same_def)
  note f3 = fe_when_at [OF f2(1) [unfolded v1 v2 [symmetric]] c, folded s3_def]
  have v3: "uEventVector s3 = ?v" using f3(2) v2 by (simp add: fe_same_def)
  note f4 = fe_when_at [OF f3(1) [unfolded v2 v3 [symmetric]] c, folded s4_def]
  have v4: "uEventVector s4 = ?v" using f4(2) v3 by (simp add: fe_same_def)
  have "fe_at s4 a d ((if uEventVector s4 AND ACX_INTR_DATA \<noteq> 0 then [FeRxEvent, FeFreeResources, FeTxResult] else []) @ [])" using f4(1) v3 v4 by simp
  note f5 = fe_when_at [OF this c, folded s5_def]
  have "snd (fwEvent_CallHandlers env s) = s5" by (simp add: fwEvent_CallHandlers_def Let_def s5_def s4_def s3_def s2_def s1_def s0_def)
  then show ?thesis using f1(2) f2(2) f3(2) f4(2) f5 v0(2) by (simp add: fe_same_def)
qed

lemma SmHandleEvents_at:
  assumes "fe_at s True d []" "fe_calm env"
  shows "fe_at (snd (fwEvent_SmHandleEvents env s)) True d [] \<and> eSmState (snd (fwEvent_SmHandleEvents env s)) = eSmState s \<and> bIntrPending (snd (fwEvent_SmHandleEvents env s)) = bIntrPending s"
proof -
  define s1 where "s1 = s\<lparr>uFwTimeOffset := fe_time env s * 1000 - fwLocalTime (tFwStatus (tFwStatusTxn s)), uEventVector := intrStatus (tFwStatus (tFwStatusTxn s)) AND uEventMask s\<rparr>"
  have "fe_at s1 True d []" using assms(1) by (rule fe_at_cong) (simp add: s1_def)
  then have "fe_at (fe_emit (FeInfo (uEventVector s1)) s1) True d (fe_handlers (uEventVector s1))" by (rule fe_at_emit) simp
  from CallHandlers_at [of "fe_emit (FeInfo (uEventVector s1)) s1" True d env] this assms(2) show ?thesis
    by (simp add: fwEvent_SmHandleEvents_def Let_def s1_def fe_same_def)
qed

lemma SmReadIntrInfo_at:
  assumes "fe_at s True True []"
  shows "fe_at (snd (fwEvent_SmReadIntrInfo env s)) True False []"
proof -
  define s1 where "s1 = (fe_emit FeHwAvailable s)\<lparr>tFwStatusTxn := (tFwStatusTxn s)\<lparr>fs_hwAddr := FW_STATUS_ADDR\<rparr>\<rparr>"
  have "fe_at (fe_emit FeHwAvailable s) True True []" using assms by (rule fe_at_emit) simp
  then have "fe_at s1 True True []" by (rule fe_at_cong) (simp add: s1_def)
  then have "fe_at (fe_emit FeRead s1) True False []" by (rule fe_at_emit) simp
  then show ?thesis by (rule fe_at_cong) (simp add: fwEvent_SmReadIntrInfo_def Let_def s1_def fe_land_def)
qed

text \<open>The state machine may be started in the idle state with an interrupt that has not been answered, or goes on in its other states.\<close>

definition fe_ready :: "TfwEvent \<Rightarrow> bool" where
  "fe_ready s \<longleftrightarrow> (if eSmState s = FWEVENT_STATE_IDLE then fe_at s False True [] \<and> \<not> bIntrPending s else fe_at s True (bIntrPending s) [])"

lemma fe_round_at:
  assumes "fe_ready s" "fe_calm env"
  shows "(case fe_round env s of (None, t) \<Rightarrow> fe_inv t | (Some e, t) \<Rightarrow> fe_ready t \<and> eSmState t \<noteq> FWEVENT_STATE_IDLE)"
proof (cases "eSmState s")
  case FWEVENT_STATE_IDLE
  then have "fe_at s False True []" "\<not> bIntrPending s" using assms(1) by (simp_all add: fe_ready_def)
  from this(1) have "fe_at (fe_emit FeAwake s) True True []" by (rule fe_at_emit) simp
  from SmReadIntrInfo_at [OF this, of env] have "fe_at (snd (fwEvent_SmReadIntrInfo env (fe_emit FeAwake s))) True False []" .
  then show ?thesis using FWEVENT_STATE_IDLE \<open>\<not> bIntrPending s\<close> by (auto simp: fe_round_def Let_def case_prod_beta fe_ready_def intro: fe_at_cong)
next
  case FWEVENT_STATE_WAIT_INTR_INFO
  then have "fe_at s True (bIntrPending s) []" using assms(1) by (simp add: fe_ready_def)
  from SmHandleEvents_at [OF this assms(2)] FWEVENT_STATE_WAIT_INTR_INFO show ?thesis by (auto simp: fe_round_def Let_def case_prod_beta fe_ready_def intro: fe_at_cong)
next
  case FWEVENT_STATE_WAIT_HANDLE_COMPLT
  then have a: "fe_at s True (bIntrPending s) []" using assms(1) by (simp add: fe_ready_def)
  show ?thesis
  proof (cases "bIntrPending s")
    case True
    have "fe_at (s\<lparr>bIntrPending := False\<rparr>) True True []" using a True by (auto intro: fe_at_cong)
    from SmReadIntrInfo_at [OF this, of env] True FWEVENT_STATE_WAIT_HANDLE_COMPLT show ?thesis by (auto simp: fe_round_def Let_def case_prod_beta fe_ready_def intro: fe_at_cong)
  next
    case False
    then have "fe_at (fe_emit FeSleep s) False False []" using a by (auto intro: fe_at_emit)
    then show ?thesis using False FWEVENT_STATE_WAIT_HANDLE_COMPLT by (auto simp: fe_round_def fe_inv_def intro: fe_at_cong)
  qed
qed

lemma fe_stop_inv:
  assumes "fe_at s a d hs"
  shows "fe_inv (snd (fwEvent_Stop s))"
proof -
  obtain k where "fe_run (fe_log s) fe_sp0 = Some \<lparr>sp_awake = k + of_bool a, sp_left = k, sp_due = d, sp_todo = hs\<rparr>" using assms by (auto simp: fe_at_def)
  then have "fe_at (snd (fwEvent_Stop s)) False False []"
    by (auto simp: fwEvent_Stop_def fe_at_def fe_emit_def fe_run_append intro: exI [of _ "k + of_bool a"])
  then show ?thesis by (simp add: fe_inv_def fwEvent_Stop_def)
qed

lemma StateMachine_inv: "fe_ready s \<Longrightarrow> fe_calm env \<Longrightarrow> fe_inv (fwEvent_StateMachine env s)"
proof (induction env s rule: fwEvent_StateMachine.induct)
  case (1 env s)
  from fe_round_at [OF 1(2,3)] show ?case
  proof (cases "fe_round env s")
    case (Pair r t)
    show ?thesis
    proof (cases r)
      case (Some e)
      with Pair fe_round_at [OF 1(2,3)] have t: "fe_ready t" "eSmState t \<noteq> FWEVENT_STATE_IDLE" by auto
      then have "fe_inv t" "\<exists>d. fe_at t True d []" by (auto simp: fe_ready_def fe_inv_def)
      then show ?thesis using 1(1) [of r t e] 1(3) t Pair Some by (subst fwEvent_StateMachine.simps) (auto intro: fe_stop_inv)
    qed (use Pair fe_round_at [OF 1(2,3)] in \<open>subst fwEvent_StateMachine.simps, simp\<close>)
  qed
qed

section \<open>Runs\<close>

text \<open>A read that is on the bus completes in the state \<open>FWEVENT_STATE_WAIT_INTR_INFO\<close>.\<close>

inductive fe_step :: "TfwEvent \<Rightarrow> TfwEvent \<Rightarrow> bool" where
  intr: "fe_calm env \<Longrightarrow> fe_step s (fwEvent_NewEvent env s)"
| bus: "fe_calm env \<Longrightarrow> eSmState s = FWEVENT_STATE_WAIT_INTR_INFO \<Longrightarrow> fe_step s (fwEvent_StateMachine env (fe_land d s))"
| complete: "fe_calm env \<Longrightarrow> fe_step s (fwEvent_HandlerCompleted env s)"
| request: "fe_step s (fe_do r s)"
| irq: "fe_step s (fwEvent_InterruptRequest s)"
| enable: "fe_step s (fwEvent_EnableInterrupts s)"
| disable: "fe_step s (fwEvent_DisableInterrupts s)"

definition fe_init :: "TfwEvent \<Rightarrow> bool" where
  "fe_init s \<longleftrightarrow> (\<exists>mem s0 client. fwEvent_Create mem = Some s0 \<and> s = snd (fwEvent_Init s0 client))"

lemma fe_inv_ready: "fe_inv s \<Longrightarrow> eSmState s \<noteq> FWEVENT_STATE_IDLE \<Longrightarrow> fe_log t = fe_log s \<Longrightarrow> eSmState t = eSmState s \<Longrightarrow> bIntrPending t = bIntrPending s \<Longrightarrow> fe_ready t"
  by (simp add: fe_inv_def fe_ready_def fe_at_def)

lemma fe_NewEvent_inv:
  assumes i: "fe_inv s" and c: "fe_calm env"
  shows "fe_inv (fwEvent_NewEvent env s)"
proof -
  have "fe_at (fe_emit FeIntr s) (eSmState s \<noteq> FWEVENT_STATE_IDLE) True []" using i unfolding fe_inv_def by (auto intro: fe_at_emit)
  then have "if eSmState s = FWEVENT_STATE_IDLE then fe_ready (fe_emit FeIntr s) else fe_inv ((fe_emit FeIntr s)\<lparr>bIntrPending := True\<rparr>)"
    using i by (auto simp: fe_ready_def fe_inv_def intro: fe_at_cong)
  then show ?thesis using StateMachine_inv [OF _ c] by (auto simp: fwEvent_NewEvent_def Let_def split: if_splits)
qed

lemma fe_step_inv:
  assumes i: "fe_inv s" and st: "fe_step s t"
  shows "fe_inv t"
  using st
proof cases
  case (intr env)
  then show ?thesis using fe_NewEvent_inv [OF i] by simp
next
  case (bus env d)
  then have "fe_ready (fe_land d s)" using i by (intro fe_inv_ready [OF i]) (simp_all add: fe_land_def)
  then show ?thesis using bus StateMachine_inv by simp
next
  case (complete env)
  show ?thesis
  proof (cases "eSmState s = FWEVENT_STATE_WAIT_HANDLE_COMPLT")
    case True
    define u where "u = s\<lparr>uNumPendHndlrs := uNumPendHndlrs s - 1\<rparr>"
    have u: "fe_ready u" "fe_inv u" using True i by (auto simp: u_def fe_inv_def fe_at_def intro: fe_inv_ready [OF i])
    have "t = s \<or> t = u \<or> t = fwEvent_StateMachine env u" unfolding complete(1) fwEvent_HandlerCompleted_def Let_def u_def [symmetric] by auto
    then show ?thesis using i u StateMachine_inv [OF u(1) complete(2)] by auto
  qed (use complete i in \<open>simp add: fwEvent_HandlerCompleted_def\<close>)
next
  case (request r)
  show ?thesis
  proof (cases "r = FeReqStop")
    case True
    then show ?thesis using i fe_stop_inv request by (auto simp: fe_inv_def)
  next
    case False
    with i fe_do_at [of s "eSmState s \<noteq> FWEVENT_STATE_IDLE" "bIntrPending s" "[]" r] show ?thesis by (simp add: request fe_inv_def fe_same_def)
  qed
qed (use i in \<open>auto simp: fe_inv_def fwEvent_InterruptRequest_def fwEvent_EnableInterrupts_def fwEvent_DisableInterrupts_def intro: fe_at_emit\<close>)

lemma fe_init_inv: "fe_init s \<Longrightarrow> fe_inv s"
  by (auto simp: fe_init_def fwEvent_Create_def fwEvent_Init_def Let_def fe_inv_def fe_at_def fe_sp0_def split: if_splits)

interpretation fwe: state_invariant fe_init fe_step fe_inv
  by unfold_locales (auto intro: fe_init_inv fe_step_inv)

section \<open>Handlers that complete at once\<close>

definition fe_plain :: "fe_env \<Rightarrow> bool" where
  "fe_plain env \<longleftrightarrow> (\<forall>s. fe_rsp env s = TXN_STATUS_COMPLETE) \<and> (\<forall>s h. fe_hndl env s h = (TXN_STATUS_COMPLETE, []))"

definition fe_logged :: "fe_ev list \<Rightarrow> TfwEvent \<Rightarrow> TfwEvent" where
  "fe_logged es s = s\<lparr>fe_log := fe_log s @ es\<rparr>"

lemma fe_logged_simps [simp]:
  "fe_logged [] s = s" "fe_logged es (fe_logged ds s) = fe_logged (ds @ es) s" "uEventVector (fe_logged es s) = uEventVector s" "eSmState (fe_logged es s) = eSmState s"
  "uNumPendHndlrs (fe_logged es s) = uNumPendHndlrs s" "bIntrPending (fe_logged es s) = bIntrPending s" "fe_log (fe_logged es s) = fe_log s @ es"
  "uFwTimeOffset (fe_logged es s) = uFwTimeOffset s" "tFwStatusTxn (fe_logged es s) = tFwStatusTxn s" "uEventMask (fe_logged es s) = uEventMask s"
  by (simp_all add: fe_logged_def)

lemma fe_emit_logged: "fe_emit e s = fe_logged [e] s"
  by (simp add: fe_emit_def fe_logged_def)

lemma fe_calls_plain: "fe_plain env \<Longrightarrow> fold (fe_call env) hs s = fe_logged (map FeCall hs) s"
  by (induction hs arbitrary: s) (simp_all add: fe_plain_def fe_call_def fe_emit_logged)

lemma fe_when_plain: "fe_plain env \<Longrightarrow> fe_when env b hs s = fe_logged (map FeCall (if uEventVector s AND b \<noteq> 0 then hs else [])) s"
  by (simp add: fe_when_def fe_calls_plain)

lemma CallHandlers_plain:
  "fe_plain env \<Longrightarrow> fwEvent_CallHandlers env s = (TXN_STATUS_COMPLETE, fe_logged (map FeCall (fe_handlers (uEventVector s))) (s\<lparr>uNumPendHndlrs := 0\<rparr>))"
  by (simp only: fwEvent_CallHandlers_def Let_def fe_when_plain fe_logged_simps TfwEvent.simps fe_handlers_def map_append append_assoc) (simp split del: if_split)

lemma fe_time_back: "(now + d) * 1000 - (now * 1000 - f) = f + d * (1000 :: u32)"
  by (simp add: algebra_simps)

section \<open>The properties\<close>

text \<open>
  C17: as long as no handler stops the module while it runs, in every run, with stops from outside and failed reads, the device is woken and its status read only for an
  interrupt, every interrupt that arrives is answered by a read after it before the module lets the device sleep, unless a stop or a failed read comes first, and for each
  vector of interrupts the handlers of its bits are called once, in the order of the code. The requests to keep the device awake that have not been taken back are one while
  the module is busy and none while it is idle, plus \<open>k\<close> that were left behind: a stop or a failed read while the module is busy leaves one, which the module never takes
  back (\<open>fwEvent_error_keeps_awake\<close>), and without one \<open>k\<close> is \<open>0\<close>.
\<close>

theorem fwEvent_refines_spec:
  assumes "reach fe_init fe_step s"
  shows "\<exists>k. fe_run (fe_log s) fe_sp0 =
      Some \<lparr>sp_awake = k + (if eSmState s \<noteq> FWEVENT_STATE_IDLE then 1 else 0), sp_left = k, sp_due = bIntrPending s, sp_todo = []\<rparr> \<and>
    (eSmState s = FWEVENT_STATE_IDLE \<longrightarrow> \<not> bIntrPending s) \<and>
    count_list (fe_log s) FeAwake = count_list (fe_log s) FeSleep + k + (if eSmState s \<noteq> FWEVENT_STATE_IDLE then 1 else 0) \<and>
    k \<le> count_list (fe_log s) FeStopped"
proof -
  from fwe.reach_invar [OF assms] obtain k where
    k: "fe_run (fe_log s) fe_sp0 = Some \<lparr>sp_awake = k + of_bool (eSmState s \<noteq> FWEVENT_STATE_IDLE), sp_left = k, sp_due = bIntrPending s, sp_todo = []\<rparr>"
    "eSmState s = FWEVENT_STATE_IDLE \<longrightarrow> \<not> bIntrPending s" by (auto simp: fe_inv_def fe_at_def)
  from fe_run_counts [OF k(1)] k show ?thesis by (intro exI [of _ k]) (simp add: fe_sp0_def of_bool_def)
qed

text \<open>
  C18: when the bus reads at once and the handlers complete, one interrupt in the idle state leads to exactly one read, to the handlers of the unmasked interrupts, and
  back to the idle state. From then on the translation of host time into firmware time is exact, also when the clocks wrap around: \<open>d\<close> milliseconds after the read it gives the
  firmware's clock plus \<open>d\<close> thousand microseconds.
\<close>

theorem fwEvent_NewEvent_handles:
  assumes "reach fe_init fe_step s" "eSmState s = FWEVENT_STATE_IDLE" "fe_plain env" "\<And>t. fe_status env t = d" "\<And>t. fe_time env t = now"
  shows "eSmState (fwEvent_NewEvent env s) = FWEVENT_STATE_IDLE \<and>
    fe_log (fwEvent_NewEvent env s) = fe_log s @ [FeIntr, FeAwake, FeHwAvailable, FeRead, FeInfo (intrStatus d AND uEventMask s)] @
      map FeCall (fe_handlers (intrStatus d AND uEventMask s)) @ [FeSleep] \<and>
    fwEvent_TranslateToFwTime (fwEvent_NewEvent env s) (now + ms) = fwLocalTime d + ms * 1000"
proof -
  let ?v = "intrStatus d AND uEventMask s"
  have p: "\<not> bIntrPending s" using fwe.reach_invar [OF assms(1)] assms(2) by (simp add: fe_inv_def)
  define f where "f = (tFwStatusTxn s)\<lparr>fs_hwAddr := FW_STATUS_ADDR, tFwStatus := d\<rparr>"
  define s1 where "s1 = (fe_logged [FeIntr, FeAwake, FeHwAvailable, FeRead] s)\<lparr>tFwStatusTxn := f, eSmState := FWEVENT_STATE_WAIT_INTR_INFO\<rparr>"
  define s2 where "s2 = (fe_logged (FeInfo ?v # map FeCall (fe_handlers ?v)) s1)\<lparr>uFwTimeOffset := now * 1000 - fwLocalTime d, uEventVector := ?v, uNumPendHndlrs := 0,
    eSmState := FWEVENT_STATE_WAIT_HANDLE_COMPLT\<rparr>"
  have r1: "fe_round env (fe_logged [FeIntr] s) = (Some TXN_STATUS_COMPLETE, s1)"
    using assms(2-4) by (simp add: fe_round_def fwEvent_SmReadIntrInfo_def fe_emit_logged fe_land_def fe_plain_def Let_def s1_def f_def) (simp add: fe_logged_def)
  have r2: "fe_round env s1 = (Some TXN_STATUS_COMPLETE, s2)"
    using assms(3,5) by (simp add: fe_round_def fwEvent_SmHandleEvents_def CallHandlers_plain fe_emit_logged Let_def s1_def s2_def f_def) (simp add: fe_logged_def)
  have r3: "fe_round env s2 = (None, (fe_logged [FeSleep] s2)\<lparr>eSmState := FWEVENT_STATE_IDLE\<rparr>)"
    using p by (simp add: fe_round_def s2_def s1_def fe_emit_logged)
  have "fwEvent_NewEvent env s = (fe_logged [FeSleep] s2)\<lparr>eSmState := FWEVENT_STATE_IDLE\<rparr>"
    using assms(2) r1 r2 r3 by (simp add: fwEvent_NewEvent_def fe_emit_logged fwEvent_StateMachine.simps)
  then show ?thesis by (simp add: fwEvent_TranslateToFwTime_def s2_def s1_def fe_time_back)
qed

section \<open>A run\<close>

text \<open>The module after its initialisation, and a status with the interrupts of a completed command and of data.\<close>

definition few :: TfwEvent where
  "few = fwEvent_EnableExternalEvents (snd (fwEvent_Init (the (fwEvent_Create 1)) 3))"
definition few_status :: FwStatus_t where
  "few_status = \<lparr>intrStatus = 0x50, counters = 0, rxPktsDesc = replicate NUM_RX_PKT_DESC 0, fwLocalTime = 500000\<rparr>"
definition few_env :: "ti_status \<Rightarrow> (fe_hndlr \<Rightarrow> fe_req list) \<Rightarrow> fe_env" where
  "few_env st reqs = \<lparr>fe_rsp = \<lambda>s. st, fe_status = \<lambda>s. few_status, fe_time = \<lambda>s. 2000, fe_hndl = \<lambda>s h. (TXN_STATUS_COMPLETE, reqs h)\<rparr>"

lemma few_reach: "reach fe_init fe_step few"
proof -
  have i: "fe_init (snd (fwEvent_Init (the (fwEvent_Create 1)) 3))"
    unfolding fe_init_def by (intro exI [of _ 1] exI [of _ "the (fwEvent_Create 1)"] exI [of _ 3]) (simp add: fwEvent_Create_def)
  have "fe_step (snd (fwEvent_Init (the (fwEvent_Create 1)) 3)) few" using fe_step.request [of _ FeReqEnableAll] by (simp add: few_def)
  then show ?thesis by (rule reach_step [OF reach_init [of fe_init, OF i]])
qed

lemma few_state: "eSmState few = FWEVENT_STATE_IDLE" "fe_log few = [FeMask (NOT 0x7F)]" "intrStatus few_status AND uEventMask few = 0x50" "fe_handlers 0x50 = [FeCmdComplete, FeRxEvent, FeFreeResources, FeTxResult]"
  by code_simp+

theorem fwEvent_refines_spec_witness:
  "fe_run (fe_log (fwEvent_NewEvent (few_env TXN_STATUS_PENDING (\<lambda>_. [])) few)) fe_sp0 = Some \<lparr>sp_awake = 1, sp_left = 0, sp_due = False, sp_todo = []\<rparr>"
proof -
  let ?s = "fwEvent_NewEvent (few_env TXN_STATUS_PENDING (\<lambda>_. [])) few"
  have "reach fe_init fe_step ?s" by (rule reach_step [OF few_reach fe_step.intr]) (simp add: fe_calm_def few_env_def)
  moreover have "eSmState ?s = FWEVENT_STATE_WAIT_INTR_INFO" "\<not> bIntrPending ?s" "count_list (fe_log ?s) FeStopped = 0" by code_simp+
  ultimately show ?thesis using fwEvent_refines_spec [of ?s] by auto
qed

theorem fwEvent_NewEvent_handles_witness:
  "fe_log (fwEvent_NewEvent (few_env TXN_STATUS_COMPLETE (\<lambda>_. [])) few) =
     [FeMask (NOT 0x7F), FeIntr, FeAwake, FeHwAvailable, FeRead, FeInfo 0x50, FeCall FeCmdComplete, FeCall FeRxEvent, FeCall FeFreeResources, FeCall FeTxResult, FeSleep] \<and>
   fwEvent_TranslateToFwTime (fwEvent_NewEvent (few_env TXN_STATUS_COMPLETE (\<lambda>_. [])) few) (2000 + 7) = 507000"
proof -
  have p: "fe_plain (few_env TXN_STATUS_COMPLETE (\<lambda>_. []))" by (simp add: fe_plain_def few_env_def)
  have d: "fe_status (few_env TXN_STATUS_COMPLETE (\<lambda>_. [])) t = few_status" "fe_time (few_env TXN_STATUS_COMPLETE (\<lambda>_. [])) t = 2000" for t by (simp_all add: few_env_def)
  have f: "fwLocalTime few_status = 500000" by (simp add: few_status_def)
  from fwEvent_NewEvent_handles [OF few_reach few_state(1) p d, of 7] show ?thesis by (simp add: few_state f)
qed

text \<open>A read that fails stops the module without letting the device sleep: the request to keep it awake stays with the bus interface layer.\<close>

lemma fwEvent_error_keeps_awake:
  "fe_log (fwEvent_NewEvent (few_env TXN_STATUS_ERROR (\<lambda>_. [])) few) = [FeMask (NOT 0x7F), FeIntr, FeAwake, FeHwAvailable, FeRead, FeStopped]"
  by code_simp

text \<open>
  A handler that stops the module clears the vector, so that the handlers of other interrupts are not called any more; but the other two handlers of the data
  interrupt are. The device is not allowed to sleep again either.
\<close>

lemma fwEvent_stop_in_data_handler:
  "fe_log (fwEvent_NewEvent (few_env TXN_STATUS_COMPLETE (\<lambda>h. if h = FeRxEvent then [FeReqStop] else [])) few) =
     [FeMask (NOT 0x7F), FeIntr, FeAwake, FeHwAvailable, FeRead, FeInfo 0x50, FeCall FeCmdComplete, FeCall FeRxEvent, FeStopped, FeCall FeFreeResources, FeCall FeTxResult]"
  "fe_log (fwEvent_NewEvent (few_env TXN_STATUS_COMPLETE (\<lambda>h. if h = FeCmdComplete then [FeReqStop] else [])) few) =
     [FeMask (NOT 0x7F), FeIntr, FeAwake, FeHwAvailable, FeRead, FeInfo 0x50, FeCall FeCmdComplete, FeStopped]"
  by code_simp+

end
