(* ===== verification/Wlan_EventMbox.thy ===== *)
theory Wlan_EventMbox
  imports Wlan_FwStatus
begin

text \<open>
  \<open>TWD/FW_Transfer/eventMbox.c\<close>: the firmware's events. The firmware collects events in two buffers, which it publishes in turn; on an interrupt the module reads the buffer that is due, calls the
  function registered for each event of its vector, and acknowledges. The last part of the theory puts the module beside the firmware.

  A buffer is modelled by its vector, its mask and the bytes behind its 16-byte head. The log records the transactions, the commands and the calls of registered functions with the
  bytes handed to them. Parameters are the bus, the status of \<open>cmdBld_CfgEventMask\<close> and the calls that a registered
  function makes into this module. The debug counters, which nothing counts, are left out.
\<close>

section \<open>Data\<close>

definition TWD_OWN_EVENT_ALL :: nat where "TWD_OWN_EVENT_ALL = 31"
definition TWD_OWN_EVENT_MAX :: nat where "TWD_OWN_EVENT_MAX = 32"
definition NUM_OF_RSSI_SNR_TRIGGERS :: nat where "NUM_OF_RSSI_SNR_TRIGGERS = 8"
definition EVENT_MBOX_ALL_EVENT_ID :: u32 where "EVENT_MBOX_ALL_EVENT_ID = 0x7FFFFFFF"
definition REG_EVENT_MAILBOX_PTR :: u32 where "REG_EVENT_MAILBOX_PTR = REGISTERS_BASE + 0x560C"
definition INT_TRIG :: u32 where "INT_TRIG = REGISTERS_BASE + 0x0474"
definition INTR_TRIG_EVENT_ACK :: u32 where "INTR_TRIG_EVENT_ACK = 0x2"

datatype EEventMboxState = EVENT_MBOX_STATE_IDLE | EVENT_MBOX_STATE_READING

record TRegisteredEventCb =
  ev_fCb :: handle
  ev_hCb :: handle
  pDataOffset :: nat

record EventMailBox_t =
  eventsVector :: u32
  eventsMask :: u32
  eventsData :: "u8 list"

text \<open>Offsets of the fields of \<open>EventMailBox_t\<close>, and its size.\<close>

definition dbgEventRep_off :: nat where "dbgEventRep_off = 16"
definition scanCompleteResults_off :: nat where "scanCompleteResults_off = 32"
definition scheduledScanAttendedChannels_off :: nat where "scheduledScanAttendedChannels_off = 40"
definition softGeminiSenseInfo_off :: nat where "softGeminiSenseInfo_off = 42"
definition softGeminiProtectiveInfo_off :: nat where "softGeminiProtectiveInfo_off = 43"
definition RSSISNRTriggerMetric_off :: nat where "RSSISNRTriggerMetric_off = 44"
definition channelSwitchStatus_off :: nat where "channelSwitchStatus_off = 52"
definition psStatus_off :: nat where "psStatus_off = 54"
definition EventMailBox_size :: nat where "EventMailBox_size = 84"

text \<open>The event table: the length of each event's data; the mask of event \<open>i\<close> is its bit, that of the last entry all events.\<close>

definition event_dataLen :: "nat list" where
  "event_dataLen = [1, 1, 1, 1, 1, 1, 1, 1, 0, 0, 8, 3, 0, 1, 0, 0, 0, 0, 0, 0, 0, 0, 1, 1, 0, 0, 16, 0, 8, 8, 0, 0]"

definition event_bitMask :: "nat \<Rightarrow> u32" where
  "event_bitMask i = (if i < TWD_OWN_EVENT_ALL then push_bit i 1 else EVENT_MBOX_ALL_EVENT_ID)"

datatype em_ev =
    EmReadAddr u32
  | EmInitDone handle handle
  | EmRead u32
  | EmCall nat handle handle "u8 list"
  | EmAck u32 u32
  | EmCfgMask u32
  | EmStopped

record tTxnGenReg =
  gr_params :: u32
  gr_hwAddr :: u32
  iRegBuffer :: u32

record tTxnEventMbox =
  em_params :: u32
  em_hwAddr :: u32
  iEventMboxBuf :: EventMailBox_t

record TEventMbox =
  EventMboxAddr :: "u32 list"
  ActiveMbox :: u8
  CurrentState :: EEventMboxState
  CbTable :: "TRegisteredEventCb list"
  iTxnGenRegSize :: tTxnGenReg
  iTxnEventMbox :: tTxnEventMbox
  em_fCb :: handle
  em_hCb :: handle
  em_log :: "em_ev list"

text \<open>The calls that a registered function makes into this module.\<close>

datatype em_req = EmReqStop | EmReqRegister nat handle handle | EmReqReplace nat handle handle | EmReqMask nat | EmReqUnMask nat

text \<open>The bus: its answer, the register that it reads and the buffer at an address; the status of the command; the registered functions.\<close>

record em_env =
  em_rsp :: ti_status
  em_reg :: u32
  em_dev :: "u32 \<Rightarrow> EventMailBox_t"
  em_cfg :: ti_status
  em_cb :: "TEventMbox \<Rightarrow> nat \<Rightarrow> em_req list"

definition em_emit :: "em_ev \<Rightarrow> TEventMbox \<Rightarrow> TEventMbox" where
  "em_emit e s = s\<lparr>em_log := em_log s @ [e]\<rparr>"

abbreviation em_buf :: "TEventMbox \<Rightarrow> EventMailBox_t" where "em_buf s \<equiv> iEventMboxBuf (iTxnEventMbox s)"

definition em_set_buf :: "(EventMailBox_t \<Rightarrow> EventMailBox_t) \<Rightarrow> TEventMbox \<Rightarrow> TEventMbox" where
  "em_set_buf f s = s\<lparr>iTxnEventMbox := (iTxnEventMbox s)\<lparr>iEventMboxBuf := f (em_buf s)\<rparr>\<rparr>"

section \<open>Construction and configuration\<close>

definition eventMbox_Create :: "handle \<Rightarrow> TEventMbox option" where
  "eventMbox_Create mem =
     (if mem = NULL then None
      else Some \<lparr>EventMboxAddr = [0, 0], ActiveMbox = 0, CurrentState = EVENT_MBOX_STATE_IDLE, CbTable = replicate TWD_OWN_EVENT_MAX \<lparr>ev_fCb = NULL, ev_hCb = NULL, pDataOffset = 0\<rparr>,
        iTxnGenRegSize = \<lparr>gr_params = 0, gr_hwAddr = 0, iRegBuffer = 0\<rparr>,
        iTxnEventMbox = \<lparr>em_params = 0, em_hwAddr = 0, iEventMboxBuf = \<lparr>eventsVector = 0, eventsMask = EVENT_MBOX_ALL_EVENT_ID, eventsData = replicate (EventMailBox_size - 16) 0\<rparr>\<rparr>,
        em_fCb = NULL, em_hCb = NULL, em_log = []\<rparr>)"

text \<open>Whether the object is freed.\<close>

definition eventMbox_Destroy :: "TEventMbox option \<Rightarrow> bool" where
  "eventMbox_Destroy s = (s \<noteq> None)"

definition eventMbox_Stop :: "TEventMbox \<Rightarrow> TEventMbox" where
  "eventMbox_Stop s =
     em_emit EmStopped (em_set_buf (\<lambda>b. b\<lparr>eventsVector := 0\<rparr>) (s\<lparr>ActiveMbox := 0, CurrentState := EVENT_MBOX_STATE_IDLE\<rparr>))"

text \<open>The offset of an event's data; \<open>dummy\<close> is \<open>eventMbox_DummyCb\<close> and \<open>self\<close> the module's handle.\<close>

definition event_offset :: "nat \<Rightarrow> nat" where
  "event_offset i =
     (if i < NUM_OF_RSSI_SNR_TRIGGERS then RSSISNRTriggerMetric_off + i
      else if i = 26 then dbgEventRep_off
      else if i = 10 then scanCompleteResults_off
      else if i = 11 then scheduledScanAttendedChannels_off
      else if i = 28 then scanCompleteResults_off
      else if i = 29 then scanCompleteResults_off
      else if i = 22 then softGeminiSenseInfo_off
      else if i = 23 then softGeminiProtectiveInfo_off
      else if i = 17 then channelSwitchStatus_off
      else if i = 13 then psStatus_off
      else 0)"

definition eventMbox_ConfigCbTable :: "handle \<Rightarrow> handle \<Rightarrow> TEventMbox \<Rightarrow> TEventMbox" where
  "eventMbox_ConfigCbTable dummy self s = s\<lparr>CbTable := map (\<lambda>i. \<lparr>ev_fCb = dummy, ev_hCb = self, pDataOffset = event_offset i\<rparr>) [0..<TWD_OWN_EVENT_MAX]\<rparr>"

definition eventMbox_Config :: "handle \<Rightarrow> handle \<Rightarrow> TEventMbox \<Rightarrow> TEventMbox" where
  "eventMbox_Config dummy self s = eventMbox_ConfigCbTable dummy self (s\<lparr>ActiveMbox := 0, CurrentState := EVENT_MBOX_STATE_IDLE\<rparr>)"

definition em_set_addr :: "TEventMbox \<Rightarrow> TEventMbox" where
  "em_set_addr s = s\<lparr>EventMboxAddr := [iRegBuffer (iTxnGenRegSize s), iRegBuffer (iTxnGenRegSize s) + of_nat EventMailBox_size]\<rparr>"

definition em_land_reg :: "u32 \<Rightarrow> TEventMbox \<Rightarrow> TEventMbox" where
  "em_land_reg d s = s\<lparr>iTxnGenRegSize := (iTxnGenRegSize s)\<lparr>iRegBuffer := d\<rparr>\<rparr>"

definition eventMbox_InitMboxAddr :: "em_env \<Rightarrow> TEventMbox \<Rightarrow> handle \<Rightarrow> handle \<Rightarrow> ti_status \<times> TEventMbox" where
  "eventMbox_InitMboxAddr env s f h =
     (let s = s\<lparr>em_fCb := f, em_hCb := h\<rparr>;
          g = iTxnGenRegSize s;
          s = s\<lparr>iTxnGenRegSize := g\<lparr>gr_params := TXN_PARAM_SET (gr_params g) TXN_LOW_PRIORITY TXN_FUNC_ID_WLAN TXN_DIRECTION_READ TXN_INC_ADDR, gr_hwAddr := REG_EVENT_MAILBOX_PTR\<rparr>\<rparr>;
          s = em_emit (EmReadAddr (gr_hwAddr (iTxnGenRegSize s))) s
      in (em_rsp env, if em_rsp env = TXN_STATUS_COMPLETE then em_set_addr (em_land_reg (em_reg env) s) else s))"

definition eventMbox_ReadAddrCb :: "TEventMbox \<Rightarrow> TEventMbox" where
  "eventMbox_ReadAddrCb s = (let s = em_set_addr s in em_emit (EmInitDone (em_fCb s) (em_hCb s)) s)"

definition eventMbox_InitComplete :: "TEventMbox \<Rightarrow> TEventMbox" where
  "eventMbox_InitComplete s = em_emit (EmCfgMask (eventsMask (em_buf s))) s"

section \<open>Registration and masks\<close>

definition em_set_cb :: "nat \<Rightarrow> handle \<Rightarrow> handle \<Rightarrow> TEventMbox \<Rightarrow> TEventMbox" where
  "em_set_cb i f h s = s\<lparr>CbTable := (CbTable s)[i := (CbTable s ! i)\<lparr>ev_fCb := f, ev_hCb := h\<rparr>]\<rparr>"

definition eventMbox_RegisterEvent :: "TEventMbox \<Rightarrow> nat \<Rightarrow> handle \<Rightarrow> handle \<Rightarrow> ti_status \<times> TEventMbox" where
  "eventMbox_RegisterEvent s EvID f h =
     (if f = NULL \<or> h = NULL then (TI_NOK, s)
      else if EvID \<ge> TWD_OWN_EVENT_ALL then (TI_NOK, s)
      else (TI_OK, em_set_cb EvID f h s))"

text \<open>The second result is what the code stores through \<open>pPrevCb\<close> and \<open>pPrevHndl\<close>.\<close>

definition eventMbox_ReplaceEvent :: "TEventMbox \<Rightarrow> nat \<Rightarrow> handle \<Rightarrow> handle \<Rightarrow> ti_status \<times> (handle \<times> handle) option \<times> TEventMbox" where
  "eventMbox_ReplaceEvent s EvID f h =
     (if f = NULL \<or> h = NULL then (TI_NOK, None, s)
      else if EvID \<ge> TWD_OWN_EVENT_ALL then (TI_NOK, None, s)
      else (TI_OK, Some (ev_fCb (CbTable s ! EvID), ev_hCb (CbTable s ! EvID)), em_set_cb EvID f h s))"

definition eventMbox_UnMaskEvent :: "em_env \<Rightarrow> TEventMbox \<Rightarrow> nat \<Rightarrow> ti_status \<times> TEventMbox" where
  "eventMbox_UnMaskEvent env s EvID =
     (if EvID \<ge> TWD_OWN_EVENT_ALL then (TXN_STATUS_ERROR, s)
      else
        let s = em_set_buf (\<lambda>b. b\<lparr>eventsMask := eventsMask b AND NOT (event_bitMask EvID)\<rparr>) s
        in (em_cfg env, em_emit (EmCfgMask (eventsMask (em_buf s))) s))"

definition eventMbox_MaskEvent :: "em_env \<Rightarrow> TEventMbox \<Rightarrow> nat \<Rightarrow> ti_status \<times> TEventMbox" where
  "eventMbox_MaskEvent env s EvID =
     (if EvID \<ge> TWD_OWN_EVENT_ALL then (TXN_STATUS_ERROR, s)
      else
        let s = em_set_buf (\<lambda>b. b\<lparr>eventsMask := eventsMask b OR event_bitMask EvID\<rparr>) s
        in (em_cfg env, em_emit (EmCfgMask (eventsMask (em_buf s))) s))"

fun em_do :: "em_env \<Rightarrow> em_req \<Rightarrow> TEventMbox \<Rightarrow> TEventMbox" where
  "em_do env EmReqStop s = eventMbox_Stop s"
| "em_do env (EmReqRegister i f h) s = snd (eventMbox_RegisterEvent s i f h)"
| "em_do env (EmReqReplace i f h) s = snd (snd (eventMbox_ReplaceEvent s i f h))"
| "em_do env (EmReqMask i) s = snd (eventMbox_MaskEvent env s i)"
| "em_do env (EmReqUnMask i) s = snd (eventMbox_UnMaskEvent env s i)"

section \<open>Events\<close>

text \<open>One event of the table; an event without data is called without a buffer. The bytes of the data lie behind the 16-byte head.\<close>

definition em_event :: "em_env \<Rightarrow> nat \<Rightarrow> TEventMbox \<Rightarrow> TEventMbox" where
  "em_event env EvID s =
     (if eventsVector (em_buf s) AND event_bitMask EvID \<noteq> 0 then
        let c = CbTable s ! EvID;
            s = em_emit (EmCall EvID (ev_fCb c) (ev_hCb c) (take (event_dataLen ! EvID) (drop (pDataOffset c - 16) (eventsData (em_buf s))))) s
        in fold (em_do env) (em_cb env s EvID) s
      else s)"

definition eventMbox_ReadCompleteCB :: "em_env \<Rightarrow> TEventMbox \<Rightarrow> TEventMbox" where
  "eventMbox_ReadCompleteCB env s =
     (let s = em_land_reg INTR_TRIG_EVENT_ACK s;
          s = fold (em_event env) [0..<TWD_OWN_EVENT_ALL] s
      in if CurrentState s = EVENT_MBOX_STATE_IDLE then s
         else
           let s = s\<lparr>CurrentState := EVENT_MBOX_STATE_IDLE\<rparr>;
               g = iTxnGenRegSize s;
               s = s\<lparr>iTxnGenRegSize := g\<lparr>gr_params := TXN_PARAM_SET (gr_params g) TXN_LOW_PRIORITY TXN_FUNC_ID_WLAN TXN_DIRECTION_WRITE TXN_INC_ADDR, gr_hwAddr := INT_TRIG\<rparr>\<rparr>
           in em_emit (EmAck (gr_hwAddr (iTxnGenRegSize s)) (iRegBuffer (iTxnGenRegSize s))) s)"

text \<open>The read of the buffer; the data of a completed read are in the module's buffer. An error of the bus leaves the module in the state \<open>EVENT_MBOX_STATE_READING\<close>.\<close>

definition em_land :: "EventMailBox_t \<Rightarrow> TEventMbox \<Rightarrow> TEventMbox" where
  "em_land d s = em_set_buf (\<lambda>b. d) s"

definition eventMbox_Handle :: "em_env \<Rightarrow> TEventMbox \<Rightarrow> ti_status \<times> TEventMbox" where
  "eventMbox_Handle env s =
     (let s = s\<lparr>CurrentState := EVENT_MBOX_STATE_READING\<rparr>;
          g = iTxnEventMbox s;
          a = EventMboxAddr s ! unat (ActiveMbox s);
          s = s\<lparr>iTxnEventMbox := g\<lparr>em_params := TXN_PARAM_SET (em_params g) TXN_LOW_PRIORITY TXN_FUNC_ID_WLAN TXN_DIRECTION_READ TXN_INC_ADDR, em_hwAddr := a\<rparr>\<rparr>;
          s = em_emit (EmRead (em_hwAddr (iTxnEventMbox s))) s;
          s = (if em_rsp env = TXN_STATUS_COMPLETE then em_land (em_dev env a) s else s);
          s = s\<lparr>ActiveMbox := 1 - ActiveMbox s\<rparr>
      in (TXN_STATUS_COMPLETE, if em_rsp env = TXN_STATUS_COMPLETE then eventMbox_ReadCompleteCB env s else s))"

section \<open>What one read leads to\<close>

text \<open>Functions that make no calls into this module.\<close>

definition em_plain :: "em_env \<Rightarrow> bool" where
  "em_plain env \<longleftrightarrow> (\<forall>s i. em_cb env s i = [])"

text \<open>The calls for a buffer: the events of its vector in ascending order, each with the function registered for it and its bytes.\<close>

definition em_calls :: "TRegisteredEventCb list \<Rightarrow> EventMailBox_t \<Rightarrow> em_ev list" where
  "em_calls cbs b = map (\<lambda>i. EmCall i (ev_fCb (cbs ! i)) (ev_hCb (cbs ! i)) (take (event_dataLen ! i) (drop (pDataOffset (cbs ! i) - 16) (eventsData b))))
     (filter (bit (eventsVector b)) [0..<TWD_OWN_EVENT_ALL])"

lemma event_bit: "i < TWD_OWN_EVENT_ALL \<Longrightarrow> v AND event_bitMask i \<noteq> 0 \<longleftrightarrow> bit v i"
proof -
  assume "i < TWD_OWN_EVENT_ALL"
  then have "event_bitMask i = push_bit i 1" "i < 32" by (simp_all add: event_bitMask_def TWD_OWN_EVENT_ALL_def)
  moreover have "v AND push_bit i 1 \<noteq> 0 \<longleftrightarrow> bit v i" by (simp add: and_exp_eq_0_iff_not_bit push_bit_eq_mult)
  ultimately show ?thesis by simp
qed

definition em_logged :: "em_ev list \<Rightarrow> TEventMbox \<Rightarrow> TEventMbox" where
  "em_logged es s = s\<lparr>em_log := em_log s @ es\<rparr>"

lemma em_logged_simps [simp]:
  "em_logged [] s = s" "em_logged es (em_logged ds s) = em_logged (ds @ es) s" "em_log (em_logged es s) = em_log s @ es" "CbTable (em_logged es s) = CbTable s"
  "iTxnEventMbox (em_logged es s) = iTxnEventMbox s" "CurrentState (em_logged es s) = CurrentState s" "iTxnGenRegSize (em_logged es s) = iTxnGenRegSize s"
  "ActiveMbox (em_logged es s) = ActiveMbox s" "EventMboxAddr (em_logged es s) = EventMboxAddr s"
  by (simp_all add: em_logged_def)

lemma em_emit_logged: "em_emit e s = em_logged [e] s"
  by (simp add: em_emit_def em_logged_def)

lemma em_events_plain:
  assumes p: "em_plain env"
  shows "set is \<subseteq> {..<TWD_OWN_EVENT_ALL} \<Longrightarrow> fold (em_event env) is s =
    em_logged (map (\<lambda>i. EmCall i (ev_fCb (CbTable s ! i)) (ev_hCb (CbTable s ! i)) (take (event_dataLen ! i) (drop (pDataOffset (CbTable s ! i) - 16) (eventsData (em_buf s)))))
      (filter (bit (eventsVector (em_buf s))) is)) s"
proof (induction "is" arbitrary: s)
  case (Cons i "is")
  then have "i < TWD_OWN_EVENT_ALL" by simp
  note b = event_bit [OF this, of "eventsVector (em_buf s)"]
  show ?case
  proof (cases "bit (eventsVector (em_buf s)) i")
    case True
    then show ?thesis using Cons b p by (simp add: em_event_def em_plain_def em_emit_logged Let_def)
  next
    case False
    then have "em_event env i s = s" using b by (simp add: em_event_def)
    then show ?thesis using Cons False by simp
  qed
qed simp

lemma ReadCompleteCB_log:
  assumes "em_plain env" "CurrentState s = EVENT_MBOX_STATE_READING"
  shows "em_log (eventMbox_ReadCompleteCB env s) = em_log s @ em_calls (CbTable s) (em_buf s) @ [EmAck INT_TRIG INTR_TRIG_EVENT_ACK]"
    and "CurrentState (eventMbox_ReadCompleteCB env s) = EVENT_MBOX_STATE_IDLE"
proof -
  let ?s = "em_land_reg INTR_TRIG_EVENT_ACK s"
  have f: "CbTable ?s = CbTable s" "em_buf ?s = em_buf s" "CurrentState ?s = EVENT_MBOX_STATE_READING" "em_log ?s = em_log s" "iRegBuffer (iTxnGenRegSize ?s) = INTR_TRIG_EVENT_ACK"
    using assms(2) by (simp_all add: em_land_reg_def em_emit_def)
  have e: "fold (em_event env) [0..<TWD_OWN_EVENT_ALL] ?s = em_logged (em_calls (CbTable s) (em_buf s)) ?s"
    using em_events_plain [OF assms(1), of "[0..<TWD_OWN_EVENT_ALL]" ?s] by (simp add: f em_calls_def subset_eq)
  show "em_log (eventMbox_ReadCompleteCB env s) = em_log s @ em_calls (CbTable s) (em_buf s) @ [EmAck INT_TRIG INTR_TRIG_EVENT_ACK]"
    "CurrentState (eventMbox_ReadCompleteCB env s) = EVENT_MBOX_STATE_IDLE"
    by (simp_all add: eventMbox_ReadCompleteCB_def Let_def e f em_emit_logged [of "EmAck _ _"])
qed

section \<open>The module beside the firmware\<close>

text \<open>The events that were called, with their bytes, and the acknowledgements.\<close>

definition em_called :: "em_ev list \<Rightarrow> (nat \<times> u8 list) list" where
  "em_called es = concat (map (\<lambda>e. case e of EmCall i f h bs \<Rightarrow> [(i, bs)] | _ \<Rightarrow> []) es)"
definition em_acks :: "em_ev list \<Rightarrow> nat" where
  "em_acks es = length (filter (\<lambda>e. case e of EmAck _ _ \<Rightarrow> True | _ \<Rightarrow> False) es)"

lemma em_called_simps [simp]: "em_called [] = []" "em_called (es @ ds) = em_called es @ em_called ds" "em_acks [] = 0" "em_acks (es @ ds) = em_acks es + em_acks ds"
  by (simp_all add: em_called_def em_acks_def)

text \<open>The events of a buffer: the bits of its vector in ascending order, each with the bytes of its field.\<close>

definition em_hit :: "EventMailBox_t \<Rightarrow> nat \<Rightarrow> nat \<times> u8 list" where
  "em_hit b i = (i, take (event_dataLen ! i) (drop (event_offset i - 16) (eventsData b)))"

definition em_hits :: "EventMailBox_t \<Rightarrow> (nat \<times> u8 list) list" where
  "em_hits b = map (em_hit b) (filter (bit (eventsVector b)) [0..<TWD_OWN_EVENT_ALL])"

text \<open>
  The firmware has no buffer published, has published one, or has published one that the module is reading. \<open>es_cur\<close> is the buffer that is published or will be next;
  \<open>es_pub\<close> are all buffers published so far.
\<close>

datatype em_phase = EmFree | EmPublished | EmReading

record em_sys =
  es_host :: TEventMbox
  es_phase :: em_phase
  es_cur :: nat
  es_mbox :: "nat \<Rightarrow> EventMailBox_t"
  es_pub :: "EventMailBox_t list"

definition em_polite :: "em_env \<Rightarrow> bool" where
  "em_polite env \<longleftrightarrow> (\<forall>s i. EmReqStop \<notin> set (em_cb env s i))"

definition em_reads :: "em_env \<Rightarrow> em_sys \<Rightarrow> bool" where
  "em_reads env x \<longleftrightarrow> (\<forall>i < 2. em_dev env (EventMboxAddr (es_host x) ! i) = es_mbox x i)"

text \<open>The firmware turns to its other buffer when the module acknowledges.\<close>

definition em_answer :: "TEventMbox \<Rightarrow> em_sys \<Rightarrow> em_sys" where
  "em_answer t x =
     (if em_acks (em_log t) > em_acks (em_log (es_host x)) then x\<lparr>es_host := t, es_phase := EmFree, es_cur := 1 - es_cur x\<rparr>
      else x\<lparr>es_host := t, es_phase := EmReading\<rparr>)"

text \<open>A buffer is published only when the one before was acknowledged. The bus does not fail, and no registered function stops the module.\<close>

inductive em_step :: "em_sys \<Rightarrow> em_sys \<Rightarrow> bool" where
  publish: "es_phase x = EmFree \<Longrightarrow> em_step x (x\<lparr>es_mbox := (es_mbox x)(es_cur x := b), es_pub := es_pub x @ [b], es_phase := EmPublished\<rparr>)"
| intr: "es_phase x = EmPublished \<Longrightarrow> em_polite env \<Longrightarrow> em_reads env x \<Longrightarrow> em_rsp env \<in> {TXN_STATUS_COMPLETE, TXN_STATUS_PENDING} \<Longrightarrow>
    em_step x (em_answer (snd (eventMbox_Handle env (es_host x))) x)"
| bus: "es_phase x = EmReading \<Longrightarrow> em_polite env \<Longrightarrow> em_reads env x \<Longrightarrow>
    em_step x (em_answer (eventMbox_ReadCompleteCB env (em_land (em_dev env (em_hwAddr (iTxnEventMbox (es_host x)))) (es_host x))) x)"
| client: "r \<noteq> EmReqStop \<Longrightarrow> em_step x (x\<lparr>es_host := em_do env r (es_host x)\<rparr>)"

definition em_init :: "em_sys \<Rightarrow> bool" where
  "em_init x \<longleftrightarrow> (\<exists>mem s dummy self env f h. eventMbox_Create mem = Some s \<and> em_rsp env = TXN_STATUS_COMPLETE \<and>
     es_host x = snd (eventMbox_InitMboxAddr env (eventMbox_Config dummy self s) f h) \<and> es_phase x = EmFree \<and> es_cur x = 0 \<and> es_pub x = [])"

text \<open>The buffers whose events have been called: all that were published, but for the one in turn while it waits.\<close>

definition em_told :: "em_sys \<Rightarrow> EventMailBox_t list \<Rightarrow> bool" where
  "em_told x bs \<longleftrightarrow> es_pub x = bs @ (if es_phase x = EmFree then [] else [es_mbox x (es_cur x)]) \<and>
     em_called (em_log (es_host x)) = concat (map em_hits bs) \<and> em_acks (em_log (es_host x)) = length bs"

definition em_inv :: "em_sys \<Rightarrow> bool" where
  "em_inv x \<longleftrightarrow> es_cur x < 2 \<and> (\<exists>a. EventMboxAddr (es_host x) = [a, a + of_nat EventMailBox_size]) \<and>
     map pDataOffset (CbTable (es_host x)) = map event_offset [0..<TWD_OWN_EVENT_MAX] \<and>
     (if es_phase x = EmReading then CurrentState (es_host x) = EVENT_MBOX_STATE_READING \<and> ActiveMbox (es_host x) = of_nat (1 - es_cur x) \<and>
        em_hwAddr (iTxnEventMbox (es_host x)) = EventMboxAddr (es_host x) ! es_cur x
      else CurrentState (es_host x) = EVENT_MBOX_STATE_IDLE \<and> ActiveMbox (es_host x) = of_nat (es_cur x)) \<and>
     (\<exists>bs. em_told x bs)"

text \<open>What registered functions that do not stop the module leave unchanged; they may register other functions and change the mask.\<close>

definition em_core :: "TEventMbox \<Rightarrow> (u32 list \<times> u8 \<times> EEventMboxState \<times> u32) \<times> (nat list \<times> u32 \<times> u8 list) \<times> nat" where
  "em_core s = ((EventMboxAddr s, ActiveMbox s, CurrentState s, em_hwAddr (iTxnEventMbox s)),
     (map pDataOffset (CbTable s), eventsVector (em_buf s), eventsData (em_buf s)), em_acks (em_log s))"

lemma em_set_cb_core: "em_core (em_set_cb i f h s) = em_core s" "em_log (em_set_cb i f h s) = em_log s"
proof -
  have "(map pDataOffset (CbTable s))[i := pDataOffset (CbTable s ! i)] = map pDataOffset (CbTable s)"
    by (cases "i < length (CbTable s)") (simp_all flip: map_update)
  then show "em_core (em_set_cb i f h s) = em_core s" "em_log (em_set_cb i f h s) = em_log s"
    by (simp_all add: em_core_def em_set_cb_def map_update)
qed

lemma em_mask_core: "em_core (em_emit (EmCfgMask m) (em_set_buf (\<lambda>b. b\<lparr>eventsMask := k b\<rparr>) s)) = em_core s"
  "em_called (em_log (em_emit (EmCfgMask m) (em_set_buf (\<lambda>b. b\<lparr>eventsMask := k b\<rparr>) s))) = em_called (em_log s)"
  by (simp_all add: em_core_def em_set_buf_def em_emit_def) (simp_all add: em_acks_def em_called_def)

lemma em_do_core: "r \<noteq> EmReqStop \<Longrightarrow> em_core (em_do env r s) = em_core s \<and> em_called (em_log (em_do env r s)) = em_called (em_log s)"
  by (cases r) (simp_all add: eventMbox_RegisterEvent_def eventMbox_ReplaceEvent_def eventMbox_MaskEvent_def eventMbox_UnMaskEvent_def Let_def em_set_cb_core em_mask_core)

lemma em_dos_core: "EmReqStop \<notin> set rs \<Longrightarrow> em_core (fold (em_do env) rs s) = em_core s \<and> em_called (em_log (fold (em_do env) rs s)) = em_called (em_log s)"
  by (induction rs arbitrary: s) (auto simp: em_do_core)

lemma em_event_core:
  assumes "em_polite env" "i < TWD_OWN_EVENT_ALL" "map pDataOffset (CbTable s) = map event_offset [0..<TWD_OWN_EVENT_MAX]"
  shows "em_core (em_event env i s) = em_core s"
    and "em_called (em_log (em_event env i s)) = em_called (em_log s) @ (if bit (eventsVector (em_buf s)) i then [em_hit (em_buf s) i] else [])"
proof -
  have len: "length (CbTable s) = TWD_OWN_EVENT_MAX" using assms(3) by (metis diff_zero length_map length_upt)
  have "map pDataOffset (CbTable s) ! i = event_offset i" using assms(2) by (simp add: assms(3) TWD_OWN_EVENT_ALL_def TWD_OWN_EVENT_MAX_def)
  then have off: "pDataOffset (CbTable s ! i) = event_offset i" using assms(2) len by (simp add: TWD_OWN_EVENT_ALL_def TWD_OWN_EVENT_MAX_def)
  have d: "em_core (fold (em_do env) (em_cb env t i) t) = em_core t \<and> em_called (em_log (fold (em_do env) (em_cb env t i) t)) = em_called (em_log t)" for t
    using assms(1) by (intro em_dos_core) (simp add: em_polite_def)
  have e: "em_core (em_emit (EmCall i f h bs) s) = em_core s" "em_called (em_log (em_emit (EmCall i f h bs) s)) = em_called (em_log s) @ [(i, bs)]" for f h bs
    by (simp_all add: em_core_def em_emit_def) (simp_all add: em_acks_def em_called_def)
  show "em_core (em_event env i s) = em_core s" by (simp add: em_event_def Let_def d e)
  show "em_called (em_log (em_event env i s)) = em_called (em_log s) @ (if bit (eventsVector (em_buf s)) i then [em_hit (em_buf s) i] else [])"
    by (simp add: em_event_def event_bit [OF assms(2)] Let_def d e em_hit_def off)
qed

lemma em_events_core:
  assumes "em_polite env" "map pDataOffset (CbTable s) = map event_offset [0..<TWD_OWN_EVENT_MAX]" "set is \<subseteq> {..<TWD_OWN_EVENT_ALL}"
  shows "em_core (fold (em_event env) is s) = em_core s \<and>
    em_called (em_log (fold (em_event env) is s)) = em_called (em_log s) @ map (em_hit (em_buf s)) (filter (bit (eventsVector (em_buf s))) is)"
  using assms(2,3)
proof (induction "is" arbitrary: s)
  case (Cons i "is")
  then have i: "i < TWD_OWN_EVENT_ALL" "set is \<subseteq> {..<TWD_OWN_EVENT_ALL}" by simp_all
  let ?t = "em_event env i s"
  note e = em_event_core [OF assms(1) i(1) Cons.prems(1)]
  have t: "map pDataOffset (CbTable ?t) = map pDataOffset (CbTable s)" "eventsVector (em_buf ?t) = eventsVector (em_buf s)" "eventsData (em_buf ?t) = eventsData (em_buf s)"
    using e(1) by (simp_all add: em_core_def)
  then have "em_hit (em_buf ?t) = em_hit (em_buf s)" by (simp add: em_hit_def fun_eq_iff)
  then show ?case using Cons.IH [of ?t] Cons.prems(1) i(2) t e by simp
qed simp

lemma ReadCompleteCB_core:
  assumes "em_polite env" "CurrentState s = EVENT_MBOX_STATE_READING" "map pDataOffset (CbTable s) = map event_offset [0..<TWD_OWN_EVENT_MAX]"
  shows "em_core (eventMbox_ReadCompleteCB env s) =
      ((EventMboxAddr s, ActiveMbox s, EVENT_MBOX_STATE_IDLE, em_hwAddr (iTxnEventMbox s)), (map pDataOffset (CbTable s), eventsVector (em_buf s), eventsData (em_buf s)), Suc (em_acks (em_log s)))"
    and "em_called (em_log (eventMbox_ReadCompleteCB env s)) = em_called (em_log s) @ em_hits (em_buf s)"
proof -
  let ?s = "em_land_reg INTR_TRIG_EVENT_ACK s"
  define t where "t = fold (em_event env) [0..<TWD_OWN_EVENT_ALL] ?s"
  have f: "em_core ?s = em_core s" "em_log ?s = em_log s" "em_buf ?s = em_buf s" "map pDataOffset (CbTable ?s) = map event_offset [0..<TWD_OWN_EVENT_MAX]"
    using assms(3) by (simp_all add: em_core_def em_land_reg_def)
  have "em_core t = em_core ?s \<and> em_called (em_log t) = em_called (em_log ?s) @ map (em_hit (em_buf ?s)) (filter (bit (eventsVector (em_buf ?s))) [0..<TWD_OWN_EVENT_ALL])"
    unfolding t_def using f(4) by (intro em_events_core [OF assms(1)]) auto
  then have c: "em_core t = em_core s" "em_called (em_log t) = em_called (em_log s) @ em_hits (em_buf s)" by (simp_all add: f em_hits_def)
  have "CurrentState t \<noteq> EVENT_MBOX_STATE_IDLE" using c(1) assms(2) by (simp add: em_core_def)
  then have r: "eventMbox_ReadCompleteCB env s = (let s = t\<lparr>CurrentState := EVENT_MBOX_STATE_IDLE\<rparr>;
      g = iTxnGenRegSize s;
      s = s\<lparr>iTxnGenRegSize := g\<lparr>gr_params := TXN_PARAM_SET (gr_params g) TXN_LOW_PRIORITY TXN_FUNC_ID_WLAN TXN_DIRECTION_WRITE TXN_INC_ADDR, gr_hwAddr := INT_TRIG\<rparr>\<rparr>
    in em_emit (EmAck (gr_hwAddr (iTxnGenRegSize s)) (iRegBuffer (iTxnGenRegSize s))) s)"
    by (simp add: eventMbox_ReadCompleteCB_def Let_def t_def [symmetric])
  have a: "em_acks [EmAck u v] = 1" "em_called [EmAck u v] = []" for u v by (simp_all add: em_acks_def em_called_def)
  show "em_core (eventMbox_ReadCompleteCB env s) =
      ((EventMboxAddr s, ActiveMbox s, EVENT_MBOX_STATE_IDLE, em_hwAddr (iTxnEventMbox s)), (map pDataOffset (CbTable s), eventsVector (em_buf s), eventsData (em_buf s)), Suc (em_acks (em_log s)))"
    using c(1) by (simp add: r Let_def em_core_def em_emit_def a)
  show "em_called (em_log (eventMbox_ReadCompleteCB env s)) = em_called (em_log s) @ em_hits (em_buf s)"
    using c(2) by (simp add: r Let_def em_emit_def a)
qed

text \<open>The module has asked for the buffer at \<open>a\<close> and turned to the other one.\<close>

definition em_asked :: "TEventMbox \<Rightarrow> u32 \<Rightarrow> TEventMbox" where
  "em_asked s a = em_logged [EmRead a] (s\<lparr>CurrentState := EVENT_MBOX_STATE_READING, ActiveMbox := 1 - ActiveMbox s,
     iTxnEventMbox := (iTxnEventMbox s)\<lparr>em_params := TXN_PARAM_SET (em_params (iTxnEventMbox s)) TXN_LOW_PRIORITY TXN_FUNC_ID_WLAN TXN_DIRECTION_READ TXN_INC_ADDR, em_hwAddr := a\<rparr>\<rparr>)"

lemma Handle_eq:
  "eventMbox_Handle env s = (let a = EventMboxAddr s ! unat (ActiveMbox s); t = em_asked s a in
     (TXN_STATUS_COMPLETE, if em_rsp env = TXN_STATUS_COMPLETE then eventMbox_ReadCompleteCB env (em_land (em_dev env a) t) else t))"
  by (cases s) (simp add: eventMbox_Handle_def Let_def em_asked_def em_emit_def em_logged_def em_land_def em_set_buf_def)

lemma em_asked_fields [simp]:
  "CurrentState (em_asked s a) = EVENT_MBOX_STATE_READING" "ActiveMbox (em_asked s a) = 1 - ActiveMbox s" "EventMboxAddr (em_asked s a) = EventMboxAddr s" "CbTable (em_asked s a) = CbTable s"
  "em_hwAddr (iTxnEventMbox (em_asked s a)) = a" "em_log (em_asked s a) = em_log s @ [EmRead a]" "em_called (em_log (em_asked s a)) = em_called (em_log s)" "em_acks (em_log (em_asked s a)) = em_acks (em_log s)"
  by (simp_all add: em_asked_def) (simp_all add: em_called_def em_acks_def)

lemma em_read_log [simp]: "em_called [EmRead a] = []" "em_acks [EmRead a] = 0"
  by (simp_all add: em_called_def em_acks_def)

lemma em_land_fields [simp]:
  "CurrentState (em_land d s) = CurrentState s" "ActiveMbox (em_land d s) = ActiveMbox s" "EventMboxAddr (em_land d s) = EventMboxAddr s" "em_hwAddr (iTxnEventMbox (em_land d s)) = em_hwAddr (iTxnEventMbox s)"
  "em_log (em_land d s) = em_log s" "em_buf (em_land d s) = d" "CbTable (em_land d s) = CbTable s"
  by (simp_all add: em_land_def em_set_buf_def)

lemma other_mbox: "i < 2 \<Longrightarrow> (1 :: u8) - of_nat i = of_nat (1 - i)" "i < 2 \<Longrightarrow> unat (of_nat i :: u8) = i" "i < 2 \<Longrightarrow> 1 - (1 - i) = (i :: nat)"
  by (auto simp: less_Suc_eq numeral_2_eq_2)

text \<open>The buffer has been read: its events are called and it is acknowledged.\<close>

lemma em_complete_inv:
  assumes p: "em_polite env" and c: "es_cur x < 2" and s: "CurrentState s = EVENT_MBOX_STATE_READING" "ActiveMbox s = of_nat (1 - es_cur x)" "em_buf s = es_mbox x (es_cur x)"
    "em_called (em_log s) = em_called (em_log (es_host x))" "em_acks (em_log s) = em_acks (em_log (es_host x))" "EventMboxAddr s = [a, a + of_nat EventMailBox_size]"
    "map pDataOffset (CbTable s) = map event_offset [0..<TWD_OWN_EVENT_MAX]"
    and told: "em_told x bs" "es_phase x \<noteq> EmFree"
  shows "em_inv (em_answer (eventMbox_ReadCompleteCB env s) x)" "es_phase (em_answer (eventMbox_ReadCompleteCB env s) x) = EmFree"
proof -
  let ?t = "eventMbox_ReadCompleteCB env s"
  note r = ReadCompleteCB_core [OF p s(1,7)]
  have t: "EventMboxAddr ?t = EventMboxAddr s" "ActiveMbox ?t = ActiveMbox s" "CurrentState ?t = EVENT_MBOX_STATE_IDLE" "map pDataOffset (CbTable ?t) = map pDataOffset (CbTable s)"
    "em_acks (em_log ?t) = Suc (em_acks (em_log s))" using r(1) by (simp_all add: em_core_def)
  have ans: "em_answer ?t x = x\<lparr>es_host := ?t, es_phase := EmFree, es_cur := 1 - es_cur x\<rparr>" using t(5) s(5) by (simp add: em_answer_def)
  have "em_told (em_answer ?t x) (bs @ [es_mbox x (es_cur x)])" using told t(5) r(2) s(3-5) unfolding em_told_def ans by simp
  then show "em_inv (em_answer ?t x)" using t s c unfolding em_inv_def ans by auto
  show "es_phase (em_answer ?t x) = EmFree" unfolding ans by simp
qed

lemma em_intr_inv:
  assumes i: "em_inv x" and ph: "es_phase x = EmPublished" and p: "em_polite env" "em_reads env x" "em_rsp env \<in> {TXN_STATUS_COMPLETE, TXN_STATUS_PENDING}"
  shows "em_inv (em_answer (snd (eventMbox_Handle env (es_host x))) x)"
    and "em_rsp env = TXN_STATUS_COMPLETE \<Longrightarrow> es_phase (em_answer (snd (eventMbox_Handle env (es_host x))) x) = EmFree"
proof -
  let ?s = "es_host x" and ?i = "es_cur x"
  obtain a bs where a: "EventMboxAddr ?s = [a, a + of_nat EventMailBox_size]" and told: "em_told x bs" using i by (auto simp: em_inv_def)
  have c: "?i < 2" and act: "ActiveMbox ?s = of_nat ?i" and off: "map pDataOffset (CbTable ?s) = map event_offset [0..<TWD_OWN_EVENT_MAX]"
    using i ph by (simp_all add: em_inv_def)
  have un: "unat (ActiveMbox ?s) = ?i" using c act by (simp add: other_mbox(2))
  have act': "1 - ActiveMbox ?s = of_nat (1 - ?i)" using c act by (simp only: other_mbox(1))
  have dev: "em_dev env (EventMboxAddr ?s ! ?i) = es_mbox x ?i" using c p(2) by (simp add: em_reads_def)
  let ?t = "em_asked ?s (EventMboxAddr ?s ! ?i)"
  have h: "snd (eventMbox_Handle env ?s) = (if em_rsp env = TXN_STATUS_COMPLETE then eventMbox_ReadCompleteCB env (em_land (es_mbox x ?i) ?t) else ?t)"
    unfolding Handle_eq Let_def un dev by simp
  have sync: "em_inv (em_answer (eventMbox_ReadCompleteCB env (em_land (es_mbox x ?i) ?t)) x)" "es_phase (em_answer (eventMbox_ReadCompleteCB env (em_land (es_mbox x ?i) ?t)) x) = EmFree"
    by (rule em_complete_inv [OF p(1) c _ _ _ _ _ _ _ told, where a = a]; simp add: a act' off ph)+
  have ans: "em_answer ?t x = x\<lparr>es_host := ?t, es_phase := EmReading\<rparr>" by (simp add: em_answer_def)
  have "em_told (em_answer ?t x) bs" using told ph unfolding em_told_def ans by simp
  then have "em_inv (em_answer ?t x)" using c a act' off unfolding em_inv_def ans by auto
  with sync show "em_inv (em_answer (snd (eventMbox_Handle env ?s)) x)" unfolding h by simp
  show "em_rsp env = TXN_STATUS_COMPLETE \<Longrightarrow> es_phase (em_answer (snd (eventMbox_Handle env ?s)) x) = EmFree" unfolding h using sync by simp
qed

lemma em_bus_inv:
  assumes i: "em_inv x" and ph: "es_phase x = EmReading" and p: "em_polite env" "em_reads env x"
  shows "em_inv (em_answer (eventMbox_ReadCompleteCB env (em_land (em_dev env (em_hwAddr (iTxnEventMbox (es_host x)))) (es_host x))) x)"
    "es_phase (em_answer (eventMbox_ReadCompleteCB env (em_land (em_dev env (em_hwAddr (iTxnEventMbox (es_host x)))) (es_host x))) x) = EmFree"
proof -
  let ?s = "es_host x" and ?i = "es_cur x"
  obtain a bs where a: "EventMboxAddr ?s = [a, a + of_nat EventMailBox_size]" and told: "em_told x bs" using i by (auto simp: em_inv_def)
  have c: "?i < 2" and s: "CurrentState ?s = EVENT_MBOX_STATE_READING" "ActiveMbox ?s = of_nat (1 - ?i)" "em_hwAddr (iTxnEventMbox ?s) = EventMboxAddr ?s ! ?i"
    and off: "map pDataOffset (CbTable ?s) = map event_offset [0..<TWD_OWN_EVENT_MAX]" using i ph by (simp_all add: em_inv_def)
  have d: "em_dev env (em_hwAddr (iTxnEventMbox ?s)) = es_mbox x ?i" using p(2) c s(3) by (simp add: em_reads_def)
  show "em_inv (em_answer (eventMbox_ReadCompleteCB env (em_land (em_dev env (em_hwAddr (iTxnEventMbox ?s))) ?s)) x)"
    "es_phase (em_answer (eventMbox_ReadCompleteCB env (em_land (em_dev env (em_hwAddr (iTxnEventMbox ?s))) ?s)) x) = EmFree"
    unfolding d by (rule em_complete_inv [OF p(1) c _ _ _ _ _ _ _ told, where a = a]; simp add: a s off ph)+
qed

lemma em_step_inv:
  assumes i: "em_inv x" and s: "em_step x y"
  shows "em_inv y"
  using s
proof cases
  case (publish b)
  then show ?thesis using i by (auto simp: em_inv_def em_told_def)
next
  case (intr env)
  then show ?thesis using em_intr_inv(1) [OF i] by simp
next
  case (bus env)
  then show ?thesis using em_bus_inv [OF i] by simp
next
  case (client r env)
  then show ?thesis using i em_do_core [of r env "es_host x"] by (auto simp: em_inv_def em_told_def em_core_def)
qed

lemma em_init_inv: "em_init x \<Longrightarrow> em_inv x"
  by (auto simp: em_init_def em_inv_def eventMbox_Create_def eventMbox_InitMboxAddr_def eventMbox_Config_def eventMbox_ConfigCbTable_def em_set_addr_def em_land_reg_def em_emit_def em_told_def em_called_def
      em_acks_def Let_def split: if_splits)

interpretation evm: state_invariant em_init em_step em_inv
  by unfold_locales (auto intro: em_init_inv em_step_inv)

section \<open>The properties\<close>

text \<open>
  C19: in every run in which the bus does not fail and no registered function or client stops the module, and the firmware publishes a buffer only after the one before was
  acknowledged, the module and the firmware agree on the buffer in turn. The calls of registered functions made so far are, with the event and the bytes of each, exactly the
  events of the published buffers, buffer after buffer and in ascending order of the events, and there is one acknowledgement for each of these buffers; only the buffer in
  turn may be published and not called yet. When the bus answers, at once or later, the calls for it have been made too, it has been acknowledged, and the firmware is free to publish
  the next.
\<close>

theorem eventMbox_in_step:
  assumes "reach em_init em_step x" "em_polite env" "em_reads env x"
  shows "(\<exists>bs. es_pub x = bs @ (if es_phase x = EmFree then [] else [es_mbox x (es_cur x)]) \<and>
      em_called (em_log (es_host x)) = concat (map em_hits bs) \<and> em_acks (em_log (es_host x)) = length bs) \<and>
    (es_phase x \<noteq> EmReading \<longrightarrow> ActiveMbox (es_host x) = of_nat (es_cur x)) \<and>
    (es_phase x = EmPublished \<and> em_rsp env = TXN_STATUS_COMPLETE \<longrightarrow> (let t = snd (eventMbox_Handle env (es_host x)) in
       em_called (em_log t) = concat (map em_hits (es_pub x)) \<and> em_acks (em_log t) = length (es_pub x) \<and> es_phase (em_answer t x) = EmFree)) \<and>
    (es_phase x = EmReading \<longrightarrow> (let t = eventMbox_ReadCompleteCB env (em_land (em_dev env (em_hwAddr (iTxnEventMbox (es_host x)))) (es_host x)) in
       em_called (em_log t) = concat (map em_hits (es_pub x)) \<and> em_acks (em_log t) = length (es_pub x) \<and> es_phase (em_answer t x) = EmFree))"
proof -
  have i: "em_inv x" by (rule evm.reach_invar [OF assms(1)])
  have done_if: "em_called (em_log t) = concat (map em_hits (es_pub x)) \<and> em_acks (em_log t) = length (es_pub x) \<and> es_phase (em_answer t x) = EmFree"
    if "em_inv (em_answer t x)" "es_phase (em_answer t x) = EmFree" for t
    using that by (auto simp: em_inv_def em_told_def em_answer_def split: if_splits)
  have told: "\<exists>bs. em_told x bs" and act: "es_phase x \<noteq> EmReading \<longrightarrow> ActiveMbox (es_host x) = of_nat (es_cur x)" using i by (simp_all add: em_inv_def)
  have sync: "es_phase x = EmPublished \<and> em_rsp env = TXN_STATUS_COMPLETE \<longrightarrow> (let t = snd (eventMbox_Handle env (es_host x)) in
       em_called (em_log t) = concat (map em_hits (es_pub x)) \<and> em_acks (em_log t) = length (es_pub x) \<and> es_phase (em_answer t x) = EmFree)"
    unfolding Let_def using em_intr_inv [OF i _ assms(2,3)] by (intro impI done_if) simp_all
  show ?thesis using told [unfolded em_told_def] act sync em_bus_inv [OF i _ assms(2,3)] done_if unfolding Let_def by blast
qed

text \<open>
  C20: when the bus reads at once and the registered functions make no calls into the module, an interrupt reads the buffer in turn, calls for each bit of its vector, in
  ascending order, the function registered for that event with the event's bytes of the buffer, and then acknowledges; nothing else is called.
\<close>

theorem eventMbox_Handle_calls:
  assumes "em_plain env" "em_rsp env = TXN_STATUS_COMPLETE"
  shows "let a = EventMboxAddr s ! unat (ActiveMbox s); b = em_dev env a; t = snd (eventMbox_Handle env s) in
    em_log t = em_log s @ [EmRead a] @ em_calls (CbTable s) b @ [EmAck INT_TRIG INTR_TRIG_EVENT_ACK] \<and> CurrentState t = EVENT_MBOX_STATE_IDLE"
  using assms ReadCompleteCB_log [OF assms(1)] by (simp add: Handle_eq Let_def)

section \<open>A run\<close>

text \<open>Functions are registered for two events; the firmware publishes a buffer with these events.\<close>

definition emw_env :: "ti_status \<Rightarrow> (u32 \<Rightarrow> EventMailBox_t) \<Rightarrow> em_env" where
  "emw_env st dev = \<lparr>em_rsp = st, em_reg = 0x2000, em_dev = dev, em_cfg = TI_OK, em_cb = \<lambda>s i. []\<rparr>"
definition emw_box :: EventMailBox_t where
  "emw_box = \<lparr>eventsVector = 0x10C00, eventsMask = 0, eventsData = map of_nat [16..<84]\<rparr>"
definition emw_start :: TEventMbox where
  "emw_start = snd (eventMbox_InitMboxAddr (emw_env TXN_STATUS_COMPLETE (\<lambda>_. emw_box)) (eventMbox_Config 9 9 (the (eventMbox_Create 1))) 1 1)"
definition emw_host :: TEventMbox where
  "emw_host = em_do (emw_env TXN_STATUS_COMPLETE (\<lambda>_. emw_box)) (EmReqRegister 10 5 6) emw_start"
definition emw0 :: em_sys where
  "emw0 = \<lparr>es_host = emw_start, es_phase = EmFree, es_cur = 0, es_mbox = \<lambda>_. emw_box, es_pub = []\<rparr>"
definition emw :: em_sys where
  "emw = \<lparr>es_host = emw_host, es_phase = EmPublished, es_cur = 0, es_mbox = (\<lambda>_. emw_box)(0 := emw_box), es_pub = [emw_box]\<rparr>"

lemma emw_reach: "reach em_init em_step emw"
proof -
  have "em_init emw0" unfolding em_init_def emw0_def emw_start_def
    by (intro exI [of _ 1] exI [of _ "the (eventMbox_Create 1)"] exI [of _ 9] exI [of _ "emw_env TXN_STATUS_COMPLETE (\<lambda>_. emw_box)"]) (auto simp: eventMbox_Create_def emw_env_def)
  then have "reach em_init em_step emw0" by (rule reach_init)
  from reach_step [OF this em_step.client [of "EmReqRegister 10 5 6" _ "emw_env TXN_STATUS_COMPLETE (\<lambda>_. emw_box)"]]
  have "reach em_init em_step (emw0\<lparr>es_host := emw_host\<rparr>)" by (simp add: emw_host_def emw0_def)
  from reach_step [OF this em_step.publish [of _ emw_box]] show ?thesis by (simp add: emw0_def emw_def)
qed

theorem eventMbox_in_step_witness:
  "let t = snd (eventMbox_Handle (emw_env TXN_STATUS_COMPLETE (\<lambda>_. emw_box)) emw_host) in
   em_called (em_log t) = em_hits emw_box \<and> em_acks (em_log t) = 1 \<and> es_phase (em_answer t emw) = EmFree"
proof -
  have e: "em_polite (emw_env TXN_STATUS_COMPLETE (\<lambda>_. emw_box))" "em_reads (emw_env TXN_STATUS_COMPLETE (\<lambda>_. emw_box)) emw" "em_rsp (emw_env TXN_STATUS_COMPLETE (\<lambda>_. emw_box)) = TXN_STATUS_COMPLETE"
    by (simp_all add: em_polite_def emw_env_def em_reads_def emw_def)
  have f: "es_phase emw = EmPublished" "es_host emw = emw_host" "es_pub emw = [emw_box]" by (simp_all add: emw_def)
  from eventMbox_in_step [OF emw_reach e(1,2)] show ?thesis by (simp add: e(3) f)
qed

theorem eventMbox_Handle_calls_witness:
  "em_log (snd (eventMbox_Handle (emw_env TXN_STATUS_COMPLETE (\<lambda>_. emw_box)) emw_host)) =
     [EmReadAddr 0x30560C, EmRead 0x2000, EmCall 10 5 6 [32, 33, 34, 35, 36, 37, 38, 39], EmCall 11 9 9 [40, 41, 42], EmCall 16 9 9 [], EmAck 0x300474 2]"
proof -
  have p: "em_plain (emw_env TXN_STATUS_COMPLETE (\<lambda>_. emw_box))" "em_rsp (emw_env TXN_STATUS_COMPLETE (\<lambda>_. emw_box)) = TXN_STATUS_COMPLETE" "em_dev (emw_env TXN_STATUS_COMPLETE (\<lambda>_. emw_box)) a = emw_box" for a
    by (simp_all add: em_plain_def emw_env_def)
  have c: "em_log emw_host = [EmReadAddr 0x30560C]" "EventMboxAddr emw_host ! unat (ActiveMbox emw_host) = 0x2000" "EmAck INT_TRIG INTR_TRIG_EVENT_ACK = EmAck 0x300474 2"
    "em_calls (CbTable emw_host) emw_box = [EmCall 10 5 6 [32, 33, 34, 35, 36, 37, 38, 39], EmCall 11 9 9 [40, 41, 42], EmCall 16 9 9 []]" by code_simp+
  from eventMbox_Handle_calls [OF p(1,2), of emw_host] show ?thesis by (simp add: p c Let_def)
qed

text \<open>
  The events of both buffers in one vector of interrupts: \<open>fwEvent_CallHandlers\<close> calls \<open>eventMbox_Handle\<close> twice, and while the first read is pending the second call changes the address of the
  same transaction structure and submits it again.
\<close>

lemma eventMbox_Handle_twice:
  "let s = snd (eventMbox_Handle (emw_env TXN_STATUS_PENDING (\<lambda>_. emw_box)) emw_host); t = snd (eventMbox_Handle (emw_env TXN_STATUS_PENDING (\<lambda>_. emw_box)) s) in
   em_log t = [EmReadAddr 0x30560C, EmRead 0x2000, EmRead 0x2054] \<and> em_hwAddr (iTxnEventMbox s) = 0x2000 \<and> em_hwAddr (iTxnEventMbox t) = 0x2054"
  by code_simp

text \<open>A registered function that stops the module ends the calls for the buffer, and no acknowledgement is sent.\<close>

lemma eventMbox_stop_in_callback:
  "em_log (snd (eventMbox_Handle (emw_env TXN_STATUS_COMPLETE (\<lambda>_. emw_box) \<lparr>em_cb := \<lambda>s i. if i = 10 then [EmReqStop] else []\<rparr>) emw_host)) =
     [EmReadAddr 0x30560C, EmRead 0x2000, EmCall 10 5 6 [32, 33, 34, 35, 36, 37, 38, 39], EmStopped]"
  by code_simp

end
