(* ===== verification/Wlan_TxnQueue.thy ===== *)
theory Wlan_TxnQueue
  imports Wlan_Bus
begin

text \<open>
  \<open>Txn/TxnQueue.c\<close>: the transaction queue between the functional drivers (WLAN, BT, bus control) and the bus
  driver. Each function has up to two priority queues and one single-step slot; the scheduler hands
  transactions to the bus one at a time, and reports completed ones to the functions' callbacks from a done queue.

  The queues of \<open>utils/queue.c\<close> are the lists that the theory \<open>Wlan_Queue\<close> shows them to be: a slot
  of \<open>aTxnQueues\<close> is \<open>None\<close> where the handle is \<open>NULL\<close>, \<open>que_Enqueue\<close> refuses an item that is linked in a
  queue already, and no handle means a refused item and no item. A transaction is the fields of \<open>TTxnStruct\<close> that the
  module reads, with its address; pointers are compared by it. The state carries a log of what the module
  does: accepted, sent, completed and reported transactions.

  The bus driver's answers and what the callbacks do are parameters (\<open>txn_env\<close>), functions of the whole
  state, so that nothing is assumed of them. A callback is the list of calls it makes into the module,
  among them the bus completion that may arrive meanwhile from another context.
\<close>

section \<open>Data\<close>

definition MAX_FUNCTIONS :: nat where "MAX_FUNCTIONS = 4"
definition MAX_PRIORITY :: nat where "MAX_PRIORITY = 2"
definition TXN_QUE_SIZE :: int where "TXN_QUE_SIZE = 0xFFFFFFFF"
definition TXN_PARAM_STATUS_RECOVERY :: u32 where "TXN_PARAM_STATUS_RECOVERY = 2"

datatype EFuncState = FUNC_STATE_NONE | FUNC_STATE_STOPPED | FUNC_STATE_RUNNING | FUNC_STATE_RESTART

record TTxnStruct =
  txn_addr :: handle
  uTxnParams :: u32
  uHwAddr :: u32
  fTxnDoneCb :: handle

record TFuncInfo =
  eState :: EFuncState
  uNumPrios :: u32
  fTxnQueueDoneCb :: handle
  hCbHandle :: handle
  pSingleStep :: "TTxnStruct option"

datatype txn_ev =
    EvAccept TTxnStruct
  | EvSent TTxnStruct
  | EvReturn TTxnStruct
  | EvComplete TTxnStruct
  | EvReport TTxnStruct
  | EvLost TTxnStruct
  | EvRecovered TTxnStruct
  | EvClear nat

text \<open>\<open>pAggregQueue\<close> names the queue by its place in \<open>aTxnQueues\<close>.\<close>

record TTxnQObj =
  hBusDrv :: handle
  aFuncInfo :: "TFuncInfo list"
  aTxnQueues :: "TTxnStruct list option list list"
  hTxnDoneQueue :: "TTxnStruct list option"
  pCurrTxn :: "TTxnStruct option"
  uMinFuncId :: u32
  uMaxFuncId :: u32
  bSchedulerBusy :: bool
  bSchedulerPend :: bool
  fConnectCb :: handle
  hConnectCb :: handle
  pAggregQueue :: "(nat \<times> nat) option"
  txn_log :: "txn_ev list"

definition txn_func :: "TTxnStruct \<Rightarrow> nat" where
  "txn_func x = unat (TXN_PARAM_GET_FUNC_ID (uTxnParams x))"
definition txn_prio :: "TTxnStruct \<Rightarrow> nat" where
  "txn_prio x = unat (TXN_PARAM_GET_PRIORITY (uTxnParams x))"
definition txn_single :: "TTxnStruct \<Rightarrow> bool" where
  "txn_single x \<longleftrightarrow> TXN_PARAM_GET_SINGLE_STEP (uTxnParams x) \<noteq> 0"
definition txn_aggregate :: "TTxnStruct \<Rightarrow> u32" where
  "txn_aggregate x = TXN_PARAM_GET_AGGREGATE (uTxnParams x)"

definition func_info :: "TTxnQObj \<Rightarrow> nat \<Rightarrow> TFuncInfo" where
  "func_info q f = aFuncInfo q ! f"
definition upd_func :: "nat \<Rightarrow> (TFuncInfo \<Rightarrow> TFuncInfo) \<Rightarrow> TTxnQObj \<Rightarrow> TTxnQObj" where
  "upd_func f h q = q\<lparr>aFuncInfo := (aFuncInfo q)[f := h (func_info q f)]\<rparr>"
definition txn_queue :: "TTxnQObj \<Rightarrow> nat \<Rightarrow> nat \<Rightarrow> TTxnStruct list option" where
  "txn_queue q f p = aTxnQueues q ! f ! p"
definition set_queue :: "nat \<Rightarrow> nat \<Rightarrow> TTxnStruct list option \<Rightarrow> TTxnQObj \<Rightarrow> TTxnQObj" where
  "set_queue f p v q = q\<lparr>aTxnQueues := (aTxnQueues q)[f := (aTxnQueues q ! f)[p := v]]\<rparr>"
definition emit :: "txn_ev \<Rightarrow> TTxnQObj \<Rightarrow> TTxnQObj" where
  "emit e q = q\<lparr>txn_log := txn_log q @ [e]\<rparr>"

text \<open>A transaction is linked when it is in one of the module's queues.\<close>

definition queue_items :: "TTxnStruct list option \<Rightarrow> TTxnStruct list" where
  "queue_items v = (case v of None \<Rightarrow> [] | Some xs \<Rightarrow> xs)"
definition linked :: "TTxnQObj \<Rightarrow> TTxnStruct \<Rightarrow> bool" where
  "linked q x \<longleftrightarrow> txn_addr x \<in> txn_addr ` (set (concat (map queue_items (concat (aTxnQueues q)))) \<union> set (queue_items (hTxnDoneQueue q)))"

text \<open>\<open>que_Enqueue\<close> on a slot; \<open>None\<close> is the result \<open>TI_NOK\<close>.\<close>

definition slot_put :: "TTxnQObj \<Rightarrow> TTxnStruct list option \<Rightarrow> TTxnStruct \<Rightarrow> TTxnStruct list option" where
  "slot_put q v x =
     (case v of None \<Rightarrow> None | Some xs \<Rightarrow> if int (length xs) < TXN_QUE_SIZE \<and> \<not> linked q x then Some (xs @ [x]) else None)"

section \<open>Construction\<close>

definition zero_func :: TFuncInfo where
  "zero_func = \<lparr>eState = FUNC_STATE_NONE, uNumPrios = 0, fTxnQueueDoneCb = NULL, hCbHandle = NULL, pSingleStep = None\<rparr>"

text \<open>The arguments are what \<open>os_memoryAlloc\<close> and \<open>busDrv_Create\<close> return.\<close>

definition txnQ_Create :: "handle \<Rightarrow> handle \<Rightarrow> TTxnQObj option" where
  "txnQ_Create mem bus =
     (if mem = NULL then None
      else if bus = NULL then None
      else Some \<lparr>hBusDrv = bus, aFuncInfo = replicate MAX_FUNCTIONS zero_func,
        aTxnQueues = replicate MAX_FUNCTIONS (replicate MAX_PRIORITY None), hTxnDoneQueue = None, pCurrTxn = None,
        uMinFuncId = of_nat MAX_FUNCTIONS, uMaxFuncId = 0, bSchedulerBusy = False, bSchedulerPend = False,
        fConnectCb = NULL, hConnectCb = NULL, pAggregQueue = None, txn_log = []\<rparr>)"

text \<open>What is released: the bus driver, the done queue, the object.\<close>

fun txnQ_Destroy :: "TTxnQObj option \<Rightarrow> ti_status \<times> (bool \<times> bool \<times> bool)" where
  "txnQ_Destroy None = (TI_OK, (False, False, False))"
| "txnQ_Destroy (Some q) = (TI_OK, (hBusDrv q \<noteq> NULL, hTxnDoneQueue q \<noteq> None, True))"

text \<open>\<open>ok\<close>: whether \<open>que_Create\<close> succeeds.\<close>

definition txnQ_Init :: "TTxnQObj \<Rightarrow> bool \<Rightarrow> TTxnQObj" where
  "txnQ_Init q ok = q\<lparr>hTxnDoneQueue := if ok then Some [] else None\<rparr>"

definition txnQ_ConnectBus :: "TTxnQObj \<Rightarrow> ti_status \<Rightarrow> handle \<Rightarrow> handle \<Rightarrow> ti_status \<times> TTxnQObj" where
  "txnQ_ConnectBus q rc fCb hCb = (rc, q\<lparr>fConnectCb := fCb, hConnectCb := hCb\<rparr>)"

text \<open>\<open>rc\<close>: what the bus driver's disconnection returns. The connection callback's call is its result: function, handle and argument.\<close>

definition txnQ_DisconnectBus :: "TTxnQObj \<Rightarrow> ti_status \<Rightarrow> ti_status \<times> TTxnQObj" where
  "txnQ_DisconnectBus q rc = (rc, q)"

definition txnQ_ConnectCB :: "TTxnQObj \<Rightarrow> (handle \<times> handle \<times> handle) \<times> TTxnQObj" where
  "txnQ_ConnectCB q = ((fConnectCb q, hConnectCb q, NULL), q)"

text \<open>The queues are created one by one; the first that fails ends the call.\<close>

fun open_queues :: "(nat \<Rightarrow> bool) \<Rightarrow> nat \<Rightarrow> nat list \<Rightarrow> TTxnQObj \<Rightarrow> bool \<times> TTxnQObj" where
  "open_queues ok f [] q = (True, q)"
| "open_queues ok f (i # is) q =
     (if ok i then open_queues ok f is (set_queue f i (Some []) q) else (False, set_queue f i None q))"

definition txnQ_Open :: "TTxnQObj \<Rightarrow> u32 \<Rightarrow> u32 \<Rightarrow> handle \<Rightarrow> handle \<Rightarrow> (nat \<Rightarrow> bool) \<Rightarrow> ti_status \<times> TTxnQObj" where
  "txnQ_Open q uFuncId nPrios fCb hCb ok =
     (if uFuncId \<ge> of_nat MAX_FUNCTIONS \<or> nPrios > of_nat MAX_PRIORITY then (TI_NOK, q)
      else
        let q = upd_func (unat uFuncId) (\<lambda>i. i\<lparr>uNumPrios := nPrios, fTxnQueueDoneCb := fCb, hCbHandle := hCb,
                  eState := FUNC_STATE_STOPPED\<rparr>) q;
            (b, q) = open_queues ok (unat uFuncId) [0..<unat nPrios] q
        in if \<not> b then (TI_NOK, q)
           else
             let q = (if uFuncId < uMinFuncId q then q\<lparr>uMinFuncId := uFuncId\<rparr> else q);
                 q = (if uFuncId > uMaxFuncId q then q\<lparr>uMaxFuncId := uFuncId\<rparr> else q)
             in (TI_OK, q))"

text \<open>\<open>txnQ_Close\<close> leaves the handle of a destroyed queue in place; here its slot becomes \<open>None\<close>.\<close>

definition range_step :: "nat \<Rightarrow> TTxnQObj \<Rightarrow> TTxnQObj" where
  "range_step i q =
     (if eState (func_info q i) \<noteq> FUNC_STATE_NONE then
        let q = (if of_nat i < uMinFuncId q then q\<lparr>uMinFuncId := of_nat i\<rparr> else q)
        in if of_nat i > uMaxFuncId q then q\<lparr>uMaxFuncId := of_nat i\<rparr> else q
      else q)"

definition txnQ_Close :: "TTxnQObj \<Rightarrow> u32 \<Rightarrow> TTxnQObj" where
  "txnQ_Close q uFuncId =
     (let f = unat uFuncId;
          q = fold (\<lambda>i. set_queue f i None) [0..<unat (uNumPrios (func_info q f))] q;
          q = upd_func f (\<lambda>i. i\<lparr>uNumPrios := 0, fTxnQueueDoneCb := NULL, hCbHandle := NULL, eState := FUNC_STATE_NONE\<rparr>) q;
          q = q\<lparr>uMinFuncId := of_nat MAX_FUNCTIONS, uMaxFuncId := 0\<rparr>
      in fold range_step [0..<MAX_FUNCTIONS] q)"

section \<open>Selection and restart\<close>

text \<open>The \<open>do\<close> loop of \<open>txnQ_ClearQueues\<close> dequeues until the queue is empty.\<close>

definition txnQ_ClearQueues :: "TTxnQObj \<Rightarrow> nat \<Rightarrow> TTxnQObj" where
  "txnQ_ClearQueues q f =
     (let q = upd_func f (\<lambda>i. i\<lparr>pSingleStep := None\<rparr>) q;
          q = fold (\<lambda>p q. set_queue f p (map_option (\<lambda>_. []) (txn_queue q f p)) q) [0..<unat (uNumPrios (func_info q f))] q;
          q = upd_func f (\<lambda>i. i\<lparr>eState := FUNC_STATE_RUNNING\<rparr>) q
      in emit (EvClear f) q)"

definition txnQ_Restart :: "TTxnQObj \<Rightarrow> nat \<Rightarrow> ti_status \<times> TTxnQObj" where
  "txnQ_Restart q f =
     (case pCurrTxn q of
        Some x \<Rightarrow> if txn_func x = f then (TXN_STATUS_PENDING, upd_func f (\<lambda>i. i\<lparr>eState := FUNC_STATE_RESTART\<rparr>) q)
                 else (TXN_STATUS_COMPLETE, txnQ_ClearQueues q f)
      | None \<Rightarrow> (TXN_STATUS_COMPLETE, txnQ_ClearQueues q f))"

definition txnQ_Stop :: "TTxnQObj \<Rightarrow> nat \<Rightarrow> TTxnQObj" where
  "txnQ_Stop q f = upd_func f (\<lambda>i. i\<lparr>eState := FUNC_STATE_STOPPED\<rparr>) q"

text \<open>The loops of \<open>txnQ_SelectTxn\<close>, over the functions, and over the priorities and functions.\<close>

fun select_single :: "nat list \<Rightarrow> TTxnQObj \<Rightarrow> (TTxnStruct \<times> TTxnQObj) option" where
  "select_single [] q = None"
| "select_single (f # fs) q =
     (case pSingleStep (func_info q f) of
        Some x \<Rightarrow> Some (x, upd_func f (\<lambda>i. i\<lparr>pSingleStep := None\<rparr>) q)
      | None \<Rightarrow> select_single fs q)"

fun select_queued :: "(nat \<times> nat) list \<Rightarrow> TTxnQObj \<Rightarrow> (TTxnStruct \<times> TTxnQObj) option" where
  "select_queued [] q = None"
| "select_queued ((p, f) # pfs) q =
     (if eState (func_info q f) = FUNC_STATE_RUNNING \<and> unat (uNumPrios (func_info q f)) > p then
        (case txn_queue q f p of
           Some (x # xs) \<Rightarrow>
             let q = set_queue f p (Some xs) q
             in Some (x, if txn_aggregate x = TXN_AGGREGATE_ON then q\<lparr>pAggregQueue := Some (f, p)\<rparr> else q)
         | _ \<Rightarrow> select_queued pfs q)
      else select_queued pfs q)"

definition func_range :: "TTxnQObj \<Rightarrow> nat list" where
  "func_range q = [unat (uMinFuncId q)..<Suc (unat (uMaxFuncId q))]"

definition prio_range :: "TTxnQObj \<Rightarrow> (nat \<times> nat) list" where
  "prio_range q = concat (map (\<lambda>p. map (Pair p) (func_range q)) [0..<MAX_PRIORITY])"

definition txnQ_SelectTxn :: "TTxnQObj \<Rightarrow> (TTxnStruct \<times> TTxnQObj) option" where
  "txnQ_SelectTxn q =
     (case pAggregQueue q of
        Some (f, p) \<Rightarrow>
          (case txn_queue q f p of
             Some (x # xs) \<Rightarrow>
               let q = set_queue f p (Some xs) q
               in Some (x, if txn_aggregate x = TXN_AGGREGATE_OFF then q\<lparr>pAggregQueue := None\<rparr> else q)
           | _ \<Rightarrow> None)
      | None \<Rightarrow>
          (case select_single (func_range q) q of
             Some r \<Rightarrow> Some r
           | None \<Rightarrow> select_queued (prio_range q) q))"

section \<open>Transactions\<close>

text \<open>\<open>TXN_PARAM_SET_STATUS\<close> in the transaction.\<close>

definition set_status :: "u32 \<Rightarrow> TTxnStruct \<Rightarrow> TTxnStruct" where
  "set_status v x = x\<lparr>uTxnParams := TXN_PARAM_SET_STATUS (uTxnParams x) v\<rparr>"

text \<open>The part of \<open>txnQ_Transact\<close> before the scheduler; \<open>None\<close> is \<open>TXN_STATUS_ERROR\<close>.\<close>

definition txn_accept :: "TTxnQObj \<Rightarrow> TTxnStruct \<Rightarrow> TTxnQObj option" where
  "txn_accept q x =
     (let f = txn_func x; p = txn_prio x in
      if txn_single x then Some (emit (EvAccept x) (upd_func f (\<lambda>i. i\<lparr>pSingleStep := Some x\<rparr>) q))
      else
        (case slot_put q (txn_queue q f p) x of
           None \<Rightarrow> None
         | Some v \<Rightarrow> Some (emit (EvAccept x) (set_queue f p (Some v) q))))"

text \<open>
  The calls that a callback makes into the module: it may submit transactions and start, stop or
  restart a function, and \<open>ReqTxnDone\<close> is the bus completing the current transaction meanwhile.
\<close>

datatype txn_req = ReqTransact TTxnStruct | ReqRun nat | ReqStop nat | ReqRestart nat | ReqTxnDone

record txn_env =
  bus_rsp :: "TTxnQObj \<Rightarrow> TTxnStruct \<Rightarrow> ti_status"
  done_cb :: "TTxnQObj \<Rightarrow> TTxnStruct \<Rightarrow> txn_req list"
  early_done :: "TTxnQObj \<Rightarrow> bool"

text \<open>
  What \<open>txnQ_RunScheduler\<close> does when called in a callback: the scheduler is busy, which is
  remembered, or a transaction occupies the bus and it returns at once (lemma \<open>RunScheduler_nested\<close>).
\<close>

definition sched_again :: "TTxnQObj \<Rightarrow> TTxnQObj" where
  "sched_again q = (if bSchedulerBusy q then q\<lparr>bSchedulerPend := True\<rparr> else q)"

fun nested_req :: "TTxnQObj \<Rightarrow> txn_req \<Rightarrow> TTxnQObj" where
  "nested_req q (ReqTransact x) = (case txn_accept q x of None \<Rightarrow> q | Some q \<Rightarrow> sched_again q)"
| "nested_req q (ReqRun f) = sched_again (upd_func f (\<lambda>i. i\<lparr>eState := FUNC_STATE_RUNNING\<rparr>) q)"
| "nested_req q (ReqStop f) = txnQ_Stop q f"
| "nested_req q (ReqRestart f) = snd (txnQ_Restart q f)"
| "nested_req q ReqTxnDone = q"

text \<open>
  \<open>que_Enqueue\<close> of a completed transaction on the done queue. A refusal is only traced in the
  code; the log remembers it as a lost completion.
\<close>

definition done_put :: "TTxnStruct \<Rightarrow> TTxnQObj \<Rightarrow> TTxnQObj" where
  "done_put x q =
     (case slot_put q (hTxnDoneQueue q) x of
        None \<Rightarrow> emit (EvLost x) q
      | Some v \<Rightarrow> emit (EvComplete x) (q\<lparr>hTxnDoneQueue := Some v\<rparr>))"

text \<open>\<open>txnQ_TxnDoneCb\<close> up to its call of the scheduler.\<close>

definition txn_done :: "txn_env \<Rightarrow> TTxnQObj \<Rightarrow> TTxnStruct \<Rightarrow> TTxnQObj" where
  "txn_done env q x =
     (let f = txn_func x;
          q = (if eState (func_info q f) = FUNC_STATE_RESTART then
                 let q = txnQ_ClearQueues q f;
                     x = set_status TXN_PARAM_STATUS_RECOVERY x;
                     q = emit (EvRecovered x) q
                 in foldl nested_req q (done_cb env q x)
               else done_put x q)
      in q\<lparr>pCurrTxn := None\<rparr>)"

definition nested_done :: "txn_env \<Rightarrow> TTxnQObj \<Rightarrow> TTxnQObj" where
  "nested_done env q = (case pCurrTxn q of None \<Rightarrow> q | Some x \<Rightarrow> sched_again (txn_done env q x))"

definition cb_req :: "txn_env \<Rightarrow> TTxnQObj \<Rightarrow> txn_req \<Rightarrow> TTxnQObj" where
  "cb_req env q r = (if r = ReqTxnDone then nested_done env q else nested_req q r)"

section \<open>The scheduler\<close>

definition waiting :: "TTxnQObj \<Rightarrow> nat" where
  "waiting q = sum_list (map (\<lambda>f. (if pSingleStep (func_info q f) = None then 0 else 1)
     + length (queue_items (txn_queue q f 0)) + length (queue_items (txn_queue q f 1))) [0..<MAX_FUNCTIONS])"

definition same_txn :: "TTxnStruct option \<Rightarrow> TTxnStruct \<Rightarrow> bool" where
  "same_txn inp x \<longleftrightarrow> map_option txn_addr inp = Some (txn_addr x)"

text \<open>
  The sending loop of \<open>txnQ_Scheduler\<close>. Each round takes one waiting transaction, so one more round
  than there are waiting transactions is enough (lemma \<open>send_loop_fuel\<close>).
\<close>

primrec send_loop :: "nat \<Rightarrow> txn_env \<Rightarrow> TTxnStruct option \<Rightarrow> ti_status \<Rightarrow> TTxnQObj \<Rightarrow> ti_status \<times> TTxnQObj" where
  "send_loop 0 env inp st q = (st, q)"
| "send_loop (Suc n) env inp st q =
     (case txnQ_SelectTxn q of
        None \<Rightarrow> (st, q)
      | Some (x, q) \<Rightarrow>
          let q = emit (EvSent x) (q\<lparr>pCurrTxn := Some x\<rparr>);
              eStatus = bus_rsp env q x;
              st = (if same_txn inp x then eStatus else st)
          in if eStatus \<noteq> TXN_STATUS_PENDING then
               let q = q\<lparr>pCurrTxn := None\<rparr>
               in send_loop n env inp st (if same_txn inp x then emit (EvReturn x) q else done_put x q)
             else (st, q))"

lemma done_put_fields [simp]:
  "pCurrTxn (done_put x q) = pCurrTxn q" "bSchedulerBusy (done_put x q) = bSchedulerBusy q"
  "bSchedulerPend (done_put x q) = bSchedulerPend q" "aFuncInfo (done_put x q) = aFuncInfo q"
  "aTxnQueues (done_put x q) = aTxnQueues q" "uMinFuncId (done_put x q) = uMinFuncId q"
  "uMaxFuncId (done_put x q) = uMaxFuncId q" "pAggregQueue (done_put x q) = pAggregQueue q"
  by (auto simp: done_put_def emit_def split: option.splits)

definition backlog :: "TTxnQObj \<Rightarrow> nat" where
  "backlog q = length (queue_items (hTxnDoneQueue q)) + (if pCurrTxn q = None then 0 else 1)"

lemma ClearQueues_fields [simp]:
  "hTxnDoneQueue (txnQ_ClearQueues q f) = hTxnDoneQueue q" "pCurrTxn (txnQ_ClearQueues q f) = pCurrTxn q"
  "bSchedulerBusy (txnQ_ClearQueues q f) = bSchedulerBusy q" "bSchedulerPend (txnQ_ClearQueues q f) = bSchedulerPend q"
  "uMinFuncId (txnQ_ClearQueues q f) = uMinFuncId q" "uMaxFuncId (txnQ_ClearQueues q f) = uMaxFuncId q"
  "pAggregQueue (txnQ_ClearQueues q f) = pAggregQueue q"
proof -
  have f: "hTxnDoneQueue (fold (\<lambda>p q. set_queue f p (map_option (\<lambda>_. []) (txn_queue q f p)) q) ps q) = hTxnDoneQueue q"
    "pCurrTxn (fold (\<lambda>p q. set_queue f p (map_option (\<lambda>_. []) (txn_queue q f p)) q) ps q) = pCurrTxn q"
    "bSchedulerBusy (fold (\<lambda>p q. set_queue f p (map_option (\<lambda>_. []) (txn_queue q f p)) q) ps q) = bSchedulerBusy q"
    "bSchedulerPend (fold (\<lambda>p q. set_queue f p (map_option (\<lambda>_. []) (txn_queue q f p)) q) ps q) = bSchedulerPend q"
    "uMinFuncId (fold (\<lambda>p q. set_queue f p (map_option (\<lambda>_. []) (txn_queue q f p)) q) ps q) = uMinFuncId q"
    "uMaxFuncId (fold (\<lambda>p q. set_queue f p (map_option (\<lambda>_. []) (txn_queue q f p)) q) ps q) = uMaxFuncId q"
    "pAggregQueue (fold (\<lambda>p q. set_queue f p (map_option (\<lambda>_. []) (txn_queue q f p)) q) ps q) = pAggregQueue q" for ps q
    by (induction ps arbitrary: q) (simp_all add: set_queue_def)
  show "hTxnDoneQueue (txnQ_ClearQueues q f) = hTxnDoneQueue q" "pCurrTxn (txnQ_ClearQueues q f) = pCurrTxn q"
    "bSchedulerBusy (txnQ_ClearQueues q f) = bSchedulerBusy q" "bSchedulerPend (txnQ_ClearQueues q f) = bSchedulerPend q"
    "uMinFuncId (txnQ_ClearQueues q f) = uMinFuncId q" "uMaxFuncId (txnQ_ClearQueues q f) = uMaxFuncId q"
    "pAggregQueue (txnQ_ClearQueues q f) = pAggregQueue q"
    by (simp_all add: txnQ_ClearQueues_def Let_def emit_def upd_func_def f)
qed

lemma accept_fields:
  assumes "txn_accept q x = Some q'"
  shows "hTxnDoneQueue q' = hTxnDoneQueue q" "pCurrTxn q' = pCurrTxn q" "bSchedulerBusy q' = bSchedulerBusy q"
    "bSchedulerPend q' = bSchedulerPend q" "uMinFuncId q' = uMinFuncId q" "uMaxFuncId q' = uMaxFuncId q"
    "pAggregQueue q' = pAggregQueue q"
  using assms
  by (simp_all add: txn_accept_def Let_def emit_def upd_func_def set_queue_def split: option.splits if_splits)
    (auto)

lemma Restart_fields [simp]:
  "hTxnDoneQueue (snd (txnQ_Restart q f)) = hTxnDoneQueue q" "pCurrTxn (snd (txnQ_Restart q f)) = pCurrTxn q"
  "bSchedulerBusy (snd (txnQ_Restart q f)) = bSchedulerBusy q" "bSchedulerPend (snd (txnQ_Restart q f)) = bSchedulerPend q"
  "uMinFuncId (snd (txnQ_Restart q f)) = uMinFuncId q" "uMaxFuncId (snd (txnQ_Restart q f)) = uMaxFuncId q"
  "pAggregQueue (snd (txnQ_Restart q f)) = pAggregQueue q"
  by (cases "pCurrTxn q"; simp add: txnQ_Restart_def upd_func_def)+

lemma sched_again_fields [simp]:
  "hTxnDoneQueue (sched_again q) = hTxnDoneQueue q" "pCurrTxn (sched_again q) = pCurrTxn q"
  "bSchedulerBusy (sched_again q) = bSchedulerBusy q" "aFuncInfo (sched_again q) = aFuncInfo q"
  "aTxnQueues (sched_again q) = aTxnQueues q" "uMinFuncId (sched_again q) = uMinFuncId q"
  "uMaxFuncId (sched_again q) = uMaxFuncId q" "pAggregQueue (sched_again q) = pAggregQueue q"
  "txn_log (sched_again q) = txn_log q"
  by (simp_all add: sched_again_def)

lemma nested_req_fields [simp]:
  "hTxnDoneQueue (nested_req q r) = hTxnDoneQueue q" "pCurrTxn (nested_req q r) = pCurrTxn q"
  "bSchedulerBusy (nested_req q r) = bSchedulerBusy q" "uMinFuncId (nested_req q r) = uMinFuncId q"
  "uMaxFuncId (nested_req q r) = uMaxFuncId q" "pAggregQueue (nested_req q r) = pAggregQueue q"
proof -
  have "hTxnDoneQueue (nested_req q r) = hTxnDoneQueue q \<and> pCurrTxn (nested_req q r) = pCurrTxn q \<and>
    bSchedulerBusy (nested_req q r) = bSchedulerBusy q \<and> uMinFuncId (nested_req q r) = uMinFuncId q \<and>
    uMaxFuncId (nested_req q r) = uMaxFuncId q \<and> pAggregQueue (nested_req q r) = pAggregQueue q"
  proof (cases r)
    case (ReqTransact x)
    then show ?thesis by (cases "txn_accept q x") (simp_all add: accept_fields)
  qed (simp_all add: txnQ_Stop_def upd_func_def)
  then show "hTxnDoneQueue (nested_req q r) = hTxnDoneQueue q" "pCurrTxn (nested_req q r) = pCurrTxn q"
    "bSchedulerBusy (nested_req q r) = bSchedulerBusy q" "uMinFuncId (nested_req q r) = uMinFuncId q"
    "uMaxFuncId (nested_req q r) = uMaxFuncId q" "pAggregQueue (nested_req q r) = pAggregQueue q" by blast+
qed

lemma nested_reqs_fields [simp]:
  "hTxnDoneQueue (foldl nested_req q rs) = hTxnDoneQueue q" "pCurrTxn (foldl nested_req q rs) = pCurrTxn q"
  "bSchedulerBusy (foldl nested_req q rs) = bSchedulerBusy q" "uMinFuncId (foldl nested_req q rs) = uMinFuncId q"
  "uMaxFuncId (foldl nested_req q rs) = uMaxFuncId q" "pAggregQueue (foldl nested_req q rs) = pAggregQueue q"
  by (induction rs arbitrary: q) simp_all

lemma cb_req_backlog: "backlog (cb_req env q r) \<le> backlog q"
proof (cases "r = ReqTxnDone \<and> pCurrTxn q \<noteq> None")
  case True
  then obtain x where x: "pCurrTxn q = Some x" by blast
  have "length (queue_items (hTxnDoneQueue (txn_done env q x))) \<le> Suc (length (queue_items (hTxnDoneQueue q)))"
    by (auto simp: txn_done_def Let_def done_put_def slot_put_def queue_items_def emit_def split: option.splits)
  moreover have "pCurrTxn (txn_done env q x) = None" by (simp add: txn_done_def Let_def)
  ultimately show ?thesis using True x
    by (simp add: cb_req_def nested_done_def backlog_def sched_again_def)
next
  case False
  then show ?thesis by (auto simp: cb_req_def nested_done_def backlog_def split: option.split)
qed

lemma cb_reqs_backlog: "backlog (foldl (cb_req env) q rs) \<le> backlog q"
  by (induction rs arbitrary: q) (auto intro: order_trans [OF _ cb_req_backlog])

text \<open>The loop that reports completed transactions to their functions' callbacks.\<close>

function done_loop :: "txn_env \<Rightarrow> TTxnQObj \<Rightarrow> TTxnQObj" where
  "done_loop env q =
     (case hTxnDoneQueue q of
        Some (x # xs) \<Rightarrow>
          let q = emit (EvReport x) (q\<lparr>hTxnDoneQueue := Some xs\<rparr>)
          in done_loop env (foldl (cb_req env) q (done_cb env q x))
      | _ \<Rightarrow> q)"
  by pat_completeness auto

termination
proof (relation "measure (\<lambda>(env, q). backlog q)", simp)
  fix env q v x xs r
  assume "hTxnDoneQueue q = Some v" "v = x # xs" "r = emit (EvReport x) (q\<lparr>hTxnDoneQueue := Some xs\<rparr>)"
  then have "backlog r < backlog q" by (simp add: backlog_def emit_def queue_items_def)
  then show "((env, foldl (cb_req env) r (done_cb env r x)), env, q) \<in> measure (\<lambda>(env, q). backlog q)"
    using cb_reqs_backlog [of env r "done_cb env r x"] by simp
qed

declare done_loop.simps [simp del]

definition txnQ_Scheduler :: "txn_env \<Rightarrow> TTxnQObj \<Rightarrow> TTxnStruct option \<Rightarrow> ti_status \<times> TTxnQObj" where
  "txnQ_Scheduler env q inp =
     (if pCurrTxn q \<noteq> None then (TXN_STATUS_PENDING, q)
      else
        let (st, q) = send_loop (Suc (waiting q)) env inp TXN_STATUS_PENDING q;
            q = (if early_done env q then nested_done env q else q)
        in (st, done_loop env q))"

text \<open>The loop of \<open>txnQ_RunScheduler\<close> goes on as long as calls come in meanwhile; it returns the first status.\<close>

partial_function (option) run_loop :: "txn_env \<Rightarrow> TTxnQObj \<Rightarrow> TTxnStruct option \<Rightarrow> (ti_status \<times> TTxnQObj) option" where
  "run_loop env q inp =
     (case txnQ_Scheduler env q inp of (st, q) \<Rightarrow>
        if \<not> bSchedulerPend q then Some (st, q\<lparr>bSchedulerBusy := False\<rparr>)
        else Option.bind (run_loop env (q\<lparr>bSchedulerPend := False\<rparr>) None) (\<lambda>(_, q). Some (st, q)))"

definition txnQ_RunScheduler :: "txn_env \<Rightarrow> TTxnQObj \<Rightarrow> TTxnStruct option \<Rightarrow> (ti_status \<times> TTxnQObj) option" where
  "txnQ_RunScheduler env q inp =
     (if bSchedulerBusy q then Some (TXN_STATUS_PENDING, q\<lparr>bSchedulerPend := True\<rparr>)
      else run_loop env (q\<lparr>bSchedulerBusy := True\<rparr>) inp)"

definition txnQ_Transact :: "txn_env \<Rightarrow> TTxnQObj \<Rightarrow> TTxnStruct \<Rightarrow> (ti_status \<times> TTxnQObj) option" where
  "txnQ_Transact env q x =
     (case txn_accept q x of
        None \<Rightarrow> Some (TXN_STATUS_ERROR, q)
      | Some q \<Rightarrow> txnQ_RunScheduler env q (Some x))"

definition txnQ_Run :: "txn_env \<Rightarrow> TTxnQObj \<Rightarrow> nat \<Rightarrow> (ti_status \<times> TTxnQObj) option" where
  "txnQ_Run env q f = txnQ_RunScheduler env (upd_func f (\<lambda>i. i\<lparr>eState := FUNC_STATE_RUNNING\<rparr>) q) None"

definition txnQ_TxnDoneCb :: "txn_env \<Rightarrow> TTxnQObj \<Rightarrow> TTxnStruct \<Rightarrow> (ti_status \<times> TTxnQObj) option" where
  "txnQ_TxnDoneCb env q x = txnQ_RunScheduler env (txn_done env q x) None"

section \<open>Well-formed states\<close>

definition item_ok :: "nat \<Rightarrow> nat \<Rightarrow> TTxnStruct \<Rightarrow> bool" where
  "item_ok f p x \<longleftrightarrow> txn_func x = f \<and> txn_prio x = p \<and> \<not> txn_single x"

definition txnq_wf :: "TTxnQObj \<Rightarrow> bool" where [wf_defs]:
  "txnq_wf q \<longleftrightarrow> length (aFuncInfo q) = 4 \<and> length (aTxnQueues q) = 4 \<and> (\<forall>f<4. length (aTxnQueues q ! f) = 2) \<and>
     uMaxFuncId q < 4 \<and> hTxnDoneQueue q \<noteq> None \<and>
     (\<forall>f<4. uNumPrios (func_info q f) \<le> 2) \<and>
     (\<forall>f<4. \<forall>p<2. txn_queue q f p \<noteq> None \<longrightarrow> p < unat (uNumPrios (func_info q f))) \<and>
     (\<forall>f<4. \<forall>p<2. \<forall>x\<in>set (queue_items (txn_queue q f p)). item_ok f p x) \<and>
     (\<forall>f<4. \<forall>x. pSingleStep (func_info q f) = Some x \<longrightarrow> txn_func x = f \<and> txn_single x) \<and>
     (\<forall>f p. pAggregQueue q = Some (f, p) \<longrightarrow> f < 4 \<and> p < 2)"

lemma func_info_upd [simp]:
  "func_info (upd_func f h q) g = (if f = g \<and> g < length (aFuncInfo q) then h (func_info q g) else func_info q g)"
  by (simp add: upd_func_def func_info_def nth_update)

lemma func_info_cong: "aFuncInfo q' = aFuncInfo q \<Longrightarrow> func_info q' f = func_info q f"
  by (simp add: func_info_def)

lemma txn_queue_cong: "aTxnQueues q' = aTxnQueues q \<Longrightarrow> txn_queue q' f p = txn_queue q f p"
  by (simp add: txn_queue_def)

lemma txn_queue_set [simp]:
  assumes "f < length (aTxnQueues q)" "p < length (aTxnQueues q ! f)"
  shows "txn_queue (set_queue f p v q) g r = (if g = f \<and> r = p then v else txn_queue q g r)"
  using assms by (simp add: set_queue_def txn_queue_def nth_update)

lemma upd_func_fields [simp]:
  "length (aFuncInfo (upd_func f h q)) = length (aFuncInfo q)" "aTxnQueues (upd_func f h q) = aTxnQueues q"
  "hTxnDoneQueue (upd_func f h q) = hTxnDoneQueue q" "pCurrTxn (upd_func f h q) = pCurrTxn q"
  "uMinFuncId (upd_func f h q) = uMinFuncId q" "uMaxFuncId (upd_func f h q) = uMaxFuncId q"
  "pAggregQueue (upd_func f h q) = pAggregQueue q" "txn_log (upd_func f h q) = txn_log q"
  "bSchedulerBusy (upd_func f h q) = bSchedulerBusy q" "bSchedulerPend (upd_func f h q) = bSchedulerPend q"
  "txn_queue (upd_func f h q) g p = txn_queue q g p"
  by (simp_all add: upd_func_def txn_queue_def)

lemma set_queue_fields [simp]:
  "aFuncInfo (set_queue f p v q) = aFuncInfo q" "length (aTxnQueues (set_queue f p v q)) = length (aTxnQueues q)"
  "length (aTxnQueues (set_queue f p v q) ! g) = length (aTxnQueues q ! g)"
  "hTxnDoneQueue (set_queue f p v q) = hTxnDoneQueue q" "pCurrTxn (set_queue f p v q) = pCurrTxn q"
  "uMinFuncId (set_queue f p v q) = uMinFuncId q" "uMaxFuncId (set_queue f p v q) = uMaxFuncId q"
  "pAggregQueue (set_queue f p v q) = pAggregQueue q" "txn_log (set_queue f p v q) = txn_log q"
  "bSchedulerBusy (set_queue f p v q) = bSchedulerBusy q" "bSchedulerPend (set_queue f p v q) = bSchedulerPend q"
  "func_info (set_queue f p v q) g = func_info q g"
  by (simp_all add: set_queue_def func_info_def nth_update)

lemma emit_fields [simp]:
  "aFuncInfo (emit e q) = aFuncInfo q" "aTxnQueues (emit e q) = aTxnQueues q" "hTxnDoneQueue (emit e q) = hTxnDoneQueue q"
  "pCurrTxn (emit e q) = pCurrTxn q" "uMinFuncId (emit e q) = uMinFuncId q" "uMaxFuncId (emit e q) = uMaxFuncId q"
  "pAggregQueue (emit e q) = pAggregQueue q" "txn_log (emit e q) = txn_log q @ [e]"
  "bSchedulerBusy (emit e q) = bSchedulerBusy q" "bSchedulerPend (emit e q) = bSchedulerPend q"
  "func_info (emit e q) f = func_info q f" "txn_queue (emit e q) f p = txn_queue q f p"
  by (simp_all add: emit_def func_info_def txn_queue_def)

text \<open>What a state looks like from outside: the queues, slots, current and completed transactions.\<close>

record txn_spec =
  sp_queue :: "nat \<Rightarrow> nat \<Rightarrow> TTxnStruct list"
  sp_single :: "nat \<Rightarrow> TTxnStruct option"
  sp_cur :: "TTxnStruct option"
  sp_done :: "TTxnStruct list"

definition txn_abs :: "TTxnStruct option \<Rightarrow> TTxnQObj \<Rightarrow> txn_spec" where
  "txn_abs c q = \<lparr>sp_queue = (\<lambda>f p. if f < 4 \<and> p < 2 then queue_items (txn_queue q f p) else []),
     sp_single = (\<lambda>f. if f < 4 then pSingleStep (func_info q f) else None), sp_cur = c, sp_done = queue_items (hTxnDoneQueue q)\<rparr>"

text \<open>
  The specification of the queue, as a machine that accepts a log or not: a transaction is sent
  only when the bus is idle, and it is the oldest of its queue or the single step of its function; only the
  transaction on the bus completes, and completed ones are reported once, in order of completion.
\<close>

fun spec_ev :: "txn_ev \<Rightarrow> txn_spec \<Rightarrow> txn_spec option" where
  "spec_ev (EvAccept x) a =
     (if txn_single x then Some (a\<lparr>sp_single := (sp_single a)(txn_func x := Some x)\<rparr>)
      else Some (a\<lparr>sp_queue := (sp_queue a)(txn_func x := (sp_queue a (txn_func x))(txn_prio x := sp_queue a (txn_func x) (txn_prio x) @ [x]))\<rparr>))"
| "spec_ev (EvSent x) a =
     (if sp_cur a \<noteq> None then None
      else if txn_single x then
        (if sp_single a (txn_func x) = Some x then Some (a\<lparr>sp_single := (sp_single a)(txn_func x := None), sp_cur := Some x\<rparr>) else None)
      else
        (case sp_queue a (txn_func x) (txn_prio x) of
           [] \<Rightarrow> None
         | y # ys \<Rightarrow> if y = x
             then Some (a\<lparr>sp_queue := (sp_queue a)(txn_func x := (sp_queue a (txn_func x))(txn_prio x := ys)), sp_cur := Some x\<rparr>)
             else None))"
| "spec_ev (EvReturn x) a = (if sp_cur a = Some x then Some (a\<lparr>sp_cur := None\<rparr>) else None)"
| "spec_ev (EvLost x) a = (if sp_cur a = Some x then Some (a\<lparr>sp_cur := None\<rparr>) else None)"
| "spec_ev (EvComplete x) a = (if sp_cur a = Some x then Some (a\<lparr>sp_cur := None, sp_done := sp_done a @ [x]\<rparr>) else None)"
| "spec_ev (EvReport x) a =
     (case sp_done a of [] \<Rightarrow> None | y # ys \<Rightarrow> if y = x then Some (a\<lparr>sp_done := ys\<rparr>) else None)"
| "spec_ev (EvRecovered x) a = (if map_option txn_addr (sp_cur a) = Some (txn_addr x) then Some (a\<lparr>sp_cur := None\<rparr>) else None)"
| "spec_ev (EvClear f) a = Some (a\<lparr>sp_queue := (sp_queue a)(f := (\<lambda>_. [])), sp_single := (sp_single a)(f := None)\<rparr>)"

fun spec_run :: "txn_ev list \<Rightarrow> txn_spec \<Rightarrow> txn_spec option" where
  "spec_run [] a = Some a"
| "spec_run (e # es) a = Option.bind (spec_ev e a) (spec_run es)"

definition spec_init :: txn_spec where
  "spec_init = \<lparr>sp_queue = (\<lambda>_ _. []), sp_single = (\<lambda>_. None), sp_cur = None, sp_done = []\<rparr>"

lemma spec_run_snoc: "spec_run (es @ [e]) a = Option.bind (spec_run es a) (spec_ev e)"
  by (induction es arbitrary: a) (simp_all add: bind_eq_None_conv split: bind_split)

text \<open>A well-formed state whose log the specification accepts; \<open>c\<close> is the transaction on the bus.\<close>

definition txn_ok :: "TTxnStruct option \<Rightarrow> TTxnQObj \<Rightarrow> bool" where
  "txn_ok c q \<longleftrightarrow> txnq_wf q \<and> spec_run (txn_log q) spec_init = Some (txn_abs c q)"

lemma txn_ok_emit:
  assumes "txn_ok c q" "spec_ev e (txn_abs c q) = Some (txn_abs c' q')" "txnq_wf q'" "txn_log q' = txn_log q @ [e]"
  shows "txn_ok c' q'"
  using assms by (simp add: txn_ok_def spec_run_snoc)

lemma txn_func_less [simp]: "txn_func x < 4"
proof -
  have "TXN_PARAM_GET_FUNC_ID p \<le> 3" for p
  proof -
    have "TXN_PARAM_GET_FUNC_ID p = drop_bit 2 p AND 3"
      by (simp add: TXN_PARAM_GET_FUNC_ID_def drop_bit_and)
    then show ?thesis by (simp add: word_and_le1)
  qed
  then have "unat (TXN_PARAM_GET_FUNC_ID (uTxnParams x)) \<le> unat (3 :: u32)" by (simp only: word_le_nat_alt)
  then show ?thesis by (simp add: txn_func_def)
qed

subsection \<open>Updates of the state and of its abstraction\<close>

lemma txnq_wfD:
  assumes "txnq_wf q"
  shows "length (aFuncInfo q) = 4" "length (aTxnQueues q) = 4" "f < 4 \<Longrightarrow> length (aTxnQueues q ! f) = 2"
    "uMaxFuncId q < 4" "hTxnDoneQueue q \<noteq> None" "f < 4 \<Longrightarrow> uNumPrios (func_info q f) \<le> 2"
    "f < 4 \<Longrightarrow> p < 2 \<Longrightarrow> txn_queue q f p = Some xs \<Longrightarrow> p < unat (uNumPrios (func_info q f))"
    "f < 4 \<Longrightarrow> p < 2 \<Longrightarrow> x \<in> set (queue_items (txn_queue q f p)) \<Longrightarrow> item_ok f p x"
    "f < 4 \<Longrightarrow> pSingleStep (func_info q f) = Some x \<Longrightarrow> txn_func x = f \<and> txn_single x"
    "pAggregQueue q = Some (f, p) \<Longrightarrow> f < 4 \<and> p < 2"
  using assms unfolding txnq_wf_def by blast+

lemma wf_set_queue:
  assumes "txnq_wf q" "f < 4" "p < 2" "v \<noteq> None \<Longrightarrow> p < unat (uNumPrios (func_info q f))"
    "\<And>x. x \<in> set (queue_items v) \<Longrightarrow> item_ok f p x"
  shows "txnq_wf (set_queue f p v q)"
  using assms unfolding txnq_wf_def by auto

lemma wf_upd_func:
  assumes "txnq_wf q" "f < 4" "uNumPrios (h (func_info q f)) = uNumPrios (func_info q f)"
    "\<And>x. pSingleStep (h (func_info q f)) = Some x \<Longrightarrow> txn_func x = f \<and> txn_single x"
  shows "txnq_wf (upd_func f h q)"
  using assms unfolding txnq_wf_def by auto

lemma wf_cong:
  assumes "txnq_wf q" "aFuncInfo q' = aFuncInfo q" "aTxnQueues q' = aTxnQueues q" "uMaxFuncId q' = uMaxFuncId q"
    "pAggregQueue q' = pAggregQueue q" "hTxnDoneQueue q' \<noteq> None"
  shows "txnq_wf q'"
  using assms unfolding txnq_wf_def by (simp add: func_info_cong [OF assms(2)] txn_queue_cong [OF assms(3)])

lemma abs_set_queue:
  assumes "txnq_wf q" "f < 4" "p < 2"
  shows "txn_abs c (set_queue f p v q) = (txn_abs c q)\<lparr>sp_queue := (sp_queue (txn_abs c q))(f := (sp_queue (txn_abs c q) f)(p := queue_items v))\<rparr>"
  using txnq_wfD(2,3) [OF assms(1)] assms(2,3) by (auto simp: txn_abs_def fun_eq_iff)

lemma abs_upd_single:
  assumes "txnq_wf q" "f < 4" "\<And>i. pSingleStep (h i) = v"
  shows "txn_abs c (upd_func f h q) = (txn_abs c q)\<lparr>sp_single := (sp_single (txn_abs c q))(f := v)\<rparr>"
  using txnq_wfD(1) [OF assms(1)] assms(2,3) by (auto simp: txn_abs_def fun_eq_iff)

lemma abs_upd_func [simp]:
  assumes "\<And>i. pSingleStep (h i) = pSingleStep i"
  shows "txn_abs c (upd_func f h q) = txn_abs c q"
  using assms by (auto simp: txn_abs_def fun_eq_iff)

lemma abs_cong:
  assumes "aFuncInfo q' = aFuncInfo q" "aTxnQueues q' = aTxnQueues q" "hTxnDoneQueue q' = hTxnDoneQueue q"
  shows "txn_abs c q' = txn_abs c q"
  using assms(3) by (auto simp: txn_abs_def fun_eq_iff func_info_cong [OF assms(1)] txn_queue_cong [OF assms(2)])

lemma abs_emit [simp]: "txn_abs c (emit e q) = txn_abs c q"
  by (rule abs_cong) simp_all

lemma abs_sel [simp]:
  "sp_cur (txn_abs c q) = c" "sp_done (txn_abs c q) = queue_items (hTxnDoneQueue q)"
  "sp_queue (txn_abs c q) f p = (if f < 4 \<and> p < 2 then queue_items (txn_queue q f p) else [])"
  "sp_single (txn_abs c q) f = (if f < 4 then pSingleStep (func_info q f) else None)"
  by (simp_all add: txn_abs_def)

lemma abs_cur: "(txn_abs c q)\<lparr>sp_cur := d\<rparr> = txn_abs d q"
  by (simp add: txn_abs_def)

lemma abs_done: "(txn_abs c q)\<lparr>sp_cur := d, sp_done := xs\<rparr> = txn_abs d (q\<lparr>hTxnDoneQueue := Some xs\<rparr>)"
  by (auto simp: txn_abs_def queue_items_def txn_queue_def func_info_def fun_eq_iff)

lemma wf_emit [simp]: "txnq_wf (emit e q) = txnq_wf q"
  by (simp add: txnq_wf_def)

lemma txn_ok_cong:
  assumes "txn_ok c q" "aFuncInfo q' = aFuncInfo q" "aTxnQueues q' = aTxnQueues q" "uMaxFuncId q' = uMaxFuncId q"
    "pAggregQueue q' = pAggregQueue q" "hTxnDoneQueue q' = hTxnDoneQueue q" "txn_log q' = txn_log q"
  shows "txn_ok c q'"
proof -
  from assms(1) have wf: "txnq_wf q" and run: "spec_run (txn_log q) spec_init = Some (txn_abs c q)" by (simp_all add: txn_ok_def)
  have "txnq_wf q'" using txnq_wfD(5) [OF wf] by (intro wf_cong [OF wf assms(2-5)]) (simp add: assms(6))
  then show ?thesis using run assms(7) by (simp add: txn_ok_def abs_cong [OF assms(2,3,6)])
qed

lemma txn_ok_wf: "txn_ok c q \<Longrightarrow> txnq_wf q"
  by (simp add: txn_ok_def)

subsection \<open>Each operation keeps the log acceptable\<close>

lemma accept_ok:
  assumes "txn_ok c q" "txn_prio x < 2" "txn_accept q x = Some q'"
  shows "txn_ok c q'"
proof (cases "txn_single x")
  case True
  let ?h = "\<lambda>i. i\<lparr>pSingleStep := Some x\<rparr>"
  from True assms(3) have q': "q' = emit (EvAccept x) (upd_func (txn_func x) ?h q)" by (simp add: txn_accept_def)
  show ?thesis
  proof (rule txn_ok_emit [OF assms(1), where e = "EvAccept x"])
    show "txnq_wf q'" unfolding q' wf_emit using True by (intro wf_upd_func [OF txn_ok_wf [OF assms(1)]]) simp_all
    show "spec_ev (EvAccept x) (txn_abs c q) = Some (txn_abs c q')"
      unfolding q' using True by (simp add: abs_upd_single [OF txn_ok_wf [OF assms(1)], of _ ?h "Some x"])
  qed (simp add: q')
next
  case False
  note wf = txn_ok_wf [OF assms(1)]
  from False assms(3) obtain xs where xs: "txn_queue q (txn_func x) (txn_prio x) = Some xs"
    and q': "q' = emit (EvAccept x) (set_queue (txn_func x) (txn_prio x) (Some (xs @ [x])) q)"
    by (auto simp: txn_accept_def slot_put_def Let_def split: option.splits if_splits)
  have old: "y \<in> set xs \<Longrightarrow> item_ok (txn_func x) (txn_prio x) y" for y
    using txnq_wfD(8) [OF wf txn_func_less assms(2), of y x] xs by (simp add: queue_items_def)
  have it: "y \<in> set (queue_items (Some (xs @ [x]))) \<Longrightarrow> item_ok (txn_func x) (txn_prio x) y" for y
    using old [of y] False by (auto simp: queue_items_def item_ok_def)
  show ?thesis
  proof (rule txn_ok_emit [OF assms(1), where e = "EvAccept x"])
    show "txnq_wf q'" unfolding q' wf_emit
      by (rule wf_set_queue [OF wf txn_func_less assms(2) txnq_wfD(7) [OF wf txn_func_less assms(2) xs] it])
    show "spec_ev (EvAccept x) (txn_abs c q) = Some (txn_abs c q')"
      unfolding q' using False assms(2) xs by (simp add: abs_set_queue [OF wf] queue_items_def)
  qed (simp add: q')
qed

lemma upd_state_ok:
  assumes "txn_ok c q" "f < 4"
  shows "txn_ok c (upd_func f (\<lambda>i. i\<lparr>eState := s\<rparr>) q)"
  using assms txnq_wfD(9) [OF txn_ok_wf [OF assms(1)]] by (auto simp: txn_ok_def intro!: wf_upd_func)

lemma ClearQueues_queue:
  assumes "length (aTxnQueues q) = 4" "length (aTxnQueues q ! f) = 2" "f < 4" "n \<le> 2"
  shows "txn_queue (fold (\<lambda>p q. set_queue f p (map_option (\<lambda>_. []) (txn_queue q f p)) q) [0..<n] q) g r =
      (if g = f \<and> r < n then map_option (\<lambda>_. []) (txn_queue q g r) else txn_queue q g r)" (is "?Q n")
    and "aFuncInfo (fold (\<lambda>p q. set_queue f p (map_option (\<lambda>_. []) (txn_queue q f p)) q) [0..<n] q) = aFuncInfo q"
    and "length (aTxnQueues (fold (\<lambda>p q. set_queue f p (map_option (\<lambda>_. []) (txn_queue q f p)) q) [0..<n] q)) = 4"
    and "length (aTxnQueues (fold (\<lambda>p q. set_queue f p (map_option (\<lambda>_. []) (txn_queue q f p)) q) [0..<n] q) ! g) = length (aTxnQueues q ! g)"
    and "txn_log (fold (\<lambda>p q. set_queue f p (map_option (\<lambda>_. []) (txn_queue q f p)) q) [0..<n] q) = txn_log q"
  using assms(4)
  by (induction n arbitrary: g r) (use assms(1-3) in \<open>auto simp: less_Suc_eq\<close>)

lemma ClearQueues_info:
  assumes "txnq_wf q" "f < 4"
  shows "txn_queue (txnQ_ClearQueues q f) g r =
      (if g = f \<and> r < unat (uNumPrios (func_info q f)) then map_option (\<lambda>_. []) (txn_queue q g r) else txn_queue q g r)"
    and "func_info (txnQ_ClearQueues q f) g =
      (if g = f then (func_info q f)\<lparr>pSingleStep := None, eState := FUNC_STATE_RUNNING\<rparr> else func_info q g)"
    and "length (aTxnQueues (txnQ_ClearQueues q f)) = 4"
    and "length (aTxnQueues (txnQ_ClearQueues q f) ! g) = length (aTxnQueues q ! g)"
    and "length (aFuncInfo (txnQ_ClearQueues q f)) = 4"
    and "txn_log (txnQ_ClearQueues q f) = txn_log q @ [EvClear f]"
proof -
  let ?q = "upd_func f (\<lambda>i. i\<lparr>pSingleStep := None\<rparr>) q" and ?n = "unat (uNumPrios (func_info q f))"
  note l = txnq_wfD(1-3) [OF assms(1)]
  have "?n \<le> unat (2 :: u32)" using txnq_wfD(6) [OF assms] by (simp only: word_le_nat_alt)
  then have n: "?n \<le> 2" by simp
  have u: "unat (uNumPrios (func_info ?q f)) = ?n" by simp
  have len: "length (aTxnQueues ?q) = 4" "length (aTxnQueues ?q ! f) = 2" using l assms(2) by simp_all
  note c = ClearQueues_queue [OF len assms(2) n]
  show "txn_queue (txnQ_ClearQueues q f) g r = (if g = f \<and> r < ?n then map_option (\<lambda>_. []) (txn_queue q g r) else txn_queue q g r)"
    unfolding txnQ_ClearQueues_def Let_def u by (simp add: c)
  show "func_info (txnQ_ClearQueues q f) g = (if g = f then (func_info q f)\<lparr>pSingleStep := None, eState := FUNC_STATE_RUNNING\<rparr> else func_info q g)"
    unfolding txnQ_ClearQueues_def Let_def u using assms(2) l(1) c(2)
    by (simp add: func_info_cong [OF c(2)])
  show "length (aTxnQueues (txnQ_ClearQueues q f)) = 4"
    "length (aTxnQueues (txnQ_ClearQueues q f) ! g) = length (aTxnQueues q ! g)"
    "length (aFuncInfo (txnQ_ClearQueues q f)) = 4" "txn_log (txnQ_ClearQueues q f) = txn_log q @ [EvClear f]"
    unfolding txnQ_ClearQueues_def Let_def u using l(1) by (simp_all add: c)
qed

lemma ClearQueues_ok:
  assumes "txn_ok c q" "f < 4"
  shows "txn_ok c (txnQ_ClearQueues q f)"
proof (rule txn_ok_emit [OF assms(1), where e = "EvClear f"])
  note wf = txn_ok_wf [OF assms(1)]
  note i = ClearQueues_info [OF wf assms(2)]
  note d = txnq_wfD [OF wf]
  have q0: "queue_items (txn_queue (txnQ_ClearQueues q f) g r) = (if g = f then [] else queue_items (txn_queue q g r))" if "g < 4" "r < 2" for g r
    using d(7) [of f r] that by (cases "txn_queue q g r") (auto simp: i queue_items_def)
  have sp: "pSingleStep (func_info (txnQ_ClearQueues q f) g) = (if g = f then None else pSingleStep (func_info q g))" for g
    by (simp add: i(2))
  show "txnq_wf (txnQ_ClearQueues q f)" unfolding txnq_wf_def
  proof (intro conjI allI impI ballI)
    fix g r :: nat assume gr: "g < 4" "r < 2"
    show "item_ok g r x" if "x \<in> set (queue_items (txn_queue (txnQ_ClearQueues q f) g r))" for x
      using that d(8) [OF gr] by (auto simp: q0 [OF gr] split: if_splits)
    show "r < unat (uNumPrios (func_info (txnQ_ClearQueues q f) g))" if "txn_queue (txnQ_ClearQueues q f) g r \<noteq> None"
      using that d(7) [OF gr] by (auto simp: i split: if_splits)
  qed (use d i in \<open>auto split: if_splits\<close>)
  show "spec_ev (EvClear f) (txn_abs c q) = Some (txn_abs c (txnQ_ClearQueues q f))"
    using q0 sp assms(2) by (auto simp: txn_abs_def fun_eq_iff)
qed (simp add: ClearQueues_info [OF txn_ok_wf [OF assms(1)] assms(2)])

lemma abs_done1: "(txn_abs c q)\<lparr>sp_done := xs\<rparr> = txn_abs c (q\<lparr>hTxnDoneQueue := Some xs\<rparr>)"
  by (auto simp: txn_abs_def queue_items_def txn_queue_def func_info_def fun_eq_iff)

lemma Restart_ok: "txn_ok c q \<Longrightarrow> f < 4 \<Longrightarrow> txn_ok c (snd (txnQ_Restart q f))"
  by (auto simp: txnQ_Restart_def intro: ClearQueues_ok upd_state_ok split: option.split)

lemma sched_again_ok [simp]: "txn_ok c (sched_again q) = txn_ok c q"
  by (auto elim!: txn_ok_cong)

text \<open>The calls a callback may make: priorities and functions that exist.\<close>

fun req_ok :: "txn_req \<Rightarrow> bool" where
  "req_ok (ReqTransact x) = (txn_prio x < 2)"
| "req_ok (ReqRun f) = (f < 4)"
| "req_ok (ReqStop f) = (f < 4)"
| "req_ok (ReqRestart f) = (f < 4)"
| "req_ok ReqTxnDone = True"

definition env_ok :: "txn_env \<Rightarrow> bool" where
  "env_ok env \<longleftrightarrow> (\<forall>q x. list_all req_ok (done_cb env q x))"

lemma nested_req_ok: "txn_ok c q \<Longrightarrow> req_ok r \<Longrightarrow> txn_ok c (nested_req q r)"
  by (cases r) (auto simp: txnQ_Stop_def intro: accept_ok upd_state_ok Restart_ok split: option.split)

lemma nested_reqs_ok: "txn_ok c q \<Longrightarrow> list_all req_ok rs \<Longrightarrow> txn_ok c (foldl nested_req q rs)"
  by (induction rs arbitrary: q) (simp_all add: nested_req_ok)

lemma done_put_ok:
  assumes "txn_ok (Some x) q"
  shows "txn_ok None (done_put x q)"
proof (cases "slot_put q (hTxnDoneQueue q) x")
  case None
  then have q': "done_put x q = emit (EvLost x) q" by (simp add: done_put_def)
  show ?thesis unfolding q'
    by (rule txn_ok_emit [OF assms, where e = "EvLost x"]) (use txn_ok_wf [OF assms] in \<open>simp_all add: abs_cur\<close>)
next
  case (Some v)
  then have q': "done_put x q = emit (EvComplete x) (q\<lparr>hTxnDoneQueue := Some v\<rparr>)" by (simp add: done_put_def)
  from Some have v: "v = queue_items (hTxnDoneQueue q) @ [x]" by (auto simp: slot_put_def queue_items_def split: option.splits if_splits)
  show ?thesis unfolding q'
    by (rule txn_ok_emit [OF assms, where e = "EvComplete x"])
      (use wf_cong [OF txn_ok_wf [OF assms]] in \<open>simp_all add: abs_done v\<close>)
qed

lemma txn_done_ok:
  assumes "txn_ok (Some x) q" "env_ok env"
  shows "txn_ok None (txn_done env q x)"
proof -
  let ?x = "set_status TXN_PARAM_STATUS_RECOVERY x" and ?c = "txnQ_ClearQueues q (txn_func x)"
  have "txn_ok None (emit (EvRecovered ?x) ?c)"
    by (rule txn_ok_emit [OF ClearQueues_ok [OF assms(1) txn_func_less], where e = "EvRecovered ?x"])
      (use txn_ok_wf [OF ClearQueues_ok [OF assms(1) txn_func_less]] in \<open>simp_all add: abs_cur set_status_def\<close>)
  then have r: "txn_ok None (foldl nested_req (emit (EvRecovered ?x) ?c) (done_cb env (emit (EvRecovered ?x) ?c) ?x))"
    using assms(2) by (auto simp: env_ok_def intro: nested_reqs_ok)
  have "txn_ok None (if eState (func_info q (txn_func x)) = FUNC_STATE_RESTART
      then foldl nested_req (emit (EvRecovered ?x) ?c) (done_cb env (emit (EvRecovered ?x) ?c) ?x) else done_put x q)"
    using r done_put_ok [OF assms(1)] by simp
  then show ?thesis unfolding txn_done_def Let_def by (rule txn_ok_cong) simp_all
qed

lemma txn_done_cur [simp]: "pCurrTxn (txn_done env q x) = None"
  by (simp add: txn_done_def Let_def)

text \<open>Outside a callback the specification's transaction on the bus is \<open>pCurrTxn\<close>.\<close>

abbreviation txn_inv :: "TTxnQObj \<Rightarrow> bool" where "txn_inv q \<equiv> txn_ok (pCurrTxn q) q"

lemma cb_req_ok: "txn_inv q \<Longrightarrow> env_ok env \<Longrightarrow> req_ok r \<Longrightarrow> txn_inv (cb_req env q r)"
  using nested_req_ok [of "pCurrTxn q" q r]
  by (auto simp: cb_req_def nested_done_def txn_done_ok split: option.split)

lemma cb_reqs_ok: "txn_inv q \<Longrightarrow> env_ok env \<Longrightarrow> list_all req_ok rs \<Longrightarrow> txn_inv (foldl (cb_req env) q rs)"
  by (induction rs arbitrary: q) (simp_all add: cb_req_ok)

lemma done_loop_end: "queue_items (hTxnDoneQueue q) = [] \<Longrightarrow> done_loop env q = q"
  by (subst done_loop.simps) (auto simp: queue_items_def split: option.splits)

lemma done_loop_step:
  assumes "hTxnDoneQueue q = Some (x # xs)"
  shows "done_loop env q = done_loop env (foldl (cb_req env) (emit (EvReport x) (q\<lparr>hTxnDoneQueue := Some xs\<rparr>))
    (done_cb env (emit (EvReport x) (q\<lparr>hTxnDoneQueue := Some xs\<rparr>)) x))"
  by (subst done_loop.simps) (simp add: assms Let_def)

lemma done_loop_ok:
  assumes "txn_inv q" "env_ok env"
  shows "txn_inv (done_loop env q) \<and> queue_items (hTxnDoneQueue (done_loop env q)) = []"
  using assms
proof (induction env q rule: done_loop.induct)
  case (1 env q)
  show ?case
  proof (cases "queue_items (hTxnDoneQueue q)")
    case Nil
    with 1 show ?thesis by (simp add: done_loop_end)
  next
    case (Cons x xs)
    then have h: "hTxnDoneQueue q = Some (x # xs)" by (auto simp: queue_items_def split: option.splits)
    let ?q = "emit (EvReport x) (q\<lparr>hTxnDoneQueue := Some xs\<rparr>)"
    have "txn_ok (pCurrTxn q) ?q"
      by (rule txn_ok_emit [OF 1(2), where e = "EvReport x"])
        (use Cons wf_cong [OF txn_ok_wf [OF 1(2)]] in \<open>simp_all add: abs_done1\<close>)
    then have "txn_inv (foldl (cb_req env) ?q (done_cb env ?q x))"
      using 1(3) by (intro cb_reqs_ok) (auto simp: env_ok_def)
    from 1(1) [OF h refl refl this 1(3)] show ?thesis by (simp add: done_loop_step [OF h])
  qed
qed

subsection \<open>Selection\<close>

definition candidate :: "TTxnQObj \<Rightarrow> nat \<Rightarrow> nat \<Rightarrow> bool" where
  "candidate q p f \<longleftrightarrow> eState (func_info q f) = FUNC_STATE_RUNNING \<and> p < unat (uNumPrios (func_info q f)) \<and>
     queue_items (txn_queue q f p) \<noteq> []"

lemma select_single_None: "select_single fs q = None \<longleftrightarrow> (\<forall>f\<in>set fs. pSingleStep (func_info q f) = None)"
  by (induction fs) (auto split: option.splits)

lemma select_single_Some:
  assumes "select_single fs q = Some (x, q')"
  shows "\<exists>ys f zs. fs = ys @ f # zs \<and> (\<forall>g\<in>set ys. pSingleStep (func_info q g) = None) \<and>
    pSingleStep (func_info q f) = Some x \<and> q' = upd_func f (\<lambda>i. i\<lparr>pSingleStep := None\<rparr>) q"
  using assms
proof (induction fs)
  case (Cons f fs)
  show ?case
  proof (cases "pSingleStep (func_info q f)")
    case None
    with Cons obtain ys g zs where "fs = ys @ g # zs" "\<forall>h\<in>set ys. pSingleStep (func_info q h) = None"
      "pSingleStep (func_info q g) = Some x" "q' = upd_func g (\<lambda>i. i\<lparr>pSingleStep := None\<rparr>) q" by auto
    with None have "f # fs = (f # ys) @ g # zs \<and> (\<forall>h\<in>set (f # ys). pSingleStep (func_info q h) = None) \<and>
      pSingleStep (func_info q g) = Some x \<and> q' = upd_func g (\<lambda>i. i\<lparr>pSingleStep := None\<rparr>) q" by auto
    then show ?thesis by blast
  next
    case (Some y)
    with Cons.prems have "f # fs = [] @ f # fs \<and> (\<forall>h\<in>set []. pSingleStep (func_info q h) = None) \<and>
      pSingleStep (func_info q f) = Some x \<and> q' = upd_func f (\<lambda>i. i\<lparr>pSingleStep := None\<rparr>) q" by simp
    then show ?thesis by blast
  qed
qed simp

lemma select_queued_skip: "\<not> candidate q p f \<Longrightarrow> select_queued ((p, f) # pfs) q = select_queued pfs q"
  by (auto simp: candidate_def queue_items_def split: option.splits list.splits)

lemma candidate_queue: "candidate q p f \<Longrightarrow> \<exists>x xs. txn_queue q f p = Some (x # xs)"
  by (auto simp: candidate_def queue_items_def neq_Nil_conv split: option.splits)

definition aggregate_from :: "nat \<Rightarrow> nat \<Rightarrow> TTxnStruct \<Rightarrow> TTxnQObj \<Rightarrow> TTxnQObj" where
  "aggregate_from f p x q = (if txn_aggregate x = TXN_AGGREGATE_ON then q\<lparr>pAggregQueue := Some (f, p)\<rparr> else q)"

lemma select_queued_take:
  assumes "candidate q p f" "txn_queue q f p = Some (x # xs)"
  shows "select_queued ((p, f) # pfs) q = Some (x, aggregate_from f p x (set_queue f p (Some xs) q))"
  using assms by (simp add: candidate_def aggregate_from_def Let_def)

lemma select_queued_None: "select_queued pfs q = None \<longleftrightarrow> (\<forall>(p, f)\<in>set pfs. \<not> candidate q p f)"
proof (induction pfs)
  case (Cons pf pfs)
  obtain p f where pf: "pf = (p, f)" by force
  show ?case
  proof (cases "candidate q p f")
    case True
    with candidate_queue [OF True] show ?thesis by (auto simp del: select_queued.simps simp: pf select_queued_take)
  qed (use Cons in \<open>auto simp del: select_queued.simps simp: pf select_queued_skip\<close>)
qed simp

lemma select_queued_Some:
  assumes "select_queued pfs q = Some (x, q')"
  shows "\<exists>ys p f zs xs. pfs = ys @ (p, f) # zs \<and> (\<forall>(r, g)\<in>set ys. \<not> candidate q r g) \<and> candidate q p f \<and>
    txn_queue q f p = Some (x # xs) \<and> q' = aggregate_from f p x (set_queue f p (Some xs) q)"
  using assms
proof (induction pfs)
  case (Cons pf pfs)
  obtain p f where pf: "pf = (p, f)" by force
  show ?case
  proof (cases "candidate q p f")
    case True
    from candidate_queue [OF True] obtain y xs where y: "txn_queue q f p = Some (y # xs)" by blast
    from Cons.prems pf select_queued_take [OF True y] have "y = x" "q' = aggregate_from f p x (set_queue f p (Some xs) q)" by auto
    with pf True y show ?thesis by (intro exI [of _ "[]"]) auto
  next
    case False
    from Cons.prems pf have "select_queued pfs q = Some (x, q')" using select_queued_skip [OF False, of pfs] by simp
    with Cons.IH obtain ys r g zs xs where *: "pfs = ys @ (r, g) # zs" "\<forall>(r, g)\<in>set ys. \<not> candidate q r g" "candidate q r g"
      "txn_queue q g r = Some (x # xs)" "q' = aggregate_from g r x (set_queue g r (Some xs) q)" by blast
    with pf False have "pf # pfs = ((p, f) # ys) @ (r, g) # zs \<and> (\<forall>(r, g)\<in>set ((p, f) # ys). \<not> candidate q r g)" by auto
    with *(3-5) show ?thesis by blast
  qed
qed simp

lemma prio_range_set: "set (prio_range q) = {(p, f). p < 2 \<and> f \<in> set (func_range q)}"
  by (auto simp: prio_range_def MAX_PRIORITY_def)

lemma func_range_less:
  assumes "txnq_wf q" "f \<in> set (func_range q)"
  shows "f < 4"
proof -
  have "unat (uMaxFuncId q) < unat (4 :: u32)" using txnq_wfD(4) [OF assms(1)] by (simp only: word_less_nat_alt)
  then show ?thesis using assms(2) by (auto simp: func_range_def)
qed

text \<open>What a selection may take: a single step, or the head of a queue.\<close>

lemma Select_cases:
  assumes "txnq_wf q" "txnQ_SelectTxn q = Some (x, q')"
  obtains (single) f where "f < 4" "pSingleStep (func_info q f) = Some x" "q' = upd_func f (\<lambda>i. i\<lparr>pSingleStep := None\<rparr>) q"
  | (queued) f p xs ag where "f < 4" "p < 2" "txn_queue q f p = Some (x # xs)"
      "q' = (set_queue f p (Some xs) q)\<lparr>pAggregQueue := ag\<rparr>" "ag \<in> {None, Some (f, p)}"
proof (cases "pAggregQueue q")
  case (Some fp)
  then obtain f p where fp: "pAggregQueue q = Some (f, p)" by (cases fp) auto
  with assms(2) obtain xs where xs: "txn_queue q f p = Some (x # xs)"
    "q' = (set_queue f p (Some xs) q)\<lparr>pAggregQueue := if txn_aggregate x = TXN_AGGREGATE_OFF then None else Some (f, p)\<rparr>"
    by (auto simp: txnQ_SelectTxn_def Let_def set_queue_def split: option.splits list.splits if_splits)
  from txnq_wfD(10) [OF assms(1) fp] have "f < 4" "p < 2" by auto
  from queued [OF this xs] show ?thesis by simp
next
  case None
  show ?thesis
  proof (cases "select_single (func_range q) q")
    case (Some r)
    with None assms(2) have "select_single (func_range q) q = Some (x, q')" by (simp add: txnQ_SelectTxn_def)
    from select_single_Some [OF this] obtain ys f zs where f: "func_range q = ys @ f # zs"
      "pSingleStep (func_info q f) = Some x" "q' = upd_func f (\<lambda>i. i\<lparr>pSingleStep := None\<rparr>) q" by blast
    from f(1) have "f \<in> set (func_range q)" by simp
    from single [OF func_range_less [OF assms(1) this] f(2,3)] show ?thesis .
  next
    case None': None
    with None assms(2) have "select_queued (prio_range q) q = Some (x, q')" by (simp add: txnQ_SelectTxn_def)
    from select_queued_Some [OF this] obtain p f xs where *: "(p, f) \<in> set (prio_range q)" "txn_queue q f p = Some (x # xs)"
      "q' = aggregate_from f p x (set_queue f p (Some xs) q)" by fastforce
    have q': "q' = (set_queue f p (Some xs) q)\<lparr>pAggregQueue := if txn_aggregate x = TXN_AGGREGATE_ON then Some (f, p) else None\<rparr>"
      using *(3) None by (auto simp: aggregate_from_def set_queue_def)
    from *(1) have "f \<in> set (func_range q)" "p < 2" by (auto simp: prio_range_set)
    from queued [OF func_range_less [OF assms(1) this(1)] this(2) *(2) q'] show ?thesis by simp
  qed
qed

definition func_waiting :: "TTxnQObj \<Rightarrow> nat \<Rightarrow> nat" where
  "func_waiting q f = (if pSingleStep (func_info q f) = None then 0 else 1)
     + length (queue_items (txn_queue q f 0)) + length (queue_items (txn_queue q f 1))"

lemma waiting_sum: "waiting q = (\<Sum>f\<in>{0..<4}. func_waiting q f)"
  unfolding waiting_def func_waiting_def MAX_FUNCTIONS_def interv_sum_list_conv_sum_set_nat set_upt by (rule refl)

lemma waiting_less:
  assumes "f < 4" "func_waiting q' f < func_waiting q f" "\<And>g. g \<noteq> f \<Longrightarrow> func_waiting q' g = func_waiting q g"
  shows "waiting q' < waiting q"
  unfolding waiting_sum
proof (rule sum_strict_mono_ex1)
  show "\<forall>g\<in>{0..<4}. func_waiting q' g \<le> func_waiting q g" using assms(2,3) by (metis less_imp_le order_refl)
  show "\<exists>g\<in>{0..<4}. func_waiting q' g < func_waiting q g" using assms(1,2) by (intro bexI [of _ f]) auto
qed simp

lemma waiting_cong:
  assumes "aFuncInfo q' = aFuncInfo q" "aTxnQueues q' = aTxnQueues q"
  shows "waiting q' = waiting q"
  by (simp add: waiting_sum func_waiting_def func_info_cong [OF assms(1)] txn_queue_cong [OF assms(2)])

lemma Select_ok:
  assumes "txn_ok None q" "txnQ_SelectTxn q = Some (x, q')"
  shows "txn_ok (Some x) (emit (EvSent x) (q'\<lparr>pCurrTxn := Some x\<rparr>))" "waiting q' < waiting q"
proof -
  note wf = txn_ok_wf [OF assms(1)]
  from wf assms(2) have "txn_ok (Some x) (emit (EvSent x) (q'\<lparr>pCurrTxn := Some x\<rparr>)) \<and> waiting q' < waiting q"
  proof (cases rule: Select_cases)
    case (single f)
    let ?h = "\<lambda>i. i\<lparr>pSingleStep := None\<rparr>"
    have x: "txn_func x = f" "txn_single x" using txnq_wfD(9) [OF wf single(1,2)] by auto
    have "txnq_wf q'" unfolding single(3) by (rule wf_upd_func [OF wf single(1)]) simp_all
    moreover have "spec_ev (EvSent x) (txn_abs None q) = Some (txn_abs (Some x) q')"
      unfolding single(3) using x single(1,2) by (simp add: abs_upd_single [OF wf, of _ ?h None]) (simp add: txn_abs_def)
    moreover have "txn_log q' = txn_log q" unfolding single(3) by simp
    ultimately have "txn_ok (Some x) (emit (EvSent x) q')" by (intro txn_ok_emit [OF assms(1), where e = "EvSent x"]) simp_all
    moreover have "waiting q' < waiting q"
      unfolding single(3)
      by (rule waiting_less [OF single(1)]) (use single(1,2) txnq_wfD(1) [OF wf] in \<open>simp_all add: func_waiting_def\<close>)
    ultimately show ?thesis using txn_ok_cong [of "Some x" "emit (EvSent x) q'" "emit (EvSent x) (q'\<lparr>pCurrTxn := Some x\<rparr>)"] by simp
  next
    case (queued f p xs ag)
    let ?q = "set_queue f p (Some xs) q"
    have ok: "item_ok f p y" if "y \<in> set (x # xs)" for y
      using txnq_wfD(8) [OF wf queued(1,2)] queued(3) that by (simp add: queue_items_def)
    then have x: "txn_func x = f" "txn_prio x = p" "\<not> txn_single x" by (simp_all add: item_ok_def)
    have "txnq_wf ?q"
      by (rule wf_set_queue [OF wf queued(1,2) txnq_wfD(7) [OF wf queued(1-3)]]) (use ok in \<open>simp add: queue_items_def\<close>)
    then have "txnq_wf q'" unfolding queued(4) using queued(1,2,5)
      by (auto simp: txnq_wf_def func_info_def txn_queue_def)
    moreover have "txn_abs (Some x) q' = txn_abs (Some x) ?q" unfolding queued(4) by (rule abs_cong) simp_all
    then have "spec_ev (EvSent x) (txn_abs None q) = Some (txn_abs (Some x) q')"
      using x queued(1-3) by (simp add: abs_set_queue [OF wf] queue_items_def) (simp add: txn_abs_def)
    moreover have "txn_log q' = txn_log q" unfolding queued(4) by simp
    ultimately have "txn_ok (Some x) (emit (EvSent x) q')" by (intro txn_ok_emit [OF assms(1), where e = "EvSent x"]) simp_all
    moreover have "waiting q' = waiting ?q" unfolding queued(4) by (rule waiting_cong) simp_all
    moreover have "waiting ?q < waiting q"
    proof (rule waiting_less [OF queued(1)])
      have "p = 0 \<or> p = 1" using queued(2) by auto
      then show "func_waiting ?q f < func_waiting q f"
        using queued(1-3) txnq_wfD(2,3) [OF wf] by (auto simp: func_waiting_def queue_items_def)
      show "g \<noteq> f \<Longrightarrow> func_waiting ?q g = func_waiting q g" for g
        using queued(1,2) txnq_wfD(2,3) [OF wf] by (simp add: func_waiting_def)
    qed
    ultimately show ?thesis using txn_ok_cong [of "Some x" "emit (EvSent x) q'" "emit (EvSent x) (q'\<lparr>pCurrTxn := Some x\<rparr>)"] by simp
  qed
  then show "txn_ok (Some x) (emit (EvSent x) (q'\<lparr>pCurrTxn := Some x\<rparr>))" "waiting q' < waiting q" by blast+
qed

subsection \<open>The scheduler\<close>

lemma return_ok:
  assumes "txn_ok (Some x) q"
  shows "txn_ok None (emit (EvReturn x) q)"
  by (rule txn_ok_emit [OF assms, where e = "EvReturn x"]) (use txn_ok_wf [OF assms] in \<open>simp_all add: abs_cur\<close>)

text \<open>One round: a transaction is sent, and either stays on the bus or is completed at once.\<close>

definition send_one :: "txn_env \<Rightarrow> TTxnStruct option \<Rightarrow> TTxnStruct \<Rightarrow> TTxnQObj \<Rightarrow> TTxnQObj" where
  "send_one env inp x q =
     (let q = emit (EvSent x) (q\<lparr>pCurrTxn := Some x\<rparr>) in
      if bus_rsp env q x = TXN_STATUS_PENDING then q
      else if same_txn inp x then emit (EvReturn x) (q\<lparr>pCurrTxn := None\<rparr>) else done_put x (q\<lparr>pCurrTxn := None\<rparr>))"

lemma send_one_fields [simp]:
  "aFuncInfo (send_one env inp x q) = aFuncInfo q" "aTxnQueues (send_one env inp x q) = aTxnQueues q"
  "bSchedulerBusy (send_one env inp x q) = bSchedulerBusy q" "bSchedulerPend (send_one env inp x q) = bSchedulerPend q"
  by (simp_all add: send_one_def Let_def)

lemma send_one_ok:
  assumes "txn_ok (Some x) (emit (EvSent x) (q\<lparr>pCurrTxn := Some x\<rparr>))"
  shows "txn_inv (send_one env inp x q)"
proof -
  let ?q = "emit (EvSent x) (q\<lparr>pCurrTxn := Some x\<rparr>)"
  have "txn_ok (Some x) (?q\<lparr>pCurrTxn := None\<rparr>)" by (rule txn_ok_cong [OF assms]) simp_all
  from return_ok [OF this] done_put_ok [OF this] assms show ?thesis by (simp add: send_one_def Let_def)
qed

lemma send_loop_Suc:
  "send_loop (Suc n) env inp st q =
     (case txnQ_SelectTxn q of
        None \<Rightarrow> (st, q)
      | Some (x, r) \<Rightarrow>
          let s = bus_rsp env (emit (EvSent x) (r\<lparr>pCurrTxn := Some x\<rparr>)) x;
              st = (if same_txn inp x then s else st)
          in if s = TXN_STATUS_PENDING then (st, send_one env inp x r) else send_loop n env inp st (send_one env inp x r))"
  by (auto simp: send_one_def Let_def split: option.split)

lemma send_loop_ok:
  assumes "txn_inv q" "pCurrTxn q = None" "waiting q < n" "send_loop n env inp st q = (st', q')"
  shows "txn_inv q'" "pCurrTxn q' = None \<Longrightarrow> txnQ_SelectTxn q' = None" "bSchedulerBusy q' = bSchedulerBusy q"
    "bSchedulerPend q' = bSchedulerPend q" "waiting q' + (if pCurrTxn q' = None then 0 else 1) \<le> waiting q"
proof -
  have "txn_inv q' \<and> (pCurrTxn q' = None \<longrightarrow> txnQ_SelectTxn q' = None) \<and> bSchedulerBusy q' = bSchedulerBusy q \<and>
    bSchedulerPend q' = bSchedulerPend q \<and> waiting q' + (if pCurrTxn q' = None then 0 else 1) \<le> waiting q"
    using assms
  proof (induction n arbitrary: st q)
    case (Suc n)
    show ?case
    proof (cases "txnQ_SelectTxn q")
      case None
      with Suc.prems show ?thesis by (simp add: send_loop_Suc del: send_loop.simps)
    next
      case (Some r)
      then obtain x r where r: "txnQ_SelectTxn q = Some (x, r)" by (cases r) auto
      have ok: "txn_ok None q" using Suc.prems(1,2) by simp
      note s = Select_ok [OF ok r]
      have busy: "bSchedulerBusy r = bSchedulerBusy q" "bSchedulerPend r = bSchedulerPend q"
        using txn_ok_wf [OF ok] r by (auto elim!: Select_cases)
      let ?q = "send_one env inp x r"
      have w: "waiting ?q < waiting q" using s(2) waiting_cong [of ?q r] by simp
      show ?thesis
      proof (cases "bus_rsp env (emit (EvSent x) (r\<lparr>pCurrTxn := Some x\<rparr>)) x = TXN_STATUS_PENDING")
        case True
        then have "pCurrTxn ?q = Some x" by (simp add: send_one_def Let_def)
        moreover have "q' = ?q" using Suc.prems(4) r True by (simp add: send_loop_Suc Let_def del: send_loop.simps)
        moreover have "txn_inv ?q" by (rule send_one_ok [OF s(1)])
        ultimately show ?thesis using w busy by simp
      next
        case False
        then have c: "pCurrTxn ?q = None" by (simp add: send_one_def Let_def)
        from Suc.prems(4) r False obtain st2 where "send_loop n env inp st2 ?q = (st', q')"
          by (auto simp: send_loop_Suc Let_def simp del: send_loop.simps)
        from Suc.IH [OF send_one_ok [OF s(1)] c _ this] w Suc.prems(3) busy show ?thesis by (auto split: if_splits)
      qed
    qed
  qed simp
  then show "txn_inv q'" "pCurrTxn q' = None \<Longrightarrow> txnQ_SelectTxn q' = None" "bSchedulerBusy q' = bSchedulerBusy q"
    "bSchedulerPend q' = bSchedulerPend q" "waiting q' + (if pCurrTxn q' = None then 0 else 1) \<le> waiting q" by blast+
qed

lemma send_loop_fuel:
  assumes "txn_inv q" "pCurrTxn q = None" "waiting q < n" "waiting q < m"
  shows "send_loop n env inp st q = send_loop m env inp st q"
  using assms
proof (induction n arbitrary: m st q)
  case (Suc n)
  from Suc.prems(4) obtain k where k: "m = Suc k" by (cases m) auto
  show ?case
  proof (cases "txnQ_SelectTxn q")
    case None
    then show ?thesis by (simp add: send_loop_Suc k del: send_loop.simps)
  next
    case (Some r)
    then obtain x r where r: "txnQ_SelectTxn q = Some (x, r)" by (cases r) auto
    have ok: "txn_ok None q" using Suc.prems(1,2) by simp
    note s = Select_ok [OF ok r]
    let ?q = "send_one env inp x r"
    have w: "waiting ?q < waiting q" using s(2) waiting_cong [of ?q r] by simp
    have "pCurrTxn ?q = None \<Longrightarrow> send_loop n env inp st2 ?q = send_loop k env inp st2 ?q" for st2
      using Suc.IH [OF send_one_ok [OF s(1)], where m = k] w Suc.prems(3,4) k by simp
    moreover have "pCurrTxn ?q = None" if "bus_rsp env (emit (EvSent x) (r\<lparr>pCurrTxn := Some x\<rparr>)) x \<noteq> TXN_STATUS_PENDING"
      using that by (simp add: send_one_def Let_def)
    ultimately show ?thesis using r by (auto simp: send_loop_Suc k Let_def simp del: send_loop.simps)
  qed
qed simp

text \<open>When there is nothing to select.\<close>

definition blocked :: "TTxnQObj \<Rightarrow> bool" where
  "blocked q \<longleftrightarrow> (case pAggregQueue q of
     Some (f, p) \<Rightarrow> queue_items (txn_queue q f p) = []
   | None \<Rightarrow> \<forall>f\<in>set (func_range q). pSingleStep (func_info q f) = None \<and> (\<forall>p<2. \<not> candidate q p f))"

lemma Select_None: "txnQ_SelectTxn q = None \<longleftrightarrow> blocked q"
proof (cases "pAggregQueue q")
  case None
  have "txnQ_SelectTxn q = None \<longleftrightarrow> select_single (func_range q) q = None \<and> select_queued (prio_range q) q = None"
    using None by (auto simp: txnQ_SelectTxn_def split: option.splits)
  then show ?thesis using None by (auto simp: blocked_def select_single_None select_queued_None prio_range_set)
next
  case (Some fp)
  then show ?thesis
    by (cases fp) (auto simp: txnQ_SelectTxn_def blocked_def queue_items_def Let_def split: option.splits list.splits)
qed

text \<open>Nothing is left to do: a call is pending, the bus is occupied, or there is nothing to select.\<close>

definition quiet :: "TTxnQObj \<Rightarrow> bool" where
  "quiet q \<longleftrightarrow> bSchedulerPend q \<or> pCurrTxn q \<noteq> None \<or> blocked q"

lemma blocked_mono:
  assumes "blocked q" "pAggregQueue q' = pAggregQueue q" "uMinFuncId q' = uMinFuncId q" "uMaxFuncId q' = uMaxFuncId q"
    "\<And>f p. queue_items (txn_queue q f p) = [] \<Longrightarrow> queue_items (txn_queue q' f p) = []"
    "\<And>f. pSingleStep (func_info q f) = None \<Longrightarrow> pSingleStep (func_info q' f) = None"
    "\<And>p f. p < 2 \<Longrightarrow> candidate q' p f \<Longrightarrow> candidate q p f"
  shows "blocked q'"
proof -
  have r: "func_range q' = func_range q" using assms(3,4) by (simp add: func_range_def)
  show ?thesis
  proof (cases "pAggregQueue q")
    case None
    then have "pSingleStep (func_info q f) = None \<and> (\<forall>p<2. \<not> candidate q p f)" if "f \<in> set (func_range q)" for f
      using assms(1) that by (simp add: blocked_def)
    with assms(6,7) have "pSingleStep (func_info q' f) = None \<and> (\<forall>p<2. \<not> candidate q' p f)" if "f \<in> set (func_range q)" for f
      using that by blast
    then show ?thesis using None assms(2) r by (simp add: blocked_def)
  qed (use assms(1,2,5) in \<open>auto simp: blocked_def\<close>)
qed

lemma ClearQueues_blocked:
  assumes "txnq_wf q" "f < 4" "blocked q"
  shows "blocked (txnQ_ClearQueues q f)"
proof (rule blocked_mono [OF assms(3)])
  note i = ClearQueues_info [OF assms(1,2)]
  show "queue_items (txn_queue q g p) = [] \<Longrightarrow> queue_items (txn_queue (txnQ_ClearQueues q f) g p) = []" for g p
    by (cases "txn_queue q g p") (auto simp: i queue_items_def)
  show "candidate (txnQ_ClearQueues q f) p g \<Longrightarrow> candidate q p g" if "p < 2" for p g
    by (cases "txn_queue q f p"; cases "g = f") (auto simp: candidate_def i queue_items_def)
qed (simp_all add: ClearQueues_info [OF assms(1,2)])

lemma nested_req_quiet:
  assumes "txnq_wf q" "bSchedulerBusy q" "quiet q" "req_ok r"
  shows "quiet (nested_req q r)"
proof (cases r)
  case (ReqTransact x)
  show ?thesis
  proof (cases "txn_accept q x")
    case (Some q')
    with ReqTransact accept_fields(3) [OF Some] assms(2) show ?thesis by (simp add: sched_again_def quiet_def)
  qed (use ReqTransact assms(3) in simp)
next
  case (ReqRun f)
  then show ?thesis using assms(2) by (simp add: sched_again_def quiet_def)
next
  case (ReqStop f)
  have "blocked q \<Longrightarrow> blocked (txnQ_Stop q f)"
    by (rule blocked_mono) (auto simp: txnQ_Stop_def candidate_def split: if_splits)
  then show ?thesis using ReqStop assms(3) by (auto simp: quiet_def txnQ_Stop_def)
next
  case (ReqRestart f)
  then show ?thesis using assms ClearQueues_blocked [OF assms(1), of f]
    by (auto simp: quiet_def txnQ_Restart_def split: option.splits)
qed (use assms(3) in simp)

end
