(* ===== verification/Wlan_TxnSched.thy ===== *)
theory Wlan_TxnSched
  imports Wlan_TxnQueue
begin

text \<open>
  The scheduler of \<open>Txn/TxnQueue.c\<close> as a whole: runs of \<open>txnQ_RunScheduler\<close>, the reachable states of the
  transaction queue, and its properties.
\<close>

section \<open>Runs of the scheduler\<close>

lemma txn_done_busy [simp]: "bSchedulerBusy (txn_done env q x) = bSchedulerBusy q"
  by (simp add: txn_done_def Let_def)

lemma cb_req_busy [simp]: "bSchedulerBusy (cb_req env q r) = bSchedulerBusy q"
  by (auto simp: cb_req_def nested_done_def split: option.split)

lemma cb_reqs_busy [simp]: "bSchedulerBusy (foldl (cb_req env) q rs) = bSchedulerBusy q"
  by (induction rs arbitrary: q) simp_all

lemma nested_done_quiet: "bSchedulerBusy q \<Longrightarrow> quiet q \<Longrightarrow> quiet (nested_done env q)"
  by (auto simp: nested_done_def sched_again_def quiet_def split: option.split)

lemma cb_reqs_quiet:
  assumes "txn_inv q" "bSchedulerBusy q" "quiet q" "env_ok env" "list_all req_ok rs"
  shows "quiet (foldl (cb_req env) q rs)"
  using assms
proof (induction rs arbitrary: q)
  case (Cons r rs)
  have "quiet (cb_req env q r)"
    using Cons.prems nested_req_quiet [OF txn_ok_wf [OF Cons.prems(1)]] nested_done_quiet by (auto simp: cb_req_def)
  with Cons show ?case by (simp add: cb_req_ok)
qed simp

lemma report_quiet:
  "quiet (emit (EvReport x) (q\<lparr>hTxnDoneQueue := v\<rparr>)) = quiet q"
proof -
  have "blocked (emit (EvReport x) (q\<lparr>hTxnDoneQueue := v\<rparr>)) = blocked q"
    by (simp add: blocked_def candidate_def func_range_def func_info_def txn_queue_def cong: option.case_cong)
  then show ?thesis by (simp add: quiet_def)
qed

lemma report_ok:
  assumes "txn_inv q" "hTxnDoneQueue q = Some (x # xs)"
  shows "txn_inv (emit (EvReport x) (q\<lparr>hTxnDoneQueue := Some xs\<rparr>))"
proof -
  have "txn_ok (pCurrTxn q) (emit (EvReport x) (q\<lparr>hTxnDoneQueue := Some xs\<rparr>))"
    by (rule txn_ok_emit [OF assms(1), where e = "EvReport x"])
      (use assms wf_cong [OF txn_ok_wf [OF assms(1)]] in \<open>simp_all add: abs_done1 queue_items_def\<close>)
  then show ?thesis by simp
qed

lemma done_loop_quiet:
  assumes "txn_inv q" "bSchedulerBusy q" "quiet q" "env_ok env"
  shows "quiet (done_loop env q) \<and> bSchedulerBusy (done_loop env q)"
  using assms
proof (induction env q rule: done_loop.induct)
  case (1 env q)
  show ?case
  proof (cases "queue_items (hTxnDoneQueue q)")
    case Nil
    with 1 show ?thesis by (simp add: done_loop_end)
  next
    case (Cons x xs)
    then have h: "hTxnDoneQueue q = Some (x # xs)" by (auto simp: queue_items_def split: option.splits)
    let ?q = "emit (EvReport x) (q\<lparr>hTxnDoneQueue := Some xs\<rparr>)"
    have "list_all req_ok (done_cb env ?q x)" using 1(5) by (auto simp: env_ok_def)
    then have "txn_inv (foldl (cb_req env) ?q (done_cb env ?q x))" "quiet (foldl (cb_req env) ?q (done_cb env ?q x))"
      using cb_reqs_ok [OF report_ok [OF 1(2) h] 1(5)] cb_reqs_quiet [OF report_ok [OF 1(2) h] _ _ 1(5)] 1(3,4)
      by (auto simp: report_quiet)
    from 1(1) [OF h refl refl this(1) _ this(2) 1(5)] 1(3) show ?thesis by (simp add: done_loop_step [OF h])
  qed
qed

lemma Scheduler_ok:
  assumes "txn_inv q" "env_ok env" "bSchedulerBusy q" "pCurrTxn q \<noteq> None \<Longrightarrow> queue_items (hTxnDoneQueue q) = []"
    and "txnQ_Scheduler env q inp = (st, q')"
  shows "txn_inv q'" "bSchedulerBusy q'" "quiet q'" "queue_items (hTxnDoneQueue q') = []"
proof -
  have "txn_inv q' \<and> bSchedulerBusy q' \<and> quiet q' \<and> queue_items (hTxnDoneQueue q') = []"
  proof (cases "pCurrTxn q")
    case None
    obtain st1 q1 where s: "send_loop (Suc (waiting q)) env inp TXN_STATUS_PENDING q = (st1, q1)" by force
    note l = send_loop_ok [OF assms(1) None lessI s]
    let ?q = "if early_done env q1 then nested_done env q1 else q1"
    have q': "q' = done_loop env ?q" using assms(5) None s by (simp add: txnQ_Scheduler_def)
    have q1: "quiet q1" using l(2) by (auto simp: quiet_def Select_None)
    have b: "bSchedulerBusy q1" using l(3) assms(3) by simp
    have ok: "txn_inv ?q" using l(1) cb_req_ok [OF l(1) assms(2), of ReqTxnDone] by (simp add: cb_req_def)
    have "bSchedulerBusy ?q" "quiet ?q"
      using b q1 nested_done_quiet [OF b q1] cb_req_busy [of env q1 ReqTxnDone] by (simp_all add: cb_req_def)
    with done_loop_quiet [OF ok] done_loop_ok [OF ok assms(2)] assms(2) q' show ?thesis by blast
  next
    case (Some x)
    with assms show ?thesis by (simp add: txnQ_Scheduler_def quiet_def)
  qed
  then show "txn_inv q'" "bSchedulerBusy q'" "quiet q'" "queue_items (hTxnDoneQueue q') = []" by blast+
qed

lemma txn_inv_flags [simp]:
  "txn_ok c (q\<lparr>bSchedulerPend := b\<rparr>) = txn_ok c q" "txn_ok c (q\<lparr>bSchedulerBusy := b\<rparr>) = txn_ok c q"
  by (auto elim!: txn_ok_cong)

lemma blocked_flags [simp]:
  "blocked (q\<lparr>bSchedulerBusy := b\<rparr>) = blocked q" "blocked (q\<lparr>bSchedulerPend := b\<rparr>) = blocked q"
  by (simp_all add: blocked_def candidate_def func_range_def func_info_def txn_queue_def cong: option.case_cong)

text \<open>The states between calls: the scheduler is idle, and every completed transaction has been reported.\<close>

definition txn_idle :: "TTxnQObj \<Rightarrow> bool" where
  "txn_idle q \<longleftrightarrow> \<not> bSchedulerBusy q \<and> \<not> bSchedulerPend q \<and> queue_items (hTxnDoneQueue q) = []"

lemma run_loop_ok:
  assumes "run_loop env q inp = Some (st, q')"
    and "txn_inv q" "env_ok env" "bSchedulerBusy q" "pCurrTxn q \<noteq> None \<Longrightarrow> queue_items (hTxnDoneQueue q) = []"
  shows "txn_inv q' \<and> txn_idle q' \<and> (pCurrTxn q' \<noteq> None \<or> blocked q')"
proof -
  let ?P = "\<lambda>env q (inp :: TTxnStruct option) y. txn_inv q \<longrightarrow> env_ok env \<longrightarrow> bSchedulerBusy q \<longrightarrow>
    (pCurrTxn q \<noteq> None \<longrightarrow> queue_items (hTxnDoneQueue q) = []) \<longrightarrow>
    txn_inv (snd y) \<and> txn_idle (snd y) \<and> (pCurrTxn (snd y) \<noteq> None \<or> blocked (snd y))"
  have "?P env q inp (st, q')"
  proof (rule run_loop.raw_induct [where P = ?P, OF _ assms(1)])
    fix rec env q inp y
    assume IH: "\<And>env q inp y. rec env q inp = Some y \<Longrightarrow> ?P env q inp y"
      and body: "(case txnQ_Scheduler env q inp of (st, q) \<Rightarrow> if \<not> bSchedulerPend q then Some (st, q\<lparr>bSchedulerBusy := False\<rparr>)
        else Option.bind (rec env (q\<lparr>bSchedulerPend := False\<rparr>) None) (\<lambda>(_, q). Some (st, q))) = Some y"
    obtain st1 q1 where s: "txnQ_Scheduler env q inp = (st1, q1)" by force
    show "?P env q inp y"
    proof (intro impI)
      assume a: "txn_inv q" "env_ok env" "bSchedulerBusy q" "pCurrTxn q \<noteq> None \<longrightarrow> queue_items (hTxnDoneQueue q) = []"
      note o = Scheduler_ok [OF a(1-3) _ s]
      show "txn_inv (snd y) \<and> txn_idle (snd y) \<and> (pCurrTxn (snd y) \<noteq> None \<or> blocked (snd y))"
      proof (cases "bSchedulerPend q1")
        case False
        with body s have y: "snd y = q1\<lparr>bSchedulerBusy := False\<rparr>" by auto
        show ?thesis unfolding y using o a(4) False by (auto simp: txn_idle_def quiet_def)
      next
        case True
        from body s True obtain z where z: "rec env (q1\<lparr>bSchedulerPend := False\<rparr>) None = Some z" "snd z = snd y"
          by (auto simp: bind_eq_Some_conv)
        from IH [OF z(1)] o a z(2) show ?thesis by simp
      qed
    qed
  qed
  with assms(2-5) show ?thesis by auto
qed

subsection \<open>Termination\<close>

text \<open>Callbacks that submit nothing and start nothing; completions may still arrive during them.\<close>

fun req_passive :: "txn_req \<Rightarrow> bool" where
  "req_passive ReqTxnDone = True"
| "req_passive (ReqStop f) = (f < 4)"
| "req_passive _ = False"

definition env_passive :: "txn_env \<Rightarrow> bool" where
  "env_passive env \<longleftrightarrow> (\<forall>q x. list_all req_passive (done_cb env q x))"

lemma req_passive_ok: "req_passive r \<Longrightarrow> req_ok r"
  by (cases r) simp_all

lemma env_passive_ok: "env_passive env \<Longrightarrow> env_ok env"
  unfolding env_passive_def env_ok_def by (metis list.pred_mono_strong req_passive_ok)

definition load :: "TTxnQObj \<Rightarrow> nat" where
  "load q = waiting q + (if pCurrTxn q = None then 0 else 1)"

definition drains :: "nat \<Rightarrow> TTxnQObj \<Rightarrow> bool" where
  "drains L q \<longleftrightarrow> load q \<le> L \<and> (bSchedulerPend q \<longrightarrow> load q < L)"

lemma waiting_mono: "(\<And>f. f < 4 \<Longrightarrow> func_waiting q' f \<le> func_waiting q f) \<Longrightarrow> waiting q' \<le> waiting q"
  unfolding waiting_sum by (rule sum_mono) simp

lemma Stop_waiting [simp]: "waiting (txnQ_Stop q f) = waiting q"
  unfolding waiting_sum by (rule sum.cong) (auto simp: func_waiting_def txnQ_Stop_def)

lemma ClearQueues_waiting: "txnq_wf q \<Longrightarrow> f < 4 \<Longrightarrow> waiting (txnQ_ClearQueues q f) \<le> waiting q"
  by (rule waiting_mono) (auto simp: func_waiting_def ClearQueues_info queue_items_def split: option.splits)

lemma passive_reqs:
  assumes "list_all req_passive rs"
  shows "waiting (foldl nested_req q rs) = waiting q \<and> bSchedulerPend (foldl nested_req q rs) = bSchedulerPend q"
  using assms
proof (induction rs arbitrary: q)
  case (Cons r rs)
  have "waiting (nested_req q r) = waiting q \<and> bSchedulerPend (nested_req q r) = bSchedulerPend q"
    using Cons.prems by (cases r) (simp_all add: txnQ_Stop_def [of q, THEN arg_cong [of _ _ bSchedulerPend]])
  with Cons show ?case by simp
qed simp

lemma txn_done_load:
  assumes "txnq_wf q" "env_passive env" "pCurrTxn q = Some x"
  shows "load (txn_done env q x) < load q"
proof -
  let ?c = "emit (EvRecovered (set_status TXN_PARAM_STATUS_RECOVERY x)) (txnQ_ClearQueues q (txn_func x))"
  have "waiting ?c \<le> waiting q"
    using ClearQueues_waiting [OF assms(1), of "txn_func x"] waiting_cong [of ?c "txnQ_ClearQueues q (txn_func x)"] by simp
  then have "waiting (foldl nested_req ?c (done_cb env ?c (set_status TXN_PARAM_STATUS_RECOVERY x))) \<le> waiting q"
    using passive_reqs assms(2) by (simp add: env_passive_def)
  moreover have "waiting (done_put x q) = waiting q" by (rule waiting_cong) simp_all
  moreover have "waiting (r\<lparr>pCurrTxn := None\<rparr>) = waiting r" for r :: TTxnQObj by (rule waiting_cong) simp_all
  ultimately show ?thesis using assms(3) by (simp add: load_def txn_done_def Let_def)
qed

lemma sched_again_load [simp]: "load (sched_again q) = load q"
  using waiting_cong [of "sched_again q" q] by (simp add: load_def)

lemma nested_done_drains:
  assumes "txnq_wf q" "env_passive env" "drains L q"
  shows "drains L (nested_done env q)"
proof (cases "pCurrTxn q")
  case (Some x)
  from txn_done_load [OF assms(1,2) Some] assms(3) Some show ?thesis by (simp add: nested_done_def drains_def)
qed (use assms(3) in \<open>simp add: nested_done_def\<close>)

lemma cb_reqs_drains:
  assumes "txn_inv q" "env_passive env" "drains L q" "list_all req_passive rs"
  shows "drains L (foldl (cb_req env) q rs)"
  using assms
proof (induction rs arbitrary: q)
  case (Cons r rs)
  have "drains L (cb_req env q r)"
  proof (cases "r = ReqTxnDone")
    case True
    then show ?thesis using nested_done_drains [OF txn_ok_wf [OF Cons.prems(1)] Cons.prems(2,3)] by (simp add: cb_req_def)
  next
    case False
    have "load (nested_req q r) = load q" "bSchedulerPend (nested_req q r) = bSchedulerPend q"
      using passive_reqs [of "[r]" q] Cons.prems(4) by (simp_all add: load_def)
    then show ?thesis using Cons.prems(3) False by (simp add: cb_req_def drains_def)
  qed
  moreover have "txn_inv (cb_req env q r)"
    using cb_req_ok [OF Cons.prems(1) env_passive_ok [OF Cons.prems(2)]] Cons.prems(4) by (simp add: req_passive_ok)
  ultimately show ?case using Cons.IH Cons.prems(2,4) by simp
qed simp

lemma done_loop_drains:
  assumes "txn_inv q" "env_passive env" "drains L q"
  shows "drains L (done_loop env q)"
  using assms
proof (induction env q rule: done_loop.induct)
  case (1 env q)
  show ?case
  proof (cases "queue_items (hTxnDoneQueue q)")
    case Nil
    with 1 show ?thesis by (simp add: done_loop_end)
  next
    case (Cons x xs)
    then have h: "hTxnDoneQueue q = Some (x # xs)" by (auto simp: queue_items_def split: option.splits)
    let ?q = "emit (EvReport x) (q\<lparr>hTxnDoneQueue := Some xs\<rparr>)"
    have p: "list_all req_passive (done_cb env ?q x)" using 1(3) by (simp add: env_passive_def)
    then have "list_all req_ok (done_cb env ?q x)" by (metis list.pred_mono_strong req_passive_ok)
    then have i: "txn_inv (foldl (cb_req env) ?q (done_cb env ?q x))"
      by (rule cb_reqs_ok [OF report_ok [OF 1(2) h] env_passive_ok [OF 1(3)]])
    have "drains L ?q" using 1(4) waiting_cong [of ?q q] by (simp add: drains_def load_def)
    from 1(1) [OF h refl refl i 1(3) cb_reqs_drains [OF report_ok [OF 1(2) h] 1(3) this p]] show ?thesis
      by (simp add: done_loop_step [OF h])
  qed
qed

lemma Scheduler_drains:
  assumes "txn_inv q" "env_passive env" "\<not> bSchedulerPend q" "txnQ_Scheduler env q inp = (st, q')"
  shows "drains (load q) q'"
proof (cases "pCurrTxn q")
  case None
  obtain st1 q1 where s: "send_loop (Suc (waiting q)) env inp TXN_STATUS_PENDING q = (st1, q1)" by force
  note l = send_loop_ok [OF assms(1) None lessI s]
  let ?q = "if early_done env q1 then nested_done env q1 else q1"
  have q': "q' = done_loop env ?q" using assms(4) None s by (simp add: txnQ_Scheduler_def)
  have "drains (load q) q1" using l(4,5) None assms(3) by (simp add: drains_def load_def)
  then have "drains (load q) ?q" using nested_done_drains [OF txn_ok_wf [OF l(1)] assms(2)] by simp
  moreover have "txn_inv ?q"
    using l(1) cb_req_ok [OF l(1) env_passive_ok [OF assms(2)], of ReqTxnDone] by (simp add: cb_req_def)
  ultimately show ?thesis unfolding q' using done_loop_drains assms(2) by blast
next
  case (Some x)
  with assms(3,4) show ?thesis by (auto simp: txnQ_Scheduler_def drains_def)
qed

lemma run_loop_returns:
  assumes "txn_inv q" "env_passive env" "bSchedulerBusy q" "\<not> bSchedulerPend q"
    "pCurrTxn q \<noteq> None \<Longrightarrow> queue_items (hTxnDoneQueue q) = []"
  shows "\<exists>st q'. run_loop env q inp = Some (st, q')"
  using assms
proof (induction "load q" arbitrary: q inp rule: less_induct)
  case less
  obtain st q1 where s: "txnQ_Scheduler env q inp = (st, q1)" by force
  note o = Scheduler_ok [OF less.prems(1) env_passive_ok [OF less.prems(2)] less.prems(3,5) s]
  show ?case
  proof (cases "bSchedulerPend q1")
    case False
    then show ?thesis by (subst run_loop.simps) (simp add: s)
  next
    case True
    let ?q = "q1\<lparr>bSchedulerPend := False\<rparr>"
    have "load ?q < load q"
      using Scheduler_drains [OF less.prems(1,2,4) s] True waiting_cong [of ?q q1] by (simp add: drains_def load_def)
    from less.hyps [OF this _ less.prems(2), where inp = None] o obtain st2 q2 where "run_loop env ?q None = Some (st2, q2)" by auto
    then show ?thesis by (subst run_loop.simps) (simp add: s True)
  qed
qed

text \<open>The scheduler called while it is busy, or while the bus is occupied.\<close>

lemma RunScheduler_nested:
  assumes "bSchedulerBusy q \<or> pCurrTxn q \<noteq> None \<and> \<not> bSchedulerPend q"
  shows "txnQ_RunScheduler env q inp = Some (TXN_STATUS_PENDING, sched_again q)"
proof (cases "bSchedulerBusy q")
  case False
  with assms have "txnQ_RunScheduler env q inp = Some (TXN_STATUS_PENDING, q\<lparr>bSchedulerBusy := True, bSchedulerBusy := False\<rparr>)"
    by (simp add: txnQ_RunScheduler_def) (subst run_loop.simps, simp add: txnQ_Scheduler_def)
  with False show ?thesis by (simp add: sched_again_def)
qed (simp add: txnQ_RunScheduler_def sched_again_def)

section \<open>Reachable states\<close>

lemma open_queues_ok:
  assumes "txn_ok c q" "f < 4" "n \<le> unat (uNumPrios (func_info q f))" "n \<le> 2" "i \<le> n"
    "\<And>p. p < 2 \<Longrightarrow> queue_items (txn_queue q f p) = []"
  shows "txn_ok c (snd (open_queues ok f [i..<n] q))"
    and "uMaxFuncId (snd (open_queues ok f [i..<n] q)) = uMaxFuncId q"
    and "pCurrTxn (snd (open_queues ok f [i..<n] q)) = pCurrTxn q"
    and "txn_idle (snd (open_queues ok f [i..<n] q)) = txn_idle q"
proof -
  have "txn_ok c (snd (open_queues ok f [i..<n] q)) \<and> uMaxFuncId (snd (open_queues ok f [i..<n] q)) = uMaxFuncId q \<and>
    pCurrTxn (snd (open_queues ok f [i..<n] q)) = pCurrTxn q \<and> txn_idle (snd (open_queues ok f [i..<n] q)) = txn_idle q"
    using assms
  proof (induction "n - i" arbitrary: i q)
    case (Suc k)
    then have i: "i < n" "i < 2" by linarith+
    note wf = txn_ok_wf [OF Suc.prems(1)]
    have ok1: "txn_ok c (set_queue f i v q)" if "queue_items v = []" for v
    proof -
      have "txnq_wf (set_queue f i v q)" by (rule wf_set_queue [OF wf Suc.prems(2) i(2)]) (use i Suc.prems(3) that in auto)
      moreover have "txn_abs c (set_queue f i v q) = txn_abs c q"
        using Suc.prems(6) [OF i(2)] that i(2) Suc.prems(2) by (simp add: abs_set_queue [OF wf]) (auto simp: txn_abs_def fun_eq_iff)
      ultimately show ?thesis using Suc.prems(1) by (simp add: txn_ok_def)
    qed
    have idle: "txn_idle (set_queue f i v q) = txn_idle q" for v by (simp add: txn_idle_def)
    show ?case
    proof (cases "ok i")
      case True
      have k: "k = n - Suc i" using Suc.hyps(2) by simp
      have e: "p < 2 \<Longrightarrow> queue_items (txn_queue (set_queue f i (Some []) q) f p) = []" for p
        using Suc.prems(2,6) i(2) txnq_wfD(2,3) [OF wf] by (simp add: queue_items_def)
      have "txn_ok c (set_queue f i (Some []) q)" by (rule ok1) (simp add: queue_items_def)
      from Suc.hyps(1) [OF k this Suc.prems(2)] Suc.prems(3,4) i(1) e True idle show ?thesis by (simp add: upt_conv_Cons)
    next
      case False
      have "txn_ok c (set_queue f i None q)" by (rule ok1) (simp add: queue_items_def)
      with False i idle show ?thesis by (simp add: upt_conv_Cons)
    qed
  qed simp
  then show "txn_ok c (snd (open_queues ok f [i..<n] q))"
    "uMaxFuncId (snd (open_queues ok f [i..<n] q)) = uMaxFuncId q"
    "pCurrTxn (snd (open_queues ok f [i..<n] q)) = pCurrTxn q"
    "txn_idle (snd (open_queues ok f [i..<n] q)) = txn_idle q" by blast+
qed

lemma ok_range:
  assumes "txn_ok c q" "n < 4"
  shows "txn_ok c (q\<lparr>uMinFuncId := m\<rparr>)" "txn_ok c (q\<lparr>uMaxFuncId := n\<rparr>)"
proof -
  have "txnq_wf (q\<lparr>uMaxFuncId := n\<rparr>)" using txn_ok_wf [OF assms(1)] assms(2) by (simp add: txnq_wf_def func_info_def txn_queue_def)
  moreover have "txn_abs c (q\<lparr>uMaxFuncId := n\<rparr>) = txn_abs c q" by (rule abs_cong) simp_all
  ultimately show "txn_ok c (q\<lparr>uMaxFuncId := n\<rparr>)" using assms(1) by (simp add: txn_ok_def)
  show "txn_ok c (q\<lparr>uMinFuncId := m\<rparr>)" by (rule txn_ok_cong [OF assms(1)]) simp_all
qed

lemma Open_ok:
  assumes "txn_inv q" "txn_idle q" "uNumPrios (func_info q (unat f)) = 0"
  shows "txn_inv (snd (txnQ_Open q f n cb h ok))" "txn_idle (snd (txnQ_Open q f n cb h ok))"
proof -
  have "txn_inv (snd (txnQ_Open q f n cb h ok)) \<and> txn_idle (snd (txnQ_Open q f n cb h ok))"
  proof (cases "f \<ge> 4 \<or> n > 2")
    case True
    then show ?thesis using assms(1,2) by (simp add: txnQ_Open_def MAX_FUNCTIONS_def MAX_PRIORITY_def)
  next
    case False
    note wf = txn_ok_wf [OF assms(1)]
    have f4: "f < 4" using False by (simp add: not_le)
    then have f: "unat f < 4" using word_less_nat_alt [of f 4] by simp
    have n: "unat n \<le> 2" using False word_le_nat_alt [of n 2] by (simp add: not_less)
    let ?h = "\<lambda>i. i\<lparr>uNumPrios := n, fTxnQueueDoneCb := cb, hCbHandle := h, eState := FUNC_STATE_STOPPED\<rparr>"
    let ?q = "upd_func (unat f) ?h q"
    have e: "p < 2 \<Longrightarrow> txn_queue q (unat f) p = None" for p using txnq_wfD(7) [OF wf f] assms(3) by fastforce
    have "txnq_wf ?q" unfolding txnq_wf_def
      using wf f n False e by (auto simp: txnq_wf_def not_less)
    then have ok: "txn_ok (pCurrTxn q) ?q" using assms(1) by (simp add: txn_ok_def)
    have nn: "unat n \<le> unat (uNumPrios (func_info ?q (unat f)))" using f txnq_wfD(1) [OF wf] by simp
    have ee: "p < 2 \<Longrightarrow> queue_items (txn_queue ?q (unat f) p) = []" for p using e by (simp add: queue_items_def)
    obtain b q1 where q1: "open_queues ok (unat f) [0..<unat n] ?q = (b, q1)" by force
    from open_queues_ok [OF ok f nn n _ ee, of 0 ok] q1 assms(2)
    have o: "txn_ok (pCurrTxn q) q1" "pCurrTxn q1 = pCurrTxn q" "txn_idle q1" by (simp_all add: txn_idle_def)
    let ?q2 = "if f < uMinFuncId q1 then q1\<lparr>uMinFuncId := f\<rparr> else q1"
    let ?q3 = "if f > uMaxFuncId ?q2 then ?q2\<lparr>uMaxFuncId := f\<rparr> else ?q2"
    have "snd (txnQ_Open q f n cb h ok) = (if b then ?q3 else q1)"
      using False q1 unfolding txnQ_Open_def MAX_FUNCTIONS_def MAX_PRIORITY_def of_nat_numeral if_not_P [OF False]
      by (simp add: Let_def)
    moreover have "txn_ok (pCurrTxn q) ?q2" using ok_range(1) [OF o(1) f4] o(1) by simp
    then have "txn_ok (pCurrTxn q) ?q3" using ok_range(2) [OF _ f4] by simp
    moreover have "pCurrTxn ?q3 = pCurrTxn q" "txn_idle ?q3" using o(2,3) by (simp_all add: txn_idle_def)
    ultimately show ?thesis using o by simp
  qed
  then show "txn_inv (snd (txnQ_Open q f n cb h ok))" "txn_idle (snd (txnQ_Open q f n cb h ok))" by blast+
qed

lemma RunScheduler_ok:
  assumes "txn_inv q" "env_ok env" "\<not> bSchedulerBusy q" "pCurrTxn q \<noteq> None \<Longrightarrow> queue_items (hTxnDoneQueue q) = []"
    "txnQ_RunScheduler env q inp = Some (st, q')"
  shows "txn_inv q'" "txn_idle q'" "pCurrTxn q' \<noteq> None \<or> txnQ_SelectTxn q' = None"
  using run_loop_ok [of env "q\<lparr>bSchedulerBusy := True\<rparr>" inp st q'] assms by (simp_all add: txnQ_RunScheduler_def Select_None)

lemma range_steps:
  assumes "txn_ok c q" "set is \<subseteq> {0..<4}"
  shows "txn_ok c (fold range_step is q) \<and> pCurrTxn (fold range_step is q) = pCurrTxn q \<and> txn_idle (fold range_step is q) = txn_idle q"
  using assms
proof (induction "is" arbitrary: q)
  case (Cons i "is")
  have "i < 4" using Cons.prems(2) by simp
  then have i: "(of_nat i :: u32) < 4" using word_less_nat_alt [of "of_nat i" "4 :: u32"]
    by (simp add: unat_of_nat take_bit_eq_mod)
  have "txn_ok c (range_step i q)" "pCurrTxn (range_step i q) = pCurrTxn q" "txn_idle (range_step i q) = txn_idle q"
    using ok_range [OF _ i] Cons.prems(1) by (simp_all add: range_step_def Let_def txn_idle_def)
  with Cons show ?case by simp
qed simp

lemma close_queues:
  assumes "txn_ok c q" "f < 4" "n \<le> 2" "\<And>p. p < 2 \<Longrightarrow> queue_items (txn_queue q f p) = []"
  shows "txn_ok c (fold (\<lambda>i. set_queue f i None) [0..<n] q)"
    "p < n \<Longrightarrow> txn_queue (fold (\<lambda>i. set_queue f i None) [0..<n] q) f p = None"
    "pCurrTxn (fold (\<lambda>i. set_queue f i None) [0..<n] q) = pCurrTxn q"
    "txn_idle (fold (\<lambda>i. set_queue f i None) [0..<n] q) = txn_idle q"
    "func_info (fold (\<lambda>i. set_queue f i None) [0..<n] q) g = func_info q g"
proof -
  have "txn_ok c (fold (\<lambda>i. set_queue f i None) [0..<n] q) \<and>
    (\<forall>p<2. txn_queue (fold (\<lambda>i. set_queue f i None) [0..<n] q) f p = (if p < n then None else txn_queue q f p)) \<and>
    pCurrTxn (fold (\<lambda>i. set_queue f i None) [0..<n] q) = pCurrTxn q \<and>
    txn_idle (fold (\<lambda>i. set_queue f i None) [0..<n] q) = txn_idle q \<and>
    (\<forall>g. func_info (fold (\<lambda>i. set_queue f i None) [0..<n] q) g = func_info q g)"
    using assms(3)
  proof (induction n)
    case (Suc n)
    let ?q = "fold (\<lambda>i. set_queue f i None) [0..<n] q"
    from Suc have IH: "txn_ok c ?q" "\<And>p. p < 2 \<Longrightarrow> txn_queue ?q f p = (if p < n then None else txn_queue q f p)"
      "pCurrTxn ?q = pCurrTxn q" "txn_idle ?q = txn_idle q" "\<And>g. func_info ?q g = func_info q g" by auto
    note wf = txn_ok_wf [OF IH(1)]
    have n: "n < 2" using Suc.prems by simp
    have "txnq_wf (set_queue f n None ?q)" by (rule wf_set_queue [OF wf assms(2) n]) (auto simp: queue_items_def)
    moreover have "queue_items (txn_queue ?q f n) = []" using IH(2) [OF n] assms(4) [OF n] by simp
    then have "txn_abs c (set_queue f n None ?q) = txn_abs c ?q"
      using n assms(2) by (simp add: abs_set_queue [OF wf]) (auto simp: txn_abs_def fun_eq_iff queue_items_def)
    ultimately have "txn_ok c (set_queue f n None ?q)" using IH(1) by (simp add: txn_ok_def)
    with IH n assms(2) txnq_wfD(2,3) [OF wf] show ?case by (auto simp: txn_idle_def)
  qed (use assms(1) in simp)
  then show "txn_ok c (fold (\<lambda>i. set_queue f i None) [0..<n] q)"
    "p < n \<Longrightarrow> txn_queue (fold (\<lambda>i. set_queue f i None) [0..<n] q) f p = None"
    "pCurrTxn (fold (\<lambda>i. set_queue f i None) [0..<n] q) = pCurrTxn q"
    "txn_idle (fold (\<lambda>i. set_queue f i None) [0..<n] q) = txn_idle q"
    "func_info (fold (\<lambda>i. set_queue f i None) [0..<n] q) g = func_info q g" using assms(3) by auto
qed

lemma Close_ok:
  assumes "txn_inv q" "txn_idle q" "unat f < 4" "\<And>p. p < 2 \<Longrightarrow> queue_items (txn_queue q (unat f) p) = []"
  shows "txn_inv (txnQ_Close q f)" "txn_idle (txnQ_Close q f)"
proof -
  note wf = txn_ok_wf [OF assms(1)]
  define n where "n = unat (uNumPrios (func_info q (unat f)))"
  have "n \<le> unat (2 :: u32)" using txnq_wfD(6) [OF wf assms(3)] unfolding n_def by (simp only: word_le_nat_alt)
  then have n: "n \<le> 2" by simp
  define q1 where "q1 = fold (\<lambda>i. set_queue (unat f) i None) [0..<n] q"
  note c = close_queues [OF assms(1,3) n assms(4), folded q1_def]
  let ?h = "\<lambda>i. i\<lparr>uNumPrios := 0, fTxnQueueDoneCb := NULL, hCbHandle := NULL, eState := FUNC_STATE_NONE\<rparr>"
  let ?q2 = "upd_func (unat f) ?h q1"
  have none: "txn_queue q1 (unat f) p = None" if "p < 2" for p
  proof (cases "p < n")
    case False
    then show ?thesis using txnq_wfD(7) [OF txn_ok_wf [OF c(1)] assms(3) that] c(5) n_def by fastforce
  qed (rule c(2))
  have "txnq_wf ?q2" using txn_ok_wf [OF c(1)] assms(3) none by (auto simp: txnq_wf_def)
  then have "txn_ok (pCurrTxn q) ?q2" using c(1) by (simp add: txn_ok_def)
  then have "txn_ok (pCurrTxn q) (?q2\<lparr>uMinFuncId := of_nat MAX_FUNCTIONS, uMaxFuncId := 0\<rparr>)"
    using ok_range(2) [OF ok_range(1), of "pCurrTxn q" ?q2 0 0 "of_nat MAX_FUNCTIONS"] by simp
  from range_steps [OF this, of "[0..<MAX_FUNCTIONS]"] c(3,4) assms(2)
  show "txn_inv (txnQ_Close q f)" "txn_idle (txnQ_Close q f)"
    unfolding txnQ_Close_def Let_def n_def [symmetric] q1_def [symmetric]
    by (simp_all add: MAX_FUNCTIONS_def txn_idle_def)
qed

definition txn_init :: "TTxnQObj \<Rightarrow> bool" where
  "txn_init q \<longleftrightarrow> (\<exists>mem bus q0. txnQ_Create mem bus = Some q0 \<and> q = txnQ_Init q0 True)"

text \<open>
  The calls into the module, with any bus driver and any callbacks: a function is opened when it has
  no queues, and closed when they are empty.
\<close>

inductive txn_step :: "TTxnQObj \<Rightarrow> TTxnQObj \<Rightarrow> bool" where
  step_open: "uNumPrios (func_info q (unat f)) = 0 \<Longrightarrow> txn_step q (snd (txnQ_Open q f n cb h ok))"
| step_close: "unat f < 4 \<Longrightarrow> (\<And>p. p < 2 \<Longrightarrow> queue_items (txn_queue q (unat f) p) = []) \<Longrightarrow> txn_step q (txnQ_Close q f)"
| step_transact: "env_ok env \<Longrightarrow> txn_prio x < 2 \<Longrightarrow> txnQ_Transact env q x = Some (st, q') \<Longrightarrow> txn_step q q'"
| step_run: "env_ok env \<Longrightarrow> g < 4 \<Longrightarrow> txnQ_Run env q g = Some (st, q') \<Longrightarrow> txn_step q q'"
| step_stop: "g < 4 \<Longrightarrow> txn_step q (txnQ_Stop q g)"
| step_restart: "g < 4 \<Longrightarrow> txn_step q (snd (txnQ_Restart q g))"
| step_done: "env_ok env \<Longrightarrow> pCurrTxn q = Some x \<Longrightarrow> txnQ_TxnDoneCb env q x = Some (st, q') \<Longrightarrow> txn_step q q'"
| step_connect: "txn_step q (snd (txnQ_ConnectBus q rc fCb hCb))"

lemma init_ok: "txn_init q \<Longrightarrow> txn_inv q \<and> txn_idle q"
proof -
  assume "txn_init q"
  then obtain mem bus q0 where q0: "txnQ_Create mem bus = Some q0" "q = txnQ_Init q0 True" by (auto simp: txn_init_def)
  then have "txnq_wf q"
    by (auto simp: txnQ_Create_def txnQ_Init_def txnq_wf_def func_info_def txn_queue_def zero_func_def MAX_FUNCTIONS_def
        MAX_PRIORITY_def queue_items_def split: if_splits)
  moreover have "spec_init = txn_abs None q" "txn_log q = []" "pCurrTxn q = None" "txn_idle q"
    using q0 by (auto simp: spec_init_def txn_abs_def txnQ_Create_def txnQ_Init_def func_info_def txn_queue_def zero_func_def
        MAX_FUNCTIONS_def MAX_PRIORITY_def queue_items_def txn_idle_def fun_eq_iff split: if_splits)
  ultimately show ?thesis by (simp add: txn_ok_def)
qed

lemma step_ok:
  assumes "txn_step q q'" "txn_inv q" "txn_idle q"
  shows "txn_inv q' \<and> txn_idle q'"
  using assms
proof (cases rule: txn_step.cases)
  case (step_open f n cb h ok)
  then show ?thesis using Open_ok assms(2,3) by blast
next
  case (step_close f)
  then show ?thesis using Close_ok assms(2,3) by blast
next
  case (step_transact env x st)
  show ?thesis
  proof (cases "txn_accept q x")
    case None
    then show ?thesis using step_transact assms by (simp add: txnQ_Transact_def)
  next
    case (Some r)
    note a = accept_fields [OF Some] and o = accept_ok [OF assms(2) step_transact(2) Some]
    from step_transact(3) Some have "txnQ_RunScheduler env r (Some x) = Some (st, q')" by (simp add: txnQ_Transact_def)
    from RunScheduler_ok [OF _ step_transact(1) _ _ this] a o assms(3) show ?thesis by (simp add: txn_idle_def)
  qed
next
  case (step_run env g st)
  let ?r = "upd_func g (\<lambda>i. i\<lparr>eState := FUNC_STATE_RUNNING\<rparr>) q"
  from step_run(3) have "txnQ_RunScheduler env ?r None = Some (st, q')" by (simp add: txnQ_Run_def)
  from RunScheduler_ok [OF _ step_run(1) _ _ this] upd_state_ok [OF assms(2) step_run(2)] assms(3) show ?thesis
    by (simp add: txn_idle_def)
next
  case (step_stop g)
  then show ?thesis using upd_state_ok assms(2,3) by (simp add: txnQ_Stop_def txn_idle_def)
next
  case (step_restart g)
  then show ?thesis using Restart_ok assms(2,3) by (simp add: txn_idle_def)
next
  case (step_done env x st)
  have "txn_inv (txn_done env q x)" using txn_done_ok [OF _ step_done(1)] assms(2) step_done(2) by simp
  from RunScheduler_ok [OF this step_done(1) _ _ step_done(3) [unfolded txnQ_TxnDoneCb_def]] assms(3) show ?thesis
    by (simp add: txn_idle_def)
next
  case (step_connect rc fCb hCb)
  then have "txn_ok (pCurrTxn q) q'" by (intro txn_ok_cong [OF assms(2)]) (simp_all add: txnQ_ConnectBus_def)
  then show ?thesis using step_connect assms(3) by (simp add: txnQ_ConnectBus_def txn_idle_def)
qed

interpretation txnq: state_invariant txn_init txn_step "\<lambda>q. txn_inv q \<and> txn_idle q"
  by unfold_locales (auto simp: init_ok dest: step_ok)

section \<open>Example runs\<close>

text \<open>A bus that answers \<open>rsp\<close> to everything, and callbacks that do nothing.\<close>

definition env_ex :: "ti_status \<Rightarrow> txn_env" where
  "env_ex rsp = \<lparr>bus_rsp = (\<lambda>_ _. rsp), done_cb = (\<lambda>_ _. []), early_done = (\<lambda>_. False)\<rparr>"

definition txn_ex :: "u32 \<Rightarrow> u32 \<Rightarrow> TTxnStruct" where
  "txn_ex a p = \<lparr>txn_addr = a, uTxnParams = p, uHwAddr = 0x1000, fTxnDoneCb = NULL\<rparr>"

text \<open>
  The WLAN function is opened with two priorities and started; a low-priority and a high-priority write
  are queued behind a first one that stays on the bus.
\<close>

definition tq0 :: TTxnQObj where "tq0 = txnQ_Init (the (txnQ_Create 0x100 0x200)) True"
definition tq1 :: TTxnQObj where "tq1 = snd (txnQ_Open tq0 2 2 0x300 0x400 (\<lambda>_. True))"
definition tq2 :: TTxnQObj where "tq2 = snd (the (txnQ_Run (env_ex TXN_STATUS_PENDING) tq1 2))"
definition tq3 :: TTxnQObj where "tq3 = snd (the (txnQ_Transact (env_ex TXN_STATUS_PENDING) tq2 (txn_ex 0x10 0x08)))"
definition tq4 :: TTxnQObj where "tq4 = snd (the (txnQ_Transact (env_ex TXN_STATUS_PENDING) tq3 (txn_ex 0x20 0x09)))"
definition tq5 :: TTxnQObj where "tq5 = snd (the (txnQ_Transact (env_ex TXN_STATUS_PENDING) tq4 (txn_ex 0x30 0x08)))"

text \<open>An aggregated write is on the bus when the function is restarted; then a single-step transaction is submitted.\<close>

definition ta3 :: TTxnQObj where "ta3 = snd (the (txnQ_Transact (env_ex TXN_STATUS_PENDING) tq2 (txn_ex 0x10 0x1028)))"
definition ta4 :: TTxnQObj where "ta4 = snd (txnQ_Restart ta3 2)"
definition ta5 :: TTxnQObj where "ta5 = snd (the (txnQ_TxnDoneCb (env_ex TXN_STATUS_PENDING) ta4 (txn_ex 0x10 0x1028)))"
definition ta6 :: TTxnQObj where "ta6 = snd (the (txnQ_Transact (env_ex TXN_STATUS_PENDING) ta5 (txn_ex 0x40 0x88)))"

lemma env_ex_ok [simp]: "env_ok (env_ex rsp)" "env_passive (env_ex rsp)"
  by (simp_all add: env_ex_def env_ok_def env_passive_def)

declare run_loop.simps [code]

lemma tq_eval:
  "map_option txn_addr (pCurrTxn tq5) = Some 0x10" "map txn_addr (queue_items (txn_queue tq5 2 0)) = [0x30]"
  "map txn_addr (queue_items (txn_queue tq5 2 1)) = [0x20]" "uNumPrios (func_info tq0 (unat (2 :: u32))) = 0"
  "fst (the (txnQ_Transact (env_ex TXN_STATUS_PENDING) ta5 (txn_ex 0x40 0x88))) = TXN_STATUS_PENDING"
  "pCurrTxn ta6 = None" "txnQ_SelectTxn ta6 = None"
  "map_option txn_addr (pSingleStep (func_info ta6 2)) = Some 0x40"
  by code_simp+

lemma tq_some:
  "txnQ_Run (env_ex TXN_STATUS_PENDING) tq1 2 \<noteq> None"
  "txnQ_Transact (env_ex TXN_STATUS_PENDING) tq2 (txn_ex 0x10 0x08) \<noteq> None"
  "txnQ_Transact (env_ex TXN_STATUS_PENDING) tq3 (txn_ex 0x20 0x09) \<noteq> None"
  "txnQ_Transact (env_ex TXN_STATUS_PENDING) tq4 (txn_ex 0x30 0x08) \<noteq> None"
  "txnQ_Transact (env_ex TXN_STATUS_PENDING) tq2 (txn_ex 0x10 0x1028) \<noteq> None"
  "txnQ_TxnDoneCb (env_ex TXN_STATUS_PENDING) ta4 (txn_ex 0x10 0x1028) \<noteq> None"
  "txnQ_Transact (env_ex TXN_STATUS_PENDING) ta5 (txn_ex 0x40 0x88) \<noteq> None"
  by code_simp+

lemma tq_prio:
  "txn_prio (txn_ex 0x10 0x08) < 2" "txn_prio (txn_ex 0x20 0x09) < 2" "txn_prio (txn_ex 0x30 0x08) < 2"
  "txn_prio (txn_ex 0x10 0x1028) < 2" "txn_prio (txn_ex 0x40 0x88) < 2" "pCurrTxn ta4 = Some (txn_ex 0x10 0x1028)"
  by code_simp+

lemma some_the: "r \<noteq> None \<Longrightarrow> r = Some (fst (the r), snd (the r))"
  by auto

lemma tq_reach:
  "reach txn_init txn_step tq2" "reach txn_init txn_step tq5" "reach txn_init txn_step ta6" "reach txn_init txn_step ta4"
proof -
  have "txnQ_Create 0x100 0x200 = Some (the (txnQ_Create 0x100 0x200))" by (simp add: txnQ_Create_def)
  then have "txn_init tq0" unfolding txn_init_def tq0_def by blast
  then have "reach txn_init txn_step tq0" by (rule reach_init)
  then have "reach txn_init txn_step tq1" unfolding tq1_def by (rule reach_step) (rule step_open, rule tq_eval(4))
  then show 2: "reach txn_init txn_step tq2"
    unfolding tq2_def by (rule reach_step) (rule step_run [OF env_ex_ok(1) _ some_the [OF tq_some(1)]], simp)
  then have "reach txn_init txn_step tq3" unfolding tq3_def
    by (rule reach_step) (rule step_transact [OF env_ex_ok(1) tq_prio(1) some_the [OF tq_some(2)]])
  then have "reach txn_init txn_step tq4" unfolding tq4_def
    by (rule reach_step) (rule step_transact [OF env_ex_ok(1) tq_prio(2) some_the [OF tq_some(3)]])
  then show "reach txn_init txn_step tq5" unfolding tq5_def
    by (rule reach_step) (rule step_transact [OF env_ex_ok(1) tq_prio(3) some_the [OF tq_some(4)]])
  from 2 have "reach txn_init txn_step ta3" unfolding ta3_def
    by (rule reach_step) (rule step_transact [OF env_ex_ok(1) tq_prio(4) some_the [OF tq_some(5)]])
  then show 4: "reach txn_init txn_step ta4" unfolding ta4_def by (rule reach_step) (rule step_restart, simp)
  from 4 have "reach txn_init txn_step ta5" unfolding ta5_def
    by (rule reach_step) (rule step_done [OF env_ex_ok(1) tq_prio(6) some_the [OF tq_some(6)]])
  then show "reach txn_init txn_step ta6" unfolding ta6_def
    by (rule reach_step) (rule step_transact [OF env_ex_ok(1) tq_prio(5) some_the [OF tq_some(7)]])
qed

section \<open>Properties of the transaction queue\<close>

text \<open>
  C8: The transaction queue implements its specification: whatever the bus driver answers and the callbacks do,
  the log of every reachable state is one that the specification accepts, and leads it to the abstraction of
  the state. So at most one transaction is on the bus; each queue is sent in order of submission, nothing is sent
  that was not accepted or was sent before, only the transaction on the bus completes, and completed ones are
  reported once, in order.
\<close>

theorem txnQ_refines_spec:
  assumes "reach txn_init txn_step q"
  shows "spec_run (txn_log q) spec_init = Some (txn_abs (pCurrTxn q) q)"
  using txnq.reach_invar [OF assms] by (simp add: txn_ok_def)

theorem txnQ_refines_spec_witness:
  "spec_run (txn_log tq5) spec_init = Some (txn_abs (pCurrTxn tq5) tq5) \<and> map_option txn_addr (pCurrTxn tq5) = Some 0x10"
  by (rule conjI [OF txnQ_refines_spec [OF tq_reach(2)] tq_eval(1)])

text \<open>
  C9: The scheduler leaves no work behind: when it returns, no call is pending, every completed transaction
  has been reported, and either a transaction occupies the bus or there is none that could be sent, although
  callbacks may have submitted, started, stopped or restarted while it ran.
\<close>

theorem txnQ_RunScheduler_work_conserving:
  assumes "txn_ok (pCurrTxn q) q" "env_ok env" "\<not> bSchedulerBusy q"
    "pCurrTxn q \<noteq> None \<Longrightarrow> queue_items (hTxnDoneQueue q) = []"
    "txnQ_RunScheduler env q inp = Some (st, q')"
  shows "\<not> bSchedulerBusy q' \<and> \<not> bSchedulerPend q' \<and> queue_items (hTxnDoneQueue q') = [] \<and>
    (pCurrTxn q' \<noteq> None \<or> txnQ_SelectTxn q' = None)"
  using RunScheduler_ok [OF assms] by (simp add: txn_idle_def)

lemma tq5_idle: "txn_ok (pCurrTxn tq5) tq5" "\<not> bSchedulerBusy tq5" "queue_items (hTxnDoneQueue tq5) = []" "\<not> bSchedulerPend tq5"
  using txnq.reach_invar [OF tq_reach(2)] by (simp_all add: txn_idle_def)

theorem txnQ_RunScheduler_work_conserving_witness:
  "\<exists>st q'. txnQ_RunScheduler (env_ex TXN_STATUS_PENDING) tq5 None = Some (st, q') \<and>
     (pCurrTxn q' \<noteq> None \<or> txnQ_SelectTxn q' = None)"
proof -
  have c: "pCurrTxn tq5 \<noteq> None" using tq_eval(1) by auto
  have r: "txnQ_RunScheduler (env_ex TXN_STATUS_PENDING) tq5 None = Some (TXN_STATUS_PENDING, sched_again tq5)"
    by (rule RunScheduler_nested) (simp add: c tq5_idle)
  from txnQ_RunScheduler_work_conserving [OF tq5_idle(1) env_ex_ok(1) tq5_idle(2,3) r] r show ?thesis by blast
qed

text \<open>
  C10: The scheduler returns whenever the callbacks it calls submit and start nothing, whatever the bus driver
  answers and however completions interleave with it.
\<close>

theorem txnQ_RunScheduler_returns:
  assumes "txn_ok (pCurrTxn q) q" "env_passive env" "\<not> bSchedulerPend q"
    "pCurrTxn q \<noteq> None \<Longrightarrow> queue_items (hTxnDoneQueue q) = []"
  shows "\<exists>st q'. txnQ_RunScheduler env q inp = Some (st, q')"
  using run_loop_returns [of "q\<lparr>bSchedulerBusy := True\<rparr>" env inp] assms by (simp add: txnQ_RunScheduler_def)

theorem txnQ_RunScheduler_returns_witness:
  "\<exists>st q'. txnQ_RunScheduler (env_ex TXN_STATUS_COMPLETE) tq5 None = Some (st, q')"
  by (rule txnQ_RunScheduler_returns [OF tq5_idle(1) env_ex_ok(2) tq5_idle(4,3)])

lemma prio_range_sorted: "sorted_wrt (\<lambda>(p, f) (r, g). p < r \<or> p = r \<and> f < g) (prio_range q)"
proof -
  have s: "sorted_wrt (<) (func_range q)" unfolding func_range_def by (rule sorted_wrt_upt)
  have "sorted_wrt (\<lambda>(p, f) (r, g). p < r \<or> p = r \<and> f < g) (map (Pair i) (func_range q))" for i :: nat
    unfolding sorted_wrt_map by (rule sorted_wrt_mono_rel [OF _ s]) simp
  then show ?thesis by (auto simp: prio_range_def MAX_PRIORITY_def numeral_2_eq_2 sorted_wrt_append)
qed

text \<open>
  With no aggregation in progress and no single-step transaction waiting, the transaction selected is the
  oldest of a running function's queue, of the highest priority that has one and, within it, of the lowest
  function number; if none is selected, no running function has a queued transaction.
\<close>

lemma txnQ_SelectTxn_priority:
  assumes "txnq_wf q" "pAggregQueue q = None" "\<forall>f\<in>set (func_range q). pSingleStep (func_info q f) = None"
  shows "case txnQ_SelectTxn q of
      None \<Rightarrow> \<forall>f\<in>set (func_range q). \<forall>p<2. \<not> candidate q p f
    | Some (x, q') \<Rightarrow> \<exists>p f xs. txn_queue q f p = Some (x # xs) \<and> txn_queue q' f p = Some xs \<and> candidate q p f \<and>
        (\<forall>r<2. \<forall>g\<in>set (func_range q). candidate q r g \<longrightarrow> p < r \<or> p = r \<and> f \<le> g)"
proof (cases "txnQ_SelectTxn q")
  case None
  then show ?thesis using Select_None [of q] assms(2) by (simp add: blocked_def)
next
  case (Some y)
  then obtain x q' where y: "txnQ_SelectTxn q = Some (x, q')" by (cases y) auto
  have "select_single (func_range q) q = None" using assms(3) by (simp add: select_single_None)
  with y assms(2) have "select_queued (prio_range q) q = Some (x, q')" by (simp add: txnQ_SelectTxn_def)
  from select_queued_Some [OF this] obtain ys p f zs xs where *: "prio_range q = ys @ (p, f) # zs"
    "\<forall>(r, g)\<in>set ys. \<not> candidate q r g" "candidate q p f" "txn_queue q f p = Some (x # xs)"
    "q' = aggregate_from f p x (set_queue f p (Some xs) q)" by blast
  have "(p, f) \<in> set (prio_range q)" using *(1) by simp
  then have pf: "p < 2" "f < 4" using func_range_less [OF assms(1)] by (auto simp: prio_range_set)
  have "txn_queue q' f p = txn_queue (set_queue f p (Some xs) q) f p"
    unfolding *(5) by (rule txn_queue_cong) (simp add: aggregate_from_def)
  also have "\<dots> = Some xs" using pf txnq_wfD(2,3) [OF assms(1)] by simp
  finally have q': "txn_queue q' f p = Some xs" .
  have "p < r \<or> p = r \<and> f \<le> g" if "r < 2" "g \<in> set (func_range q)" "candidate q r g" for r g
  proof -
    have "(r, g) \<in> set (ys @ (p, f) # zs)" using that(1,2) *(1) prio_range_set [of q] by auto
    with *(2) that(3) have "(r, g) = (p, f) \<or> (r, g) \<in> set zs" by auto
    then show ?thesis using prio_range_sorted [of q, unfolded *(1) sorted_wrt_append] by auto
  qed
  with q' *(3,4) have "\<exists>p f xs. txn_queue q f p = Some (x # xs) \<and> txn_queue q' f p = Some xs \<and> candidate q p f \<and>
      (\<forall>r<2. \<forall>g\<in>set (func_range q). candidate q r g \<longrightarrow> p < r \<or> p = r \<and> f \<le> g)" by blast
  with y show ?thesis by simp
qed

text \<open>
  A restart during aggregation can block the bus for ever: there is a reachable state in which no
  transaction is on the bus and a single-step transaction has been accepted, but the scheduler selects nothing,
  because the aggregation that the restart cut off is still recorded as in progress.
\<close>

lemma txnQ_aggregation_blocks_after_restart:
  "\<exists>q x. reach txn_init txn_step q \<and> pCurrTxn q = None \<and> pSingleStep (func_info q 2) = Some x \<and> txnQ_SelectTxn q = None"
proof -
  from tq_eval(8) obtain x where "pSingleStep (func_info ta6 2) = Some x" by auto
  with tq_reach(3) tq_eval(6,7) show ?thesis by blast
qed

text \<open>
  When the transaction on the bus completes after its function was restarted, everything that function had
  waiting is dropped without a report, the completed transaction is handed to the callback with recovery status
  instead of being queued as completed, the function runs again and no other function is touched.
\<close>

lemma txnQ_restart_recovery:
  assumes "txnq_wf q" "eState (func_info q (txn_func x)) = FUNC_STATE_RESTART" "done_cb env = (\<lambda>_ _. [])"
    "f = txn_func x" "q' = txn_done env q x"
  shows "txn_log q' = txn_log q @ [EvClear f, EvRecovered (set_status TXN_PARAM_STATUS_RECOVERY x)] \<and>
    (\<forall>p<2. queue_items (txn_queue q' f p) = []) \<and> pSingleStep (func_info q' f) = None \<and>
    eState (func_info q' f) = FUNC_STATE_RUNNING \<and> pCurrTxn q' = None \<and> hTxnDoneQueue q' = hTxnDoneQueue q \<and>
    (\<forall>g. g \<noteq> f \<longrightarrow> func_info q' g = func_info q g \<and> (\<forall>p. txn_queue q' g p = txn_queue q g p))"
proof -
  let ?c = "txnQ_ClearQueues q f"
  have q': "q' = (emit (EvRecovered (set_status TXN_PARAM_STATUS_RECOVERY x)) ?c)\<lparr>pCurrTxn := None\<rparr>"
    unfolding assms(5) using assms(2-4) by (simp add: txn_done_def Let_def)
  have f: "f < 4" by (simp add: assms(4))
  note i = ClearQueues_info [OF assms(1) f]
  have fi: "func_info q' g = func_info ?c g" "txn_queue q' g p = txn_queue ?c g p" for g p
    unfolding q' by (simp_all add: func_info_def txn_queue_def)
  have e: "queue_items (txn_queue q' f p) = []" if "p < 2" for p
    unfolding fi i(1) using txnq_wfD(7) [OF assms(1) f that] by (cases "txn_queue q f p") (auto simp: queue_items_def)
  have "txn_log q' = txn_log q @ [EvClear f, EvRecovered (set_status TXN_PARAM_STATUS_RECOVERY x)]" "pCurrTxn q' = None"
    "hTxnDoneQueue q' = hTxnDoneQueue q" unfolding q' by (simp_all add: i)
  with e show ?thesis by (simp add: fi i)
qed

text \<open>
  A submission is refused, with an error status and without any change, exactly when it is not a single-step
  transaction and its queue does not exist, is full, or the transaction is in a queue already; every other
  submission is accepted and logged.
\<close>

lemma txnQ_Transact_refusal:
  assumes "xs = txn_queue q (txn_func x) (txn_prio x)"
  shows "(txn_accept q x = None \<longleftrightarrow> \<not> txn_single x \<and> (xs = None \<or> TXN_QUE_SIZE \<le> int (length (queue_items xs)) \<or> linked q x)) \<and>
    (txn_accept q x = None \<longrightarrow> txnQ_Transact env q x = Some (TXN_STATUS_ERROR, q)) \<and>
    (\<forall>q'. txn_accept q x = Some q' \<longrightarrow> txnQ_Transact env q x = txnQ_RunScheduler env q' (Some x) \<and> txn_log q' = txn_log q @ [EvAccept x])"
proof -
  have "txn_accept q x = None \<longleftrightarrow> \<not> txn_single x \<and> (xs = None \<or> TXN_QUE_SIZE \<le> int (length (queue_items xs)) \<or> linked q x)"
    unfolding assms txn_accept_def slot_put_def queue_items_def Let_def
    by (cases "txn_queue q (txn_func x) (txn_prio x)") (simp_all add: not_less)
  moreover have "txn_log q' = txn_log q @ [EvAccept x]" if "txn_accept q x = Some q'" for q'
    using that by (auto simp: txn_accept_def Let_def split: if_splits option.splits)
  ultimately show ?thesis by (cases "txn_accept q x") (simp_all add: txnQ_Transact_def)
qed

end
