(* ===== verification/Wlan_TwIf.thy ===== *)
theory Wlan_TwIf
  imports Wlan_TxnSched
begin

text \<open>
  \<open>TWD/TwIf/TwIf.c\<close>: the bus interface layer. It counts the transactions that the driver has under way and the modules that
  want the device awake, lets the device sleep when neither remains, wakes it when a transaction has to wait, translates
  addresses to the partition of the bus, and brings completed transactions back to the driver task.

  The state contains the transaction queue of \<open>Wlan_TxnQueue\<close>, and every call of it is a call of that model. The
  queue reports completions to \<open>twIf_TxnDoneCb\<close>, which makes no call into the queue; so the reports of a call, which are in the
  queue's log, are delivered in order when the call returns (\<open>tw_sync\<close>). The status that the bus
  driver writes into a transaction is a parameter.

  What the callback of a completed transaction does is a parameter too: how many calls it makes into this module, and
  each of them in the state it is made in. The error and the recovery callback are called last before the
  handlers return, so their calls are further steps. The log holds the calls into other modules.
\<close>

section \<open>Data\<close>

definition ELP_CTRL_REG_SLEEP :: u8 where "ELP_CTRL_REG_SLEEP = 0"
definition ELP_CTRL_REG_AWAKE :: u8 where "ELP_CTRL_REG_AWAKE = 1"
definition PARTITION_REGISTERS_ADDR :: u32 where "PARTITION_REGISTERS_ADDR = 0x1FFC0"
definition ELP_CTRL_REG_ADDR :: u32 where "ELP_CTRL_REG_ADDR = 0x1FFFC"
definition PEND_RESTART_TIMEOUT :: u32 where "PEND_RESTART_TIMEOUT = 100"
definition TXN_DONE_QUE_SIZE :: int where "TXN_DONE_QUE_SIZE = 0xFFFFFFFF"

datatype ESmState = SM_STATE_AWAKE | SM_STATE_SLEEP | SM_STATE_WAIT_HW
datatype ESmEvent = SM_EVENT_START | SM_EVENT_HW_AVAILABLE | SM_EVENT_SLEEP

record TElpTxn =
  tHdr :: TTxnStruct
  uElpData :: u8

record TPartition =
  uMemAdrr :: u32
  uMemSize :: u32

datatype tw_ev =
    TwErrCb
  | TwRecoveryCb
  | TwTxnDoneCb TTxnStruct
  | TwStartTimer u32
  | TwStopTimer
  | TwFree handle

text \<open>
  \<open>tw_sched\<close> is the pending flag of the module's context client. \<open>tw_lost\<close> is no variable of the code: it counts the completions that a queue
  refused since the last restart. The queue of completed transactions is \<open>None\<close> where its handle is \<open>NULL\<close>.
\<close>

record TTwIfObj =
  hTxnQ :: TTxnQObj
  tw_eState :: ESmState
  tw_hTxnDoneQueue :: "TTxnStruct list option"
  uContextId :: u32
  fErrCb :: handle
  hErrCb :: handle
  fRecoveryCb :: handle
  hRecoveryCb :: handle
  uAwakeReqCount :: u32
  uPendingTxnCount :: u32
  tElpTxnSleep :: TElpTxn
  tElpTxnAwake :: TElpTxn
  uMemAddr1 :: u32
  uMemSize1 :: u32
  uMemAddr2 :: u32
  uMemSize2 :: u32
  uMemAddr3 :: u32
  uMemSize3 :: u32
  uMemAddr4 :: u32
  uDbgCountAwake :: u32
  uDbgCountSleep :: u32
  uDbgCountTxn :: u32
  uDbgCountTxnPending :: u32
  uDbgCountTxnComplete :: u32
  uDbgCountTxnDoneCb :: u32
  bTxnDoneInRecovery :: bool
  bPendRestartTimerRunning :: bool
  hPendRestartTimer :: handle
  tw_sched :: bool
  tw_lost :: nat
  tw_log :: "tw_ev list"

datatype tw_req = TwTransact TTxnStruct | TwTransactFw TTxnStruct | TwAwake | TwSleep | TwHwAvailable

text \<open>
  The bus driver's answers, whether it completes a transaction while the queue runs or reports, and whether it
  marks a completed transaction as failed; and the calls of the transactions' callbacks.
\<close>

record tw_env =
  tw_rsp :: "TTxnQObj \<Rightarrow> TTxnStruct \<Rightarrow> ti_status"
  tw_early :: "TTxnQObj \<Rightarrow> bool"
  tw_dones :: "TTxnQObj \<Rightarrow> TTxnStruct \<Rightarrow> nat"
  tw_fail :: "TTwIfObj \<Rightarrow> TTxnStruct \<Rightarrow> bool"
  cb_calls :: "TTwIfObj \<Rightarrow> TTxnStruct \<Rightarrow> nat"
  cb_call :: "TTwIfObj \<Rightarrow> TTxnStruct \<Rightarrow> nat \<Rightarrow> tw_req"

definition txnq_env :: "tw_env \<Rightarrow> txn_env" where
  "txnq_env env = \<lparr>bus_rsp = tw_rsp env, done_cb = (\<lambda>q x. replicate (tw_dones env q x) ReqTxnDone), early_done = tw_early env\<rparr>"

definition WLAN :: nat where "WLAN = unat TXN_FUNC_ID_WLAN"

definition tw_emit :: "tw_ev \<Rightarrow> TTwIfObj \<Rightarrow> TTwIfObj" where
  "tw_emit e s = s\<lparr>tw_log := tw_log s @ [e]\<rparr>"

section \<open>Completion\<close>

text \<open>\<open>que_Enqueue\<close> on the queue of completed transactions; \<open>None\<close> is the result \<open>TI_NOK\<close>.\<close>

definition tw_queued :: "TTwIfObj \<Rightarrow> TTxnStruct \<Rightarrow> bool" where
  "tw_queued s x \<longleftrightarrow> txn_addr x \<in> txn_addr ` set (queue_items (tw_hTxnDoneQueue s))"

definition tw_put :: "TTwIfObj \<Rightarrow> TTxnStruct \<Rightarrow> TTxnStruct list option" where
  "tw_put s x =
     (case tw_hTxnDoneQueue s of
        None \<Rightarrow> None
      | Some xs \<Rightarrow> if int (length xs) < TXN_DONE_QUE_SIZE \<and> \<not> tw_queued s x then Some (xs @ [x]) else None)"

definition dec_pending :: "TTwIfObj \<Rightarrow> TTwIfObj" where
  "dec_pending s = (if uPendingTxnCount s > 0 then s\<lparr>uPendingTxnCount := uPendingTxnCount s - 1\<rparr> else s)"

definition twIf_TxnDoneCb :: "TTwIfObj \<Rightarrow> TTxnStruct \<Rightarrow> TTwIfObj" where
  "twIf_TxnDoneCb s x =
     (let s = s\<lparr>uDbgCountTxnDoneCb := uDbgCountTxnDoneCb s + 1\<rparr> in
      if TXN_PARAM_GET_STATUS (uTxnParams x) = TXN_PARAM_STATUS_RECOVERY \<and> fRecoveryCb s \<noteq> NULL then
        s\<lparr>bTxnDoneInRecovery := True, tw_sched := True\<rparr>
      else if txn_single x then s
      else
        let s = (if fTxnDoneCb x \<noteq> NULL then
                   (case tw_put s x of
                      None \<Rightarrow> s\<lparr>tw_lost := tw_lost s + 1\<rparr>
                    | Some v \<Rightarrow> s\<lparr>tw_hTxnDoneQueue := Some v\<rparr>)
                 else dec_pending s)
        in s\<lparr>tw_sched := True\<rparr>)"

text \<open>
  The callbacks that the events of the queue's log stand for. A transaction that is reported has the status that the bus driver wrote.
\<close>

fun tw_deliver :: "tw_env \<Rightarrow> TTwIfObj \<Rightarrow> txn_ev \<Rightarrow> TTwIfObj" where
  "tw_deliver env s (EvReport x) =
     (if txn_func x = WLAN
      then twIf_TxnDoneCb s (set_status (if tw_fail env s x then TXN_PARAM_STATUS_ERROR else TXN_PARAM_STATUS_OK) x) else s)"
| "tw_deliver env s (EvRecovered x) = (if txn_func x = WLAN then twIf_TxnDoneCb s x else s)"
| "tw_deliver env s (EvLost x) = (if txn_func x = WLAN \<and> \<not> txn_single x then s\<lparr>tw_lost := tw_lost s + 1\<rparr> else s)"
| "tw_deliver env s _ = s"

definition tw_sync :: "tw_env \<Rightarrow> TTwIfObj \<Rightarrow> TTxnQObj \<Rightarrow> TTwIfObj" where
  "tw_sync env s q = foldl (tw_deliver env) (s\<lparr>hTxnQ := q\<rparr>) (drop (length (txn_log (hTxnQ s))) (txn_log q))"

text \<open>A transaction that waits in the queue of completed ones is linked, so the transaction queue refuses it.\<close>

definition tw_Transact :: "tw_env \<Rightarrow> TTwIfObj \<Rightarrow> TTxnStruct \<Rightarrow> (ti_status \<times> TTwIfObj) option" where
  "tw_Transact env s x =
     (if \<not> txn_single x \<and> tw_queued s x then Some (TXN_STATUS_ERROR, s)
      else map_option (\<lambda>(st, q). (st, tw_sync env s q)) (txnQ_Transact (txnq_env env) (hTxnQ s) x))"

definition tw_Run :: "tw_env \<Rightarrow> TTwIfObj \<Rightarrow> TTwIfObj option" where
  "tw_Run env s = map_option (\<lambda>(st, q). tw_sync env s q) (txnQ_Run (txnq_env env) (hTxnQ s) WLAN)"

text \<open>The bus driver completes the transaction on the bus.\<close>

definition tw_BusDone :: "tw_env \<Rightarrow> TTwIfObj \<Rightarrow> TTxnStruct \<Rightarrow> TTwIfObj option" where
  "tw_BusDone env s x = map_option (\<lambda>(st, q). tw_sync env s q) (txnQ_TxnDoneCb (txnq_env env) (hTxnQ s) x)"

section \<open>The state machine\<close>

definition twIf_WriteElpReg :: "tw_env \<Rightarrow> TTwIfObj \<Rightarrow> u8 \<Rightarrow> TTwIfObj option" where
  "twIf_WriteElpReg env s uValue =
     map_option snd
       (if uValue = ELP_CTRL_REG_AWAKE then tw_Transact env s (tHdr (tElpTxnAwake s)) else tw_Transact env s (tHdr (tElpTxnSleep s)))"

definition twIf_HandleSmEvent :: "tw_env \<Rightarrow> TTwIfObj \<Rightarrow> ESmEvent \<Rightarrow> TTwIfObj option" where
  "twIf_HandleSmEvent env s eEvent =
     (case tw_eState s of
        SM_STATE_AWAKE \<Rightarrow>
          if eEvent = SM_EVENT_SLEEP then
            let s = s\<lparr>tw_eState := SM_STATE_SLEEP\<rparr>;
                s = s\<lparr>hTxnQ := txnQ_Stop (hTxnQ s) WLAN\<rparr>
            in twIf_WriteElpReg env s ELP_CTRL_REG_SLEEP
          else Some s
      | SM_STATE_SLEEP \<Rightarrow>
          if eEvent = SM_EVENT_START then
            twIf_WriteElpReg env (s\<lparr>tw_eState := SM_STATE_WAIT_HW\<rparr>) ELP_CTRL_REG_AWAKE
          else if eEvent = SM_EVENT_HW_AVAILABLE then
            Option.bind (twIf_WriteElpReg env (s\<lparr>tw_eState := SM_STATE_AWAKE\<rparr>) ELP_CTRL_REG_AWAKE) (tw_Run env)
          else Some s
      | SM_STATE_WAIT_HW \<Rightarrow>
          if eEvent = SM_EVENT_HW_AVAILABLE then tw_Run env (s\<lparr>tw_eState := SM_STATE_AWAKE\<rparr>)
          else Some s)"

text \<open>The test that ends several handlers: no awake request and no pending transaction.\<close>

definition tw_check_sleep :: "tw_env \<Rightarrow> TTwIfObj \<Rightarrow> TTwIfObj option" where
  "tw_check_sleep env s =
     (if uAwakeReqCount s = 0 \<and> uPendingTxnCount s = 0 then twIf_HandleSmEvent env s SM_EVENT_SLEEP else Some s)"

definition tw_err :: "TTwIfObj \<Rightarrow> TTwIfObj" where
  "tw_err s = (if fErrCb s \<noteq> NULL then tw_emit TwErrCb s else s)"

definition twIf_SendTransaction :: "tw_env \<Rightarrow> TTwIfObj \<Rightarrow> TTxnStruct \<Rightarrow> (ti_status \<times> TTwIfObj) option" where
  "twIf_SendTransaction env s x =
     (if uHwAddr x AND 0x3 \<noteq> 0 then Some (TXN_STATUS_ERROR, s)
      else
        Option.bind (tw_Transact env (s\<lparr>uPendingTxnCount := uPendingTxnCount s + 1\<rparr>) x) (\<lambda>(eStatus, s).
          let s = s\<lparr>uDbgCountTxn := uDbgCountTxn s + 1\<rparr>;
              s = (if eStatus = TXN_STATUS_COMPLETE then s\<lparr>uDbgCountTxnComplete := uDbgCountTxnComplete s + 1\<rparr>
                   else if eStatus = TXN_STATUS_PENDING then s\<lparr>uDbgCountTxnPending := uDbgCountTxnPending s + 1\<rparr> else s)
          in if eStatus = TXN_STATUS_PENDING then map_option (Pair eStatus) (twIf_HandleSmEvent env s SM_EVENT_START)
             else
               map_option (\<lambda>s. (eStatus, if eStatus = TXN_STATUS_ERROR then tw_err s else s))
                 (tw_check_sleep env (s\<lparr>uPendingTxnCount := uPendingTxnCount s - 1\<rparr>))))"

definition tw_regular :: "TTxnStruct \<Rightarrow> TTxnStruct" where
  "tw_regular x = x\<lparr>uTxnParams := TXN_PARAM_SET_SINGLE_STEP (TXN_PARAM_SET_MORE (uTxnParams x) 1) 0\<rparr>"

definition tw_translate :: "TTwIfObj \<Rightarrow> u32 \<Rightarrow> u32" where
  "tw_translate s a =
     (if a \<ge> uMemAddr2 s \<and> a \<le> uMemAddr2 s + uMemSize2 s then a - uMemAddr2 s + uMemSize1 s else a - uMemAddr1 s)"

definition twIf_Transact :: "tw_env \<Rightarrow> TTwIfObj \<Rightarrow> TTxnStruct \<Rightarrow> (ti_status \<times> TTwIfObj) option" where
  "twIf_Transact env s x =
     (let x = x\<lparr>uHwAddr := tw_translate s (uHwAddr x)\<rparr> in twIf_SendTransaction env s (tw_regular x))"

definition twIf_TransactReadFWStatus :: "tw_env \<Rightarrow> TTwIfObj \<Rightarrow> TTxnStruct \<Rightarrow> (ti_status \<times> TTwIfObj) option" where
  "twIf_TransactReadFWStatus env s x = twIf_SendTransaction env s (tw_regular x)"

definition twIf_Awake :: "TTwIfObj \<Rightarrow> TTwIfObj" where
  "twIf_Awake s = s\<lparr>uAwakeReqCount := uAwakeReqCount s + 1, uDbgCountAwake := uDbgCountAwake s + 1\<rparr>"

definition twIf_Sleep :: "tw_env \<Rightarrow> TTwIfObj \<Rightarrow> TTwIfObj option" where
  "twIf_Sleep env s =
     (let s = (if uAwakeReqCount s > 0 then s\<lparr>uAwakeReqCount := uAwakeReqCount s - 1\<rparr> else s);
          s = s\<lparr>uDbgCountSleep := uDbgCountSleep s + 1\<rparr>
      in tw_check_sleep env s)"

definition twIf_HwAvailable :: "tw_env \<Rightarrow> TTwIfObj \<Rightarrow> TTwIfObj option" where
  "twIf_HwAvailable env s = twIf_HandleSmEvent env s SM_EVENT_HW_AVAILABLE"

definition twIf_RegisterErrCb :: "TTwIfObj \<Rightarrow> handle \<Rightarrow> handle \<Rightarrow> TTwIfObj" where
  "twIf_RegisterErrCb s fCb hCb = s\<lparr>fErrCb := fCb, hErrCb := hCb\<rparr>"

section \<open>The handler of completed transactions\<close>

fun tw_call :: "tw_env \<Rightarrow> tw_req \<Rightarrow> TTwIfObj \<Rightarrow> TTwIfObj option" where
  "tw_call env (TwTransact x) s = map_option snd (twIf_Transact env s x)"
| "tw_call env (TwTransactFw x) s = map_option snd (twIf_TransactReadFWStatus env s x)"
| "tw_call env TwAwake s = Some (twIf_Awake s)"
| "tw_call env TwSleep s = twIf_Sleep env s"
| "tw_call env TwHwAvailable s = twIf_HwAvailable env s"

fun tw_callback :: "tw_env \<Rightarrow> TTxnStruct \<Rightarrow> nat list \<Rightarrow> TTwIfObj \<Rightarrow> TTwIfObj option" where
  "tw_callback env x [] s = Some s"
| "tw_callback env x (i # is) s = Option.bind (tw_call env (cb_call env s x i) s) (tw_callback env x is)"

text \<open>The loop of \<open>twIf_HandleTxnDone\<close>. It goes on as long as there are completed transactions, also those of its callbacks.\<close>

partial_function (option) tw_done_loop :: "tw_env \<Rightarrow> TTwIfObj \<Rightarrow> TTwIfObj option" where
  "tw_done_loop env s =
     (case queue_items (tw_hTxnDoneQueue s) of
        x # xs \<Rightarrow>
          let s = dec_pending (s\<lparr>tw_hTxnDoneQueue := Some xs\<rparr>) in
          if TXN_PARAM_GET_STATUS (uTxnParams x) = TXN_PARAM_STATUS_ERROR then Some (tw_err s)
          else
            Option.bind
              (if fTxnDoneCb x \<noteq> NULL then tw_callback env x [0..<cb_calls env s x] (tw_emit (TwTxnDoneCb x) s) else Some s)
              (\<lambda>s. Option.bind (tw_check_sleep env s) (tw_done_loop env))
      | [] \<Rightarrow> tw_check_sleep env s)"

definition twIf_HandleTxnDone :: "tw_env \<Rightarrow> TTwIfObj \<Rightarrow> TTwIfObj option" where
  "twIf_HandleTxnDone env s =
     (if bTxnDoneInRecovery s then
        let s = s\<lparr>bTxnDoneInRecovery := False\<rparr>;
            s = (if bPendRestartTimerRunning s then (tw_emit TwStopTimer s)\<lparr>bPendRestartTimerRunning := False\<rparr> else s)
        in Some (tw_emit TwRecoveryCb s)
      else tw_done_loop env s)"

text \<open>The driver task clears the pending flag and calls the handler.\<close>

definition tw_DriverTask :: "tw_env \<Rightarrow> TTwIfObj \<Rightarrow> TTwIfObj option" where
  "tw_DriverTask env s = twIf_HandleTxnDone env (s\<lparr>tw_sched := False\<rparr>)"

section \<open>Restart\<close>

fun tw_clear_loop :: "TTxnStruct list \<Rightarrow> TTwIfObj \<Rightarrow> TTwIfObj" where
  "tw_clear_loop [] s = s"
| "tw_clear_loop (x # xs) s = tw_clear_loop xs (dec_pending (s\<lparr>tw_hTxnDoneQueue := Some xs\<rparr>))"

definition twIf_ClearTxnDoneQueue :: "TTwIfObj \<Rightarrow> TTwIfObj" where
  "twIf_ClearTxnDoneQueue s = tw_clear_loop (queue_items (tw_hTxnDoneQueue s)) s"

definition twIf_Restart :: "TTwIfObj \<Rightarrow> ti_status \<times> TTwIfObj" where
  "twIf_Restart s =
     (let s = s\<lparr>tw_eState := SM_STATE_SLEEP, uAwakeReqCount := 0, uPendingTxnCount := 0\<rparr>;
          s = (twIf_ClearTxnDoneQueue s)\<lparr>tw_lost := 0\<rparr>;
          (eStatus, q) = txnQ_Restart (hTxnQ s) WLAN;
          s = s\<lparr>hTxnQ := q\<rparr>;
          s = (if eStatus = TXN_STATUS_PENDING
               then tw_emit (TwStartTimer PEND_RESTART_TIMEOUT) (s\<lparr>bPendRestartTimerRunning := True\<rparr>) else s)
      in (eStatus, s))"

definition twIf_PendRestratTimeout :: "TTwIfObj \<Rightarrow> TTwIfObj" where
  "twIf_PendRestratTimeout s =
     (let s = s\<lparr>bPendRestartTimerRunning := False\<rparr>;
          s = s\<lparr>hTxnQ := txnQ_ClearQueues (hTxnQ s) WLAN\<rparr>
      in tw_emit TwRecoveryCb s)"

section \<open>Construction\<close>

definition zero_txn :: "handle \<Rightarrow> TTxnStruct" where
  "zero_txn a = \<lparr>txn_addr = a, uTxnParams = 0, uHwAddr = 0, fTxnDoneCb = NULL\<rparr>"

text \<open>
  \<open>mem\<close> is what \<open>os_memoryAlloc\<close> returns, \<open>offS\<close> and \<open>offA\<close> the offsets of the two ELP transactions in the object. The object is zeroed, so the transaction queue's handle is
  \<open>NULL\<close> until \<open>twIf_Init\<close> sets it; here it is the given queue from the beginning.
\<close>

definition twIf_Create :: "handle \<Rightarrow> u32 \<Rightarrow> u32 \<Rightarrow> TTxnQObj \<Rightarrow> TTwIfObj option" where
  "twIf_Create mem offS offA q =
     (if mem = NULL then None
      else Some \<lparr>hTxnQ = q, tw_eState = SM_STATE_AWAKE, tw_hTxnDoneQueue = None, uContextId = 0, fErrCb = NULL, hErrCb = NULL,
        fRecoveryCb = NULL, hRecoveryCb = NULL, uAwakeReqCount = 0, uPendingTxnCount = 0,
        tElpTxnSleep = \<lparr>tHdr = zero_txn (mem + offS), uElpData = 0\<rparr>, tElpTxnAwake = \<lparr>tHdr = zero_txn (mem + offA), uElpData = 0\<rparr>,
        uMemAddr1 = 0, uMemSize1 = 0, uMemAddr2 = 0, uMemSize2 = 0, uMemAddr3 = 0, uMemSize3 = 0, uMemAddr4 = 0,
        uDbgCountAwake = 0, uDbgCountSleep = 0, uDbgCountTxn = 0, uDbgCountTxnPending = 0, uDbgCountTxnComplete = 0,
        uDbgCountTxnDoneCb = 0, bTxnDoneInRecovery = False, bPendRestartTimerRunning = False, hPendRestartTimer = NULL,
        tw_sched = False, tw_lost = 0, tw_log = []\<rparr>)"

text \<open>What is released: the done queue, the timer, the object.\<close>

fun twIf_Destroy :: "TTwIfObj option \<Rightarrow> ti_status \<times> TTxnQObj option \<times> (bool \<times> bool \<times> bool)" where
  "twIf_Destroy None = (TI_OK, None, (False, False, False))"
| "twIf_Destroy (Some s) =
     (TI_OK, Some (txnQ_Close (hTxnQ s) TXN_FUNC_ID_WLAN), (tw_hTxnDoneQueue s \<noteq> None, hPendRestartTimer s \<noteq> NULL, True))"

definition elp_txn :: "TElpTxn \<Rightarrow> u8 \<Rightarrow> u32 \<Rightarrow> TElpTxn" where
  "elp_txn t v uMore =
     (let h = tHdr t;
          p = TXN_PARAM_SET (uTxnParams h) TXN_LOW_PRIORITY TXN_FUNC_ID_WLAN TXN_DIRECTION_WRITE TXN_INC_ADDR;
          p = TXN_PARAM_SET_MORE p uMore;
          p = TXN_PARAM_SET_SINGLE_STEP p 1
      in \<lparr>tHdr = h\<lparr>uTxnParams := p, uHwAddr := ELP_CTRL_REG_ADDR, fTxnDoneCb := NULL\<rparr>, uElpData = v\<rparr>)"

text \<open>
  \<open>qok\<close> and \<open>ok\<close>: whether \<open>que_Create\<close> succeeds, here and in \<open>txnQ_Open\<close>; \<open>ctx\<close> and \<open>timer\<close>: what the registration with the context
  engine and \<open>tmr_CreateTimer\<close> return; \<open>cb\<close> and \<open>self\<close>: the addresses of \<open>twIf_TxnDoneCb\<close> and of the object.
\<close>

definition twIf_Init :: "TTwIfObj \<Rightarrow> TTxnQObj \<Rightarrow> handle \<Rightarrow> handle \<Rightarrow> bool \<Rightarrow> u32 \<Rightarrow> handle \<Rightarrow> handle \<Rightarrow> handle \<Rightarrow> (nat \<Rightarrow> bool) \<Rightarrow> TTwIfObj" where
  "twIf_Init s q fRec hRec qok ctx timer cb self ok =
     (let s = s\<lparr>hTxnQ := q, fRecoveryCb := fRec, hRecoveryCb := hRec\<rparr>;
          s = s\<lparr>tElpTxnSleep := elp_txn (tElpTxnSleep s) ELP_CTRL_REG_SLEEP 0\<rparr>;
          s = s\<lparr>tElpTxnAwake := elp_txn (tElpTxnAwake s) ELP_CTRL_REG_AWAKE 1\<rparr>;
          s = s\<lparr>tw_hTxnDoneQueue := if qok then Some [] else None\<rparr>;
          s = s\<lparr>uContextId := ctx\<rparr>;
          s = s\<lparr>hPendRestartTimer := timer\<rparr>
      in if timer = NULL then s
         else
           let s = s\<lparr>bPendRestartTimerRunning := False\<rparr>;
               s = s\<lparr>hTxnQ := snd (txnQ_Open (hTxnQ s) TXN_FUNC_ID_WLAN TXN_NUM_PRIORITYS cb self ok)\<rparr>
           in snd (twIf_Restart s))"

section \<open>Address partition\<close>

text \<open>
  The seven register transactions of \<open>twIf_SetPartition\<close>: \<open>mem\<close> is what \<open>os_memoryAlloc\<close> returns, \<open>sz\<close> is \<open>sizeof(TPartitionRegTxn)\<close>, \<open>cb\<close> the
  address of \<open>twIf_PartitionTxnDoneCb\<close>. The values that they write go with the offsets of their registers.
\<close>

record TPartitionRegTxn =
  prt_tHdr :: TTxnStruct
  tData :: u32

definition partition_txn :: "handle \<Rightarrow> u32 \<Rightarrow> nat \<Rightarrow> u32 \<Rightarrow> u32 \<Rightarrow> handle \<Rightarrow> TPartitionRegTxn" where
  "partition_txn mem sz i off v cb =
     (let p = TXN_PARAM_SET 0 TXN_LOW_PRIORITY TXN_FUNC_ID_WLAN TXN_DIRECTION_WRITE TXN_INC_ADDR;
          p = TXN_PARAM_SET_MORE p 1;
          p = TXN_PARAM_SET_SINGLE_STEP p 0
      in \<lparr>prt_tHdr = \<lparr>txn_addr = mem + of_nat i * sz, uTxnParams = p, uHwAddr = PARTITION_REGISTERS_ADDR + off, fTxnDoneCb = cb\<rparr>,
          tData = v\<rparr>)"

definition partition_regs :: "TTwIfObj \<Rightarrow> (u32 \<times> u32) list" where
  "partition_regs s =
     [(4, uMemAddr1 s), (0, uMemSize1 s), (12, uMemAddr2 s), (8, uMemSize2 s), (20, uMemAddr3 s), (16, uMemSize3 s), (24, uMemAddr4 s)]"

definition tw_save_partition :: "TTwIfObj \<Rightarrow> TPartition list \<Rightarrow> TTwIfObj" where
  "tw_save_partition s ps =
     s\<lparr>uMemAddr1 := uMemAdrr (ps ! 0), uMemSize1 := uMemSize (ps ! 0), uMemAddr2 := uMemAdrr (ps ! 1),
       uMemSize2 := uMemSize (ps ! 1), uMemAddr3 := uMemAdrr (ps ! 2), uMemSize3 := uMemSize (ps ! 2), uMemAddr4 := uMemAdrr (ps ! 3)\<rparr>"

text \<open>The transactions are sent one after another; the result is the list of their statuses.\<close>

fun tw_send_all :: "tw_env \<Rightarrow> TTxnStruct list \<Rightarrow> TTwIfObj \<Rightarrow> (ti_status list \<times> TTwIfObj) option" where
  "tw_send_all env [] s = Some ([], s)"
| "tw_send_all env (x # xs) s =
     Option.bind (twIf_SendTransaction env s x) (\<lambda>(st, s). map_option (\<lambda>(sts, s). (st # sts, s)) (tw_send_all env xs s))"

definition partition_txns :: "handle \<Rightarrow> u32 \<Rightarrow> handle \<Rightarrow> TTwIfObj \<Rightarrow> TPartitionRegTxn list" where
  "partition_txns mem sz cb s =
     map (\<lambda>(i, off, v). partition_txn mem sz i off v (if i = 6 then cb else NULL)) (zip [0..<7] (partition_regs s))"

definition twIf_SetPartition :: "tw_env \<Rightarrow> TTwIfObj \<Rightarrow> TPartition list \<Rightarrow> handle \<Rightarrow> u32 \<Rightarrow> handle \<Rightarrow> TTwIfObj option" where
  "twIf_SetPartition env s ps mem sz cb =
     (let s = tw_save_partition s ps in
      if mem = NULL then Some s
      else
        map_option (\<lambda>(sts, s). if sts ! 5 \<noteq> TXN_STATUS_PENDING then tw_emit (TwFree mem) s else s)
          (tw_send_all env (map prt_tHdr (partition_txns mem sz cb s)) s))"

definition twIf_PartitionTxnDoneCb :: "TTwIfObj \<Rightarrow> u32 \<Rightarrow> handle \<Rightarrow> TTwIfObj" where
  "twIf_PartitionTxnDoneCb s sz hTxn = tw_emit (TwFree (hTxn - 6 * sz)) s"

definition twIf_isValidMemoryAddr :: "TTwIfObj \<Rightarrow> u32 \<Rightarrow> u32 \<Rightarrow> bool" where
  "twIf_isValidMemoryAddr s Address Length \<longleftrightarrow> Address \<ge> uMemAddr1 s \<and> Address + Length < uMemAddr1 s + uMemSize1 s"

definition twIf_isValidRegAddr :: "TTwIfObj \<Rightarrow> u32 \<Rightarrow> u32 \<Rightarrow> bool" where
  "twIf_isValidRegAddr s Address Length \<longleftrightarrow> Address \<ge> uMemAddr2 s \<and> Address < uMemAddr2 s + uMemSize2 s"

end
