(* ===== verification/Wlan_TxnLog.thy ===== *)
theory Wlan_TxnLog
  imports Wlan_TxnSched
begin

text \<open>
  What a call of the transaction queue adds to its log, when the callbacks make no calls of their own and no function waits for a restart: which
  events, and how the returned status shows whether the submitted transaction came back. Clients of the queue are
  verified over these facts and the specification machine of \<open>Wlan_TxnQueue\<close>.
\<close>

section \<open>Extensions of the log\<close>

definition no_restart :: "TTxnQObj \<Rightarrow> bool" where
  "no_restart q \<longleftrightarrow> (\<forall>f<4. eState (func_info q f) \<noteq> FUNC_STATE_RESTART)"

definition bus_only :: "txn_env \<Rightarrow> bool" where
  "bus_only env \<longleftrightarrow> (\<forall>q x. list_all (\<lambda>r. r = ReqTxnDone) (done_cb env q x))"

text \<open>No function runs, and the scheduler is not in the middle of an aggregation; then only single-step transactions are sent.\<close>

definition halted :: "TTxnQObj \<Rightarrow> bool" where
  "halted q \<longleftrightarrow> pAggregQueue q = None \<and> (\<forall>f<4. eState (func_info q f) \<noteq> FUNC_STATE_RUNNING)"

fun sent_single :: "txn_ev \<Rightarrow> bool" where
  "sent_single (EvSent x) = txn_single x"
| "sent_single _ = True"

definition same_funcs :: "TTxnQObj \<Rightarrow> TTxnQObj \<Rightarrow> bool" where
  "same_funcs q q' \<longleftrightarrow> (\<forall>f. eState (func_info q' f) = eState (func_info q f)) \<and> (halted q \<longrightarrow> halted q')"

definition ext :: "(txn_ev \<Rightarrow> bool) \<Rightarrow> TTxnQObj \<Rightarrow> TTxnQObj \<Rightarrow> bool" where
  "ext P q q' \<longleftrightarrow> (\<exists>es. txn_log q' = txn_log q @ es \<and> list_all P es \<and> (halted q \<longrightarrow> list_all sent_single es)) \<and> same_funcs q q'"

text \<open>The events of a scheduler run that was started for the transaction at address \<open>a\<close>.\<close>

fun run_ev :: "handle option \<Rightarrow> txn_ev \<Rightarrow> bool" where
  "run_ev a (EvSent x) = True"
| "run_ev a (EvReturn x) = (a = Some (txn_addr x))"
| "run_ev a (EvComplete x) = True"
| "run_ev a (EvLost x) = True"
| "run_ev a (EvReport x) = True"
| "run_ev a _ = False"

lemma same_funcs_cong: "aFuncInfo q' = aFuncInfo q \<Longrightarrow> pAggregQueue q' = pAggregQueue q \<Longrightarrow> same_funcs q q'"
  by (simp add: same_funcs_def halted_def func_info_def)

lemma same_funcs_refl [simp, intro]: "same_funcs q q"
  by (simp add: same_funcs_def)

lemma same_funcs_trans: "same_funcs q r \<Longrightarrow> same_funcs r s \<Longrightarrow> same_funcs q s"
  by (simp add: same_funcs_def)

lemma ext_refl [simp, intro]: "ext P q q"
  by (simp add: ext_def)

lemma ext_trans: "ext P q r \<Longrightarrow> ext P r s \<Longrightarrow> ext P q s"
  by (auto simp: ext_def same_funcs_def)

lemma ext_emit:
  "P e \<Longrightarrow> sent_single e \<Longrightarrow> txn_log q' = txn_log q @ [e] \<Longrightarrow> aFuncInfo q' = aFuncInfo q \<Longrightarrow> pAggregQueue q' = pAggregQueue q \<Longrightarrow> ext P q q'"
  by (simp add: ext_def same_funcs_cong)

lemma ext_same: "txn_log q' = txn_log q \<Longrightarrow> aFuncInfo q' = aFuncInfo q \<Longrightarrow> pAggregQueue q' = pAggregQueue q \<Longrightarrow> ext P q q'"
  by (simp add: ext_def same_funcs_cong)

lemma ext_no_restart: "ext P q q' \<Longrightarrow> no_restart q' = no_restart q"
  by (simp add: ext_def same_funcs_def no_restart_def)

lemma run_ev_None: "run_ev None e \<Longrightarrow> run_ev a e"
  by (cases e) simp_all

lemma bus_only_passive: "bus_only env \<Longrightarrow> env_passive env"
  unfolding bus_only_def env_passive_def by (metis (mono_tags, lifting) list.pred_mono_strong req_passive.simps(1))

lemma done_put_ext: "ext (run_ev a) q (done_put x q)"
proof (cases "slot_put q (hTxnDoneQueue q) x")
  case None
  show ?thesis by (rule ext_emit [where e = "EvLost x"]) (simp_all add: done_put_def None)
next
  case (Some v)
  show ?thesis by (rule ext_emit [where e = "EvComplete x"]) (simp_all add: done_put_def Some)
qed

lemma halted_Select:
  assumes "txnq_wf q" "txnQ_SelectTxn q = Some (x, r)" "halted q"
  shows "txn_single x" "pAggregQueue r = None"
proof -
  have "select_queued (prio_range q) q = None"
    using assms(3) func_range_less [OF assms(1)] by (auto simp: select_queued_None prio_range_set candidate_def halted_def)
  then have "select_single (func_range q) q = Some (x, r)"
    using assms(2,3) by (simp add: txnQ_SelectTxn_def halted_def split: option.splits)
  from select_single_Some [OF this] obtain ys f zs where "func_range q = ys @ f # zs" "pSingleStep (func_info q f) = Some x"
    "r = upd_func f (\<lambda>i. i\<lparr>pSingleStep := None\<rparr>) q" by blast
  then show "txn_single x" "pAggregQueue r = None"
    using txnq_wfD(9) [OF assms(1) func_range_less [OF assms(1)]] assms(3) by (auto simp: halted_def)
qed

lemma Select_ext:
  assumes "txnq_wf q" "txnQ_SelectTxn q = Some (x, r)"
  shows "ext P q r"
proof -
  have l: "txn_log r = txn_log q \<and> (\<forall>f. eState (func_info r f) = eState (func_info q f))"
    using assms by (cases rule: Select_cases) (auto simp: func_info_def upd_func_def set_queue_def nth_update)
  then have "halted r" if "halted q" using halted_Select(2) [OF assms that] that by (simp add: halted_def)
  with l show ?thesis by (simp add: ext_def same_funcs_def)
qed

lemma txn_done_ext:
  assumes "no_restart q"
  shows "ext (run_ev a) q (txn_done env q x)"
proof -
  have "txn_done env q x = (done_put x q)\<lparr>pCurrTxn := None\<rparr>"
    using assms by (simp add: txn_done_def no_restart_def)
  moreover have "ext (run_ev a) (done_put x q) ((done_put x q)\<lparr>pCurrTxn := None\<rparr>)" by (rule ext_same) simp_all
  ultimately show ?thesis using ext_trans [OF done_put_ext] by simp
qed

lemma nested_done_ext:
  assumes "no_restart q"
  shows "ext (run_ev a) q (nested_done env q)"
proof (cases "pCurrTxn q")
  case (Some x)
  have "ext (run_ev a) (txn_done env q x) (sched_again (txn_done env q x))" by (rule ext_same) simp_all
  then show ?thesis using Some ext_trans [OF txn_done_ext [OF assms]] by (simp add: nested_done_def)
qed (simp add: nested_done_def)

lemma cb_reqs_ext:
  assumes "no_restart q" "list_all (\<lambda>r. r = ReqTxnDone) rs"
  shows "ext (run_ev a) q (foldl (cb_req env) q rs)"
  using assms
proof (induction rs arbitrary: q)
  case (Cons r rs)
  then have e: "ext (run_ev a) q (cb_req env q r)" by (simp add: cb_req_def nested_done_ext)
  with Cons.IH [of "cb_req env q r"] Cons.prems have "ext (run_ev a) (cb_req env q r) (foldl (cb_req env) (cb_req env q r) rs)"
    by (simp add: ext_no_restart)
  then show ?case using ext_trans [OF e] by simp
qed simp

lemma done_loop_ext:
  assumes "no_restart q" "bus_only env"
  shows "ext (run_ev a) q (done_loop env q)"
  using assms
proof (induction env q rule: done_loop.induct)
  case (1 env q)
  show ?case
  proof (cases "queue_items (hTxnDoneQueue q)")
    case Nil
    then show ?thesis by (simp add: done_loop_end)
  next
    case (Cons x xs)
    then have h: "hTxnDoneQueue q = Some (x # xs)" by (auto simp: queue_items_def split: option.splits)
    let ?q = "emit (EvReport x) (q\<lparr>hTxnDoneQueue := Some xs\<rparr>)"
    have e: "ext (run_ev a) q ?q" by (rule ext_emit [where e = "EvReport x"]) simp_all
    have "ext (run_ev a) ?q (foldl (cb_req env) ?q (done_cb env ?q x))"
      by (rule cb_reqs_ext) (use 1(2,3) e in \<open>simp_all add: ext_no_restart bus_only_def\<close>)
    from ext_trans [OF e this] have e2: "ext (run_ev a) q (foldl (cb_req env) ?q (done_cb env ?q x))" .
    from 1(1) [OF h refl refl _ 1(3)] e2 1(2) have "ext (run_ev a) (foldl (cb_req env) ?q (done_cb env ?q x)) (done_loop env q)"
      by (simp add: done_loop_step [OF h] ext_no_restart)
    with e2 show ?thesis by (rule ext_trans)
  qed
qed

section \<open>The sending loop and the status\<close>

fun sent_to :: "handle \<Rightarrow> txn_ev \<Rightarrow> nat" where
  "sent_to a (EvSent x) = (if txn_addr x = a then 1 else 0)"
| "sent_to a _ = 0"

fun returned :: "txn_ev \<Rightarrow> nat" where
  "returned (EvReturn x) = 1"
| "returned _ = 0"

definition cnt :: "(txn_ev \<Rightarrow> nat) \<Rightarrow> txn_ev list \<Rightarrow> nat" where
  "cnt h es = sum_list (map h es)"

lemma cnt_simps [simp]: "cnt h [] = 0" "cnt h (e # es) = h e + cnt h es" "cnt h (es @ fs) = cnt h es + cnt h fs"
  by (simp_all add: cnt_def)

text \<open>
  The status that the loop returns for the submitted transaction: it is not pending exactly when the transaction
  was sent and came back at once.
\<close>

definition status_ok :: "handle \<Rightarrow> ti_status \<Rightarrow> ti_status \<Rightarrow> txn_ev list \<Rightarrow> bool" where
  "status_ok a st st' es \<longleftrightarrow> (cnt (sent_to a) es = 0 \<longrightarrow> st' = st) \<and>
     cnt returned es + (if 0 < cnt (sent_to a) es \<and> st' = TXN_STATUS_PENDING then 1 else 0) = cnt (sent_to a) es"

lemma send_one_log:
  "\<exists>e. txn_log (send_one env inp x q) = txn_log q @ EvSent x # e \<and> list_all (run_ev (map_option txn_addr inp)) e \<and> list_all sent_single e \<and> (\<forall>a. cnt (sent_to a) e = 0) \<and>
     cnt returned e = (if same_txn inp x \<and> bus_rsp env (emit (EvSent x) (q\<lparr>pCurrTxn := Some x\<rparr>)) x \<noteq> TXN_STATUS_PENDING then 1 else 0)"
  by (auto simp: send_one_def Let_def same_txn_def done_put_def split: option.split)

lemma send_loop_ext:
  assumes "txn_inv q" "pCurrTxn q = None" "waiting q < n" "send_loop n env inp st q = (st', q')"
  shows "\<exists>es. txn_log q' = txn_log q @ es \<and> list_all (run_ev (map_option txn_addr inp)) es \<and>
    same_funcs q q' \<and> (halted q \<longrightarrow> list_all sent_single es) \<and> (\<forall>x. inp = Some x \<longrightarrow> status_ok (txn_addr x) st st' es)"
  using assms
proof (induction n arbitrary: st q)
  case (Suc n)
  show ?case
  proof (cases "txnQ_SelectTxn q")
    case None
    with Suc.prems show ?thesis by (simp add: send_loop_Suc status_ok_def del: send_loop.simps)
  next
    case (Some r)
    then obtain y r where r: "txnQ_SelectTxn q = Some (y, r)" by (cases r) auto
    have ok: "txn_ok None q" using Suc.prems(1,2) by simp
    note s = Select_ok [OF ok r]
    let ?q = "send_one env inp y r" and ?rsp = "bus_rsp env (emit (EvSent y) (r\<lparr>pCurrTxn := Some y\<rparr>)) y"
    have "same_funcs r ?q" by (rule same_funcs_cong) (simp_all add: send_one_def Let_def)
    with Select_ext [OF txn_ok_wf [OF ok] r, of "\<lambda>_. False"] have f: "same_funcs q ?q" "txn_log r = txn_log q"
      by (auto simp: ext_def list_all_def intro: same_funcs_trans)
    have h: "halted q \<Longrightarrow> txn_single y" by (rule halted_Select(1) [OF txn_ok_wf [OF ok] r])
    have same: "same_txn inp y \<longleftrightarrow> (\<exists>x. inp = Some x \<and> txn_addr y = txn_addr x)" by (auto simp: same_txn_def)
    from send_one_log [of env inp y r] obtain e where e: "txn_log ?q = txn_log r @ EvSent y # e"
      "list_all (run_ev (map_option txn_addr inp)) e" "\<forall>a. cnt (sent_to a) e = 0"
      "list_all sent_single e" "cnt returned e = (if same_txn inp y \<and> ?rsp \<noteq> TXN_STATUS_PENDING then 1 else 0)" by blast
    show ?thesis
    proof (cases "?rsp = TXN_STATUS_PENDING")
      case True
      then have "q' = ?q" "st' = (if same_txn inp y then TXN_STATUS_PENDING else st)"
        using Suc.prems(4) r by (simp_all add: send_loop_Suc Let_def del: send_loop.simps split: if_splits)
      then show ?thesis using e f h same True by (auto simp: status_ok_def)
    next
      case False
      then have c: "pCurrTxn ?q = None" by (simp add: send_one_def Let_def)
      have w: "waiting ?q < n" using s(2) waiting_cong [of ?q r] Suc.prems(3) by simp
      let ?st = "if same_txn inp y then ?rsp else st"
      have l: "send_loop n env inp ?st ?q = (st', q')"
        using Suc.prems(4) r False by (simp add: send_loop_Suc Let_def del: send_loop.simps split: if_splits)
      from Suc.IH [OF send_one_ok [OF s(1)] c w l] obtain es where es: "txn_log q' = txn_log ?q @ es"
        "list_all (run_ev (map_option txn_addr inp)) es" "same_funcs ?q q'"
        "halted ?q \<longrightarrow> list_all sent_single es" "\<forall>x. inp = Some x \<longrightarrow> status_ok (txn_addr x) ?st st' es" by blast
      have "status_ok (txn_addr x) st st' (EvSent y # e @ es)" if "inp = Some x" for x
        using es(5) e(3,5) False that same by (auto simp: status_ok_def split: if_splits)
      then show ?thesis using e(1,2,4) es(1-4) f h by (intro exI [of _ "EvSent y # e @ es"]) (auto simp: same_funcs_def)
    qed
  qed
qed simp

section \<open>Runs\<close>

definition run_res :: "handle option \<Rightarrow> ti_status \<Rightarrow> TTxnQObj \<Rightarrow> TTxnQObj \<Rightarrow> bool" where
  "run_res a st q q' \<longleftrightarrow> same_funcs q q' \<and>
     (\<exists>es. txn_log q' = txn_log q @ es \<and> list_all (run_ev a) es \<and> (halted q \<longrightarrow> list_all sent_single es) \<and>
        (\<forall>b. a = Some b \<longrightarrow> cnt (sent_to b) es \<le> 1 \<longrightarrow> cnt returned es = (if st = TXN_STATUS_PENDING then 0 else 1)))"

lemma returned_None: "list_all (run_ev None) es \<Longrightarrow> cnt returned es = 0"
proof (induction es)
  case (Cons e es)
  then show ?case by (cases e) simp_all
qed simp

lemma run_res_ext:
  assumes "run_res a st q r" "ext (run_ev None) r s"
  shows "run_res a st q s"
proof -
  obtain es fs where "txn_log r = txn_log q @ es" "list_all (run_ev a) es" "halted q \<longrightarrow> list_all sent_single es"
    "\<forall>b. a = Some b \<longrightarrow> cnt (sent_to b) es \<le> 1 \<longrightarrow> cnt returned es = (if st = TXN_STATUS_PENDING then 0 else 1)"
    "txn_log s = txn_log r @ fs" "halted r \<longrightarrow> list_all sent_single fs" and fs: "list_all (run_ev None) fs"
    using assms by (auto simp: run_res_def ext_def)
  moreover have "list_all (run_ev a) fs" using fs by (metis list.pred_mono_strong run_ev_None)
  ultimately show ?thesis using assms returned_None [OF fs] unfolding run_res_def ext_def
    by (intro conjI exI [of _ "es @ fs"]) (auto simp: same_funcs_def)
qed

lemma run_res_mono: "run_res None st q r \<Longrightarrow> ext (run_ev None) q r"
  by (auto simp: run_res_def ext_def)

lemma run_res_refl: "run_res a TXN_STATUS_PENDING q q"
  by (simp add: run_res_def)

lemma Scheduler_res:
  assumes "txn_inv q" "no_restart q" "bus_only env" "txnQ_Scheduler env q inp = (st, q')"
  shows "run_res (map_option txn_addr inp) st q q'"
proof (cases "pCurrTxn q")
  case None
  obtain st1 q1 where s: "send_loop (Suc (waiting q)) env inp TXN_STATUS_PENDING q = (st1, q1)" by force
  let ?q = "if early_done env q1 then nested_done env q1 else q1"
  have q': "st = st1" "q' = done_loop env ?q" using assms(4) None s by (simp_all add: txnQ_Scheduler_def)
  from send_loop_ext [OF assms(1) None lessI s] have r: "run_res (map_option txn_addr inp) st q q1"
    unfolding q' run_res_def by (fastforce simp: status_ok_def split: if_splits)
  then have n: "no_restart q1" using assms(2) by (simp add: run_res_def same_funcs_def no_restart_def)
  have e: "ext (run_ev None) q1 ?q" using nested_done_ext [OF n] by simp
  have "ext (run_ev None) q1 q'"
    unfolding q' using n by (intro ext_trans [OF e] done_loop_ext assms(3)) (simp add: ext_no_restart [OF e])
  with r show ?thesis by (rule run_res_ext)
next
  case (Some x)
  then show ?thesis using assms(4) by (simp add: txnQ_Scheduler_def run_res_refl)
qed

lemma run_loop_res:
  assumes "run_loop env q inp = Some (st, q')"
    and "txn_inv q" "no_restart q" "bus_only env" "bSchedulerBusy q" "pCurrTxn q \<noteq> None \<Longrightarrow> queue_items (hTxnDoneQueue q) = []"
  shows "run_res (map_option txn_addr inp) st q q'"
proof -
  let ?P = "\<lambda>env q inp y. txn_inv q \<longrightarrow> no_restart q \<longrightarrow> bus_only env \<longrightarrow> bSchedulerBusy q \<longrightarrow>
    (pCurrTxn q \<noteq> None \<longrightarrow> queue_items (hTxnDoneQueue q) = []) \<longrightarrow> run_res (map_option txn_addr inp) (fst y) q (snd y)"
  have "?P env q inp (st, q')"
  proof (rule run_loop.raw_induct [where P = ?P, OF _ assms(1)])
    fix rec env q inp y
    assume IH: "\<And>env q inp y. rec env q inp = Some y \<Longrightarrow> ?P env q inp y"
      and body: "(case txnQ_Scheduler env q inp of (st, q) \<Rightarrow> if \<not> bSchedulerPend q then Some (st, q\<lparr>bSchedulerBusy := False\<rparr>)
        else Option.bind (rec env (q\<lparr>bSchedulerPend := False\<rparr>) None) (\<lambda>(_, q). Some (st, q))) = Some y"
    obtain st1 q1 where s: "txnQ_Scheduler env q inp = (st1, q1)" by force
    show "?P env q inp y"
    proof (intro impI)
      assume a: "txn_inv q" "no_restart q" "bus_only env" "bSchedulerBusy q"
        "pCurrTxn q \<noteq> None \<longrightarrow> queue_items (hTxnDoneQueue q) = []"
      note o = Scheduler_ok [OF a(1) env_passive_ok [OF bus_only_passive [OF a(3)]] a(4) _ s]
      note r = Scheduler_res [OF a(1-3) s]
      show "run_res (map_option txn_addr inp) (fst y) q (snd y)"
      proof (cases "bSchedulerPend q1")
        case False
        have "ext (run_ev None) q1 (q1\<lparr>bSchedulerBusy := False\<rparr>)" by (rule ext_same) simp_all
        with False body s run_res_ext [OF r] show ?thesis by auto
      next
        case True
        let ?q = "q1\<lparr>bSchedulerPend := False\<rparr>"
        from body s True obtain z where z: "rec env ?q None = Some z" "snd z = snd y" "fst y = st1"
          by (auto simp: bind_eq_Some_conv)
        have e: "ext (run_ev None) q1 ?q" by (rule ext_same) simp_all
        have "no_restart ?q" using r a(2) by (simp add: run_res_def same_funcs_def no_restart_def func_info_def)
        with IH [OF z(1)] o a z(2) have "run_res None (fst z) ?q (snd y)" by simp
        from ext_trans [OF e run_res_mono [OF this]] show ?thesis using run_res_ext [OF r] z(3) by simp
      qed
    qed
  qed
  with assms(2-6) show ?thesis by auto
qed

lemma RunScheduler_res:
  assumes "txn_inv q" "txn_idle q" "no_restart q" "bus_only env" "txnQ_RunScheduler env q inp = Some (st, q')"
  shows "run_res (map_option txn_addr inp) st q q'"
proof -
  let ?q = "q\<lparr>bSchedulerBusy := True\<rparr>"
  have "run_loop env ?q inp = Some (st, q')" using assms(2,5) by (simp add: txnQ_RunScheduler_def txn_idle_def)
  from run_loop_res [OF this] assms have "run_res (map_option txn_addr inp) st ?q q'"
    by (simp add: txn_idle_def no_restart_def func_info_def)
  then show ?thesis by (simp add: run_res_def same_funcs_def halted_def func_info_def)
qed

lemma RunScheduler_returns:
  assumes "txn_inv q" "txn_idle q" "env_passive env"
  shows "\<exists>st q'. txnQ_RunScheduler env q inp = Some (st, q')"
  using run_loop_returns [of "q\<lparr>bSchedulerBusy := True\<rparr>" env inp] assms by (simp add: txn_idle_def txnQ_RunScheduler_def)

section \<open>Calls\<close>

text \<open>What the specification machine says of the events that a call adds.\<close>

lemma log_spec:
  assumes "txn_inv q" "txn_inv q'" "txn_log q' = txn_log q @ es"
  shows "spec_run es (txn_abs (pCurrTxn q) q) = Some (txn_abs (pCurrTxn q') q')"
proof -
  have "spec_run (es1 @ es2) a = Option.bind (spec_run es1 a) (spec_run es2)" for es1 es2 a
    by (induction es1 arbitrary: a) (simp_all split: bind_split)
  then show ?thesis using assms by (simp add: txn_ok_def)
qed

lemma Transact_res:
  assumes "txn_inv q" "txn_idle q" "no_restart q" "bus_only env" "txn_prio x < 2"
    and "txn_accept q x = Some r" "txnQ_Transact env q x = Some (st, q')"
  shows "txn_inv q'" "txn_idle q'" "run_res (Some (txn_addr x)) st r q'"
    "txn_log r = txn_log q @ [EvAccept x]" "\<And>f. eState (func_info r f) = eState (func_info q f)"
    "txn_inv r" "pCurrTxn r = pCurrTxn q"
proof -
  note a = accept_fields [OF assms(6)]
  show r: "txn_inv r" using accept_ok [OF assms(1,5,6)] a(2) by simp
  show f: "eState (func_info r f) = eState (func_info q f)" for f
    using assms(6) by (auto simp: txn_accept_def Let_def split: if_splits option.splits)
  have i: "txn_idle r" using assms(2) a by (simp add: txn_idle_def)
  have n: "no_restart r" using assms(3) f by (simp add: no_restart_def)
  have s: "txnQ_RunScheduler env r (Some x) = Some (st, q')" using assms(6,7) by (simp add: txnQ_Transact_def)
  from RunScheduler_res [OF r i n assms(4) s] show "run_res (Some (txn_addr x)) st r q'" by simp
  from RunScheduler_ok [OF r env_passive_ok [OF bus_only_passive [OF assms(4)]] _ _ s] i
  show "txn_inv q'" "txn_idle q'" by (simp_all add: txn_idle_def)
  show "txn_log r = txn_log q @ [EvAccept x]"
    using assms(6) by (auto simp: txn_accept_def Let_def split: if_splits option.splits)
qed (rule accept_fields [OF assms(6)])

lemma Transact_returns:
  assumes "txn_inv q" "txn_idle q" "env_passive env" "txn_prio x < 2"
  shows "\<exists>st q'. txnQ_Transact env q x = Some (st, q')"
proof (cases "txn_accept q x")
  case (Some r)
  have "txn_inv r" "txn_idle r"
    using accept_ok [OF assms(1,4) Some] accept_fields [OF Some] assms(2) by (simp_all add: txn_idle_def)
  from RunScheduler_returns [OF this assms(3)] Some show ?thesis by (simp add: txnQ_Transact_def)
qed (simp add: txnQ_Transact_def)

lemma Run_res:
  assumes "txn_inv q" "txn_idle q" "no_restart q" "bus_only env" "g < 4" "txnQ_Run env q g = Some (st, q')"
  shows "txn_inv q'" "txn_idle q'" "ext (run_ev None) (upd_func g (\<lambda>i. i\<lparr>eState := FUNC_STATE_RUNNING\<rparr>) q) q'"
    "pCurrTxn q' \<noteq> None \<or> txnQ_SelectTxn q' = None"
proof -
  let ?r = "upd_func g (\<lambda>i. i\<lparr>eState := FUNC_STATE_RUNNING\<rparr>) q"
  have r: "txn_inv ?r" "txn_idle ?r" using upd_state_ok [OF assms(1,5)] assms(2) by (simp_all add: txn_idle_def)
  have n: "no_restart ?r" using assms(3) by (simp add: no_restart_def)
  have s: "txnQ_RunScheduler env ?r None = Some (st, q')" using assms(6) by (simp add: txnQ_Run_def)
  from RunScheduler_res [OF r n assms(4) s] show "ext (run_ev None) ?r q'" by (simp add: run_res_mono)
  from RunScheduler_ok [OF r(1) env_passive_ok [OF bus_only_passive [OF assms(4)]] _ _ s] r(2)
  show "txn_inv q'" "txn_idle q'" "pCurrTxn q' \<noteq> None \<or> txnQ_SelectTxn q' = None" by (simp_all add: txn_idle_def)
qed

lemma TxnDoneCb_res:
  assumes "txn_inv q" "txn_idle q" "bus_only env" "pCurrTxn q = Some x" "no_restart (txn_done env q x)"
    and "txnQ_TxnDoneCb env q x = Some (st, q')"
  shows "txn_inv q'" "txn_idle q'" "ext (run_ev None) (txn_done env q x) q'" "txn_inv (txn_done env q x)"
proof -
  let ?r = "txn_done env q x"
  note env = env_passive_ok [OF bus_only_passive [OF assms(3)]]
  show r: "txn_inv ?r" using txn_done_ok [OF _ env] assms(1,4) by simp
  have c: "pCurrTxn ?r = None" "\<not> bSchedulerBusy ?r" using assms(2) by (simp_all add: txn_idle_def)
  have s: "txnQ_RunScheduler env ?r None = Some (st, q')" using assms(6) by (simp add: txnQ_TxnDoneCb_def)
  from RunScheduler_ok [OF r env c(2) _ s] c(1) show "txn_inv q'" "txn_idle q'" by simp_all
  let ?q = "?r\<lparr>bSchedulerBusy := True\<rparr>"
  have "run_loop env ?q None = Some (st, q')" using s c by (simp add: txnQ_RunScheduler_def)
  from run_loop_res [OF this] r assms(3,5) c have "run_res None st ?q q'" by (simp add: no_restart_def func_info_def)
  then have "run_res None st ?r q'" by (simp add: run_res_def same_funcs_def halted_def func_info_def)
  then show "ext (run_ev None) ?r q'" by (rule run_res_mono)
qed

end
