(* ===== verification/Wlan_TwInv.thy ===== *)
theory Wlan_TwInv
  imports Wlan_TwIf Wlan_TxnLog
begin

text \<open>
  The invariant of the bus interface layer: the counter of pending transactions is the number of transactions that the transaction queue
  holds, of completed ones that wait for the driver task, and of lost ones. It is proved from
  the events that the queue's calls add to its log and from the queue's specification machine alone.
\<close>

section \<open>Transactions under way, on the specification machine\<close>

definition regular :: "TTxnStruct \<Rightarrow> nat" where
  "regular x = (if txn_single x then 0 else 1)"

definition sp_out :: "txn_spec \<Rightarrow> nat" where
  "sp_out a = length (sp_queue a 2 0) + length (sp_queue a 2 1) + (case sp_cur a of None \<Rightarrow> 0 | Some x \<Rightarrow> regular x) +
     sum_list (map regular (sp_done a))"

text \<open>Only WLAN transactions, and the single-step ones are those at the addresses \<open>E\<close>.\<close>

definition wlan_item :: "handle set \<Rightarrow> TTxnStruct \<Rightarrow> bool" where
  "wlan_item E x \<longleftrightarrow> txn_func x = 2 \<and> txn_prio x < 2 \<and> (txn_single x \<longleftrightarrow> txn_addr x \<in> E)"

definition sp_ok :: "handle set \<Rightarrow> txn_spec \<Rightarrow> bool" where
  "sp_ok E a \<longleftrightarrow> (\<forall>f p. list_all (wlan_item E) (sp_queue a f p)) \<and> (\<forall>f. pred_option (wlan_item E) (sp_single a f)) \<and>
     pred_option (wlan_item E) (sp_cur a) \<and> list_all (wlan_item E) (sp_done a)"

fun entered :: "txn_ev \<Rightarrow> nat" where
  "entered (EvAccept x) = regular x"
| "entered _ = 0"

fun left_ev :: "txn_ev \<Rightarrow> nat" where
  "left_ev (EvReturn x) = regular x"
| "left_ev (EvLost x) = regular x"
| "left_ev (EvReport x) = regular x"
| "left_ev _ = 0"

fun plain_ev :: "handle set \<Rightarrow> txn_ev \<Rightarrow> bool" where
  "plain_ev E (EvAccept x) = wlan_item E x"
| "plain_ev E (EvRecovered x) = False"
| "plain_ev E (EvClear f) = False"
| "plain_ev E _ = True"

lemma sp_okD:
  assumes "sp_ok E a"
  shows "x \<in> set (sp_queue a f p) \<Longrightarrow> wlan_item E x" "sp_single a f = Some x \<Longrightarrow> wlan_item E x"
    "sp_cur a = Some x \<Longrightarrow> wlan_item E x" "x \<in> set (sp_done a) \<Longrightarrow> wlan_item E x"
  using assms by (auto simp: sp_ok_def list_all_iff) (metis option.pred_inject(2))+

lemma sp_ev_ok:
  assumes "spec_ev e a = Some a'" "sp_ok E a" "\<And>x. e = EvAccept x \<Longrightarrow> wlan_item E x"
  shows "sp_ok E a'"
proof (cases e)
  case (EvSent x)
  show ?thesis
  proof (cases "txn_single x")
    case True
    with EvSent assms(1) have "a' = a\<lparr>sp_single := (sp_single a)(txn_func x := None), sp_cur := Some x\<rparr>"
      "sp_single a (txn_func x) = Some x" by (auto split: if_splits)
    with sp_okD(2) [OF assms(2)] assms(2) show ?thesis by (simp add: sp_ok_def)
  next
    case False
    with EvSent assms(1) obtain ys where ys: "sp_queue a (txn_func x) (txn_prio x) = x # ys"
      "a' = a\<lparr>sp_queue := (sp_queue a)(txn_func x := (sp_queue a (txn_func x))(txn_prio x := ys)), sp_cur := Some x\<rparr>"
      by (auto split: if_splits list.splits)
    have "list_all (wlan_item E) (x # ys)" using assms(2) ys(1) by (metis sp_ok_def)
    with assms(2) ys(2) show ?thesis by (simp add: sp_ok_def)
  qed
next
  case (EvReport x)
  with assms(1) obtain ys where "sp_done a = x # ys" "a' = a\<lparr>sp_done := ys\<rparr>" by (auto split: list.splits if_splits)
  with assms(2) show ?thesis by (simp add: sp_ok_def)
next
  case (EvComplete x)
  with assms(1) have "a' = a\<lparr>sp_cur := None, sp_done := sp_done a @ [x]\<rparr>" "sp_cur a = Some x" by (auto split: if_splits)
  with assms(2) show ?thesis by (simp add: sp_ok_def)
qed (use assms in \<open>auto simp: sp_ok_def split: if_splits\<close>)

lemma sp_ev_out:
  assumes "spec_ev e a = Some a'" "sp_ok E a" "plain_ev E e"
  shows "sp_out a' + left_ev e = sp_out a + entered e"
proof (cases e)
  case (EvAccept x)
  with assms(3) have "txn_func x = 2" "txn_prio x = 0 \<or> txn_prio x = 1" by (auto simp: wlan_item_def)
  with EvAccept assms(1) show ?thesis by (auto simp: sp_out_def regular_def split: if_splits)
next
  case (EvSent x)
  show ?thesis
  proof (cases "txn_single x")
    case True
    with EvSent assms(1) show ?thesis by (auto simp: sp_out_def regular_def split: if_splits)
  next
    case False
    with EvSent assms(1) obtain ys where ys: "sp_queue a (txn_func x) (txn_prio x) = x # ys" "sp_cur a = None"
      "a' = a\<lparr>sp_queue := (sp_queue a)(txn_func x := (sp_queue a (txn_func x))(txn_prio x := ys)), sp_cur := Some x\<rparr>"
      by (auto split: if_splits list.splits)
    have "wlan_item E x" using sp_okD(1) [OF assms(2), of x "txn_func x" "txn_prio x"] ys(1) by simp
    then have "txn_func x = 2" "txn_prio x = 0 \<or> txn_prio x = 1" by (auto simp: wlan_item_def)
    with EvSent ys False show ?thesis by (auto simp: sp_out_def regular_def)
  qed
next
  case (EvReport x)
  with assms(1) show ?thesis by (auto simp: sp_out_def split: list.splits if_splits)
qed (use assms in \<open>auto simp: sp_out_def split: if_splits\<close>)

text \<open>How often an address is waiting: every transaction that is sent was.\<close>

definition occ :: "handle \<Rightarrow> txn_spec \<Rightarrow> nat" where
  "occ b a = length (filter (\<lambda>x. txn_addr x = b) (sp_queue a 2 0 @ sp_queue a 2 1)) +
     (case sp_single a 2 of None \<Rightarrow> 0 | Some x \<Rightarrow> if txn_addr x = b then 1 else 0)"

lemma sp_ev_occ:
  assumes "spec_ev e a = Some a'" "sp_ok E a" "run_ev c e"
  shows "sent_to b e + occ b a' = occ b a"
proof (cases e)
  case (EvSent x)
  show ?thesis
  proof (cases "txn_single x")
    case True
    with EvSent assms(1) have s: "sp_single a (txn_func x) = Some x" "a' = a\<lparr>sp_single := (sp_single a)(txn_func x := None), sp_cur := Some x\<rparr>"
      by (auto split: if_splits)
    with sp_okD(2) [OF assms(2), of "txn_func x" x] have "txn_func x = 2" by (simp add: wlan_item_def)
    with s EvSent show ?thesis by (simp add: occ_def)
  next
    case False
    with EvSent assms(1) obtain ys where ys: "sp_queue a (txn_func x) (txn_prio x) = x # ys"
      "a' = a\<lparr>sp_queue := (sp_queue a)(txn_func x := (sp_queue a (txn_func x))(txn_prio x := ys)), sp_cur := Some x\<rparr>"
      by (auto split: if_splits list.splits)
    have "wlan_item E x" using sp_okD(1) [OF assms(2), of x "txn_func x" "txn_prio x"] ys(1) by simp
    then have "txn_func x = 2" "txn_prio x = 0 \<or> txn_prio x = 1" by (auto simp: wlan_item_def)
    with EvSent ys show ?thesis by (auto simp: occ_def)
  qed
qed (use assms in \<open>auto simp: occ_def split: if_splits list.splits\<close>)

lemma spec_run_occ:
  assumes "spec_run es a = Some a'" "sp_ok E a" "list_all (run_ev c) es"
  shows "cnt (sent_to b) es \<le> occ b a"
  using assms
proof (induction es arbitrary: a)
  case (Cons e es)
  then obtain a1 where a1: "spec_ev e a = Some a1" "spec_run es a1 = Some a'" by (auto simp: bind_eq_Some_conv)
  have "sp_ok E a1" by (rule sp_ev_ok [OF a1(1) Cons.prems(2)]) (use Cons.prems(3) in auto)
  with Cons.IH [OF a1(2)] sp_ev_occ [OF a1(1) Cons.prems(2), of c b] Cons.prems(3) show ?case by simp
qed simp

section \<open>Delivering the events\<close>

lemma set_status_fields [simp]:
  assumes "v < 16"
  shows "txn_func (set_status v x) = txn_func x" "txn_prio (set_status v x) = txn_prio x"
    "txn_single (set_status v x) = txn_single x" "txn_addr (set_status v x) = txn_addr x" "fTxnDoneCb (set_status v x) = fTxnDoneCb x"
    "TXN_PARAM_GET_STATUS (uTxnParams (set_status v x)) = v"
  using assms by (simp_all add: set_status_def txn_func_def txn_prio_def txn_single_def txn_get_fld txn_set_fld fld_get_set fld_get_set_other)

lemmas txn_status_defs = TXN_PARAM_STATUS_OK_def TXN_PARAM_STATUS_ERROR_def TXN_PARAM_STATUS_RECOVERY_def

abbreviation done_items :: "TTwIfObj \<Rightarrow> TTxnStruct list" where
  "done_items s \<equiv> queue_items (tw_hTxnDoneQueue s)"

text \<open>The counter is exact up to \<open>d\<close> transactions that are counted and not under way.\<close>

definition tw_bal :: "nat \<Rightarrow> TTwIfObj \<Rightarrow> txn_spec \<Rightarrow> bool" where
  "tw_bal d s a \<longleftrightarrow> unat (uPendingTxnCount s) = sp_out a + length (done_items s) + tw_lost s + d"

definition tw_key :: "TTwIfObj \<Rightarrow> TTxnQObj \<times> ESmState \<times> u32 \<times> handle \<times> TElpTxn \<times> TElpTxn \<times> bool \<times> tw_ev list" where
  "tw_key s = (hTxnQ s, tw_eState s, uAwakeReqCount s, fRecoveryCb s, tElpTxnSleep s, tElpTxnAwake s, bTxnDoneInRecovery s, tw_log s)"

text \<open>What a report may change: completed transactions are appended and the counter falls, and then the driver task is requested.\<close>

definition tw_prog :: "TTwIfObj \<Rightarrow> TTwIfObj \<Rightarrow> bool" where
  "tw_prog s s' \<longleftrightarrow> tw_key s' = tw_key s \<and> (tw_sched s \<longrightarrow> tw_sched s') \<and>
     (\<exists>ys. done_items s' = done_items s @ ys \<and> (ys \<noteq> [] \<longrightarrow> tw_sched s')) \<and>
     uPendingTxnCount s' \<le> uPendingTxnCount s \<and> (uPendingTxnCount s' \<noteq> uPendingTxnCount s \<longrightarrow> tw_sched s')"

lemma tw_prog_refl [simp, intro]: "tw_prog s s"
  by (simp add: tw_prog_def)

lemma tw_prog_trans: "tw_prog s t \<Longrightarrow> tw_prog t u \<Longrightarrow> tw_prog s u"
  unfolding tw_prog_def by (elim conjE exE, intro conjI) (auto intro: order_trans)

fun ret_ev :: "txn_ev \<Rightarrow> nat" where
  "ret_ev (EvReturn x) = regular x"
| "ret_ev _ = 0"

lemma dec_pending_fields [simp]:
  "tw_key (dec_pending s) = tw_key s" "tw_sched (dec_pending s) = tw_sched s" "tw_hTxnDoneQueue (dec_pending s) = tw_hTxnDoneQueue s"
  "tw_lost (dec_pending s) = tw_lost s" "uPendingTxnCount (dec_pending s) = (if uPendingTxnCount s = 0 then 0 else uPendingTxnCount s - 1)"
  by (auto simp: dec_pending_def tw_key_def word_gt_0)

lemma word_dec_le: "(w :: u32) \<noteq> 0 \<Longrightarrow> w - 1 \<le> w"
  by (simp add: word_le_nat_alt)

lemma TxnDoneCb_step:
  assumes "TXN_PARAM_GET_STATUS (uTxnParams x) \<noteq> TXN_PARAM_STATUS_RECOVERY" "tw_bal d s a" "sp_out a = sp_out a' + regular x"
  shows "tw_bal d (twIf_TxnDoneCb s x) a'" "tw_prog s (twIf_TxnDoneCb s x)"
proof -
  let ?s = "s\<lparr>uDbgCountTxnDoneCb := uDbgCountTxnDoneCb s + 1\<rparr>"
  have "tw_bal d (twIf_TxnDoneCb s x) a' \<and> tw_prog s (twIf_TxnDoneCb s x)"
  proof (cases "txn_single x")
    case True
    with assms show ?thesis by (simp add: twIf_TxnDoneCb_def tw_bal_def tw_prog_def tw_key_def regular_def)
  next
    case False
    note r = assms(1) False
    show ?thesis
    proof (cases "fTxnDoneCb x = NULL")
      case True
      have "uPendingTxnCount s \<noteq> 0" using assms(2,3) False by (auto simp: tw_bal_def regular_def)
      with r True assms(2,3) show ?thesis
        by (simp add: twIf_TxnDoneCb_def Let_def tw_bal_def tw_prog_def regular_def word_dec_le) (simp add: tw_key_def dec_pending_def)
    next
      case cb: False
      show ?thesis
      proof (cases "tw_put ?s x")
        case None
        with r cb assms(2,3) show ?thesis by (simp add: twIf_TxnDoneCb_def Let_def tw_bal_def tw_prog_def tw_key_def regular_def)
      next
        case (Some v)
        then have "v = done_items s @ [x]"
          by (auto simp: tw_put_def queue_items_def split: option.splits if_splits)
        with Some r cb assms(2,3) show ?thesis
          by (simp add: twIf_TxnDoneCb_def Let_def tw_bal_def tw_prog_def tw_key_def regular_def queue_items_def)
      qed
    qed
  qed
  then show "tw_bal d (twIf_TxnDoneCb s x) a'" "tw_prog s (twIf_TxnDoneCb s x)" by blast+
qed

lemma deliver_step:
  assumes "spec_ev e a = Some a'" "sp_ok E a" "run_ev c e" "tw_bal d s a"
  shows "tw_bal (d + ret_ev e) (tw_deliver env s e) a'" "tw_prog s (tw_deliver env s e)"
proof -
  have p: "plain_ev E e" using assms(3) by (cases e) simp_all
  note o = sp_ev_out [OF assms(1,2) p]
  have "tw_bal (d + ret_ev e) (tw_deliver env s e) a' \<and> tw_prog s (tw_deliver env s e)"
  proof (cases e)
    case (EvReport x)
    let ?x = "set_status (if tw_fail env s x then TXN_PARAM_STATUS_ERROR else TXN_PARAM_STATUS_OK) x"
    have "x \<in> set (sp_done a)" using EvReport assms(1) by (auto split: list.splits if_splits)
    then have "txn_func x = 2" using sp_okD(4) [OF assms(2)] by (simp add: wlan_item_def)
    moreover have "TXN_PARAM_GET_STATUS (uTxnParams ?x) \<noteq> TXN_PARAM_STATUS_RECOVERY" "regular ?x = regular x"
      by (simp_all add: txn_status_defs regular_def)
    ultimately show ?thesis using TxnDoneCb_step [of ?x d s a a'] o EvReport assms(4)
      by (simp add: WLAN_def TXN_FUNC_ID_WLAN_def)
  next
    case (EvLost x)
    have "wlan_item E x" using EvLost assms(1) sp_okD(3) [OF assms(2), of x] by (auto split: if_splits)
    then have "txn_func x = 2" by (simp add: wlan_item_def)
    with EvLost o assms(4) show ?thesis
      by (auto simp: tw_bal_def tw_prog_def tw_key_def regular_def WLAN_def TXN_FUNC_ID_WLAN_def)
  qed (use o assms(3,4) in \<open>auto simp: tw_bal_def\<close>)
  then show "tw_bal (d + ret_ev e) (tw_deliver env s e) a'" "tw_prog s (tw_deliver env s e)" by blast+
qed

lemma deliver_run:
  assumes "spec_run es a = Some a'" "sp_ok E a" "list_all (run_ev c) es" "tw_bal d s a"
  shows "tw_bal (d + cnt ret_ev es) (foldl (tw_deliver env) s es) a'" "tw_prog s (foldl (tw_deliver env) s es)" "sp_ok E a'"
proof -
  have "tw_bal (d + cnt ret_ev es) (foldl (tw_deliver env) s es) a' \<and> tw_prog s (foldl (tw_deliver env) s es) \<and> sp_ok E a'"
    using assms
  proof (induction es arbitrary: a d s)
    case (Cons e es)
    then obtain a1 where a1: "spec_ev e a = Some a1" "spec_run es a1 = Some a'" by (auto simp: bind_eq_Some_conv)
    have e: "run_ev c e" "list_all (run_ev c) es" using Cons.prems(3) by simp_all
    have "sp_ok E a1" by (rule sp_ev_ok [OF a1(1) Cons.prems(2)]) (use e in auto)
    note d = deliver_step [OF a1(1) Cons.prems(2) e(1) Cons.prems(4), of env]
    from Cons.IH [OF a1(2) \<open>sp_ok E a1\<close> e(2) d(1)] tw_prog_trans [OF d(2)] show ?case by (auto simp: add.assoc)
  qed simp
  then show "tw_bal (d + cnt ret_ev es) (foldl (tw_deliver env) s es) a'" "tw_prog s (foldl (tw_deliver env) s es)" "sp_ok E a'"
    by blast+
qed

section \<open>Calls of the transaction queue\<close>

abbreviation tw_abs :: "TTwIfObj \<Rightarrow> txn_spec" where
  "tw_abs s \<equiv> txn_abs (pCurrTxn (hTxnQ s)) (hTxnQ s)"

abbreviation wlan_state :: "TTwIfObj \<Rightarrow> EFuncState" where
  "wlan_state s \<equiv> eState (func_info (hTxnQ s) 2)"

definition elp_addrs :: "TTwIfObj \<Rightarrow> handle set" where
  "elp_addrs s = {txn_addr (tHdr (tElpTxnSleep s)), txn_addr (tHdr (tElpTxnAwake s))}"

text \<open>The states outside a restart, with a counter that is \<open>d\<close> too high.\<close>

definition tw_base :: "nat \<Rightarrow> TTwIfObj \<Rightarrow> bool" where
  "tw_base d s \<longleftrightarrow> txn_inv (hTxnQ s) \<and> txn_idle (hTxnQ s) \<and> no_restart (hTxnQ s) \<and> fRecoveryCb s \<noteq> NULL \<and>
     wlan_item (elp_addrs s) (tHdr (tElpTxnSleep s)) \<and> wlan_item (elp_addrs s) (tHdr (tElpTxnAwake s)) \<and>
     sp_ok (elp_addrs s) (tw_abs s) \<and> tw_bal d s (tw_abs s)"

text \<open>A call of the queue changes the rest of the state only by reports.\<close>

definition tw_moves :: "TTwIfObj \<Rightarrow> TTwIfObj \<Rightarrow> bool" where
  "tw_moves s s' \<longleftrightarrow> tw_prog (s\<lparr>hTxnQ := hTxnQ s'\<rparr>) s'"

lemma tw_env_bus_only [simp]: "bus_only (txnq_env env)" "env_passive (txnq_env env)"
proof -
  show "bus_only (txnq_env env)" by (simp add: bus_only_def txnq_env_def list_all_iff)
  then show "env_passive (txnq_env env)" by (rule bus_only_passive)
qed

lemma WLAN_2 [simp]: "WLAN = 2"
  by (simp add: WLAN_def TXN_FUNC_ID_WLAN_def)

lemma tw_baseD:
  assumes "tw_base d s"
  shows "txn_inv (hTxnQ s)" "txn_idle (hTxnQ s)" "no_restart (hTxnQ s)" "sp_ok (elp_addrs s) (tw_abs s)" "tw_bal d s (tw_abs s)"
    "fRecoveryCb s \<noteq> NULL" "wlan_item (elp_addrs s) (tHdr (tElpTxnSleep s))" "wlan_item (elp_addrs s) (tHdr (tElpTxnAwake s))"
  using assms by (simp_all add: tw_base_def)

lemma tw_key_eq:
  assumes "tw_key s' = tw_key s"
  shows "hTxnQ s' = hTxnQ s" "tw_eState s' = tw_eState s" "uAwakeReqCount s' = uAwakeReqCount s" "fRecoveryCb s' = fRecoveryCb s"
    "tElpTxnSleep s' = tElpTxnSleep s" "tElpTxnAwake s' = tElpTxnAwake s" "bTxnDoneInRecovery s' = bTxnDoneInRecovery s"
    "tw_log s' = tw_log s" "elp_addrs s' = elp_addrs s"
  using assms by (simp_all add: tw_key_def elp_addrs_def)

lemma tw_prog_queue: "tw_prog s s' \<Longrightarrow> hTxnQ s' = hTxnQ s"
  by (rule tw_key_eq(1)) (simp add: tw_prog_def)

lemma tw_base_from:
  assumes "tw_base d s" "tw_moves s s'" "txn_inv (hTxnQ s')" "txn_idle (hTxnQ s')" "no_restart (hTxnQ s')"
    "sp_ok (elp_addrs s) (tw_abs s')" "tw_bal d' s' (tw_abs s')"
  shows "tw_base d' s'"
proof -
  have k: "tw_key s' = tw_key (s\<lparr>hTxnQ := hTxnQ s'\<rparr>)" using assms(2) by (simp add: tw_moves_def tw_prog_def)
  have "elp_addrs s' = elp_addrs s" "fRecoveryCb s' = fRecoveryCb s" "tElpTxnSleep s' = tElpTxnSleep s" "tElpTxnAwake s' = tElpTxnAwake s"
    using tw_key_eq [OF k] by (simp_all add: elp_addrs_def)
  then show ?thesis using assms(1,3-7) by (simp add: tw_base_def)
qed

lemma tw_bal_queue [simp]: "tw_bal d (s\<lparr>hTxnQ := q\<rparr>) a = tw_bal d s a"
  by (simp add: tw_bal_def)

lemma spec_run_one: "spec_run [e] a = Some a' \<Longrightarrow> spec_ev e a = Some a'"
  by (auto simp: bind_eq_Some_conv)

text \<open>Reports of a call that accepts nothing, and of one that accepts \<open>x\<close>.\<close>

lemma sync_run:
  assumes "tw_base d s" "txn_inv q'" "txn_idle q'" "no_restart q'" "txn_log q' = txn_log (hTxnQ s) @ es" "list_all (run_ev c) es"
  shows "tw_base (d + cnt ret_ev es) (tw_sync env s q')" "tw_moves s (tw_sync env s q')" "hTxnQ (tw_sync env s q') = q'"
proof -
  note b = tw_baseD [OF assms(1)]
  have sp: "spec_run es (tw_abs s) = Some (txn_abs (pCurrTxn q') q')" by (rule log_spec [OF b(1) assms(2,5)])
  have bal: "tw_bal d (s\<lparr>hTxnQ := q'\<rparr>) (tw_abs s)" using b(5) by simp
  have r: "tw_bal (d + cnt ret_ev es) (foldl (tw_deliver env) (s\<lparr>hTxnQ := q'\<rparr>) es) (txn_abs (pCurrTxn q') q')"
    "tw_prog (s\<lparr>hTxnQ := q'\<rparr>) (foldl (tw_deliver env) (s\<lparr>hTxnQ := q'\<rparr>) es)" "sp_ok (elp_addrs s) (txn_abs (pCurrTxn q') q')"
    by (rule deliver_run [OF sp b(4) assms(6) bal])+
  have y: "tw_sync env s q' = foldl (tw_deliver env) (s\<lparr>hTxnQ := q'\<rparr>) es" using assms(5) by (simp add: tw_sync_def)
  show q: "hTxnQ (tw_sync env s q') = q'" using tw_prog_queue [OF r(2)] y by simp
  show m: "tw_moves s (tw_sync env s q')" unfolding tw_moves_def q using r(2) y by simp
  show "tw_base (d + cnt ret_ev es) (tw_sync env s q')"
    by (rule tw_base_from [OF assms(1) m]) (use assms(2-4) r(1,3) q y in simp_all)
qed

lemma sync_accept:
  assumes "tw_base (d + regular x) s" "wlan_item (elp_addrs s) x" "txn_inv r" "pCurrTxn r = pCurrTxn (hTxnQ s)"
    "txn_log r = txn_log (hTxnQ s) @ [EvAccept x]"
    "txn_inv q'" "txn_idle q'" "no_restart q'" "txn_log q' = txn_log r @ es" "list_all (run_ev c) es"
  shows "tw_base (d + cnt ret_ev es) (tw_sync env s q')" "tw_moves s (tw_sync env s q')" "hTxnQ (tw_sync env s q') = q'"
    "spec_run es (txn_abs (pCurrTxn r) r) = Some (txn_abs (pCurrTxn q') q')" "sp_ok (elp_addrs s) (txn_abs (pCurrTxn r) r)"
proof -
  note b = tw_baseD [OF assms(1)]
  have e: "spec_ev (EvAccept x) (tw_abs s) = Some (txn_abs (pCurrTxn r) r)" by (rule spec_run_one [OF log_spec [OF b(1) assms(3,5)]])
  show ok: "sp_ok (elp_addrs s) (txn_abs (pCurrTxn r) r)" by (rule sp_ev_ok [OF e b(4)]) (use assms(2) in simp)
  have "sp_out (txn_abs (pCurrTxn r) r) = sp_out (tw_abs s) + regular x" using sp_ev_out [OF e b(4)] assms(2) by simp
  then have bal: "tw_bal d (s\<lparr>hTxnQ := q'\<rparr>) (txn_abs (pCurrTxn r) r)" using b(5) by (simp add: tw_bal_def)
  show s: "spec_run es (txn_abs (pCurrTxn r) r) = Some (txn_abs (pCurrTxn q') q')" by (rule log_spec [OF assms(3,6,9)])
  note d = deliver_run(1,2) [OF s ok assms(10) bal, of env] and d3 = deliver_run(3) [OF s ok assms(10) bal]
  have y: "tw_sync env s q' = foldl (tw_deliver env) (s\<lparr>hTxnQ := q'\<rparr>) es" using assms(5,9) by (simp add: tw_sync_def)
  show q: "hTxnQ (tw_sync env s q') = q'" using tw_prog_queue [OF d(2)] y by simp
  show m: "tw_moves s (tw_sync env s q')" unfolding tw_moves_def q using d(2) y by simp
  show "tw_base (d + cnt ret_ev es) (tw_sync env s q')"
    by (rule tw_base_from [OF assms(1) m]) (use assms(6-8) d(1) d3 q y in simp_all)
qed

text \<open>Whether the transaction that returns is counted depends on its address alone.\<close>

lemma ret_cnt:
  assumes "spec_run es a = Some a'" "sp_ok E a" "list_all (run_ev (Some b)) es"
  shows "cnt ret_ev es = (if b \<in> E then 0 else cnt returned es)"
  using assms
proof (induction es arbitrary: a)
  case (Cons e es)
  then obtain a1 where a1: "spec_ev e a = Some a1" "spec_run es a1 = Some a'" by (auto simp: bind_eq_Some_conv)
  have e: "run_ev (Some b) e" "list_all (run_ev (Some b)) es" using Cons.prems(3) by simp_all
  have ok: "sp_ok E a1" by (rule sp_ev_ok [OF a1(1) Cons.prems(2)]) (use e in auto)
  have "ret_ev e = (if b \<in> E then 0 else returned e)"
  proof (cases e)
    case (EvReturn y)
    then have "wlan_item E y" "txn_addr y = b" using a1(1) e sp_okD(3) [OF Cons.prems(2), of y] by (auto split: if_splits)
    then show ?thesis using EvReturn by (simp add: regular_def wlan_item_def)
  qed simp_all
  with Cons.IH [OF a1(2) ok e(2)] show ?case by simp
qed simp

lemma linked_queue:
  assumes "txnq_wf q" "f < 4" "p < 2" "y \<in> set (queue_items (txn_queue q f p))" "txn_addr y = txn_addr x"
  shows "linked q x"
proof -
  have "txn_queue q f p \<in> set (concat (aTxnQueues q))"
    using txnq_wfD(2,3) [OF assms(1)] assms(2,3) unfolding txn_queue_def set_concat by (intro UN_I [of "aTxnQueues q ! f"]) auto
  then have "y \<in> set (concat (map queue_items (concat (aTxnQueues q))))" using assms(4) by auto
  then show ?thesis unfolding linked_def using assms(5) by (metis UnI1 image_eqI)
qed

lemma occ_fresh:
  assumes "txn_inv q" "txn_accept q x = Some r" "\<not> txn_single x" "wlan_item E x" "sp_ok E (txn_abs (pCurrTxn q) q)"
  shows "occ (txn_addr x) (txn_abs c r) \<le> 1"
proof -
  note wf = txn_ok_wf [OF assms(1)]
  have x: "txn_func x = 2" "txn_prio x = 0 \<or> txn_prio x = 1" "txn_addr x \<notin> E" using assms(3,4) by (auto simp: wlan_item_def)
  from assms(2,3) obtain xs where xs: "txn_queue q 2 (txn_prio x) = Some xs"
    and r: "r = emit (EvAccept x) (set_queue 2 (txn_prio x) (Some (xs @ [x])) q)" and l: "\<not> linked q x"
    using x(1) by (auto simp: txn_accept_def slot_put_def Let_def split: option.splits if_splits)
  have n: "filter (\<lambda>y. txn_addr y = txn_addr x) (queue_items (txn_queue q 2 p)) = []" if "p < 2" for p
    using linked_queue [OF wf _ that, of 2 _ x] l by (auto simp: filter_empty_conv)
  have "filter (\<lambda>y. txn_addr y = txn_addr x) xs = []" using n [of "txn_prio x"] xs x(2) by (auto simp: queue_items_def)
  moreover have "pSingleStep (func_info q 2) = Some y \<Longrightarrow> txn_addr y \<noteq> txn_addr x" for y
    using sp_okD(2) [OF assms(5), of 2 y] txnq_wfD(9) [OF wf, of 2 y] x(3) by (auto simp: wlan_item_def)
  ultimately have c: "filter (\<lambda>y. txn_addr y = txn_addr x) xs = []"
    "(case pSingleStep (func_info q 2) of None \<Rightarrow> 0 | Some y \<Rightarrow> if txn_addr y = txn_addr x then 1 else 0) = (0 :: nat)"
    by (simp_all split: option.split)
  have q: "queue_items (txn_queue r 2 p) = (if p = txn_prio x then xs @ [x] else queue_items (txn_queue q 2 p))" for p
    using txnq_wfD(2,3) [OF wf] x(2) unfolding r by (auto simp: queue_items_def)
  have "func_info r 2 = func_info q 2" unfolding r by simp
  then have "occ (txn_addr x) (txn_abs c r) = length (filter (\<lambda>y. txn_addr y = txn_addr x) (queue_items (txn_queue r 2 0) @ queue_items (txn_queue r 2 1)))"
    using c(2) by (simp add: occ_def)
  also have "\<dots> = 1" using x(2) n [of 0] n [of 1] c(1) by (auto simp: q)
  finally show ?thesis by simp
qed

lemma tw_moves_refl [simp, intro]: "tw_moves s s"
  by (simp add: tw_moves_def)

text \<open>No function starts or stops, and where none runs only single-step transactions are sent.\<close>

definition only_singles :: "TTxnQObj \<Rightarrow> TTxnQObj \<Rightarrow> bool" where
  "only_singles q q' \<longleftrightarrow> halted q \<longrightarrow> halted q' \<and> (\<exists>es. txn_log q' = txn_log q @ es \<and> list_all sent_single es)"

definition same_states :: "TTwIfObj \<Rightarrow> TTwIfObj \<Rightarrow> bool" where
  "same_states s s' \<longleftrightarrow> (\<forall>f. eState (func_info (hTxnQ s') f) = eState (func_info (hTxnQ s) f)) \<and> only_singles (hTxnQ s) (hTxnQ s')"

lemma only_singles_refl [simp, intro]: "only_singles q q"
  by (simp add: only_singles_def)

lemma only_singles_trans: "only_singles q r \<Longrightarrow> only_singles r s \<Longrightarrow> only_singles q s"
  unfolding only_singles_def by (metis append_assoc list_all_append)

lemma tw_Transact_accepted:
  assumes "tw_base (d + regular x) s" "wlan_item (elp_addrs s) x" "txn_accept (hTxnQ s) x = Some r"
    and "txnQ_Transact (txnq_env env) (hTxnQ s) x = Some (st, q')"
  shows "tw_base (d + (if txn_single x \<or> st = TXN_STATUS_PENDING then 0 else 1)) (tw_sync env s q')"
    "tw_moves s (tw_sync env s q')" "same_states s (tw_sync env s q')"
proof -
  note b = tw_baseD [OF assms(1)]
  have p: "txn_prio x < 2" using assms(2) by (simp add: wlan_item_def)
  note t = Transact_res [OF b(1-3) tw_env_bus_only(1) p assms(3,4)]
  from t(3) obtain es where es: "txn_log q' = txn_log r @ es" "list_all (run_ev (Some (txn_addr x))) es"
    "cnt (sent_to (txn_addr x)) es \<le> 1 \<Longrightarrow> cnt returned es = (if st = TXN_STATUS_PENDING then 0 else 1)"
    "halted r \<longrightarrow> list_all sent_single es" and f: "same_funcs r q'" by (auto simp: run_res_def)
  have n: "no_restart q'" using b(3) t(5) f by (simp add: no_restart_def same_funcs_def)
  have h: "halted r = halted (hTxnQ s)" using t(5) accept_fields(7) [OF assms(3)] by (simp add: halted_def)
  note y = sync_accept [OF assms(1,2) t(6,7,4,1,2) n es(1,2)]
  have "cnt ret_ev es = (if txn_single x \<or> st = TXN_STATUS_PENDING then 0 else 1)"
  proof (cases "txn_single x")
    case True
    then show ?thesis using ret_cnt [OF y(4,5) es(2)] assms(2) by (simp add: wlan_item_def)
  next
    case False
    have "occ (txn_addr x) (txn_abs (pCurrTxn r) r) \<le> 1" by (rule occ_fresh [OF b(1) assms(3) False assms(2) b(4)])
    with spec_run_occ [OF y(4,5) es(2), of "txn_addr x"] have "cnt (sent_to (txn_addr x)) es \<le> 1" by linarith
    with ret_cnt [OF y(4,5) es(2)] es(3) assms(2) False show ?thesis by (simp add: wlan_item_def)
  qed
  with y(1) [of env] show "tw_base (d + (if txn_single x \<or> st = TXN_STATUS_PENDING then 0 else 1)) (tw_sync env s q')" by simp
  show "tw_moves s (tw_sync env s q')" by (rule y(2))
  show "same_states s (tw_sync env s q')"
    using f h t(4,5) es(1,4) y(3) [of env] by (auto simp: same_states_def same_funcs_def only_singles_def)
qed

lemma tw_Transact_regular:
  assumes "tw_base 1 s" "wlan_item (elp_addrs s) x" "\<not> txn_single x" "tw_Transact env s x = Some (st, s')"
  shows "tw_base (if st = TXN_STATUS_PENDING then 0 else 1) s'" "tw_moves s s'" "same_states s s'"
proof -
  have "tw_base (if st = TXN_STATUS_PENDING then 0 else 1) s' \<and> tw_moves s s' \<and> same_states s s'"
  proof (cases "tw_queued s x \<or> txn_accept (hTxnQ s) x = None")
    case True
    then have "st = TXN_STATUS_ERROR \<and> (s' = s \<or> s' = tw_sync env s (hTxnQ s))"
      using assms(3,4) by (auto simp: tw_Transact_def txnQ_Transact_def split: if_splits)
    moreover have "tw_sync env s (hTxnQ s) = s" by (simp add: tw_sync_def)
    ultimately show ?thesis using assms(1) by (auto simp: same_states_def)
  next
    case False
    then obtain r q' where "txn_accept (hTxnQ s) x = Some r" "txnQ_Transact (txnq_env env) (hTxnQ s) x = Some (st, q')" "s' = tw_sync env s q'"
      using assms(4) by (auto simp: tw_Transact_def)
    with tw_Transact_accepted [of 0 x s r env st q'] assms(1-3) show ?thesis by (simp add: regular_def)
  qed
  then show "tw_base (if st = TXN_STATUS_PENDING then 0 else 1) s'" "tw_moves s s'" "same_states s s'" by blast+
qed

lemma WriteElpReg_ok:
  assumes "tw_base d s" "twIf_WriteElpReg env s v = Some s'"
  shows "tw_base d s'" "tw_moves s s'" "same_states s s'"
proof -
  define x where "x = (if v = ELP_CTRL_REG_AWAKE then tHdr (tElpTxnAwake s) else tHdr (tElpTxnSleep s))"
  have x: "wlan_item (elp_addrs s) x" "txn_single x" "regular x = 0"
    using tw_baseD(7,8) [OF assms(1)] by (auto simp: x_def wlan_item_def elp_addrs_def regular_def)
  then obtain r where r: "txn_accept (hTxnQ s) x = Some r" by (simp add: txn_accept_def Let_def)
  from assms(2) x obtain st q' where "txnQ_Transact (txnq_env env) (hTxnQ s) x = Some (st, q')" "s' = tw_sync env s q'"
    by (auto simp: twIf_WriteElpReg_def tw_Transact_def x_def split: if_splits)
  with tw_Transact_accepted [of d x s r env st q'] x r assms(1) show "tw_base d s'" "tw_moves s s'" "same_states s s'" by simp_all
qed

lemma WriteElpReg_returns:
  assumes "tw_base d s"
  shows "\<exists>s'. twIf_WriteElpReg env s v = Some s'"
proof -
  have "\<exists>st q'. txnQ_Transact (txnq_env env) (hTxnQ s) x = Some (st, q')" "txn_single x" if "wlan_item (elp_addrs s) x" "txn_addr x \<in> elp_addrs s" for x
    using Transact_returns [OF tw_baseD(1,2) [OF assms] tw_env_bus_only(2)] that by (auto simp: wlan_item_def)
  then show ?thesis using tw_baseD(7,8) [OF assms] by (fastforce simp: twIf_WriteElpReg_def tw_Transact_def elp_addrs_def)
qed

lemma ret_None: "list_all (run_ev None) es \<Longrightarrow> cnt ret_ev es = 0"
proof (induction es)
  case (Cons e es)
  then show ?case by (cases e) simp_all
qed simp

lemma tw_Run_ok:
  assumes "tw_base d s" "tw_Run env s = Some s'"
  shows "tw_base d s'" "tw_moves s s'" "wlan_state s' = FUNC_STATE_RUNNING"
    "pCurrTxn (hTxnQ s') \<noteq> None \<or> txnQ_SelectTxn (hTxnQ s') = None"
proof -
  note b = tw_baseD [OF assms(1)]
  from assms(2) obtain st q' where q': "txnQ_Run (txnq_env env) (hTxnQ s) 2 = Some (st, q')" "s' = tw_sync env s q'"
    by (auto simp: tw_Run_def)
  let ?r = "upd_func 2 (\<lambda>i. i\<lparr>eState := FUNC_STATE_RUNNING\<rparr>) (hTxnQ s)"
  note r = Run_res [OF b(1-3) tw_env_bus_only(1) _ q'(1), simplified]
  from r(3) obtain es where es: "txn_log q' = txn_log (hTxnQ s) @ es" "list_all (run_ev None) es"
    "\<And>f. eState (func_info q' f) = eState (func_info ?r f)" by (auto simp: ext_def same_funcs_def)
  have n: "no_restart q'" using b(3) es(3) by (simp add: no_restart_def)
  from ret_None [OF es(2)] sync_run [OF assms(1) r(1,2) n es(1,2), of env] show "tw_base d s'" "tw_moves s s'" by (simp_all add: q')
  have "length (aFuncInfo (hTxnQ s)) = 4" using txnq_wfD(1) [OF txn_ok_wf [OF b(1)]] .
  then show "wlan_state s' = FUNC_STATE_RUNNING" using es(3) [of 2] sync_run(3) [OF assms(1) r(1,2) n es(1,2), of env] by (simp add: q')
  show "pCurrTxn (hTxnQ s') \<noteq> None \<or> txnQ_SelectTxn (hTxnQ s') = None"
    using r(4) sync_run(3) [OF assms(1) r(1,2) n es(1,2), of env] by (simp add: q')
qed

section \<open>The state machine keeps the account\<close>

definition tw_norm :: "TTwIfObj \<Rightarrow> bool" where
  "tw_norm s \<longleftrightarrow> tw_base 0 s \<and> (tw_eState s = SM_STATE_SLEEP \<longrightarrow> uPendingTxnCount s = 0) \<and>
     (tw_eState s = SM_STATE_AWAKE \<longrightarrow> wlan_state s = FUNC_STATE_RUNNING)"

lemma tw_movesD:
  assumes "tw_moves s s'"
  shows "tw_eState s' = tw_eState s" "uAwakeReqCount s' = uAwakeReqCount s" "elp_addrs s' = elp_addrs s"
    "uPendingTxnCount s' \<le> uPendingTxnCount s" "tw_sched s \<Longrightarrow> tw_sched s'" "tw_log s' = tw_log s"
    "uPendingTxnCount s' \<noteq> uPendingTxnCount s \<Longrightarrow> tw_sched s'" "bTxnDoneInRecovery s' = bTxnDoneInRecovery s"
    "\<exists>ys. done_items s' = done_items s @ ys \<and> (ys \<noteq> [] \<longrightarrow> tw_sched s')"
proof -
  have k: "tw_key s' = tw_key (s\<lparr>hTxnQ := hTxnQ s'\<rparr>)" using assms by (simp add: tw_moves_def tw_prog_def)
  show "tw_eState s' = tw_eState s" "uAwakeReqCount s' = uAwakeReqCount s" "elp_addrs s' = elp_addrs s" "tw_log s' = tw_log s"
    "bTxnDoneInRecovery s' = bTxnDoneInRecovery s"
    using tw_key_eq [OF k] by (simp_all add: elp_addrs_def)
  show "uPendingTxnCount s' \<le> uPendingTxnCount s" "tw_sched s \<Longrightarrow> tw_sched s'" "uPendingTxnCount s' \<noteq> uPendingTxnCount s \<Longrightarrow> tw_sched s'"
    "\<exists>ys. done_items s' = done_items s @ ys \<and> (ys \<noteq> [] \<longrightarrow> tw_sched s')"
    using assms by (simp_all add: tw_moves_def tw_prog_def)
qed

text \<open>The same without the state of the state machine.\<close>

definition tw_keep :: "TTwIfObj \<Rightarrow> TTwIfObj \<Rightarrow> bool" where
  "tw_keep s s' \<longleftrightarrow> elp_addrs s' = elp_addrs s \<and> uPendingTxnCount s' \<le> uPendingTxnCount s \<and> uAwakeReqCount s' = uAwakeReqCount s \<and>
     tw_log s' = tw_log s \<and> (tw_sched s \<longrightarrow> tw_sched s') \<and> (uPendingTxnCount s' \<noteq> uPendingTxnCount s \<longrightarrow> tw_sched s') \<and>
     (\<exists>ys. done_items s' = done_items s @ ys \<and> (ys \<noteq> [] \<longrightarrow> tw_sched s'))"

lemma tw_keep_refl [simp, intro]: "tw_keep s s"
  by (simp add: tw_keep_def)

lemma tw_keep_trans: "tw_keep s t \<Longrightarrow> tw_keep t u \<Longrightarrow> tw_keep s u"
  unfolding tw_keep_def by (elim conjE exE, intro conjI) (auto intro: order_trans)

lemma tw_moves_keep: "tw_moves s s' \<Longrightarrow> tw_keep s s'"
  using tw_movesD [of s s'] by (simp add: tw_keep_def)

lemma tw_keep_fields [simp]:
  "tw_keep (s\<lparr>tw_eState := v\<rparr>) s' = tw_keep s s'" "tw_keep (s\<lparr>hTxnQ := q\<rparr>) s' = tw_keep s s'"
  by (simp_all add: tw_keep_def elp_addrs_def)

lemma tw_base_fields [simp]:
  "tw_base d (s\<lparr>tw_eState := v\<rparr>) = tw_base d s" "tw_base d (s\<lparr>uAwakeReqCount := n\<rparr>) = tw_base d s"
  "tw_base d (s\<lparr>uDbgCountTxn := n\<rparr>) = tw_base d s" "tw_base d (s\<lparr>uDbgCountTxnComplete := n\<rparr>) = tw_base d s"
  "tw_base d (s\<lparr>uDbgCountTxnPending := n\<rparr>) = tw_base d s" "tw_base d (s\<lparr>uDbgCountAwake := n\<rparr>) = tw_base d s"
  "tw_base d (s\<lparr>uDbgCountSleep := n\<rparr>) = tw_base d s" "tw_base d (s\<lparr>tw_log := l\<rparr>) = tw_base d s"
  "tw_base d (s\<lparr>tw_sched := b\<rparr>) = tw_base d s" "tw_base d (s\<lparr>bTxnDoneInRecovery := b\<rparr>) = tw_base d s"
  "tw_base d (s\<lparr>bPendRestartTimerRunning := b\<rparr>) = tw_base d s" "tw_base d (s\<lparr>fErrCb := h\<rparr>) = tw_base d s"
  "tw_base d (s\<lparr>hErrCb := h\<rparr>) = tw_base d s" "tw_base d (s\<lparr>uDbgCountTxnDoneCb := n\<rparr>) = tw_base d s"
  by (simp_all add: tw_base_def elp_addrs_def tw_bal_def)

lemma tw_stop_ok:
  assumes "tw_base d s"
  shows "tw_base d (s\<lparr>hTxnQ := txnQ_Stop (hTxnQ s) 2\<rparr>)"
proof -
  let ?q = "txnQ_Stop (hTxnQ s) 2"
  note b = tw_baseD [OF assms]
  have "pCurrTxn ?q = pCurrTxn (hTxnQ s)" "txn_abs c ?q = txn_abs c (hTxnQ s)" "txn_idle ?q" "no_restart ?q" for c
    using b(2,3) by (simp_all add: txnQ_Stop_def txn_idle_def no_restart_def)
  moreover have "txn_ok (pCurrTxn (hTxnQ s)) ?q" unfolding txnQ_Stop_def using b(1) by (rule upd_state_ok) simp
  ultimately show ?thesis using assms by (simp add: tw_base_def elp_addrs_def)
qed

lemma Run_returns:
  assumes "tw_base d s"
  shows "\<exists>s'. tw_Run env s = Some s'"
proof -
  note b = tw_baseD [OF assms]
  have "txn_inv (upd_func 2 (\<lambda>i. i\<lparr>eState := FUNC_STATE_RUNNING\<rparr>) (hTxnQ s))" "txn_idle (upd_func 2 (\<lambda>i. i\<lparr>eState := FUNC_STATE_RUNNING\<rparr>) (hTxnQ s))"
    using upd_state_ok [OF b(1), of 2] b(2) by (simp_all add: txn_idle_def)
  from RunScheduler_returns [OF this tw_env_bus_only(2), where inp = None] show ?thesis by (auto simp: tw_Run_def txnQ_Run_def)
qed

text \<open>A sleep event comes only when nothing is pending; a start event may find the device asleep with a transaction counted.\<close>

lemma HandleSmEvent_ok:
  assumes "tw_base 0 s" "tw_eState s = SM_STATE_AWAKE \<longrightarrow> wlan_state s = FUNC_STATE_RUNNING"
    "ev \<noteq> SM_EVENT_START \<longrightarrow> tw_eState s = SM_STATE_SLEEP \<longrightarrow> uPendingTxnCount s = 0"
    "ev = SM_EVENT_SLEEP \<longrightarrow> uPendingTxnCount s = 0"
  shows "\<exists>s'. twIf_HandleSmEvent env s ev = Some s' \<and> tw_norm s' \<and> tw_keep s s'"
proof (cases "tw_eState s")
  case SM_STATE_AWAKE
  show ?thesis
  proof (cases "ev = SM_EVENT_SLEEP")
    case True
    let ?s = "s\<lparr>tw_eState := SM_STATE_SLEEP, hTxnQ := txnQ_Stop (hTxnQ s) 2\<rparr>"
    have b: "tw_base 0 ?s" using tw_stop_ok [of 0 "s\<lparr>tw_eState := SM_STATE_SLEEP\<rparr>"] assms(1) by simp
    then obtain s' where s': "twIf_WriteElpReg env ?s ELP_CTRL_REG_SLEEP = Some s'" using WriteElpReg_returns by blast
    note w = WriteElpReg_ok [OF b s']
    have "uPendingTxnCount s' = 0" using tw_movesD(4) [OF w(2)] assms(4) True by simp
    then have "tw_norm s' \<and> tw_keep s s'" using w(1) tw_movesD(1) [OF w(2)] tw_moves_keep [OF w(2)] by (simp add: tw_norm_def)
    then show ?thesis using s' SM_STATE_AWAKE True by (simp add: twIf_HandleSmEvent_def)
  qed (use assms SM_STATE_AWAKE in \<open>simp add: twIf_HandleSmEvent_def tw_norm_def\<close>)
next
  case SM_STATE_SLEEP
  show ?thesis
  proof (cases ev)
    case SM_EVENT_START
    let ?s = "s\<lparr>tw_eState := SM_STATE_WAIT_HW\<rparr>"
    have b: "tw_base 0 ?s" using assms(1) by simp
    then obtain s' where s': "twIf_WriteElpReg env ?s ELP_CTRL_REG_AWAKE = Some s'" using WriteElpReg_returns by blast
    note w = WriteElpReg_ok [OF b s']
    have "tw_norm s' \<and> tw_keep s s'" using w(1) tw_movesD(1) [OF w(2)] tw_moves_keep [OF w(2)] by (simp add: tw_norm_def)
    then show ?thesis using s' SM_STATE_SLEEP SM_EVENT_START by (simp add: twIf_HandleSmEvent_def)
  next
    case SM_EVENT_HW_AVAILABLE
    let ?s = "s\<lparr>tw_eState := SM_STATE_AWAKE\<rparr>"
    have b: "tw_base 0 ?s" using assms(1) by simp
    then obtain s1 where s1: "twIf_WriteElpReg env ?s ELP_CTRL_REG_AWAKE = Some s1" using WriteElpReg_returns by blast
    note w = WriteElpReg_ok [OF b s1]
    from Run_returns [OF w(1)] obtain s' where s': "tw_Run env s1 = Some s'" by blast
    note r = tw_Run_ok [OF w(1) s']
    have "tw_norm s' \<and> tw_keep s s'"
      using r(1,3) tw_movesD(1) [OF r(2)] tw_movesD(1) [OF w(2)] tw_keep_trans [OF tw_moves_keep [OF w(2)] tw_moves_keep [OF r(2)]]
      by (simp add: tw_norm_def)
    then show ?thesis using s1 s' SM_STATE_SLEEP SM_EVENT_HW_AVAILABLE by (simp add: twIf_HandleSmEvent_def)
  qed (use assms SM_STATE_SLEEP in \<open>simp add: twIf_HandleSmEvent_def tw_norm_def\<close>)
next
  case SM_STATE_WAIT_HW
  show ?thesis
  proof (cases "ev = SM_EVENT_HW_AVAILABLE")
    case True
    let ?s = "s\<lparr>tw_eState := SM_STATE_AWAKE\<rparr>"
    have b: "tw_base 0 ?s" using assms(1) by simp
    from Run_returns [OF b] obtain s' where s': "tw_Run env ?s = Some s'" by blast
    note r = tw_Run_ok [OF b s']
    have "tw_norm s' \<and> tw_keep s s'" using r(1,3) tw_movesD(1) [OF r(2)] tw_moves_keep [OF r(2)] by (simp add: tw_norm_def)
    then show ?thesis using s' SM_STATE_WAIT_HW True by (simp add: twIf_HandleSmEvent_def)
  qed (use assms SM_STATE_WAIT_HW in \<open>simp add: twIf_HandleSmEvent_def tw_norm_def\<close>)
qed

lemma check_sleep_ok:
  assumes "tw_norm s"
  shows "\<exists>s'. tw_check_sleep env s = Some s' \<and> tw_norm s' \<and> tw_keep s s'"
proof (cases "uAwakeReqCount s = 0 \<and> uPendingTxnCount s = 0")
  case True
  have "tw_base 0 s" "tw_eState s = SM_STATE_AWAKE \<longrightarrow> wlan_state s = FUNC_STATE_RUNNING" using assms by (simp_all add: tw_norm_def)
  from HandleSmEvent_ok [OF this, of SM_EVENT_SLEEP env] True show ?thesis by (auto simp: tw_check_sleep_def)
qed (use assms in \<open>auto simp: tw_check_sleep_def\<close>)

section \<open>Operations outside a restart\<close>

text \<open>
  A transaction that a client may submit: a WLAN transaction with a valid priority, not one of the two ELP structures, while fewer than
  \<open>2\<^sup>32 - 1\<close> are under way.
\<close>

definition client_txn :: "TTwIfObj \<Rightarrow> TTxnStruct \<Rightarrow> bool" where
  "client_txn s x \<longleftrightarrow> txn_func x = 2 \<and> txn_prio x < 2 \<and> txn_addr x \<notin> elp_addrs s \<and> uPendingTxnCount s \<noteq> - 1"

lemma tw_regular_fields [simp]:
  "txn_func (tw_regular x) = txn_func x" "txn_prio (tw_regular x) = txn_prio x" "\<not> txn_single (tw_regular x)"
  "txn_addr (tw_regular x) = txn_addr x" "uHwAddr (tw_regular x) = uHwAddr x" "fTxnDoneCb (tw_regular x) = fTxnDoneCb x"
  by (simp_all add: tw_regular_def txn_func_def txn_prio_def txn_single_def txn_get_fld txn_set_fld fld_get_set fld_get_set_other)

lemma unat_suc: "(w :: u32) \<noteq> - 1 \<Longrightarrow> unat (w + 1) = Suc (unat w)"
  by (metis add.inverse_inverse add_eq_0_iff unatSuc add.commute)

lemma tw_norm_err [simp]: "tw_norm (tw_err s) = tw_norm s"
  by (simp add: tw_err_def tw_emit_def tw_norm_def)

lemma base_dec:
  assumes "tw_base (Suc d) s"
  shows "tw_base d (s\<lparr>uPendingTxnCount := uPendingTxnCount s - 1\<rparr>)"
proof -
  have "uPendingTxnCount s \<noteq> 0" using assms by (auto simp: tw_base_def tw_bal_def)
  then show ?thesis using assms by (simp add: tw_base_def elp_addrs_def tw_bal_def)
qed

lemma SendTransaction_ok:
  assumes "tw_norm s" "client_txn s x" "\<not> txn_single x"
  shows "\<exists>st s'. twIf_SendTransaction env s x = Some (st, s') \<and> tw_norm s' \<and> elp_addrs s' = elp_addrs s \<and>
    unat (uPendingTxnCount s') \<le> Suc (unat (uPendingTxnCount s))"
proof (cases "uHwAddr x AND 0x3 = 0")
  case False
  then show ?thesis using assms(1) by (simp add: twIf_SendTransaction_def)
next
  case al: True
  let ?s = "s\<lparr>uPendingTxnCount := uPendingTxnCount s + 1\<rparr>"
  have n: "tw_base 0 s" "tw_eState s = SM_STATE_SLEEP \<Longrightarrow> uPendingTxnCount s = 0"
    "tw_eState s = SM_STATE_AWAKE \<Longrightarrow> wlan_state s = FUNC_STATE_RUNNING" using assms(1) by (simp_all add: tw_norm_def)
  have b: "tw_base 1 ?s" using n(1) unat_suc assms(2) by (simp add: tw_base_def elp_addrs_def tw_bal_def client_txn_def)
  have w: "wlan_item (elp_addrs ?s) x" using assms(2,3) by (simp add: wlan_item_def client_txn_def elp_addrs_def)
  have "\<exists>st q'. txnQ_Transact (txnq_env env) (hTxnQ s) x = Some (st, q')"
    using Transact_returns [OF tw_baseD(1,2) [OF n(1)] tw_env_bus_only(2)] assms(2) by (simp add: client_txn_def)
  then obtain st s1 where t: "tw_Transact env ?s x = Some (st, s1)"
    using assms(3) by (cases "tw_queued ?s x") (auto simp: tw_Transact_def)
  note r = tw_Transact_regular [OF b w assms(3) t] and m = tw_movesD [OF tw_Transact_regular(2) [OF b w assms(3) t]]
  have aw: "tw_eState s1 = SM_STATE_AWAKE \<longrightarrow> wlan_state s1 = FUNC_STATE_RUNNING" using n(3) m(1) r(3) by (simp add: same_states_def)
  define s2 where "s2 = (let s = s1\<lparr>uDbgCountTxn := uDbgCountTxn s1 + 1\<rparr> in
    if st = TXN_STATUS_COMPLETE then s\<lparr>uDbgCountTxnComplete := uDbgCountTxnComplete s + 1\<rparr>
    else if st = TXN_STATUS_PENDING then s\<lparr>uDbgCountTxnPending := uDbgCountTxnPending s + 1\<rparr> else s)"
  have s2: "tw_base d s2 = tw_base d s1" "tw_eState s2 = tw_eState s1" "hTxnQ s2 = hTxnQ s1" "uPendingTxnCount s2 = uPendingTxnCount s1"
    "elp_addrs s2 = elp_addrs s1" for d
    by (simp_all add: s2_def Let_def elp_addrs_def)
  have e: "elp_addrs s2 = elp_addrs s" using m(3) s2(5) by (simp add: elp_addrs_def)
  have le: "unat (uPendingTxnCount s2) \<le> Suc (unat (uPendingTxnCount s))"
    using m(4) s2(4) unat_suc assms(2) by (simp add: word_le_nat_alt client_txn_def)
  show ?thesis
  proof (cases "st = TXN_STATUS_PENDING")
    case True
    have h: "tw_base 0 s2" using r(1) True s2(1) by simp
    from HandleSmEvent_ok [OF h, of SM_EVENT_START env] aw s2 obtain s' where s': "twIf_HandleSmEvent env s2 SM_EVENT_START = Some s'"
      "tw_norm s'" "tw_keep s2 s'" by auto
    have "twIf_SendTransaction env s x = Some (st, s')" using al t True s'(1) by (simp add: twIf_SendTransaction_def s2_def Let_def)
    then show ?thesis using s' e le by (auto simp: tw_keep_def word_le_nat_alt)
  next
    case False
    let ?s2 = "s2\<lparr>uPendingTxnCount := uPendingTxnCount s2 - 1\<rparr>"
    have b1: "tw_base 1 s1" using r(1) False by simp
    then have p: "uPendingTxnCount s1 \<noteq> 0" by (auto simp: tw_base_def tw_bal_def)
    have b2: "tw_base 0 ?s2" using base_dec [of 0 s2] b1 s2(1) by simp
    have "uPendingTxnCount ?s2 = 0" if "tw_eState ?s2 = SM_STATE_SLEEP"
    proof -
      have "uPendingTxnCount s1 \<le> 1" using that n(2) s2(2) m(1,4) by simp
      with p have "uPendingTxnCount s1 = 1" by (simp add: word_le_nat_alt) (metis One_nat_def le_SucE le_zero_eq unat_1 unat_eq_zero word_unat_eq_iff)
      then show ?thesis using s2 by simp
    qed
    then have "tw_norm ?s2" using b2 aw s2 by (simp add: tw_norm_def)
    from check_sleep_ok [OF this, of env] obtain s' where s': "tw_check_sleep env ?s2 = Some s'" "tw_norm s'" "tw_keep ?s2 s'" by auto
    let ?s' = "if st = TXN_STATUS_ERROR then tw_err s' else s'"
    have "twIf_SendTransaction env s x = Some (st, ?s')" using al t False s'(1) by (simp add: twIf_SendTransaction_def s2_def Let_def)
    moreover have "elp_addrs ?s' = elp_addrs s" "uPendingTxnCount ?s' = uPendingTxnCount s'"
      using s'(3) e by (simp_all add: tw_keep_def elp_addrs_def tw_err_def tw_emit_def)
    moreover have "unat (uPendingTxnCount s') \<le> unat (uPendingTxnCount s1) - 1" "unat (uPendingTxnCount s1) \<le> Suc (unat (uPendingTxnCount s))"
      using s'(3) le p s2(4) by (simp_all add: tw_keep_def word_le_nat_alt)
    then have "unat (uPendingTxnCount s') \<le> Suc (unat (uPendingTxnCount s))" by linarith
    ultimately show ?thesis using s'(2) by auto
  qed
qed

fun tw_req_ok :: "TTwIfObj \<Rightarrow> tw_req \<Rightarrow> bool" where
  "tw_req_ok s (TwTransact x) = client_txn s x"
| "tw_req_ok s (TwTransactFw x) = client_txn s x"
| "tw_req_ok s _ = True"

definition cb_ok :: "tw_env \<Rightarrow> bool" where
  "cb_ok env \<longleftrightarrow> (\<forall>s x i. tw_req_ok s (cb_call env s x i))"

lemma client_txn_regular:
  "client_txn s x \<Longrightarrow> client_txn s (tw_regular (x\<lparr>uHwAddr := a\<rparr>))" "client_txn s x \<Longrightarrow> client_txn s (tw_regular x)"
  by (simp_all add: client_txn_def) (simp add: txn_func_def txn_prio_def)

lemma tw_norm_fields [simp]:
  "tw_norm (s\<lparr>uAwakeReqCount := n\<rparr>) = tw_norm s" "tw_norm (s\<lparr>uDbgCountAwake := n\<rparr>) = tw_norm s"
  "tw_norm (s\<lparr>uDbgCountSleep := n\<rparr>) = tw_norm s" "tw_norm (s\<lparr>tw_log := l\<rparr>) = tw_norm s" "tw_norm (s\<lparr>tw_sched := b\<rparr>) = tw_norm s"
  "tw_norm (s\<lparr>bTxnDoneInRecovery := b\<rparr>) = tw_norm s" "tw_norm (s\<lparr>bPendRestartTimerRunning := b\<rparr>) = tw_norm s"
  "tw_norm (s\<lparr>fErrCb := h\<rparr>) = tw_norm s" "tw_norm (s\<lparr>hErrCb := h\<rparr>) = tw_norm s"
  by (simp_all add: tw_norm_def)

lemma tw_norm_emit [simp]: "tw_norm (tw_emit e s) = tw_norm s"
  by (simp add: tw_emit_def)

lemma tw_call_ok:
  assumes "tw_norm s" "tw_req_ok s r"
  shows "\<exists>s'. tw_call env r s = Some s' \<and> tw_norm s'"
proof (cases r)
  case (TwTransact x)
  from SendTransaction_ok [OF assms(1) client_txn_regular(1) tw_regular_fields(3)] TwTransact assms(2) show ?thesis
    by (fastforce simp: twIf_Transact_def)
next
  case (TwTransactFw x)
  from SendTransaction_ok [OF assms(1) client_txn_regular(2) tw_regular_fields(3)] TwTransactFw assms(2) show ?thesis
    by (fastforce simp: twIf_TransactReadFWStatus_def)
next
  case TwSleep
  have "tw_norm ((if uAwakeReqCount s > 0 then s\<lparr>uAwakeReqCount := uAwakeReqCount s - 1\<rparr> else s)\<lparr>uDbgCountSleep := n\<rparr>)" for n
    using assms(1) by simp
  from check_sleep_ok [OF this] TwSleep show ?thesis by (fastforce simp: twIf_Sleep_def)
next
  case TwHwAvailable
  have "tw_base 0 s" "tw_eState s = SM_STATE_AWAKE \<longrightarrow> wlan_state s = FUNC_STATE_RUNNING" "tw_eState s = SM_STATE_SLEEP \<longrightarrow> uPendingTxnCount s = 0"
    using assms(1) by (simp_all add: tw_norm_def)
  from HandleSmEvent_ok [OF this(1,2), of SM_EVENT_HW_AVAILABLE env] this(3) TwHwAvailable show ?thesis by (auto simp: twIf_HwAvailable_def)
qed (use assms in \<open>simp add: twIf_Awake_def\<close>)

lemma tw_callback_ok:
  assumes "tw_norm s" "cb_ok env"
  shows "\<exists>s'. tw_callback env x is s = Some s' \<and> tw_norm s'"
  using assms(1)
proof (induction "is" arbitrary: s)
  case (Cons i "is")
  have "tw_req_ok s (cb_call env s x i)" using assms(2) by (simp add: cb_ok_def)
  from tw_call_ok [OF Cons.prems this, of env] Cons.IH show ?case by fastforce
qed simp

text \<open>One round of the handler's loop.\<close>

lemma done_round:
  assumes "tw_norm s" "done_items s = x # xs"
  shows "tw_norm (dec_pending (s\<lparr>tw_hTxnDoneQueue := Some xs\<rparr>))"
    "Suc (unat (uPendingTxnCount (dec_pending (s\<lparr>tw_hTxnDoneQueue := Some xs\<rparr>)))) = unat (uPendingTxnCount s)"
proof -
  let ?s = "dec_pending (s\<lparr>tw_hTxnDoneQueue := Some xs\<rparr>)"
  have b: "tw_base 0 s" using assms(1) by (simp add: tw_norm_def)
  then have c: "uPendingTxnCount s \<noteq> 0" using assms(2) by (auto simp: tw_base_def tw_bal_def)
  then show s: "Suc (unat (uPendingTxnCount ?s)) = unat (uPendingTxnCount s)" by (simp add: word_gt_0 unat_gt_0)
  have e: "?s = s\<lparr>tw_hTxnDoneQueue := Some xs, uPendingTxnCount := uPendingTxnCount s - 1\<rparr>"
    using c by (simp add: dec_pending_def word_gt_0)
  have "tw_base 0 ?s" using b s assms(2) unfolding e by (simp add: tw_base_def elp_addrs_def tw_bal_def) (simp add: queue_items_def)
  then show "tw_norm ?s" using assms(1) c unfolding e by (auto simp: tw_norm_def)
qed

lemma done_loop_norm:
  assumes "tw_done_loop env s = Some s'" "tw_norm s" "cb_ok env"
  shows "tw_norm s'"
proof -
  let ?P = "\<lambda>env s s'. tw_norm s \<longrightarrow> cb_ok env \<longrightarrow> tw_norm s'"
  have "?P env s s'"
  proof (rule tw_done_loop.raw_induct [where P = ?P, OF _ assms(1)])
    fix rec env s s'
    assume IH: "\<And>env s s'. rec env s = Some s' \<Longrightarrow> ?P env s s'"
    assume body: "(case done_items s of
        [] \<Rightarrow> tw_check_sleep env s
      | x # xs \<Rightarrow>
          let s = dec_pending (s\<lparr>tw_hTxnDoneQueue := Some xs\<rparr>) in
          if TXN_PARAM_GET_STATUS (uTxnParams x) = TXN_PARAM_STATUS_ERROR then Some (tw_err s)
          else
            Option.bind
              (if fTxnDoneCb x \<noteq> NULL then tw_callback env x [0..<cb_calls env s x] (tw_emit (TwTxnDoneCb x) s) else Some s)
              (\<lambda>s. Option.bind (tw_check_sleep env s) (rec env))) = Some s'"
    show "?P env s s'"
    proof (intro impI)
      assume a: "tw_norm s" "cb_ok env"
      show "tw_norm s'"
      proof (cases "done_items s")
        case Nil
        with body check_sleep_ok [OF a(1), of env] show ?thesis by auto
      next
        case (Cons x xs)
        note r = done_round [OF a(1) Cons]
        let ?s = "dec_pending (s\<lparr>tw_hTxnDoneQueue := Some xs\<rparr>)"
        show ?thesis
        proof (cases "TXN_PARAM_GET_STATUS (uTxnParams x) = TXN_PARAM_STATUS_ERROR")
          case True
          with body Cons r(1) show ?thesis by (auto simp: Let_def)
        next
          case False
          have "tw_norm (tw_emit (TwTxnDoneCb x) ?s)" using r(1) by simp
          from tw_callback_ok [OF this a(2), of x "[0..<cb_calls env ?s x]"] r(1) obtain s1 where
            s1: "(if fTxnDoneCb x \<noteq> NULL then tw_callback env x [0..<cb_calls env ?s x] (tw_emit (TwTxnDoneCb x) ?s) else Some ?s) = Some s1" "tw_norm s1"
            by (cases "fTxnDoneCb x = NULL") auto
          from check_sleep_ok [OF s1(2), of env] obtain s2 where s2: "tw_check_sleep env s1 = Some s2" "tw_norm s2" by auto
          from body Cons False s1(1) s2(1) have "rec env s2 = Some s'" by (simp add: Let_def)
          with IH [OF this] s2(2) a(2) show ?thesis by simp
        qed
      qed
    qed
  qed
  with assms(2,3) show ?thesis by simp
qed

section \<open>Restart\<close>

text \<open>
  A restart waits for the transaction on the bus: the counters are cleared and the state machine sleeps.
\<close>

definition tw_rest :: "TTwIfObj \<Rightarrow> bool" where
  "tw_rest s \<longleftrightarrow> txn_inv (hTxnQ s) \<and> txn_idle (hTxnQ s) \<and> fRecoveryCb s \<noteq> NULL \<and>
     wlan_item (elp_addrs s) (tHdr (tElpTxnSleep s)) \<and> wlan_item (elp_addrs s) (tHdr (tElpTxnAwake s)) \<and>
     sp_ok (elp_addrs s) (tw_abs s) \<and> wlan_state s = FUNC_STATE_RESTART \<and>
     (\<forall>f<4. f \<noteq> 2 \<longrightarrow> eState (func_info (hTxnQ s) f) \<noteq> FUNC_STATE_RESTART) \<and> pCurrTxn (hTxnQ s) \<noteq> None \<and>
     uPendingTxnCount s = 0 \<and> done_items s = [] \<and> tw_lost s = 0 \<and> tw_eState s = SM_STATE_SLEEP"

definition tw_inv :: "TTwIfObj \<Rightarrow> bool" where
  "tw_inv s \<longleftrightarrow> tw_norm s \<or> tw_rest s"

lemma tw_rest_fields [simp]:
  "tw_rest (s\<lparr>uAwakeReqCount := n\<rparr>) = tw_rest s" "tw_rest (s\<lparr>uDbgCountAwake := n\<rparr>) = tw_rest s"
  "tw_rest (s\<lparr>uDbgCountSleep := n\<rparr>) = tw_rest s" "tw_rest (s\<lparr>tw_log := l\<rparr>) = tw_rest s" "tw_rest (s\<lparr>tw_sched := b\<rparr>) = tw_rest s"
  "tw_rest (s\<lparr>bTxnDoneInRecovery := b\<rparr>) = tw_rest s" "tw_rest (s\<lparr>bPendRestartTimerRunning := b\<rparr>) = tw_rest s"
  "tw_rest (s\<lparr>fErrCb := h\<rparr>) = tw_rest s" "tw_rest (s\<lparr>hErrCb := h\<rparr>) = tw_rest s"
  by (simp_all add: tw_rest_def elp_addrs_def)

lemma rest_check_sleep: "tw_rest s \<Longrightarrow> tw_check_sleep env s = Some s"
  by (simp add: tw_rest_def tw_check_sleep_def twIf_HandleSmEvent_def)

lemma rest_done_loop:
  assumes "tw_rest s"
  shows "tw_done_loop env s = Some s"
proof -
  have "done_items s = []" using assms by (simp add: tw_rest_def)
  then show ?thesis using rest_check_sleep [OF assms] by (subst tw_done_loop.simps) simp
qed

lemma HandleTxnDone_inv:
  assumes "twIf_HandleTxnDone env s = Some s'" "tw_inv s" "cb_ok env"
  shows "tw_inv s'"
proof (cases "bTxnDoneInRecovery s")
  case True
  then show ?thesis using assms(1,2) by (auto simp: twIf_HandleTxnDone_def tw_inv_def tw_emit_def Let_def split: if_splits)
next
  case False
  then show ?thesis using assms done_loop_norm [of env s s'] rest_done_loop [of s env] by (auto simp: twIf_HandleTxnDone_def tw_inv_def)
qed

text \<open>The queue is cleared: nothing of the WLAN function remains.\<close>

lemma Clear_ok:
  assumes "txn_inv q" "txn_idle q" "sp_ok E (txn_abs c q)"
  shows "txn_ok (pCurrTxn q) (txnQ_ClearQueues q 2)" "txn_idle (txnQ_ClearQueues q 2)" "sp_ok E (txn_abs d (txnQ_ClearQueues q 2)) \<or> d \<noteq> None"
    "sp_out (txn_abs None (txnQ_ClearQueues q 2)) = 0" "eState (func_info (txnQ_ClearQueues q 2) f) = (if f = 2 then FUNC_STATE_RUNNING else eState (func_info q f))"
proof -
  note wf = txn_ok_wf [OF assms(1)] and i = ClearQueues_info [OF txn_ok_wf [OF assms(1)], of 2]
  show "txn_ok (pCurrTxn q) (txnQ_ClearQueues q 2)" by (rule ClearQueues_ok [OF assms(1)]) simp
  show "txn_idle (txnQ_ClearQueues q 2)" using assms(2) by (simp add: txn_idle_def)
  have e: "queue_items (txn_queue (txnQ_ClearQueues q 2) 2 p) = []" if "p < 2" for p
  proof (cases "txn_queue q 2 p")
    case (Some xs)
    with txnq_wfD(7) [OF wf _ that Some] show ?thesis by (simp add: i queue_items_def)
  qed (simp add: i queue_items_def)
  have s: "pSingleStep (func_info (txnQ_ClearQueues q 2) 2) = None" by (simp add: i)
  show "eState (func_info (txnQ_ClearQueues q 2) f) = (if f = 2 then FUNC_STATE_RUNNING else eState (func_info q f))" by (simp add: i)
  have dn: "queue_items (hTxnDoneQueue q) = []" using assms(2) by (simp add: txn_idle_def)
  show "sp_out (txn_abs None (txnQ_ClearQueues q 2)) = 0" using e dn by (simp add: sp_out_def)
  have "list_all (wlan_item E) (sp_queue (txn_abs None (txnQ_ClearQueues q 2)) f p)" for f p
  proof -
    have "list_all (wlan_item E) (sp_queue (txn_abs c q) f p)" using assms(3) unfolding sp_ok_def by blast
    then show ?thesis using e [of p] i(1) [of f p] by (cases "f = 2") auto
  qed
  moreover have "pred_option (wlan_item E) (sp_single (txn_abs None (txnQ_ClearQueues q 2)) f)" for f
  proof -
    have "pred_option (wlan_item E) (sp_single (txn_abs c q) f)" using assms(3) unfolding sp_ok_def by blast
    then show ?thesis using s by (cases "f = 2") (auto simp: i(2))
  qed
  ultimately show "sp_ok E (txn_abs d (txnQ_ClearQueues q 2)) \<or> d \<noteq> None" using dn by (auto simp: sp_ok_def)
qed

lemma clear_loop_zero:
  "uPendingTxnCount s = 0 \<Longrightarrow> tw_clear_loop xs s = (if xs = [] then s else s\<lparr>tw_hTxnDoneQueue := Some []\<rparr>)"
proof (induction xs arbitrary: s)
  case (Cons x xs)
  have "tw_clear_loop (x # xs) s = tw_clear_loop xs (s\<lparr>tw_hTxnDoneQueue := Some xs\<rparr>)" using Cons.prems by (simp add: dec_pending_def)
  then show ?case using Cons.IH [of "s\<lparr>tw_hTxnDoneQueue := Some xs\<rparr>"] Cons.prems by (cases xs) auto
qed simp

text \<open>What both kinds of states provide.\<close>

lemma tw_invD:
  assumes "tw_inv s"
  shows "txn_inv (hTxnQ s)" "txn_idle (hTxnQ s)" "fRecoveryCb s \<noteq> NULL" "wlan_item (elp_addrs s) (tHdr (tElpTxnSleep s))"
    "wlan_item (elp_addrs s) (tHdr (tElpTxnAwake s))" "sp_ok (elp_addrs s) (tw_abs s)"
    "\<forall>f<4. f \<noteq> 2 \<longrightarrow> eState (func_info (hTxnQ s) f) \<noteq> FUNC_STATE_RESTART"
  using assms by (auto simp: tw_inv_def tw_norm_def tw_base_def tw_rest_def no_restart_def)

lemma Restart_inv:
  assumes "txn_inv (hTxnQ s)" "txn_idle (hTxnQ s)" "fRecoveryCb s \<noteq> NULL" "wlan_item (elp_addrs s) (tHdr (tElpTxnSleep s))"
    "wlan_item (elp_addrs s) (tHdr (tElpTxnAwake s))" "sp_ok (elp_addrs s) (tw_abs s)"
    "\<forall>f<4. f \<noteq> 2 \<longrightarrow> eState (func_info (hTxnQ s) f) \<noteq> FUNC_STATE_RESTART"
  shows "tw_inv (snd (twIf_Restart s))" "fst (twIf_Restart s) = TXN_STATUS_PENDING \<longleftrightarrow> pCurrTxn (hTxnQ s) \<noteq> None"
proof -
  let ?s = "s\<lparr>tw_eState := SM_STATE_SLEEP, uAwakeReqCount := 0, uPendingTxnCount := 0\<rparr>"
  define t where "t = (twIf_ClearTxnDoneQueue ?s)\<lparr>tw_lost := 0\<rparr>"
  have t: "hTxnQ t = hTxnQ s" "fRecoveryCb t = fRecoveryCb s" "tElpTxnSleep t = tElpTxnSleep s" "tElpTxnAwake t = tElpTxnAwake s"
    "uPendingTxnCount t = 0" "done_items t = []" "tw_lost t = 0" "tw_eState t = SM_STATE_SLEEP" "elp_addrs t = elp_addrs s"
    by (simp_all add: t_def twIf_ClearTxnDoneQueue_def clear_loop_zero elp_addrs_def)
      (simp add: queue_items_def)
  have "tw_inv (snd (twIf_Restart s)) \<and> (fst (twIf_Restart s) = TXN_STATUS_PENDING \<longleftrightarrow> pCurrTxn (hTxnQ s) \<noteq> None)"
  proof (cases "pCurrTxn (hTxnQ s)")
    case None
    let ?q = "txnQ_ClearQueues (hTxnQ s) 2"
    note c = Clear_ok [OF assms(1,2,6)]
    have r: "twIf_Restart s = (TXN_STATUS_COMPLETE, t\<lparr>hTxnQ := ?q\<rparr>)"
      using None t(1) by (simp add: twIf_Restart_def txnQ_Restart_def t_def Let_def)
    have "no_restart ?q" using assms(7) c(5) by (auto simp: no_restart_def)
    then have "tw_base 0 (t\<lparr>hTxnQ := ?q\<rparr>)"
      using c(1,2,4) c(3) [of None] None t assms(3-5) by (simp add: tw_base_def elp_addrs_def tw_bal_def)
    then have "tw_norm (t\<lparr>hTxnQ := ?q\<rparr>)" using t by (simp add: tw_norm_def)
    then show ?thesis using r None by (simp add: tw_inv_def)
  next
    case (Some x)
    let ?q = "upd_func 2 (\<lambda>i. i\<lparr>eState := FUNC_STATE_RESTART\<rparr>) (hTxnQ s)"
    have x: "txn_func x = 2" using sp_okD(3) [OF assms(6), of x] Some by (simp add: wlan_item_def)
    have r: "twIf_Restart s = (TXN_STATUS_PENDING, tw_emit (TwStartTimer PEND_RESTART_TIMEOUT) (t\<lparr>hTxnQ := ?q, bPendRestartTimerRunning := True\<rparr>))"
      using Some x t(1) by (simp add: twIf_Restart_def txnQ_Restart_def t_def Let_def)
    have "txn_inv ?q" using upd_state_ok [OF assms(1), of 2] by simp
    moreover have "length (aFuncInfo (hTxnQ s)) = 4" by (rule txnq_wfD(1) [OF txn_ok_wf [OF assms(1)]])
    ultimately have "tw_rest (t\<lparr>hTxnQ := ?q\<rparr>)"
      using Some t assms(2-7) by (simp add: tw_rest_def elp_addrs_def txn_idle_def)
    then show ?thesis using r Some by (simp add: tw_inv_def tw_emit_def)
  qed
  then show "tw_inv (snd (twIf_Restart s))" "fst (twIf_Restart s) = TXN_STATUS_PENDING \<longleftrightarrow> pCurrTxn (hTxnQ s) \<noteq> None" by blast+
qed

section \<open>Completion by the bus\<close>

lemma BusDone_norm:
  assumes "tw_norm s" "pCurrTxn (hTxnQ s) = Some x" "tw_BusDone env s x = Some s'"
  shows "tw_norm s'"
proof -
  let ?q = "hTxnQ s" and ?d = "txn_done (txnq_env env) (hTxnQ s) x"
  have b: "tw_base 0 s" using assms(1) by (simp add: tw_norm_def)
  note bd = tw_baseD [OF b]
  from assms(3) obtain st q' where q': "txnQ_TxnDoneCb (txnq_env env) ?q x = Some (st, q')" "s' = tw_sync env s q'"
    by (auto simp: tw_BusDone_def)
  have e: "ext (run_ev None) ?q ?d" by (rule txn_done_ext [OF bd(3)])
  have n: "no_restart ?d" using bd(3) ext_no_restart [OF e] by simp
  note r = TxnDoneCb_res [OF bd(1,2) tw_env_bus_only(1) assms(2) n q'(1)]
  from ext_trans [OF e r(3)] obtain es where es: "txn_log q' = txn_log ?q @ es" "list_all (run_ev None) es"
    "\<forall>f. eState (func_info q' f) = eState (func_info ?q f)" by (auto simp: ext_def same_funcs_def)
  have n': "no_restart q'" using bd(3) es(3) by (simp add: no_restart_def)
  note y = sync_run [OF b r(1,2) n' es(1,2), of env]
  have "tw_base 0 s'" "tw_moves s s'" "hTxnQ s' = q'" using y ret_None [OF es(2)] by (simp_all add: q'(2))
  then show ?thesis using assms(1) es(3) tw_movesD(1,4) [of s s'] by (auto simp: tw_norm_def)
qed

lemma nested_dones: "foldl nested_req q (replicate n ReqTxnDone) = q"
  by (induction n) simp_all

text \<open>The transaction that a restart waited for: the queues are cleared, and the completion is the restart's.\<close>

lemma BusDone_rest:
  assumes "tw_rest s" "pCurrTxn (hTxnQ s) = Some x" "tw_BusDone env s x = Some s'"
  shows "tw_norm s'" "bTxnDoneInRecovery s'" "tw_sched s'" "sp_out (tw_abs s') = 0" "uPendingTxnCount s' = 0"
proof -
  let ?q = "hTxnQ s" and ?d = "txn_done (txnq_env env) (hTxnQ s) x" and ?x = "set_status TXN_PARAM_STATUS_RECOVERY x"
  have i: "tw_inv s" using assms(1) by (simp add: tw_inv_def)
  note d = tw_invD [OF i]
  from assms(3) obtain st q' where q': "txnQ_TxnDoneCb (txnq_env env) ?q x = Some (st, q')" "s' = tw_sync env s q'"
    by (auto simp: tw_BusDone_def)
  have x: "txn_func x = 2" using sp_okD(3) [OF d(6), of x] assms(2) by (simp add: wlan_item_def)
  have dd: "?d = (emit (EvRecovered ?x) (txnQ_ClearQueues ?q 2))\<lparr>pCurrTxn := None\<rparr>"
    using assms(1) x by (simp add: txn_done_def tw_rest_def txnq_env_def nested_dones)
  note c = Clear_ok [OF d(1,2,6)] and ci = ClearQueues_info [OF txn_ok_wf [OF d(1)], of 2]
  have fi: "func_info ?d f = func_info (txnQ_ClearQueues ?q 2) f" for f unfolding dd by (simp add: func_info_def)
  have n: "no_restart ?d" using d(7) c(5) fi by (auto simp: no_restart_def)
  note r = TxnDoneCb_res [OF d(1,2) tw_env_bus_only(1) assms(2) n q'(1)]
  from r(3) obtain es where es: "txn_log q' = txn_log ?d @ es" "list_all (run_ev None) es"
    "\<forall>f. eState (func_info q' f) = eState (func_info ?d f)" by (auto simp: ext_def same_funcs_def)
  have l: "txn_log ?d = txn_log ?q @ [EvClear 2, EvRecovered ?x]" unfolding dd by (simp add: ci)
  define t where "t = s\<lparr>hTxnQ := ?d, uDbgCountTxnDoneCb := uDbgCountTxnDoneCb s + 1, bTxnDoneInRecovery := True, tw_sched := True\<rparr>"
  have u: "t\<lparr>hTxnQ := q'\<rparr> = s\<lparr>hTxnQ := q', uDbgCountTxnDoneCb := uDbgCountTxnDoneCb s + 1, bTxnDoneInRecovery := True, tw_sched := True\<rparr>"
    unfolding t_def by (cases s) simp
  have "hTxnQ t = ?d" by (simp add: t_def)
  then have "tw_sync env s q' = tw_sync env t q'"
    using es(1) l x d(3) unfolding tw_sync_def u by (simp add: twIf_TxnDoneCb_def Let_def txn_status_defs)
  moreover have a: "txn_abs None ?d = txn_abs None (txnQ_ClearQueues ?q 2)" unfolding dd by (rule abs_cong) simp_all
  have tb: "tw_base 0 t"
    using r(4) n d(3-5) c(2,4) c(3) [of None] a assms(1)
    by (simp add: tw_base_def t_def elp_addrs_def tw_bal_def tw_rest_def txn_idle_def dd)
  have n': "no_restart q'" using n es(3) by (simp add: no_restart_def)
  have lt: "txn_log q' = txn_log (hTxnQ t) @ es" using es(1) by (simp add: t_def)
  note y = sync_run [OF tb r(1,2) n' lt es(2), of env]
  ultimately have s': "tw_base 0 s'" "tw_moves t s'" using ret_None [OF es(2)] y(1,2) by (simp_all add: q'(2))
  note m = tw_movesD [OF s'(2)]
  have z: "tw_eState t = SM_STATE_SLEEP" "uPendingTxnCount t = 0" using assms(1) by (simp_all add: t_def tw_rest_def)
  show "tw_norm s'" using s'(1) m(1,4) z by (simp add: tw_norm_def)
  show "bTxnDoneInRecovery s'" using m(8) by (simp add: t_def)
  show "tw_sched s'" using m(5) by (simp add: t_def)
  show "uPendingTxnCount s' = 0" using m(4) z(2) by simp
  then show "sp_out (tw_abs s') = 0" using s'(1) by (simp add: tw_base_def tw_bal_def)
qed

section \<open>The partition\<close>

lemma partition_txn_fields [simp]:
  "txn_func (prt_tHdr (partition_txn mem sz i off v cb)) = 2" "txn_prio (prt_tHdr (partition_txn mem sz i off v cb)) = 1"
  "\<not> txn_single (prt_tHdr (partition_txn mem sz i off v cb))" "txn_addr (prt_tHdr (partition_txn mem sz i off v cb)) = mem + of_nat i * sz"
  by (simp_all add: partition_txn_def Let_def txn_func_def txn_prio_def txn_single_def TXN_PARAM_SET_def TXN_LOW_PRIORITY_def
      TXN_FUNC_ID_WLAN_def TXN_DIRECTION_WRITE_def TXN_INC_ADDR_def txn_get_fld txn_set_fld fld_get_set fld_get_set_other)

lemma send_all_ok:
  assumes "tw_norm s" "unat (uPendingTxnCount s) + length xs < 2 ^ 32"
    "\<forall>x\<in>set xs. txn_func x = 2 \<and> txn_prio x < 2 \<and> \<not> txn_single x \<and> txn_addr x \<notin> elp_addrs s"
  shows "\<exists>sts s'. tw_send_all env xs s = Some (sts, s') \<and> tw_norm s' \<and> length sts = length xs"
  using assms
proof (induction xs arbitrary: s)
  case (Cons x xs)
  have "unat (- 1 :: u32) = 4294967295" by (subst unsigned_minus_1_eq_mask) (simp add: mask_eq_exp_minus_1)
  then have "uPendingTxnCount s \<noteq> - 1" using Cons.prems(2) by auto
  then have c: "client_txn s x" using Cons.prems(3) by (simp add: client_txn_def)
  from SendTransaction_ok [OF Cons.prems(1) c, of env] Cons.prems(3) obtain st s1 where s1: "twIf_SendTransaction env s x = Some (st, s1)"
    "tw_norm s1" "elp_addrs s1 = elp_addrs s" "unat (uPendingTxnCount s1) \<le> Suc (unat (uPendingTxnCount s))" by auto
  from Cons.IH [OF s1(2)] Cons.prems(2,3) s1(3,4) obtain sts s' where "tw_send_all env xs s1 = Some (sts, s')" "tw_norm s'" "length sts = length xs"
    by auto
  then show ?case using s1(1) by simp
qed simp

lemma save_partition_norm [simp]: "tw_norm (tw_save_partition s ps) = tw_norm s"
  by (simp add: tw_norm_def tw_base_def tw_save_partition_def elp_addrs_def tw_bal_def)

lemma SetPartition_ok:
  assumes "tw_norm s" "unat (uPendingTxnCount s) + 7 < 2 ^ 32" "\<forall>i<7. mem + of_nat i * sz \<notin> elp_addrs s"
  shows "\<exists>s'. twIf_SetPartition env s ps mem sz cb = Some s' \<and> tw_norm s'"
proof (cases "mem = NULL")
  case True
  then show ?thesis using assms(1) by (simp add: twIf_SetPartition_def)
next
  case False
  let ?s = "tw_save_partition s ps" and ?xs = "map prt_tHdr (partition_txns mem sz cb (tw_save_partition s ps))"
  have n: "tw_norm ?s" using assms(1) by simp
  have u: "unat (uPendingTxnCount ?s) + length ?xs < 2 ^ 32"
    using assms(2) by (simp add: tw_save_partition_def partition_txns_def partition_regs_def)
  have "\<forall>x\<in>set ?xs. txn_func x = 2 \<and> txn_prio x < 2 \<and> \<not> txn_single x \<and> txn_addr x \<notin> elp_addrs ?s"
    using assms(3) by (auto simp: partition_txns_def tw_save_partition_def elp_addrs_def dest!: set_zip_leftD)
  from send_all_ok [OF n u this, of env] show ?thesis using False by (auto simp: twIf_SetPartition_def)
qed

end
