(* ===== verification/Wlan_TwRun.thy ===== *)
theory Wlan_TwRun
  imports Wlan_TwInv
begin

text \<open>
  The bus interface layer as a whole: its reachable states, whatever the bus and the clients do, and its properties.
\<close>

section \<open>Reachable states\<close>

lemma elp_txn_fields [simp]:
  assumes "m < 2"
  shows "txn_func (tHdr (elp_txn t v m)) = 2" "txn_prio (tHdr (elp_txn t v m)) = 1" "txn_single (tHdr (elp_txn t v m))"
    "txn_addr (tHdr (elp_txn t v m)) = txn_addr (tHdr t)"
  using assms
  by (simp_all add: elp_txn_def Let_def txn_func_def txn_prio_def txn_single_def TXN_PARAM_SET_def TXN_LOW_PRIORITY_def
      TXN_FUNC_ID_WLAN_def TXN_DIRECTION_WRITE_def TXN_INC_ADDR_def txn_get_fld txn_set_fld fld_get_set fld_get_set_other)

definition tw_init :: "TTwIfObj \<Rightarrow> bool" where
  "tw_init s \<longleftrightarrow> (\<exists>mem offS offA q s0 fRec hRec qok ctx timer cb self ok. twIf_Create mem offS offA q = Some s0 \<and> txn_init q \<and>
     fRec \<noteq> NULL \<and> timer \<noteq> NULL \<and> s = twIf_Init s0 q fRec hRec qok ctx timer cb self ok)"

lemma open_queues_info: "aFuncInfo (snd (open_queues ok f is q)) = aFuncInfo q \<and> txn_log (snd (open_queues ok f is q)) = txn_log q"
  by (induction "is" arbitrary: q) simp_all

lemma Open_info:
  "txn_log (snd (txnQ_Open q f n cb h ok)) = txn_log q"
  "g \<noteq> unat f \<Longrightarrow> func_info (snd (txnQ_Open q f n cb h ok)) g = func_info q g"
proof -
  let ?q = "upd_func (unat f) (\<lambda>i. i\<lparr>uNumPrios := n, fTxnQueueDoneCb := cb, hCbHandle := h, eState := FUNC_STATE_STOPPED\<rparr>) q"
  obtain b r where r: "open_queues ok (unat f) [0..<unat n] ?q = (b, r)" by force
  have i: "aFuncInfo r = aFuncInfo ?q" "txn_log r = txn_log q" using open_queues_info [of ok "unat f" "[0..<unat n]" ?q] r by simp_all
  show "txn_log (snd (txnQ_Open q f n cb h ok)) = txn_log q" using i(2) by (simp add: txnQ_Open_def r Let_def)
  show "g \<noteq> unat f \<Longrightarrow> func_info (snd (txnQ_Open q f n cb h ok)) g = func_info q g"
  proof -
    assume g: "g \<noteq> unat f"
    have "aFuncInfo (snd (txnQ_Open q f n cb h ok)) = aFuncInfo q \<or> aFuncInfo (snd (txnQ_Open q f n cb h ok)) = aFuncInfo ?q"
      using i(1) by (simp add: txnQ_Open_def r Let_def)
    then show ?thesis using g func_info_cong [of "snd (txnQ_Open q f n cb h ok)" q g] func_info_cong [of "snd (txnQ_Open q f n cb h ok)" ?q g]
      by auto
  qed
qed

lemma tw_init_inv: "tw_init s \<Longrightarrow> tw_inv s"
proof -
  assume "tw_init s"
  then obtain mem offS offA q s0 fRec hRec qok ctx timer cb self ok where c: "twIf_Create mem offS offA q = Some s0" "txn_init q"
    "fRec \<noteq> NULL" "timer \<noteq> NULL" "s = twIf_Init s0 q fRec hRec qok ctx timer cb self ok" by (auto simp: tw_init_def)
  let ?o = "snd (txnQ_Open q TXN_FUNC_ID_WLAN TXN_NUM_PRIORITYS cb self ok)"
  have q: "txn_inv q" "txn_idle q" "txn_log q = []" "func_info q f = zero_func \<or> \<not> f < 4" for f
    using init_ok [OF c(2)] c(2) by (auto simp: txn_init_def txnQ_Create_def txnQ_Init_def func_info_def MAX_FUNCTIONS_def split: if_splits)
  have two: "unat TXN_FUNC_ID_WLAN = 2" by (simp add: TXN_FUNC_ID_WLAN_def)
  have o: "txn_inv ?o" "txn_idle ?o" using Open_ok [OF q(1,2), of TXN_FUNC_ID_WLAN] q(4) [of 2] two by (simp_all add: zero_func_def)
  have "txn_abs (pCurrTxn ?o) ?o = spec_init" using o(1) q(3) Open_info(1) [of q TXN_FUNC_ID_WLAN TXN_NUM_PRIORITYS cb self ok] by (simp add: txn_ok_def)
  then have sp: "sp_ok E (txn_abs (pCurrTxn ?o) ?o)" for E by (simp add: sp_ok_def spec_init_def)
  have st: "eState (func_info ?o f) \<noteq> FUNC_STATE_RESTART" if "f < 4" "f \<noteq> 2" for f
    using Open_info(2) [of f TXN_FUNC_ID_WLAN q] that two q(4) [of f] by (simp add: zero_func_def)
  define t where "t = s0\<lparr>hTxnQ := ?o, fRecoveryCb := fRec, hRecoveryCb := hRec, tElpTxnSleep := elp_txn (tElpTxnSleep s0) ELP_CTRL_REG_SLEEP 0,
    tElpTxnAwake := elp_txn (tElpTxnAwake s0) ELP_CTRL_REG_AWAKE 1, tw_hTxnDoneQueue := if qok then Some [] else None, uContextId := ctx,
    hPendRestartTimer := timer, bPendRestartTimerRunning := False\<rparr>"
  have s: "s = snd (twIf_Restart t)" unfolding c(5) t_def using c(4) by (simp add: twIf_Init_def Let_def) (cases s0, simp)
  have w: "wlan_item (elp_addrs t) (tHdr (tElpTxnSleep t))" "wlan_item (elp_addrs t) (tHdr (tElpTxnAwake t))"
    by (simp_all add: t_def wlan_item_def elp_addrs_def)
  show "tw_inv s" unfolding s by (rule Restart_inv) (use o w sp st c(3) in \<open>simp_all add: t_def\<close>)
qed

text \<open>
  The steps: a client's call (while a restart is pending only the awake and sleep requests), the partition, the
  driver task, a completion by the bus, and a restart.
\<close>

inductive tw_step :: "TTwIfObj \<Rightarrow> TTwIfObj \<Rightarrow> bool" where
  tws_call: "tw_req_ok s r \<Longrightarrow> wlan_state s \<noteq> FUNC_STATE_RESTART \<or> r \<in> {TwAwake, TwSleep} \<Longrightarrow> tw_call env r s = Some s' \<Longrightarrow> tw_step s s'"
| tws_partition: "wlan_state s \<noteq> FUNC_STATE_RESTART \<Longrightarrow> unat (uPendingTxnCount s) + 7 < 2 ^ 32 \<Longrightarrow>
    \<forall>i<7. mem + of_nat i * sz \<notin> elp_addrs s \<Longrightarrow> twIf_SetPartition env s ps mem sz cb = Some s' \<Longrightarrow> tw_step s s'"
| tws_partition_cb: "tw_step s (twIf_PartitionTxnDoneCb s sz hTxn)"
| tws_register: "tw_step s (twIf_RegisterErrCb s fCb hCb)"
| tws_task: "tw_sched s \<Longrightarrow> cb_ok env \<Longrightarrow> tw_DriverTask env s = Some s' \<Longrightarrow> tw_step s s'"
| tws_busdone: "pCurrTxn (hTxnQ s) = Some x \<Longrightarrow> tw_BusDone env s x = Some s' \<Longrightarrow> tw_step s s'"
| tws_restart: "tw_step s (snd (twIf_Restart s))"

lemma tw_inv_norm: "tw_inv s \<Longrightarrow> wlan_state s \<noteq> FUNC_STATE_RESTART \<Longrightarrow> tw_norm s"
  by (auto simp: tw_inv_def tw_rest_def)

lemma tw_inv_rest: "tw_inv s \<Longrightarrow> wlan_state s = FUNC_STATE_RESTART \<Longrightarrow> tw_rest s"
  by (auto simp: tw_inv_def tw_norm_def tw_base_def no_restart_def)

lemma tw_step_inv:
  assumes "tw_step s s'" "tw_inv s"
  shows "tw_inv s'"
  using assms(1)
proof (cases rule: tw_step.cases)
  case (tws_call r env)
  show ?thesis
  proof (cases "wlan_state s = FUNC_STATE_RESTART")
    case True
    have r: "tw_rest s" by (rule tw_inv_rest [OF assms(2) True])
    have "tw_rest ((if uAwakeReqCount s > 0 then s\<lparr>uAwakeReqCount := uAwakeReqCount s - 1\<rparr> else s)\<lparr>uDbgCountSleep := n\<rparr>)" for n
      using r by simp
    from rest_check_sleep [OF this] this r tws_call True show ?thesis
      by (auto simp: twIf_Awake_def twIf_Sleep_def tw_inv_def Let_def)
  next
    case False
    from tw_call_ok [OF tw_inv_norm [OF assms(2) False] tws_call(1), of env] tws_call(3) show ?thesis by (auto simp: tw_inv_def)
  qed
next
  case (tws_partition mem sz env ps cb)
  from SetPartition_ok [OF tw_inv_norm [OF assms(2) tws_partition(1)] tws_partition(2,3), of env ps cb] tws_partition(4) show ?thesis
    by (auto simp: tw_inv_def)
next
  case (tws_partition_cb sz hTxn)
  then show ?thesis using assms(2) by (simp add: tw_inv_def twIf_PartitionTxnDoneCb_def tw_emit_def)
next
  case (tws_register fCb hCb)
  then show ?thesis using assms(2) by (simp add: tw_inv_def twIf_RegisterErrCb_def)
next
  case (tws_task env)
  have "tw_inv (s\<lparr>tw_sched := False\<rparr>)" using assms(2) by (simp add: tw_inv_def)
  from HandleTxnDone_inv [OF _ this tws_task(2)] tws_task(3) show ?thesis by (simp add: tw_DriverTask_def)
next
  case (tws_busdone x env)
  then show ?thesis using BusDone_norm BusDone_rest(1) assms(2) unfolding tw_inv_def by blast
next
  case tws_restart
  then show ?thesis using Restart_inv(1) [OF tw_invD [OF assms(2)]] by simp
qed

interpretation twif: state_invariant tw_init tw_step tw_inv
  by unfold_locales (auto simp: tw_init_inv dest: tw_step_inv)

section \<open>A sleeping device\<close>

definition under_way :: "TTxnQObj \<Rightarrow> nat" where
  "under_way q = length (queue_items (txn_queue q 2 0)) + length (queue_items (txn_queue q 2 1)) +
     (case pCurrTxn q of None \<Rightarrow> 0 | Some x \<Rightarrow> regular x)"

lemma under_way_out: "txn_idle q \<Longrightarrow> sp_out (txn_abs (pCurrTxn q) q) = under_way q"
  by (simp add: sp_out_def under_way_def txn_idle_def)

lemma norm_count:
  assumes "tw_norm s"
  shows "unat (uPendingTxnCount s) = under_way (hTxnQ s) + length (done_items s) + tw_lost s"
  using assms under_way_out [of "hTxnQ s"] by (simp add: tw_norm_def tw_base_def tw_bal_def)

lemma HandleSmEvent_singles:
  assumes "tw_base 0 s" "tw_eState s \<noteq> SM_STATE_AWAKE" "ev \<noteq> SM_EVENT_HW_AVAILABLE" "twIf_HandleSmEvent env s ev = Some s'"
  shows "only_singles (hTxnQ s) (hTxnQ s')"
proof (cases "tw_eState s = SM_STATE_SLEEP \<and> ev = SM_EVENT_START")
  case True
  have b: "tw_base 0 (s\<lparr>tw_eState := SM_STATE_WAIT_HW\<rparr>)" using assms(1) by simp
  from True assms(4) have "twIf_WriteElpReg env (s\<lparr>tw_eState := SM_STATE_WAIT_HW\<rparr>) ELP_CTRL_REG_AWAKE = Some s'"
    by (simp add: twIf_HandleSmEvent_def)
  from WriteElpReg_ok(3) [OF b this] show ?thesis by (simp add: same_states_def)
next
  case False
  then have "s' = s" using assms(2-4) by (cases "tw_eState s"; cases ev) (simp_all add: twIf_HandleSmEvent_def)
  then show ?thesis by simp
qed

lemma check_sleep_awake: "tw_eState s \<noteq> SM_STATE_AWAKE \<Longrightarrow> tw_check_sleep env s = Some s"
  by (cases "tw_eState s") (simp_all add: tw_check_sleep_def twIf_HandleSmEvent_def)

lemma SendTransaction_singles:
  assumes "tw_norm s" "client_txn s x" "\<not> txn_single x" "tw_eState s \<noteq> SM_STATE_AWAKE" "twIf_SendTransaction env s x = Some (st, s')"
  shows "only_singles (hTxnQ s) (hTxnQ s')"
proof (cases "uHwAddr x AND 0x3 = 0")
  case False
  then show ?thesis using assms(5) by (simp add: twIf_SendTransaction_def)
next
  case True
  let ?s = "s\<lparr>uPendingTxnCount := uPendingTxnCount s + 1\<rparr>"
  have b: "tw_base 1 ?s"
    using assms(1,2) unat_suc by (simp add: tw_norm_def tw_base_def elp_addrs_def tw_bal_def client_txn_def)
  have w: "wlan_item (elp_addrs ?s) x" using assms(2,3) by (simp add: wlan_item_def client_txn_def elp_addrs_def)
  from assms(5) True obtain st1 s1 where t: "tw_Transact env ?s x = Some (st1, s1)"
    by (auto simp: twIf_SendTransaction_def bind_eq_Some_conv)
  note r = tw_Transact_regular [OF b w assms(3) t]
  have e: "tw_eState s1 \<noteq> SM_STATE_AWAKE" using tw_movesD(1) [OF r(2)] assms(4) by simp
  have o: "only_singles (hTxnQ s) (hTxnQ s1)" using r(3) by (simp add: same_states_def)
  show ?thesis
  proof (cases "st1 = TXN_STATUS_PENDING")
    case True
    let ?s2 = "s1\<lparr>uDbgCountTxn := uDbgCountTxn s1 + 1, uDbgCountTxnPending := uDbgCountTxnPending s1 + 1\<rparr>"
    have h: "twIf_HandleSmEvent env ?s2 SM_EVENT_START = Some s'" "tw_base 0 ?s2"
      using assms(5) \<open>uHwAddr x AND 0x3 = 0\<close> t True r(1) by (simp_all add: twIf_SendTransaction_def Let_def)
    from only_singles_trans [OF o] HandleSmEvent_singles [OF h(2) _ _ h(1)] e show ?thesis by simp
  next
    case False
    then have "hTxnQ s' = hTxnQ s1"
      using assms(5) \<open>uHwAddr x AND 0x3 = 0\<close> t e by (auto simp: twIf_SendTransaction_def Let_def check_sleep_awake tw_err_def tw_emit_def)
    then show ?thesis using o by simp
  qed
qed

lemma tw_call_singles:
  assumes "tw_norm s" "tw_req_ok s r" "r \<noteq> TwHwAvailable" "halted (hTxnQ s)" "tw_call env r s = Some s'"
  shows "only_singles (hTxnQ s) (hTxnQ s')"
proof -
  have a: "tw_eState s \<noteq> SM_STATE_AWAKE" using assms(1,4) by (auto simp: tw_norm_def halted_def)
  show ?thesis
  proof (cases r)
    case (TwTransact x)
    then obtain st where "twIf_SendTransaction env s (tw_regular (x\<lparr>uHwAddr := tw_translate s (uHwAddr x)\<rparr>)) = Some (st, s')"
      using assms(5) by (auto simp: twIf_Transact_def)
    from SendTransaction_singles [OF assms(1) client_txn_regular(1) tw_regular_fields(3) a this] TwTransact assms(2) show ?thesis by simp
  next
    case (TwTransactFw x)
    then obtain st where "twIf_SendTransaction env s (tw_regular x) = Some (st, s')"
      using assms(5) by (auto simp: twIf_TransactReadFWStatus_def)
    from SendTransaction_singles [OF assms(1) client_txn_regular(2) tw_regular_fields(3) a this] TwTransactFw assms(2) show ?thesis by simp
  next
    case TwSleep
    then have "hTxnQ s' = hTxnQ s" using assms(5) a by (auto simp: twIf_Sleep_def Let_def check_sleep_awake split: if_splits)
    then show ?thesis by simp
  qed (use assms(3,5) in \<open>auto simp: twIf_Awake_def\<close>)
qed

section \<open>The handler returns\<close>

fun req_still :: "tw_req \<Rightarrow> bool" where
  "req_still (TwTransact x) = False"
| "req_still (TwTransactFw x) = False"
| "req_still _ = True"

lemma still_call:
  assumes "tw_norm s" "req_still r"
  shows "\<exists>s'. tw_call env r s = Some s' \<and> tw_norm s' \<and> uPendingTxnCount s' \<le> uPendingTxnCount s"
proof (cases r)
  case TwSleep
  let ?s = "(if uAwakeReqCount s > 0 then s\<lparr>uAwakeReqCount := uAwakeReqCount s - 1\<rparr> else s)\<lparr>uDbgCountSleep := uDbgCountSleep s + 1\<rparr>"
  have "tw_norm ?s" using assms(1) by simp
  from check_sleep_ok [OF this, of env] TwSleep show ?thesis by (auto simp: twIf_Sleep_def tw_keep_def Let_def split: if_splits)
next
  case TwHwAvailable
  have "tw_base 0 s" "tw_eState s = SM_STATE_AWAKE \<longrightarrow> wlan_state s = FUNC_STATE_RUNNING" "tw_eState s = SM_STATE_SLEEP \<longrightarrow> uPendingTxnCount s = 0"
    using assms(1) by (simp_all add: tw_norm_def)
  from HandleSmEvent_ok [OF this(1,2), of SM_EVENT_HW_AVAILABLE env] this(3) TwHwAvailable show ?thesis
    by (auto simp: twIf_HwAvailable_def tw_keep_def)
qed (use assms in \<open>auto simp: twIf_Awake_def\<close>)

lemma still_callback:
  assumes "tw_norm s" "\<forall>s x i. req_still (cb_call env s x i)"
  shows "\<exists>s'. tw_callback env x is s = Some s' \<and> tw_norm s' \<and> uPendingTxnCount s' \<le> uPendingTxnCount s"
  using assms(1)
proof (induction "is" arbitrary: s)
  case (Cons i "is")
  have "req_still (cb_call env s x i)" using assms(2) by simp
  from still_call [OF Cons.prems this, of env] obtain s1 where s1: "tw_call env (cb_call env s x i) s = Some s1" "tw_norm s1"
    "uPendingTxnCount s1 \<le> uPendingTxnCount s" by blast
  from Cons.IH [OF s1(2)] s1(1,3) show ?case by auto
qed simp

lemma done_loop_returns:
  assumes "tw_norm s" "\<forall>s x i. req_still (cb_call env s x i)"
  shows "\<exists>s'. tw_done_loop env s = Some s'"
  using assms(1)
proof (induction "unat (uPendingTxnCount s)" arbitrary: s rule: less_induct)
  case less
  show ?case
  proof (cases "done_items s")
    case Nil
    then show ?thesis using check_sleep_ok [OF less.prems, of env] by (subst tw_done_loop.simps) auto
  next
    case (Cons x xs)
    let ?s = "dec_pending (s\<lparr>tw_hTxnDoneQueue := Some xs\<rparr>)"
    note r = done_round [OF less.prems Cons]
    have "tw_norm (tw_emit (TwTxnDoneCb x) ?s)" "uPendingTxnCount (tw_emit (TwTxnDoneCb x) ?s) = uPendingTxnCount ?s"
      using r(1) by (simp, simp add: tw_emit_def)
    from still_callback [OF this(1) assms(2), of x "[0..<cb_calls env ?s x]"] this(2) r(1) obtain s1 where
      s1: "(if fTxnDoneCb x \<noteq> NULL then tw_callback env x [0..<cb_calls env ?s x] (tw_emit (TwTxnDoneCb x) ?s) else Some ?s) = Some s1"
      "tw_norm s1" "uPendingTxnCount s1 \<le> uPendingTxnCount ?s" by (cases "fTxnDoneCb x = NULL") auto
    from check_sleep_ok [OF s1(2), of env] obtain s2 where s2: "tw_check_sleep env s1 = Some s2" "tw_norm s2" "uPendingTxnCount s2 \<le> uPendingTxnCount s1"
      by (auto simp: tw_keep_def)
    have "unat (uPendingTxnCount s2) < unat (uPendingTxnCount s)" using s1(3) s2(3) r(2) by (simp add: word_le_nat_alt)
    from less.hyps [OF this s2(2)] s1(1) s2(1) Cons show ?thesis by (subst tw_done_loop.simps) (simp add: Let_def)
  qed
qed

text \<open>The test for sleep changes nothing that the loop looks at.\<close>

lemma check_sleep_done:
  assumes "tw_norm s" "tw_check_sleep env s = Some s'"
  shows "tw_norm s'" "done_items s' = done_items s" "tw_log s' = tw_log s" "uPendingTxnCount s' = uPendingTxnCount s"
proof -
  from check_sleep_ok [OF assms(1), of env] assms(2) have k: "tw_norm s'" "tw_keep s s'" by auto
  show "tw_norm s'" by (rule k)
  show "tw_log s' = tw_log s" using k(2) by (simp add: tw_keep_def)
  have "uPendingTxnCount s' = uPendingTxnCount s \<and> done_items s' = done_items s"
  proof (cases "uAwakeReqCount s = 0 \<and> uPendingTxnCount s = 0")
    case True
    then have z: "uPendingTxnCount s' = 0" using k(2) by (simp add: tw_keep_def)
    then show ?thesis using norm_count [OF assms(1)] norm_count [OF k(1)] True by simp
  next
    case False
    then show ?thesis using assms(2) by (auto simp: tw_check_sleep_def)
  qed
  then show "done_items s' = done_items s" "uPendingTxnCount s' = uPendingTxnCount s" by blast+
qed

lemma done_loop_in_order:
  assumes "tw_norm s" "\<forall>s x. cb_calls env s x = 0" "\<forall>x\<in>set (done_items s). TXN_PARAM_GET_STATUS (uTxnParams x) \<noteq> TXN_PARAM_STATUS_ERROR"
  shows "\<exists>s'. tw_done_loop env s = Some s' \<and> done_items s' = [] \<and> tw_norm s' \<and>
    tw_log s' = tw_log s @ map TwTxnDoneCb (filter (\<lambda>x. fTxnDoneCb x \<noteq> NULL) (done_items s))"
  using assms(1,3)
proof (induction "done_items s" arbitrary: s)
  case Nil
  from check_sleep_ok [OF Nil.prems(1), of env] obtain s' where s': "tw_check_sleep env s = Some s'" by blast
  have "tw_done_loop env s = Some s'" using Nil.hyps s' by (subst tw_done_loop.simps) simp
  with check_sleep_done [OF Nil.prems(1) s'] Nil.hyps show ?case by simp
next
  case (Cons x xs)
  let ?s = "dec_pending (s\<lparr>tw_hTxnDoneQueue := Some xs\<rparr>)"
  define s1 where "s1 = (if fTxnDoneCb x \<noteq> NULL then tw_emit (TwTxnDoneCb x) ?s else ?s)"
  have n: "tw_norm s1" using done_round(1) [OF Cons.prems(1) Cons.hyps(2) [symmetric]] by (simp add: s1_def)
  have q: "done_items s1 = xs" by (simp add: s1_def tw_emit_def queue_items_def)
  have l: "tw_log s1 = tw_log s @ (if fTxnDoneCb x \<noteq> NULL then [TwTxnDoneCb x] else [])" by (simp add: s1_def tw_emit_def dec_pending_def)
  from check_sleep_ok [OF n, of env] obtain s2 where s2: "tw_check_sleep env s1 = Some s2" by blast
  note c = check_sleep_done [OF n s2]
  have "TXN_PARAM_GET_STATUS (uTxnParams x) \<noteq> TXN_PARAM_STATUS_ERROR" using Cons.prems(2) Cons.hyps(2) by (metis list.set_intros(1))
  then have "tw_done_loop env s = tw_done_loop env s2"
    using Cons.hyps(2) [symmetric] s2 assms(2) by (subst tw_done_loop.simps) (auto simp: Let_def s1_def)
  moreover have "\<forall>y\<in>set (done_items s2). TXN_PARAM_GET_STATUS (uTxnParams y) \<noteq> TXN_PARAM_STATUS_ERROR"
    using Cons.prems(2) Cons.hyps(2) [symmetric] c(2) q by simp
  ultimately show ?case using Cons.hyps(1) [of s2] c q l Cons.hyps(2) [symmetric] by auto
qed

section \<open>Example runs\<close>

text \<open>A bus that answers \<open>rsp\<close> to everything, and callbacks that make no calls.\<close>

definition te :: "ti_status \<Rightarrow> tw_env" where
  "te rsp = \<lparr>tw_rsp = (\<lambda>_ _. rsp), tw_early = (\<lambda>_. False), tw_dones = (\<lambda>_ _. 0), tw_fail = (\<lambda>_ _. False),
     cb_calls = (\<lambda>_ _. 0), cb_call = (\<lambda>_ _ _. TwAwake)\<rparr>"

definition tx_ex :: TTxnStruct where
  "tx_ex = \<lparr>txn_addr = 0x10, uTxnParams = 0x09, uHwAddr = 0x1000, fTxnDoneCb = 0x900\<rparr>"

text \<open>
  The module is initialized, the device is reported available and put to sleep; then a transaction is submitted, which waits while the wake-up is on
  the bus. The wake-up completes and the device is available, so the transaction is sent; it completes.
\<close>

definition tw0 :: TTwIfObj where
  "tw0 = twIf_Init (the (twIf_Create 0x1000 0x100 0x200 tq0)) tq0 0x500 0x600 True 0 0x700 0x800 0x1000 (\<lambda>_. True)"
definition tw1 :: TTwIfObj where "tw1 = the (tw_call (te TXN_STATUS_COMPLETE) TwHwAvailable tw0)"
definition tw2 :: TTwIfObj where "tw2 = the (tw_call (te TXN_STATUS_COMPLETE) TwSleep tw1)"
definition tw3 :: TTwIfObj where "tw3 = the (tw_call (te TXN_STATUS_PENDING) (TwTransact tx_ex) tw2)"
definition tw4 :: TTwIfObj where "tw4 = the (tw_BusDone (te TXN_STATUS_PENDING) tw3 (tHdr (tElpTxnAwake tw3)))"
definition tw5 :: TTwIfObj where "tw5 = the (tw_call (te TXN_STATUS_PENDING) TwHwAvailable tw4)"
definition tw6 :: TTwIfObj where "tw6 = the (tw_BusDone (te TXN_STATUS_PENDING) tw5 (the (pCurrTxn (hTxnQ tw5))))"

text \<open>A restart comes while the transaction is on the bus, which then completes.\<close>

definition tw7 :: TTwIfObj where "tw7 = snd (twIf_Restart tw5)"
definition tw8 :: TTwIfObj where "tw8 = the (tw_BusDone (te TXN_STATUS_PENDING) tw7 (the (pCurrTxn (hTxnQ tw7))))"

lemma tw_some:
  "tw_call (te TXN_STATUS_COMPLETE) TwHwAvailable tw0 \<noteq> None" "tw_call (te TXN_STATUS_COMPLETE) TwSleep tw1 \<noteq> None"
  "tw_call (te TXN_STATUS_PENDING) (TwTransact tx_ex) tw2 \<noteq> None"
  "tw_BusDone (te TXN_STATUS_PENDING) tw3 (tHdr (tElpTxnAwake tw3)) \<noteq> None"
  "tw_call (te TXN_STATUS_PENDING) TwHwAvailable tw4 \<noteq> None"
  "tw_BusDone (te TXN_STATUS_PENDING) tw5 (the (pCurrTxn (hTxnQ tw5))) \<noteq> None"
  "tw_BusDone (te TXN_STATUS_PENDING) tw7 (the (pCurrTxn (hTxnQ tw7))) \<noteq> None"
  by code_simp+

lemma tw_eval:
  "pCurrTxn (hTxnQ tw3) = Some (tHdr (tElpTxnAwake tw3))" "map_option txn_addr (pCurrTxn (hTxnQ tw5)) = Some 0x10"
  "map_option txn_addr (pCurrTxn (hTxnQ tw7)) = Some 0x10" "client_txn tw2 tx_ex"
  "wlan_state tw0 = FUNC_STATE_RUNNING" "wlan_state tw1 = FUNC_STATE_RUNNING" "wlan_state tw2 = FUNC_STATE_STOPPED"
  "wlan_state tw4 = FUNC_STATE_STOPPED" "wlan_state tw7 = FUNC_STATE_RESTART"
  by code_simp+

lemma tw_eval2:
  "tw_eState tw2 = SM_STATE_SLEEP" "tw_eState tw4 = SM_STATE_WAIT_HW" "pAggregQueue (hTxnQ tw2) = None"
  "\<forall>f\<in>set [0..<4]. eState (func_info (hTxnQ tw2) f) \<noteq> FUNC_STATE_RUNNING"
  "uPendingTxnCount tw6 = 1" "map txn_addr (done_items tw6) = [0x10]" "wlan_state tw6 = FUNC_STATE_RUNNING"
  "\<forall>x\<in>set (done_items tw6). TXN_PARAM_GET_STATUS (uTxnParams x) \<noteq> TXN_PARAM_STATUS_ERROR" "\<not> bTxnDoneInRecovery tw6"
  "map fTxnDoneCb (done_items tw6) = [0x900]"
  by code_simp+

lemma tw_reach:
  "reach tw_init tw_step tw2" "reach tw_init tw_step tw4" "reach tw_init tw_step tw6" "reach tw_init tw_step tw7"
proof -
  have c: "twIf_Create 0x1000 0x100 0x200 tq0 = Some (the (twIf_Create 0x1000 0x100 0x200 tq0))" by (simp add: twIf_Create_def)
  have "txnQ_Create 0x100 0x200 = Some (the (txnQ_Create 0x100 0x200))" by (simp add: txnQ_Create_def)
  then have q: "txn_init tq0" unfolding txn_init_def tq0_def by blast
  have "(0x500 :: u32) \<noteq> 0" "(0x700 :: u32) \<noteq> 0" by simp_all
  with c q have "tw_init tw0" unfolding tw_init_def tw0_def by blast
  then have "reach tw_init tw_step tw0" by (rule reach_init)
  then have "reach tw_init tw_step tw1" unfolding tw1_def
    by (rule reach_step) (rule tws_call [OF _ _ option.collapse [OF tw_some(1), symmetric]], simp_all add: tw_eval)
  then show 2: "reach tw_init tw_step tw2" unfolding tw2_def
    by (rule reach_step) (rule tws_call [OF _ _ option.collapse [OF tw_some(2), symmetric]], simp_all add: tw_eval)
  then have "reach tw_init tw_step tw3" unfolding tw3_def
    by (rule reach_step) (rule tws_call [OF _ _ option.collapse [OF tw_some(3), symmetric]], simp_all add: tw_eval)
  then show 4: "reach tw_init tw_step tw4" unfolding tw4_def
    by (rule reach_step) (rule tws_busdone [OF tw_eval(1) option.collapse [OF tw_some(4), symmetric]])
  then have 5: "reach tw_init tw_step tw5" unfolding tw5_def
    by (rule reach_step) (rule tws_call [OF _ _ option.collapse [OF tw_some(5), symmetric]], simp_all add: tw_eval)
  have x: "pCurrTxn (hTxnQ tw5) = Some (the (pCurrTxn (hTxnQ tw5)))" using tw_eval(2) by (cases "pCurrTxn (hTxnQ tw5)") auto
  from 5 show "reach tw_init tw_step tw6" unfolding tw6_def
    by (rule reach_step) (rule tws_busdone [OF x option.collapse [OF tw_some(6), symmetric]])
  from 5 show "reach tw_init tw_step tw7" unfolding tw7_def by (rule reach_step) (rule tws_restart)
qed

section \<open>Properties of the bus interface layer\<close>

text \<open>
  C21: The counter of pending transactions is exact: in every reachable state in which no restart is pending it is the number of transactions
  that wait in the transaction queue or are on the bus, of completed ones that wait for the driver task, and of those whose completion
  a queue refused, so no call counts a transaction twice or forgets one, however the bus answers.
\<close>

theorem twIf_pending_exact:
  assumes "reach tw_init tw_step s" "eState (func_info (hTxnQ s) 2) \<noteq> FUNC_STATE_RESTART"
  shows "unat (uPendingTxnCount s) = under_way (hTxnQ s) + length (queue_items (tw_hTxnDoneQueue s)) + tw_lost s"
  by (rule norm_count [OF tw_inv_norm [OF twif.reach_invar [OF assms(1)] assms(2)]])

theorem twIf_pending_exact_witness:
  "uPendingTxnCount tw6 = 1 \<and> under_way (hTxnQ tw6) + tw_lost tw6 = 0"
proof -
  have "length (done_items tw6) = 1" using tw_eval2(6) by (metis length_map length_Cons list.size(3) One_nat_def)
  then show ?thesis using twIf_pending_exact [OF tw_reach(3)] tw_eval2(5,7) by simp
qed

text \<open>
  C22: No transaction is left behind by a sleeping device: when the state machine is in its sleep state and no restart is pending, no
  transaction waits or is on the bus and no completion waits to be handled; and while it is awake, the WLAN queues run.
\<close>

theorem twIf_asleep_nothing_under_way:
  assumes "reach tw_init tw_step s" "eState (func_info (hTxnQ s) 2) \<noteq> FUNC_STATE_RESTART"
  shows "(tw_eState s = SM_STATE_SLEEP \<longrightarrow> under_way (hTxnQ s) = 0 \<and> queue_items (tw_hTxnDoneQueue s) = [] \<and> uPendingTxnCount s = 0) \<and>
    (tw_eState s = SM_STATE_AWAKE \<longrightarrow> eState (func_info (hTxnQ s) 2) = FUNC_STATE_RUNNING)"
proof -
  have n: "tw_norm s" by (rule tw_inv_norm [OF twif.reach_invar [OF assms(1)] assms(2)])
  then show ?thesis using norm_count [OF n] by (auto simp: tw_norm_def)
qed

theorem twIf_asleep_nothing_under_way_witness: "tw_eState tw2 = SM_STATE_SLEEP \<and> under_way (hTxnQ tw2) = 0"
  using twIf_asleep_nothing_under_way [OF tw_reach(1)] tw_eval(7) tw_eval2(1) by simp

text \<open>
  C23: A sleeping device is not addressed: while no function of the transaction queue runs and no aggregation is open, a client's call (every one
  but the notice that the device is available) sends nothing over the bus but single-step transactions, which are the
  writes of the ELP register, and leaves the queues stopped.
\<close>

theorem twIf_asleep_only_elp:
  assumes "reach tw_init tw_step s" "eState (func_info (hTxnQ s) 2) \<noteq> FUNC_STATE_RESTART" "halted (hTxnQ s)"
    and "tw_req_ok s r" "r \<noteq> TwHwAvailable" "tw_call env r s = Some s'"
  shows "halted (hTxnQ s') \<and> (\<exists>es. txn_log (hTxnQ s') = txn_log (hTxnQ s) @ es \<and> (\<forall>x. EvSent x \<in> set es \<longrightarrow> txn_single x))"
proof -
  from tw_call_singles [OF tw_inv_norm [OF twif.reach_invar [OF assms(1)] assms(2)] assms(4,5,3,6)] assms(3)
  obtain es where "halted (hTxnQ s')" "txn_log (hTxnQ s') = txn_log (hTxnQ s) @ es" "list_all sent_single es"
    by (auto simp: only_singles_def)
  then show ?thesis by (auto simp: list_all_iff intro!: exI [of _ es] dest: bspec [of _ _ "EvSent _"])
qed

lemma tw2_halted: "halted (hTxnQ tw2)"
  using tw_eval2(3,4) by (auto simp: halted_def)

theorem twIf_asleep_only_elp_witness:
  "halted (hTxnQ tw3) \<and> (\<exists>es. txn_log (hTxnQ tw3) = txn_log (hTxnQ tw2) @ es \<and> (\<forall>x. EvSent x \<in> set es \<longrightarrow> txn_single x))"
proof -
  have c: "tw_call (te TXN_STATUS_PENDING) (TwTransact tx_ex) tw2 = Some tw3" unfolding tw3_def by (rule option.collapse [OF tw_some(3), symmetric])
  show ?thesis by (rule twIf_asleep_only_elp [OF tw_reach(1) _ tw2_halted _ _ c]) (simp_all add: tw_eval)
qed

text \<open>
  C24: The notice that the device is available ends the waiting: from every reachable state that is not awake and has no restart pending, the
  call returns, the state machine is awake, the WLAN queues run, and the bus is occupied or nothing could be sent.
\<close>

theorem twIf_HwAvailable_resumes:
  assumes "reach tw_init tw_step s" "eState (func_info (hTxnQ s) 2) \<noteq> FUNC_STATE_RESTART" "tw_eState s \<noteq> SM_STATE_AWAKE"
  shows "\<exists>s'. twIf_HwAvailable env s = Some s' \<and> tw_eState s' = SM_STATE_AWAKE \<and> eState (func_info (hTxnQ s') 2) = FUNC_STATE_RUNNING \<and>
    (pCurrTxn (hTxnQ s') \<noteq> None \<or> txnQ_SelectTxn (hTxnQ s') = None)"
proof -
  have n: "tw_norm s" by (rule tw_inv_norm [OF twif.reach_invar [OF assms(1)] assms(2)])
  have b: "tw_base 0 (s\<lparr>tw_eState := SM_STATE_AWAKE\<rparr>)" using n by (simp add: tw_norm_def)
  from WriteElpReg_returns [OF b] obtain s1 where s1: "twIf_WriteElpReg env (s\<lparr>tw_eState := SM_STATE_AWAKE\<rparr>) ELP_CTRL_REG_AWAKE = Some s1" by blast
  note w = WriteElpReg_ok [OF b s1]
  let ?t = "if tw_eState s = SM_STATE_SLEEP then s1 else s\<lparr>tw_eState := SM_STATE_AWAKE\<rparr>"
  have "tw_base 0 ?t \<and> tw_eState ?t = SM_STATE_AWAKE \<and> twIf_HwAvailable env s = tw_Run env ?t"
    using assms(3) b w(1) tw_movesD(1) [OF w(2)] s1
    by (cases "tw_eState s") (simp_all add: twIf_HwAvailable_def twIf_HandleSmEvent_def)
  then obtain t where t: "tw_base 0 t" "tw_eState t = SM_STATE_AWAKE" "twIf_HwAvailable env s = tw_Run env t" by blast
  from Run_returns [OF t(1)] obtain s' where s': "tw_Run env t = Some s'" by blast
  from tw_Run_ok [OF t(1) s'] t(2,3) s' tw_movesD(1) [of t s'] show ?thesis by auto
qed

theorem twIf_HwAvailable_resumes_witness:
  "\<exists>s'. twIf_HwAvailable (te TXN_STATUS_PENDING) tw4 = Some s' \<and> tw_eState s' = SM_STATE_AWAKE \<and>
     (pCurrTxn (hTxnQ s') \<noteq> None \<or> txnQ_SelectTxn (hTxnQ s') = None)"
  using twIf_HwAvailable_resumes [OF tw_reach(2), of "te TXN_STATUS_PENDING"] tw_eval(8) tw_eval2(2) by fastforce

text \<open>
  C25: The handler of completed transactions returns from every reachable state, when the callbacks submit no new transactions; they may ask for the
  device to stay awake or let it sleep, and the bus may complete further transactions meanwhile.
\<close>

theorem twIf_HandleTxnDone_returns:
  assumes "reach tw_init tw_step s" "\<forall>s x i. cb_call env s x i \<in> {TwAwake, TwSleep, TwHwAvailable}"
  shows "\<exists>s'. twIf_HandleTxnDone env s = Some s'"
proof -
  have still: "\<forall>s x i. req_still (cb_call env s x i)" using assms(2) by (metis insertE req_still.simps(3-5) singletonD)
  show ?thesis
  proof (cases "eState (func_info (hTxnQ s) 2) = FUNC_STATE_RESTART")
    case True
    from rest_done_loop [OF tw_inv_rest [OF twif.reach_invar [OF assms(1)] True]] show ?thesis by (simp add: twIf_HandleTxnDone_def Let_def)
  next
    case False
    from done_loop_returns [OF tw_inv_norm [OF twif.reach_invar [OF assms(1)] False] still] show ?thesis by (simp add: twIf_HandleTxnDone_def Let_def)
  qed
qed

theorem twIf_HandleTxnDone_returns_witness: "\<exists>s'. twIf_HandleTxnDone (te TXN_STATUS_PENDING) tw6 = Some s'"
  by (rule twIf_HandleTxnDone_returns [OF tw_reach(3)]) (simp add: te_def)

text \<open>
  Completed transactions come back in order: with callbacks that make no calls and none of the transactions failed, the handler calls the callback of
  every waiting transaction exactly once, in the order of completion, and leaves the queue empty.
\<close>

lemma twIf_HandleTxnDone_in_order:
  assumes "reach tw_init tw_step s" "eState (func_info (hTxnQ s) 2) \<noteq> FUNC_STATE_RESTART" "\<not> bTxnDoneInRecovery s"
    and "\<forall>s x. cb_calls env s x = 0" "\<forall>x\<in>set (queue_items (tw_hTxnDoneQueue s)). TXN_PARAM_GET_STATUS (uTxnParams x) \<noteq> TXN_PARAM_STATUS_ERROR"
  shows "\<exists>s'. twIf_HandleTxnDone env s = Some s' \<and> queue_items (tw_hTxnDoneQueue s') = [] \<and>
    tw_log s' = tw_log s @ map TwTxnDoneCb (filter (\<lambda>x. fTxnDoneCb x \<noteq> NULL) (queue_items (tw_hTxnDoneQueue s)))"
  using done_loop_in_order [OF tw_inv_norm [OF twif.reach_invar [OF assms(1)] assms(2)] assms(4,5)] assms(3) by (auto simp: twIf_HandleTxnDone_def)

text \<open>
  C26: A restart that waits for the transaction on the bus completes with it: when the bus reports it, the queues are empty and run, nothing is counted, and
  the driver task, which is requested, calls the recovery callback.
\<close>

theorem twIf_restart_completes:
  assumes "reach tw_init tw_step s" "eState (func_info (hTxnQ s) 2) = FUNC_STATE_RESTART"
    and "pCurrTxn (hTxnQ s) = Some x" "tw_BusDone env s x = Some s'"
  shows "under_way (hTxnQ s') = 0 \<and> uPendingTxnCount s' = 0 \<and> eState (func_info (hTxnQ s') 2) \<noteq> FUNC_STATE_RESTART \<and> tw_sched s' \<and>
    (\<exists>es. tw_DriverTask env s' = Some (s'\<lparr>tw_sched := False, bTxnDoneInRecovery := False, bPendRestartTimerRunning := False,
       tw_log := tw_log s' @ es @ [TwRecoveryCb]\<rparr>))"
proof -
  have r: "tw_rest s" by (rule tw_inv_rest [OF twif.reach_invar [OF assms(1)] assms(2)])
  note b = BusDone_rest [OF r assms(3,4)]
  have n: "tw_base 0 s'" using b(1) by (simp add: tw_norm_def)
  have z: "under_way (hTxnQ s') = 0" using b(4) under_way_out tw_baseD(2) [OF n] by simp
  note p = b(5)
  have "eState (func_info (hTxnQ s') 2) \<noteq> FUNC_STATE_RESTART" using tw_baseD(3) [OF n] by (simp add: no_restart_def)
  moreover have "\<exists>es. tw_DriverTask env s' = Some (s'\<lparr>tw_sched := False, bTxnDoneInRecovery := False, bPendRestartTimerRunning := False,
       tw_log := tw_log s' @ es @ [TwRecoveryCb]\<rparr>)"
    using b(2) by (intro exI [of _ "if bPendRestartTimerRunning s' then [TwStopTimer] else []"], cases s')
      (simp add: tw_DriverTask_def twIf_HandleTxnDone_def Let_def tw_emit_def)
  ultimately show ?thesis using z p b(3) by blast
qed

theorem twIf_restart_completes_witness: "under_way (hTxnQ tw8) = 0 \<and> uPendingTxnCount tw8 = 0 \<and> tw_sched tw8"
proof -
  have x: "pCurrTxn (hTxnQ tw7) = Some (the (pCurrTxn (hTxnQ tw7)))" using tw_eval(3) by (cases "pCurrTxn (hTxnQ tw7)") auto
  have s: "tw_BusDone (te TXN_STATUS_PENDING) tw7 (the (pCurrTxn (hTxnQ tw7))) = Some tw8"
    unfolding tw8_def by (rule option.collapse [OF tw_some(7), symmetric])
  from twIf_restart_completes [OF tw_reach(4) tw_eval(9) x s] show ?thesis by blast
qed

text \<open>
  C27: The two windows of the partition do not overlap: when neither region nor the windows together wrap around, a valid register address is translated
  into the register window that follows the memory window, and a valid memory access outside the
  register region into the memory window, with its whole length, each at its offset in its region.
\<close>

theorem twIf_translate_windows:
  assumes "unat (uMemAddr1 s) + unat (uMemSize1 s) < 2 ^ 32" "unat (uMemAddr2 s) + unat (uMemSize2 s) < 2 ^ 32"
    "unat (uMemSize1 s) + unat (uMemSize2 s) < 2 ^ 32"
  shows "(twIf_isValidRegAddr s a l \<longrightarrow>
      unat (tw_translate s a) = unat (uMemSize1 s) + (unat a - unat (uMemAddr2 s)) \<and> unat a - unat (uMemAddr2 s) < unat (uMemSize2 s)) \<and>
    (twIf_isValidMemoryAddr s a l \<and> unat a + unat l < 2 ^ 32 \<and> \<not> (uMemAddr2 s \<le> a \<and> a \<le> uMemAddr2 s + uMemSize2 s) \<longrightarrow>
      unat (tw_translate s a) = unat a - unat (uMemAddr1 s) \<and> unat (tw_translate s a) + unat l < unat (uMemSize1 s))"
proof (intro conjI impI)
  have s: "unat (uMemAddr1 s + uMemSize1 s) = unat (uMemAddr1 s) + unat (uMemSize1 s)" "unat (uMemAddr2 s + uMemSize2 s) = unat (uMemAddr2 s) + unat (uMemSize2 s)"
    using assms(1,2) by (simp_all add: unat_add_bounded)
  {
    assume "twIf_isValidRegAddr s a l"
    then have v: "uMemAddr2 s \<le> a" "a < uMemAddr2 s + uMemSize2 s" by (simp_all add: twIf_isValidRegAddr_def)
    then show l: "unat a - unat (uMemAddr2 s) < unat (uMemSize2 s)" using s(2) by (simp add: word_le_nat_alt word_less_nat_alt)
    have d: "unat (a - uMemAddr2 s) = unat a - unat (uMemAddr2 s)" by (rule unat_le_diff [OF v(1)])
    have t: "tw_translate s a = (a - uMemAddr2 s) + uMemSize1 s" using v order_less_imp_le [OF v(2)] by (simp add: tw_translate_def)
    have "unat (a - uMemAddr2 s) + unat (uMemSize1 s) < 2 ^ LENGTH(32)" using d l assms(3) by simp
    from unat_add_bounded [OF this] show "unat (tw_translate s a) = unat (uMemSize1 s) + (unat a - unat (uMemAddr2 s))"
      unfolding t d by simp
  }
  assume m: "twIf_isValidMemoryAddr s a l \<and> unat a + unat l < 2 ^ 32 \<and> \<not> (uMemAddr2 s \<le> a \<and> a \<le> uMemAddr2 s + uMemSize2 s)"
  then have v: "uMemAddr1 s \<le> a" "a + l < uMemAddr1 s + uMemSize1 s" by (simp_all add: twIf_isValidMemoryAddr_def)
  have t: "tw_translate s a = a - uMemAddr1 s" using m by (auto simp: tw_translate_def)
  show u: "unat (tw_translate s a) = unat a - unat (uMemAddr1 s)" unfolding t by (rule unat_le_diff [OF v(1)])
  have "unat a + unat l < unat (uMemAddr1 s) + unat (uMemSize1 s)" using v(2) m s(1) by (simp add: word_less_nat_alt unat_add_bounded)
  then show "unat (tw_translate s a) + unat l < unat (uMemSize1 s)" using u v(1) by (simp add: word_le_nat_alt)
qed

text \<open>The working partition of \<open>HwInit.c\<close>.\<close>

definition tw_work :: TTwIfObj where
  "tw_work = tw_save_partition tw0 [\<lparr>uMemAdrr = 0x40000, uMemSize = 0x14FC0\<rparr>, \<lparr>uMemAdrr = 0x300000, uMemSize = 0xA000\<rparr>,
     \<lparr>uMemAdrr = 0x3004F8, uMemSize = 4\<rparr>, \<lparr>uMemAdrr = 0x40404, uMemSize = 0\<rparr>]"

lemma tw_work_fields:
  "uMemAddr1 tw_work = 0x40000" "uMemSize1 tw_work = 0x14FC0" "uMemAddr2 tw_work = 0x300000" "uMemSize2 tw_work = 0xA000"
  by (simp_all add: tw_work_def tw_save_partition_def)

theorem twIf_translate_windows_witness:
  "unat (tw_translate tw_work 0x300100) = 0x150C0 \<and> unat (tw_translate tw_work 0x40100) + 16 < 0x14FC0"
  using twIf_translate_windows [of tw_work "0x300100" 4] twIf_translate_windows [of tw_work "0x40100" 16]
  by (simp add: tw_work_fields twIf_isValidRegAddr_def twIf_isValidMemoryAddr_def)

text \<open>A bus that completes the first six transactions of a partition in their calls and the seventh later.\<close>

definition te_part :: tw_env where
  "te_part = (te TXN_STATUS_COMPLETE)\<lparr>tw_rsp := (\<lambda>_ x. if txn_addr x = 0x5180 then TXN_STATUS_PENDING else TXN_STATUS_COMPLETE)\<rparr>"

definition tw_part :: TTwIfObj where
  "tw_part = the (twIf_SetPartition te_part (twIf_Awake tw1) (replicate 4 \<lparr>uMemAdrr = 0x40000, uMemSize = 0x14FC0\<rparr>) 0x5000 0x40 0x900)"

text \<open>
  The buffer of the partition's transactions can be freed while the last of them is on the bus, and again by its callback: the call that sets the partition looks at the
  status of the sixth transaction instead of the seventh. Here the bus completes the first six in their calls and the seventh
  later.
\<close>

lemma twIf_SetPartition_double_free:
  "map_option txn_addr (pCurrTxn (hTxnQ tw_part)) = Some 0x5180 \<and> tw_log tw_part = [TwFree 0x5000] \<and>
   tw_log (twIf_PartitionTxnDoneCb tw_part 0x40 0x5180) = [TwFree 0x5000, TwFree 0x5000]"
  by code_simp

text \<open>
  What the steps leave out. A transaction submitted while a restart is pending is dropped when the restart completes but stays counted; and the
  notice that the device is available overwrites the pending restart, so that the recovery callback waits for the guard timer.
\<close>

definition tw_leak :: TTwIfObj where
  "tw_leak = (let s = the (tw_call (te TXN_STATUS_PENDING) (TwTransact (tx_ex\<lparr>txn_addr := 0x20\<rparr>)) tw7)
     in the (tw_BusDone (te TXN_STATUS_PENDING) s (the (pCurrTxn (hTxnQ s)))))"

lemma twIf_restart_leak: "uPendingTxnCount tw_leak = 1 \<and> under_way (hTxnQ tw_leak) = 0 \<and> done_items tw_leak = [] \<and> tw_lost tw_leak = 0"
  by code_simp

lemma twIf_restart_overwritten:
  "wlan_state (the (tw_call (te TXN_STATUS_PENDING) TwHwAvailable tw7)) = FUNC_STATE_RUNNING \<and>
   map_option txn_addr (pCurrTxn (hTxnQ (the (tw_call (te TXN_STATUS_PENDING) TwHwAvailable tw7)))) = Some 0x10"
  by code_simp

end
