(* ===== verification/Wlan_CmdMbox.thy ===== *)
theory Wlan_CmdMbox
  imports Wlan_Bus
begin

text \<open>
  \<open>TWD/FW_Transfer/CmdMBox.c\<close>: the command mailbox, through which one command at a time is written to the
  firmware and its result is read back. The two command buffers and the two register words are part of
  the state; what the module asks of the bus interface (\<open>twIf_Transact\<close>) and of the timer is a log. A buffer
  is a list of bytes; copying more bytes than it holds makes the list longer than the C array.
\<close>

section \<open>Data\<close>

definition CMDMBOX_HEADER_LEN :: u32 where "CMDMBOX_HEADER_LEN = 4"
definition MAX_CMD_PARAMS :: nat where "MAX_CMD_PARAMS = 610"
definition CMD_STATUS_SUCCESS :: u16 where "CMD_STATUS_SUCCESS = 1"
definition CMD_STATUS_TIMEOUT :: u32 where "CMD_STATUS_TIMEOUT = 21"
definition INTR_TRIG_CMD :: u32 where "INTR_TRIG_CMD = 1"

record Command_t =
  cmdID :: u16
  cmdStatus :: u16
  parameters :: "u8 list"

text \<open>\<open>ACX_REG_INTERRUPT_TRIG\<close> and \<open>REG_COMMAND_MAILBOX_PTR\<close> are names of device registers.\<close>

datatype mbox_reg = ACX_REG_INTERRUPT_TRIG | REG_COMMAND_MAILBOX_PTR

datatype mbox_ev =
    MbWrite u32 u32 Command_t u16
  | MbRegWrite u32 mbox_reg u32
  | MbRead u32 u32 u16
  | MbRegRead u32 mbox_reg
  | MbTimerStart
  | MbTimerStop
  | MbError u32 u32 "u8 list"
  | MbConfigured

record TCmdMbox =
  hCmdMboxTimer :: handle
  fErrorCb :: handle
  mb_fCb :: handle
  mb_hCb :: handle
  cmd_out :: Command_t
  cmd_in :: Command_t
  reg_trig :: u32
  reg_addr :: u32
  bCmdInProgress :: bool
  uFwAddr :: u32
  uWriteLen :: u32
  uReadLen :: u32
  mbox_log :: "mbox_ev list"

definition mb_emit :: "mbox_ev \<Rightarrow> TCmdMbox \<Rightarrow> TCmdMbox" where
  "mb_emit e m = m\<lparr>mbox_log := mbox_log m @ [e]\<rparr>"

text \<open>\<open>os_memoryCopy\<close> of \<open>n\<close> bytes to the start of a buffer.\<close>

definition os_memoryCopy :: "u8 list \<Rightarrow> u8 list \<Rightarrow> nat \<Rightarrow> u8 list" where
  "os_memoryCopy dst src n = take n src @ drop n dst"

section \<open>Operations\<close>

definition zero_cmd :: Command_t where
  "zero_cmd = \<lparr>cmdID = 0, cmdStatus = 0, parameters = replicate MAX_CMD_PARAMS 0\<rparr>"

definition cmdMbox_Create :: "handle \<Rightarrow> TCmdMbox option" where
  "cmdMbox_Create mem =
     (if mem = NULL then None
      else Some \<lparr>hCmdMboxTimer = NULL, fErrorCb = NULL, mb_fCb = NULL, mb_hCb = NULL, cmd_out = zero_cmd, cmd_in = zero_cmd,
        reg_trig = 0, reg_addr = 0, bCmdInProgress = False, uFwAddr = 0, uWriteLen = 0, uReadLen = 0, mbox_log = []\<rparr>)"

text \<open>The timers that are destroyed.\<close>

definition cmdMbox_Destroy :: "TCmdMbox \<Rightarrow> ti_status \<times> handle list" where
  "cmdMbox_Destroy m = (TI_OK, if hCmdMboxTimer m \<noteq> NULL then [hCmdMboxTimer m] else [])"

text \<open>\<open>timer\<close> is what \<open>tmr_CreateTimer\<close> returned.\<close>

definition cmdMbox_Init :: "TCmdMbox \<Rightarrow> handle \<Rightarrow> handle \<Rightarrow> ti_status \<times> TCmdMbox" where
  "cmdMbox_Init m errCb timer =
     (let m = m\<lparr>uFwAddr := 0, uReadLen := 0, uWriteLen := 0, bCmdInProgress := False, fErrorCb := errCb, hCmdMboxTimer := timer\<rparr>
      in (if timer = NULL then TI_NOK else TI_OK, m))"

definition mbox_params :: "u32 \<Rightarrow> u32" where
  "mbox_params dir = TXN_PARAM_SET 0 TXN_LOW_PRIORITY TXN_FUNC_ID_WLAN dir TXN_INC_ADDR"

text \<open>The write length with the header, rounded up to a multiple of four bytes.\<close>

definition mbox_write_len :: "u32 \<Rightarrow> u32" where
  "mbox_write_len n =
     (let w = n + CMDMBOX_HEADER_LEN in if w AND 3 \<noteq> 0 then (w + 4) AND 0xFFFFFFFC else w)"

definition cmdMbox_SendCommand :: "TCmdMbox \<Rightarrow> u16 \<Rightarrow> u8 list \<Rightarrow> u32 \<Rightarrow> u32 \<Rightarrow> ti_status \<times> TCmdMbox" where
  "cmdMbox_SendCommand m cmdType pParamsBuf wlen rlen =
     (if bCmdInProgress m then (TI_NOK, m)
      else
        let m = m\<lparr>uReadLen := rlen + CMDMBOX_HEADER_LEN\<rparr>;
            cmd = \<lparr>cmdID = cmdType, cmdStatus = CMD_STATUS_SUCCESS, parameters = os_memoryCopy (parameters (cmd_out m)) pParamsBuf (unat wlen)\<rparr>;
            m = m\<lparr>cmd_out := cmd, uWriteLen := mbox_write_len wlen, bCmdInProgress := True\<rparr>;
            m = mb_emit (MbWrite (mbox_params TXN_DIRECTION_WRITE) (uFwAddr m) cmd (ucast (uWriteLen m))) m;
            m = m\<lparr>reg_trig := INTR_TRIG_CMD\<rparr>;
            m = mb_emit MbTimerStart m;
            m = mb_emit (MbRegWrite (mbox_params TXN_DIRECTION_WRITE) ACX_REG_INTERRUPT_TRIG (reg_trig m)) m
        in (TXN_STATUS_PENDING, m))"

text \<open>
  The first part of \<open>cmdMbox_CommandComplete\<close> issues the read; the bus puts the answer into the second
  buffer (\<open>mbox_answer\<close>), at once or later, and \<open>cmdMbox_TransferComplete\<close> runs when it has. The part of
  \<open>cmdMbox_TransferComplete\<close> that is this module's own is \<open>mbox_release\<close>; the call of \<open>cmdQueue_ResultReceived\<close> is in
  the theory \<open>Wlan_CmdQueue\<close>.
\<close>

definition mbox_read :: "TCmdMbox \<Rightarrow> TCmdMbox" where
  "mbox_read m = mb_emit (MbRead (mbox_params TXN_DIRECTION_READ) (uFwAddr m) (ucast (uReadLen m))) (mb_emit MbTimerStop m)"

definition mbox_answer :: "Command_t \<Rightarrow> TCmdMbox \<Rightarrow> TCmdMbox" where
  "mbox_answer c m = m\<lparr>cmd_in := c\<rparr>"

definition mbox_release :: "TCmdMbox \<Rightarrow> TCmdMbox" where
  "mbox_release m = m\<lparr>bCmdInProgress := False\<rparr>"

text \<open>The error callback's arguments are logged; \<open>cmdQueue_Error\<close> handles them.\<close>

definition cmdMbox_TimeOut :: "TCmdMbox \<Rightarrow> TCmdMbox" where
  "cmdMbox_TimeOut m =
     (if fErrorCb m \<noteq> NULL then mb_emit (MbError (ucast (cmdID (cmd_out m))) CMD_STATUS_TIMEOUT (parameters (cmd_out m))) m else m)"

text \<open>\<open>rc\<close> is the result of the read, \<open>v\<close> the word that a completed one has read.\<close>

definition cmdMbox_ConfigHw :: "TCmdMbox \<Rightarrow> handle \<Rightarrow> handle \<Rightarrow> ti_status \<Rightarrow> u32 \<Rightarrow> ti_status \<times> TCmdMbox" where
  "cmdMbox_ConfigHw m f h rc v =
     (let m = m\<lparr>mb_fCb := f, mb_hCb := h\<rparr>;
          m = mb_emit (MbRegRead (mbox_params TXN_DIRECTION_READ) REG_COMMAND_MAILBOX_PTR) m
      in if rc = TXN_STATUS_COMPLETE then (let m = m\<lparr>reg_addr := v\<rparr> in (rc, m\<lparr>uFwAddr := reg_addr m\<rparr>)) else (rc, m))"

definition cmdMbox_ConfigHwCb :: "TCmdMbox \<Rightarrow> TCmdMbox" where
  "cmdMbox_ConfigHwCb m = mb_emit MbConfigured (m\<lparr>uFwAddr := reg_addr m\<rparr>)"

definition cmdMbox_Restart :: "TCmdMbox \<Rightarrow> ti_status \<times> TCmdMbox" where
  "cmdMbox_Restart m = (TI_OK, (mb_emit MbTimerStop m)\<lparr>bCmdInProgress := False, uReadLen := 0, uWriteLen := 0\<rparr>)"

definition cmdMbox_GetStatus :: "TCmdMbox \<Rightarrow> ti_status \<times> u16" where
  "cmdMbox_GetStatus m = (if cmdStatus (cmd_in m) = CMD_STATUS_SUCCESS then TI_OK else TI_NOK, cmdStatus (cmd_in m))"

definition cmdMbox_GetMboxAddress :: "TCmdMbox \<Rightarrow> u32" where
  "cmdMbox_GetMboxAddress m = uFwAddr m"

text \<open>What is copied to the caller's buffer.\<close>

definition cmdMbox_GetCmdParams :: "TCmdMbox \<Rightarrow> u8 list" where
  "cmdMbox_GetCmdParams m = take (unat (uReadLen m - CMDMBOX_HEADER_LEN)) (parameters (cmd_in m))"

section \<open>Properties of the mailbox\<close>

lemma round_up_4:
  fixes w :: u32
  assumes "w AND 3 \<noteq> 0" "unat w + 4 < 2 ^ 32"
  shows "unat ((w + 4) AND 0xFFFFFFFC) = 4 * (unat w div 4 + 1)"
proof -
  have m: "(0xFFFFFFFC :: u32) = push_bit 2 (mask 30)" by (simp add: mask_eq_decr_exp)
  have n: "Suc (Suc (n - 2)) = n" if "2 \<le> n" for n using that by linarith
  have "(w + 4) AND 0xFFFFFFFC = push_bit 2 (drop_bit 2 (w + 4))"
    unfolding m by (rule bit_word_eqI) (auto simp: bit_simps n)
  then have "unat ((w + 4) AND 0xFFFFFFFC) = unat (push_bit 2 (drop_bit 2 (w + 4)))" by simp
  also have "\<dots> = 4 * (unat (w + 4) div 4) mod 2 ^ 32"
    by (simp add: push_bit_eq_mult drop_bit_eq_div mult.commute unat_word_ariths(2) unat_div)
  also have "unat (w + 4) = unat w + 4" using assms(2) by (simp add: unat_word_ariths)
  finally have e: "unat ((w + 4) AND 0xFFFFFFFC) = 4 * ((unat w + 4) div 4) mod 2 ^ 32" .
  moreover have "4 * ((unat w + 4) div 4) < 2 ^ 32" using assms(2) by linarith
  moreover have "(unat w + 4) div 4 = unat w div 4 + 1" by linarith
  ultimately show ?thesis by simp
qed

lemma and_3_mod: "(w :: u32) AND 3 = 0 \<longleftrightarrow> unat w mod 4 = 0"
proof -
  have "w AND 3 = take_bit 2 w" by (simp add: take_bit_eq_mask mask_eq_decr_exp)
  then have "w AND 3 = w mod 4" by (simp add: take_bit_eq_mod)
  then have "unat (w AND 3) = unat w mod 4" by (simp add: unat_mod)
  then show ?thesis by (metis unat_eq_zero)
qed

lemma mbox_write_len_bounds:
  assumes "unat n + 8 < 2 ^ 32"
  shows "unat (mbox_write_len n) mod 4 = 0" "unat n + 4 \<le> unat (mbox_write_len n)" "unat (mbox_write_len n) < unat n + 8"
proof -
  let ?w = "n + CMDMBOX_HEADER_LEN"
  have w: "unat ?w = unat n + 4" using assms by (simp add: CMDMBOX_HEADER_LEN_def unat_word_ariths)
  have "unat (mbox_write_len n) mod 4 = 0 \<and> unat n + 4 \<le> unat (mbox_write_len n) \<and> unat (mbox_write_len n) < unat n + 8"
  proof (cases "?w AND 3 = 0")
    case True
    then have l: "mbox_write_len n = ?w" by (simp add: mbox_write_len_def Let_def)
    have "unat ?w mod 4 = 0" using True and_3_mod [of ?w] by simp
    then show ?thesis unfolding l using w by linarith
  next
    case False
    then have "unat (mbox_write_len n) = 4 * (unat ?w div 4 + 1)"
      using round_up_4 [OF False] w assms by (simp add: mbox_write_len_def Let_def)
    moreover have "unat ?w mod 4 \<noteq> 0" using False and_3_mod [of ?w] by simp
    ultimately show ?thesis using w by presburger
  qed
  then show "unat (mbox_write_len n) mod 4 = 0" "unat n + 4 \<le> unat (mbox_write_len n)" "unat (mbox_write_len n) < unat n + 8" by blast+
qed

lemma mbox_len16:
  assumes "unat wlen \<le> 610"
  shows "unat (ucast (mbox_write_len wlen) :: u16) mod 4 = 0 \<and> unat wlen + 4 \<le> unat (ucast (mbox_write_len wlen) :: u16) \<and>
    unat (ucast (mbox_write_len wlen) :: u16) < unat wlen + 8 \<and> unat (ucast (mbox_write_len wlen) :: u16) \<le> 616"
proof -
  have "unat wlen + 8 < 2 ^ 32" using assms by simp
  note b = mbox_write_len_bounds [OF this]
  have "unat (ucast (mbox_write_len wlen) :: u16) = unat (mbox_write_len wlen) mod 2 ^ 16"
    unfolding unsigned_ucast_eq take_bit_eq_mod by (simp add: unat_mod)
  also have "\<dots> = unat (mbox_write_len wlen)" using b(3) assms by (intro mod_less) simp
  finally have e: "unat (ucast (mbox_write_len wlen) :: u16) = unat (mbox_write_len wlen)" .
  have "x mod 4 = 0 \<Longrightarrow> x < n + 8 \<Longrightarrow> n \<le> 610 \<Longrightarrow> x \<le> 616" for x n :: nat by presburger
  from this [OF b(1,3) assms] b show ?thesis unfolding e by simp
qed

lemma length_memoryCopy: "n \<le> length src \<Longrightarrow> n \<le> length dst \<Longrightarrow> length (os_memoryCopy dst src n) = length dst"
  by (simp add: os_memoryCopy_def)

definition mbox_ex :: TCmdMbox where
  "mbox_ex = snd (cmdMbox_Init (the (cmdMbox_Create 0x1000)) 0x2000 0x3000)"

text \<open>
  A command written to an idle mailbox carries its identifier, success status and parameters; the length
  of the write covers the header and the parameters, is a multiple of four, wastes less than four bytes and
  is at most 616 bytes; the timer is started between the write and the trigger; and when the firmware
  has answered, exactly the requested number of answer bytes is handed back. A mailbox that is in use refuses.
\<close>

lemma cmdMbox_SendCommand_frame:
  assumes "unat wlen \<le> 610" "unat wlen \<le> length buf" "length (parameters (cmd_out m)) = 610"
    "cmdMbox_SendCommand m t buf wlen rlen = (rc, m')"
  shows "if bCmdInProgress m then rc = TI_NOK \<and> m' = m
    else rc = TXN_STATUS_PENDING \<and> bCmdInProgress m' \<and> cmdID (cmd_out m') = t \<and> cmdStatus (cmd_out m') = CMD_STATUS_SUCCESS \<and>
      length (parameters (cmd_out m')) = 610 \<and> take (unat wlen) (parameters (cmd_out m')) = take (unat wlen) buf \<and>
      (\<forall>c. cmdMbox_GetCmdParams (mbox_answer c m') = take (unat rlen) (parameters c)) \<and>
      (\<exists>L. mbox_log m' = mbox_log m @ [MbWrite (mbox_params TXN_DIRECTION_WRITE) (uFwAddr m) (cmd_out m') L, MbTimerStart,
          MbRegWrite (mbox_params TXN_DIRECTION_WRITE) ACX_REG_INTERRUPT_TRIG INTR_TRIG_CMD] \<and>
        unat L mod 4 = 0 \<and> unat wlen + 4 \<le> unat L \<and> unat L < unat wlen + 8 \<and> unat L \<le> 616)"
proof (cases "bCmdInProgress m")
  case True
  then show ?thesis using assms(4) by (simp add: cmdMbox_SendCommand_def)
next
  case False
  have d: "rc = fst (cmdMbox_SendCommand m t buf wlen rlen)" "m' = snd (cmdMbox_SendCommand m t buf wlen rlen)"
    using assms(4) by simp_all
  have m': "rc = TXN_STATUS_PENDING" "bCmdInProgress m'"
    "cmd_out m' = \<lparr>cmdID = t, cmdStatus = CMD_STATUS_SUCCESS, parameters = os_memoryCopy (parameters (cmd_out m)) buf (unat wlen)\<rparr>"
    "uReadLen m' = rlen + CMDMBOX_HEADER_LEN"
    "mbox_log m' = mbox_log m @ [MbWrite (mbox_params TXN_DIRECTION_WRITE) (uFwAddr m) (cmd_out m') (ucast (mbox_write_len wlen)), MbTimerStart,
       MbRegWrite (mbox_params TXN_DIRECTION_WRITE) ACX_REG_INTERRUPT_TRIG INTR_TRIG_CMD]"
    unfolding d by (simp_all add: cmdMbox_SendCommand_def Let_def mb_emit_def False)
  let ?L = "ucast (mbox_write_len wlen) :: u16"
  note L = mbox_len16 [OF assms(1)]
  have ex: "\<exists>L. mbox_log m' = mbox_log m @ [MbWrite (mbox_params TXN_DIRECTION_WRITE) (uFwAddr m) (cmd_out m') L, MbTimerStart,
      MbRegWrite (mbox_params TXN_DIRECTION_WRITE) ACX_REG_INTERRUPT_TRIG INTR_TRIG_CMD] \<and>
    unat L mod 4 = 0 \<and> unat wlen + 4 \<le> unat L \<and> unat L < unat wlen + 8 \<and> unat L \<le> 616"
    by (rule exI [of _ ?L], rule conjI [OF m'(5) L])
  have get: "cmdMbox_GetCmdParams (mbox_answer c m') = take (unat rlen) (parameters c)" for c
    using m'(4) by (simp add: cmdMbox_GetCmdParams_def mbox_answer_def)
  have par: "length (parameters (cmd_out m')) = 610" "take (unat wlen) (parameters (cmd_out m')) = take (unat wlen) buf"
    unfolding m'(3) using assms(1-3) by (simp_all add: length_memoryCopy) (simp add: os_memoryCopy_def)
  have id: "cmdID (cmd_out m') = t" "cmdStatus (cmd_out m') = CMD_STATUS_SUCCESS" unfolding m'(3) by simp_all
  show ?thesis unfolding if_not_P [OF False] by (intro conjI allI m'(1,2) id par get ex)
qed

end
