(* ===== verification/Wlan_CmdQueue.thy ===== *)
theory Wlan_CmdQueue
  imports Wlan_CmdMbox Wlan_Fifo
begin

text \<open>
  \<open>TWD/Ctrl/CmdQueue.c\<close>: the ring of commands in front of the mailbox. At most one command is with the
  firmware; the others wait in a ring of thirty nodes, and the device is kept awake as long as there are any.
  The mailbox object is part of the state. A log records what the module does: commands accepted, sent and
  completed (with the callback that is called), the device woken and put to sleep, and recovery. What a
  callback does is a parameter: the calls into this module that it makes.
\<close>

section \<open>Data\<close>

definition CMDQUEUE_QUEUE_DEPTH :: nat where "CMDQUEUE_QUEUE_DEPTH = 30"
definition CMDQUEUE_INFO_ELEM_HEADER_LEN :: u32 where "CMDQUEUE_INFO_ELEM_HEADER_LEN = 4"
definition CMD_INTERROGATE :: u16 where "CMD_INTERROGATE = 1"
definition CMD_TEST :: u16 where "CMD_TEST = 23"
definition CMD_STATUS_UNKNOWN_CMD :: u32 where "CMD_STATUS_UNKNOWN_CMD = 2"
definition CMD_STATUS_UNKNOWN_IE :: u32 where "CMD_STATUS_UNKNOWN_IE = 3"
definition CMD_STATUS_REJECT_MEAS_SG_ACTIVE :: u16 where "CMD_STATUS_REJECT_MEAS_SG_ACTIVE = 11"
definition CMD_STATUS_FW_RESET :: u16 where "CMD_STATUS_FW_RESET = 22"
definition SG_REJECT_MEAS_SG_ACTIVE :: u16 where "SG_REJECT_MEAS_SG_ACTIVE = 22"

datatype ECmdQueueSmStates = CMDQUEUE_STATE_IDLE | CMDQUEUE_STATE_WAIT_FOR_COMPLETION
datatype ECmdQueueSmEvents = CMDQUEUE_EVENT_RUN | CMDQUEUE_EVENT_COMPLETE

record TCmdQueueNode =
  cmdType :: u16
  uParamsLen :: u32
  fCb :: handle
  hCb :: handle
  aParamsBuf :: "u8 list"
  pInterrogateBuf :: handle

record TCmdQueueRecoveryNode =
  rec_fCb :: handle
  rec_hCb :: handle
  rec_pInterrogateBuf :: handle

text \<open>How a completed command is reported: with the answer, with the status, by the generic callback, or not at all.\<close>

datatype cb_kind = CbData "u8 list" | CbStatus | CbGeneric u16 | CbNone

datatype cq_ev =
    CqAccept TCmdQueueNode
  | CqSent TCmdQueueNode
  | CqDone TCmdQueueNode u16 cb_kind
  | CqAwake
  | CqSleep
  | CqRestart
  | CqRecover TCmdQueueRecoveryNode u16
  | CqFailure

record TCmdQueue =
  hCmdMBox :: TCmdMbox
  state :: ECmdQueueSmStates
  fCmdCompleteCb :: handle
  hCmdCompleteCb :: handle
  fFailureCb :: handle
  hFailureCb :: handle
  aCmdQueue :: "TCmdQueueNode list"
  aRecoveryQueue :: "TCmdQueueRecoveryNode list"
  head :: u32
  tail :: u32
  uNumberOfCommandInQueue :: u32
  uMaxNumberOfCommandInQueue :: u32
  uNumberOfRecoveryNodes :: u32
  uCmdSendCounter :: u32
  uCmdCompltCounter :: u32
  bErrorFlag :: bool
  bMboxEnabled :: bool
  bAwake :: bool
  cq_log :: "cq_ev list"

definition cq_emit :: "cq_ev \<Rightarrow> TCmdQueue \<Rightarrow> TCmdQueue" where
  "cq_emit e q = q\<lparr>cq_log := cq_log q @ [e]\<rparr>"

fun RC_CONVERT :: "ti_status \<Rightarrow> ti_status" where
  "RC_CONVERT rc = (if rc = TXN_STATUS_OK \<or> rc = TXN_STATUS_COMPLETE \<or> rc = TXN_STATUS_PENDING \<or> rc = TI_OK then TI_OK else TI_NOK)"

section \<open>Construction\<close>

definition zero_node :: TCmdQueueNode where
  "zero_node = \<lparr>cmdType = 0, uParamsLen = 0, fCb = NULL, hCb = NULL, aParamsBuf = replicate MAX_CMD_PARAMS 0, pInterrogateBuf = NULL\<rparr>"

definition zero_rec :: TCmdQueueRecoveryNode where
  "zero_rec = \<lparr>rec_fCb = NULL, rec_hCb = NULL, rec_pInterrogateBuf = NULL\<rparr>"

text \<open>The mailbox is created separately and given to \<open>cmdQueue_Init\<close>; until then it is \<open>m\<close>.\<close>

definition cmdQueue_Create :: "handle \<Rightarrow> TCmdMbox \<Rightarrow> TCmdQueue option" where
  "cmdQueue_Create mem m =
     (if mem = NULL then None
      else Some \<lparr>hCmdMBox = m, state = CMDQUEUE_STATE_IDLE, fCmdCompleteCb = NULL, hCmdCompleteCb = NULL, fFailureCb = NULL,
        hFailureCb = NULL, aCmdQueue = replicate CMDQUEUE_QUEUE_DEPTH zero_node, aRecoveryQueue = replicate CMDQUEUE_QUEUE_DEPTH zero_rec,
        head = 0, tail = 0, uNumberOfCommandInQueue = 0, uMaxNumberOfCommandInQueue = 0, uNumberOfRecoveryNodes = 0,
        uCmdSendCounter = 0, uCmdCompltCounter = 0, bErrorFlag = False, bMboxEnabled = False, bAwake = False, cq_log = []\<rparr>)"

text \<open>\<open>errCb\<close> stands for the address of \<open>cmdQueue_Error\<close>; \<open>timer\<close> is what \<open>tmr_CreateTimer\<close> returned.\<close>

definition cmdQueue_Init :: "TCmdQueue \<Rightarrow> TCmdMbox \<Rightarrow> handle \<Rightarrow> handle \<Rightarrow> ti_status \<times> TCmdQueue" where
  "cmdQueue_Init q m errCb timer =
     (TI_OK, q\<lparr>head := 0, tail := 0, uNumberOfCommandInQueue := 0, uMaxNumberOfCommandInQueue := 0, state := CMDQUEUE_STATE_IDLE,
        fCmdCompleteCb := NULL, hCmdCompleteCb := NULL, fFailureCb := NULL, hFailureCb := NULL, bErrorFlag := False,
        bMboxEnabled := False, bAwake := False, hCmdMBox := snd (cmdMbox_Init m errCb timer)\<rparr>)"

section \<open>The state machine\<close>

definition head_node :: "TCmdQueue \<Rightarrow> TCmdQueueNode" where
  "head_node q = aCmdQueue q ! unat (head q)"

text \<open>The lengths that are written and read, by type of command.\<close>

definition cmd_lens :: "TCmdQueueNode \<Rightarrow> u32 \<times> u32" where
  "cmd_lens n =
     (if cmdType n = CMD_INTERROGATE then (CMDQUEUE_INFO_ELEM_HEADER_LEN, uParamsLen n)
      else if cmdType n = CMD_TEST then (uParamsLen n, uParamsLen n)
      else (uParamsLen n, 0))"

definition wake_up :: "TCmdQueue \<Rightarrow> TCmdQueue" where
  "wake_up q = (if \<not> bAwake q then (cq_emit CqAwake q)\<lparr>bAwake := True\<rparr> else q)"

text \<open>The event \<open>CMDQUEUE_EVENT_RUN\<close>. \<open>CqSent\<close> records the command handed to the mailbox, if it took it.\<close>

definition sm_run :: "TCmdQueue \<Rightarrow> ti_status \<times> TCmdQueue" where
  "sm_run q =
     (case state q of
        CMDQUEUE_STATE_IDLE \<Rightarrow>
          let q = q\<lparr>state := CMDQUEUE_STATE_WAIT_FOR_COMPLETION\<rparr>;
              n = head_node q;
              q = q\<lparr>uCmdSendCounter := uCmdSendCounter q + 1\<rparr>;
              q = wake_up q;
              (wlen, rlen) = cmd_lens n;
              (rc, m) = cmdMbox_SendCommand (hCmdMBox q) (cmdType n) (aParamsBuf n) wlen rlen;
              q = q\<lparr>hCmdMBox := m\<rparr>
          in (rc, if rc = TXN_STATUS_PENDING then cq_emit (CqSent n) q else q)
      | CMDQUEUE_STATE_WAIT_FOR_COMPLETION \<Rightarrow> (TXN_STATUS_PENDING, q))"

definition node_param :: "TCmdQueueNode \<Rightarrow> u16" where
  "node_param n = ucast (aParamsBuf n ! 0) OR push_bit 8 (ucast (aParamsBuf n ! 1))"

text \<open>\<open>cmdQueue_Push\<close>: the ring's part and the whole.\<close>

definition ring_put :: "TCmdQueue \<Rightarrow> u16 \<Rightarrow> u8 list \<Rightarrow> u32 \<Rightarrow> handle \<Rightarrow> handle \<Rightarrow> handle \<Rightarrow> TCmdQueue" where
  "ring_put q t buf len f h p =
     (let i = unat (tail q);
          n = \<lparr>cmdType = t, uParamsLen = len, fCb = f, hCb = h,
               aParamsBuf = os_memoryCopy (aParamsBuf (aCmdQueue q ! i)) buf (unat len), pInterrogateBuf = p\<rparr>;
          q = q\<lparr>aCmdQueue := (aCmdQueue q)[i := n]\<rparr>;
          q = q\<lparr>tail := tail q + 1\<rparr>;
          q = (if tail q = of_nat CMDQUEUE_QUEUE_DEPTH then q\<lparr>tail := 0\<rparr> else q);
          q = q\<lparr>uNumberOfCommandInQueue := uNumberOfCommandInQueue q + 1\<rparr>;
          q = (if uMaxNumberOfCommandInQueue q < uNumberOfCommandInQueue q
               then q\<lparr>uMaxNumberOfCommandInQueue := uNumberOfCommandInQueue q\<rparr> else q)
      in cq_emit (CqAccept n) q)"

definition cmdQueue_Push :: "TCmdQueue \<Rightarrow> u16 \<Rightarrow> u8 list \<Rightarrow> u32 \<Rightarrow> handle \<Rightarrow> handle \<Rightarrow> handle \<Rightarrow> ti_status \<times> TCmdQueue" where
  "cmdQueue_Push q t buf len f h p =
     (if \<not> bMboxEnabled q then (TI_OK, q)
      else if uNumberOfCommandInQueue q = of_nat CMDQUEUE_QUEUE_DEPTH then (TI_NOK, q)
      else
        let q = ring_put q t buf len f h p
        in if uNumberOfCommandInQueue q = 1 then sm_run q else (TI_OK, q))"

definition cmdQueue_SendCommand :: "TCmdQueue \<Rightarrow> u16 \<Rightarrow> u8 list \<Rightarrow> u32 \<Rightarrow> handle \<Rightarrow> handle \<Rightarrow> handle \<Rightarrow> ti_status \<times> TCmdQueue" where
  "cmdQueue_SendCommand q t buf len f h p =
     (if bErrorFlag q then (TI_NOK, q)
      else let (st, q) = cmdQueue_Push q t buf len f h p in (RC_CONVERT st, q))"

definition cmdQueue_EnableMbox :: "TCmdQueue \<Rightarrow> ti_status \<times> TCmdQueue" where
  "cmdQueue_EnableMbox q = (TI_OK, q\<lparr>bMboxEnabled := True\<rparr>)"

definition cmdQueue_DisableMbox :: "TCmdQueue \<Rightarrow> ti_status \<times> TCmdQueue" where
  "cmdQueue_DisableMbox q = (TI_OK, q\<lparr>bMboxEnabled := False\<rparr>)"

text \<open>The calls that a callback makes.\<close>

datatype cq_req = CqSend u16 "u8 list" u32 handle handle handle | CqEnable | CqDisable

type_synonym cq_env = "TCmdQueue \<Rightarrow> cq_ev \<Rightarrow> cq_req list"

fun cq_call :: "TCmdQueue \<Rightarrow> cq_req \<Rightarrow> TCmdQueue" where
  "cq_call q (CqSend t buf len f h p) = snd (cmdQueue_SendCommand q t buf len f h p)"
| "cq_call q CqEnable = snd (cmdQueue_EnableMbox q)"
| "cq_call q CqDisable = snd (cmdQueue_DisableMbox q)"

definition cq_callback :: "cq_env \<Rightarrow> cq_ev \<Rightarrow> TCmdQueue \<Rightarrow> TCmdQueue" where
  "cq_callback env e q = (let q = cq_emit e q in foldl cq_call q (env q e))"

definition ring_pop :: "TCmdQueue \<Rightarrow> TCmdQueue" where
  "ring_pop q =
     (let q = q\<lparr>head := head q + 1\<rparr>;
          q = (if head q \<ge> of_nat CMDQUEUE_QUEUE_DEPTH then q\<lparr>head := 0\<rparr> else q)
      in q\<lparr>uNumberOfCommandInQueue := uNumberOfCommandInQueue q - 1\<rparr>)"

text \<open>The status for the callback and the error flag, from the mailbox status.\<close>

definition result_status :: "TCmdMbox \<Rightarrow> u16 \<times> bool" where
  "result_status m =
     (let (st, cs) = cmdMbox_GetStatus m in
      if st \<noteq> TI_OK then (if cs = CMD_STATUS_REJECT_MEAS_SG_ACTIVE then (SG_REJECT_MEAS_SG_ACTIVE, False) else (1, True))
      else (0, False))"

definition cb_of :: "TCmdQueue \<Rightarrow> TCmdQueueNode \<Rightarrow> cb_kind" where
  "cb_of q n =
     (if fCb n \<noteq> NULL then (if pInterrogateBuf n \<noteq> NULL then CbData (cmdMbox_GetCmdParams (hCmdMBox q)) else CbStatus)
      else if fCmdCompleteCb q \<noteq> NULL then CbGeneric (node_param n) else CbNone)"

text \<open>
  The event \<open>CMDQUEUE_EVENT_COMPLETE\<close>: the command leaves the ring before its callback runs; then the next one is
  sent, or the device may sleep.
\<close>

definition sm_complete :: "cq_env \<Rightarrow> TCmdQueue \<Rightarrow> ti_status \<times> TCmdQueue" where
  "sm_complete env q =
     (case state q of
        CMDQUEUE_STATE_IDLE \<Rightarrow> (TI_NOK, q)
      | CMDQUEUE_STATE_WAIT_FOR_COMPLETION \<Rightarrow>
          let n = head_node q;
              q = ring_pop q;
              q = q\<lparr>uCmdCompltCounter := uCmdCompltCounter q + 1\<rparr>;
              (st, err) = result_status (hCmdMBox q);
              q = q\<lparr>bErrorFlag := err\<rparr>;
              k = cb_of q n;
              q = (if k = CbNone then cq_emit (CqDone n st k) q else cq_callback env (CqDone n st k) q)
          in if uNumberOfCommandInQueue q > 0 then sm_run (q\<lparr>state := CMDQUEUE_STATE_IDLE\<rparr>)
             else (TI_OK, (cq_emit CqSleep q)\<lparr>bAwake := False, state := CMDQUEUE_STATE_IDLE\<rparr>))"

definition cmdQueue_SM :: "cq_env \<Rightarrow> TCmdQueue \<Rightarrow> ECmdQueueSmEvents \<Rightarrow> ti_status \<times> TCmdQueue" where
  "cmdQueue_SM env q e =
     (case e of CMDQUEUE_EVENT_RUN \<Rightarrow> sm_run q | CMDQUEUE_EVENT_COMPLETE \<Rightarrow> sm_complete env q)"

definition cmdQueue_ResultReceived :: "cq_env \<Rightarrow> TCmdQueue \<Rightarrow> ti_status \<times> TCmdQueue" where
  "cmdQueue_ResultReceived env q = cmdQueue_SM env q CMDQUEUE_EVENT_COMPLETE"

text \<open>\<open>cmdMbox_TransferComplete\<close> and \<open>cmdMbox_CommandComplete\<close>; \<open>c\<close> is the answer that the bus has read.\<close>

definition cmdMbox_TransferComplete :: "cq_env \<Rightarrow> TCmdQueue \<Rightarrow> Command_t \<Rightarrow> ti_status \<times> TCmdQueue" where
  "cmdMbox_TransferComplete env q c =
     (let q = q\<lparr>hCmdMBox := mbox_release (mbox_answer c (hCmdMBox q))\<rparr>
      in (TI_OK, snd (cmdQueue_ResultReceived env q)))"

definition cmdMbox_CommandComplete :: "cq_env \<Rightarrow> TCmdQueue \<Rightarrow> ti_status \<Rightarrow> Command_t \<Rightarrow> ti_status \<times> TCmdQueue" where
  "cmdMbox_CommandComplete env q rc c =
     (let q = q\<lparr>hCmdMBox := mbox_read (hCmdMBox q)\<rparr>
      in (TXN_STATUS_COMPLETE, if rc = TXN_STATUS_COMPLETE then snd (cmdMbox_TransferComplete env q c) else q))"

section \<open>Recovery and errors\<close>

primrec restart_loop :: "nat \<Rightarrow> u32 \<Rightarrow> TCmdQueue \<Rightarrow> TCmdQueue" where
  "restart_loop 0 first q = q"
| "restart_loop (Suc k) first q =
     (let n = aCmdQueue q ! unat first;
          q = (if fCb n \<noteq> NULL then
                 q\<lparr>aRecoveryQueue := (aRecoveryQueue q)[unat (uNumberOfRecoveryNodes q) :=
                     \<lparr>rec_fCb = fCb n, rec_hCb = hCb n, rec_pInterrogateBuf = pInterrogateBuf n\<rparr>],
                   uNumberOfRecoveryNodes := uNumberOfRecoveryNodes q + 1\<rparr>
               else q);
          first = first + 1;
          first = (if first = of_nat CMDQUEUE_QUEUE_DEPTH then 0 else first)
      in restart_loop k first q)"

definition cmdQueue_Restart :: "TCmdQueue \<Rightarrow> ti_status \<times> TCmdQueue" where
  "cmdQueue_Restart q =
     (let q = q\<lparr>state := CMDQUEUE_STATE_IDLE, bAwake := False, uNumberOfRecoveryNodes := 0\<rparr>;
          q = restart_loop (unat (uNumberOfCommandInQueue q)) (head q) q;
          q = q\<lparr>head := 0, tail := 0, uNumberOfCommandInQueue := 0\<rparr>
      in (TI_OK, cq_emit CqRestart q))"

definition cmdQueue_EndReconfig :: "cq_env \<Rightarrow> TCmdQueue \<Rightarrow> ti_status \<times> TCmdQueue" where
  "cmdQueue_EndReconfig env q =
     (let q = fold (\<lambda>i q. cq_callback env (CqRecover (aRecoveryQueue q ! i) CMD_STATUS_FW_RESET) q)
            [0..<unat (uNumberOfRecoveryNodes q)] q
      in (TI_OK, q\<lparr>uNumberOfRecoveryNodes := 0\<rparr>))"

definition cmdQueue_RegisterCmdCompleteGenericCb :: "TCmdQueue \<Rightarrow> handle \<Rightarrow> handle \<Rightarrow> ti_status \<times> TCmdQueue" where
  "cmdQueue_RegisterCmdCompleteGenericCb q f h =
     (if f = NULL \<or> h = NULL then (TI_NOK, q) else (TI_OK, q\<lparr>fCmdCompleteCb := f, hCmdCompleteCb := h\<rparr>))"

definition cmdQueue_RegisterForErrorCb :: "TCmdQueue \<Rightarrow> handle \<Rightarrow> handle \<Rightarrow> ti_status \<times> TCmdQueue" where
  "cmdQueue_RegisterForErrorCb q f h =
     (if f = NULL \<or> h = NULL then (TI_NOK, q) else (TI_OK, q\<lparr>hFailureCb := h, fFailureCb := f\<rparr>))"

definition cmdQueue_Error :: "TCmdQueue \<Rightarrow> u32 \<Rightarrow> ti_status \<times> TCmdQueue" where
  "cmdQueue_Error q st =
     (TI_OK, if st \<noteq> CMD_STATUS_UNKNOWN_CMD \<and> st \<noteq> CMD_STATUS_UNKNOWN_IE \<and> fFailureCb q \<noteq> NULL then cq_emit CqFailure q else q)"

definition cmdQueue_GetMaxNumberOfCommands :: "TCmdQueue \<Rightarrow> u32" where
  "cmdQueue_GetMaxNumberOfCommands q = uMaxNumberOfCommandInQueue q"

text \<open>The mailbox timeout calls \<open>cmdQueue_Error\<close> (registered by \<open>cmdQueue_Init\<close>).\<close>

definition mbox_timeout :: "TCmdQueue \<Rightarrow> TCmdQueue" where
  "mbox_timeout q =
     (let q = q\<lparr>hCmdMBox := cmdMbox_TimeOut (hCmdMBox q)\<rparr>
      in if fErrorCb (hCmdMBox q) \<noteq> NULL then snd (cmdQueue_Error q CMD_STATUS_TIMEOUT) else q)"

section \<open>The ring\<close>

definition ring_wf :: "TCmdQueue \<Rightarrow> bool" where [wf_defs]:
  "ring_wf q \<longleftrightarrow> length (aCmdQueue q) = 30 \<and> length (aRecoveryQueue q) = 30 \<and> unat (head q) < 30 \<and>
     unat (uNumberOfCommandInQueue q) \<le> 30 \<and> unat (uNumberOfRecoveryNodes q) \<le> 30 \<and>
     unat (tail q) = (unat (head q) + unat (uNumberOfCommandInQueue q)) mod 30"

definition ring :: "TCmdQueue \<Rightarrow> TCmdQueueNode list" where
  "ring q = map (\<lambda>i. aCmdQueue q ! ((unat (head q) + i) mod 30)) [0..<unat (uNumberOfCommandInQueue q)]"

lemma length_ring [simp]: "length (ring q) = unat (uNumberOfCommandInQueue q)"
  by (simp add: ring_def)

lemma ring_Nil: "ring q = [] \<longleftrightarrow> uNumberOfCommandInQueue q = 0"
  by (simp add: ring_def unat_eq_zero)

lemma ring_cong:
  "aCmdQueue q' = aCmdQueue q \<Longrightarrow> head q' = head q \<Longrightarrow> uNumberOfCommandInQueue q' = uNumberOfCommandInQueue q \<Longrightarrow> ring q' = ring q"
  by (simp add: ring_def)

lemma mod30_neq:
  fixes h i n :: nat
  assumes "i < n" "n < 30"
  shows "(h + i) mod 30 \<noteq> (h + n) mod 30"
proof
  assume "(h + i) mod 30 = (h + n) mod 30"
  then obtain k where "h + n = h + i + 30 * k" using assms(1) by (metis add_le_cancel_left less_imp_le mod_eq_nat2E)
  with assms show False by (cases k) auto
qed

lemma unat_next30:
  fixes i :: u32
  assumes "unat i < 30"
  shows "unat (if i + 1 = 30 then 0 else i + 1) = (unat i + 1) mod 30" "(i + 1 \<ge> 30) = (i + 1 = 30)"
proof -
  have u: "unat (i + 1) = unat i + 1" using assms by (simp add: unat_word_ariths)
  have e: "i + 1 = 30 \<longleftrightarrow> unat (i + 1) = 30" using word_unat_eq_iff [of "i + 1" 30] by simp
  show "unat (if i + 1 = 30 then 0 else i + 1) = (unat i + 1) mod 30"
    using assms e u by (cases "i + 1 = 30") auto
  show "(i + 1 \<ge> 30) = (i + 1 = 30)" using word_le_nat_alt [of 30 "i + 1"] e u assms by auto
qed

definition put_node :: "TCmdQueue \<Rightarrow> u16 \<Rightarrow> u8 list \<Rightarrow> u32 \<Rightarrow> handle \<Rightarrow> handle \<Rightarrow> handle \<Rightarrow> TCmdQueueNode" where
  "put_node q t buf len f h p = \<lparr>cmdType = t, uParamsLen = len, fCb = f, hCb = h,
     aParamsBuf = os_memoryCopy (aParamsBuf (aCmdQueue q ! unat (tail q))) buf (unat len), pInterrogateBuf = p\<rparr>"

lemma ring_put_fields [simp]:
  "hCmdMBox (ring_put q t buf len f h p) = hCmdMBox q" "state (ring_put q t buf len f h p) = state q"
  "aRecoveryQueue (ring_put q t buf len f h p) = aRecoveryQueue q" "head (ring_put q t buf len f h p) = head q"
  "uNumberOfRecoveryNodes (ring_put q t buf len f h p) = uNumberOfRecoveryNodes q" "bAwake (ring_put q t buf len f h p) = bAwake q"
  "uNumberOfCommandInQueue (ring_put q t buf len f h p) = uNumberOfCommandInQueue q + 1"
  "aCmdQueue (ring_put q t buf len f h p) = (aCmdQueue q)[unat (tail q) := put_node q t buf len f h p]"
  "tail (ring_put q t buf len f h p) = (if tail q + 1 = 30 then 0 else tail q + 1)"
  "cq_log (ring_put q t buf len f h p) = cq_log q @ [CqAccept (put_node q t buf len f h p)]"
  "bErrorFlag (ring_put q t buf len f h p) = bErrorFlag q"
  by (simp_all add: ring_put_def Let_def cq_emit_def put_node_def CMDQUEUE_QUEUE_DEPTH_def)

lemma ring_put_ring:
  assumes "ring_wf q" "uNumberOfCommandInQueue q \<noteq> 30"
  shows "ring (ring_put q t buf len f h p) = ring q @ [put_node q t buf len f h p]" "ring_wf (ring_put q t buf len f h p)"
    "unat (uNumberOfCommandInQueue q + 1) = unat (uNumberOfCommandInQueue q) + 1"
proof -
  have wf: "length (aCmdQueue q) = 30" "unat (head q) < 30" "unat (uNumberOfCommandInQueue q) \<le> 30"
    "unat (tail q) = (unat (head q) + unat (uNumberOfCommandInQueue q)) mod 30" using assms(1) by (simp_all add: ring_wf_def)
  have "unat (uNumberOfCommandInQueue q) \<noteq> 30" using assms(2) word_unat_eq_iff [of "uNumberOfCommandInQueue q" 30] by simp
  then have n: "unat (uNumberOfCommandInQueue q) < 30" using wf(3) by simp
  then show u: "unat (uNumberOfCommandInQueue q + 1) = unat (uNumberOfCommandInQueue q) + 1" by (simp add: unat_word_ariths)
  have t: "unat (tail q) < 30" using wf(4) by simp
  show "ring (ring_put q t buf len f h p) = ring q @ [put_node q t buf len f h p]"
    using mod30_neq [OF _ n, of _ "unat (head q)"] wf(1) t unfolding ring_def
    by (auto simp: u wf(4) nth_list_update intro!: map_cong dest: sym)
  show "ring_wf (ring_put q t buf len f h p)"
    using assms(1) n unat_next30(1) [OF t] by (simp add: ring_wf_def u mod_add_left_eq add.assoc del: One_nat_def)
qed

lemma ring_pop_fields [simp]:
  "hCmdMBox (ring_pop q) = hCmdMBox q" "state (ring_pop q) = state q" "aRecoveryQueue (ring_pop q) = aRecoveryQueue q"
  "uNumberOfRecoveryNodes (ring_pop q) = uNumberOfRecoveryNodes q" "bAwake (ring_pop q) = bAwake q"
  "uNumberOfCommandInQueue (ring_pop q) = uNumberOfCommandInQueue q - 1" "aCmdQueue (ring_pop q) = aCmdQueue q"
  "tail (ring_pop q) = tail q" "cq_log (ring_pop q) = cq_log q" "fCmdCompleteCb (ring_pop q) = fCmdCompleteCb q"
  "head (ring_pop q) = (if head q + 1 \<ge> 30 then 0 else head q + 1)"
  by (simp_all add: ring_pop_def Let_def CMDQUEUE_QUEUE_DEPTH_def)

lemma ring_pop_ring:
  assumes "ring_wf q" "uNumberOfCommandInQueue q \<noteq> 0"
  shows "ring q = head_node q # ring (ring_pop q)" "ring_wf (ring_pop q)"
proof -
  have wf: "unat (head q) < 30" "unat (uNumberOfCommandInQueue q) \<le> 30" using assms(1) by (simp_all add: ring_wf_def)
  have u: "unat (uNumberOfCommandInQueue q) = Suc (unat (uNumberOfCommandInQueue q - 1))"
    using assms(2) by (simp add: unat_minus_one unat_gt_0)
  have h: "unat (head (ring_pop q)) = (unat (head q) + 1) mod 30" using unat_next30 [OF wf(1)] by simp
  show "ring q = head_node q # ring (ring_pop q)"
    unfolding ring_def head_node_def using wf(1)
    by (simp add: u upt_conv_Cons map_Suc_upt [symmetric] h mod_add_left_eq del: upt_Suc ring_pop_fields(11))
  show "ring_wf (ring_pop q)"
    using assms(1) u h by (simp add: ring_wf_def mod_add_left_eq del: ring_pop_fields(11))
qed

text \<open>
  The ring provides the first-in-first-out contract. Its items are the commands as they were submitted, that is,
  with as many parameter bytes as their length says.
\<close>

definition cmd_content :: "TCmdQueueNode \<Rightarrow> TCmdQueueNode" where
  "cmd_content n = n\<lparr>aParamsBuf := take (unat (uParamsLen n)) (aParamsBuf n)\<rparr>"

definition cq_enq :: "TCmdQueue \<Rightarrow> TCmdQueueNode \<Rightarrow> bool \<times> TCmdQueue" where
  "cq_enq q n =
     (if uNumberOfCommandInQueue q = of_nat CMDQUEUE_QUEUE_DEPTH then (False, q)
      else (True, ring_put q (cmdType n) (aParamsBuf n) (uParamsLen n) (fCb n) (hCb n) (pInterrogateBuf n)))"

definition cq_deq :: "TCmdQueue \<Rightarrow> TCmdQueueNode option \<times> TCmdQueue" where
  "cq_deq q = (if uNumberOfCommandInQueue q = 0 then (None, q) else (Some (cmd_content (head_node q)), ring_pop q))"

lemma put_content:
  assumes "length (aParamsBuf n) = unat (uParamsLen n)"
  shows "cmd_content (put_node q (cmdType n) (aParamsBuf n) (uParamsLen n) (fCb n) (hCb n) (pInterrogateBuf n)) = n"
  using assms by (simp add: cmd_content_def put_node_def os_memoryCopy_def)

interpretation cmdring: bounded_fifo cq_enq cq_deq "\<lambda>q. map cmd_content (ring q)" ring_wf
  "\<lambda>q. uNumberOfCommandInQueue q = 30" "\<lambda>q n. length (aParamsBuf n) = unat (uParamsLen n)"
proof (unfold_locales, goal_cases)
  case (1 q n b q')
  then show ?case using ring_put_ring [OF 1(1,2)] put_content [OF 1(3)] by (auto simp: cq_enq_def CMDQUEUE_QUEUE_DEPTH_def)
next
  case (2 q n b q')
  then show ?case by (simp add: cq_enq_def CMDQUEUE_QUEUE_DEPTH_def)
next
  case (3 q)
  then show ?case by (simp add: cq_deq_def ring_Nil)
next
  case (4 q n ns)
  then have "uNumberOfCommandInQueue q \<noteq> 0" using ring_Nil [of q] by auto
  with 4 ring_pop_ring [OF 4(1) this] show ?case by (simp add: cq_deq_def)
qed

section \<open>Specification\<close>

text \<open>
  The specification accepts a log or not: commands are sent in order of acceptance, one at a time, only while the
  device is awake; only the command that was sent completes; the device goes to sleep only when
  nothing is left; and after a restart the commands with a callback are reported once each, in order.
\<close>

record cq_spec =
  sq_out :: "TCmdQueueNode list"
  sq_fly :: bool
  sq_awake :: bool
  sq_saved :: "TCmdQueueRecoveryNode list"

definition rec_of :: "TCmdQueueNode \<Rightarrow> TCmdQueueRecoveryNode" where
  "rec_of n = \<lparr>rec_fCb = fCb n, rec_hCb = hCb n, rec_pInterrogateBuf = pInterrogateBuf n\<rparr>"

fun cq_spec_ev :: "cq_ev \<Rightarrow> cq_spec \<Rightarrow> cq_spec option" where
  "cq_spec_ev (CqAccept n) a = Some (a\<lparr>sq_out := sq_out a @ [n]\<rparr>)"
| "cq_spec_ev (CqSent n) a =
     (case sq_out a of [] \<Rightarrow> None | n' # _ \<Rightarrow> if n' = n \<and> \<not> sq_fly a \<and> sq_awake a then Some (a\<lparr>sq_fly := True\<rparr>) else None)"
| "cq_spec_ev (CqDone n st k) a =
     (case sq_out a of [] \<Rightarrow> None | n' # ns \<Rightarrow> if n' = n \<and> sq_fly a then Some (a\<lparr>sq_out := ns, sq_fly := False\<rparr>) else None)"
| "cq_spec_ev CqAwake a = (if sq_awake a then None else Some (a\<lparr>sq_awake := True\<rparr>))"
| "cq_spec_ev CqSleep a = (if sq_awake a \<and> sq_out a = [] then Some (a\<lparr>sq_awake := False\<rparr>) else None)"
| "cq_spec_ev CqRestart a =
     Some (a\<lparr>sq_out := [], sq_fly := False, sq_awake := False, sq_saved := map rec_of (filter (\<lambda>n. fCb n \<noteq> NULL) (sq_out a))\<rparr>)"
| "cq_spec_ev (CqRecover r st) a =
     (case sq_saved a of [] \<Rightarrow> None | r' # rs \<Rightarrow> if r' = r then Some (a\<lparr>sq_saved := rs\<rparr>) else None)"
| "cq_spec_ev CqFailure a = Some a"

fun cq_spec_run :: "cq_ev list \<Rightarrow> cq_spec \<Rightarrow> cq_spec option" where
  "cq_spec_run [] a = Some a"
| "cq_spec_run (e # es) a = Option.bind (cq_spec_ev e a) (cq_spec_run es)"

lemma cq_spec_run_snoc: "cq_spec_run (es @ [e]) a = Option.bind (cq_spec_run es a) (cq_spec_ev e)"
  by (induction es arbitrary: a) (simp_all add: bind_eq_None_conv split: bind_split)

definition cq_spec_init :: cq_spec where
  "cq_spec_init = \<lparr>sq_out = [], sq_fly = False, sq_awake = False, sq_saved = []\<rparr>"

text \<open>\<open>fly\<close>: whether a command is with the firmware; \<open>k\<close>: how many saved callbacks have been called.\<close>

definition cq_abs :: "bool \<Rightarrow> nat \<Rightarrow> TCmdQueue \<Rightarrow> cq_spec" where
  "cq_abs fly k q = \<lparr>sq_out = ring q, sq_fly = fly, sq_awake = bAwake q,
     sq_saved = drop k (take (unat (uNumberOfRecoveryNodes q)) (aRecoveryQueue q))\<rparr>"

definition cq_ok :: "bool \<Rightarrow> nat \<Rightarrow> TCmdQueue \<Rightarrow> bool" where
  "cq_ok fly k q \<longleftrightarrow> ring_wf q \<and> cq_spec_run (cq_log q) cq_spec_init = Some (cq_abs fly k q)"

lemma cq_ok_emit:
  assumes "cq_ok fly k q" "cq_spec_ev e (cq_abs fly k q) = Some (cq_abs fly' k' q')" "ring_wf q'" "cq_log q' = cq_log q @ [e]"
  shows "cq_ok fly' k' q'"
  using assms by (simp add: cq_ok_def cq_spec_run_snoc)

lemma cq_ok_cong:
  assumes "cq_ok fly k q" "aCmdQueue q' = aCmdQueue q" "aRecoveryQueue q' = aRecoveryQueue q" "head q' = head q" "tail q' = tail q"
    "uNumberOfCommandInQueue q' = uNumberOfCommandInQueue q" "uNumberOfRecoveryNodes q' = uNumberOfRecoveryNodes q"
    "bAwake q' = bAwake q" "cq_log q' = cq_log q"
  shows "cq_ok fly k q'"
  using assms ring_cong [OF assms(2,4,6)] by (simp add: cq_ok_def cq_abs_def ring_wf_def)

lemma cq_ok_upd [simp]:
  "cq_ok fly k (q\<lparr>hCmdMBox := m\<rparr>) = cq_ok fly k q" "cq_ok fly k (q\<lparr>state := s\<rparr>) = cq_ok fly k q"
  "cq_ok fly k (q\<lparr>bErrorFlag := b\<rparr>) = cq_ok fly k q" "cq_ok fly k (q\<lparr>bMboxEnabled := b\<rparr>) = cq_ok fly k q"
  "cq_ok fly k (q\<lparr>uCmdSendCounter := c\<rparr>) = cq_ok fly k q" "cq_ok fly k (q\<lparr>uCmdCompltCounter := c\<rparr>) = cq_ok fly k q"
  "cq_ok fly k (q\<lparr>fCmdCompleteCb := f, hCmdCompleteCb := h\<rparr>) = cq_ok fly k q"
  "cq_ok fly k (q\<lparr>hFailureCb := h, fFailureCb := f\<rparr>) = cq_ok fly k q"
  by (auto elim!: cq_ok_cong)

text \<open>
  The states between calls: a command is with the firmware exactly when there is one, the state
  machine waits for it, the mailbox is in use and the device is kept awake.
\<close>

definition cq_inv :: "nat \<Rightarrow> TCmdQueue \<Rightarrow> bool" where
  "cq_inv k q \<longleftrightarrow> cq_ok (uNumberOfCommandInQueue q \<noteq> 0) k q \<and>
     (state q = CMDQUEUE_STATE_WAIT_FOR_COMPLETION \<longleftrightarrow> uNumberOfCommandInQueue q \<noteq> 0) \<and>
     bAwake q = (uNumberOfCommandInQueue q \<noteq> 0) \<and> bCmdInProgress (hCmdMBox q) = (uNumberOfCommandInQueue q \<noteq> 0)"

text \<open>The states in which a completed command's callback runs.\<close>

definition cq_mid :: "nat \<Rightarrow> TCmdQueue \<Rightarrow> bool" where
  "cq_mid k q \<longleftrightarrow> cq_ok False k q \<and> state q = CMDQUEUE_STATE_WAIT_FOR_COMPLETION \<and> bAwake q \<and> \<not> bCmdInProgress (hCmdMBox q)"

lemma ring_put_ok:
  assumes "cq_ok fly k q" "uNumberOfCommandInQueue q \<noteq> 30"
  shows "cq_ok fly k (ring_put q t buf len f h p)"
proof -
  have wf: "ring_wf q" using assms(1) by (simp add: cq_ok_def)
  show ?thesis
    by (rule cq_ok_emit [OF assms(1), where e = "CqAccept (put_node q t buf len f h p)"])
      (use ring_put_ring [OF wf assms(2)] in \<open>simp_all add: cq_abs_def\<close>)
qed

lemma wake_up_ok:
  assumes "cq_ok fly k q"
  shows "cq_ok fly k (wake_up q)" "bAwake (wake_up q)"
proof -
  have wf: "ring_wf q" using assms by (simp add: cq_ok_def)
  have "cq_ok fly k ((cq_emit CqAwake q)\<lparr>bAwake := True\<rparr>)" if "\<not> bAwake q"
    by (rule cq_ok_emit [OF assms, where e = CqAwake])
      (use wf that in \<open>simp_all add: cq_abs_def cq_emit_def ring_wf_def ring_def\<close>)
  then show "cq_ok fly k (wake_up q)" "bAwake (wake_up q)" using assms by (simp_all add: wake_up_def)
qed

lemma wake_up_fields [simp]:
  "hCmdMBox (wake_up q) = hCmdMBox q" "state (wake_up q) = state q" "aCmdQueue (wake_up q) = aCmdQueue q"
  "head (wake_up q) = head q" "uNumberOfCommandInQueue (wake_up q) = uNumberOfCommandInQueue q"
  by (simp_all add: wake_up_def cq_emit_def)

lemma sm_run_ok:
  assumes "cq_ok False k q" "state q = CMDQUEUE_STATE_IDLE" "uNumberOfCommandInQueue q \<noteq> 0" "\<not> bCmdInProgress (hCmdMBox q)"
  shows "cq_inv k (snd (sm_run q))" "fst (sm_run q) = TXN_STATUS_PENDING"
    "uNumberOfCommandInQueue (snd (sm_run q)) = uNumberOfCommandInQueue q"
proof -
  define q1 where "q1 = q\<lparr>state := CMDQUEUE_STATE_WAIT_FOR_COMPLETION, uCmdSendCounter := uCmdSendCounter q + 1\<rparr>"
  define q2 where "q2 = wake_up q1"
  let ?n = "head_node q"
  obtain wlen rlen where l: "cmd_lens ?n = (wlen, rlen)" by force
  obtain rc m where s: "cmdMbox_SendCommand (hCmdMBox q) (cmdType ?n) (aParamsBuf ?n) wlen rlen = (rc, m)" by force
  have m: "rc = TXN_STATUS_PENDING" "bCmdInProgress m" using s assms(4) by (auto simp: cmdMbox_SendCommand_def Let_def mb_emit_def)
  let ?q3 = "q2\<lparr>hCmdMBox := m\<rparr>"
  have q1: "cq_ok False k q1" unfolding q1_def by (rule cq_ok_cong [OF assms(1)]) simp_all
  have q3: "cq_ok False k ?q3" "bAwake ?q3" using wake_up_ok [OF q1] by (simp_all add: q2_def)
  have f: "aCmdQueue ?q3 = aCmdQueue q" "head ?q3 = head q" "uNumberOfCommandInQueue ?q3 = uNumberOfCommandInQueue q"
    by (simp_all add: q2_def q1_def)
  have h: "hd (ring ?q3) = ?n" "ring ?q3 \<noteq> []"
    using ring_pop_ring(1) [of q] assms(1,3) ring_cong [OF f] by (simp_all add: cq_ok_def)
  then obtain ns where ns: "ring ?q3 = ?n # ns" by (cases "ring ?q3") auto
  have r: "sm_run q = (rc, cq_emit (CqSent ?n) ?q3)"
    using assms(2) l s m(1) by (simp add: sm_run_def Let_def q1_def [symmetric] q2_def [symmetric] head_node_def)
  have "cq_ok True k (cq_emit (CqSent ?n) ?q3)"
    by (rule cq_ok_emit [OF q3(1), where e = "CqSent ?n"])
      (use q3 ns in \<open>simp_all add: cq_abs_def cq_emit_def cq_ok_def ring_wf_def ring_def\<close>)
  then show "cq_inv k (snd (sm_run q))" unfolding r cq_inv_def using assms(3) m(2) q3(2)
    by (simp add: cq_emit_def f q2_def q1_def)
  show "fst (sm_run q) = TXN_STATUS_PENDING" "uNumberOfCommandInQueue (snd (sm_run q)) = uNumberOfCommandInQueue q"
    unfolding r using m(1) f(3) by (simp_all add: cq_emit_def)
qed

lemma Push_mid:
  assumes "cq_mid k q"
  shows "cq_mid k (snd (cmdQueue_Push q t buf len f h p))"
proof (cases "bMboxEnabled q \<and> uNumberOfCommandInQueue q \<noteq> 30")
  case True
  have "cq_mid k (ring_put q t buf len f h p)" using assms True by (simp add: cq_mid_def ring_put_ok)
  moreover have "state (ring_put q t buf len f h p) = CMDQUEUE_STATE_WAIT_FOR_COMPLETION" using assms by (simp add: cq_mid_def)
  ultimately show ?thesis using True by (simp add: cmdQueue_Push_def CMDQUEUE_QUEUE_DEPTH_def Let_def sm_run_def)
qed (use assms in \<open>auto simp: cmdQueue_Push_def CMDQUEUE_QUEUE_DEPTH_def\<close>)

lemma Push_inv:
  assumes "cq_inv k q"
  shows "cq_inv k (snd (cmdQueue_Push q t buf len f h p))"
proof (cases "bMboxEnabled q \<and> uNumberOfCommandInQueue q \<noteq> 30")
  case True
  let ?q = "ring_put q t buf len f h p" and ?n = "uNumberOfCommandInQueue q"
  have ok: "cq_ok (?n \<noteq> 0) k q" and wf: "ring_wf q" using assms by (simp_all add: cq_inv_def cq_ok_def)
  have n: "?n \<noteq> 30" using True by simp
  have u: "unat (?n + 1) = unat ?n + 1" by (rule ring_put_ring(3) [OF wf n])
  have z: "?n + 1 \<noteq> 0" using u by (metis add_is_0 one_neq_zero unat_0)
  show ?thesis
  proof (cases "?n = 0")
    case z0: True
    with ok have "cq_ok False k q" by simp
    then have "cq_ok False k ?q" using n by (rule ring_put_ok)
    moreover have "state ?q = CMDQUEUE_STATE_IDLE" "\<not> bCmdInProgress (hCmdMBox ?q)" "uNumberOfCommandInQueue ?q \<noteq> 0"
      using assms z0 by (auto simp: cq_inv_def intro: ECmdQueueSmStates.exhaust)
    ultimately have "cq_inv k (snd (sm_run ?q))" by (intro sm_run_ok(1))
    then show ?thesis using True z0 by (simp add: cmdQueue_Push_def CMDQUEUE_QUEUE_DEPTH_def Let_def)
  next
    case nz: False
    with ok have "cq_ok True k q" by simp
    then have "cq_ok True k ?q" using n by (rule ring_put_ok)
    then have "cq_inv k ?q" using assms nz z by (simp add: cq_inv_def)
    moreover have "?n + 1 \<noteq> 1" using nz by simp
    ultimately show ?thesis using True by (simp add: cmdQueue_Push_def CMDQUEUE_QUEUE_DEPTH_def Let_def)
  qed
qed (use assms in \<open>auto simp: cmdQueue_Push_def CMDQUEUE_QUEUE_DEPTH_def\<close>)

lemma call_mid: "cq_mid k q \<Longrightarrow> cq_mid k (cq_call q r)"
  using Push_mid by (cases r) (auto simp: cmdQueue_SendCommand_def cmdQueue_EnableMbox_def cmdQueue_DisableMbox_def cq_mid_def
      case_prod_beta Let_def)

lemma call_inv: "cq_inv k q \<Longrightarrow> cq_inv k (cq_call q r)"
  using Push_inv by (cases r) (auto simp: cmdQueue_SendCommand_def cmdQueue_EnableMbox_def cmdQueue_DisableMbox_def cq_inv_def
      case_prod_beta Let_def)

lemma calls_mid: "cq_mid k q \<Longrightarrow> cq_mid k (foldl cq_call q rs)"
  by (induction rs arbitrary: q) (simp_all add: call_mid)

lemma calls_inv: "cq_inv k q \<Longrightarrow> cq_inv k (foldl cq_call q rs)"
  by (induction rs arbitrary: q) (simp_all add: call_inv)

lemma cq_emit_fields [simp]:
  "hCmdMBox (cq_emit e q) = hCmdMBox q" "state (cq_emit e q) = state q" "bAwake (cq_emit e q) = bAwake q"
  "uNumberOfCommandInQueue (cq_emit e q) = uNumberOfCommandInQueue q" "cq_log (cq_emit e q) = cq_log q @ [e]"
  "ring (cq_emit e q) = ring q" "ring_wf (cq_emit e q) = ring_wf q" "aRecoveryQueue (cq_emit e q) = aRecoveryQueue q"
  "uNumberOfRecoveryNodes (cq_emit e q) = uNumberOfRecoveryNodes q" "cq_abs fly k (cq_emit e q) = cq_abs fly k q"
  by (simp_all add: cq_emit_def ring_def ring_wf_def cq_abs_def)

lemma sm_complete_ok:
  assumes "cq_ok (uNumberOfCommandInQueue q \<noteq> 0) k q"
    "state q = CMDQUEUE_STATE_WAIT_FOR_COMPLETION \<longleftrightarrow> uNumberOfCommandInQueue q \<noteq> 0"
    "bAwake q = (uNumberOfCommandInQueue q \<noteq> 0)" "\<not> bCmdInProgress (hCmdMBox q)"
  shows "cq_inv k (snd (sm_complete env q))"
proof (cases "state q")
  case CMDQUEUE_STATE_IDLE
  then have "uNumberOfCommandInQueue q = 0" using assms(2) by auto
  then show ?thesis using CMDQUEUE_STATE_IDLE assms by (simp add: sm_complete_def cq_inv_def)
next
  case CMDQUEUE_STATE_WAIT_FOR_COMPLETION
  then have n: "uNumberOfCommandInQueue q \<noteq> 0" using assms(2) by auto
  have wf: "ring_wf q" and okq: "cq_ok True k q" using assms(1) n by (simp_all add: cq_ok_def)
  obtain st err where rs: "result_status (hCmdMBox q) = (st, err)" by force
  define q1 where "q1 = (ring_pop q)\<lparr>uCmdCompltCounter := uCmdCompltCounter (ring_pop q) + 1, bErrorFlag := err\<rparr>"
  define e where "e = CqDone (head_node q) st (cb_of q1 (head_node q))"
  have r1: "ring q1 = ring (ring_pop q)" "ring_wf q1" using ring_pop_ring(2) [OF wf n] by (simp_all add: q1_def ring_def ring_wf_def)
  have f1: "state q1 = state q" "bAwake q1 = bAwake q" "hCmdMBox q1 = hCmdMBox q" "cq_log q1 = cq_log q"
    "aRecoveryQueue q1 = aRecoveryQueue q" "uNumberOfRecoveryNodes q1 = uNumberOfRecoveryNodes q" by (simp_all add: q1_def)
  have "cq_ok False k (cq_emit e q1)"
    by (rule cq_ok_emit [OF okq, where e = e])
      (use r1 f1 ring_pop_ring(1) [OF wf n] in \<open>simp_all add: e_def cq_abs_def\<close>)
  then have mid: "cq_mid k (cq_emit e q1)" using CMDQUEUE_STATE_WAIT_FOR_COMPLETION assms(3,4) n f1 by (simp add: cq_mid_def)
  define q2 where "q2 = (if cb_of q1 (head_node q) = CbNone then cq_emit e q1 else cq_callback env e q1)"
  have m2: "cq_mid k q2" unfolding q2_def cq_callback_def Let_def using mid calls_mid [OF mid] by simp
  have r: "sm_complete env q = (if uNumberOfCommandInQueue q2 > 0 then sm_run (q2\<lparr>state := CMDQUEUE_STATE_IDLE\<rparr>)
      else (TI_OK, (cq_emit CqSleep q2)\<lparr>bAwake := False, state := CMDQUEUE_STATE_IDLE\<rparr>))"
    unfolding q2_def e_def using CMDQUEUE_STATE_WAIT_FOR_COMPLETION rs by (simp add: sm_complete_def Let_def q1_def)
  show ?thesis
  proof (cases "uNumberOfCommandInQueue q2 = 0")
    case True
    have "cq_ok False k ((cq_emit CqSleep q2)\<lparr>bAwake := False, state := CMDQUEUE_STATE_IDLE\<rparr>)"
      by (rule cq_ok_emit [where e = CqSleep and fly = False and k = k and q = q2])
        (use m2 True ring_Nil [of q2] in \<open>simp_all add: cq_mid_def cq_abs_def cq_ok_def ring_wf_def ring_def cq_emit_def\<close>)
    then show ?thesis unfolding r using True m2 by (simp add: cq_inv_def cq_mid_def)
  next
    case False
    have "cq_inv k (snd (sm_run (q2\<lparr>state := CMDQUEUE_STATE_IDLE\<rparr>)))"
      by (rule sm_run_ok(1)) (use m2 False in \<open>simp_all add: cq_mid_def\<close>)
    then show ?thesis unfolding r using False by (simp add: word_gt_0)
  qed
qed

lemma TransferComplete_inv:
  assumes "cq_inv k q"
  shows "cq_inv k (snd (cmdMbox_TransferComplete env q c))"
  using assms sm_complete_ok [of "q\<lparr>hCmdMBox := mbox_release (mbox_answer c (hCmdMBox q))\<rparr>" k env]
  by (simp add: cmdMbox_TransferComplete_def cmdQueue_ResultReceived_def cmdQueue_SM_def Let_def cq_inv_def mbox_release_def)

lemma inv_mbox:
  assumes "cq_inv k q" "bCmdInProgress m = bCmdInProgress (hCmdMBox q)"
  shows "cq_inv k (q\<lparr>hCmdMBox := m\<rparr>)"
  using assms by (simp add: cq_inv_def)

lemma CommandComplete_inv:
  assumes "cq_inv k q"
  shows "cq_inv k (snd (cmdMbox_CommandComplete env q rc c))"
proof -
  have "cq_inv k (q\<lparr>hCmdMBox := mbox_read (hCmdMBox q)\<rparr>)" by (rule inv_mbox [OF assms]) (simp add: mbox_read_def mb_emit_def)
  then show ?thesis using TransferComplete_inv by (simp add: cmdMbox_CommandComplete_def Let_def)
qed

lemma restart_loop_fields [simp]:
  "aCmdQueue (restart_loop k i q) = aCmdQueue q" "head (restart_loop k i q) = head q" "tail (restart_loop k i q) = tail q"
  "uNumberOfCommandInQueue (restart_loop k i q) = uNumberOfCommandInQueue q" "cq_log (restart_loop k i q) = cq_log q"
  "state (restart_loop k i q) = state q" "bAwake (restart_loop k i q) = bAwake q" "hCmdMBox (restart_loop k i q) = hCmdMBox q"
  "length (aRecoveryQueue (restart_loop k i q)) = length (aRecoveryQueue q)"
  by (induction k arbitrary: i q) (simp_all add: Let_def)

lemma restart_loop_saved:
  assumes "unat i < 30" "unat (uNumberOfRecoveryNodes q) + k \<le> 30" "length (aRecoveryQueue q) = 30"
  shows "unat (uNumberOfRecoveryNodes (restart_loop k i q)) \<le> unat (uNumberOfRecoveryNodes q) + k"
    "take (unat (uNumberOfRecoveryNodes (restart_loop k i q))) (aRecoveryQueue (restart_loop k i q)) =
      take (unat (uNumberOfRecoveryNodes q)) (aRecoveryQueue q) @
      map rec_of (filter (\<lambda>n. fCb n \<noteq> NULL) (map (\<lambda>j. aCmdQueue q ! ((unat i + j) mod 30)) [0..<k]))"
proof -
  have "unat (uNumberOfRecoveryNodes (restart_loop k i q)) \<le> unat (uNumberOfRecoveryNodes q) + k \<and>
    take (unat (uNumberOfRecoveryNodes (restart_loop k i q))) (aRecoveryQueue (restart_loop k i q)) =
      take (unat (uNumberOfRecoveryNodes q)) (aRecoveryQueue q) @
      map rec_of (filter (\<lambda>n. fCb n \<noteq> NULL) (map (\<lambda>j. aCmdQueue q ! ((unat i + j) mod 30)) [0..<k]))"
    using assms
  proof (induction k arbitrary: i q)
    case (Suc k)
    let ?n = "aCmdQueue q ! unat i" and ?c = "uNumberOfRecoveryNodes q"
    define q1 where "q1 = (if fCb ?n \<noteq> NULL then q\<lparr>aRecoveryQueue := (aRecoveryQueue q)[unat ?c := rec_of ?n],
      uNumberOfRecoveryNodes := ?c + 1\<rparr> else q)"
    let ?i = "if i + 1 = 30 then 0 else i + 1"
    have i: "unat ?i = (unat i + 1) mod 30" using unat_next30(1) [OF Suc.prems(1)] .
    have c: "unat (?c + 1) = unat ?c + 1" using Suc.prems(2) by (simp add: unat_word_ariths)
    have step: "restart_loop (Suc k) i q = restart_loop k ?i q1"
      by (simp add: q1_def rec_of_def CMDQUEUE_QUEUE_DEPTH_def Let_def)
    have q1: "unat (uNumberOfRecoveryNodes q1) \<le> unat ?c + 1" "length (aRecoveryQueue q1) = 30" "aCmdQueue q1 = aCmdQueue q"
      "take (unat (uNumberOfRecoveryNodes q1)) (aRecoveryQueue q1) = take (unat ?c) (aRecoveryQueue q) @ map rec_of (filter (\<lambda>n. fCb n \<noteq> NULL) [?n])"
      using Suc.prems(2,3) c by (simp_all add: q1_def take_Suc_conv_app_nth)
    have "unat ?i < 30" using i by simp
    note IH = Suc.IH [OF this, of q1]
    have idx: "(unat i + Suc j) mod 30 = (unat ?i + j) mod 30" for j
      unfolding i by (simp add: mod_add_left_eq)
    have split: "map (\<lambda>j. aCmdQueue q ! ((unat i + j) mod 30)) [0..<Suc k] = ?n # map (\<lambda>j. aCmdQueue q ! ((unat ?i + j) mod 30)) [0..<k]"
      unfolding idx [symmetric] using Suc.prems(1) by (simp add: upt_conv_Cons map_Suc_upt [symmetric] del: upt_Suc)
    show ?case unfolding step split using IH q1 Suc.prems(2) by simp
  qed simp
  then show "unat (uNumberOfRecoveryNodes (restart_loop k i q)) \<le> unat (uNumberOfRecoveryNodes q) + k"
    "take (unat (uNumberOfRecoveryNodes (restart_loop k i q))) (aRecoveryQueue (restart_loop k i q)) =
      take (unat (uNumberOfRecoveryNodes q)) (aRecoveryQueue q) @
      map rec_of (filter (\<lambda>n. fCb n \<noteq> NULL) (map (\<lambda>j. aCmdQueue q ! ((unat i + j) mod 30)) [0..<k]))" by blast+
qed

lemma cq_call_recovery [simp]:
  "aRecoveryQueue (cq_call q r) = aRecoveryQueue q" "uNumberOfRecoveryNodes (cq_call q r) = uNumberOfRecoveryNodes q"
proof -
  have w: "aRecoveryQueue (wake_up q) = aRecoveryQueue q" "uNumberOfRecoveryNodes (wake_up q) = uNumberOfRecoveryNodes q" for q
    by (simp_all add: wake_up_def cq_emit_def)
  have s: "aRecoveryQueue (snd (sm_run q)) = aRecoveryQueue q" "uNumberOfRecoveryNodes (snd (sm_run q)) = uNumberOfRecoveryNodes q" for q
    by (simp_all add: sm_run_def Let_def case_prod_beta w split: ECmdQueueSmStates.split)
  show "aRecoveryQueue (cq_call q r) = aRecoveryQueue q" "uNumberOfRecoveryNodes (cq_call q r) = uNumberOfRecoveryNodes q"
    by (cases r, simp_all add: cmdQueue_SendCommand_def cmdQueue_Push_def cmdQueue_EnableMbox_def cmdQueue_DisableMbox_def
        case_prod_beta Let_def s)+
qed

lemma cq_calls_recovery [simp]:
  "aRecoveryQueue (foldl cq_call q rs) = aRecoveryQueue q" "uNumberOfRecoveryNodes (foldl cq_call q rs) = uNumberOfRecoveryNodes q"
  by (induction rs arbitrary: q) simp_all

lemma callback_recovery [simp]:
  "aRecoveryQueue (cq_callback env e q) = aRecoveryQueue q" "uNumberOfRecoveryNodes (cq_callback env e q) = uNumberOfRecoveryNodes q"
  by (simp_all add: cq_callback_def Let_def)

text \<open>\<open>TWD_Stop\<close> restarts the mailbox, then the queue, and disables the mailbox.\<close>

definition cq_stop :: "TCmdQueue \<Rightarrow> TCmdQueue" where
  "cq_stop q = snd (cmdQueue_DisableMbox (snd (cmdQueue_Restart (q\<lparr>hCmdMBox := snd (cmdMbox_Restart (hCmdMBox q))\<rparr>))))"

lemma stop_inv:
  assumes "cq_inv 0 q"
  shows "cq_inv 0 (cq_stop q)"
proof -
  let ?m = "snd (cmdMbox_Restart (hCmdMBox q))"
  let ?q1 = "q\<lparr>hCmdMBox := ?m, state := CMDQUEUE_STATE_IDLE, bAwake := False, uNumberOfRecoveryNodes := 0\<rparr>"
  let ?q2 = "restart_loop (unat (uNumberOfCommandInQueue q)) (head q) ?q1"
  let ?q3 = "?q2\<lparr>head := 0, tail := 0, uNumberOfCommandInQueue := 0\<rparr>"
  have ok: "cq_ok (uNumberOfCommandInQueue q \<noteq> 0) 0 q" and wf: "ring_wf q" using assms by (simp_all add: cq_inv_def cq_ok_def)
  have p: "unat (head q) < 30" "unat (uNumberOfRecoveryNodes ?q1) + unat (uNumberOfCommandInQueue q) \<le> 30" "length (aRecoveryQueue ?q1) = 30"
    using wf by (simp_all add: ring_wf_def)
  note s = restart_loop_saved [OF p]
  have wf3: "ring_wf ?q3" using wf s(1) by (simp add: ring_wf_def)
  have "cq_ok False 0 (cq_emit CqRestart ?q3)"
    by (rule cq_ok_emit [OF ok, where e = CqRestart])
      (use wf3 s(2) in \<open>simp_all add: cq_abs_def ring_def\<close>)
  moreover have "cq_stop q = (cq_emit CqRestart ?q3)\<lparr>bMboxEnabled := False\<rparr>"
    by (simp add: cq_stop_def cmdQueue_DisableMbox_def cmdQueue_Restart_def Let_def)
  moreover have "\<not> bCmdInProgress ?m" by (simp add: cmdMbox_Restart_def)
  ultimately show ?thesis by (simp add: cq_inv_def)
qed

definition recover_one :: "cq_env \<Rightarrow> nat \<Rightarrow> TCmdQueue \<Rightarrow> TCmdQueue" where
  "recover_one env i q = cq_callback env (CqRecover (aRecoveryQueue q ! i) CMD_STATUS_FW_RESET) q"

lemma recover_one_recovery: "uNumberOfRecoveryNodes (recover_one env k q) = uNumberOfRecoveryNodes q"
  by (simp add: recover_one_def)

lemma recover_one_inv:
  assumes "cq_inv k q" "k < unat (uNumberOfRecoveryNodes q)"
  shows "cq_inv (Suc k) (recover_one env k q)"
proof -
  let ?e = "CqRecover (aRecoveryQueue q ! k) CMD_STATUS_FW_RESET" and ?n = "unat (uNumberOfRecoveryNodes q)"
  have ok: "cq_ok (uNumberOfCommandInQueue q \<noteq> 0) k q" and wf: "ring_wf q" using assms by (simp_all add: cq_inv_def cq_ok_def)
  have "k < length (take ?n (aRecoveryQueue q))" using assms(2) wf by (simp add: ring_wf_def)
  then have d: "drop k (take ?n (aRecoveryQueue q)) = aRecoveryQueue q ! k # drop (Suc k) (take ?n (aRecoveryQueue q))"
    using Cons_nth_drop_Suc [of k "take ?n (aRecoveryQueue q)"] by simp
  have "cq_ok (uNumberOfCommandInQueue q \<noteq> 0) (Suc k) (cq_emit ?e q)"
    by (rule cq_ok_emit [OF ok, where e = ?e]) (use wf d in \<open>simp_all add: cq_abs_def\<close>)
  then have "cq_inv (Suc k) (cq_emit ?e q)" using assms(1) by (simp add: cq_inv_def)
  then show ?thesis unfolding recover_one_def cq_callback_def Let_def by (rule calls_inv)
qed

lemma recover_fold_inv:
  assumes "cq_inv 0 q" "k \<le> unat (uNumberOfRecoveryNodes q)"
  shows "cq_inv k (fold (recover_one env) [0..<k] q) \<and>
    uNumberOfRecoveryNodes (fold (recover_one env) [0..<k] q) = uNumberOfRecoveryNodes q"
  using assms
proof (induction k)
  case (Suc k)
  then have IH: "cq_inv k (fold (recover_one env) [0..<k] q)"
    "uNumberOfRecoveryNodes (fold (recover_one env) [0..<k] q) = uNumberOfRecoveryNodes q" by simp_all
  then show ?case using recover_one_inv [OF IH(1)] Suc.prems(2) by (simp add: recover_one_recovery)
qed simp

lemma EndReconfig_inv:
  assumes "cq_inv 0 q"
  shows "cq_inv 0 (snd (cmdQueue_EndReconfig env q))"
proof -
  let ?n = "unat (uNumberOfRecoveryNodes q)"
  let ?q = "fold (recover_one env) [0..<?n] q"
  have i: "cq_inv ?n ?q" "uNumberOfRecoveryNodes ?q = uNumberOfRecoveryNodes q" using recover_fold_inv [OF assms, of ?n env] by simp_all
  have "cq_ok b 0 (?q\<lparr>uNumberOfRecoveryNodes := 0\<rparr>) = cq_ok b ?n ?q" for b
    using i unfolding cq_ok_def by (auto simp: cq_inv_def cq_ok_def cq_abs_def ring_wf_def ring_def)
  then have "cq_inv 0 (?q\<lparr>uNumberOfRecoveryNodes := 0\<rparr>)" using i(1) by (simp add: cq_inv_def)
  then show ?thesis by (simp add: cmdQueue_EndReconfig_def Let_def recover_one_def [abs_def])
qed

lemma failure_inv:
  assumes "cq_inv k q"
  shows "cq_inv k (cq_emit CqFailure q)"
proof -
  have ok: "cq_ok (uNumberOfCommandInQueue q \<noteq> 0) k q" and wf: "ring_wf q" using assms by (simp_all add: cq_inv_def cq_ok_def)
  have "cq_ok (uNumberOfCommandInQueue q \<noteq> 0) k (cq_emit CqFailure q)"
    by (rule cq_ok_emit [OF ok, where e = CqFailure]) (use wf in simp_all)
  then show ?thesis using assms by (simp add: cq_inv_def)
qed

lemma Error_inv: "cq_inv k q \<Longrightarrow> cq_inv k (snd (cmdQueue_Error q st))"
  by (simp add: cmdQueue_Error_def failure_inv)

lemma timeout_inv:
  assumes "cq_inv k q"
  shows "cq_inv k (mbox_timeout q)"
proof -
  have "cq_inv k (q\<lparr>hCmdMBox := cmdMbox_TimeOut (hCmdMBox q)\<rparr>)"
    by (rule inv_mbox [OF assms]) (simp add: cmdMbox_TimeOut_def mb_emit_def)
  then show ?thesis by (simp add: mbox_timeout_def Let_def Error_inv)
qed

end
