(* ===== verification/Wlan_CmdRun.thy ===== *)
theory Wlan_CmdRun
  imports Wlan_CmdQueue
begin

text \<open>
  The command queue over its life: the reachable states under any sequence of calls, answers of the firmware, timeouts,
  restarts and recoveries, and the properties that hold in all of them.
\<close>

section \<open>Reachable states\<close>

definition cq_init :: "TCmdQueue \<Rightarrow> bool" where
  "cq_init q \<longleftrightarrow> (\<exists>mem m errCb timer q0. cmdQueue_Create mem m = Some q0 \<and> q = snd (cmdQueue_Init q0 m errCb timer))"

text \<open>
  The firmware's answer and what the callbacks do are arbitrary, and an interrupt may come without a command. \<open>mbox\<close> stands for
  the configuration of the mailbox address.
\<close>

inductive cq_step :: "TCmdQueue \<Rightarrow> TCmdQueue \<Rightarrow> bool" where
  step_send: "cq_step q (snd (cmdQueue_SendCommand q t buf len f h p))"
| step_complete: "cq_step q (snd (cmdMbox_CommandComplete env q rc c))"
| step_transfer: "cq_step q (snd (cmdMbox_TransferComplete env q c))"
| step_timeout: "cq_step q (mbox_timeout q)"
| step_error: "cq_step q (snd (cmdQueue_Error q st))"
| step_stop: "cq_step q (cq_stop q)"
| step_enable: "cq_step q (snd (cmdQueue_EnableMbox q))"
| step_disable: "cq_step q (snd (cmdQueue_DisableMbox q))"
| step_reconfig: "cq_step q (snd (cmdQueue_EndReconfig env q))"
| step_generic: "cq_step q (snd (cmdQueue_RegisterCmdCompleteGenericCb q f h))"
| step_failure: "cq_step q (snd (cmdQueue_RegisterForErrorCb q f h))"
| step_config: "cq_step q (q\<lparr>hCmdMBox := snd (cmdMbox_ConfigHw (hCmdMBox q) f h rc v)\<rparr>)"
| step_configured: "cq_step q (q\<lparr>hCmdMBox := cmdMbox_ConfigHwCb (hCmdMBox q)\<rparr>)"

lemma init_inv:
  assumes "cq_init q"
  shows "cq_inv 0 q"
proof -
  obtain mem m errCb timer q0 where q0: "cmdQueue_Create mem m = Some q0" and q: "q = snd (cmdQueue_Init q0 m errCb timer)"
    using assms by (auto simp: cq_init_def)
  have f: "length (aCmdQueue q) = 30" "length (aRecoveryQueue q) = 30" "head q = 0" "tail q = 0" "uNumberOfCommandInQueue q = 0"
    "uNumberOfRecoveryNodes q = 0" "cq_log q = []" "bAwake q = False" "state q = CMDQUEUE_STATE_IDLE" "bCmdInProgress (hCmdMBox q) = False"
    using q0 by (auto simp: q cmdQueue_Init_def cmdQueue_Create_def CMDQUEUE_QUEUE_DEPTH_def cmdMbox_Init_def Let_def split: if_splits)
  have "ring_wf q" "cq_abs False 0 q = cq_spec_init" using f by (simp_all add: ring_wf_def cq_abs_def cq_spec_init_def ring_def)
  then show ?thesis using f by (simp add: cq_inv_def cq_ok_def)
qed

lemma register_inv:
  assumes "cq_inv k q"
  shows "cq_inv k (snd (cmdQueue_RegisterCmdCompleteGenericCb q f h))" "cq_inv k (snd (cmdQueue_RegisterForErrorCb q f h))"
  using assms by (simp_all add: cmdQueue_RegisterCmdCompleteGenericCb_def cmdQueue_RegisterForErrorCb_def cq_inv_def)

lemma step_inv:
  assumes "cq_inv 0 q" "cq_step q q'"
  shows "cq_inv 0 q'"
  using assms(2)
proof cases
  case (step_send t buf len f h p)
  then show ?thesis using call_inv [OF assms(1), of "CqSend t buf len f h p"] by simp
next
  case step_config
  then show ?thesis using inv_mbox [OF assms(1)] by (simp add: cmdMbox_ConfigHw_def mb_emit_def Let_def)
next
  case step_configured
  then show ?thesis using inv_mbox [OF assms(1)] by (simp add: cmdMbox_ConfigHwCb_def mb_emit_def)
qed (use call_inv [OF assms(1), of CqEnable] call_inv [OF assms(1), of CqDisable] in
    \<open>simp_all add: assms(1) CommandComplete_inv TransferComplete_inv timeout_inv Error_inv stop_inv EndReconfig_inv register_inv\<close>)

interpretation cmdq: state_invariant cq_init cq_step "cq_inv 0"
  by unfold_locales (fact init_inv, fact step_inv)

definition cx0 :: TCmdQueue where
  "cx0 = snd (cmdQueue_EnableMbox (snd (cmdQueue_Init (the (cmdQueue_Create 0x1000 mbox_ex)) mbox_ex 0x2000 0x3000)))"
definition cx1 :: TCmdQueue where "cx1 = snd (cmdQueue_SendCommand cx0 2 [1, 2, 3, 4] 4 0x5000 0x5004 NULL)"
definition cx2 :: TCmdQueue where "cx2 = snd (cmdQueue_SendCommand cx1 3 [9, 8] 2 0x6000 0x6004 NULL)"

lemma cx2_eval: "map cmdType (ring cx2) = [2, 3]" by code_simp

section \<open>What the steps do\<close>

lemma sm_run_fields [simp]:
  "aCmdQueue (snd (sm_run q)) = aCmdQueue q" "head (snd (sm_run q)) = head q" "tail (snd (sm_run q)) = tail q"
  "uNumberOfCommandInQueue (snd (sm_run q)) = uNumberOfCommandInQueue q" "bErrorFlag (snd (sm_run q)) = bErrorFlag q"
  "bMboxEnabled (snd (sm_run q)) = bMboxEnabled q" "ring (snd (sm_run q)) = ring q"
proof -
  have w: "tail (wake_up q) = tail q" "bErrorFlag (wake_up q) = bErrorFlag q" "bMboxEnabled (wake_up q) = bMboxEnabled q" for q
    by (simp_all add: wake_up_def cq_emit_def)
  show f: "aCmdQueue (snd (sm_run q)) = aCmdQueue q" "head (snd (sm_run q)) = head q" "tail (snd (sm_run q)) = tail q"
    "uNumberOfCommandInQueue (snd (sm_run q)) = uNumberOfCommandInQueue q" "bErrorFlag (snd (sm_run q)) = bErrorFlag q"
    "bMboxEnabled (snd (sm_run q)) = bMboxEnabled q"
    by (simp_all add: sm_run_def Let_def case_prod_beta w cq_emit_def split: ECmdQueueSmStates.split)
  show "ring (snd (sm_run q)) = ring q" by (rule ring_cong) (fact f)+
qed

lemma sm_run_sends:
  assumes "state q = CMDQUEUE_STATE_IDLE" "\<not> bCmdInProgress (hCmdMBox q)"
  shows "cq_log (snd (sm_run q)) = cq_log q @ (if bAwake q then [] else [CqAwake]) @ [CqSent (head_node q)]"
    "fst (sm_run q) = TXN_STATUS_PENDING"
  using assms by (simp_all add: sm_run_def Let_def case_prod_beta cmdMbox_SendCommand_def wake_up_def cq_emit_def head_node_def)

lemma ring_put_head:
  assumes "ring_wf q" "uNumberOfCommandInQueue q = 0"
  shows "head_node (ring_put q t buf len f h p) = put_node q t buf len f h p"
proof -
  have n: "uNumberOfCommandInQueue q \<noteq> 30" using assms(2) by simp
  note r = ring_put_ring(1,2) [OF assms(1) n, of t buf len f h p]
  have "uNumberOfCommandInQueue (ring_put q t buf len f h p) \<noteq> 0" using assms(2) by simp
  from ring_pop_ring(1) [OF r(2) this] r(1) show ?thesis using assms(2) ring_Nil [of q] by simp
qed

lemma SendCommand_accepts:
  fixes t buf len f h p
  assumes "cq_inv k q" "\<not> bErrorFlag q" "bMboxEnabled q" "length (ring q) \<noteq> 30"
  defines "n \<equiv> put_node q t buf len f h p" and "r \<equiv> cmdQueue_SendCommand q t buf len f h p"
  shows "fst r = TI_OK" "ring (snd r) = ring q @ [n]" "cq_log (snd r) = cq_log q @ CqAccept n # (if ring q = [] then [CqAwake, CqSent n] else [])"
proof -
  let ?p = "ring_put q t buf len f h p"
  have wf: "ring_wf q" and aw: "bAwake q = (uNumberOfCommandInQueue q \<noteq> 0)" "bCmdInProgress (hCmdMBox q) = (uNumberOfCommandInQueue q \<noteq> 0)"
    "(state q = CMDQUEUE_STATE_WAIT_FOR_COMPLETION) = (uNumberOfCommandInQueue q \<noteq> 0)" using assms(1) by (simp_all add: cq_inv_def cq_ok_def)
  have n30: "uNumberOfCommandInQueue q \<noteq> 30" using assms(4) by auto
  have r: "r = (if uNumberOfCommandInQueue q = 0 then (RC_CONVERT (fst (sm_run ?p)), snd (sm_run ?p)) else (TI_OK, ?p))"
    unfolding r_def using assms(2,3) n30
    by (simp add: cmdQueue_SendCommand_def cmdQueue_Push_def CMDQUEUE_QUEUE_DEPTH_def Let_def case_prod_beta del: RC_CONVERT.simps)
      (simp)
  have ring: "ring ?p = ring q @ [n]" unfolding n_def by (rule ring_put_ring(1) [OF wf n30])
  show "ring (snd r) = ring q @ [n]" unfolding r using ring by simp
  have "fst r = TI_OK \<and> cq_log (snd r) = cq_log q @ CqAccept n # (if ring q = [] then [CqAwake, CqSent n] else [])"
  proof (cases "uNumberOfCommandInQueue q = 0")
    case True
    have "state ?p = CMDQUEUE_STATE_IDLE" "\<not> bCmdInProgress (hCmdMBox ?p)" "\<not> bAwake ?p"
      using aw True by (auto intro: ECmdQueueSmStates.exhaust [of "state q"])
    then show ?thesis unfolding r n_def using True sm_run_sends [of ?p] ring_put_head [OF wf True] ring_Nil [of q] by simp
  next
    case False
    then show ?thesis unfolding r n_def using ring_Nil [of q] by simp
  qed
  then show "fst r = TI_OK" "cq_log (snd r) = cq_log q @ CqAccept n # (if ring q = [] then [CqAwake, CqSent n] else [])" by blast+
qed

text \<open>The commands that the log reports as completed, and the callbacks that recovery has called.\<close>

definition completed :: "cq_ev list \<Rightarrow> TCmdQueueNode list" where
  "completed es = concat (map (\<lambda>e. case e of CqDone n _ _ \<Rightarrow> [n] | _ \<Rightarrow> []) es)"

definition recovered :: "cq_ev list \<Rightarrow> (TCmdQueueRecoveryNode \<times> u16) list" where
  "recovered es = concat (map (\<lambda>e. case e of CqRecover r st \<Rightarrow> [(r, st)] | _ \<Rightarrow> []) es)"

lemma completed_simps [simp]:
  "completed [] = []" "completed (CqDone n st k # es) = n # completed es" "completed (CqSleep # es) = completed es"
  "completed (CqSent n # es) = completed es" "completed (es @ fs) = completed es @ completed fs"
  by (simp_all add: completed_def)

lemma recovered_simps [simp]:
  "recovered [] = []" "recovered (CqRecover r st # es) = (r, st) # recovered es" "recovered (CqAccept n # es) = recovered es"
  "recovered (CqSent n # es) = recovered es" "recovered (CqAwake # es) = recovered es" "recovered (CqRestart # es) = recovered es"
  "recovered (es @ fs) = recovered es @ recovered fs"
  by (simp_all add: recovered_def)

text \<open>Callbacks that call nothing.\<close>

definition silent :: cq_env where "silent q e = []"

lemma callback_silent [simp]: "cq_callback silent e q = cq_emit e q"
  by (simp add: cq_callback_def silent_def Let_def)

lemma ring_upd [simp]:
  "ring (q\<lparr>state := s\<rparr>) = ring q" "ring (q\<lparr>bAwake := b\<rparr>) = ring q" "ring (q\<lparr>hCmdMBox := mb\<rparr>) = ring q"
  by (simp_all add: ring_def)

lemma sm_complete_silent:
  fixes m
  assumes "cq_inv k q" "ring q = n # ns"
  defines "q' \<equiv> snd (sm_complete silent (q\<lparr>hCmdMBox := mbox_release m\<rparr>))"
  shows "ring q' = ns" "completed (cq_log q') = completed (cq_log q) @ [n]"
proof -
  have wf: "ring_wf q" and st: "(state q = CMDQUEUE_STATE_WAIT_FOR_COMPLETION) = (uNumberOfCommandInQueue q \<noteq> 0)"
    and aw: "bAwake q = (uNumberOfCommandInQueue q \<noteq> 0)" using assms(1) by (simp_all add: cq_inv_def cq_ok_def)
  have nz: "uNumberOfCommandInQueue q \<noteq> 0" using assms(2) ring_Nil [of q] by auto
  then have w: "state q = CMDQUEUE_STATE_WAIT_FOR_COMPLETION" using st by simp
  have n: "n = head_node q" "ns = ring (ring_pop q)" using ring_pop_ring(1) [OF wf nz] assms(2) by simp_all
  let ?q1 = "(ring_pop (q\<lparr>hCmdMBox := mbox_release m\<rparr>))"
  obtain cs err where rs: "result_status (mbox_release m) = (cs, err)" by force
  define q1 where "q1 = ?q1\<lparr>uCmdCompltCounter := uCmdCompltCounter ?q1 + 1, bErrorFlag := err\<rparr>"
  define e where "e = CqDone n cs (cb_of q1 n)"
  have h: "head_node (q\<lparr>hCmdMBox := mbox_release m\<rparr>) = n" by (simp add: n head_node_def)
  have q': "q' = (if uNumberOfCommandInQueue q1 > 0 then snd (sm_run ((cq_emit e q1)\<lparr>state := CMDQUEUE_STATE_IDLE\<rparr>))
      else (cq_emit CqSleep (cq_emit e q1))\<lparr>bAwake := False, state := CMDQUEUE_STATE_IDLE\<rparr>)"
    unfolding q'_def e_def using w rs by (simp add: sm_complete_def Let_def q1_def h)
  have f1: "bAwake q1" "\<not> bCmdInProgress (hCmdMBox q1)" "cq_log q1 = cq_log q" "ring q1 = ring (ring_pop q)"
    using aw nz by (simp_all add: q1_def mbox_release_def ring_def)
  show "ring q' = ns" unfolding q' n(2) by (simp add: f1(4))
  show "completed (cq_log q') = completed (cq_log q) @ [n]"
    unfolding q' using f1 by (simp add: sm_run_sends e_def)
qed

definition cq_answer :: "TCmdQueue \<Rightarrow> Command_t \<Rightarrow> TCmdQueue" where
  "cq_answer q c = snd (cmdMbox_CommandComplete silent q TXN_STATUS_COMPLETE c)"

lemma answer_serves:
  assumes "cq_inv k q" "ring q = n # ns"
  shows "ring (cq_answer q c) = ns" "completed (cq_log (cq_answer q c)) = completed (cq_log q) @ [n]" "cq_inv k (cq_answer q c)"
proof -
  have a: "cq_answer q c = snd (sm_complete silent (q\<lparr>hCmdMBox := mbox_release (mbox_answer c (mbox_read (hCmdMBox q)))\<rparr>))"
    by (simp add: cq_answer_def cmdMbox_CommandComplete_def cmdMbox_TransferComplete_def cmdQueue_ResultReceived_def cmdQueue_SM_def Let_def)
  show "ring (cq_answer q c) = ns" "completed (cq_log (cq_answer q c)) = completed (cq_log q) @ [n]"
    unfolding a by (rule sm_complete_silent [OF assms])+
  show "cq_inv k (cq_answer q c)" unfolding cq_answer_def by (rule CommandComplete_inv [OF assms(1)])
qed

lemma answers_serve:
  assumes "cq_inv k q" "length cs \<le> length (ring q)"
  shows "ring (foldl cq_answer q cs) = drop (length cs) (ring q) \<and>
    completed (cq_log (foldl cq_answer q cs)) = completed (cq_log q) @ take (length cs) (ring q) \<and> cq_inv k (foldl cq_answer q cs)"
  using assms
proof (induction cs arbitrary: q)
  case (Cons c cs)
  then obtain n ns where ns: "ring q = n # ns" by (cases "ring q") auto
  note s = answer_serves [OF Cons.prems(1) ns, of c]
  have "length cs \<le> length (ring (cq_answer q c))" using Cons.prems(2) unfolding ns s(1) by simp
  with Cons.IH [OF s(3) this] s ns show ?case by simp
qed simp

section \<open>The error flag and recovery\<close>

text \<open>A queue that is empty with its error flag set.\<close>

definition cq_dead :: "TCmdQueue \<Rightarrow> bool" where
  "cq_dead q \<longleftrightarrow> bErrorFlag q \<and> uNumberOfCommandInQueue q = 0 \<and> state q = CMDQUEUE_STATE_IDLE"

lemma dead_upd [simp]:
  "cq_dead (q\<lparr>hCmdMBox := m\<rparr>) = cq_dead q" "cq_dead (cq_emit e q) = cq_dead q" "cq_dead (q\<lparr>bMboxEnabled := b\<rparr>) = cq_dead q"
  "cq_dead (q\<lparr>uNumberOfRecoveryNodes := c\<rparr>) = cq_dead q"
  by (simp_all add: cq_dead_def cq_emit_def)

lemma dead_refuses: "cq_dead q \<Longrightarrow> cmdQueue_SendCommand q t buf len f h p = (TI_NOK, q)"
  by (simp add: cq_dead_def cmdQueue_SendCommand_def)

lemma dead_call: "cq_dead q \<Longrightarrow> cq_dead (cq_call q r)"
  by (cases r) (simp_all add: dead_refuses cmdQueue_EnableMbox_def cmdQueue_DisableMbox_def)

lemma dead_callback: "cq_dead q \<Longrightarrow> cq_dead (cq_callback env e q)"
proof -
  have "cq_dead q \<Longrightarrow> cq_dead (foldl cq_call q rs)" for rs q by (induction rs arbitrary: q) (simp_all add: dead_call)
  then show "cq_dead q \<Longrightarrow> cq_dead (cq_callback env e q)" by (simp add: cq_callback_def Let_def)
qed

lemma dead_transfer: "cq_dead q \<Longrightarrow> cq_dead (snd (cmdMbox_TransferComplete env q c))"
  by (simp add: cmdMbox_TransferComplete_def cmdQueue_ResultReceived_def cmdQueue_SM_def sm_complete_def cq_dead_def Let_def)

lemma dead_reconfig:
  assumes "cq_dead q"
  shows "cq_dead (snd (cmdQueue_EndReconfig env q))"
proof -
  have "cq_dead (fold (recover_one env) is q)" for "is"
    using assms by (induction "is" arbitrary: q) (simp_all add: recover_one_def dead_callback)
  then show ?thesis by (simp add: cmdQueue_EndReconfig_def Let_def recover_one_def [abs_def])
qed

lemma restart_loop_flag [simp]: "bErrorFlag (restart_loop k i q) = bErrorFlag q"
  by (induction k arbitrary: i q) (simp_all add: Let_def)

lemma stop_fields:
  "bErrorFlag (cq_stop q) = bErrorFlag q" "uNumberOfCommandInQueue (cq_stop q) = 0" "state (cq_stop q) = CMDQUEUE_STATE_IDLE"
  "cq_log (cq_stop q) = cq_log q @ [CqRestart]"
  by (simp_all add: cq_stop_def cmdQueue_DisableMbox_def cmdQueue_Restart_def Let_def cq_emit_def)

lemma dead_step:
  assumes "cq_dead q" "cq_step q q'"
  shows "cq_dead q'"
  using assms(2)
proof cases
  case (step_complete env rc c)
  then show ?thesis using assms(1) dead_transfer by (simp add: cmdMbox_CommandComplete_def Let_def)
next
  case step_stop
  then show ?thesis using assms(1) stop_fields by (simp add: cq_dead_def)
qed (use assms(1) dead_call [OF assms(1), of CqEnable] dead_call [OF assms(1), of CqDisable] in
    \<open>simp_all add: dead_refuses dead_transfer dead_reconfig mbox_timeout_def cmdQueue_Error_def Let_def
      cmdQueue_RegisterCmdCompleteGenericCb_def cmdQueue_RegisterForErrorCb_def\<close>, simp_all add: cq_dead_def)

lemma dead_steps: "cq_step\<^sup>*\<^sup>* q q' \<Longrightarrow> cq_dead q \<Longrightarrow> cq_dead q'"
  by (induction rule: rtranclp_induct) (auto intro: dead_step)

lemma stop_saves:
  assumes "ring_wf q"
  shows "take (unat (uNumberOfRecoveryNodes (cq_stop q))) (aRecoveryQueue (cq_stop q)) = map rec_of (filter (\<lambda>n. fCb n \<noteq> NULL) (ring q))"
    "unat (uNumberOfRecoveryNodes (cq_stop q)) \<le> length (aRecoveryQueue (cq_stop q))"
proof -
  let ?q1 = "q\<lparr>hCmdMBox := snd (cmdMbox_Restart (hCmdMBox q)), state := CMDQUEUE_STATE_IDLE, bAwake := False, uNumberOfRecoveryNodes := 0\<rparr>"
  have p: "unat (head q) < 30" "unat (uNumberOfRecoveryNodes ?q1) + unat (uNumberOfCommandInQueue q) \<le> 30" "length (aRecoveryQueue ?q1) = 30"
    using assms by (simp_all add: ring_wf_def)
  have s: "aRecoveryQueue (cq_stop q) = aRecoveryQueue (restart_loop (unat (uNumberOfCommandInQueue q)) (head q) ?q1)"
    "uNumberOfRecoveryNodes (cq_stop q) = uNumberOfRecoveryNodes (restart_loop (unat (uNumberOfCommandInQueue q)) (head q) ?q1)"
    by (simp_all add: cq_stop_def cmdQueue_DisableMbox_def cmdQueue_Restart_def Let_def cq_emit_def)
  show "take (unat (uNumberOfRecoveryNodes (cq_stop q))) (aRecoveryQueue (cq_stop q)) = map rec_of (filter (\<lambda>n. fCb n \<noteq> NULL) (ring q))"
    unfolding s restart_loop_saved(2) [OF p] by (simp add: ring_def)
  show "unat (uNumberOfRecoveryNodes (cq_stop q)) \<le> length (aRecoveryQueue (cq_stop q))"
    unfolding s using restart_loop_saved(1) [OF p] p by simp
qed

lemma call_recovered [simp]: "recovered (cq_log (cq_call q r)) = recovered (cq_log q)"
proof -
  have s: "recovered (cq_log (snd (sm_run q))) = recovered (cq_log q)" for q
    by (simp add: sm_run_def Let_def case_prod_beta wake_up_def cq_emit_def split: ECmdQueueSmStates.split)
  show ?thesis by (cases r) (simp_all add: cmdQueue_SendCommand_def cmdQueue_Push_def cmdQueue_EnableMbox_def cmdQueue_DisableMbox_def
      case_prod_beta Let_def s)
qed

lemma callback_recovered: "recovered (cq_log (cq_callback env e q)) = recovered (cq_log q @ [e])"
proof -
  have "recovered (cq_log (foldl cq_call q rs)) = recovered (cq_log q)" for rs q by (induction rs arbitrary: q) simp_all
  then show ?thesis by (simp add: cq_callback_def Let_def)
qed

lemma EndReconfig_recovered:
  assumes "unat (uNumberOfRecoveryNodes q) \<le> length (aRecoveryQueue q)"
  shows "recovered (cq_log (snd (cmdQueue_EndReconfig env q))) =
    recovered (cq_log q) @ map (\<lambda>r. (r, CMD_STATUS_FW_RESET)) (take (unat (uNumberOfRecoveryNodes q)) (aRecoveryQueue q))"
proof -
  have "k \<le> length (aRecoveryQueue q) \<Longrightarrow> aRecoveryQueue (fold (recover_one env) [0..<k] q) = aRecoveryQueue q \<and>
    recovered (cq_log (fold (recover_one env) [0..<k] q)) = recovered (cq_log q) @ map (\<lambda>r. (r, CMD_STATUS_FW_RESET)) (take k (aRecoveryQueue q))" for k
    by (induction k) (simp_all add: recover_one_def callback_recovered take_Suc_conv_app_nth)
  then show ?thesis using assms by (simp add: cmdQueue_EndReconfig_def Let_def recover_one_def [abs_def])
qed

section \<open>Properties\<close>

definition cx3 :: TCmdQueue where "cx3 = cq_answer cx2 \<lparr>cmdID = 2, cmdStatus = 5, parameters = []\<rparr>"

lemma cx_reach: "reach cq_init cq_step cx0" "reach cq_init cq_step cx1" "reach cq_init cq_step cx2" "reach cq_init cq_step cx3"
proof -
  have "cmdQueue_Create 0x1000 mbox_ex = Some (the (cmdQueue_Create 0x1000 mbox_ex))" by (simp add: cmdQueue_Create_def)
  then have "cq_init (snd (cmdQueue_Init (the (cmdQueue_Create 0x1000 mbox_ex)) mbox_ex 0x2000 0x3000))" unfolding cq_init_def by blast
  then show 0: "reach cq_init cq_step cx0" unfolding cx0_def by (rule reach_step [OF reach_init]) (rule step_enable)
  then show 1: "reach cq_init cq_step cx1" unfolding cx1_def by (rule reach_step) (rule step_send)
  then show 2: "reach cq_init cq_step cx2" unfolding cx2_def by (rule reach_step) (rule step_send)
  then show "reach cq_init cq_step cx3" unfolding cx3_def cq_answer_def by (rule reach_step) (rule step_complete)
qed

lemma cx_eval:
  "length (ring cx2) = 2" "bErrorFlag cx3" "\<not> bErrorFlag cx0" "bMboxEnabled cx0" "ring cx0 = []" "length (cq_log cx3) = 6"
  "map fCb (ring cx2) = [0x5000, 0x6000]"
  by code_simp+

text \<open>
  C28: The command queue refines its specification: the log of every reachable state is one that the
  specification accepts (commands are sent in order of acceptance and one at a time, only to a device that was
  woken; only the command with the firmware completes; the device is put to sleep only when no command is left; and
  recovery reports each lost command with a callback once), and it leads to the abstraction of the state.
\<close>

theorem cmdQueue_refines_spec:
  assumes "reach cq_init cq_step q"
  shows "cq_spec_run (cq_log q) cq_spec_init = Some (cq_abs (uNumberOfCommandInQueue q \<noteq> 0) 0 q)"
  using cmdq.reach_invar [OF assms] by (simp add: cq_inv_def cq_ok_def)

theorem cmdQueue_refines_spec_witness:
  "cq_spec_run (cq_log cx3) cq_spec_init = Some (cq_abs (uNumberOfCommandInQueue cx3 \<noteq> 0) 0 cx3) \<and> length (cq_log cx3) = 6"
  by (rule conjI [OF cmdQueue_refines_spec [OF cx_reach(4)] cx_eval(6)])

text \<open>
  C29: In every reachable state of the command queue its state machine waits for a completion, the mailbox is in
  use and the device is kept awake exactly when the queue holds a command, and the ring's counters stay within the
  ring.
\<close>

theorem cmdQueue_invariant:
  assumes "reach cq_init cq_step q"
  shows "(state q = CMDQUEUE_STATE_WAIT_FOR_COMPLETION) = (ring q \<noteq> []) \<and> bCmdInProgress (hCmdMBox q) = (ring q \<noteq> []) \<and>
    bAwake q = (ring q \<noteq> []) \<and> length (ring q) \<le> CMDQUEUE_QUEUE_DEPTH \<and> ring_wf q"
proof -
  have i: "cq_inv 0 q" by (rule cmdq.reach_invar [OF assms])
  then have "ring_wf q" by (simp add: cq_inv_def cq_ok_def)
  then show ?thesis using i by (simp add: cq_inv_def ring_Nil CMDQUEUE_QUEUE_DEPTH_def ring_wf_def)
qed

theorem cmdQueue_invariant_witness: "bCmdInProgress (hCmdMBox cx2) \<and> bAwake cx2 \<and> ring_wf cx2"
proof -
  have "ring cx2 \<noteq> []" using cx_eval(7) by auto
  then show ?thesis using cmdQueue_invariant [OF cx_reach(3)] by simp
qed

text \<open>The ring of the command queue is first in, first out.\<close>

lemma cmdQueue_ring_fifo:
  assumes "ring_wf q"
  shows "fst (deq_n cq_deq k q) = take k (map cmd_content (ring q)) \<and>
    map cmd_content (ring (snd (deq_n cq_deq k q))) = drop k (map cmd_content (ring q))"
  using cmdring.deq_n_prefix [OF assms, of k] by simp

text \<open>
  What \<open>cmdQueue_SendCommand\<close> does, on every branch: after a failed command it refuses; while the mailbox is
  disabled it reports success and drops the command; a full queue refuses; otherwise the command is the last in the
  queue, and if it is the only one, the device is woken and the command is sent at once.
\<close>

lemma cmdQueue_SendCommand_outcome:
  assumes "reach cq_init cq_step q"
  shows "let (st, q') = cmdQueue_SendCommand q t buf len f h p; n = put_node q t buf len f h p in
    if bErrorFlag q then st = TI_NOK \<and> q' = q
    else if \<not> bMboxEnabled q then st = TI_OK \<and> q' = q
    else if length (ring q) = CMDQUEUE_QUEUE_DEPTH then st = TI_NOK \<and> q' = q
    else st = TI_OK \<and> ring q' = ring q @ [n] \<and> cq_log q' = cq_log q @ CqAccept n # (if ring q = [] then [CqAwake, CqSent n] else [])"
proof -
  have i: "cq_inv 0 q" by (rule cmdq.reach_invar [OF assms])
  have full: "uNumberOfCommandInQueue q = 30 \<longleftrightarrow> length (ring q) = 30" using word_unat_eq_iff [of "uNumberOfCommandInQueue q" 30] by simp
  consider "bErrorFlag q" | "\<not> bErrorFlag q" "\<not> bMboxEnabled q" | "\<not> bErrorFlag q" "bMboxEnabled q" "length (ring q) = 30"
    | "\<not> bErrorFlag q" "bMboxEnabled q" "length (ring q) \<noteq> 30" by blast
  then show ?thesis
  proof cases
    case 4
    then show ?thesis using SendCommand_accepts [OF i 4, of t buf len f h p] by (simp add: Let_def case_prod_beta CMDQUEUE_QUEUE_DEPTH_def)
  qed (use full in \<open>simp_all add: cmdQueue_SendCommand_def cmdQueue_Push_def CMDQUEUE_QUEUE_DEPTH_def\<close>)
qed

text \<open>
  C30: The command queue serves: each answer of the firmware completes the oldest command, so as many answers as there
  are commands complete all of them, in order, and leave the queue empty and the device free to sleep. (The callbacks
  are taken to send nothing new.)
\<close>

theorem cmdQueue_serves_all:
  assumes "reach cq_init cq_step q" "length cs = length (ring q)"
  shows "let q' = foldl cq_answer q cs in
    completed (cq_log q') = completed (cq_log q) @ ring q \<and> ring q' = [] \<and> \<not> bAwake q' \<and> \<not> bCmdInProgress (hCmdMBox q')"
proof -
  have i: "cq_inv 0 q" by (rule cmdq.reach_invar [OF assms(1)])
  let ?q = "foldl cq_answer q cs"
  have r: "ring ?q = []" "completed (cq_log ?q) = completed (cq_log q) @ ring q" "cq_inv 0 ?q"
    using answers_serve [OF i, of cs] assms(2) by simp_all
  then show ?thesis using ring_Nil [of ?q] by (simp add: Let_def cq_inv_def)
qed

theorem cmdQueue_serves_all_witness:
  "ring (foldl cq_answer cx2 [zero_cmd, zero_cmd]) = []"
proof -
  have "length [zero_cmd, zero_cmd] = length (ring cx2)" using cx_eval(1) by simp
  from cmdQueue_serves_all [OF cx_reach(3) this] show ?thesis by (simp add: Let_def)
qed

text \<open>
  C31: Recovery loses no callback: when the driver stops and then ends the reconfiguration, the callback of every command
  that was in the queue and has one is called exactly once, in order, with the status \<open>CMD_STATUS_FW_RESET\<close>,
  whatever the callbacks themselves call.
\<close>

theorem cmdQueue_recovery_callbacks:
  assumes "reach cq_init cq_step q"
  shows "recovered (cq_log (snd (cmdQueue_EndReconfig env (cq_stop q)))) =
    recovered (cq_log q) @ map (\<lambda>n. (rec_of n, CMD_STATUS_FW_RESET)) (filter (\<lambda>n. fCb n \<noteq> NULL) (ring q))"
proof -
  have "ring_wf q" using cmdq.reach_invar [OF assms] by (simp add: cq_inv_def cq_ok_def)
  note s = stop_saves [OF this]
  show ?thesis unfolding EndReconfig_recovered [OF s(2)] s(1) by (simp add: stop_fields comp_def)
qed

theorem cmdQueue_recovery_callbacks_witness:
  "length (recovered (cq_log (snd (cmdQueue_EndReconfig silent (cq_stop cx2))))) = 2"
proof -
  have "length (filter (\<lambda>n. fCb n \<noteq> NULL) (ring cx2)) = 2" "recovered (cq_log cx2) = []" by code_simp+
  then show ?thesis using cmdQueue_recovery_callbacks [OF cx_reach(3), of silent] by simp
qed

text \<open>
  The error flag outlives recovery: if the flag is set when the driver stops, then whatever is done
  afterwards (recovery, enabling the mailbox, interrupts, any call), the queue stays empty and every command is
  refused. The flag is cleared by a successful completion only, and none can follow.
\<close>

lemma cmdQueue_error_outlives_restart:
  assumes "bErrorFlag q" "cq_step\<^sup>*\<^sup>* (cq_stop q) q'"
  shows "cmdQueue_SendCommand q' t buf len f h p = (TI_NOK, q') \<and> ring q' = []"
proof -
  have "cq_dead (cq_stop q)" using assms(1) stop_fields by (simp add: cq_dead_def)
  then have "cq_dead q'" by (rule dead_steps [OF assms(2)])
  then show ?thesis using dead_refuses ring_Nil [of q'] by (simp add: cq_dead_def)
qed

end
