(* ===== verification/Wlan_Context.thy ===== *)
theory Wlan_Context
  imports Wlan_Prelude
begin

text \<open>
  \<open>utils/context.c\<close>: the context engine, through which the driver's modules switch to the driver task, with the part of
  the Linux adaptation that it relies on (\<open>platforms/os/linux/src/osapi.c\<close> and \<open>WlanDrvIf.c\<close>): the wake
  lock counter that keeps the system from suspending, and the work item that runs the driver task. The kernel is \<open>CONFIG_HAS_WAKELOCK\<close>;
  its wake lock is the flag \<open>wl_wifi\<close>, and its counters are integers without a bound. The kernel's \<open>queue_work\<close> is a parameter \<open>qw\<close>: from whether the work item is queued, its result
  and whether it is queued afterwards. What a client's callback does is a parameter too: the calls into this
  module that it makes.
\<close>

section \<open>The Linux adaptation\<close>

record TWlanDrvIfObj =
  tWork_queued :: bool
  wl_packet :: int
  wl_count :: int
  wl_wifi :: bool
  wl_rxwake :: nat
  wake_locks_enabled :: bool

text \<open>\<open>wl_rxwake\<close> counts the calls of \<open>wake_lock_timeout\<close>.\<close>

definition os_wake_lock_timeout :: "TWlanDrvIfObj \<Rightarrow> int \<times> TWlanDrvIfObj" where
  "os_wake_lock_timeout d =
     (if \<not> wake_locks_enabled d then (0, d)
      else (wl_packet d, if wl_packet d \<noteq> 0 then d\<lparr>wl_packet := 0, wl_rxwake := wl_rxwake d + 1\<rparr> else d))"

definition os_wake_lock_timeout_enable :: "TWlanDrvIfObj \<Rightarrow> int \<times> TWlanDrvIfObj" where
  "os_wake_lock_timeout_enable d = (if \<not> wake_locks_enabled d then (0, d) else (1, d\<lparr>wl_packet := 1\<rparr>))"

definition os_disable_wake_locks :: "TWlanDrvIfObj \<Rightarrow> TWlanDrvIfObj" where
  "os_disable_wake_locks d = d\<lparr>wake_locks_enabled := False\<rparr>"

definition os_enable_wake_locks :: "TWlanDrvIfObj \<Rightarrow> TWlanDrvIfObj" where
  "os_enable_wake_locks d = d\<lparr>wake_locks_enabled := True\<rparr>"

definition os_wake_lock :: "TWlanDrvIfObj \<Rightarrow> int \<times> TWlanDrvIfObj" where
  "os_wake_lock d =
     (if \<not> wake_locks_enabled d then (0, d)
      else
        let d = (if wl_count d = 0 then d\<lparr>wl_wifi := True\<rparr> else d);
            d = d\<lparr>wl_count := wl_count d + 1\<rparr>
        in (wl_count d, d))"

definition os_wake_unlock :: "TWlanDrvIfObj \<Rightarrow> int \<times> TWlanDrvIfObj" where
  "os_wake_unlock d =
     (if \<not> wake_locks_enabled d then (0, d)
      else if wl_count d \<noteq> 0 then
        let d = d\<lparr>wl_count := wl_count d - 1\<rparr>;
            d = (if wl_count d = 0 then d\<lparr>wl_wifi := False\<rparr> else d)
        in (wl_count d, d)
      else (0, d))"

definition os_RequestSchedule :: "(bool \<Rightarrow> bool \<times> bool) \<Rightarrow> TWlanDrvIfObj \<Rightarrow> ti_status \<times> TWlanDrvIfObj" where
  "os_RequestSchedule qw d =
     (let (ok, queued) = qw (tWork_queued d); d = d\<lparr>tWork_queued := queued\<rparr>
      in (if \<not> ok then TI_NOK else TI_OK, d))"

section \<open>Data\<close>

definition MAX_CLIENTS :: nat where "MAX_CLIENTS = 8"
definition MAX_NAME_SIZE :: nat where "MAX_NAME_SIZE = 16"

record TClientName =
  cl_uSize :: u32
  sName :: string

text \<open>\<open>hOs\<close> is the driver object; \<open>ctx_log\<close> lists the clients whose callback was called.\<close>

record TContext =
  hOs :: TWlanDrvIfObj
  bContextSwitchRequired :: bool
  hProtectionLock :: handle
  uNumClients :: u32
  aClientCbFunc :: "handle list"
  aClientCbHndl :: "handle list"
  aClientEnabled :: "bool list"
  aClientPending :: "bool list"
  aClientName :: "TClientName list"
  aRequestCount :: "u32 list"
  aInvokeCount :: "u32 list"
  ctx_log :: "nat list"

definition context_Create :: "handle \<Rightarrow> TWlanDrvIfObj \<Rightarrow> TContext option" where
  "context_Create mem d =
     (if mem = NULL then None
      else Some \<lparr>hOs = d, bContextSwitchRequired = False, hProtectionLock = NULL, uNumClients = 0,
        aClientCbFunc = replicate MAX_CLIENTS NULL, aClientCbHndl = replicate MAX_CLIENTS NULL,
        aClientEnabled = replicate MAX_CLIENTS False, aClientPending = replicate MAX_CLIENTS False,
        aClientName = replicate MAX_CLIENTS \<lparr>cl_uSize = 0, sName = replicate MAX_NAME_SIZE (CHR 0x00)\<rparr>,
        aRequestCount = replicate MAX_CLIENTS 0, aInvokeCount = replicate MAX_CLIENTS 0, ctx_log = []\<rparr>)"

text \<open>\<open>lock\<close> is what \<open>os_protectCreate\<close> returned.\<close>

definition context_Init :: "TContext \<Rightarrow> TWlanDrvIfObj \<Rightarrow> handle \<Rightarrow> TContext" where
  "context_Init c d lock = c\<lparr>hOs := d, hProtectionLock := lock\<rparr>"

definition context_SetDefaults :: "TContext \<Rightarrow> bool \<Rightarrow> ti_status \<times> TContext" where
  "context_SetDefaults c b = (TI_OK, c\<lparr>bContextSwitchRequired := b\<rparr>)"

definition context_RegisterClient :: "TContext \<Rightarrow> handle \<Rightarrow> handle \<Rightarrow> bool \<Rightarrow> string \<Rightarrow> u32 \<Rightarrow> u32 \<times> TContext" where
  "context_RegisterClient c f h en nm nsize =
     (let i = uNumClients c in
      if i = of_nat MAX_CLIENTS then (0, c)
      else
        let c = c\<lparr>aClientCbFunc := (aClientCbFunc c)[unat i := f], aClientCbHndl := (aClientCbHndl c)[unat i := h],
                  aClientEnabled := (aClientEnabled c)[unat i := en], aClientPending := (aClientPending c)[unat i := False]\<rparr>;
            c = (if unat nsize \<le> MAX_NAME_SIZE then
                   c\<lparr>aClientName := (aClientName c)[unat i :=
                     \<lparr>cl_uSize = nsize, sName = take (unat nsize) nm @ drop (unat nsize) (sName (aClientName c ! unat i))\<rparr>]\<rparr>
                 else c)
        in (i, c\<lparr>uNumClients := uNumClients c + 1\<rparr>))"

section \<open>Scheduling\<close>

definition ctx_lock :: "TContext \<Rightarrow> TContext" where
  "ctx_lock c = c\<lparr>hOs := snd (os_wake_lock (hOs c))\<rparr>"

definition ctx_unlock :: "TContext \<Rightarrow> TContext" where
  "ctx_unlock c = c\<lparr>hOs := snd (os_wake_unlock (hOs c))\<rparr>"

text \<open>
  The end of \<open>context_RequestSchedule\<close> and of \<open>context_EnableClient\<close>: the work item, or the driver task called directly
  (\<open>task\<close>). \<open>None\<close> stands for a call that does not return.
\<close>

definition ctx_schedule :: "(TContext \<Rightarrow> TContext option) \<Rightarrow> (bool \<Rightarrow> bool \<times> bool) \<Rightarrow> TContext \<Rightarrow> TContext option" where
  "ctx_schedule task qw c =
     (let c = ctx_lock c in
      if bContextSwitchRequired c then
        let (st, d) = os_RequestSchedule qw (hOs c); c = c\<lparr>hOs := d\<rparr>
        in Some (if st \<noteq> TI_OK then ctx_unlock c else c)
      else map_option ctx_unlock (task c))"

definition context_RequestSchedule :: "(TContext \<Rightarrow> TContext option) \<Rightarrow> (bool \<Rightarrow> bool \<times> bool) \<Rightarrow> TContext \<Rightarrow> u32 \<Rightarrow> TContext option" where
  "context_RequestSchedule task qw c i =
     (let c = c\<lparr>aRequestCount := (aRequestCount c)[unat i := aRequestCount c ! unat i + 1]\<rparr>;
          c = c\<lparr>aClientPending := (aClientPending c)[unat i := True]\<rparr>
      in ctx_schedule task qw c)"

definition context_EnableClient :: "(TContext \<Rightarrow> TContext option) \<Rightarrow> (bool \<Rightarrow> bool \<times> bool) \<Rightarrow> TContext \<Rightarrow> u32 \<Rightarrow> TContext option" where
  "context_EnableClient task qw c i =
     (if aClientEnabled c ! unat i then Some c
      else
        let c = c\<lparr>aClientEnabled := (aClientEnabled c)[unat i := True]\<rparr>
        in if aClientPending c ! unat i then ctx_schedule task qw c else Some c)"

definition context_DisableClient :: "TContext \<Rightarrow> u32 \<Rightarrow> TContext" where
  "context_DisableClient c i =
     (if \<not> aClientEnabled c ! unat i then c else c\<lparr>aClientEnabled := (aClientEnabled c)[unat i := False]\<rparr>)"

text \<open>The calls that a callback makes.\<close>

datatype ctx_req = CtxRequest u32 | CtxEnable u32 | CtxDisable u32

type_synonym ctx_env = "TContext \<Rightarrow> nat \<Rightarrow> ctx_req list"

fun ctx_call :: "(TContext \<Rightarrow> TContext option) \<Rightarrow> (bool \<Rightarrow> bool \<times> bool) \<Rightarrow> ctx_req \<Rightarrow> TContext \<Rightarrow> TContext option" where
  "ctx_call task qw (CtxRequest i) c = context_RequestSchedule task qw c i"
| "ctx_call task qw (CtxEnable i) c = context_EnableClient task qw c i"
| "ctx_call task qw (CtxDisable i) c = Some (context_DisableClient c i)"

primrec seq_opt :: "('a \<Rightarrow> 's \<Rightarrow> 's option) \<Rightarrow> 'a list \<Rightarrow> 's \<Rightarrow> 's option" where
  "seq_opt f [] s = Some s"
| "seq_opt f (x # xs) s = Option.bind (f x s) (seq_opt f xs)"

definition task_client :: "(TContext \<Rightarrow> TContext option) \<Rightarrow> (bool \<Rightarrow> bool \<times> bool) \<Rightarrow> ctx_env \<Rightarrow> nat \<Rightarrow> TContext \<Rightarrow> TContext option" where
  "task_client task qw env i c =
     (if aClientPending c ! i \<and> aClientEnabled c ! i then
        let c = c\<lparr>aInvokeCount := (aInvokeCount c)[i := aInvokeCount c ! i + 1]\<rparr>;
            c = c\<lparr>aClientPending := (aClientPending c)[i := False]\<rparr>;
            c = c\<lparr>ctx_log := ctx_log c @ [i]\<rparr>
        in seq_opt (ctx_call task qw) (env c i) c
      else Some c)"

text \<open>
  The driver task. Without a context switch a callback's request calls the driver task again; the first argument bounds
  the depth of these calls. With a context switch they do not occur and one is enough.
\<close>

primrec context_DriverTask :: "nat \<Rightarrow> (bool \<Rightarrow> bool \<times> bool) \<Rightarrow> ctx_env \<Rightarrow> TContext \<Rightarrow> TContext option" where
  "context_DriverTask 0 qw env c = None"
| "context_DriverTask (Suc n) qw env c =
     seq_opt (task_client (context_DriverTask n qw env) qw env) [0..<unat (uNumClients c)] c"

text \<open>The work item: the kernel takes it off the work queue before it calls the driver.\<close>

definition wlanDrvIf_DriverTask :: "nat \<Rightarrow> (bool \<Rightarrow> bool \<times> bool) \<Rightarrow> ctx_env \<Rightarrow> TContext \<Rightarrow> TContext option" where
  "wlanDrvIf_DriverTask n qw env c =
     (let c = c\<lparr>hOs := (hOs c)\<lparr>tWork_queued := False\<rparr>\<rparr>
      in map_option (\<lambda>c. ctx_unlock (c\<lparr>hOs := snd (os_wake_lock_timeout (hOs c))\<rparr>)) (context_DriverTask n qw env c))"

section \<open>Invariant\<close>

text \<open>
  The documented behaviour of \<open>queue_work\<close>: it returns false if the work item is already queued, and true otherwise;
  the item is queued afterwards.
\<close>

definition queue_work_doc :: "(bool \<Rightarrow> bool \<times> bool) \<Rightarrow> bool" where
  "queue_work_doc qw \<longleftrightarrow> (\<forall>p. qw p = (\<not> p, True))"

definition ctx_queued :: "TContext \<Rightarrow> bool" where
  "ctx_queued c = tWork_queued (hOs c)"

text \<open>
  \<open>run\<close>: the driver task runs. The kernel's wake lock is taken exactly while its counter is not zero. \<open>ok\<close>: the wake locks were never disabled;
  then the counter is one for the queued work item and one for the running task.
\<close>

definition ctx_base :: "bool \<Rightarrow> bool \<Rightarrow> TContext \<Rightarrow> bool" where [wf_defs]:
  "ctx_base ok run c \<longleftrightarrow> bContextSwitchRequired c \<and> length (aClientEnabled c) = 8 \<and> length (aClientPending c) = 8 \<and>
     unat (uNumClients c) \<le> 8 \<and> wl_count (hOs c) \<ge> 0 \<and> wl_wifi (hOs c) = (wl_count (hOs c) \<noteq> 0) \<and>
     (ok \<longrightarrow> wake_locks_enabled (hOs c) \<and> wl_count (hOs c) = of_bool (ctx_queued c) + of_bool run)"

text \<open>\<open>k\<close>: the clients from \<open>k\<close> on are still to be visited by the running task.\<close>

definition ctx_inv :: "bool \<Rightarrow> nat \<Rightarrow> bool \<Rightarrow> TContext \<Rightarrow> bool" where [wf_defs]:
  "ctx_inv ok k run c \<longleftrightarrow> ctx_base ok run c \<and>
     (\<forall>i < unat (uNumClients c). aClientPending c ! i \<and> aClientEnabled c ! i \<longrightarrow> ctx_queued c \<or> k \<le> i)"

fun req_ok :: "TContext \<Rightarrow> ctx_req \<Rightarrow> bool" where
  "req_ok c (CtxRequest i) = (i < uNumClients c)"
| "req_ok c (CtxEnable i) = (i < uNumClients c)"
| "req_ok c (CtxDisable i) = (i < uNumClients c)"

definition ctx_env_ok :: "ctx_env \<Rightarrow> bool" where
  "ctx_env_ok env \<longleftrightarrow> (\<forall>c i. list_all (req_ok c) (env c i))"

lemma wake_lock_base:
  "ctx_base ok run c \<Longrightarrow> wl_count (snd (os_wake_lock (hOs c))) \<ge> 0" "ctx_base ok run c \<Longrightarrow> wl_wifi (snd (os_wake_lock (hOs c))) = (wl_count (snd (os_wake_lock (hOs c))) \<noteq> 0)"
  "wl_count d \<ge> 0 \<Longrightarrow> wl_count (snd (os_wake_unlock d)) \<ge> 0" "wl_wifi d = (wl_count d \<noteq> 0) \<Longrightarrow> wl_wifi (snd (os_wake_unlock d)) = (wl_count (snd (os_wake_unlock d)) \<noteq> 0)"
  by (auto simp: ctx_base_def os_wake_lock_def os_wake_unlock_def Let_def)

lemma wake_fields [simp]:
  "tWork_queued (snd (os_wake_lock d)) = tWork_queued d" "tWork_queued (snd (os_wake_unlock d)) = tWork_queued d"
  "wake_locks_enabled (snd (os_wake_lock d)) = wake_locks_enabled d" "wake_locks_enabled (snd (os_wake_unlock d)) = wake_locks_enabled d"
  by (simp_all add: os_wake_lock_def os_wake_unlock_def Let_def)

lemma wake_counts:
  "wake_locks_enabled d \<Longrightarrow> wl_count (snd (os_wake_lock d)) = wl_count d + 1"
  "wake_locks_enabled d \<Longrightarrow> wl_count d \<noteq> 0 \<Longrightarrow> wl_count (snd (os_wake_unlock d)) = wl_count d - 1"
  by (simp_all add: os_wake_lock_def os_wake_unlock_def Let_def)

lemma schedule_base:
  assumes "queue_work_doc qw" "ctx_base ok run c"
  shows "\<exists>d. ctx_schedule task qw c = Some (c\<lparr>hOs := d\<rparr>) \<and> ctx_base ok run (c\<lparr>hOs := d\<rparr>) \<and> tWork_queued d"
proof -
  let ?d = "(snd (os_wake_lock (hOs c)))\<lparr>tWork_queued := True\<rparr>"
  define d where "d = (if ctx_queued c then snd (os_wake_unlock ?d) else ?d)"
  have qw: "qw p = (\<not> p, True)" for p using assms(1) by (simp add: queue_work_doc_def)
  have s: "ctx_schedule task qw c = Some (c\<lparr>hOs := d\<rparr>)"
    using assms(2) by (simp add: ctx_schedule_def ctx_lock_def ctx_unlock_def os_RequestSchedule_def qw Let_def ctx_base_def ctx_queued_def d_def)
  have q: "tWork_queued d" by (simp add: d_def)
  have w: "wl_count d \<ge> 0" "wl_wifi d = (wl_count d \<noteq> 0)" using wake_lock_base(1,2) [OF assms(2)] wake_lock_base(3,4) [of ?d] by (simp_all add: d_def)
  have "wake_locks_enabled d \<and> wl_count d = 1 + of_bool run" if ok
    using that assms(2) wake_counts(1) [of "hOs c"] wake_counts(2) [of ?d] by (auto simp: ctx_base_def d_def)
  then have "ctx_base ok run (c\<lparr>hOs := d\<rparr>)" using assms(2) q w by (simp add: ctx_base_def ctx_queued_def)
  with s q show ?thesis by blast
qed

lemma schedule_inv:
  assumes "queue_work_doc qw" "ctx_base ok run c"
  shows "\<exists>c'. ctx_schedule task qw c = Some c' \<and> ctx_inv ok k run c' \<and> uNumClients c' = uNumClients c"
proof -
  obtain d where d: "ctx_schedule task qw c = Some (c\<lparr>hOs := d\<rparr>)" "ctx_base ok run (c\<lparr>hOs := d\<rparr>)" "tWork_queued d"
    using schedule_base [OF assms] by blast
  then show ?thesis by (simp add: ctx_inv_def ctx_queued_def)
qed

lemma disable_inv: "ctx_inv ok k run c \<Longrightarrow> ctx_inv ok k run (context_DisableClient c i)"
  by (auto simp: ctx_inv_def ctx_base_def ctx_queued_def context_DisableClient_def nth_update split: if_splits)

lemma enable_inv:
  assumes "queue_work_doc qw" "ctx_inv ok k run c"
  shows "\<exists>c'. context_EnableClient task qw c i = Some c' \<and> ctx_inv ok k run c' \<and> uNumClients c' = uNumClients c"
proof (cases "aClientEnabled c ! unat i")
  case False
  let ?c = "c\<lparr>aClientEnabled := (aClientEnabled c)[unat i := True]\<rparr>"
  have b: "ctx_base ok run ?c" using assms(2) by (simp add: ctx_inv_def ctx_base_def ctx_queued_def)
  show ?thesis
  proof (cases "aClientPending c ! unat i")
    case True
    then show ?thesis using False schedule_inv [OF assms(1) b, of task k] by (simp add: context_EnableClient_def Let_def)
  next
    case p: False
    have "ctx_inv ok k run ?c" using assms(2) b p by (auto simp: ctx_inv_def ctx_queued_def nth_update split: if_splits)
    then show ?thesis using False p by (simp add: context_EnableClient_def Let_def)
  qed
qed (use assms in \<open>simp add: context_EnableClient_def\<close>)

lemma call_ctx_inv:
  assumes "queue_work_doc qw" "ctx_inv ok k run c"
  shows "\<exists>c'. ctx_call task qw r c = Some c' \<and> ctx_inv ok k run c' \<and> uNumClients c' = uNumClients c"
proof (cases r)
  case (CtxRequest i)
  have "ctx_base ok run (c\<lparr>aRequestCount := rc, aClientPending := (aClientPending c)[unat i := True]\<rparr>)" for rc
    using assms(2) by (simp add: ctx_inv_def ctx_base_def ctx_queued_def)
  from schedule_inv [OF assms(1) this] CtxRequest show ?thesis by (auto simp: context_RequestSchedule_def Let_def)
next
  case (CtxDisable i)
  then show ?thesis using disable_inv [OF assms(2)] by (simp add: context_DisableClient_def)
qed (use enable_inv [OF assms] in simp)

lemma calls_ctx_inv:
  assumes "queue_work_doc qw" "ctx_inv ok k run c"
  shows "\<exists>c'. seq_opt (ctx_call task qw) rs c = Some c' \<and> ctx_inv ok k run c' \<and> uNumClients c' = uNumClients c"
  using assms(2)
proof (induction rs arbitrary: c)
  case (Cons r rs)
  obtain c' where c': "ctx_call task qw r c = Some c'" "ctx_inv ok k run c'" "uNumClients c' = uNumClients c"
    using call_ctx_inv [OF assms(1) Cons.prems] by blast
  with Cons.IH [OF c'(2)] show ?case by simp
qed simp

lemma client_inv:
  assumes "queue_work_doc qw" "ctx_inv ok i run c" "i < unat (uNumClients c)"
  shows "\<exists>c'. task_client task qw env i c = Some c' \<and> ctx_inv ok (Suc i) run c' \<and> uNumClients c' = uNumClients c"
proof (cases "aClientPending c ! i \<and> aClientEnabled c ! i")
  case True
  define c1 where "c1 = c\<lparr>aInvokeCount := (aInvokeCount c)[i := aInvokeCount c ! i + 1], aClientPending := (aClientPending c)[i := False],
    ctx_log := ctx_log c @ [i]\<rparr>"
  have "ctx_inv ok (Suc i) run c1" using assms(2,3)
    by (auto simp: ctx_inv_def ctx_base_def ctx_queued_def c1_def nth_update Suc_le_eq le_neq_implies_less split: if_splits)
  from calls_ctx_inv [OF assms(1) this, of task "env c1 i"]
  obtain c' where "seq_opt (ctx_call task qw) (env c1 i) c1 = Some c'" "ctx_inv ok (Suc i) run c'" "uNumClients c' = uNumClients c1" by blast
  then show ?thesis using True by (simp add: task_client_def Let_def c1_def)
next
  case False
  have "ctx_inv ok (Suc i) run c" using assms(2) False by (auto simp: ctx_inv_def Suc_le_eq le_neq_implies_less)
  then show ?thesis unfolding task_client_def if_not_P [OF False] by simp
qed

lemma task_loop_inv:
  assumes "queue_work_doc qw" "ctx_inv ok i run c" "i + k = unat (uNumClients c)"
  shows "\<exists>c'. seq_opt (task_client task qw env) [i..<unat (uNumClients c)] c = Some c' \<and>
    ctx_inv ok (unat (uNumClients c)) run c' \<and> uNumClients c' = uNumClients c"
  using assms(2,3)
proof (induction k arbitrary: i c)
  case (Suc k)
  have lt: "i < unat (uNumClients c)" using Suc.prems(2) by simp
  obtain c1 where c1: "task_client task qw env i c = Some c1" "ctx_inv ok (Suc i) run c1" "uNumClients c1 = uNumClients c"
    using client_inv [OF assms(1) Suc.prems(1) lt] by blast
  have "Suc i + k = unat (uNumClients c1)" using Suc.prems(2) c1(3) by simp
  from Suc.IH [OF c1(2) this] c1 lt show ?case by (simp add: upt_conv_Cons)
qed simp

lemma work_inv:
  assumes "queue_work_doc qw" "ctx_inv ok (unat (uNumClients c)) False c" "ctx_queued c"
  shows "\<exists>c'. wlanDrvIf_DriverTask (Suc n) qw env c = Some c' \<and> ctx_inv ok (unat (uNumClients c')) False c'"
proof -
  let ?c = "c\<lparr>hOs := (hOs c)\<lparr>tWork_queued := False\<rparr>\<rparr>"
  have "ctx_inv ok 0 True ?c" using assms(2,3) by (simp add: ctx_inv_def ctx_base_def ctx_queued_def)
  from task_loop_inv [OF assms(1) this, of "unat (uNumClients c)" "context_DriverTask n qw env" env]
  obtain c' where c': "context_DriverTask (Suc n) qw env ?c = Some c'" "ctx_inv ok (unat (uNumClients c)) True c'" "uNumClients c' = uNumClients c"
    by auto
  let ?d = "snd (os_wake_lock_timeout (hOs c'))"
  have d: "wl_count ?d = wl_count (hOs c')" "wl_wifi ?d = wl_wifi (hOs c')" "wake_locks_enabled ?d = wake_locks_enabled (hOs c')" "tWork_queued ?d = tWork_queued (hOs c')"
    by (simp_all add: os_wake_lock_timeout_def)
  have "wl_count (snd (os_wake_unlock ?d)) = of_bool (ctx_queued c')" if ok
    using that c'(2) d wake_counts(2) [of ?d] by (simp add: ctx_inv_def ctx_base_def)
  then have "ctx_inv ok (unat (uNumClients c)) False (ctx_unlock (c'\<lparr>hOs := ?d\<rparr>))"
    using c'(2) d wake_lock_base(3,4) [of ?d] by (simp add: ctx_inv_def ctx_base_def ctx_queued_def ctx_unlock_def)
  moreover have "uNumClients (ctx_unlock (c'\<lparr>hOs := ?d\<rparr>)) = uNumClients c" using c'(3) by (simp add: ctx_unlock_def)
  ultimately show ?thesis using c'(1) by (simp add: wlanDrvIf_DriverTask_def Let_def)
qed

section \<open>Reachable states\<close>

text \<open>A state with a mark: whether the wake locks were disabled at some time.\<close>

definition ctx_init :: "TContext \<times> bool \<Rightarrow> bool" where
  "ctx_init x \<longleftrightarrow> \<not> snd x \<and> (\<exists>mem d lock c0. context_Create mem d = Some c0 \<and> tWork_queued d = False \<and> wl_count d = 0 \<and> wl_wifi d = False \<and>
     wake_locks_enabled d \<and> fst x = snd (context_SetDefaults (context_Init c0 d lock) True))"

text \<open>
  Requests come from any context (interrupts, other threads) between the steps; a client's identifier is one that registration
  returned. \<open>work\<close> is the kernel running the work item. \<open>suspend\<close> and \<open>resume\<close> are what \<open>wlanDrvIf_Suspend\<close> and \<open>wlanDrvIf_Resume\<close>
  do to the wake locks.
\<close>

inductive ctx_step :: "TContext \<times> bool \<Rightarrow> TContext \<times> bool \<Rightarrow> bool" where
  step_register: "ctx_step (c, x) (snd (context_RegisterClient c f h en nm n), x)"
| step_call: "queue_work_doc qw \<Longrightarrow> req_ok c r \<Longrightarrow> ctx_call task qw r c = Some c' \<Longrightarrow> ctx_step (c, x) (c', x)"
| step_work: "queue_work_doc qw \<Longrightarrow> ctx_env_ok env \<Longrightarrow> ctx_queued c \<Longrightarrow> wlanDrvIf_DriverTask (Suc n) qw env c = Some c' \<Longrightarrow> ctx_step (c, x) (c', x)"
| step_packet: "ctx_step (c, x) (c\<lparr>hOs := snd (os_wake_lock_timeout_enable (hOs c))\<rparr>, x)"
| step_suspend: "ctx_step (c, x) (c\<lparr>hOs := os_disable_wake_locks (hOs c)\<rparr>, True)"
| step_resume: "ctx_step (c, x) (c\<lparr>hOs := os_enable_wake_locks (hOs c)\<rparr>, x)"

definition ctx_idle :: "TContext \<times> bool \<Rightarrow> bool" where
  "ctx_idle x = ctx_inv (\<not> snd x) (unat (uNumClients (fst x))) False (fst x)"

lemma ctx_init_idle: "ctx_init x \<Longrightarrow> ctx_idle x"
  by (auto simp: ctx_init_def context_Create_def context_Init_def context_SetDefaults_def ctx_idle_def ctx_inv_def ctx_base_def
      ctx_queued_def MAX_CLIENTS_def split: if_splits)

lemma register_idle:
  assumes "ctx_idle (c, x)"
  shows "ctx_idle (snd (context_RegisterClient c f h en nm n), x)"
proof (cases "uNumClients c = 8")
  case False
  let ?i = "uNumClients c"
  have "unat ?i \<noteq> 8" using False word_unat_eq_iff [of ?i 8] by simp
  then have lt: "unat ?i < 8" using assms by (simp add: ctx_idle_def ctx_inv_def ctx_base_def)
  then have u: "unat (?i + 1) = Suc (unat ?i)" by (simp add: unat_word_ariths)
  show ?thesis using assms False lt
    by (auto simp: context_RegisterClient_def MAX_CLIENTS_def Let_def ctx_idle_def ctx_inv_def ctx_base_def ctx_queued_def u nth_update less_Suc_eq)
qed (use assms in \<open>simp add: context_RegisterClient_def MAX_CLIENTS_def\<close>)

lemma ctx_step_idle:
  assumes "ctx_idle x" "ctx_step x y"
  shows "ctx_idle y"
  using assms(2)
proof cases
  case (step_register c d)
  then show ?thesis using register_idle assms(1) by simp
next
  case (step_call qw c r task c' d)
  then show ?thesis using call_ctx_inv [OF step_call(3), of "\<not> d" "unat (uNumClients c)" False c task r] assms(1) by (auto simp: ctx_idle_def)
next
  case (step_work qw env c n c' d)
  then show ?thesis using work_inv [OF step_work(3) _ step_work(5), of "\<not> d" n env] assms(1) by (auto simp: ctx_idle_def)
qed (use assms(1) in \<open>auto simp: ctx_idle_def ctx_inv_def ctx_base_def ctx_queued_def os_wake_lock_timeout_enable_def os_disable_wake_locks_def os_enable_wake_locks_def\<close>)

interpretation ctxq: state_invariant ctx_init ctx_step ctx_idle
  by unfold_locales (fact ctx_init_idle, fact ctx_step_idle)

section \<open>One pass of the driver task\<close>

lemma schedule_switch:
  assumes "bContextSwitchRequired c" "ctx_schedule task qw c = Some c'"
  shows "\<exists>d. c' = c\<lparr>hOs := d\<rparr>"
  using assms by (auto simp: ctx_schedule_def ctx_lock_def ctx_unlock_def Let_def split: prod.splits if_splits)

definition ctx_due :: "TContext \<Rightarrow> nat \<Rightarrow> bool" where
  "ctx_due c i \<longleftrightarrow> aClientPending c ! i \<and> aClientEnabled c ! i"

fun ctx_no_disable :: "ctx_req \<Rightarrow> bool" where
  "ctx_no_disable (CtxDisable i) = False"
| "ctx_no_disable _ = True"

lemma call_effect:
  assumes "bContextSwitchRequired c" "ctx_call task qw r c = Some c'"
  shows "ctx_log c' = ctx_log c" "bContextSwitchRequired c'" "uNumClients c' = uNumClients c"
    "ctx_no_disable r \<Longrightarrow> ctx_due c j \<Longrightarrow> ctx_due c' j"
proof -
  have "ctx_log c' = ctx_log c \<and> bContextSwitchRequired c' \<and> uNumClients c' = uNumClients c \<and> (ctx_no_disable r \<longrightarrow> ctx_due c j \<longrightarrow> ctx_due c' j)"
  proof (cases r)
    case (CtxRequest i)
    let ?c = "c\<lparr>aRequestCount := (aRequestCount c)[unat i := aRequestCount c ! unat i + 1], aClientPending := (aClientPending c)[unat i := True]\<rparr>"
    obtain d where "c' = ?c\<lparr>hOs := d\<rparr>"
      using schedule_switch [of ?c task qw c'] assms CtxRequest by (auto simp: context_RequestSchedule_def Let_def)
    then show ?thesis using assms(1) by (simp add: ctx_due_def nth_update)
  next
    case (CtxEnable i)
    let ?c = "c\<lparr>aClientEnabled := (aClientEnabled c)[unat i := True]\<rparr>"
    have "c' = c \<or> c' = ?c \<or> (\<exists>d. c' = ?c\<lparr>hOs := d\<rparr>)"
      using schedule_switch [of ?c task qw c'] assms CtxEnable by (auto simp: context_EnableClient_def Let_def split: if_splits)
    then show ?thesis using assms(1) by (auto simp: ctx_due_def nth_update)
  next
    case (CtxDisable i)
    then show ?thesis using assms by (auto simp: context_DisableClient_def)
  qed
  then show "ctx_log c' = ctx_log c" "bContextSwitchRequired c'" "uNumClients c' = uNumClients c"
    "ctx_no_disable r \<Longrightarrow> ctx_due c j \<Longrightarrow> ctx_due c' j" by blast+
qed

lemma calls_effect:
  assumes "bContextSwitchRequired c" "seq_opt (ctx_call task qw) rs c = Some c'"
  shows "ctx_log c' = ctx_log c \<and> bContextSwitchRequired c' \<and> (list_all ctx_no_disable rs \<longrightarrow> ctx_due c j \<longrightarrow> ctx_due c' j)"
  using assms
proof (induction rs arbitrary: c)
  case (Cons r rs)
  then obtain c1 where c1: "ctx_call task qw r c = Some c1" "seq_opt (ctx_call task qw) rs c1 = Some c'"
    by (auto simp: bind_eq_Some_conv)
  note e = call_effect [OF Cons.prems(1) c1(1)]
  from Cons.IH [OF e(2) c1(2)] e show ?case by simp
qed simp

lemma client_effect:
  assumes "bContextSwitchRequired c" "task_client task qw env i c = Some c'"
  shows "ctx_log c' = ctx_log c @ (if ctx_due c i then [i] else [])" "bContextSwitchRequired c'"
    "\<forall>c j. list_all ctx_no_disable (env c j) \<Longrightarrow> i \<noteq> j \<Longrightarrow> ctx_due c j \<Longrightarrow> ctx_due c' j"
proof -
  have "ctx_log c' = ctx_log c @ (if ctx_due c i then [i] else []) \<and> bContextSwitchRequired c' \<and>
    ((\<forall>c j. list_all ctx_no_disable (env c j)) \<longrightarrow> i \<noteq> j \<longrightarrow> ctx_due c j \<longrightarrow> ctx_due c' j)"
  proof (cases "ctx_due c i")
    case True
    let ?c = "c\<lparr>aInvokeCount := (aInvokeCount c)[i := aInvokeCount c ! i + 1], aClientPending := (aClientPending c)[i := False],
      ctx_log := ctx_log c @ [i]\<rparr>"
    have s: "seq_opt (ctx_call task qw) (env ?c i) ?c = Some c'"
      using assms(2) True by (simp add: task_client_def ctx_due_def Let_def)
    have "bContextSwitchRequired ?c" using assms(1) by simp
    from calls_effect [OF this s, of j] have e: "ctx_log c' = ctx_log ?c" "bContextSwitchRequired c'"
      "list_all ctx_no_disable (env ?c i) \<longrightarrow> ctx_due ?c j \<longrightarrow> ctx_due c' j" by blast+
    moreover have "i \<noteq> j \<longrightarrow> ctx_due c j \<longrightarrow> ctx_due ?c j" by (simp add: ctx_due_def)
    moreover have "ctx_log ?c = ctx_log c @ (if ctx_due c i then [i] else [])" using True by simp
    ultimately show ?thesis by presburger
  next
    case False
    then have "c' = c" using assms(2) by (auto simp: task_client_def ctx_due_def)
    then show ?thesis using assms(1) False by simp
  qed
  then show "ctx_log c' = ctx_log c @ (if ctx_due c i then [i] else [])" "bContextSwitchRequired c'"
    "\<forall>c j. list_all ctx_no_disable (env c j) \<Longrightarrow> i \<noteq> j \<Longrightarrow> ctx_due c j \<Longrightarrow> ctx_due c' j" by blast+
qed

lemma loop_effect:
  assumes "bContextSwitchRequired c" "seq_opt (task_client task qw env) [i..<i + k] c = Some c'"
  shows "\<exists>is. ctx_log c' = ctx_log c @ is \<and> sorted is \<and> distinct is \<and> set is \<subseteq> {i..<i + k} \<and>
    ((\<forall>c j. list_all ctx_no_disable (env c j)) \<longrightarrow> (\<forall>j\<in>{i..<i + k}. ctx_due c j \<longrightarrow> j \<in> set is))"
  using assms
proof (induction k arbitrary: i c)
  case (Suc k)
  then obtain c1 where c1: "task_client task qw env i c = Some c1" "seq_opt (task_client task qw env) [Suc i..<Suc i + k] c1 = Some c'"
    by (auto simp: upt_conv_Cons bind_eq_Some_conv simp del: upt_Suc)
  note e = client_effect [OF Suc.prems(1) c1(1)]
  obtain js where js: "ctx_log c' = ctx_log c1 @ js" "sorted js" "distinct js" "set js \<subseteq> {Suc i..<Suc i + k}"
    "(\<forall>c j. list_all ctx_no_disable (env c j)) \<longrightarrow> (\<forall>j\<in>{Suc i..<Suc i + k}. ctx_due c1 j \<longrightarrow> j \<in> set js)"
    using Suc.IH [OF e(2) c1(2)] by blast
  let ?is = "(if ctx_due c i then [i] else []) @ js"
  have "ctx_log c' = ctx_log c @ ?is" using js(1) e(1) by simp
  moreover have "sorted ?is" "distinct ?is" "set ?is \<subseteq> {i..<i + Suc k}" using js(2-4) by auto
  moreover have "\<forall>j\<in>{i..<i + Suc k}. ctx_due c j \<longrightarrow> j \<in> set ?is" if nd: "\<forall>c j. list_all ctx_no_disable (env c j)"
  proof (intro ballI impI)
    fix j assume j: "j \<in> {i..<i + Suc k}" "ctx_due c j"
    show "j \<in> set ?is"
    proof (cases "j = i")
      case False
      then show ?thesis using j js(5) nd e(3) [OF nd _ j(2)] by auto
    qed (use j in simp)
  qed
  ultimately show ?case by blast
qed simp

section \<open>Properties\<close>

definition qw_ex :: "bool \<Rightarrow> bool \<times> bool" where "qw_ex p = (\<not> p, True)"

definition drv_ex :: TWlanDrvIfObj where
  "drv_ex = \<lparr>tWork_queued = False, wl_packet = 0, wl_count = 0, wl_wifi = False, wl_rxwake = 0, wake_locks_enabled = True\<rparr>"

definition ctx0 :: TContext where "ctx0 = snd (context_SetDefaults (context_Init (the (context_Create 0x1000 drv_ex)) drv_ex 0x2000) True)"
definition ctx1 :: TContext where "ctx1 = snd (context_RegisterClient ctx0 0x5000 0x5004 True (''TIMER'' @ [CHR 0x00]) 6)"
definition ctx2 :: TContext where "ctx2 = snd (context_RegisterClient ctx1 0x6000 0x6004 True (''TWIF'' @ [CHR 0x00]) 5)"
definition ctx3 :: TContext where "ctx3 = the (ctx_call Some qw_ex (CtxRequest 1) ctx2)"

lemma ctx_ex_eval:
  "ctx_call Some qw_ex (CtxRequest 1) ctx2 \<noteq> None" "uNumClients ctx2 = 2" "ctx_queued ctx3" "ctx_due ctx3 1" "uNumClients ctx3 = 2"
  by code_simp+

lemma ctx_ex_reach: "reach ctx_init ctx_step (ctx2, False)" "reach ctx_init ctx_step (ctx3, False)"
proof -
  have "context_Create 0x1000 drv_ex = Some (the (context_Create 0x1000 drv_ex))" by (simp add: context_Create_def)
  then have "ctx_init (ctx0, False)" unfolding ctx_init_def ctx0_def by (simp, intro exI conjI) (assumption, simp_all add: drv_ex_def)
  then have "reach ctx_init ctx_step (ctx0, False)" by (rule reach_init)
  then have "reach ctx_init ctx_step (ctx1, False)" unfolding ctx1_def by (rule reach_step) (rule step_register)
  then show 2: "reach ctx_init ctx_step (ctx2, False)" unfolding ctx2_def by (rule reach_step) (rule step_register)
  have q: "queue_work_doc qw_ex" by (simp add: queue_work_doc_def qw_ex_def)
  have "ctx_call Some qw_ex (CtxRequest 1) ctx2 = Some ctx3" using ctx_ex_eval(1) by (simp add: ctx3_def)
  from 2 step_call [OF q _ this] show "reach ctx_init ctx_step (ctx3, False)"
    by (rule reach_step) (simp add: ctx_ex_eval(2))
qed

text \<open>
  C34: The context engine loses no request: in every reachable state, suspends and resumes included, a client that is enabled and has a
  pending request has the driver task queued. The kernel's wake lock is taken exactly while its counter is not zero, which is never negative; and as long as the
  wake locks were not disabled by a suspend, the system is kept from suspending exactly while the task is queued, the counter of the wake lock being one then
  and zero otherwise. Once they were disabled, the counter need not fit the task any more (\<open>wake_lock_lost_release\<close>).
\<close>

theorem context_no_lost_request:
  assumes "reach ctx_init ctx_step (c, disabled_once)"
  shows "(\<forall>i < unat (uNumClients c). ctx_due c i \<longrightarrow> tWork_queued (hOs c)) \<and>
    wl_wifi (hOs c) = (wl_count (hOs c) \<noteq> 0) \<and> wl_count (hOs c) \<ge> 0 \<and>
    (\<not> disabled_once \<longrightarrow> wl_count (hOs c) = of_bool (tWork_queued (hOs c)) \<and> wl_wifi (hOs c) = tWork_queued (hOs c))"
  using ctxq.reach_invar [OF assms] by (auto simp: ctx_idle_def ctx_inv_def ctx_base_def ctx_queued_def ctx_due_def)

theorem context_no_lost_request_witness: "ctx_due ctx3 1 \<and> wl_wifi (hOs ctx3) \<and> wl_count (hOs ctx3) = 1"
  using context_no_lost_request [OF ctx_ex_reach(2)] ctx_ex_eval(3,4) by (simp add: ctx_queued_def)

text \<open>
  C35: One pass of the driver task returns whatever its clients' callbacks request, and calls clients in the order of their
  registration, each at most once; if no callback disables a client, every client that was due is called.
\<close>

theorem context_DriverTask_one_pass:
  assumes "reach ctx_init ctx_step (c, disabled_once)" "tWork_queued (hOs c)" "queue_work_doc qw" "ctx_env_ok env"
  shows "\<exists>c' is. wlanDrvIf_DriverTask 1 qw env c = Some c' \<and> ctx_log c' = ctx_log c @ is \<and> sorted is \<and> distinct is \<and>
    set is \<subseteq> {0..<unat (uNumClients c)} \<and>
    ((\<forall>c j. list_all ctx_no_disable (env c j)) \<longrightarrow> (\<forall>j < unat (uNumClients c). ctx_due c j \<longrightarrow> j \<in> set is))"
proof -
  let ?c = "c\<lparr>hOs := (hOs c)\<lparr>tWork_queued := False\<rparr>\<rparr>" and ?n = "unat (uNumClients c)"
  have i: "ctx_inv (\<not> disabled_once) ?n False c" using ctxq.reach_invar [OF assms(1)] by (simp add: ctx_idle_def)
  obtain c' where c': "wlanDrvIf_DriverTask (Suc 0) qw env c = Some c'" using work_inv [OF assms(3) i] assms(2) by (auto simp: ctx_queued_def)
  then obtain c1 where c1: "seq_opt (task_client (context_DriverTask 0 qw env) qw env) [0..<0 + ?n] ?c = Some c1" "ctx_log c' = ctx_log c1"
    by (auto simp: wlanDrvIf_DriverTask_def Let_def ctx_unlock_def)
  have "bContextSwitchRequired ?c" using i by (simp add: ctx_inv_def ctx_base_def)
  from loop_effect [OF this c1(1)] obtain "is" where "ctx_log c1 = ctx_log ?c @ is" "sorted is" "distinct is" "set is \<subseteq> {0..<?n}"
    "(\<forall>c j. list_all ctx_no_disable (env c j)) \<longrightarrow> (\<forall>j\<in>{0..<?n}. ctx_due ?c j \<longrightarrow> j \<in> set is)" by auto
  then show ?thesis using c' c1(2) by (intro exI [of _ c'] exI [of _ "is"]) (simp add: ctx_due_def)
qed

theorem context_DriverTask_one_pass_witness:
  "\<exists>c' is. wlanDrvIf_DriverTask 1 qw_ex (\<lambda>_ _. []) ctx3 = Some c' \<and> ctx_log c' = ctx_log ctx3 @ is \<and> 1 \<in> set is"
proof -
  have "queue_work_doc qw_ex" "ctx_env_ok (\<lambda>_ _. [])" "tWork_queued (hOs ctx3)"
    using ctx_ex_eval(3) by (simp_all add: queue_work_doc_def qw_ex_def ctx_env_ok_def ctx_queued_def)
  from context_DriverTask_one_pass [OF ctx_ex_reach(2) this(3,1,2)] obtain c' "is" where
    "wlanDrvIf_DriverTask 1 qw_ex (\<lambda>_ _. []) ctx3 = Some c'" "ctx_log c' = ctx_log ctx3 @ is"
    "\<forall>j < unat (uNumClients ctx3). ctx_due ctx3 j \<longrightarrow> j \<in> set is" by auto
  then show ?thesis using ctx_ex_eval(4,5) by auto
qed

text \<open>
  Disabling the wake locks (\<open>wlanDrvIf_Suspend\<close>) while the lock is held loses its release: the counter stays at one
  after they are enabled again, and a balanced use never brings it back to zero.
\<close>

lemma wake_lock_lost_release:
  assumes "wl_count d = 0" "wake_locks_enabled d"
  defines "d1 \<equiv> os_enable_wake_locks (snd (os_wake_unlock (os_disable_wake_locks (snd (os_wake_lock d)))))"
  shows "wl_count d1 = 1" "wl_wifi d1" "snd (os_wake_unlock (snd (os_wake_lock d1))) = d1"
  using assms by (simp_all add: d1_def os_enable_wake_locks_def os_disable_wake_locks_def os_wake_lock_def os_wake_unlock_def Let_def)

end
