(* ===== verification/Wlan_Timer.thy ===== *)
theory Wlan_Timer
  imports Wlan_Queue
begin

text \<open>
  \<open>utils/timer.c\<close>: the timer module. Expired timers wait in two queues of \<open>utils/queue.c\<close>, one for the operational
  state of the driver and one for initialization and recovery, that are threaded through the timer objects;
  the pointer memory of \<open>Wlan_Queue\<close> is part of the state, as are the timer objects. The calls of the OS timers and of
  the context engine, and the expiry callbacks, are a log. What happens while a callback runs is a
  parameter: calls into this module and expiries of other timers.
\<close>

section \<open>Data\<close>

definition EXPIRY_QUE_SIZE :: u32 where "EXPIRY_QUE_SIZE = QUE_UNLIMITED_SIZE"

text \<open>\<open>TI_FIELD_OFFSET (TTimerInfo, tQueNodeHdr)\<close>: two handles stand before the header.\<close>

definition tQueNodeHdr_offset :: u32 where "tQueNodeHdr_offset = 8"

record TTimerInfo =
  hOsTimerObj :: handle
  fExpiryCbFunc :: handle
  hExpiryCbHndl :: handle
  uIntervalMsec :: u32
  bPeriodic :: bool
  bOperStateWhenStarted :: bool
  uTwdInitCountWhenStarted :: u32

datatype tm_ev =
    TmOsStart handle u32
  | TmOsStop handle
  | TmOsDestroy handle
  | TmSchedule u32
  | TmExpiry handle handle handle bool

record TTimerModule =
  uContextId :: u32
  hInitQueue :: "TQueue option"
  hOperQueue :: "TQueue option"
  bOperState :: bool
  uTwdInitCount :: u32
  uTimersCount :: u32
  tm_mem :: que_mem
  tm_info :: "handle \<Rightarrow> TTimerInfo option"
  tm_log :: "tm_ev list"

definition tm_emit :: "tm_ev \<Rightarrow> TTimerModule \<Rightarrow> TTimerModule" where
  "tm_emit e t = t\<lparr>tm_log := tm_log t @ [e]\<rparr>"

section \<open>The module\<close>

definition tmr_Create :: "handle \<Rightarrow> que_mem \<Rightarrow> TTimerModule option" where
  "tmr_Create mem m =
     (if mem = NULL then None
      else Some \<lparr>uContextId = 0, hInitQueue = None, hOperQueue = None, bOperState = False, uTwdInitCount = 0, uTimersCount = 0,
        tm_mem = m, tm_info = (\<lambda>_. None), tm_log = []\<rparr>)"

text \<open>The queue objects that are freed.\<close>

definition tmr_Destroy :: "TTimerModule option \<Rightarrow> ti_status \<times> handle option list" where
  "tmr_Destroy t =
     (case t of None \<Rightarrow> (TI_NOK, []) | Some t \<Rightarrow> (TI_OK, [snd (que_Destroy (hInitQueue t)), snd (que_Destroy (hOperQueue t))]))"

definition tmr_Free :: "TTimerModule option \<Rightarrow> ti_status" where
  "tmr_Free t = (if t = None then TI_NOK else TI_OK)"

lemma Dequeue_less:
  assumes "que_Dequeue m q = (x, m', q')" "x \<noteq> NULL"
  shows "(case q' of None \<Rightarrow> 0 | Some q \<Rightarrow> unat (uCount q)) < (case q of None \<Rightarrow> 0 | Some q \<Rightarrow> unat (uCount q))"
  using assms by (cases q) (auto simp: Let_def unat_gt_0 split: if_splits)

text \<open>\<open>while (que_Dequeue (q) != NULL) {}\<close>\<close>

function que_drain :: "que_mem \<Rightarrow> TQueue option \<Rightarrow> que_mem \<times> TQueue option" where
  "que_drain m q =
     (case que_Dequeue m q of (x, m', q') \<Rightarrow> if x \<noteq> NULL then que_drain m' q' else (m', q'))"
  by pat_completeness auto
termination
  by (relation "measure (\<lambda>(m, q). case q of None \<Rightarrow> 0 | Some q \<Rightarrow> unat (uCount q))")
    (auto intro: Dequeue_less [OF sym])

declare que_drain.simps [simp del]

definition tmr_ClearInitQueue :: "TTimerModule \<Rightarrow> TTimerModule" where
  "tmr_ClearInitQueue t = (let (m, q) = que_drain (tm_mem t) (hInitQueue t) in t\<lparr>tm_mem := m, hInitQueue := q\<rparr>)"

definition tmr_ClearOperQueue :: "TTimerModule \<Rightarrow> TTimerModule" where
  "tmr_ClearOperQueue t = (let (m, q) = que_drain (tm_mem t) (hOperQueue t) in t\<lparr>tm_mem := m, hOperQueue := q\<rparr>)"

text \<open>\<open>p1\<close> and \<open>p2\<close> are what the allocator returned for the queues, \<open>cid\<close> is what \<open>context_RegisterClient\<close> returned.\<close>

definition tmr_Init :: "TTimerModule \<Rightarrow> handle \<Rightarrow> handle \<Rightarrow> u32 \<Rightarrow> TTimerModule" where
  "tmr_Init t p1 p2 cid =
     (let t = t\<lparr>bOperState := False, uTimersCount := 0, uTwdInitCount := 0\<rparr>;
          (q1, m1) = que_Create p1 EXPIRY_QUE_SIZE tQueNodeHdr_offset (tm_mem t);
          t = t\<lparr>hInitQueue := q1, tm_mem := m1\<rparr>;
          (q2, m2) = que_Create p2 EXPIRY_QUE_SIZE tQueNodeHdr_offset (tm_mem t);
          t = t\<lparr>hOperQueue := q2, tm_mem := m2\<rparr>
      in t\<lparr>uContextId := cid\<rparr>)"

definition tmr_UpdateDriverState :: "TTimerModule \<Rightarrow> bool \<Rightarrow> TTimerModule" where
  "tmr_UpdateDriverState t b =
     (if b = bOperState t then t
      else
        let t = t\<lparr>bOperState := b\<rparr>
        in if b then
             let t = t\<lparr>uTwdInitCount := uTwdInitCount t + 1\<rparr>;
                 (m, q) = que_drain (tm_mem t) (hInitQueue t);
                 t = t\<lparr>tm_mem := m, hInitQueue := q\<rparr>
             in tm_emit (TmSchedule (uContextId t)) t
           else t)"

section \<open>Timers\<close>

text \<open>\<open>p\<close> is the allocated timer object, \<open>osT\<close> what \<open>os_timerCreate\<close> returned; the object is cleared, its queue header included.\<close>

definition tmr_CreateTimer :: "TTimerModule \<Rightarrow> handle \<Rightarrow> handle \<Rightarrow> handle \<times> TTimerModule" where
  "tmr_CreateTimer t p osT =
     (if p = NULL then (NULL, t)
      else
        let hdr = p + tQueNodeHdr_offset;
            t = t\<lparr>tm_mem := (tm_mem t)\<lparr>pNext := (pNext (tm_mem t))(hdr := 0), pPrev := (pPrev (tm_mem t))(hdr := 0)\<rparr>\<rparr>
        in if osT = NULL then (NULL, t)
           else (p, t\<lparr>tm_info := (tm_info t)(p \<mapsto> \<lparr>hOsTimerObj = osT, fExpiryCbFunc = NULL, hExpiryCbHndl = NULL, uIntervalMsec = 0,
                        bPeriodic = False, bOperStateWhenStarted = False, uTwdInitCountWhenStarted = 0\<rparr>),
                      uTimersCount := uTimersCount t + 1\<rparr>))"

definition tmr_DestroyTimer :: "TTimerModule \<Rightarrow> handle \<Rightarrow> ti_status \<times> TTimerModule" where
  "tmr_DestroyTimer t h =
     (case tm_info t h of
        None \<Rightarrow> (TI_NOK, t)
      | Some i \<Rightarrow>
          let t = (if hOsTimerObj i \<noteq> NULL then (tm_emit (TmOsDestroy h) t)\<lparr>uTimersCount := uTimersCount t - 1\<rparr> else t)
          in (TI_OK, t\<lparr>tm_info := (tm_info t)(h := None)\<rparr>))"

definition tmr_StartTimer :: "TTimerModule \<Rightarrow> handle \<Rightarrow> handle \<Rightarrow> handle \<Rightarrow> u32 \<Rightarrow> bool \<Rightarrow> TTimerModule" where
  "tmr_StartTimer t h f hnd ms per =
     (case tm_info t h of
        None \<Rightarrow> t
      | Some i \<Rightarrow>
          let i = i\<lparr>fExpiryCbFunc := f, hExpiryCbHndl := hnd, uIntervalMsec := ms, bPeriodic := per,
                    bOperStateWhenStarted := bOperState t, uTwdInitCountWhenStarted := uTwdInitCount t\<rparr>
          in tm_emit (TmOsStart h ms) (t\<lparr>tm_info := (tm_info t)(h \<mapsto> i)\<rparr>))"

definition tmr_StopTimer :: "TTimerModule \<Rightarrow> handle \<Rightarrow> TTimerModule" where
  "tmr_StopTimer t h =
     (case tm_info t h of
        None \<Rightarrow> t
      | Some i \<Rightarrow> let t = tm_emit (TmOsStop h) t in t\<lparr>tm_info := (tm_info t)(h \<mapsto> i\<lparr>bPeriodic := False\<rparr>)\<rparr>)"

text \<open>The queue for the operational state or for the other, and the two queue calls.\<close>

definition tm_queue :: "bool \<Rightarrow> TTimerModule \<Rightarrow> TQueue option" where
  "tm_queue b t = (if b then hOperQueue t else hInitQueue t)"

definition tm_set_queue :: "bool \<Rightarrow> que_mem \<times> TQueue option \<Rightarrow> TTimerModule \<Rightarrow> TTimerModule" where
  "tm_set_queue b s t = (if b then t\<lparr>tm_mem := fst s, hOperQueue := snd s\<rparr> else t\<lparr>tm_mem := fst s, hInitQueue := snd s\<rparr>)"

definition tmr_GetExpiry :: "TTimerModule \<Rightarrow> handle \<Rightarrow> TTimerModule" where
  "tmr_GetExpiry t h =
     (case tm_info t h of
        None \<Rightarrow> t
      | Some i \<Rightarrow>
          let t = (if bOperStateWhenStarted i then tm_set_queue True (snd (que_Enqueue (tm_mem t) (tm_queue True t) h)) t
                   else if \<not> bOperState t then tm_set_queue False (snd (que_Enqueue (tm_mem t) (tm_queue False t) h)) t
                   else t)
          in tm_emit (TmSchedule (uContextId t)) t)"

text \<open>What happens while an expiry callback runs.\<close>

datatype tm_req = TmStart handle handle handle u32 bool | TmStop handle | TmState bool | TmExpire handle

type_synonym tm_env = "TTimerModule \<Rightarrow> handle \<Rightarrow> tm_req list"

fun tm_call :: "TTimerModule \<Rightarrow> tm_req \<Rightarrow> TTimerModule" where
  "tm_call t (TmStart h f hnd ms per) = tmr_StartTimer t h f hnd ms per"
| "tm_call t (TmStop h) = tmr_StopTimer t h"
| "tm_call t (TmState b) = tmr_UpdateDriverState t b"
| "tm_call t (TmExpire h) = tmr_GetExpiry t h"

text \<open>One expiry: the callback, and the restart of a periodic timer; it is read again after the callback.\<close>

definition handle_one :: "tm_env \<Rightarrow> handle \<Rightarrow> TTimerInfo \<Rightarrow> TTimerModule \<Rightarrow> TTimerModule" where
  "handle_one env h i t =
     (let bTwdInitOccured = (uTwdInitCount t \<noteq> uTwdInitCountWhenStarted i);
          t = tm_emit (TmExpiry h (fExpiryCbFunc i) (hExpiryCbHndl i) bTwdInitOccured) t;
          t = foldl tm_call t (env t h)
      in case tm_info t h of
           None \<Rightarrow> t
         | Some i \<Rightarrow> if bPeriodic i then tmr_StartTimer t h (fExpiryCbFunc i) (hExpiryCbHndl i) (uIntervalMsec i) (bPeriodic i) else t)"

text \<open>\<open>None\<close>: the loop does not end, or it meets a timer that was destroyed.\<close>

partial_function (option) tmr_HandleExpiry :: "tm_env \<Rightarrow> TTimerModule \<Rightarrow> TTimerModule option" where
  "tmr_HandleExpiry env t =
     (case que_Dequeue (tm_mem t) (tm_queue (bOperState t) t) of
        (h, s) \<Rightarrow>
          let t = tm_set_queue (bOperState t) s t
          in if h = NULL then Some t
             else case tm_info t h of None \<Rightarrow> None | Some i \<Rightarrow> tmr_HandleExpiry env (handle_one env h i t))"

declare tmr_HandleExpiry.simps [code]

section \<open>Two queues threaded through the timers\<close>

definition qok :: "que_mem \<Rightarrow> TQueue \<Rightarrow> bool" where
  "qok m q \<longleftrightarrow> que_wf m q \<and> uLimit q = EXPIRY_QUE_SIZE \<and> uNodeHeaderOffset q = tQueNodeHdr_offset"

text \<open>\<open>A\<close> is the set of live timers: their headers are apart from the queues' own, and linked only if the timer is queued.\<close>

definition two_ok :: "que_mem \<Rightarrow> TQueue \<Rightarrow> TQueue \<Rightarrow> handle set \<Rightarrow> bool" where
  "two_ok m q r A \<longleftrightarrow> qok m q \<and> qok m r \<and> que_disjoint m q r \<and>
     (\<forall>h\<in>A. h \<noteq> NULL \<and> h + 8 \<notin> {NULL, tHead q, tHead r} \<and>
       (pNext m (h + 8) \<noteq> NULL \<longrightarrow> h \<in> set (que_items m q) \<union> set (que_items m r))) \<and>
     set (que_items m q) \<union> set (que_items m r) \<subseteq> A"

lemma two_ok_sym: "two_ok m q r A \<Longrightarrow> two_ok m r q A"
  by (auto simp: two_ok_def que_disjoint_def)

lemma qok_room:
  assumes "qok m q"
  shows "uCount q < uLimit q"
proof -
  let ?xs = "tHead q # que_nodes m q"
  have d: "distinct ?xs" "0 \<notin> set ?xs" using assms by (auto simp: qok_def que_wf_def)
  have "length ?xs = card (set ?xs)" using d(1) distinct_card by metis
  also have "\<dots> \<le> card (UNIV - {0 :: u32})" using d(2) by (intro card_mono) auto
  also have "\<dots> = 2 ^ 32 - 1" by (simp add: card_Diff_singleton card_word)
  finally have "unat (uCount q) < 2 ^ 32 - 1" by simp
  then show ?thesis using assms by (simp add: qok_def EXPIRY_QUE_SIZE_def QUE_UNLIMITED_SIZE_def word_less_nat_alt)
qed

lemma item_node: "qok m q \<Longrightarrow> h \<in> set (que_items m q) \<longleftrightarrow> h + 8 \<in> set (que_nodes m q)"
  by (auto simp: qok_def que_items_nodes tQueNodeHdr_offset_def intro: image_eqI [where x = "h + 8"])

lemma item_linked:
  assumes "qok m q" "h \<in> set (que_items m q)"
  shows "pNext m (h + 8) \<noteq> NULL"
proof
  assume "pNext m (h + 8) = NULL"
  then have "h + 8 \<notin> set (tHead q # que_nodes m q)" using assms(1) by (intro que_wf_not_linked) (simp_all add: qok_def)
  then show False using item_node [OF assms(1)] assms(2) by simp
qed

lemma two_linked:
  assumes "two_ok m q r A" "h \<in> A"
  shows "pNext m (h + 8) \<noteq> NULL \<longleftrightarrow> h \<in> set (que_items m q) \<union> set (que_items m r)"
  using assms item_linked by (auto simp: two_ok_def)

lemma AddToHead_next: "a \<notin> {n, p} \<Longrightarrow> pNext (AddToHead n p m) a = pNext m a"
  by (simp add: que_op_defs)

lemma two_enq:
  assumes "two_ok m q r A" "h \<in> A"
  shows "\<exists>st m' q'. que_Enqueue m (Some q) h = (st, m', Some q') \<and> two_ok m' q' r A \<and> que_items m' r = que_items m r \<and>
    que_items m' q' = que_items m q @ (if h \<in> set (que_items m q) \<union> set (que_items m r) then [] else [h])"
proof (cases "h \<in> set (que_items m q) \<union> set (que_items m r)")
  case True
  then have "pNext m (h + 8) \<noteq> NULL" using two_linked [OF assms] by simp
  then have "que_Enqueue m (Some q) h = (TI_NOK, m, Some q)"
    using assms(1) qok_room [of m q] by (simp add: two_ok_def qok_def tQueNodeHdr_offset_def)
  then show ?thesis using True assms(1) by simp
next
  case False
  have ok: "qok m q" "qok m r" "que_disjoint m q r" and hA: "h \<noteq> NULL" "h + 8 \<notin> {NULL, tHead q, tHead r}"
    using assms by (auto simp: two_ok_def)
  have wf: "que_wf m q" "que_wf m r" and off: "uNodeHeaderOffset q = 8" using ok by (simp_all add: qok_def tQueNodeHdr_offset_def)
  have nx: "pNext m (h + 8) = NULL" using two_linked [OF assms] False by simp
  have fresh: "que_fresh m q h" using hA nx off by (simp add: que_fresh_def)
  have e: "que_Enqueue m (Some q) h = (TI_OK, AddToHead (h + 8) (tHead q) m, Some (que_count_inc q))"
    using qok_room [OF ok(1)] off nx by simp
  let ?m = "AddToHead (h + 8) (tHead q) m" and ?q = "que_count_inc q"
  note a = que_Enqueue_accept [OF wf(1) qok_room [OF ok(1)] fresh e]
  note f = que_Enqueue_frame [OF wf ok(3) fresh qok_room [OF ok(1)] e]
  have k: "qok ?m ?q" "qok ?m r" using a f ok by (simp_all add: qok_def)
  have items: "que_items ?m ?q = que_items m q @ [h]" "que_items ?m r = que_items m r" using a f by simp_all
  have "two_ok ?m ?q r A" unfolding two_ok_def
  proof (intro conjI ballI impI)
    fix h' assume h': "h' \<in> A"
    then show "h' \<noteq> NULL" "h' + 8 \<notin> {NULL, tHead ?q, tHead r}" using assms(1) by (auto simp: two_ok_def)
    assume l: "pNext ?m (h' + 8) \<noteq> NULL"
    show "h' \<in> set (que_items ?m ?q) \<union> set (que_items ?m r)"
    proof (cases "h' = h")
      case ne: False
      have "h' + 8 \<noteq> tHead q" using assms(1) h' by (auto simp: two_ok_def)
      then have "pNext m (h' + 8) \<noteq> NULL" using l ne AddToHead_next [of "h' + 8" "h + 8" "tHead q" m] by simp
      then show ?thesis using two_linked [OF assms(1) h'] items by auto
    qed (use items in simp)
  qed (use k f assms items in \<open>auto simp: two_ok_def\<close>)
  then show ?thesis using e items False by simp
qed

lemma two_deq_Nil: "two_ok m q r A \<Longrightarrow> que_items m q = [] \<Longrightarrow> que_Dequeue m (Some q) = (NULL, m, Some q)"
  using length_que_items [of m q] by (simp add: unat_eq_zero)

lemma Dequeue_next:
  assumes "que_wf m q" "que_Dequeue m (Some q) = (x, m', Some q')" "pNext m' a \<noteq> NULL"
  shows "pNext m a \<noteq> NULL"
proof (cases "uCount q = 0 \<or> a \<notin> {pPrev m (pPrev m (tHead q)), pPrev m (tHead q)}")
  case True
  then show ?thesis using assms(2,3) by (auto simp: Let_def que_op_defs split: if_splits)
next
  case False
  have "pPrev m (tHead q) \<in> que_cells m q" using que_cells_closed [OF assms(1), of "tHead q"] by (simp add: que_cells_def)
  then have "a \<in> que_cells m q" using False que_cells_closed [OF assms(1), of "pPrev m (tHead q)"] by auto
  then show ?thesis using que_wf_not_linked [OF assms(1), of a] by (auto simp: que_cells_def)
qed

lemma two_deq_Cons:
  assumes "two_ok m q r A" "que_items m q = h # hs"
  shows "\<exists>m' q'. que_Dequeue m (Some q) = (h, m', Some q') \<and> h \<noteq> NULL \<and> two_ok m' q' r A \<and> que_items m' q' = hs \<and>
    que_items m' r = que_items m r"
proof -
  have ok: "qok m q" "qok m r" "que_disjoint m q r" using assms by (auto simp: two_ok_def)
  have wf: "que_wf m q" "que_wf m r" and off: "uNodeHeaderOffset q = 8" using ok by (simp_all add: qok_def tQueNodeHdr_offset_def)
  obtain m' q' where d: "que_Dequeue m (Some q) = (h, m', Some q')" "q' = q\<lparr>uCount := uCount q - 1\<rparr>" "h \<noteq> NULL" "que_wf m' q'"
    "que_items m' q' = hs" "pNext m' (h + uNodeHeaderOffset q) = NULL" using que_Dequeue_step [OF wf(1) assms(2)] by blast
  note f = que_Dequeue_frame [OF wf ok(3) d(1)]
  have "two_ok m' q' r A" unfolding two_ok_def
  proof (intro conjI ballI impI)
    fix h' assume h': "h' \<in> A"
    then show "h' \<noteq> NULL" "h' + 8 \<notin> {NULL, tHead q', tHead r}" using assms(1) d(2) by (auto simp: two_ok_def)
    assume l: "pNext m' (h' + 8) \<noteq> NULL"
    then have "h' \<noteq> h" using d(6) off by auto
    moreover have "h' \<in> set (que_items m q) \<union> set (que_items m r)"
      using Dequeue_next [OF wf(1) d(1) l] two_linked [OF assms(1) h'] by simp
    ultimately show "h' \<in> set (que_items m' q') \<union> set (que_items m' r)" using assms(2) d(5) f by auto
  qed (use f d ok assms in \<open>auto simp: two_ok_def qok_def\<close>)
  then show ?thesis using d f by blast
qed

lemma two_drain:
  assumes "two_ok m q r A"
  shows "\<exists>m' q'. que_drain m (Some q) = (m', Some q') \<and> two_ok m' q' r A \<and> que_items m' q' = [] \<and> que_items m' r = que_items m r"
  using assms
proof (induction "que_items m q" arbitrary: m q)
  case Nil
  then show ?case using two_deq_Nil [OF Nil(2)] by (subst que_drain.simps) simp
next
  case (Cons h hs)
  obtain m' q' where d: "que_Dequeue m (Some q) = (h, m', Some q')" "h \<noteq> NULL" "two_ok m' q' r A" "que_items m' q' = hs"
    "que_items m' r = que_items m r" using two_deq_Cons [OF Cons.prems Cons.hyps(2) [symmetric]] by blast
  from Cons.hyps(1) [OF d(4) [symmetric] d(3)] d show ?case by (subst que_drain.simps) simp
qed

section \<open>Invariant of the module\<close>

definition tm_items :: "bool \<Rightarrow> TTimerModule \<Rightarrow> handle list" where
  "tm_items b t = (case tm_queue b t of None \<Rightarrow> [] | Some q \<Rightarrow> que_items (tm_mem t) q)"

definition tm_wf :: "TTimerModule \<Rightarrow> bool" where [wf_defs]:
  "tm_wf t \<longleftrightarrow> (\<exists>qi qo. tm_queue False t = Some qi \<and> tm_queue True t = Some qo \<and> two_ok (tm_mem t) qi qo (dom (tm_info t)))"

lemma tm_wfE:
  assumes "tm_wf t"
  obtains q r where "tm_queue b t = Some q" "tm_queue (\<not> b) t = Some r" "two_ok (tm_mem t) q r (dom (tm_info t))"
    "tm_items b t = que_items (tm_mem t) q" "tm_items (\<not> b) t = que_items (tm_mem t) r"
  using assms by (cases b) (auto simp: tm_wf_def tm_items_def dest: two_ok_sym)

lemma tm_wfI: "tm_queue b t = Some q \<Longrightarrow> tm_queue (\<not> b) t = Some r \<Longrightarrow> two_ok (tm_mem t) q r (dom (tm_info t)) \<Longrightarrow> tm_wf t"
  by (cases b) (auto simp: tm_wf_def dest: two_ok_sym)

lemma tm_emit_simps [simp]:
  "tm_queue b (tm_emit e t) = tm_queue b t" "tm_mem (tm_emit e t) = tm_mem t" "tm_info (tm_emit e t) = tm_info t"
  "bOperState (tm_emit e t) = bOperState t" "uTwdInitCount (tm_emit e t) = uTwdInitCount t" "tm_log (tm_emit e t) = tm_log t @ [e]"
  "tm_wf (tm_emit e t) = tm_wf t" "tm_items b (tm_emit e t) = tm_items b t"
  by (simp_all add: tm_emit_def tm_queue_def tm_wf_def tm_items_def split: option.split)

lemma tm_set_queue_simps [simp]:
  "tm_queue b (tm_set_queue b s t) = snd s" "tm_queue (\<not> b) (tm_set_queue b s t) = tm_queue (\<not> b) t"
  "tm_mem (tm_set_queue b s t) = fst s" "tm_info (tm_set_queue b s t) = tm_info t" "bOperState (tm_set_queue b s t) = bOperState t"
  "tm_log (tm_set_queue b s t) = tm_log t" "uTwdInitCount (tm_set_queue b s t) = uTwdInitCount t"
  "uContextId (tm_set_queue b s t) = uContextId t"
  by (simp_all add: tm_set_queue_def tm_queue_def)

lemma set_queue_wf:
  assumes "two_ok m q r (dom (tm_info t))" "tm_queue (\<not> b) t = Some r"
  shows "tm_wf (tm_set_queue b (m, Some q) t)" "tm_items b (tm_set_queue b (m, Some q) t) = que_items m q"
    "tm_items (\<not> b) (tm_set_queue b (m, Some q) t) = que_items m r"
  using assms by (auto intro: tm_wfI [where b = b] simp: tm_items_def)

definition tm_enq :: "bool \<Rightarrow> handle \<Rightarrow> TTimerModule \<Rightarrow> TTimerModule" where
  "tm_enq b h t = tm_set_queue b (snd (que_Enqueue (tm_mem t) (tm_queue b t) h)) t"

lemma tm_enq_wf:
  assumes "tm_wf t" "h \<in> dom (tm_info t)"
  shows "tm_wf (tm_enq b h t)" "tm_items b (tm_enq b h t) = tm_items b t @ (if h \<in> set (tm_items b t) \<union> set (tm_items (\<not> b) t) then [] else [h])"
    "tm_items (\<not> b) (tm_enq b h t) = tm_items (\<not> b) t"
proof -
  obtain q r where q: "tm_queue b t = Some q" "tm_queue (\<not> b) t = Some r" "two_ok (tm_mem t) q r (dom (tm_info t))"
    "tm_items b t = que_items (tm_mem t) q" "tm_items (\<not> b) t = que_items (tm_mem t) r" using tm_wfE [OF assms(1)] .
  obtain st m' q' where e: "que_Enqueue (tm_mem t) (Some q) h = (st, m', Some q')" "two_ok m' q' r (dom (tm_info t))"
    "que_items m' r = que_items (tm_mem t) r"
    "que_items m' q' = que_items (tm_mem t) q @ (if h \<in> set (que_items (tm_mem t) q) \<union> set (que_items (tm_mem t) r) then [] else [h])"
    using two_enq [OF q(3) assms(2)] by blast
  have r: "tm_enq b h t = tm_set_queue b (m', Some q') t" using q(1) e(1) by (simp add: tm_enq_def del: que_Enqueue.simps)
  note s = set_queue_wf [OF e(2) q(2)]
  show "tm_wf (tm_enq b h t)" "tm_items b (tm_enq b h t) = tm_items b t @ (if h \<in> set (tm_items b t) \<union> set (tm_items (\<not> b) t) then [] else [h])"
    "tm_items (\<not> b) (tm_enq b h t) = tm_items (\<not> b) t"
    unfolding r using s e(3,4) q(4,5) by simp_all
qed

lemma tm_cong:
  assumes "tm_wf t" "tm_mem t' = tm_mem t" "hInitQueue t' = hInitQueue t" "hOperQueue t' = hOperQueue t" "dom (tm_info t') = dom (tm_info t)"
  shows "tm_wf t'" "tm_items b t' = tm_items b t"
  using assms by (simp_all add: tm_wf_def tm_items_def tm_queue_def split: option.split)

lemma Start_fields [simp]:
  "tm_mem (tmr_StartTimer t h f hnd ms per) = tm_mem t" "hInitQueue (tmr_StartTimer t h f hnd ms per) = hInitQueue t"
  "hOperQueue (tmr_StartTimer t h f hnd ms per) = hOperQueue t" "dom (tm_info (tmr_StartTimer t h f hnd ms per)) = dom (tm_info t)"
  "bOperState (tmr_StartTimer t h f hnd ms per) = bOperState t"
  by (auto simp: tmr_StartTimer_def tm_emit_def Let_def split: option.split)

lemma Stop_fields [simp]:
  "tm_mem (tmr_StopTimer t h) = tm_mem t" "hInitQueue (tmr_StopTimer t h) = hInitQueue t" "hOperQueue (tmr_StopTimer t h) = hOperQueue t"
  "dom (tm_info (tmr_StopTimer t h)) = dom (tm_info t)" "bOperState (tmr_StopTimer t h) = bOperState t"
  by (auto simp: tmr_StopTimer_def tm_emit_def Let_def split: option.split)

definition tm_clear :: "bool \<Rightarrow> TTimerModule \<Rightarrow> TTimerModule" where
  "tm_clear b t = tm_set_queue b (que_drain (tm_mem t) (tm_queue b t)) t"

lemma tm_clear_wf:
  assumes "tm_wf t"
  shows "tm_wf (tm_clear b t)" "tm_items b (tm_clear b t) = []" "tm_items (\<not> b) (tm_clear b t) = tm_items (\<not> b) t"
proof -
  obtain q r where q: "tm_queue b t = Some q" "tm_queue (\<not> b) t = Some r" "two_ok (tm_mem t) q r (dom (tm_info t))"
    "tm_items b t = que_items (tm_mem t) q" "tm_items (\<not> b) t = que_items (tm_mem t) r" using tm_wfE [OF assms] .
  obtain m' q' where d: "que_drain (tm_mem t) (Some q) = (m', Some q')" "two_ok m' q' r (dom (tm_info t))" "que_items m' q' = []"
    "que_items m' r = que_items (tm_mem t) r" using two_drain [OF q(3)] by blast
  have r: "tm_clear b t = tm_set_queue b (m', Some q') t" using q(1) d(1) by (simp add: tm_clear_def)
  show "tm_wf (tm_clear b t)" "tm_items b (tm_clear b t) = []" "tm_items (\<not> b) (tm_clear b t) = tm_items (\<not> b) t"
    unfolding r using set_queue_wf [OF d(2) q(2)] d(3,4) q(5) by simp_all
qed

lemma clear_eqs:
  "tmr_ClearInitQueue t = tm_clear False t" "tmr_ClearOperQueue t = tm_clear True t"
  by (simp_all add: tmr_ClearInitQueue_def tmr_ClearOperQueue_def tm_clear_def tm_set_queue_def tm_queue_def case_prod_beta)

lemma UpdateDriverState_eq:
  "tmr_UpdateDriverState t b =
     (if b = bOperState t then t
      else if b then tm_emit (TmSchedule (uContextId t)) (tm_clear False (t\<lparr>bOperState := True, uTwdInitCount := uTwdInitCount t + 1\<rparr>))
      else t\<lparr>bOperState := False\<rparr>)"
  by (simp add: tmr_UpdateDriverState_def tm_clear_def tm_set_queue_def tm_queue_def Let_def case_prod_beta)

lemma UpdateDriverState_wf:
  assumes "tm_wf t"
  shows "tm_wf (tmr_UpdateDriverState t b)"
proof -
  have "tm_wf (t\<lparr>bOperState := True, uTwdInitCount := uTwdInitCount t + 1\<rparr>)" "tm_wf (t\<lparr>bOperState := False\<rparr>)"
    by (rule tm_cong(1) [OF assms]; simp)+
  then show ?thesis using assms tm_clear_wf(1) by (simp add: UpdateDriverState_eq)
qed

lemma GetExpiry_eq:
  "tmr_GetExpiry t h =
     (case tm_info t h of None \<Rightarrow> t | Some i \<Rightarrow> tm_emit (TmSchedule (uContextId t))
        (if bOperStateWhenStarted i then tm_enq True h t else if \<not> bOperState t then tm_enq False h t else t))"
  by (simp add: tmr_GetExpiry_def tm_enq_def Let_def split: option.split)

lemma GetExpiry_wf: "tm_wf t \<Longrightarrow> tm_wf (tmr_GetExpiry t h)"
  using tm_enq_wf(1) by (auto simp: GetExpiry_eq split: option.split)

lemma tm_call_wf:
  assumes "tm_wf t"
  shows "tm_wf (tm_call t r)"
  by (cases r) (use assms UpdateDriverState_wf GetExpiry_wf tm_cong(1) [OF assms] in simp_all)

lemma tm_calls_wf: "tm_wf t \<Longrightarrow> tm_wf (foldl tm_call t rs)"
  by (induction rs arbitrary: t) (simp_all add: tm_call_wf)

lemma handle_one_wf:
  assumes "tm_wf t"
  shows "tm_wf (handle_one env h i t)"
proof -
  let ?t = "tm_emit (TmExpiry h (fExpiryCbFunc i) (hExpiryCbHndl i) (uTwdInitCount t \<noteq> uTwdInitCountWhenStarted i)) t"
  have w: "tm_wf (foldl tm_call ?t (env ?t h))" by (rule tm_calls_wf) (simp add: assms)
  have "tm_wf (tmr_StartTimer (foldl tm_call ?t (env ?t h)) h f hnd ms per)" for f hnd ms per
    by (rule tm_cong(1) [OF w]) simp_all
  then show ?thesis using w by (simp add: handle_one_def Let_def split: option.split)
qed

text \<open>One round of \<open>tmr_HandleExpiry\<close>.\<close>

lemma HandleExpiry_Nil:
  assumes "tm_wf t" "tm_items (bOperState t) t = []"
  shows "tmr_HandleExpiry env t = Some t"
proof -
  obtain q r where q: "tm_queue (bOperState t) t = Some q" "tm_queue (\<not> bOperState t) t = Some r" "two_ok (tm_mem t) q r (dom (tm_info t))"
    "tm_items (bOperState t) t = que_items (tm_mem t) q" using tm_wfE [OF assms(1)] .
  have "que_items (tm_mem t) q = []" using q(4) assms(2) by simp
  note d = two_deq_Nil [OF q(3) this]
  have "tm_set_queue (bOperState t) (tm_mem t, Some q) t = t" using q(1) by (auto simp: tm_set_queue_def tm_queue_def)
  then show ?thesis by (subst tmr_HandleExpiry.simps) (simp add: q(1) d Let_def del: que_Dequeue.simps)
qed

lemma HandleExpiry_Cons:
  assumes "tm_wf t" "tm_items (bOperState t) t = h # hs"
  shows "\<exists>t1 i. tmr_HandleExpiry env t = tmr_HandleExpiry env (handle_one env h i t1) \<and> tm_wf t1 \<and> tm_info t h = Some i \<and>
    tm_items (bOperState t) t1 = hs \<and> tm_items (\<not> bOperState t) t1 = tm_items (\<not> bOperState t) t \<and> tm_info t1 = tm_info t \<and>
    bOperState t1 = bOperState t \<and> tm_log t1 = tm_log t \<and> uTwdInitCount t1 = uTwdInitCount t"
proof -
  obtain q r where q: "tm_queue (bOperState t) t = Some q" "tm_queue (\<not> bOperState t) t = Some r" "two_ok (tm_mem t) q r (dom (tm_info t))"
    "tm_items (bOperState t) t = que_items (tm_mem t) q" "tm_items (\<not> bOperState t) t = que_items (tm_mem t) r" using tm_wfE [OF assms(1)] .
  have items: "que_items (tm_mem t) q = h # hs" using q(4) assms(2) by simp
  obtain m' q' where d: "que_Dequeue (tm_mem t) (Some q) = (h, m', Some q')" "h \<noteq> NULL" "two_ok m' q' r (dom (tm_info t))"
    "que_items m' q' = hs" "que_items m' r = que_items (tm_mem t) r" using two_deq_Cons [OF q(3) items] by blast
  have "h \<in> dom (tm_info t)" using q(3) items by (auto simp: two_ok_def)
  then obtain i where i: "tm_info t h = Some i" by blast
  let ?t1 = "tm_set_queue (bOperState t) (m', Some q') t"
  have "tmr_HandleExpiry env t = tmr_HandleExpiry env (handle_one env h i ?t1)"
    by (subst tmr_HandleExpiry.simps) (simp add: q(1) d Let_def i del: que_Dequeue.simps)
  then show ?thesis using set_queue_wf [OF d(3) q(2)] d(4,5) q(5) i by (intro exI [of _ ?t1] exI [of _ i]) simp
qed

lemma HandleExpiry_wf:
  assumes "tm_wf t" "tmr_HandleExpiry env t = Some t'"
  shows "tm_wf t'"
proof -
  let ?P = "\<lambda>env t t'. tm_wf t \<longrightarrow> tm_wf t'"
  have "?P env t t'"
  proof (rule tmr_HandleExpiry.raw_induct [where P = ?P, OF _ assms(2)])
    fix rec env t t'
    assume IH: "\<And>env t t'. rec env t = Some t' \<Longrightarrow> tm_wf t \<longrightarrow> tm_wf t'"
      and r: "(case que_Dequeue (tm_mem t) (tm_queue (bOperState t) t) of
        (h, s) \<Rightarrow> let t = tm_set_queue (bOperState t) s t
          in if h = NULL then Some t else case tm_info t h of None \<Rightarrow> None | Some i \<Rightarrow> rec env (handle_one env h i t)) = Some t'"
    show "tm_wf t \<longrightarrow> tm_wf t'"
    proof
      assume wf: "tm_wf t"
      then obtain q r where q: "tm_queue (bOperState t) t = Some q" "tm_queue (\<not> bOperState t) t = Some r" "two_ok (tm_mem t) q r (dom (tm_info t))"
        by (elim tm_wfE [where b = "bOperState t"])
      show "tm_wf t'"
      proof (cases "que_items (tm_mem t) q")
        case Nil
        have "tm_set_queue (bOperState t) (tm_mem t, Some q) t = t" using q(1) by (auto simp: tm_set_queue_def tm_queue_def)
        then show ?thesis using r wf q(1) two_deq_Nil [OF q(3) Nil] by (simp add: Let_def del: que_Dequeue.simps)
      next
        case (Cons h hs)
        obtain m' q' where d: "que_Dequeue (tm_mem t) (Some q) = (h, m', Some q')" "h \<noteq> NULL" "two_ok m' q' r (dom (tm_info t))"
          using two_deq_Cons [OF q(3) Cons] by blast
        note w = set_queue_wf(1) [OF d(3) q(2)]
        obtain i where "rec env (handle_one env h i (tm_set_queue (bOperState t) (m', Some q') t)) = Some t'"
          using r q(1) d(1,2) by (auto simp: Let_def simp del: que_Dequeue.simps split: option.splits)
        from IH [OF this] handle_one_wf [OF w] show ?thesis by blast
      qed
    qed
  qed
  then show ?thesis using assms(1) by blast
qed

text \<open>
  Creating and destroying timers. The allocator returns memory that no live timer and no queue object uses; it may be that of a timer that
  was destroyed.
\<close>

definition timer_alloc_ok :: "TTimerModule \<Rightarrow> handle \<Rightarrow> bool" where
  "timer_alloc_ok t p \<longleftrightarrow> p \<notin> dom (tm_info t) \<and> p + 8 \<noteq> NULL \<and>
     (\<forall>b q. tm_queue b t = Some q \<longrightarrow> p + 8 \<noteq> tHead q)"

lemma CreateTimer_wf:
  assumes "tm_wf t" "timer_alloc_ok t p"
  shows "tm_wf (snd (tmr_CreateTimer t p osT))"
proof (cases "p = NULL")
  case False
  obtain q r where q: "tm_queue True t = Some q" "tm_queue False t = Some r" "two_ok (tm_mem t) q r (dom (tm_info t))"
    by (rule tm_wfE [OF assms(1), where b = True]) simp
  let ?m = "(tm_mem t)\<lparr>pNext := (pNext (tm_mem t))(p + 8 := 0), pPrev := (pPrev (tm_mem t))(p + 8 := 0)\<rparr>"
  have ok: "qok (tm_mem t) q" "qok (tm_mem t) r" "p \<notin> set (que_items (tm_mem t) q)" "p \<notin> set (que_items (tm_mem t) r)"
    using q(3) assms(2) by (auto simp: two_ok_def timer_alloc_ok_def)
  then have n: "p + 8 \<notin> que_cells (tm_mem t) q" "p + 8 \<notin> que_cells (tm_mem t) r" "p + 8 \<noteq> NULL"
    using assms(2) q item_node [OF ok(1), of p] item_node [OF ok(2), of p] by (auto simp: timer_alloc_ok_def que_cells_def)
  have s: "same_cells (que_cells (tm_mem t) x) (tm_mem t) ?m" if "p + 8 \<notin> que_cells (tm_mem t) x" for x
    using that by (auto simp: same_cells_def)
  have w: "que_wf (tm_mem t) q" "que_wf (tm_mem t) r" using q(3) by (simp_all add: two_ok_def qok_def)
  note f = que_frame [OF w(1) s [OF n(1)]] que_frame [OF w(2) s [OF n(2)]]
  have two: "two_ok ?m q r A" if A: "A = dom (tm_info t) \<or> A = insert p (dom (tm_info t))" for A
    using q(3) f n A False
    by (auto simp: two_ok_def qok_def que_disjoint_def que_cells_def)
  have "tm_wf (t\<lparr>tm_mem := ?m\<rparr>)" by (rule tm_wfI [where b = True]) (use q two in \<open>auto simp: tm_queue_def\<close>)
  moreover have "tm_wf (t\<lparr>tm_mem := ?m, tm_info := (tm_info t)(p \<mapsto> i), uTimersCount := c\<rparr>)" for i c
    by (rule tm_wfI [where b = True]) (use q two in \<open>auto simp: tm_queue_def\<close>)
  ultimately show ?thesis using False by (simp add: tmr_CreateTimer_def tQueNodeHdr_offset_def Let_def)
qed (use assms in \<open>simp add: tmr_CreateTimer_def\<close>)

lemma DestroyTimer_wf:
  assumes "tm_wf t" "\<And>b. h \<notin> set (tm_items b t)"
  shows "tm_wf (snd (tmr_DestroyTimer t h))"
proof -
  obtain q r where q: "tm_queue True t = Some q" "tm_queue False t = Some r" "two_ok (tm_mem t) q r (dom (tm_info t))"
    "tm_items True t = que_items (tm_mem t) q" "tm_items False t = que_items (tm_mem t) r" by (rule tm_wfE [OF assms(1), where b = True]) simp
  have "two_ok (tm_mem t) q r (dom (tm_info t) - {h})" using q assms(2) [of True] assms(2) [of False] by (auto simp: two_ok_def)
  then have "tm_wf (t\<lparr>tm_log := l, uTimersCount := c, tm_info := (tm_info t)(h := None)\<rparr>)" for l c
    by (intro tm_wfI [where b = True]) (use q in \<open>auto simp: tm_queue_def\<close>)
  from this [where l = "tm_log t" and c = "uTimersCount t"] this assms(1) show ?thesis
    by (simp add: tmr_DestroyTimer_def tm_emit_def Let_def split: option.split)
qed

section \<open>Reachable states\<close>

text \<open>
  A state with a mark: whether a timer was destroyed while it was in one of the queues. The queues are created at distinct addresses; no timer
  exists yet.
\<close>

definition tm_init :: "TTimerModule \<times> bool \<Rightarrow> bool" where
  "tm_init x \<longleftrightarrow> \<not> snd x \<and> (\<exists>mem m t0 p1 p2 cid. tmr_Create mem m = Some t0 \<and> p1 \<noteq> NULL \<and> p2 \<noteq> NULL \<and> p1 \<noteq> p2 \<and> fst x = tmr_Init t0 p1 p2 cid)"

text \<open>Every operation may follow every other. The mark is set by the destruction of a queued timer, which nothing in the code prevents.\<close>

inductive tm_step :: "TTimerModule \<times> bool \<Rightarrow> TTimerModule \<times> bool \<Rightarrow> bool" where
  step_create: "timer_alloc_ok t p \<Longrightarrow> tm_step (t, d) (snd (tmr_CreateTimer t p osT), d)"
| step_destroy: "tm_step (t, d) (snd (tmr_DestroyTimer t h), d \<or> h \<in> set (tm_items False t @ tm_items True t))"
| step_call: "tm_step (t, d) (tm_call t r, d)"
| step_handle: "tmr_HandleExpiry env t = Some t' \<Longrightarrow> tm_step (t, d) (t', d)"
| step_clear_init: "tm_step (t, d) (tmr_ClearInitQueue t, d)"
| step_clear_oper: "tm_step (t, d) (tmr_ClearOperQueue t, d)"

lemma tm_init_wf:
  assumes "tm_init (t, d)"
  shows "tm_wf t" "tm_items b t = []"
proof -
  obtain mem m t0 p1 p2 cid where t0: "tmr_Create mem m = Some t0" and p: "p1 \<noteq> NULL" "p2 \<noteq> NULL" "p1 \<noteq> p2" and t: "t = tmr_Init t0 p1 p2 cid"
    using assms by (auto simp: tm_init_def)
  let ?q = "\<lambda>p. \<lparr>tHead = p, uCount = 0, uLimit = EXPIRY_QUE_SIZE, uMaxCount = 0, uOverflow = 0, uNodeHeaderOffset = tQueNodeHdr_offset\<rparr>"
  have i0: "tm_info t0 = (\<lambda>_. None)" using t0 by (auto simp: tmr_Create_def split: if_splits)
  have q: "tm_queue False t = Some (?q p1)" "tm_queue True t = Some (?q p2)" "tm_info t = (\<lambda>_. None)"
    "tm_mem t = (tm_mem t0)\<lparr>pPrev := (pPrev (tm_mem t0))(p1 := p1, p2 := p2), pNext := (pNext (tm_mem t0))(p1 := p1, p2 := p2)\<rparr>"
    using p i0 by (simp_all add: t tmr_Init_def que_Create_def tm_queue_def Let_def)
  have w: "que_wf (tm_mem t) (?q p1)" "que_wf (tm_mem t) (?q p2)" "que_nodes (tm_mem t) (?q p) = []" for p
    using p q(4) by (simp_all add: que_wf_def que_nodes_def)
  then have "two_ok (tm_mem t) (?q p1) (?q p2) (dom (tm_info t))"
    using p by (simp add: two_ok_def qok_def que_disjoint_def que_cells_def que_items_nodes q(3))
  then show "tm_wf t" using q unfolding tm_wf_def by blast
  show "tm_items b t = []" using q(1,2) by (cases b) (simp_all add: tm_items_def que_items_nodes w(3))
qed

lemma tm_step_wf:
  assumes "\<not> snd x \<longrightarrow> tm_wf (fst x)" "tm_step x y"
  shows "\<not> snd y \<longrightarrow> tm_wf (fst y)"
  using assms(2)
proof cases
  case (step_destroy t d h)
  have "tm_wf (snd (tmr_DestroyTimer t h))" if "\<not> d" "h \<notin> set (tm_items False t)" "h \<notin> set (tm_items True t)"
  proof (rule DestroyTimer_wf)
    show "h \<notin> set (tm_items b t)" for b using that by (cases b) simp_all
  qed (use that assms(1) step_destroy in simp)
  then show ?thesis using step_destroy by auto
qed (use assms(1) CreateTimer_wf tm_call_wf HandleExpiry_wf tm_clear_wf(1) in \<open>auto simp: clear_eqs\<close>)

interpretation tmq: state_invariant tm_init tm_step "\<lambda>x. \<not> snd x \<longrightarrow> tm_wf (fst x)"
proof unfold_locales
  show "\<not> snd x \<longrightarrow> tm_wf (fst x)" if "tm_init x" for x using that tm_init_wf(1) [of "fst x" "snd x"] by simp
qed (rule tm_step_wf)

lemma tm_reach_wf: "reach tm_init tm_step (t, False) \<Longrightarrow> tm_wf t"
  using tmq.reach_invar [of "(t, False)"] by simp

text \<open>A queued timer that is destroyed stays in its queue; the handler then meets a timer that does not exist.\<close>

lemma DestroyTimer_dangling:
  assumes "tm_wf t" "h \<in> set (tm_items b t)"
  shows "tm_items b (snd (tmr_DestroyTimer t h)) = tm_items b t" "h \<notin> dom (tm_info (snd (tmr_DestroyTimer t h)))"
proof -
  have "tm_queue b (snd (tmr_DestroyTimer t h)) = tm_queue b t" "tm_mem (snd (tmr_DestroyTimer t h)) = tm_mem t"
    by (simp_all add: tmr_DestroyTimer_def tm_queue_def tm_emit_def Let_def split: option.split)
  then show "tm_items b (snd (tmr_DestroyTimer t h)) = tm_items b t" by (simp add: tm_items_def split: option.split)
  show "h \<notin> dom (tm_info (snd (tmr_DestroyTimer t h)))" by (auto simp: tmr_DestroyTimer_def Let_def split: option.splits)
qed

lemma tm_items_distinct:
  assumes "tm_wf t"
  shows "distinct (tm_items False t @ tm_items True t)" "set (tm_items b t) \<subseteq> dom (tm_info t)"
proof -
  obtain q r where q: "tm_queue False t = Some q" "tm_queue True t = Some r" "two_ok (tm_mem t) q r (dom (tm_info t))"
    "tm_items False t = que_items (tm_mem t) q" "tm_items True t = que_items (tm_mem t) r" by (rule tm_wfE [OF assms, where b = False]) simp
  have ok: "qok (tm_mem t) q" "qok (tm_mem t) r" "que_disjoint (tm_mem t) q r" using q(3) by (simp_all add: two_ok_def)
  have d: "distinct (que_items (tm_mem t) x)" if "qok (tm_mem t) x" for x
    using that by (auto simp: qok_def que_wf_def que_items_nodes distinct_map inj_on_def)
  have "set (que_items (tm_mem t) q) \<inter> set (que_items (tm_mem t) r) = {}"
    using item_node [OF ok(1)] item_node [OF ok(2)] ok(3) by (auto simp: que_disjoint_def que_cells_def)
  then show "distinct (tm_items False t @ tm_items True t)" using d ok q(4,5) by simp
  show "set (tm_items b t) \<subseteq> dom (tm_info t)" using q by (cases b) (auto simp: two_ok_def)
qed

section \<open>Handling the expired timers\<close>

definition expiries :: "tm_ev list \<Rightarrow> tm_ev list" where
  "expiries es = filter (\<lambda>e. case e of TmExpiry _ _ _ _ \<Rightarrow> True | _ \<Rightarrow> False) es"

fun expired :: "tm_ev \<Rightarrow> handle" where
  "expired (TmExpiry h _ _ _) = h"
| "expired _ = NULL"

text \<open>Callbacks that only start and stop timers, while no timer expires and the driver's state is not changed.\<close>

fun tm_quiet_req :: "tm_req \<Rightarrow> bool" where
  "tm_quiet_req (TmState b) = False"
| "tm_quiet_req (TmExpire h) = False"
| "tm_quiet_req _ = True"

definition tm_quiet :: "tm_env \<Rightarrow> bool" where
  "tm_quiet env \<longleftrightarrow> (\<forall>t h. list_all tm_quiet_req (env t h))"

lemma Start_log: "expiries (tm_log (tmr_StartTimer t h f hnd ms per)) = expiries (tm_log t)"
  by (simp add: tmr_StartTimer_def tm_emit_def expiries_def Let_def split: option.split)

lemma Start_count [simp]: "uTwdInitCount (tmr_StartTimer t h f hnd ms per) = uTwdInitCount t"
  by (simp add: tmr_StartTimer_def tm_emit_def Let_def split: option.split)

lemma Start_info: "h' \<noteq> h \<Longrightarrow> tm_info (tmr_StartTimer t h f hnd ms per) h' = tm_info t h'"
  by (simp add: tmr_StartTimer_def tm_emit_def Let_def split: option.split)

lemma quiet_call:
  assumes "tm_wf t" "tm_quiet_req r"
  shows "tm_wf (tm_call t r)" "tm_items b (tm_call t r) = tm_items b t" "bOperState (tm_call t r) = bOperState t"
    "expiries (tm_log (tm_call t r)) = expiries (tm_log t)"
proof -
  have p: "expiries (tm_log (tmr_StopTimer t h)) = expiries (tm_log t)" for h
    by (simp add: tmr_StopTimer_def tm_emit_def expiries_def Let_def split: option.split)
  show "tm_wf (tm_call t r)" by (rule tm_call_wf [OF assms(1)])
  show "tm_items b (tm_call t r) = tm_items b t" using assms(2)
    by (cases r) (simp_all, (rule tm_cong(2) [OF assms(1)]; simp)+)
  show "bOperState (tm_call t r) = bOperState t" "expiries (tm_log (tm_call t r)) = expiries (tm_log t)"
    using assms(2) by (cases r, simp_all add: Start_log p)+
qed

lemma quiet_calls:
  assumes "tm_wf t" "list_all tm_quiet_req rs"
  shows "tm_wf (foldl tm_call t rs) \<and> tm_items b (foldl tm_call t rs) = tm_items b t \<and> bOperState (foldl tm_call t rs) = bOperState t \<and>
    expiries (tm_log (foldl tm_call t rs)) = expiries (tm_log t)"
  using assms by (induction rs arbitrary: t) (simp_all add: quiet_call)

lemma handle_one_quiet:
  assumes "tm_wf t" "tm_quiet env"
  shows "tm_items b (handle_one env h i t) = tm_items b t" "bOperState (handle_one env h i t) = bOperState t"
    "expiries (tm_log (handle_one env h i t)) =
      expiries (tm_log t) @ [TmExpiry h (fExpiryCbFunc i) (hExpiryCbHndl i) (uTwdInitCount t \<noteq> uTwdInitCountWhenStarted i)]"
proof -
  let ?e = "TmExpiry h (fExpiryCbFunc i) (hExpiryCbHndl i) (uTwdInitCount t \<noteq> uTwdInitCountWhenStarted i)"
  let ?t = "tm_emit ?e t"
  let ?u = "foldl tm_call ?t (env ?t h)"
  have q: "list_all tm_quiet_req (env ?t h)" using assms(2) by (simp add: tm_quiet_def)
  have "tm_wf ?t" using assms(1) by simp
  note c = quiet_calls [OF this q, of b]
  have s: "tm_items b (tmr_StartTimer ?u h f hnd ms per) = tm_items b ?u" for f hnd ms per
    by (rule tm_cong(2)) (use c in simp_all)
  show "tm_items b (handle_one env h i t) = tm_items b t" "bOperState (handle_one env h i t) = bOperState t"
    using c by (simp_all add: handle_one_def Let_def s split: option.split)
  have "expiries (tm_log ?t) = expiries (tm_log t) @ [?e]" by (simp add: expiries_def)
  then show "expiries (tm_log (handle_one env h i t)) = expiries (tm_log t) @ [?e]"
    using c by (simp add: handle_one_def Let_def Start_log split: option.split)
qed

lemma handle_one_silent:
  assumes "\<forall>t h. env t h = []"
  shows "uTwdInitCount (handle_one env h i t) = uTwdInitCount t" "h' \<noteq> h \<Longrightarrow> tm_info (handle_one env h i t) h' = tm_info t h'"
  using Start_info by (auto simp: handle_one_def assms Let_def split: option.split)

lemma HandleExpiry_serves:
  assumes "tm_wf t" "tm_quiet env" "tm_items (bOperState t) t = hs"
  shows "\<exists>t'. tmr_HandleExpiry env t = Some t' \<and> tm_items (bOperState t) t' = [] \<and>
    tm_items (\<not> bOperState t) t' = tm_items (\<not> bOperState t) t \<and> map expired (expiries (tm_log t')) = map expired (expiries (tm_log t)) @ hs"
  using assms(1,3)
proof (induction hs arbitrary: t)
  case Nil
  then show ?case using HandleExpiry_Nil [OF Nil.prems] by simp
next
  case (Cons h hs)
  obtain t1 i where t1: "tmr_HandleExpiry env t = tmr_HandleExpiry env (handle_one env h i t1)" "tm_wf t1"
    "tm_items (bOperState t) t1 = hs" "tm_items (\<not> bOperState t) t1 = tm_items (\<not> bOperState t) t" "bOperState t1 = bOperState t"
    "tm_log t1 = tm_log t" using HandleExpiry_Cons [OF Cons.prems, of env] by blast
  note o = handle_one_quiet [OF t1(2) assms(2), where h = h and i = i]
  have "tm_items (bOperState (handle_one env h i t1)) (handle_one env h i t1) = hs" using o(1,2) t1(3,5) by simp
  from Cons.IH [OF handle_one_wf [OF t1(2)] this] show ?case using t1 o by simp
qed

lemma HandleExpiry_events:
  assumes "tm_wf t" "\<forall>t h. env t h = []" "tm_items (bOperState t) t = hs"
  shows "\<exists>t'. tmr_HandleExpiry env t = Some t' \<and> expiries (tm_log t') = expiries (tm_log t) @
    map (\<lambda>h. let i = the (tm_info t h) in TmExpiry h (fExpiryCbFunc i) (hExpiryCbHndl i) (uTwdInitCount t \<noteq> uTwdInitCountWhenStarted i)) hs"
  using assms(1,3)
proof (induction hs arbitrary: t)
  case Nil
  then show ?case using HandleExpiry_Nil [OF Nil.prems] by simp
next
  case (Cons h hs)
  obtain t1 i where t1: "tmr_HandleExpiry env t = tmr_HandleExpiry env (handle_one env h i t1)" "tm_wf t1" "tm_info t h = Some i"
    "tm_items (bOperState t) t1 = hs" "bOperState t1 = bOperState t" "tm_info t1 = tm_info t"
    "tm_log t1 = tm_log t" "uTwdInitCount t1 = uTwdInitCount t" using HandleExpiry_Cons [OF Cons.prems, of env] by blast
  let ?t = "handle_one env h i t1"
  have quiet: "tm_quiet env" by (simp add: tm_quiet_def assms(2))
  note o = handle_one_quiet [OF t1(2) quiet, where h = h and i = i]
  have "tm_items (bOperState ?t) ?t = hs" using o(1,2) t1(4,5) by simp
  note IH = Cons.IH [OF handle_one_wf [OF t1(2)] this]
  have "h \<notin> set hs" using tm_items_distinct(1) [OF Cons.prems(1)] Cons.prems(2) by (cases "bOperState t") auto
  then have "tm_info ?t h' = tm_info t h'" if "h' \<in> set hs" for h'
    using that handle_one_silent(2) [OF assms(2), where h' = h' and h = h and i = i and t = t1] t1(6) by auto
  then have m: "map (\<lambda>h. let i = the (tm_info ?t h) in TmExpiry h (fExpiryCbFunc i) (hExpiryCbHndl i) (uTwdInitCount ?t \<noteq> uTwdInitCountWhenStarted i)) hs =
    map (\<lambda>h. let i = the (tm_info t h) in TmExpiry h (fExpiryCbFunc i) (hExpiryCbHndl i) (uTwdInitCount t \<noteq> uTwdInitCountWhenStarted i)) hs"
    using handle_one_silent(1) [OF assms(2), where h = h and i = i and t = t1] t1(8) by (intro map_cong) simp_all
  from IH t1 o(3) show ?case unfolding m by simp
qed

section \<open>Properties\<close>

definition tm0 :: TTimerModule where
  "tm0 = tmr_Init (the (tmr_Create 0x1000 \<lparr>pNext = (\<lambda>_. 0), pPrev = (\<lambda>_. 0)\<rparr>)) 0x2000 0x3000 1"
definition tm1 :: TTimerModule where "tm1 = snd (tmr_CreateTimer tm0 0x4000 0x4100)"
definition tm2 :: TTimerModule where "tm2 = snd (tmr_CreateTimer tm1 0x5000 0x5100)"
definition tm3 :: TTimerModule where "tm3 = tm_call tm2 (TmStart 0x4000 0x10 0x11 100 False)"
definition tm4 :: TTimerModule where "tm4 = tm_call tm3 (TmStart 0x5000 0x20 0x21 200 True)"
definition tm5 :: TTimerModule where "tm5 = tm_call tm4 (TmExpire 0x5000)"
definition tm6 :: TTimerModule where "tm6 = tm_call tm5 (TmExpire 0x4000)"

lemma tm_ex_eval:
  "tm_items False tm6 = [0x5000, 0x4000]" "tm_items True tm6 = []" "\<not> bOperState tm6" "tm_items False tm5 = [0x5000]" "tm_items True tm5 = []"
  "map_option bOperStateWhenStarted (tm_info tm5 0x4000) = Some False" "\<not> bOperState tm5"
  by code_simp+

lemma tm_ex_reach: "reach tm_init tm_step (tm5, False)" "reach tm_init tm_step (tm6, False)"
proof -
  let ?m = "\<lparr>pNext = (\<lambda>_. 0), pPrev = (\<lambda>_. 0)\<rparr>"
  have "tmr_Create 0x1000 ?m = Some (the (tmr_Create 0x1000 ?m))" by (simp add: tmr_Create_def)
  then have i: "tm_init (tm0, False)" unfolding tm_init_def tm0_def by (simp, intro exI conjI) (assumption, simp_all)
  then have 0: "reach tm_init tm_step (tm0, False)" by (rule reach_init)
  have q0: "tm_queue False tm0 = Some \<lparr>tHead = 0x2000, uCount = 0, uLimit = EXPIRY_QUE_SIZE, uMaxCount = 0, uOverflow = 0, uNodeHeaderOffset = 8\<rparr>"
    "tm_queue True tm0 = Some \<lparr>tHead = 0x3000, uCount = 0, uLimit = EXPIRY_QUE_SIZE, uMaxCount = 0, uOverflow = 0, uNodeHeaderOffset = 8\<rparr>"
    "tm_info tm0 = (\<lambda>_. None)"
    by (simp_all add: tm0_def tmr_Init_def tmr_Create_def que_Create_def tm_queue_def tQueNodeHdr_offset_def Let_def)
  have a: "timer_alloc_ok tm0 0x4000" using q0 unfolding timer_alloc_ok_def by (auto simp: all_bool_eq)
  from 0 have 1: "reach tm_init tm_step (tm1, False)" unfolding tm1_def by (rule reach_step) (rule step_create [OF a])
  have q1: "tm_queue b tm1 = tm_queue b tm0" "dom (tm_info tm1) = {0x4000}" for b
    by (simp_all add: tm1_def tmr_CreateTimer_def tm_queue_def q0(3) Let_def)
  have a: "timer_alloc_ok tm1 0x5000" using q0 q1 unfolding timer_alloc_ok_def by (auto simp: all_bool_eq)
  from 1 have "reach tm_init tm_step (tm2, False)" unfolding tm2_def by (rule reach_step) (rule step_create [OF a])
  then have "reach tm_init tm_step (tm3, False)" unfolding tm3_def by (rule reach_step) (rule step_call)
  then have "reach tm_init tm_step (tm4, False)" unfolding tm4_def by (rule reach_step) (rule step_call)
  then show 5: "reach tm_init tm_step (tm5, False)" unfolding tm5_def by (rule reach_step) (rule step_call)
  then show "reach tm_init tm_step (tm6, False)" unfolding tm6_def by (rule reach_step) (rule step_call)
qed

text \<open>
  C33: As long as no timer is destroyed while it is in an expiry queue, in every state that the operations of the timer module lead to, in any order, its two
  expiry queues, threaded through the timers in one memory, are intact and disjoint: every queued timer is in one of them, once, and exists;
  neither queue can overflow. The condition is needed, and the code does not check it: a timer that is destroyed while it is queued stays in its queue
  and does not exist any more. (Callbacks start and stop timers and change the driver's state; they do not create or destroy timers.)
\<close>

theorem tmr_queues_invariant:
  assumes "reach tm_init tm_step (t, destroyed_while_queued)" "\<not> destroyed_while_queued"
  shows "(\<exists>qi qo. hInitQueue t = Some qi \<and> hOperQueue t = Some qo \<and> que_wf (tm_mem t) qi \<and> que_wf (tm_mem t) qo \<and>
      que_disjoint (tm_mem t) qi qo \<and> uCount qi < uLimit qi \<and> uCount qo < uLimit qo \<and>
      distinct (tm_items False t @ tm_items True t) \<and> set (tm_items False t @ tm_items True t) \<subseteq> dom (tm_info t)) \<and>
    (\<forall>h b. h \<in> set (tm_items b t) \<longrightarrow>
      (let t' = snd (tmr_DestroyTimer t h) in tm_items b t' = tm_items b t \<and> h \<notin> dom (tm_info t')))"
proof -
  have w: "tm_wf t" using assms by (auto intro: tm_reach_wf)
  then obtain qi qo where q: "hInitQueue t = Some qi" "hOperQueue t = Some qo" "two_ok (tm_mem t) qi qo (dom (tm_info t))"
    by (auto simp: tm_wf_def tm_queue_def)
  moreover have "uCount qi < uLimit qi" "uCount qo < uLimit qo" using q(3) qok_room [of "tm_mem t"] by (simp_all add: two_ok_def)
  moreover have "que_wf (tm_mem t) qi" "que_wf (tm_mem t) qo" "que_disjoint (tm_mem t) qi qo" using q(3) by (simp_all add: two_ok_def qok_def)
  ultimately show ?thesis using tm_items_distinct [OF w] DestroyTimer_dangling [OF w] by (simp add: Let_def)
qed

theorem tmr_queues_invariant_witness:
  "\<exists>qi. hInitQueue tm6 = Some qi \<and> que_wf (tm_mem tm6) qi \<and> que_items (tm_mem tm6) qi = [0x5000, 0x4000]"
proof -
  obtain qi where "hInitQueue tm6 = Some qi" "que_wf (tm_mem tm6) qi" using tmr_queues_invariant [OF tm_ex_reach(2)] by auto
  then show ?thesis using tm_ex_eval(1) by (simp add: tm_items_def tm_queue_def)
qed

text \<open>
  What an expiry does: a timer that is already queued is not queued again; one started in the operational state
  is appended to the operational queue; one started otherwise is appended to the other queue if the driver is still not
  operational, and ignored if it is. The other queue is not touched and the driver task is requested.
\<close>

lemma tmr_GetExpiry_outcome:
  assumes "reach tm_init tm_step (t, False)" "tm_info t h = Some i"
  shows "let t' = tmr_GetExpiry t h;
      new = (if h \<in> set (tm_items False t @ tm_items True t) then [] else [h]) in
    tm_items True t' = tm_items True t @ (if bOperStateWhenStarted i then new else []) \<and>
    tm_items False t' = tm_items False t @ (if \<not> bOperStateWhenStarted i \<and> \<not> bOperState t then new else []) \<and>
    tm_log t' = tm_log t @ [TmSchedule (uContextId t)] \<and> tm_info t' = tm_info t"
proof -
  have w: "tm_wf t" by (rule tm_reach_wf [OF assms(1)])
  have d: "h \<in> dom (tm_info t)" using assms(2) by blast
  note a = tm_enq_wf(2,3) [OF w d, where b = True] tm_enq_wf(2,3) [OF w d, where b = False]
  have l: "tm_log (tm_enq b h t) = tm_log t" "tm_info (tm_enq b h t) = tm_info t" for b by (simp_all add: tm_enq_def)
  show ?thesis using assms(2) a l by (auto simp: GetExpiry_eq Let_def)
qed

text \<open>
  C32: In every state that is reached without destroying a queued timer, the handler returns and calls back every timer that waits in the queue of the driver's current state exactly
  once, in the order of expiry, and leaves the other queue alone, when the callbacks only start and stop timers. If
  they call nothing, each gets its own function and handle, and is told correctly whether the driver was initialized again since its timer was started.
\<close>

theorem tmr_HandleExpiry_serves_all:
  assumes "reach tm_init tm_step (t, False)" "tm_quiet env"
  shows "\<exists>t'. tmr_HandleExpiry env t = Some t' \<and> tm_items (bOperState t) t' = [] \<and>
    tm_items (\<not> bOperState t) t' = tm_items (\<not> bOperState t) t \<and>
    map expired (expiries (tm_log t')) = map expired (expiries (tm_log t)) @ tm_items (bOperState t) t \<and>
    ((\<forall>t h. env t h = []) \<longrightarrow> expiries (tm_log t') = expiries (tm_log t) @
      map (\<lambda>h. let i = the (tm_info t h) in TmExpiry h (fExpiryCbFunc i) (hExpiryCbHndl i) (uTwdInitCount t \<noteq> uTwdInitCountWhenStarted i))
        (tm_items (bOperState t) t))"
proof -
  have w: "tm_wf t" by (rule tm_reach_wf [OF assms(1)])
  obtain t' where t': "tmr_HandleExpiry env t = Some t'" "tm_items (bOperState t) t' = []"
    "tm_items (\<not> bOperState t) t' = tm_items (\<not> bOperState t) t"
    "map expired (expiries (tm_log t')) = map expired (expiries (tm_log t)) @ tm_items (bOperState t) t"
    using HandleExpiry_serves [OF w assms(2) refl] by blast
  then show ?thesis using HandleExpiry_events [OF w _ refl, of env] by auto
qed

theorem tmr_HandleExpiry_serves_all_witness:
  "\<exists>t'. tmr_HandleExpiry (\<lambda>_ _. []) tm6 = Some t' \<and> tm_items False t' = [] \<and>
     map expired (expiries (tm_log t')) = map expired (expiries (tm_log tm6)) @ [0x5000, 0x4000]"
proof -
  have "tm_quiet (\<lambda>_ _. [])" by (simp add: tm_quiet_def)
  from tmr_HandleExpiry_serves_all [OF tm_ex_reach(2) this] show ?thesis using tm_ex_eval(1,3) by auto
qed

end
