(* ===== verification/Wlan_Sm.thy ===== *)
theory Wlan_Sm
  imports Wlan_Prelude
begin

text \<open>
  The driver's two table-driven state machine engines. \<open>utils/GenSM.c\<close> keeps the current state, and an action may send the machine a new
  event, which waits until the action is done; \<open>utils/fsm.c\<close> leaves the state to its user, checks state and event against the table, and
  runs an event that an action sends at once, inside that action, on the same state variable. What an action does is a parameter.
\<close>

section \<open>Faults and tables\<close>

text \<open>A read outside a table and a call through a \<open>NULL\<close> pointer are faults of the model.\<close>

datatype sm_fault = SmOutOfTable | SmNullAction

text \<open>A table is a C array of rows, one for each state, with a cell for each event.\<close>

definition sm_rows :: "'c list list \<Rightarrow> nat \<Rightarrow> nat \<Rightarrow> bool" where
  "sm_rows rows ns ne \<longleftrightarrow> length rows = ns \<and> (\<forall>row\<in>set rows. length row = ne)"

lemma sm_rows_Cons: "sm_rows (row # rows) ns ne \<longleftrightarrow> length row = ne \<and> ns \<noteq> 0 \<and> sm_rows rows (ns - 1) ne"
  by (cases ns) (auto simp: sm_rows_def)

lemma sm_rows_length: "sm_rows rows ns ne \<Longrightarrow> length (concat rows) = ns * ne"
proof (induction rows arbitrary: ns)
  case Nil
  then show ?case by (simp add: sm_rows_def)
next
  case (Cons row rows)
  then show ?case by (cases ns) (simp_all add: sm_rows_Cons)
qed

lemma sm_index:
  fixes i j ns ne :: nat
  assumes "i < ns" "j < ne"
  shows "i * ne + j < ns * ne"
proof -
  have "i * ne + j < Suc i * ne" using assms(2) by simp
  also have "\<dots> \<le> ns * ne" using assms(1) by (intro mult_right_mono) simp_all
  finally show ?thesis .
qed

lemma sm_rows_nth: "sm_rows rows ns ne \<Longrightarrow> i < ns \<Longrightarrow> j < ne \<Longrightarrow> concat rows ! (i * ne + j) = rows ! i ! j"
proof (induction rows arbitrary: i ns)
  case Nil
  then show ?case by (simp add: sm_rows_def)
next
  case (Cons row rows)
  then have row: "length row = ne" "sm_rows rows (ns - 1) ne" by (simp_all add: sm_rows_Cons)
  show ?case
  proof (cases i)
    case 0
    then show ?thesis using row Cons.prems by (simp add: nth_append)
  next
    case (Suc k)
    then have "concat rows ! (k * ne + j) = rows ! k ! j" using Cons.IH [OF row(2)] Cons.prems by simp
    then show ?thesis using row Suc by (simp add: nth_append)
  qed
qed

lemma sm_rows_mem: "sm_rows rows ns ne \<Longrightarrow> i < ns \<Longrightarrow> j < ne \<Longrightarrow> rows ! i ! j \<in> set (concat rows)"
  by (metis nth_mem sm_index sm_rows_length sm_rows_nth)

section \<open>GenSM\<close>

record TGenSM_actionCell =
  uNextState :: u32
  fAction :: handle

text \<open>The log records events that were sent and actions that were run.\<close>

datatype gsm_ev = GsEvent u32 handle | GsAction handle handle

record TGenSM =
  tMatrix :: "TGenSM_actionCell list"
  uStateNum :: u32
  uEventNum :: u32
  uCurrentState :: u32
  uEvent :: u32
  pData :: handle
  bEventPending :: bool
  bInAction :: bool
  uModuleLogIndex :: u32
  gsm_log :: "gsm_ev list"

text \<open>The allocated object is not cleared: \<open>g\<close> is what the memory holds.\<close>

definition genSM_Create :: "handle \<Rightarrow> TGenSM \<Rightarrow> TGenSM option" where
  "genSM_Create mem g = (if mem \<noteq> NULL then Some g else None)"


text \<open>The start of \<open>genSM_Event\<close>: an event that was waiting is overwritten. The range of the event is only reported.\<close>

definition gsm_send :: "TGenSM \<Rightarrow> u32 \<times> handle \<Rightarrow> TGenSM" where
  "gsm_send g ed = g\<lparr>bEventPending := True, uEvent := fst ed, pData := snd ed, gsm_log := gsm_log g @ [GsEvent (fst ed) (snd ed)]\<rparr>"

definition gsm_cell :: "TGenSM \<Rightarrow> TGenSM_actionCell option" where
  "gsm_cell g =
     (let i = unat (uCurrentState g * uEventNum g + uEvent g)
      in if i < length (tMatrix g) then Some (tMatrix g ! i) else None)"

text \<open>
  The events that an action sends to its own machine, from the state in which it runs. They meet \<open>bInAction\<close>, so \<open>genSM_Event\<close> returns
  after \<open>gsm_send\<close>.
\<close>

type_synonym gsm_env = "TGenSM \<Rightarrow> handle \<Rightarrow> (u32 \<times> handle) list"

definition gsm_once :: "gsm_env \<Rightarrow> TGenSM \<Rightarrow> sm_fault + TGenSM" where
  "gsm_once env g =
     (case gsm_cell g of
        None \<Rightarrow> Inl SmOutOfTable
      | Some c \<Rightarrow>
          let g = g\<lparr>bInAction := True\<rparr>;
              g = g\<lparr>bEventPending := False\<rparr>;
              g = g\<lparr>uCurrentState := uNextState c\<rparr>
          in if fAction c = NULL then Inl SmNullAction
             else
               let g = g\<lparr>gsm_log := gsm_log g @ [GsAction (fAction c) (pData g)]\<rparr>;
                   g = foldl gsm_send g (env g (fAction c))
               in Inr (g\<lparr>bInAction := False\<rparr>))"

partial_function (option) gsm_loop :: "gsm_env \<Rightarrow> TGenSM \<Rightarrow> (sm_fault + TGenSM) option" where
  "gsm_loop env g =
     (if bEventPending g then
        case gsm_once env g of Inl x \<Rightarrow> Some (Inl x) | Inr g \<Rightarrow> gsm_loop env g
      else Some (Inr g))"

definition genSM_Event :: "gsm_env \<Rightarrow> TGenSM option \<Rightarrow> u32 \<Rightarrow> handle \<Rightarrow> (sm_fault + TGenSM option) option" where
  "genSM_Event env g e d =
     (case g of
        None \<Rightarrow> Some (Inr None)
      | Some g \<Rightarrow>
          let g = gsm_send g (e, d)
          in if bInAction g then Some (Inr (Some g)) else map_option (map_sum id Some) (gsm_loop env g))"


section \<open>fsm\<close>

record fsm_actionCell =
  nextState :: u8
  actionFunc :: handle

record fsm_stateMachine =
  stateEventMatrix :: "fsm_actionCell list"
  MaxNoOfStates :: u8
  MaxNoOfEvents :: u8
  ActiveNoOfStates :: u8
  ActiveNoOfEvents :: u8
  transitionFunc :: handle

text \<open>\<open>out\<close> tells whether the address for the result is not \<open>NULL\<close>; \<open>p1\<close> and \<open>p2\<close> are the allocated objects.\<close>

definition fsm_Create :: "bool \<Rightarrow> handle \<Rightarrow> handle \<Rightarrow> u8 \<Rightarrow> u8 \<Rightarrow> ti_status \<times> fsm_stateMachine option" where
  "fsm_Create out p1 p2 ns ne =
     (if \<not> out \<or> ns = 0 \<or> ne = 0 then (TI_NOK, None)
      else if p1 = NULL then (TI_NOK, None)
      else if p2 = NULL then (TI_NOK, None)
      else (TI_OK, Some \<lparr>stateEventMatrix = replicate (unat ns * unat ne) \<lparr>nextState = 0, actionFunc = NULL\<rparr>, MaxNoOfStates = ns,
              MaxNoOfEvents = ne, ActiveNoOfStates = 0, ActiveNoOfEvents = 0, transitionFunc = NULL\<rparr>))"

definition fsm_Config :: "fsm_stateMachine option \<Rightarrow> fsm_actionCell list option \<Rightarrow> u8 \<Rightarrow> u8 \<Rightarrow> handle \<Rightarrow> sm_fault + ti_status \<times> fsm_stateMachine option" where
  "fsm_Config f M ns ne tf =
     (case (f, M) of
        (Some f, Some M) \<Rightarrow>
          if ns > MaxNoOfStates f \<or> ne > MaxNoOfEvents f then Inr (TI_NOK, Some f)
          else
            let n = unat ns * unat ne
            in if n > length M then Inl SmOutOfTable
               else
                 let f = f\<lparr>stateEventMatrix := take n M @ drop n (stateEventMatrix f)\<rparr>
                 in Inr (TI_OK, Some (f\<lparr>ActiveNoOfStates := ns, ActiveNoOfEvents := ne, transitionFunc := tf\<rparr>))
      | _ \<Rightarrow> Inr (TI_NOK, f))"

definition fsm_cell :: "fsm_stateMachine \<Rightarrow> u8 \<Rightarrow> u8 \<Rightarrow> fsm_actionCell option" where
  "fsm_cell f s e =
     (let i = unat s * unat (ActiveNoOfEvents f) + unat e
      in if i < length (stateEventMatrix f) then Some (stateEventMatrix f ! i) else None)"

text \<open>
  What an action does to its own machine: it returns a status, or writes the state variable, or sends an event, by a call of
  \<open>fsm_Event\<close> on the same state variable from inside the action (as \<open>scanSRVSM_requestPS\<close> does), and goes on with the result of
  that call and the state that it finds.
\<close>

datatype fsm_act = FaRet ti_status | FaSet u8 fsm_act | FaSend u8 handle "ti_status \<Rightarrow> u8 \<Rightarrow> fsm_act"

text \<open>The log: a transition with the action that is called for it (\<open>NULL\<close> when there is none), and a state that an action writes itself.\<close>

datatype fsm_ev = FsMove u8 u8 u8 handle | FsSet u8

text \<open>An action is called with its data; it may do something else each time, since it depends on the log.\<close>

type_synonym fsm_env = "fsm_ev list \<Rightarrow> handle \<Rightarrow> handle \<Rightarrow> fsm_act"

text \<open>\<open>fsm_Event\<close> up to the call of the action: the action, the new state and the log.\<close>

definition fsm_enter :: "fsm_env \<Rightarrow> fsm_stateMachine option \<Rightarrow> u8 \<Rightarrow> u8 \<Rightarrow> handle \<Rightarrow> fsm_ev list \<Rightarrow> sm_fault + fsm_act \<times> u8 \<times> fsm_ev list" where
  "fsm_enter env f s e d l =
     (case f of
        None \<Rightarrow> Inr (FaRet TI_NOK, s, l)
      | Some f \<Rightarrow>
          if s \<ge> ActiveNoOfStates f \<or> e \<ge> ActiveNoOfEvents f then Inr (FaRet TI_NOK, s, l)
          else
            case fsm_cell f s e of
              None \<Rightarrow> Inl SmOutOfTable
            | Some c \<Rightarrow>
                let old = s; s = nextState c; l = l @ [FsMove old e s (actionFunc c)]
                in if actionFunc c = NULL then Inr (FaRet TI_NOK, s, l) else Inr (env l (actionFunc c) d, s, l))"

text \<open>The run of an action; \<open>None\<close> when it does not return.\<close>

partial_function (option) fsm_run :: "fsm_env \<Rightarrow> fsm_stateMachine option \<Rightarrow> fsm_act \<Rightarrow> u8 \<Rightarrow> fsm_ev list \<Rightarrow> (sm_fault + ti_status \<times> u8 \<times> fsm_ev list) option" where
  "fsm_run env f a s l =
     (case a of
        FaRet st \<Rightarrow> Some (Inr (st, s, l))
      | FaSet s a \<Rightarrow> fsm_run env f a s (l @ [FsSet s])
      | FaSend e d k \<Rightarrow>
          (case fsm_enter env f s e d l of
             Inl x \<Rightarrow> Some (Inl x)
           | Inr asl \<Rightarrow>
               Option.bind (fsm_run env f (fst asl) (fst (snd asl)) (snd (snd asl)))
                 (\<lambda>r. case r of Inl x \<Rightarrow> Some (Inl x) | Inr tsl \<Rightarrow> fsm_run env f (k (fst tsl) (fst (snd tsl))) (fst (snd tsl)) (snd (snd tsl)))))"

declare fsm_run.simps [code]

definition fsm_Event :: "fsm_env \<Rightarrow> fsm_stateMachine option \<Rightarrow> u8 \<Rightarrow> u8 \<Rightarrow> handle \<Rightarrow> fsm_ev list \<Rightarrow> (sm_fault + ti_status \<times> u8 \<times> fsm_ev list) option" where
  "fsm_Event env f s e d l =
     (case fsm_enter env f s e d l of Inl x \<Rightarrow> Some (Inl x) | Inr (a, s, l) \<Rightarrow> fsm_run env f a s l)"

definition fsm_GetNextState :: "fsm_stateMachine option \<Rightarrow> u8 \<Rightarrow> u8 \<Rightarrow> sm_fault + ti_status \<times> u8 option" where
  "fsm_GetNextState f s e =
     (case f of
        None \<Rightarrow> Inr (TI_NOK, None)
      | Some f \<Rightarrow>
          if s < ActiveNoOfStates f \<and> e < ActiveNoOfEvents f then
            case fsm_cell f s e of None \<Rightarrow> Inl SmOutOfTable | Some c \<Rightarrow> Inr (TI_OK, Some (nextState c))
          else Inr (TI_NOK, None))"

definition action_nop :: "handle \<Rightarrow> ti_status" where
  "action_nop d = TI_OK"

section \<open>GenSM as an automaton\<close>


text \<open>The events of a log, those that another event has not replaced while they were waiting, and the actions.\<close>

fun gsm_sent :: "gsm_ev list \<Rightarrow> (u32 \<times> handle) list" where
  "gsm_sent [] = []"
| "gsm_sent (GsEvent e d # es) = (e, d) # gsm_sent es"
| "gsm_sent (GsAction a d # es) = gsm_sent es"


fun gsm_acts :: "gsm_ev list \<Rightarrow> (handle \<times> handle) list" where
  "gsm_acts [] = []"
| "gsm_acts (GsEvent e d # es) = gsm_acts es"
| "gsm_acts (GsAction a d # es) = (a, d) # gsm_acts es"

abbreviation gs_event :: "u32 \<times> handle \<Rightarrow> gsm_ev" where
  "gs_event ed \<equiv> GsEvent (fst ed) (snd ed)"

lemma gsm_sends [simp]:
  "gsm_sent (map gs_event xs @ es) = xs @ gsm_sent es" "gsm_acts (map gs_event xs @ es) = gsm_acts es"
  by (induction xs) simp_all








text \<open>
  The range of an event is only reported, not enforced. In the machine with the rows \<open>[a, b]\<close> and \<open>[c, d]\<close> the event \<open>2\<close> in the first state runs
  the first cell of the second row, and in the second state it reads outside the table.
\<close>

lemma genSM_Event_out_of_range:
  assumes "tMatrix g = [a, b, c, d]" "uEventNum g = 2" "\<not> bInAction g" "fAction c \<noteq> NULL"
  shows "uCurrentState g = 0 \<Longrightarrow> \<exists>g'. genSM_Event (\<lambda>g a. []) (Some g) 2 x = Some (Inr (Some g')) \<and> uCurrentState g' = uNextState c"
    and "uCurrentState g = 1 \<Longrightarrow> genSM_Event env (Some g) 2 x = Some (Inl SmOutOfTable)"
proof -
  let ?g = "gsm_send g (2, x)"
  have p: "bEventPending ?g" "\<not> bInAction ?g" using assms(3) by (simp_all add: gsm_send_def)
  show "\<exists>g'. genSM_Event (\<lambda>g a. []) (Some g) 2 x = Some (Inr (Some g')) \<and> uCurrentState g' = uNextState c" if "uCurrentState g = 0"
  proof -
    have "gsm_cell ?g = Some c" using that assms by (simp add: gsm_cell_def gsm_send_def)
    then obtain g1 where "gsm_once (\<lambda>g a. []) ?g = Inr g1" "\<not> bEventPending g1" "uCurrentState g1 = uNextState c"
      using assms(4) by (simp add: gsm_once_def Let_def)
    moreover from this have "gsm_loop (\<lambda>g a. []) ?g = Some (Inr g1)"
      using p by (subst gsm_loop.simps, simp) (subst gsm_loop.simps, simp)
    ultimately show ?thesis using p by (simp add: genSM_Event_def Let_def)
  qed
  show "genSM_Event env (Some g) 2 x = Some (Inl SmOutOfTable)" if "uCurrentState g = 1"
  proof -
    have "gsm_cell ?g = None" using that assms by (simp add: gsm_cell_def gsm_send_def)
    then have "gsm_loop env ?g = Some (Inl SmOutOfTable)" using p by (subst gsm_loop.simps) (simp add: gsm_once_def)
    then show ?thesis using p by (simp add: genSM_Event_def Let_def)
  qed
qed

section \<open>The table of an fsm machine\<close>

text \<open>
  A path of the table: every transition starts where the one before it ended and is the cell of its state and event, with the cell's action;
  a state that an action writes is the next start.
\<close>

fun fsm_path :: "fsm_actionCell list list \<Rightarrow> u8 \<Rightarrow> u8 \<Rightarrow> u8 \<Rightarrow> fsm_ev list \<Rightarrow> u8 \<Rightarrow> bool" where
  "fsm_path rows ns ne s [] t = (s = t)"
| "fsm_path rows ns ne s (FsSet u # l) t = fsm_path rows ns ne u l t"
| "fsm_path rows ns ne s (FsMove a e b h # l) t =
     (a = s \<and> a < ns \<and> e < ne \<and> nextState (rows ! unat a ! unat e) = b \<and> actionFunc (rows ! unat a ! unat e) = h \<and> fsm_path rows ns ne b l t)"

lemma fsm_path_append: "fsm_path rows ns ne s l u \<Longrightarrow> fsm_path rows ns ne u l' t \<Longrightarrow> fsm_path rows ns ne s (l @ l') t"
proof (induction l arbitrary: s)
  case (Cons x l)
  then show ?case by (cases x) auto
qed simp

text \<open>
  What is asked of an action: it writes states of the table only, and it sends only events of lower rank than \<open>n\<close> in the state in which
  it sends them (an event outside the table may be sent freely).
\<close>

primrec fsm_act_ok :: "u8 \<Rightarrow> u8 \<Rightarrow> (u8 \<Rightarrow> u8 \<Rightarrow> nat) \<Rightarrow> nat \<Rightarrow> fsm_act \<Rightarrow> u8 \<Rightarrow> bool" where
  "fsm_act_ok ns ne r n (FaRet st) = (\<lambda>s. True)"
| "fsm_act_ok ns ne r n (FaSet u a) = (\<lambda>s. u < ns \<and> fsm_act_ok ns ne r n a u)"
| "fsm_act_ok ns ne r n (FaSend e d k) = (\<lambda>s. (e < ne \<longrightarrow> r s e < n) \<and> (\<forall>st u. u < ns \<longrightarrow> fsm_act_ok ns ne r n (k st u) u))"

definition fsm_env_ok :: "fsm_env \<Rightarrow> fsm_actionCell list list \<Rightarrow> u8 \<Rightarrow> u8 \<Rightarrow> (u8 \<Rightarrow> u8 \<Rightarrow> nat) \<Rightarrow> bool" where
  "fsm_env_ok env rows ns ne r \<longleftrightarrow> (\<forall>s e l d. s < ns \<longrightarrow> e < ne \<longrightarrow>
     fsm_act_ok ns ne r (r s e) (env l (actionFunc (rows ! unat s ! unat e)) d) (nextState (rows ! unat s ! unat e)))"

text \<open>A machine that is configured with the rows.\<close>

definition fsm_wf :: "fsm_actionCell list list \<Rightarrow> u8 \<Rightarrow> u8 \<Rightarrow> fsm_stateMachine \<Rightarrow> bool" where
  "fsm_wf rows ns ne f \<longleftrightarrow> ActiveNoOfStates f = ns \<and> ActiveNoOfEvents f = ne \<and> sm_rows rows (unat ns) (unat ne) \<and>
     (\<forall>c\<in>set (concat rows). nextState c < ns) \<and> take (unat ns * unat ne) (stateEventMatrix f) = concat rows"

lemma fsm_cell_rows:
  assumes "fsm_wf rows ns ne f" "s < ns" "e < ne"
  shows "fsm_cell f s e = Some (rows ! unat s ! unat e)" "nextState (rows ! unat s ! unat e) < ns"
proof -
  have lt: "unat s < unat ns" "unat e < unat ne" using assms(2,3) by (simp_all add: word_less_nat_alt)
  note w = assms(1) [unfolded fsm_wf_def]
  have r: "sm_rows rows (unat ns) (unat ne)" using w by blast
  have i: "unat s * unat ne + unat e < unat ns * unat ne" by (rule sm_index [OF lt])
  have "length (take (unat ns * unat ne) (stateEventMatrix f)) = unat ns * unat ne" using w sm_rows_length [OF r] by simp
  then have "unat ns * unat ne \<le> length (stateEventMatrix f)" by simp
  moreover have "stateEventMatrix f ! (unat s * unat ne + unat e) = concat rows ! (unat s * unat ne + unat e)"
    using w i by (metis nth_take)
  ultimately show "fsm_cell f s e = Some (rows ! unat s ! unat e)"
    using w i sm_rows_nth [OF r lt] by (simp add: fsm_cell_def Let_def)
  show "nextState (rows ! unat s ! unat e) < ns" using w sm_rows_mem [OF r lt] by blast
qed

lemma fsm_enter_rows:
  assumes "fsm_wf rows ns ne f" "s < ns"
  shows "e < ne \<Longrightarrow> fsm_enter env (Some f) s e d l =
      (let c = rows ! unat s ! unat e; l = l @ [FsMove s e (nextState c) (actionFunc c)]
       in Inr (if actionFunc c = NULL then FaRet TI_NOK else env l (actionFunc c) d, nextState c, l))"
    and "\<not> e < ne \<Longrightarrow> fsm_enter env (Some f) s e d l = Inr (FaRet TI_NOK, s, l)"
  using assms fsm_cell_rows(1) [OF assms] by (simp_all add: fsm_enter_def fsm_wf_def Let_def not_le not_less)

lemma fsm_run_path:
  assumes "fsm_wf rows ns ne f" "fsm_env_ok env rows ns ne r"
  shows "fsm_act_ok ns ne r n a s \<Longrightarrow> s < ns \<Longrightarrow>
    \<exists>st t l'. fsm_run env (Some f) a s l = Some (Inr (st, t, l @ l')) \<and> t < ns \<and> fsm_path rows ns ne s l' t"
proof (induction n arbitrary: a s l rule: less_induct)
  case (less n)
  from less.prems show ?case
  proof (induction a arbitrary: s l)
    case (FaRet st)
    then show ?case by (subst fsm_run.simps) simp
  next
    case (FaSet u a)
    then have "fsm_act_ok ns ne r n a u" "u < ns" by simp_all
    from FaSet.IH [OF this, of "l @ [FsSet u]"] obtain st t l'
      where "fsm_run env (Some f) a u (l @ [FsSet u]) = Some (Inr (st, t, l @ FsSet u # l'))" "t < ns" "fsm_path rows ns ne u l' t" by auto
    then show ?case by (subst fsm_run.simps) (auto intro: exI [of _ "FsSet u # l'"])
  next
    case (FaSend e d k)
    have k: "fsm_act_ok ns ne r n (k st u) u" if "u < ns" for st u using FaSend.prems(1) that by simp
    obtain a1 s1 l1 where en: "fsm_enter env (Some f) s e d l = Inr (a1, s1, l @ l1)" "s1 < ns" "fsm_path rows ns ne s l1 s1"
      "(\<exists>m<n. fsm_act_ok ns ne r m a1 s1) \<or> a1 = FaRet TI_NOK"
    proof (cases "e < ne")
      case True
      let ?c = "rows ! unat s ! unat e"
      have "fsm_act_ok ns ne r (r s e) (env l' (actionFunc ?c) d) (nextState ?c)" for l'
        using assms(2) FaSend.prems(2) True unfolding fsm_env_ok_def by blast
      moreover have "r s e < n" using FaSend.prems(1) True by simp
      ultimately show ?thesis using that [of _ "nextState ?c" "[FsMove s e (nextState ?c) (actionFunc ?c)]"] True FaSend.prems(2)
          fsm_enter_rows(1) [OF assms(1) FaSend.prems(2) True, of env d l] fsm_cell_rows(2) [OF assms(1) FaSend.prems(2) True]
        by (cases "actionFunc ?c = NULL") (auto simp: Let_def)
    next
      case False
      then show ?thesis using that [of _ s "[]"] fsm_enter_rows(2) [OF assms(1) FaSend.prems(2)] FaSend.prems(2) by simp
    qed
    obtain st t l' where r1: "fsm_run env (Some f) a1 s1 (l @ l1) = Some (Inr (st, t, (l @ l1) @ l'))" "t < ns" "fsm_path rows ns ne s1 l' t"
    proof (cases "a1 = FaRet TI_NOK")
      case True
      then have "fsm_run env (Some f) a1 s1 (l @ l1) = Some (Inr (TI_NOK, s1, (l @ l1) @ []))" by (subst fsm_run.simps) simp
      then show ?thesis using that en(2) by simp
    next
      case False
      then show ?thesis using that en(2,4) less.IH by blast
    qed
    obtain st' t' l'' where r2: "fsm_run env (Some f) (k st t) t (l @ l1 @ l') = Some (Inr (st', t', (l @ l1 @ l') @ l''))" "t' < ns"
      "fsm_path rows ns ne t l'' t'" using FaSend.IH [OF _ _ k [OF r1(2)] r1(2)] by blast
    have "fsm_run env (Some f) (FaSend e d k) s l = Some (Inr (st', t', l @ l1 @ l' @ l''))"
      using en(1) r1(1) r2(1) by (subst fsm_run.simps) simp
    then show ?case using r2(2) fsm_path_append [OF en(3) fsm_path_append [OF r1(3) r2(3)]] by blast
  qed
qed


section \<open>Properties\<close>







text \<open>
  C37: A state machine of \<open>fsm.c\<close> that was created and configured with a table of rows whose next states are states, in one of its states:
  \<open>fsm_Event\<close> returns, also when its actions write the state variable or send further events to the same machine while they run, and it
  leaves the machine in one of its states. All transitions done until then, with the actions called for them, form a path of the table
  from the state at the call to the final one, broken only where an action writes the state itself. For an event of the table the first
  transition leads to the state that \<open>fsm_GetNextState\<close> predicts, which is the final one when the cell has no action or its action just
  returns; an event that is not one of the table's does nothing and gives \<open>TI_NOK\<close>. The conditions on the actions: they
  write only states of the table, and an event that an action sends has a lower rank than the one for which the action runs.
\<close>

theorem fsm_Event_states:
  assumes "fsm_Create True p1 p2 ms me = (TI_OK, Some f0)" "fsm_Config (Some f0) (Some (concat rows)) ns ne tf = Inr (TI_OK, Some f)"
    "sm_rows rows (unat ns) (unat ne)" "\<forall>c\<in>set (concat rows). nextState c < ns" "s < ns" "fsm_env_ok env rows ns ne r"
  shows "\<exists>st t l'. fsm_Event env (Some f) s e d l = Some (Inr (st, t, l @ l')) \<and> t < ns \<and> fsm_path rows ns ne s l' t \<and>
    (if e < ne then \<exists>b h l''. l' = FsMove s e b h # l'' \<and> fsm_GetNextState (Some f) s e = Inr (TI_OK, Some b) \<and>
                      (h = NULL \<or> (\<exists>st'. env (l @ [FsMove s e b h]) h d = FaRet st') \<longrightarrow> t = b)
     else st = TI_NOK \<and> t = s \<and> l' = [] \<and> fsm_GetNextState (Some f) s e = Inr (TI_NOK, None))"
proof -
  have len: "length (concat rows) = unat ns * unat ne" by (rule sm_rows_length [OF assms(3)])
  have wf: "fsm_wf rows ns ne f"
    using assms(2-4) len by (auto simp: fsm_Config_def fsm_wf_def Let_def split: if_splits)
  then have act: "ActiveNoOfStates f = ns" "ActiveNoOfEvents f = ne" by (simp_all add: fsm_wf_def)
  have ret: "fsm_run env (Some f) (FaRet st) t l = Some (Inr (st, t, l))" for st t l by (subst fsm_run.simps) simp
  show ?thesis
  proof (cases "e < ne")
    case False
    then have "fsm_Event env (Some f) s e d l = Some (Inr (TI_NOK, s, l @ []))"
      using fsm_enter_rows(2) [OF wf assms(5) False] by (simp add: fsm_Event_def ret)
    moreover have "fsm_GetNextState (Some f) s e = Inr (TI_NOK, None)" using False by (simp add: fsm_GetNextState_def act)
    ultimately show ?thesis using False assms(5) by (intro exI [of _ TI_NOK] exI [of _ s] exI [of _ "[]"]) simp
  next
    case True
    define c where "c = rows ! unat s ! unat e"
    let ?m = "FsMove s e (nextState c) (actionFunc c)"
    define a where "a = (if actionFunc c = NULL then FaRet TI_NOK else env (l @ [?m]) (actionFunc c) d)"
    note cell = fsm_cell_rows [OF wf assms(5) True, folded c_def]
    have ev: "fsm_Event env (Some f) s e d l = fsm_run env (Some f) a (nextState c) (l @ [?m])"
      using fsm_enter_rows(1) [OF wf assms(5) True, of env d l] by (simp add: fsm_Event_def Let_def c_def a_def)
    have "fsm_act_ok ns ne r (r s e) a (nextState c)"
      using assms(5,6) True by (simp add: fsm_env_ok_def c_def a_def)
    from fsm_run_path [OF wf assms(6) this cell(2), of "l @ [?m]"] obtain st t l' where
      r: "fsm_run env (Some f) a (nextState c) (l @ [?m]) = Some (Inr (st, t, l @ ?m # l'))" "t < ns" "fsm_path rows ns ne (nextState c) l' t"
      by auto
    have "t = nextState c" if "actionFunc c = NULL \<or> (\<exists>st'. env (l @ [?m]) (actionFunc c) d = FaRet st')"
      using that r(1) by (auto simp: a_def ret split: if_splits)
    moreover have "fsm_GetNextState (Some f) s e = Inr (TI_OK, Some (nextState c))" using True assms(5) cell(1) by (simp add: fsm_GetNextState_def act)
    moreover have "fsm_path rows ns ne s (?m # l') t" using r(3) True assms(5) by (simp add: c_def)
    ultimately show ?thesis using ev r(1,2) True by (intro exI [of _ st] exI [of _ t] exI [of _ "?m # l'"]) simp
  qed
qed

text \<open>The action of the first cell sends the event \<open>1\<close>, as \<open>scanSRVSM_requestPS\<close> sends one: \<open>fsm_GetNextState\<close> gives \<open>1\<close>, the final state is \<open>0\<close>.\<close>

definition fsm_rows_ex :: "fsm_actionCell list list" where
  "fsm_rows_ex = [[\<lparr>nextState = 1, actionFunc = 0x10\<rparr>, \<lparr>nextState = 0, actionFunc = NULL\<rparr>], [\<lparr>nextState = 1, actionFunc = 0x20\<rparr>, \<lparr>nextState = 0, actionFunc = 0x20\<rparr>]]"

definition fsm_env_ex :: fsm_env where
  "fsm_env_ex l h d = (if h = 0x10 then FaSend 1 d (\<lambda>st s. FaRet st) else FaRet (action_nop d))"

lemma fsm_Event_reentry:
  "fsm_Event fsm_env_ex (snd (projr (fsm_Config (snd (fsm_Create True 0x100 0x200 4 4)) (Some (concat fsm_rows_ex)) 2 2 NULL))) 0 0 0x99 [] =
    Some (Inr (TI_OK, 0, [FsMove 0 0 1 0x10, FsMove 1 1 0 0x20]))"
  by code_simp

lemma u8_cases2: "(x :: u8) < 2 \<Longrightarrow> x = 0 \<or> x = 1"
  by (simp add: word_less_nat_alt word_unat_eq_iff) linarith

lemma fsm_ex_ok: "fsm_env_ok fsm_env_ex fsm_rows_ex 2 2 (\<lambda>s e. if s = 0 \<and> e = 0 then 1 else 0)"
  unfolding fsm_env_ok_def by (auto dest!: u8_cases2 simp: fsm_env_ex_def fsm_rows_ex_def)

theorem fsm_Event_states_witness:
  "\<exists>f st t l'. fsm_Config (snd (fsm_Create True 0x100 0x200 4 4)) (Some (concat fsm_rows_ex)) 2 2 NULL = Inr (TI_OK, Some f) \<and>
    fsm_Event fsm_env_ex (Some f) 0 0 0x99 [] = Some (Inr (st, t, l')) \<and> fsm_path fsm_rows_ex 2 2 0 l' t \<and> t < 2"
proof -
  let ?a = "the (snd (fsm_Create True 0x100 0x200 4 4))"
  let ?b = "the (snd (projr (fsm_Config (snd (fsm_Create True 0x100 0x200 4 4)) (Some (concat fsm_rows_ex)) 2 2 NULL)))"
  have h: "fsm_Create True 0x100 0x200 4 4 = (TI_OK, Some ?a)" "fsm_Config (Some ?a) (Some (concat fsm_rows_ex)) 2 2 NULL = Inr (TI_OK, Some ?b)"
    "sm_rows fsm_rows_ex (unat (2 :: u8)) (unat (2 :: u8))" "\<forall>c\<in>set (concat fsm_rows_ex). nextState c < 2" "(0 :: u8) < 2"
    by code_simp+
  from fsm_Event_states [OF h fsm_ex_ok, of 0 "0x99" "[]"] obtain st t l' where
    "fsm_Event fsm_env_ex (Some ?b) 0 0 0x99 [] = Some (Inr (st, t, l'))" "fsm_path fsm_rows_ex 2 2 0 l' t" "t < 2" by auto
  moreover have "fsm_Config (snd (fsm_Create True 0x100 0x200 4 4)) (Some (concat fsm_rows_ex)) 2 2 NULL = Inr (TI_OK, Some ?b)"
    by code_simp
  ultimately show ?thesis by blast
qed

end
