(* ===== verification/Spec2Isabelle.thy ===== *)
theory Spec2Isabelle
  imports Wlan_Queue Wlan_TxHwQueue Wlan_RxReorder Wlan_RxXferRun Wlan_TxXferRun Wlan_TxResult Wlan_FwEvent Wlan_EventMbox Wlan_TwRun Wlan_CmdRun Wlan_Context Wlan_Timer Wlan_Sm
begin

text \<open>
  \<^bold>\<open>The program.\<close> The repository redistributes the GPL sources of a tablet; its own driver logic is
  the TI wl1271 WLAN driver under \<open>src/hardware/ti/wlan/wl1271\<close>. This development verifies the driver's transport core, the part that
  every higher module runs on: the utilities (\<open>utils\<close>), the transaction queue of the bus (\<open>Txn\<close>), the bus interface layer (\<open>TWD/TwIf\<close>), the data
  service (\<open>TWD/Data_Service\<close>), the transfer of packets, results and events to and from the firmware (\<open>TWD/FW_Transfer\<close>) and the command path (\<open>TWD/Ctrl\<close>, \<open>TWD/FW_Transfer\<close>). File names below are relative to that directory. The
  build options are those of \<open>stad/build/linux/common.inc\<close>: \<open>TI_DBG\<close> is on, \<open>REPORT_LOG\<close> is off.

  \<^bold>\<open>How the parts interact.\<close> External events (interrupts, OS timers, the network stack) ask the context engine to run the
  driver task; the task calls the registered clients. The dispatcher of firmware interrupts is such a client: it reads the firmware's status and calls the handlers of
  its interrupts, which are the command mailbox, the event mailbox, the Rx transfer, the account of firmware memory and the Tx results. The timer module is another: an expired timer waits in one of its
  queues until the task calls its handler. Commands for the firmware pass through the command queue, one at a time, to
  the command mailbox, which turns them into bus transactions. The bus interface layer takes the transactions of all
  modules of the WLAN function, wakes the device for them, translates their addresses, and calls their owners back in the driver task. Under it the transaction queue orders transactions of
  all functions by priority and hands one at a time to the bus. Outgoing packets get a control block and firmware memory before
  the Tx transfer module sends them to the bus in bursts. The Rx transfer module reads the packets that the firmware's status announces and hands them to the
  reorder buffer, through which the packets of a block-ack session pass.

  \<^bold>\<open>The theories.\<close>
  \<^item> \<open>Wlan_Prelude\<close>: C types, status codes, facts on words and lists, reachable states (\<open>reach\<close>) and the locale \<open>state_invariant\<close>, which
    every component with a step relation interprets with its own invariant.
  \<^item> \<open>Wlan_Fifo\<close>: the locale \<open>bounded_fifo\<close>, interpreted by the linked queue (\<open>lq\<close>) and by the command ring (\<open>cmdring\<close>).
  \<^item> \<open>Wlan_Queue\<close> (\<open>utils/queue.c\<close>): the doubly linked queue on an explicit pointer memory. Each operation refines a list
    operation; two queues in one memory do not disturb each other.
  \<^item> \<open>Wlan_Pool\<close>: the contract of a fixed-size pool; \<open>Wlan_TxCtrlBlk\<close> (\<open>TWD/Data_Service/txCtrlBlk.c\<close>) provides it: the free chain
    stays intact, allocations are distinct.
  \<^item> \<open>Wlan_Bus\<close> (\<open>Txn/BusDrv.h\<close>): the packed transaction parameters.
  \<^item> \<open>Wlan_TxHwQueue\<close> (\<open>TWD/Data_Service/txHwQueue.c\<close>): the account of firmware memory blocks and descriptors per access category;
    blocks add up, reservations are covered, no queue stays stopped, and the upper layer is told which queues are released.
  \<^item> \<open>Wlan_RxQueue\<close>, \<open>Wlan_RxReorder\<close> (\<open>TWD/Data_Service/RxQueue.c\<close>): the reorder buffer, from the bytes of the frame. The receive path refines the
    specification \<open>reorder\<close>, with a window one shorter for the frame at a window end that passes the wrap of the sequence numbers; a session delivers in order and loses nothing;
    the window invariant, as long as no frame of three unchecked kinds was received; the timeout handler's outcome, including the case in which it never returns.
  \<^item> \<open>Wlan_FwStatus\<close> (\<open>TWD/FirmwareApi/public_host_int.h\<close>): the status structure of the firmware and the device addresses of the transfer modules.
  \<^item> \<open>Wlan_RxXfer\<close>, \<open>Wlan_RxXferRun\<close> (\<open>TWD/FW_Transfer/RxXfer.c\<close>): the Rx transfer module. No transaction structure is used twice at the same time, and a status
    that announces packets has all of them read once and in order.
  \<^item> \<open>Wlan_TxXfer\<close>, \<open>Wlan_TxXferRun\<close> (\<open>TWD/FW_Transfer/txXfer.c\<close>): the Tx transfer module with its ring of aggregated control blocks. Its log is accepted by a
    specification machine that sends the waiting packets in bursts; the completion of a burst reports exactly its packets (none with the default limit 0).
  \<^item> \<open>Wlan_FwEvent\<close> (\<open>TWD/FW_Transfer/FwEvent.c\<close>): the dispatch of interrupts. Its log is accepted by a specification machine (every interrupt answered by a read, handlers once and in order, and
    one outstanding awake request while busy, plus those that stops and failed reads leave behind); what one interrupt leads to, and the exact translation of host time.
  \<^item> \<open>Wlan_TxResult\<close> (\<open>TWD/FW_Transfer/txResult.c\<close>) and \<open>Wlan_EventMbox\<close> (\<open>TWD/FW_Transfer/eventMbox.c\<close>): the results of sent packets and the firmware's events, each put beside a
    model of the firmware that fills the shared memory. Results and events reach the upper layer once and in order, the calls of the events being exactly those of the published buffers; a failed read stops the results until a recovery.
  \<^item> \<open>Wlan_TxnQueue\<close>, \<open>Wlan_TxnSched\<close> (\<open>Txn/TxnQueue.c\<close>): the transaction queue with nested callbacks. Its log is accepted by a specification
    machine; the scheduler is work conserving, prefers priority, and returns.
  \<^item> \<open>Wlan_TwIf\<close> (\<open>TWD/TwIf/TwIf.c\<close>): the bus interface layer, with the model of the transaction queue as its \<open>hTxnQ\<close>. \<open>Wlan_TxnLog\<close> says what
    each call of the transaction queue adds to its log, \<open>Wlan_TwInv\<close> carries the account of pending transactions through every operation, and
    \<open>Wlan_TwRun\<close> has the step relation and the properties: the account is exact, a sleeping device has nothing under way and is addressed only by ELP writes, the
    notice that the device is available resumes the queues, callbacks come once and in order, a pending restart completes, and addresses are translated into their windows.
  \<^item> \<open>Wlan_CmdMbox\<close> (\<open>TWD/FW_Transfer/CmdMBox.c\<close>), \<open>Wlan_CmdQueue\<close> and \<open>Wlan_CmdRun\<close> (\<open>TWD/Ctrl/CmdQueue.c\<close>): the command path.
    Its log is accepted by a specification machine (one command at a time, in order, only to an awake device); every command is served;
    recovery calls every lost callback once; the error flag that outlives recovery.
  \<^item> \<open>Wlan_Context\<close> (\<open>utils/context.c\<close> and the wake locks of \<open>platforms/os/linux/src/osapi.c\<close>): no request is lost, also over suspend and resume, and the wake lock is
    held exactly while the driver task is queued, until a suspend disables the wake locks; one pass of the task calls every due client once.
  \<^item> \<open>Wlan_Timer\<close> (\<open>utils/timer.c\<close>): the timer module over the queues of \<open>Wlan_Queue\<close>. Its two queues stay intact and disjoint in the shared
    memory, as long as no timer is destroyed while it is queued, and the handler calls every expired timer once, in order.
  \<^item> \<open>Wlan_Sm\<close> (\<open>utils/GenSM.c\<close>, \<open>utils/fsm.c\<close>): the two state machine engines. Reads outside the table and calls of missing actions are faults. The first equals its table read as an automaton over the events
    sent to it, those sent from actions included, when they are in range; the second never leaves the states of its table and follows a path of it, also when its actions write
    the state variable or send further events to it.

  \<^bold>\<open>Modelling conventions.\<close> A structure is a record with the source's field names, an enumeration a datatype, an unsigned
  integer a word of its width. A handle is an address; a \<open>NULL\<close> result of an allocation is an argument. A module's calls of other modules that
  are not modelled with it (bus, OS timers, network stack, report) are events appended to a log in its state. A callback is a parameter that
  says which calls into the module it makes, in the state in which it runs; a property says which of them it allows. Code that the
  repository does not contain (the kernel's \<open>queue_work\<close>) is a parameter with its documented behaviour as a hypothesis. Interleaving is explicit: a
  step relation lets the operations follow each other in any order, each step being what the code does within one critical section or in the driver task. Where a
  component's code does not check an input on which its invariant depends, the step is allowed all the same and a mark beside the state records it (a timer destroyed while queued, wake locks
  disabled, a frame outside \<open>rx_ok\<close>); the property then names the mark. Other conditions on the environment (what the firmware announces, what callbacks call, which entries are freed) are premises of the
  steps, stated with them and with the properties.

  \<^bold>\<open>Loops.\<close> Structural loops are recursive functions. A loop that may not end is a partial function with values in \<open>option\<close> (the timeout
  search of the reorder buffer, the loop over the announced packets, the scheduler, the handler of completed transactions, the expiry handler, the event loop of the state machine), and that it returns is proved. The state machine of the interrupt dispatch is a total function; its
  measure counts the states that are left, since no handler sets the flag of a pending interrupt. The send loop of the scheduler has
  as fuel one more than the number of waiting transactions, which \<open>send_loop_fuel\<close> shows to be enough; the reorder buffer's array has
  eight entries and its loops that many rounds; the driver task takes a bound on its nesting, and one level is enough when the driver runs in its own context.

  \<^bold>\<open>Not modelled.\<close> Functions that only print or free memory. The steps of the bus interface layer leave out the timeout of its restart timer and the calls of clients while a restart is
  pending; two lemmas at the end of \<open>Wlan_TwRun\<close> show what such calls do. Of the driver: the download of the firmware and the debug access to it (\<open>HwInit.c\<close> and \<open>fwDebug.c\<close> of \<open>TWD/FW_Transfer\<close>, sequences of register accesses), the command builders, the MAC services and the station management; they are clients of what is
  modelled here. Of the repository: the HDMI driver in \<open>ext_modules\<close> and the third-party packages.

  \<^bold>\<open>Plan.\<close> The transport core is covered from the interrupt and the data service down to the bus. What a continuation would take next are the clients above it: the MAC
  services over the command path (scan, measurement and power-save state machines), and then the connection management of \<open>stad\<close>.
\<close>

end
